(* ===== verification/Nachos_Prelude.thy ===== *)
theory Nachos_Prelude
  imports Main "HOL-Library.Word" "HOL-Library.Signed_Division"
begin

text \<open>
  What every component of the development shares: the faults the C++ code can run into and the
  result type that carries them, bounds-checked array accesses and block copies, the rounding
  divisions of \<^verbatim>\<open>threads/utility.h\<close>, and the little-endian layout of 32-bit integers in byte
  buffers, with their round trips.

  A C++ \<^verbatim>\<open>int\<close> that the kernel uses as a size, an offset or a sector number is an \<open>int\<close>; where the
  code stores such a value in memory or on disk it is encoded as a 32-bit word, and the range that
  makes the encoding faithful (\<open>in_int32\<close>) is a hypothesis of the round trip. Registers and memory
  words of the simulated machine are \<open>32 word\<close> values throughout.
\<close>

unbundle bit_operations_syntax

named_theorems res_simps \<open>equations of the result combinators\<close>
named_theorems layout_simps \<open>sizes and layouts of stored structures\<close>

section \<open>Faults and results\<close>

text \<open>
  \<open>AssertFail\<close> is \<^verbatim>\<open>ASSERT(false)\<close> (the process aborts); \<open>OutOfBounds\<close> is an access outside an array
  or a buffer; \<open>NullPointer\<close> a member access through a null pointer; \<open>DivideError\<close> the trap of the
  host's division instruction; \<open>DoubleFree\<close> a second deletion of the same object; \<open>Uninitialised\<close> a
  read of a variable that was never assigned; \<open>DanglingPointer\<close> an access to an object that is not
  allocated; \<open>IntOverflow\<close> a signed addition that leaves the range of a 32-bit \<^verbatim>\<open>int\<close>, which C++ leaves
  undefined. None of them is caught by the code.
\<close>

datatype fault = AssertFail | OutOfBounds | NullPointer | DivideError | DoubleFree | Uninitialised | DanglingPointer
  | IntOverflow

definition INT_MAX :: int where "INT_MAX = 2147483647"

type_synonym 'a res = "fault + 'a"

definition rbind :: "'a res \<Rightarrow> ('a \<Rightarrow> 'b res) \<Rightarrow> 'b res" where
  "rbind m f = (case m of Inl e \<Rightarrow> Inl e | Inr x \<Rightarrow> f x)"

definition ASSERT :: "bool \<Rightarrow> 'a res \<Rightarrow> 'a res" where
  "ASSERT c k = (if c then k else Inl AssertFail)"

lemma rbind_Inl [simp, res_simps]: "rbind (Inl e) f = Inl e"
  by (simp add: rbind_def)

lemma rbind_Inr [simp, res_simps]: "rbind (Inr x) f = f x"
  by (simp add: rbind_def)

lemma rbind_eq_Inr [res_simps]: "rbind m f = Inr y \<longleftrightarrow> (\<exists>x. m = Inr x \<and> f x = Inr y)"
  by (cases m) auto

lemma rbind_eq_Inl: "rbind m f = Inl e \<longleftrightarrow> m = Inl e \<or> (\<exists>x. m = Inr x \<and> f x = Inl e)"
  by (cases m) auto

lemma rbind_cong [fundef_cong]: "m = m' \<Longrightarrow> (\<And>x. m' = Inr x \<Longrightarrow> f x = g x) \<Longrightarrow> rbind m f = rbind m' g"
  by (cases m') auto

lemma rbind_assoc: "rbind (rbind m f) g = rbind m (\<lambda>x. rbind (f x) g)"
  by (cases m) auto

lemma rbind_unit [simp]: "rbind m Inr = m"
  by (cases m) auto

lemma ASSERT_True [simp, res_simps]: "ASSERT True k = k"
  by (simp add: ASSERT_def)

lemma ASSERT_False [simp, res_simps]: "ASSERT False k = Inl AssertFail"
  by (simp add: ASSERT_def)

lemma ASSERT_eq_Inr [simp, res_simps]: "ASSERT c k = Inr x \<longleftrightarrow> c \<and> k = Inr x"
  by (simp add: ASSERT_def)

section \<open>Arrays and block copies\<close>

definition aget :: "'a list \<Rightarrow> int \<Rightarrow> 'a res" where
  "aget xs i = (if 0 \<le> i \<and> i < int (length xs) then Inr (xs ! nat i) else Inl OutOfBounds)"

definition aput :: "'a list \<Rightarrow> int \<Rightarrow> 'a \<Rightarrow> 'a list res" where
  "aput xs i v = (if 0 \<le> i \<and> i < int (length xs) then Inr (xs[nat i := v]) else Inl OutOfBounds)"

lemma aget_in [simp]: "0 \<le> i \<Longrightarrow> i < int (length xs) \<Longrightarrow> aget xs i = Inr (xs ! nat i)"
  by (simp add: aget_def)

lemma aput_in [simp]: "0 \<le> i \<Longrightarrow> i < int (length xs) \<Longrightarrow> aput xs i v = Inr (xs[nat i := v])"
  by (simp add: aput_def)

lemma aput_eq_Inr: "aput xs i v = Inr ys \<longleftrightarrow> 0 \<le> i \<and> i < int (length xs) \<and> ys = xs[nat i := v]"
  by (auto simp: aput_def)

lemma aget_eq_Inr: "aget xs i = Inr v \<longleftrightarrow> 0 \<le> i \<and> i < int (length xs) \<and> v = xs ! nat i"
  by (auto simp: aget_def)

text \<open>\<open>patch xs off ys\<close> is \<open>xs\<close> with the run of \<open>ys\<close> laid over it at offset \<open>off\<close>.\<close>

definition patch :: "'a list \<Rightarrow> nat \<Rightarrow> 'a list \<Rightarrow> 'a list" where
  "patch xs off ys = take off xs @ ys @ drop (off + length ys) xs"

lemma length_patch [simp]: "off + length ys \<le> length xs \<Longrightarrow> length (patch xs off ys) = length xs"
  by (simp add: patch_def)

lemma patch_Nil [simp]: "patch xs off [] = xs"
  by (simp add: patch_def)

lemma patch_whole: "length ys = length xs \<Longrightarrow> patch xs 0 ys = ys"
  by (simp add: patch_def)

lemma nth_patch:
  assumes "off + length ys \<le> length xs" and "i < length xs"
  shows "patch xs off ys ! i = (if off \<le> i \<and> i < off + length ys then ys ! (i - off) else xs ! i)"
  using assms by (auto simp: patch_def nth_append)

lemma take_drop_patch:
  assumes "off + length ys \<le> length xs"
  shows "take (length ys) (drop off (patch xs off ys)) = ys"
  using assms by (simp add: patch_def)

text \<open>
  \<^verbatim>\<open>bcopy(&buf[off], into, n)\<close> and \<^verbatim>\<open>bcopy(from, &buf[off], n)\<close>, faulting when the run leaves the
  buffer or the source.
\<close>

definition bcopy_out :: "'a list \<Rightarrow> int \<Rightarrow> int \<Rightarrow> 'a list res" where
  "bcopy_out buf off n =
     (if 0 \<le> off \<and> 0 \<le> n \<and> off + n \<le> int (length buf)
      then Inr (take (nat n) (drop (nat off) buf)) else Inl OutOfBounds)"

definition bcopy_in :: "'a list \<Rightarrow> int \<Rightarrow> int \<Rightarrow> 'a list \<Rightarrow> 'a list res" where
  "bcopy_in from n off buf =
     (if 0 \<le> off \<and> 0 \<le> n \<and> off + n \<le> int (length buf) \<and> n \<le> int (length from)
      then Inr (patch buf (nat off) (take (nat n) from)) else Inl OutOfBounds)"

lemma bcopy_in_all:
  "off + length d \<le> length buf \<Longrightarrow> bcopy_in d (int (length d)) (int off) buf = Inr (patch buf off d)"
  by (simp add: bcopy_in_def)

section \<open>Maps\<close>

lemma ran_remove:
  assumes "inj_on m (dom m)" and "m k = Some x"
  shows "ran (m(k := None)) = ran m - {x}"
proof -
  have u: "a = k" if "m a = Some x" for a using assms that by (auto simp: inj_on_def dom_def)
  have "y \<in> ran (m(k := None)) \<longleftrightarrow> y \<in> ran m - {x}" for y
  proof
    assume "y \<in> ran (m(k := None))"
    then obtain a where "a \<noteq> k" "m a = Some y" by (auto simp: ran_def split: if_splits)
    with u show "y \<in> ran m - {x}" by (auto simp: ran_def)
  next
    assume "y \<in> ran m - {x}"
    then obtain a where a: "m a = Some y" "y \<noteq> x" by (auto simp: ran_def)
    with assms(2) have "(m(k := None)) a = Some y" by auto
    then show "y \<in> ran (m(k := None))" by (rule ranI)
  qed
  then show ?thesis by blast
qed

section \<open>Rounding divisions\<close>

text \<open>\<^verbatim>\<open>n/s\<close> and \<^verbatim>\<open>n%s\<close> on C++ ints truncate towards zero (\<open>sdiv\<close>, \<open>smod\<close>).\<close>

definition divRoundDown :: "int \<Rightarrow> int \<Rightarrow> int" where
  "divRoundDown n s = n sdiv s"

definition divRoundUp :: "int \<Rightarrow> int \<Rightarrow> int" where
  "divRoundUp n s = n sdiv s + (if n smod s > 0 then 1 else 0)"

lemma sdiv_nonneg [simp]: "0 \<le> n \<Longrightarrow> 0 < s \<Longrightarrow> n sdiv s = n div s" for n s :: int
  by (cases "n = 0") (auto simp: signed_divide_int_def)

lemma smod_nonneg [simp]: "0 \<le> n \<Longrightarrow> 0 < s \<Longrightarrow> n smod s = n mod s" for n s :: int
proof -
  assume "0 \<le> n" "0 < s"
  then have "n smod s = n - n div s * s"
    using sdiv_mult_smod_eq [of n s] by simp
  then show ?thesis by (simp add: minus_div_mult_eq_mod)
qed

lemma divRoundDown_nonneg: "0 \<le> n \<Longrightarrow> 0 < s \<Longrightarrow> divRoundDown n s = n div s"
  by (simp add: divRoundDown_def)

lemma divRoundUp_nonneg: "0 \<le> n \<Longrightarrow> 0 < s \<Longrightarrow> divRoundUp n s = (n + s - 1) div s"
proof -
  assume n: "0 \<le> n" and s: "0 < s"
  obtain q r where qr: "n = q * s + r" "0 \<le> r" "r < s"
    using s by (metis div_mult_mod_eq pos_mod_bound pos_mod_sign)
  show ?thesis
  proof (cases "r = 0")
    case True
    have "(q * s + (s - 1)) div s = q" using s by (simp add: div_add1_eq)
    with True qr n s show ?thesis by (simp add: divRoundUp_def algebra_simps)
  next
    case False
    have "n mod s = r" "n div s = q" using qr by auto
    moreover have "(n + s - 1) div s = ((q + 1) * s + (r - 1)) div s"
      using qr by (simp add: algebra_simps)
    moreover have "\<dots> = q + 1" using qr s False by simp
    ultimately show ?thesis using n s False qr by (simp add: divRoundUp_def)
  qed
qed

lemma int_range_first: "i < n \<Longrightarrow> {i..<n} = insert i {i + 1..<n}" for i n :: int
  by auto

lemma int_range_last: "i \<le> n \<Longrightarrow> {i..<n + 1} = insert n {i..<n}" for i n :: int
  by auto

section \<open>Little-endian layout\<close>

type_synonym byte = "8 word"

definition le32 :: "32 word \<Rightarrow> byte list" where
  "le32 w = [ucast w, ucast (drop_bit 8 w), ucast (drop_bit 16 w), ucast (drop_bit 24 w)]"

fun of_le32 :: "byte \<Rightarrow> byte \<Rightarrow> byte \<Rightarrow> byte \<Rightarrow> 32 word" where
  "of_le32 a b c d =
     (ucast a OR push_bit 8 (ucast b)) OR (push_bit 16 (ucast c) OR push_bit 24 (ucast d))"

definition bytes_of :: "32 word list \<Rightarrow> byte list" where
  "bytes_of ws = concat (map le32 ws)"

fun words_of :: "byte list \<Rightarrow> 32 word list" where
  "words_of (a # b # c # d # xs) = of_le32 a b c d # words_of xs"
| "words_of _ = []"

lemma length_le32 [simp, layout_simps]: "length (le32 w) = 4"
  by (simp add: le32_def)

lemma of_le32_le32:
  "of_le32 (ucast w) (ucast (drop_bit 8 w)) (ucast (drop_bit 16 w)) (ucast (drop_bit 24 w)) = w"
proof (rule bit_word_eqI)
  fix n assume "n < LENGTH(32)"
  then show "bit (of_le32 (ucast w) (ucast (drop_bit 8 w)) (ucast (drop_bit 16 w))
      (ucast (drop_bit 24 w))) n = bit w n"
    by (cases "n < 8"; cases "n < 16"; cases "n < 24") (auto simp: bit_simps)
qed

lemma bit_byte_beyond [simp]: "8 \<le> k \<Longrightarrow> \<not> bit (a :: byte) k"
  using bit_imp_le_length [of a k] by auto

lemma le32_of_le32: "le32 (of_le32 a b c d) = [a, b, c, d]"
  by (auto simp: le32_def bit_simps intro!: bit_word_eqI)

lemma words_of_bytes_of [simp]: "words_of (bytes_of ws) = ws"
  by (induction ws) (simp_all add: bytes_of_def le32_def of_le32_le32 del: of_le32.simps)

lemma dvd4_Suc4 [simp]: "4 dvd Suc (Suc (Suc (Suc n))) \<longleftrightarrow> 4 dvd n"
  by presburger

lemma bytes_of_words_of: "4 dvd length bs \<Longrightarrow> bytes_of (words_of bs) = bs"
  by (induction bs rule: words_of.induct)
    (auto simp: bytes_of_def le32_of_le32 dest: dvd_imp_le simp del: of_le32.simps)

lemma length_bytes_of [simp, layout_simps]: "length (bytes_of ws) = 4 * length ws"
  by (induction ws) (simp_all add: bytes_of_def)

lemma length_words_of [simp, layout_simps]: "length (words_of bs) = length bs div 4"
  by (induction bs rule: words_of.induct) auto

lemma bytes_of_append: "bytes_of (xs @ ys) = bytes_of xs @ bytes_of ys"
  by (simp add: bytes_of_def)

text \<open>An \<^verbatim>\<open>int\<close> in memory: two's complement in 32 bits.\<close>

definition in_int32 :: "int \<Rightarrow> bool" where
  "in_int32 i \<longleftrightarrow> - (2 ^ 31) \<le> i \<and> i < 2 ^ 31"

lemma sint_of_int32 [simp]: "in_int32 i \<Longrightarrow> sint (word_of_int i :: 32 word) = i"
  by (simp add: in_int32_def int_word_sint)

lemma in_int32_sint [simp]: "in_int32 (sint (w :: 32 word))"
  using sint_ge [of w] sint_lt [of w] by (simp add: in_int32_def)

lemma word_of_int_sint_32: "word_of_int (sint (w :: 32 word)) = w"
  by simp

end
