(* ===== verification/Bitmap.thy ===== *)
theory Bitmap
  imports Nachos_Prelude
begin

text \<open>
  The bitmap of \<^verbatim>\<open>userprog/bitmap.cc\<close>: an array of 32-bit words in which the kernel records which
  disk sectors and which physical pages are in use. The operations are modelled on the words; the
  set of marked bits is the abstraction, and the locale \<open>allocator\<close> is the contract that the file
  headers and the address spaces rely on.
\<close>

section \<open>The class BitMap\<close>

definition BitsInByte :: int where "BitsInByte = 8"
definition BitsInWord :: int where "BitsInWord = 32"

record BitMap =
  numBits :: int
  numWords :: int
  bitwords :: "32 word list" \<comment> \<open>the member \<^verbatim>\<open>map\<close>\<close>

definition BitMap_Mark :: "int \<Rightarrow> BitMap \<Rightarrow> BitMap res" where
  "BitMap_Mark which bm =
     ASSERT (0 \<le> which \<and> which < numBits bm)
       (rbind (aget (bitwords bm) (which sdiv BitsInWord)) (\<lambda>w.
        rbind (aput (bitwords bm) (which sdiv BitsInWord)
                 (w OR push_bit (nat (which smod BitsInWord)) 1)) (\<lambda>ws.
        Inr (bm\<lparr>bitwords := ws\<rparr>))))"

definition BitMap_Clear :: "int \<Rightarrow> BitMap \<Rightarrow> BitMap res" where
  "BitMap_Clear which bm =
     ASSERT (0 \<le> which \<and> which < numBits bm)
       (rbind (aget (bitwords bm) (which sdiv BitsInWord)) (\<lambda>w.
        rbind (aput (bitwords bm) (which sdiv BitsInWord)
                 (w AND NOT (push_bit (nat (which smod BitsInWord)) 1))) (\<lambda>ws.
        Inr (bm\<lparr>bitwords := ws\<rparr>))))"

definition BitMap_Test :: "int \<Rightarrow> BitMap \<Rightarrow> bool res" where
  "BitMap_Test which bm =
     ASSERT (0 \<le> which \<and> which < numBits bm)
       (rbind (aget (bitwords bm) (which sdiv BitsInWord)) (\<lambda>w.
        Inr (w AND push_bit (nat (which smod BitsInWord)) 1 \<noteq> 0)))"

function BitMap_Find_from :: "int \<Rightarrow> BitMap \<Rightarrow> (int \<times> BitMap) res" where
  "BitMap_Find_from i bm =
     (if i < numBits bm then
        rbind (BitMap_Test i bm) (\<lambda>t.
          if \<not> t then rbind (BitMap_Mark i bm) (\<lambda>bm'. Inr (i, bm'))
          else BitMap_Find_from (i + 1) bm)
      else Inr (-1, bm))"
  by pat_completeness auto
termination by (relation "measure (\<lambda>(i, bm). nat (numBits bm - i))") auto

definition BitMap_Find :: "BitMap \<Rightarrow> (int \<times> BitMap) res" where
  "BitMap_Find bm = BitMap_Find_from 0 bm"

function BitMap_NumClear_from :: "int \<Rightarrow> int \<Rightarrow> BitMap \<Rightarrow> int res" where
  "BitMap_NumClear_from i count bm =
     (if i < numBits bm then
        rbind (BitMap_Test i bm) (\<lambda>t.
          BitMap_NumClear_from (i + 1) (if \<not> t then count + 1 else count) bm)
      else Inr count)"
  by pat_completeness auto
termination by (relation "measure (\<lambda>(i, count, bm). nat (numBits bm - i))") auto

definition BitMap_NumClear :: "BitMap \<Rightarrow> int res" where
  "BitMap_NumClear bm = BitMap_NumClear_from 0 0 bm"

text \<open>The constructor's loop \<^verbatim>\<open>for (i = 0; i < numBits; i++) Clear(i)\<close>; \<open>k\<close> iterations are left.\<close>

fun BitMap_init_from :: "nat \<Rightarrow> int \<Rightarrow> BitMap \<Rightarrow> BitMap res" where
  "BitMap_init_from 0 i bm = Inr bm"
| "BitMap_init_from (Suc k) i bm = rbind (BitMap_Clear i bm) (BitMap_init_from k (i + 1))"

text \<open>
  The constructor. \<^verbatim>\<open>new unsigned int[numWords]\<close> is uninitialised memory: its words are the
  parameter \<open>junk\<close>.
\<close>

definition BitMap_new :: "(nat \<Rightarrow> 32 word) \<Rightarrow> int \<Rightarrow> BitMap res" where
  "BitMap_new junk nitems =
     (let nw = divRoundUp nitems BitsInWord in
      BitMap_init_from (nat nitems) 0
        \<lparr>numBits = nitems, numWords = nw, bitwords = map junk [0..<nat nw]\<rparr>)"

text \<open>The bit numbers that \<^verbatim>\<open>Print\<close> lists, in the order it prints them.\<close>

function BitMap_Print_from :: "int \<Rightarrow> BitMap \<Rightarrow> int list res" where
  "BitMap_Print_from i bm =
     (if i < numBits bm then
        rbind (BitMap_Test i bm) (\<lambda>t.
        rbind (BitMap_Print_from (i + 1) bm) (\<lambda>out. Inr (if t then i # out else out)))
      else Inr [])"
  by pat_completeness auto
termination by (relation "measure (\<lambda>(i, bm). nat (numBits bm - i))") auto

definition BitMap_Print :: "BitMap \<Rightarrow> int list res" where
  "BitMap_Print bm = BitMap_Print_from 0 bm"

declare BitMap_Find_from.simps [simp del] BitMap_NumClear_from.simps [simp del]
  BitMap_Print_from.simps [simp del]

section \<open>Invariant and abstraction\<close>

definition bm_wf :: "BitMap \<Rightarrow> bool" where
  "bm_wf bm \<longleftrightarrow> 0 \<le> numBits bm \<and> numWords bm = divRoundUp (numBits bm) BitsInWord
     \<and> int (length (bitwords bm)) = numWords bm"

definition bm_bit :: "BitMap \<Rightarrow> int \<Rightarrow> bool" where
  "bm_bit bm i = bit (bitwords bm ! nat (i div 32)) (nat (i mod 32))"

definition marked :: "BitMap \<Rightarrow> int set" where
  "marked bm = {i. 0 \<le> i \<and> i < numBits bm \<and> bm_bit bm i}"

lemma finite_marked [simp]: "finite (marked bm)"
  by (rule finite_subset [of _ "{0..<numBits bm}"]) (auto simp: marked_def)

lemma marked_subset: "marked bm \<subseteq> {0..<numBits bm}"
  by (auto simp: marked_def)

lemma word_index:
  assumes "bm_wf bm" and "0 \<le> i" and "i < numBits bm"
  shows "0 \<le> i div 32" and "i div 32 < int (length (bitwords bm))"
proof -
  have "i div 32 < (numBits bm + 32 - 1) div 32"
    using assms by (simp add: div_pos_pos_trivial)
  then show "i div 32 < int (length (bitwords bm))"
    using assms by (simp add: bm_wf_def BitsInWord_def divRoundUp_nonneg)
  show "0 \<le> i div 32" using assms by simp
qed

lemma and_bit_ne_0: "(w AND push_bit n 1 \<noteq> 0) = bit w n" if "n < 32" for w :: "32 word"
proof
  assume "w AND push_bit n 1 \<noteq> 0"
  then obtain k where "bit (w AND push_bit n 1) k"
    by (metis bit_eq_iff bit_0_eq bot_apply bot_bool_def)
  then show "bit w n" by (auto simp: bit_simps)
next
  assume "bit w n"
  then have "bit (w AND push_bit n 1) n" using that by (simp add: bit_simps)
  then show "w AND push_bit n 1 \<noteq> 0" by (metis bit_0_eq bot_apply bot_bool_def)
qed

lemma int_div_mod_eq_iff: "i = j \<longleftrightarrow> i div 32 = j div 32 \<and> i mod 32 = j mod 32" for i j :: int
  by (metis div_mult_mod_eq)

lemma bm_bit_update:
  assumes wf: "bm_wf bm" and i: "0 \<le> i" "i < numBits bm" and j: "0 \<le> j" "j < numBits bm"
    and b: "\<And>n. n < 32 \<Longrightarrow> bit v n = (if n = nat (i mod 32) then c
              else bit (bitwords bm ! nat (i div 32)) n)"
  shows "bm_bit (bm\<lparr>bitwords := (bitwords bm)[nat (i div 32) := v]\<rparr>) j
       = (if j = i then c else bm_bit bm j)"
proof (cases "nat (j div 32) = nat (i div 32)")
  case True
  then have d: "j div 32 = i div 32" using i j by simp
  have "nat (i div 32) < length (bitwords bm)"
    using word_index [OF wf i] by linarith
  moreover have "(nat (j mod 32) = nat (i mod 32)) = (j = i)"
    using d int_div_mod_eq_iff [of j i] by auto
  ultimately show ?thesis
    using b [of "nat (j mod 32)"] True by (simp add: bm_bit_def)
next
  case False
  then have "j \<noteq> i" by auto
  with False show ?thesis by (simp add: bm_bit_def)
qed

lemma BitMap_Test_correct:
  assumes "bm_wf bm" and "0 \<le> i" and "i < numBits bm"
  shows "BitMap_Test i bm = Inr (i \<in> marked bm)"
  using assms word_index [OF assms] and_bit_ne_0 [of "nat (i mod 32)"]
  by (simp add: BitMap_Test_def BitsInWord_def marked_def bm_bit_def nat_less_iff)

lemma BitMap_Mark_correct:
  assumes wf: "bm_wf bm" and i: "0 \<le> i" "i < numBits bm"
  obtains bm' where "BitMap_Mark i bm = Inr bm'" and "bm_wf bm'"
    and "numBits bm' = numBits bm" and "marked bm' = insert i (marked bm)"
proof -
  let ?v = "bitwords bm ! nat (i div 32) OR push_bit (nat (i mod 32)) 1"
  let ?bm = "bm\<lparr>bitwords := (bitwords bm)[nat (i div 32) := ?v]\<rparr>"
  have "BitMap_Mark i bm = Inr ?bm"
    using i word_index [OF wf i] by (simp add: BitMap_Mark_def BitsInWord_def)
  moreover have "bm_bit ?bm j = (j = i \<or> bm_bit bm j)" if "0 \<le> j" "j < numBits bm" for j
    using bm_bit_update [OF wf i that, of ?v True] by (auto simp: bit_simps)
  then have "marked ?bm = insert i (marked bm)"
    using i by (auto simp: marked_def)
  moreover have "bm_wf ?bm" using wf by (simp add: bm_wf_def)
  ultimately show ?thesis using that by simp
qed

lemma BitMap_Clear_correct:
  assumes wf: "bm_wf bm" and i: "0 \<le> i" "i < numBits bm"
  obtains bm' where "BitMap_Clear i bm = Inr bm'" and "bm_wf bm'"
    and "numBits bm' = numBits bm" and "marked bm' = marked bm - {i}"
proof -
  let ?v = "bitwords bm ! nat (i div 32) AND NOT (push_bit (nat (i mod 32)) 1)"
  let ?bm = "bm\<lparr>bitwords := (bitwords bm)[nat (i div 32) := ?v]\<rparr>"
  have "BitMap_Clear i bm = Inr ?bm"
    using i word_index [OF wf i] by (simp add: BitMap_Clear_def BitsInWord_def)
  moreover have "bm_bit ?bm j = (j \<noteq> i \<and> bm_bit bm j)" if "0 \<le> j" "j < numBits bm" for j
    using bm_bit_update [OF wf i that, of ?v False] by (auto simp: bit_simps)
  then have "marked ?bm = marked bm - {i}"
    by (auto simp: marked_def)
  moreover have "bm_wf ?bm" using wf by (simp add: bm_wf_def)
  ultimately show ?thesis using that by simp
qed

lemma BitMap_Find_from_correct:
  assumes "bm_wf bm" and "0 \<le> i" and "{0..<i} \<subseteq> marked bm" and "i \<le> numBits bm"
  shows "(\<exists>s bm'. BitMap_Find_from i bm = Inr (s, bm') \<and> 0 \<le> s \<and> s < numBits bm
            \<and> s \<notin> marked bm \<and> {0..<s} \<subseteq> marked bm \<and> marked bm' = insert s (marked bm)
            \<and> bm_wf bm' \<and> numBits bm' = numBits bm)
       \<or> (BitMap_Find_from i bm = Inr (-1, bm) \<and> marked bm = {0..<numBits bm})"
  using assms
proof (induction i bm rule: BitMap_Find_from.induct)
  case (1 i bm)
  show ?case
  proof (cases "i < numBits bm")
    case False
    with "1.prems" have "marked bm = {0..<numBits bm}" using marked_subset [of bm] by auto
    with False show ?thesis by (simp add: BitMap_Find_from.simps [of i])
  next
    case lt: True
    note t = BitMap_Test_correct [OF "1.prems"(1,2) lt]
    show ?thesis
    proof (cases "i \<in> marked bm")
      case True
      then have "{0..<i + 1} \<subseteq> marked bm" using "1.prems"(2,3)
        by (simp add: int_range_last)
      with "1.IH" [OF lt, of True] "1.prems" lt True t show ?thesis
        by (simp add: BitMap_Find_from.simps [of i])
    next
      case False
      obtain bm' where "BitMap_Mark i bm = Inr bm'" "bm_wf bm'"
        "numBits bm' = numBits bm" "marked bm' = insert i (marked bm)"
        using BitMap_Mark_correct [OF "1.prems"(1,2) lt] .
      with False lt t "1.prems" show ?thesis
        by (simp add: BitMap_Find_from.simps [of i])
    qed
  qed
qed

lemma BitMap_Find_cases:
  assumes "bm_wf bm"
  obtains (free) s bm' where "BitMap_Find bm = Inr (s, bm')" "0 \<le> s" "s < numBits bm"
      "s \<notin> marked bm" "{0..<s} \<subseteq> marked bm" "marked bm' = insert s (marked bm)"
      "bm_wf bm'" "numBits bm' = numBits bm"
    | (full) "BitMap_Find bm = Inr (-1, bm)" "marked bm = {0..<numBits bm}"
proof -
  have "0 \<le> numBits bm" using assms by (simp add: bm_wf_def)
  then show ?thesis
    using BitMap_Find_from_correct [OF assms, of 0] free full
    by (auto simp: BitMap_Find_def)
qed

lemma card_unmarked_step:
  assumes "i < (n :: int)" and "finite M"
  shows "card ({i..<n} - M) = (if i \<in> M then 0 else 1) + card ({i + 1..<n} - M)"
proof -
  have "{i..<n} - M = (if i \<in> M then {} else {i}) \<union> ({i + 1..<n} - M)"
    using int_range_first [OF assms(1)] by auto
  then show ?thesis by (auto simp: card_insert_if)
qed

lemma BitMap_NumClear_from_correct:
  assumes "bm_wf bm" and "0 \<le> i"
  shows "BitMap_NumClear_from i c bm = Inr (c + int (card ({i..<numBits bm} - marked bm)))"
  using assms
proof (induction i c bm rule: BitMap_NumClear_from.induct)
  case (1 i c bm)
  show ?case
  proof (cases "i < numBits bm")
    case True
    from "1.prems" "1.IH" [OF True, of "i \<in> marked bm"] True
      BitMap_Test_correct [OF "1.prems" True] card_unmarked_step [OF True finite_marked]
    show ?thesis by (simp add: BitMap_NumClear_from.simps [of i])
  next
    case False
    then show ?thesis by (simp add: BitMap_NumClear_from.simps [of i])
  qed
qed

lemma BitMap_NumClear_correct:
  "bm_wf bm \<Longrightarrow> BitMap_NumClear bm = Inr (int (card ({0..<numBits bm} - marked bm)))"
  by (simp add: BitMap_NumClear_def BitMap_NumClear_from_correct)

lemma BitMap_init_from_correct:
  assumes "bm_wf bm" and "0 \<le> i" and "i + int k = numBits bm"
  shows "\<exists>bm'. BitMap_init_from k i bm = Inr bm' \<and> bm_wf bm' \<and> numBits bm' = numBits bm
           \<and> marked bm' = marked bm - {i..<numBits bm}"
  using assms
proof (induction k arbitrary: i bm)
  case 0
  then show ?case by simp
next
  case (Suc k)
  then have lt: "i < numBits bm" by simp
  obtain bm1 where bm1: "BitMap_Clear i bm = Inr bm1" "bm_wf bm1"
      "numBits bm1 = numBits bm" "marked bm1 = marked bm - {i}"
    using BitMap_Clear_correct [OF Suc.prems(1,2) lt] .
  note int_range_first [OF lt]
  with Suc.IH [of bm1 "i + 1"] Suc.prems bm1 show ?case by auto
qed

lemma BitMap_new_correct:
  assumes "0 \<le> n"
  obtains bm where "BitMap_new junk n = Inr bm" "bm_wf bm" "numBits bm = n" "marked bm = {}"
proof -
  let ?bm = "\<lparr>numBits = n, numWords = divRoundUp n BitsInWord,
    bitwords = map junk [0..<nat (divRoundUp n BitsInWord)]\<rparr>"
  have "bm_wf ?bm" using assms by (simp add: bm_wf_def divRoundUp_nonneg BitsInWord_def)
  moreover have "marked ?bm \<subseteq> {0..<n}" using marked_subset [of ?bm] by simp
  ultimately show ?thesis
    using BitMap_init_from_correct [of ?bm 0 "nat n"] assms that
    by (auto simp: BitMap_new_def Let_def)
qed

section \<open>The allocator contract\<close>

text \<open>
  What the clients of a bitmap rely on: an allocation map of \<open>size\<close> slots whose used slots form a
  set. \<open>find\<close> allocates the least free slot and answers \<open>-1\<close>, changing nothing, when there is none.
\<close>

locale allocator =
  fixes test :: "int \<Rightarrow> 'm \<Rightarrow> bool res"
    and clear :: "int \<Rightarrow> 'm \<Rightarrow> 'm res"
    and find :: "'m \<Rightarrow> (int \<times> 'm) res"
    and numClear :: "'m \<Rightarrow> int res"
    and inv :: "'m \<Rightarrow> bool"
    and size :: "'m \<Rightarrow> int"
    and used :: "'m \<Rightarrow> int set"
  assumes used_range: "inv m \<Longrightarrow> used m \<subseteq> {0..<size m}"
    and test_used: "inv m \<Longrightarrow> 0 \<le> i \<Longrightarrow> i < size m \<Longrightarrow> test i m = Inr (i \<in> used m)"
    and clear_used: "inv m \<Longrightarrow> 0 \<le> i \<Longrightarrow> i < size m \<Longrightarrow>
      \<exists>m'. clear i m = Inr m' \<and> inv m' \<and> size m' = size m \<and> used m' = used m - {i}"
    and find_free: "inv m \<Longrightarrow> used m \<noteq> {0..<size m} \<Longrightarrow>
      \<exists>s m'. find m = Inr (s, m') \<and> s \<notin> used m \<and> 0 \<le> s \<and> s < size m \<and> {0..<s} \<subseteq> used m
        \<and> inv m' \<and> size m' = size m \<and> used m' = insert s (used m)"
    and find_full: "inv m \<Longrightarrow> used m = {0..<size m} \<Longrightarrow> find m = Inr (-1, m)"
    and numClear_free: "inv m \<Longrightarrow> numClear m = Inr (int (card ({0..<size m} - used m)))"

text \<open>Allocating \<open>n\<close> slots in a row, as the clients' loops do, and giving a list of slots back.\<close>

fun iter_find :: "('m \<Rightarrow> (int \<times> 'm) res) \<Rightarrow> nat \<Rightarrow> 'm \<Rightarrow> (int list \<times> 'm) res" where
  "iter_find f 0 m = Inr ([], m)"
| "iter_find f (Suc n) m = rbind (f m) (\<lambda>(s, m1).
     rbind (iter_find f n m1) (\<lambda>(ss, m2). Inr (s # ss, m2)))"

fun iter_clear :: "(int \<Rightarrow> 'm \<Rightarrow> 'm res) \<Rightarrow> int list \<Rightarrow> 'm \<Rightarrow> 'm res" where
  "iter_clear clear [] m = Inr m"
| "iter_clear clear (s # ss) m = rbind (clear s m) (iter_clear clear ss)"

context allocator
begin

lemma finite_used: "inv m \<Longrightarrow> finite (used m)"
  using used_range finite_subset by blast

lemma find_some:
  assumes "inv m" and "0 < card ({0..<size m} - used m)"
  obtains s m' where "find m = Inr (s, m')" "s \<notin> used m" "0 \<le> s" "s < size m"
    "inv m'" "size m' = size m" "used m' = insert s (used m)"
proof -
  have "used m \<noteq> {0..<size m}" using assms(2) by auto
  with find_free [OF assms(1)] that show ?thesis by blast
qed

lemma iter_find_fresh:
  assumes "inv m" and "n \<le> card ({0..<size m} - used m)"
  shows "\<exists>ss m'. iter_find find n m = Inr (ss, m') \<and> length ss = n \<and> distinct ss
           \<and> set ss \<inter> used m = {} \<and> set ss \<subseteq> {0..<size m}
           \<and> inv m' \<and> size m' = size m \<and> used m' = used m \<union> set ss"
  using assms
proof (induction n arbitrary: m)
  case 0
  then show ?case by simp
next
  case (Suc n)
  then have "0 < card ({0..<size m} - used m)" by simp
  then obtain s m1 where s: "find m = Inr (s, m1)" "s \<notin> used m" "0 \<le> s" "s < size m"
    "inv m1" "size m1 = size m" "used m1 = insert s (used m)"
    using find_some [OF Suc.prems(1)] by metis
  have "{0..<size m1} - used m1 = ({0..<size m} - used m) - {s}" using s by auto
  then have "n \<le> card ({0..<size m1} - used m1)" using Suc.prems(2) s by simp
  from Suc.IH [OF s(5) this] obtain ss m2 where ss: "iter_find find n m1 = Inr (ss, m2)"
      "length ss = n" "distinct ss" "set ss \<inter> used m1 = {}" "set ss \<subseteq> {0..<size m1}"
      "inv m2" "size m2 = size m1" "used m2 = used m1 \<union> set ss" by auto
  then show ?case using s by (auto intro!: exI [of _ "s # ss"])
qed

lemma iter_clear_used:
  assumes "inv m" and "set ss \<subseteq> {0..<size m}"
  shows "\<exists>m'. iter_clear clear ss m = Inr m' \<and> inv m' \<and> size m' = size m
           \<and> used m' = used m - set ss"
  using assms
proof (induction ss arbitrary: m)
  case Nil
  then show ?case by simp
next
  case (Cons s ss)
  then obtain m1 where "clear s m = Inr m1" "inv m1" "size m1 = size m" "used m1 = used m - {s}"
    using clear_used [of m s] by auto
  with Cons.IH [of m1] Cons.prems show ?case by auto
qed

end

interpretation bm: allocator BitMap_Test BitMap_Clear BitMap_Find BitMap_NumClear bm_wf numBits marked
proof unfold_locales
  fix m i assume m: "bm_wf m"
  show "marked m \<subseteq> {0..<numBits m}" by (rule marked_subset)
  show "BitMap_NumClear m = Inr (int (card ({0..<numBits m} - marked m)))"
    using m by (rule BitMap_NumClear_correct)
  show "BitMap_Find m = Inr (-1, m)" if "marked m = {0..<numBits m}"
    using m by (cases rule: BitMap_Find_cases) (use that in auto)
  show "\<exists>s m'. BitMap_Find m = Inr (s, m') \<and> s \<notin> marked m \<and> 0 \<le> s \<and> s < numBits m
      \<and> {0..<s} \<subseteq> marked m \<and> bm_wf m' \<and> numBits m' = numBits m \<and> marked m' = insert s (marked m)"
    if "marked m \<noteq> {0..<numBits m}"
    using m by (cases rule: BitMap_Find_cases) (use that in auto)
  assume i: "0 \<le> i" "i < numBits m"
  show "BitMap_Test i m = Inr (i \<in> marked m)" using m i by (rule BitMap_Test_correct)
  show "\<exists>m'. BitMap_Clear i m = Inr m' \<and> bm_wf m' \<and> numBits m' = numBits m
      \<and> marked m' = marked m - {i}"
    using BitMap_Clear_correct [OF m i] by metis
qed

end
