(* ===== verification/Disk.thy ===== *)
theory Disk
  imports Nachos_Prelude
begin

text \<open>
  The simulated disk of \<^verbatim>\<open>machine/disk.cc\<close>, the statistics it updates (\<^verbatim>\<open>machine/stats.cc\<close>) and the
  calls on the host file that stores its contents (\<^verbatim>\<open>machine/sysdep.cc\<close>). A request reads or writes
  the host file at once and schedules the completion interrupt; the number of ticks handed to
  \<^verbatim>\<open>interrupt->Schedule\<close> is a result of the request. The clock \<^verbatim>\<open>stats->totalTicks\<close> is part of the
  statistics the request is given.
\<close>

section \<open>Statistics\<close>

record Statistics =
  totalTicks :: int
  idleTicks :: int
  systemTicks :: int
  userTicks :: int
  numDiskReads :: int
  numDiskWrites :: int
  numConsoleCharsRead :: int
  numConsoleCharsWritten :: int
  numPageFaults :: int
  numPacketsSent :: int
  numPacketsRecvd :: int

definition Statistics_new :: Statistics where
  "Statistics_new = \<lparr>totalTicks = 0, idleTicks = 0, systemTicks = 0, userTicks = 0,
     numDiskReads = 0, numDiskWrites = 0, numConsoleCharsRead = 0, numConsoleCharsWritten = 0,
     numPageFaults = 0, numPacketsSent = 0, numPacketsRecvd = 0\<rparr>"

definition UserTick :: int where "UserTick = 1"
definition SystemTick :: int where "SystemTick = 10"
definition RotationTime :: int where "RotationTime = 500"
definition SeekTime :: int where "SeekTime = 500"
definition ConsoleTime :: int where "ConsoleTime = 100"
definition NetworkTime :: int where "NetworkTime = 100"
definition TimerTicks :: int where "TimerTicks = 100"

section \<open>Host files\<close>

text \<open>
  A UNIX file is its bytes. \<open>host_Read\<close> is \<^verbatim>\<open>Lseek(fd, off, 0); Read(fd, buf, n)\<close>: the seek fails on a
  negative offset and the read asserts that all \<open>n\<close> bytes were there. \<open>host_WriteFile\<close> is \<^verbatim>\<open>Lseek\<close>
  followed by \<^verbatim>\<open>WriteFile\<close>: a write past the end leaves a hole of zeros.
\<close>

definition host_Read :: "byte list \<Rightarrow> int \<Rightarrow> int \<Rightarrow> byte list res" where
  "host_Read f off n =
     ASSERT (0 \<le> off) (ASSERT (0 \<le> n \<and> off + n \<le> int (length f))
       (Inr (take (nat n) (drop (nat off) f))))"

definition host_WriteFile :: "byte list \<Rightarrow> int \<Rightarrow> byte list \<Rightarrow> byte list res" where
  "host_WriteFile f off data =
     ASSERT (0 \<le> off)
       (Inr (patch (f @ replicate (nat off + length data - length f) 0) (nat off) data))"

section \<open>The class Disk\<close>

definition SectorSize :: int where "SectorSize = 128"
definition SectorsPerTrack :: int where "SectorsPerTrack = 32"
definition NumTracks :: int where "NumTracks = 32"
definition NumSectors :: int where "NumSectors = SectorsPerTrack * NumTracks"

definition MagicNumber :: "32 word" where "MagicNumber = 0x456789ab"
definition MagicSize :: int where "MagicSize = 4"
definition DiskSize :: int where "DiskSize = MagicSize + NumSectors * SectorSize"

lemmas disk_consts = SectorSize_def SectorsPerTrack_def NumTracks_def NumSectors_def
  MagicSize_def DiskSize_def RotationTime_def SeekTime_def

record Disk =
  fileno :: "byte list" \<comment> \<open>contents of the UNIX file behind \<^verbatim>\<open>fileno\<close>\<close>
  active :: bool
  lastSector :: int
  bufferInit :: int

text \<open>
  The constructor: \<open>existing\<close> is the UNIX file of that name, if there is one. Opening an existing
  file checks the magic number; otherwise the file is created, its last word written so that reads
  do not hit its end.
\<close>

definition Disk_new :: "byte list option \<Rightarrow> Disk res" where
  "Disk_new existing =
     rbind (case existing of
              Some f \<Rightarrow> rbind (host_Read f 0 MagicSize) (\<lambda>m.
                          ASSERT (words_of m = [MagicNumber]) (Inr f))
            | None \<Rightarrow> rbind (host_WriteFile [] 0 (le32 MagicNumber)) (\<lambda>f.
                          host_WriteFile f (DiskSize - 4) (le32 0)))
       (\<lambda>f. Inr \<lparr>fileno = f, active = False, lastSector = 0, bufferInit = 0\<rparr>)"

text \<open>\<open>Disk_TimeToSeek\<close> returns the seek time and the value stored through \<^verbatim>\<open>rotation\<close>.\<close>

definition Disk_TimeToSeek :: "Statistics \<Rightarrow> Disk \<Rightarrow> int \<Rightarrow> int \<times> int" where
  "Disk_TimeToSeek st d newSector =
     (let newTrack = newSector sdiv SectorsPerTrack;
          oldTrack = lastSector d sdiv SectorsPerTrack;
          seek = abs (newTrack - oldTrack) * SeekTime;
          over = (totalTicks st + seek) smod RotationTime
      in (seek, if over > 0 then RotationTime - over else 0))"

definition Disk_ModuloDiff :: "int \<Rightarrow> int \<Rightarrow> int" where
  "Disk_ModuloDiff to from =
     ((to smod SectorsPerTrack - from smod SectorsPerTrack) + SectorsPerTrack) smod SectorsPerTrack"

definition Disk_ComputeLatency :: "Statistics \<Rightarrow> Disk \<Rightarrow> int \<Rightarrow> bool \<Rightarrow> int" where
  "Disk_ComputeLatency st d newSector writing =
     (let (seek, rotation) = Disk_TimeToSeek st d newSector;
          timeAfter = totalTicks st + seek + rotation
      in if \<not> writing \<and> seek = 0
            \<and> (timeAfter - bufferInit d) sdiv RotationTime
                > Disk_ModuloDiff newSector (bufferInit d sdiv RotationTime)
         then RotationTime
         else seek
            + (rotation + Disk_ModuloDiff newSector (timeAfter sdiv RotationTime) * RotationTime)
            + RotationTime)"

definition Disk_UpdateLast :: "Statistics \<Rightarrow> int \<Rightarrow> Disk \<Rightarrow> Disk" where
  "Disk_UpdateLast st newSector d =
     (let (seek, rotate) = Disk_TimeToSeek st d newSector;
          d1 = (if seek \<noteq> 0 then d\<lparr>bufferInit := totalTicks st + seek + rotate\<rparr> else d)
      in d1\<lparr>lastSector := newSector\<rparr>)"

text \<open>
  The requests return the statistics with the request counted and the delay passed to
  \<^verbatim>\<open>interrupt->Schedule(DiskDone, this, ticks, DiskInt)\<close>.
\<close>

definition Disk_ReadRequest ::
  "int \<Rightarrow> Statistics \<Rightarrow> Disk \<Rightarrow> (byte list \<times> int \<times> Statistics \<times> Disk) res" where
  "Disk_ReadRequest sectorNumber st d =
     (let ticks = Disk_ComputeLatency st d sectorNumber False in
      ASSERT (\<not> active d) (ASSERT (0 \<le> sectorNumber \<and> sectorNumber < NumSectors)
        (rbind (host_Read (fileno d) (SectorSize * sectorNumber + MagicSize) SectorSize) (\<lambda>data.
         Inr (data, ticks, st\<lparr>numDiskReads := numDiskReads st + 1\<rparr>,
              Disk_UpdateLast st sectorNumber (d\<lparr>active := True\<rparr>))))))"

definition Disk_WriteRequest ::
  "int \<Rightarrow> byte list \<Rightarrow> Statistics \<Rightarrow> Disk \<Rightarrow> (int \<times> Statistics \<times> Disk) res" where
  "Disk_WriteRequest sectorNumber data st d =
     (let ticks = Disk_ComputeLatency st d sectorNumber True in
      ASSERT (\<not> active d) (ASSERT (0 \<le> sectorNumber \<and> sectorNumber < NumSectors)
        (rbind (bcopy_out data 0 SectorSize) (\<lambda>bytes.
         rbind (host_WriteFile (fileno d) (SectorSize * sectorNumber + MagicSize) bytes) (\<lambda>f.
         Inr (ticks, st\<lparr>numDiskWrites := numDiskWrites st + 1\<rparr>,
              Disk_UpdateLast st sectorNumber (d\<lparr>fileno := f, active := True\<rparr>)))))))"

text \<open>The interrupt handler frees the disk before it calls the kernel's handler.\<close>

definition Disk_HandleInterrupt :: "Disk \<Rightarrow> Disk" where
  "Disk_HandleInterrupt d = d\<lparr>active := False\<rparr>"

section \<open>Latency\<close>

text \<open>The position of the head and the clock are in range.\<close>

definition disk_pos_ok :: "Statistics \<Rightarrow> Disk \<Rightarrow> bool" where
  "disk_pos_ok st d \<longleftrightarrow> 0 \<le> totalTicks st \<and> 0 \<le> lastSector d \<and> lastSector d < NumSectors
     \<and> 0 \<le> bufferInit d"

lemma ModuloDiff_range: "0 \<le> Disk_ModuloDiff to from" "Disk_ModuloDiff to from < 32"
  if "0 \<le> to" "0 \<le> from"
proof -
  have "0 < (to mod 32 - from mod 32) + 32"
    using pos_mod_bound [of 32 "from"] pos_mod_sign [of 32 to] by linarith
  then show "0 \<le> Disk_ModuloDiff to from" "Disk_ModuloDiff to from < 32"
    using that by (simp_all add: Disk_ModuloDiff_def disk_consts)
qed

lemma TimeToSeek_range:
  assumes "disk_pos_ok st d" and "0 \<le> n" and "n < NumSectors"
    and "Disk_TimeToSeek st d n = (seek, rot)"
  shows "0 \<le> seek" "seek \<le> 31 * SeekTime" "0 \<le> rot" "rot < RotationTime"
proof -
  have "n div 32 \<le> 31" "lastSector d div 32 \<le> 31" "0 \<le> n div 32" "0 \<le> lastSector d div 32"
    using assms by (auto simp: disk_pos_ok_def disk_consts)
  then have a: "\<bar>n div 32 - lastSector d div 32\<bar> \<le> 31" by linarith
  have seek: "seek = \<bar>n div 32 - lastSector d div 32\<bar> * 500"
    using assms by (simp add: Disk_TimeToSeek_def Let_def disk_pos_ok_def disk_consts)
  with a show "0 \<le> seek" "seek \<le> 31 * SeekTime" by (simp_all add: disk_consts)
  then have s: "0 \<le> totalTicks st + seek" using assms by (simp add: disk_pos_ok_def)
  then have "rot = (if (totalTicks st + seek) mod 500 > 0 then 500 - (totalTicks st + seek) mod 500 else 0)"
    using assms(4) seek assms(1,2) s
    by (auto simp: Disk_TimeToSeek_def Let_def disk_consts disk_pos_ok_def)
  then show "0 \<le> rot" "rot < RotationTime"
    using pos_mod_bound [of 500 "totalTicks st + seek"] by (auto simp: disk_consts)
qed

lemma ComputeLatency_range:
  assumes "disk_pos_ok st d" and "0 \<le> n" and "n < NumSectors"
  shows "RotationTime \<le> Disk_ComputeLatency st d n w"
    and "Disk_ComputeLatency st d n w \<le> 31999"
proof -
  obtain seek rot where sr: "Disk_TimeToSeek st d n = (seek, rot)" by fastforce
  note r = TimeToSeek_range [OF assms sr]
  have "0 \<le> (totalTicks st + seek + rot) div 500"
    using assms r by (auto simp: disk_pos_ok_def)
  then have "0 \<le> Disk_ModuloDiff n ((totalTicks st + seek + rot) div 500)"
     "Disk_ModuloDiff n ((totalTicks st + seek + rot) div 500) < 32"
    using ModuloDiff_range [of n] assms by auto
  moreover have "(totalTicks st + seek + rot) sdiv RotationTime = (totalTicks st + seek + rot) div 500"
    using assms r by (simp add: disk_pos_ok_def disk_consts)
  ultimately show "RotationTime \<le> Disk_ComputeLatency st d n w"
    and "Disk_ComputeLatency st d n w \<le> 31999"
    using sr r by (auto simp: Disk_ComputeLatency_def Let_def disk_consts)
qed

section \<open>Contents\<close>

definition disk_wf :: "Disk \<Rightarrow> bool" where
  "disk_wf d \<longleftrightarrow> int (length (fileno d)) = DiskSize"

definition sector_at :: "Disk \<Rightarrow> int \<Rightarrow> byte list" where
  "sector_at d n = take 128 (drop (nat (128 * n + 4)) (fileno d))"

lemma length_sector_at: "disk_wf d \<Longrightarrow> 0 \<le> n \<Longrightarrow> n < NumSectors \<Longrightarrow> length (sector_at d n) = 128"
  by (simp add: sector_at_def disk_wf_def disk_consts)

lemma UpdateLast_simps [simp]:
  "fileno (Disk_UpdateLast st n d) = fileno d"
  "active (Disk_UpdateLast st n d) = active d"
  "lastSector (Disk_UpdateLast st n d) = n"
  by (simp_all add: Disk_UpdateLast_def Let_def split: prod.splits)

lemma HandleInterrupt_simps [simp]:
  "fileno (Disk_HandleInterrupt d) = fileno d"
  "active (Disk_HandleInterrupt d) = False"
  "lastSector (Disk_HandleInterrupt d) = lastSector d"
  "bufferInit (Disk_HandleInterrupt d) = bufferInit d"
  by (simp_all add: Disk_HandleInterrupt_def)

lemma UpdateLast_pos_ok:
  assumes "disk_pos_ok st d" and "0 \<le> n" and "n < NumSectors"
  shows "disk_pos_ok st (Disk_UpdateLast st n d)"
proof -
  obtain seek rot where sr: "Disk_TimeToSeek st d n = (seek, rot)" by fastforce
  from TimeToSeek_range [OF assms sr] assms sr show ?thesis
    by (simp add: Disk_UpdateLast_def disk_pos_ok_def Let_def)
qed

lemma TimeToSeek_cong: "lastSector d = lastSector d' \<Longrightarrow>
    Disk_TimeToSeek st d n = Disk_TimeToSeek st d' n"
  by (simp add: Disk_TimeToSeek_def)

lemma length_patch_sector:
  "disk_wf d \<Longrightarrow> 0 \<le> n \<Longrightarrow> n < NumSectors \<Longrightarrow> length data = 128 \<Longrightarrow>
   nat (128 * n + 4) + length data \<le> length (fileno d)"
  by (simp add: disk_wf_def disk_consts)

lemma host_WriteFile_in:
  "0 \<le> off \<Longrightarrow> nat off + length data \<le> length f \<Longrightarrow> host_WriteFile f off data = Inr (patch f (nat off) data)"
  by (simp add: host_WriteFile_def)

lemma sector_at_patch:
  assumes "disk_wf d" and n: "0 \<le> n" "n < NumSectors" and m: "0 \<le> m" "m < NumSectors"
    and len: "length data = 128"
  shows "take 128 (drop (nat (128 * m + 4)) (patch (fileno d) (nat (128 * n + 4)) data))
       = (if m = n then data else sector_at d m)"
proof (cases "m = n")
  case True
  with take_drop_patch [OF length_patch_sector [OF assms(1) n len]] len show ?thesis by simp
next
  case False
  let ?p = "patch (fileno d) (nat (128 * n + 4)) data"
  have lp: "length ?p = length (fileno d)"
    using length_patch_sector [OF assms(1) n len] by simp
  have "take 128 (drop (nat (128 * m + 4)) ?p) = sector_at d m"
  proof (rule nth_equalityI)
    show "length (take 128 (drop (nat (128 * m + 4)) ?p)) = length (sector_at d m)"
      using lp by (simp add: sector_at_def)
    fix i assume "i < length (take 128 (drop (nat (128 * m + 4)) ?p))"
    then have i: "i < 128" "nat (128 * m + 4) + i < length (fileno d)" using lp by auto
    have "\<not> (nat (128 * n + 4) \<le> nat (128 * m + 4) + i \<and> nat (128 * m + 4) + i < nat (128 * n + 4) + 128)"
      using False i n m by linarith
    then show "take 128 (drop (nat (128 * m + 4)) ?p) ! i = sector_at d m ! i"
      using i lp len nth_patch [OF length_patch_sector [OF assms(1) n len] i(2)]
      by (auto simp: sector_at_def)
  qed
  with False show ?thesis by simp
qed

end
