(* ===== verification/SynchDisk.thy ===== *)
theory SynchDisk
  imports Disk
begin

text \<open>
  The synchronous disk of \<^verbatim>\<open>filesys/synchdisk.cc\<close>, and the contract \<open>sector_store\<close> on which the file
  system is built. The file system assumes that it has no concurrent callers (\<^verbatim>\<open>filesys.cc\<close>), so
  the lock is free on entry and free again on exit; the thread sleeps in \<^verbatim>\<open>semaphore->P()\<close> until the
  completion interrupt, during which the clock advances to the time the interrupt was scheduled for
  (\<^verbatim>\<open>Interrupt::CheckIfDue\<close> with \<open>advanceClock\<close>) and \<^verbatim>\<open>Disk::HandleInterrupt\<close> runs. The lock, and the semaphore with
  the \<^verbatim>\<open>V\<close> of \<^verbatim>\<open>RequestDone\<close>, are not part of this state: the interrupt that \<^verbatim>\<open>HandleInterrupt\<close> stands for is what ends the wait.
\<close>

record SynchDisk =
  disk :: Disk
  stats :: Statistics

text \<open>The constructor: \<open>existing\<close> is the UNIX file that stores the disk, if there is one.\<close>

definition SynchDisk_new :: "byte list option \<Rightarrow> Statistics \<Rightarrow> SynchDisk res" where
  "SynchDisk_new existing st = rbind (Disk_new existing) (\<lambda>d. Inr \<lparr>disk = d, stats = st\<rparr>)"

text \<open>
  The wait for the interrupt scheduled \<open>ticks\<close> from now; \<^verbatim>\<open>Interrupt::Schedule\<close> asserts that the
  delay is positive.
\<close>

definition SynchDisk_wait :: "int \<Rightarrow> Statistics \<Rightarrow> Disk \<Rightarrow> SynchDisk res" where
  "SynchDisk_wait ticks st d =
     ASSERT (0 < ticks)
       (Inr \<lparr>disk = Disk_HandleInterrupt d,
             stats = st\<lparr>totalTicks := totalTicks st + ticks, idleTicks := idleTicks st + ticks\<rparr>\<rparr>)"

definition SynchDisk_ReadSector :: "int \<Rightarrow> SynchDisk \<Rightarrow> (byte list \<times> SynchDisk) res" where
  "SynchDisk_ReadSector sectorNumber s =
     rbind (Disk_ReadRequest sectorNumber (stats s) (disk s)) (\<lambda>(data, ticks, st, d).
     rbind (SynchDisk_wait ticks st d) (\<lambda>s'. Inr (data, s')))"

definition SynchDisk_WriteSector :: "int \<Rightarrow> byte list \<Rightarrow> SynchDisk \<Rightarrow> SynchDisk res" where
  "SynchDisk_WriteSector sectorNumber data s =
     rbind (Disk_WriteRequest sectorNumber data (stats s) (disk s)) (\<lambda>(ticks, st, d).
     SynchDisk_wait ticks st d)"

section \<open>The contract of a sector store\<close>

locale sector_store =
  fixes rd :: "int \<Rightarrow> 's \<Rightarrow> (byte list \<times> 's) res"
    and wr :: "int \<Rightarrow> byte list \<Rightarrow> 's \<Rightarrow> 's res"
    and ok :: "'s \<Rightarrow> bool"
    and contents :: "'s \<Rightarrow> int \<Rightarrow> byte list"
  assumes length_contents: "ok s \<Longrightarrow> 0 \<le> n \<Longrightarrow> n < NumSectors \<Longrightarrow> length (contents s n) = 128"
    and rd_contents: "ok s \<Longrightarrow> 0 \<le> n \<Longrightarrow> n < NumSectors \<Longrightarrow>
      \<exists>s'. rd n s = Inr (contents s n, s') \<and> ok s' \<and> contents s' = contents s"
    and wr_contents: "ok s \<Longrightarrow> 0 \<le> n \<Longrightarrow> n < NumSectors \<Longrightarrow> length data = 128 \<Longrightarrow>
      \<exists>s'. wr n data s = Inr s' \<and> ok s' \<and> contents s' = (contents s)(n := data)"
    and rd_bad: "\<not> (0 \<le> n \<and> n < NumSectors) \<Longrightarrow> ok s \<Longrightarrow> rd n s = Inl AssertFail"

text \<open>Reading and writing runs of sectors, as the loops of \<^verbatim>\<open>openfile.cc\<close> do.\<close>

fun seq_read :: "(int \<Rightarrow> 's \<Rightarrow> (byte list \<times> 's) res) \<Rightarrow> int list \<Rightarrow> 's \<Rightarrow> (byte list \<times> 's) res" where
  "seq_read rd [] s = Inr ([], s)"
| "seq_read rd (n # ns) s = rbind (rd n s) (\<lambda>(x, s1).
     rbind (seq_read rd ns s1) (\<lambda>(xs, s2). Inr (x @ xs, s2)))"

fun seq_write :: "(int \<Rightarrow> byte list \<Rightarrow> 's \<Rightarrow> 's res) \<Rightarrow> (int \<times> byte list) list \<Rightarrow> 's \<Rightarrow> 's res" where
  "seq_write wr [] s = Inr s"
| "seq_write wr ((n, x) # ps) s = rbind (wr n x s) (seq_write wr ps)"

abbreviation sector_nums :: "int list \<Rightarrow> bool" where
  "sector_nums ns \<equiv> (\<forall>n \<in> set ns. 0 \<le> n \<and> n < NumSectors)"

context sector_store
begin

lemma seq_read_contents:
  assumes "ok s" and "sector_nums ns"
  shows "\<exists>s'. seq_read rd ns s = Inr (concat (map (contents s) ns), s')
           \<and> ok s' \<and> contents s' = contents s"
  using assms
proof (induction ns arbitrary: s)
  case Nil
  then show ?case by simp
next
  case (Cons n ns)
  then obtain s1 where s1: "rd n s = Inr (contents s n, s1)" "ok s1" "contents s1 = contents s"
    using rd_contents [of s n] by auto
  with Cons.IH [of s1] Cons.prems show ?case by auto
qed

lemma seq_write_contents:
  assumes "ok s" and "sector_nums (map fst ps)" and "distinct (map fst ps)"
    and "\<forall>x \<in> set (map snd ps). length x = 128"
  shows "\<exists>s'. seq_write wr ps s = Inr s' \<and> ok s'
           \<and> contents s' = (\<lambda>n. case map_of ps n of None \<Rightarrow> contents s n | Some x \<Rightarrow> x)"
  using assms
proof (induction ps arbitrary: s)
  case Nil
  then show ?case by simp
next
  case (Cons p ps)
  obtain n x where p: "p = (n, x)" by fastforce
  from Cons.prems obtain s1 where s1: "wr n x s = Inr s1" "ok s1"
      "contents s1 = (contents s)(n := x)"
    using wr_contents [of s n x] p by auto
  from Cons.IH [of s1] s1 Cons.prems obtain s' where s': "seq_write wr ps s1 = Inr s'" "ok s'"
      "contents s' = (\<lambda>n. case map_of ps n of None \<Rightarrow> contents s1 n | Some x \<Rightarrow> x)" by auto
  have "n \<notin> dom (map_of ps)" using Cons.prems p by (auto simp: dom_map_of_conv_image_fst)
  then show ?case using s' s1 p
    by (auto simp: fun_eq_iff split: option.splits)
qed

end

section \<open>The synchronous disk is a sector store\<close>

definition sd_ok :: "SynchDisk \<Rightarrow> bool" where
  "sd_ok s \<longleftrightarrow> disk_wf (disk s) \<and> \<not> active (disk s) \<and> disk_pos_ok (stats s) (disk s)"

definition sd_sector :: "SynchDisk \<Rightarrow> int \<Rightarrow> byte list" where
  "sd_sector s n = (if 0 \<le> n \<and> n < NumSectors then sector_at (disk s) n else [])"

text \<open>A new disk works, and an existing one of the right size has the sectors it was left with.\<close>

lemma SynchDisk_new_fresh:
  assumes "0 \<le> totalTicks st"
  shows "\<exists>s. SynchDisk_new None st = Inr s \<and> sd_ok s"
proof -
  have "\<exists>f. host_WriteFile [] 0 (le32 MagicNumber) = Inr f \<and> length f = 4"
    by (simp add: host_WriteFile_def ASSERT_def)
  then obtain f where f: "host_WriteFile [] 0 (le32 MagicNumber) = Inr f" "length f = 4" by blast
  have "\<exists>g. host_WriteFile f (DiskSize - 4) (le32 0) = Inr g \<and> int (length g) = DiskSize"
    using f(2) by (simp add: host_WriteFile_def ASSERT_def disk_consts)
  with f(1) assms show ?thesis
    by (auto simp: SynchDisk_new_def Disk_new_def sd_ok_def disk_wf_def disk_pos_ok_def disk_consts)
qed

lemma SynchDisk_new_existing:
  assumes "int (length f) = DiskSize" and "words_of (take 4 f) = [MagicNumber]" and "0 \<le> totalTicks st"
  shows "\<exists>s. SynchDisk_new (Some f) st = Inr s \<and> sd_ok s \<and> fileno (disk s) = f"
  using assms by (simp add: SynchDisk_new_def Disk_new_def host_Read_def ASSERT_def sd_ok_def disk_wf_def
      disk_pos_ok_def disk_consts)

text \<open>A file that does not start with the magic number is refused.\<close>

lemma SynchDisk_new_foreign:
  "int (length f) \<ge> MagicSize \<Longrightarrow> words_of (take 4 f) \<noteq> [MagicNumber] \<Longrightarrow> SynchDisk_new (Some f) st = Inl AssertFail"
  by (simp add: SynchDisk_new_def Disk_new_def host_Read_def ASSERT_def disk_consts)

lemma SynchDisk_wait_Inr:
  assumes "0 < ticks" and "disk_pos_ok st d"
  obtains s' where "SynchDisk_wait ticks st d = Inr s'" "disk s' = Disk_HandleInterrupt d"
    "totalTicks (stats s') = totalTicks st + ticks" "disk_pos_ok (stats s') (disk s')"
  using assms that by (auto simp: SynchDisk_wait_def disk_pos_ok_def)

lemma disk_pos_ok_cong:
  "disk_pos_ok st d \<Longrightarrow> totalTicks st' = totalTicks st \<Longrightarrow> lastSector d' = lastSector d \<Longrightarrow>
   bufferInit d' = bufferInit d \<Longrightarrow> disk_pos_ok st' d'"
  by (simp add: disk_pos_ok_def)

lemma ReadRequest_ok:
  assumes "sd_ok s" and n: "0 \<le> n" "n < NumSectors"
  shows "Disk_ReadRequest n (stats s) (disk s) =
    Inr (sector_at (disk s) n, Disk_ComputeLatency (stats s) (disk s) n False,
         (stats s)\<lparr>numDiskReads := numDiskReads (stats s) + 1\<rparr>,
         Disk_UpdateLast (stats s) n ((disk s)\<lparr>active := True\<rparr>))"
proof -
  have "128 * n + 4 + 128 \<le> int (length (fileno (disk s)))"
    using assms by (simp add: sd_ok_def disk_wf_def disk_consts)
  with assms show ?thesis
    by (simp add: Disk_ReadRequest_def host_Read_def sector_at_def sd_ok_def disk_consts Let_def)
qed

lemma WriteRequest_ok:
  assumes "sd_ok s" and n: "0 \<le> n" "n < NumSectors" and len: "length data = 128"
  shows "Disk_WriteRequest n data (stats s) (disk s) =
    Inr (Disk_ComputeLatency (stats s) (disk s) n True,
         (stats s)\<lparr>numDiskWrites := numDiskWrites (stats s) + 1\<rparr>,
         Disk_UpdateLast (stats s) n ((disk s)\<lparr>
           fileno := patch (fileno (disk s)) (nat (128 * n + 4)) data, active := True\<rparr>))"
proof -
  have "disk_wf (disk s)" using assms(1) by (simp add: sd_ok_def)
  note l = length_patch_sector [OF this n len]
  have "bcopy_out data 0 SectorSize = Inr data"
    using len by (simp add: bcopy_out_def disk_consts)
  moreover have "host_WriteFile (fileno (disk s)) (SectorSize * n + MagicSize) data =
      Inr (patch (fileno (disk s)) (nat (128 * n + 4)) data)"
    using l n host_WriteFile_in [of "128 * n + 4" data] by (simp add: disk_consts)
  ultimately show ?thesis
    using assms by (simp add: Disk_WriteRequest_def sd_ok_def Let_def)
qed

lemma SynchDisk_ReadSector_ok:
  assumes "sd_ok s" and n: "0 \<le> n" "n < NumSectors"
  shows "\<exists>s'. SynchDisk_ReadSector n s = Inr (sd_sector s n, s') \<and> sd_ok s'
           \<and> sd_sector s' = sd_sector s"
proof -
  let ?d = "Disk_UpdateLast (stats s) n ((disk s)\<lparr>active := True\<rparr>)"
  let ?st = "(stats s)\<lparr>numDiskReads := numDiskReads (stats s) + 1\<rparr>"
  have p: "disk_pos_ok (stats s) ((disk s)\<lparr>active := True\<rparr>)"
    using assms(1) by (simp add: sd_ok_def disk_pos_ok_def)
  have "disk_pos_ok ?st ?d"
    by (rule disk_pos_ok_cong [OF UpdateLast_pos_ok [OF p n]]) simp_all
  moreover have "0 < Disk_ComputeLatency (stats s) (disk s) n False"
    using ComputeLatency_range(1) [OF _ n, of "stats s" "disk s" False] assms(1)
    by (simp add: sd_ok_def RotationTime_def)
  ultimately obtain s' where s': "SynchDisk_wait (Disk_ComputeLatency (stats s) (disk s) n False) ?st ?d
      = Inr s'" "disk s' = Disk_HandleInterrupt ?d" "disk_pos_ok (stats s') (disk s')"
    using SynchDisk_wait_Inr by metis
  then show ?thesis using assms
    by (auto simp: SynchDisk_ReadSector_def ReadRequest_ok sd_ok_def sd_sector_def disk_wf_def
        sector_at_def fun_eq_iff)
qed

lemma SynchDisk_WriteSector_ok:
  assumes "sd_ok s" and n: "0 \<le> n" "n < NumSectors" and len: "length data = 128"
  shows "\<exists>s'. SynchDisk_WriteSector n data s = Inr s' \<and> sd_ok s'
           \<and> sd_sector s' = (sd_sector s)(n := data)"
proof -
  let ?f = "patch (fileno (disk s)) (nat (128 * n + 4)) data"
  let ?d = "Disk_UpdateLast (stats s) n ((disk s)\<lparr>fileno := ?f, active := True\<rparr>)"
  let ?st = "(stats s)\<lparr>numDiskWrites := numDiskWrites (stats s) + 1\<rparr>"
  have p: "disk_pos_ok (stats s) ((disk s)\<lparr>fileno := ?f, active := True\<rparr>)"
    using assms(1) by (simp add: sd_ok_def disk_pos_ok_def)
  have "disk_pos_ok ?st ?d"
    by (rule disk_pos_ok_cong [OF UpdateLast_pos_ok [OF p n]]) simp_all
  moreover have "0 < Disk_ComputeLatency (stats s) (disk s) n True"
    using ComputeLatency_range(1) [OF _ n, of "stats s" "disk s" True] assms(1)
    by (simp add: sd_ok_def RotationTime_def)
  ultimately obtain s' where s': "SynchDisk_wait (Disk_ComputeLatency (stats s) (disk s) n True) ?st ?d
      = Inr s'" "disk s' = Disk_HandleInterrupt ?d" "disk_pos_ok (stats s') (disk s')"
    using SynchDisk_wait_Inr by metis
  have wf: "disk_wf (disk s)" using assms(1) by (simp add: sd_ok_def)
  have "sd_sector s' m = ((sd_sector s)(n := data)) m" for m
    using sector_at_patch [OF wf n, of m data] len s' n by (auto simp: sd_sector_def sector_at_def)
  moreover have "disk_wf (disk s')"
    using s' wf length_patch_sector [OF wf n len] by (simp add: disk_wf_def)
  ultimately show ?thesis using s' assms
    by (auto simp: SynchDisk_WriteSector_def WriteRequest_ok sd_ok_def fun_eq_iff)
qed

interpretation sd: sector_store SynchDisk_ReadSector SynchDisk_WriteSector sd_ok sd_sector
proof unfold_locales
  fix s n assume s: "sd_ok s"
  show "SynchDisk_ReadSector n s = Inl AssertFail" if "\<not> (0 \<le> n \<and> n < NumSectors)"
    using that s
    by (auto simp: SynchDisk_ReadSector_def Disk_ReadRequest_def Let_def ASSERT_def sd_ok_def)
  assume n: "0 \<le> n" "n < NumSectors"
  show "length (sd_sector s n) = 128"
    using s n length_sector_at by (simp add: sd_ok_def sd_sector_def)
  show "\<exists>s'. SynchDisk_ReadSector n s = Inr (sd_sector s n, s') \<and> sd_ok s' \<and> sd_sector s' = sd_sector s"
    using s n by (rule SynchDisk_ReadSector_ok)
  show "\<exists>s'. SynchDisk_WriteSector n data s = Inr s' \<and> sd_ok s'
      \<and> sd_sector s' = (sd_sector s)(n := data)" if "length data = 128" for data
    using s n that by (rule SynchDisk_WriteSector_ok)
qed

end
