(* ===== verification/FileHdr.thy ===== *)
theory FileHdr
  imports Bitmap SynchDisk
begin

text \<open>
  File headers (\<^verbatim>\<open>filesys/filehdr.cc\<close>): the table of data sectors of a file, its allocation out of
  the free map, and its storage in one disk sector. A \<^verbatim>\<open>FileHeader\<close> has no constructor, so
  \<open>Allocate\<close> starts from the (arbitrary) header it is called on. The table has \<open>NumDirect\<close> entries and
  the code never compares the number of sectors with it: writing entry 30 is the fault
  \<open>OutOfBounds\<close> of the model.
\<close>

section \<open>The class FileHeader\<close>

definition NumDirect :: int where "NumDirect = (SectorSize - 2 * 4) div 4"
definition MaxFileSize :: int where "MaxFileSize = NumDirect * SectorSize"

lemma NumDirect_30 [simp]: "NumDirect = 30"
  by (simp add: NumDirect_def SectorSize_def)

record FileHeader =
  numBytes :: int
  numSectors :: int
  dataSectors :: "int list"

fun Allocate_loop :: "nat \<Rightarrow> int \<Rightarrow> BitMap \<Rightarrow> int list \<Rightarrow> (int list \<times> BitMap) res" where
  "Allocate_loop 0 i freeMap ds = Inr (ds, freeMap)"
| "Allocate_loop (Suc k) i freeMap ds =
     rbind (BitMap_Find freeMap) (\<lambda>(sec, freeMap').
     rbind (aput ds i sec) (\<lambda>ds'. Allocate_loop k (i + 1) freeMap' ds'))"

definition FileHeader_Allocate ::
  "BitMap \<Rightarrow> int \<Rightarrow> FileHeader \<Rightarrow> (bool \<times> FileHeader \<times> BitMap) res" where
  "FileHeader_Allocate freeMap fileSize h0 =
     (let ns = divRoundUp fileSize SectorSize;
          h = h0\<lparr>numBytes := fileSize, numSectors := ns\<rparr> in
      rbind (BitMap_NumClear freeMap) (\<lambda>clear.
        if clear < ns then Inr (False, h, freeMap)
        else rbind (Allocate_loop (nat ns) 0 freeMap (dataSectors h)) (\<lambda>(ds, freeMap').
             Inr (True, h\<lparr>dataSectors := ds\<rparr>, freeMap'))))"

fun Deallocate_loop :: "nat \<Rightarrow> int \<Rightarrow> int list \<Rightarrow> BitMap \<Rightarrow> BitMap res" where
  "Deallocate_loop 0 i ds freeMap = Inr freeMap"
| "Deallocate_loop (Suc k) i ds freeMap =
     rbind (aget ds i) (\<lambda>sec.
     rbind (BitMap_Test sec freeMap) (\<lambda>t. ASSERT t
       (rbind (BitMap_Clear sec freeMap) (Deallocate_loop k (i + 1) ds))))"

definition FileHeader_Deallocate :: "FileHeader \<Rightarrow> BitMap \<Rightarrow> BitMap res" where
  "FileHeader_Deallocate h freeMap = Deallocate_loop (nat (numSectors h)) 0 (dataSectors h) freeMap"

definition FileHeader_ByteToSector :: "FileHeader \<Rightarrow> int \<Rightarrow> int res" where
  "FileHeader_ByteToSector h offset = aget (dataSectors h) (offset sdiv SectorSize)"

definition FileHeader_FileLength :: "FileHeader \<Rightarrow> int" where
  "FileHeader_FileLength h = numBytes h"

text \<open>The object is stored by its memory image: 32 little-endian ints.\<close>

definition hdr_encode :: "FileHeader \<Rightarrow> byte list" where
  "hdr_encode h = bytes_of (map word_of_int (numBytes h # numSectors h # dataSectors h))"

definition hdr_decode :: "byte list \<Rightarrow> FileHeader" where
  "hdr_decode bs = (let ws = map sint (words_of bs) in
     \<lparr>numBytes = ws ! 0, numSectors = ws ! 1, dataSectors = drop 2 ws\<rparr>)"

definition FileHeader_FetchFrom :: "int \<Rightarrow> SynchDisk \<Rightarrow> (FileHeader \<times> SynchDisk) res" where
  "FileHeader_FetchFrom sec s =
     rbind (SynchDisk_ReadSector sec s) (\<lambda>(data, s'). Inr (hdr_decode data, s'))"

definition FileHeader_WriteBack :: "FileHeader \<Rightarrow> int \<Rightarrow> SynchDisk \<Rightarrow> SynchDisk res" where
  "FileHeader_WriteBack h sec s = SynchDisk_WriteSector sec (hdr_encode h) s"

section \<open>Layout\<close>

definition hdr_image :: "FileHeader \<Rightarrow> bool" where
  "hdr_image h \<longleftrightarrow> length (dataSectors h) = 30 \<and> in_int32 (numBytes h) \<and> in_int32 (numSectors h)
     \<and> (\<forall>x \<in> set (dataSectors h). in_int32 x)"

lemma length_hdr_encode: "length (dataSectors h) = 30 \<Longrightarrow> length (hdr_encode h) = 128"
  by (simp add: hdr_encode_def)

lemma map_sint_word_of_int: "\<forall>x \<in> set xs. in_int32 x \<Longrightarrow> map (sint \<circ> (word_of_int :: int \<Rightarrow> 32 word)) xs = xs"
  by (rule map_idI) simp

lemma hdr_decode_encode: "hdr_image h \<Longrightarrow> hdr_decode (hdr_encode h) = h"
  using map_sint_word_of_int [of "dataSectors h"]
  by (simp add: hdr_decode_def hdr_encode_def Let_def hdr_image_def)

lemma hdr_decode_image: "length bs = 128 \<Longrightarrow> hdr_image (hdr_decode bs)"
proof -
  assume "length bs = 128"
  then have l: "length (words_of bs) = 32" by simp
  then have "\<forall>x \<in> set (drop 2 (map sint (words_of bs))). in_int32 x"
    using set_drop_subset [of 2 "map sint (words_of bs)"] by auto
  with l show ?thesis by (simp add: hdr_decode_def hdr_image_def Let_def drop_map)
qed

lemma hdr_encode_decode:
  assumes "length bs = 128"
  shows "hdr_encode (hdr_decode bs) = bs"
proof -
  have l: "length (words_of bs) = 32" using assms by simp
  then obtain a b ws where w: "words_of bs = a # b # ws"
    by (metis length_Suc_conv numeral_eq_Suc pred_numeral_simps(2))
  have "bytes_of (map (word_of_int \<circ> sint) (words_of bs)) = bs"
    using assms by (simp add: bytes_of_words_of comp_def)
  then show ?thesis by (simp add: hdr_encode_def hdr_decode_def w Let_def)
qed

section \<open>Allocation\<close>

lemma patch_Cons_step:
  assumes "i < length ds"
  shows "patch (ds[i := s]) (Suc i) ss = patch ds i (s # ss)"
  using assms by (simp add: patch_def take_Suc_conv_app_nth drop_update_cancel)

lemma Allocate_loop_iter_find:
  assumes "i + k \<le> length ds"
  shows "Allocate_loop k (int i) m ds =
     rbind (iter_find BitMap_Find k m) (\<lambda>(ss, m'). Inr (patch ds i ss, m'))"
  using assms
proof (induction k arbitrary: i m ds)
  case 0
  then show ?case by simp
next
  case (Suc k)
  then have i: "i < length ds" by simp
  have step: "Allocate_loop k (int i + 1) m1 (ds[i := s]) =
      rbind (iter_find BitMap_Find k m1) (\<lambda>(ss, m'). Inr (patch ds i (s # ss), m'))" for m1 s
    using Suc.IH [of "Suc i" "ds[i := s]" m1] Suc.prems patch_Cons_step [OF i]
    by (simp add: add.commute)
  show ?case
    by (cases "BitMap_Find m") (auto simp: i step rbind_assoc split_def)
qed

text \<open>The sectors a header claims.\<close>

definition hdr_sectors :: "FileHeader \<Rightarrow> int list" where
  "hdr_sectors h = take (nat (numSectors h)) (dataSectors h)"

definition hdr_wf :: "FileHeader \<Rightarrow> bool" where
  "hdr_wf h \<longleftrightarrow> 0 \<le> numBytes h \<and> numSectors h = divRoundUp (numBytes h) SectorSize
     \<and> numSectors h \<le> NumDirect \<and> length (dataSectors h) = 30"

lemma hdr_wf_numSectors: "hdr_wf h \<Longrightarrow> 0 \<le> numSectors h"
  by (auto simp: hdr_wf_def divRoundUp_nonneg SectorSize_def)

lemma length_hdr_sectors: "hdr_wf h \<Longrightarrow> length (hdr_sectors h) = nat (numSectors h)"
  by (auto simp: hdr_sectors_def hdr_wf_def)

lemma divRoundUp_sectors: "0 \<le> n \<Longrightarrow> divRoundUp n SectorSize = (n + 127) div 128"
  by (simp add: divRoundUp_nonneg SectorSize_def)

lemma FileHeader_Allocate_success:
  assumes wf: "bm_wf m" and size: "0 \<le> fileSize" "fileSize \<le> MaxFileSize"
    and len: "length (dataSectors h0) = 30"
    and room: "divRoundUp fileSize SectorSize \<le> int (card ({0..<numBits m} - marked m))"
  obtains h m' where "FileHeader_Allocate m fileSize h0 = Inr (True, h, m')"
    "hdr_wf h" "numBytes h = fileSize" "distinct (hdr_sectors h)"
    "set (hdr_sectors h) \<inter> marked m = {}" "set (hdr_sectors h) \<subseteq> {0..<numBits m}"
    "bm_wf m'" "numBits m' = numBits m" "marked m' = marked m \<union> set (hdr_sectors h)"
    "set (dataSectors h) \<subseteq> set (dataSectors h0) \<union> {0..<numBits m}"
proof -
  define ns where "ns = divRoundUp fileSize SectorSize"
  have ns: "0 \<le> ns" "ns \<le> 30"
    using size divRoundUp_sectors [OF size(1)] by (auto simp: ns_def MaxFileSize_def SectorSize_def)
  obtain ss m' where ss: "iter_find BitMap_Find (nat ns) m = Inr (ss, m')" "length ss = nat ns"
      "distinct ss" "set ss \<inter> marked m = {}" "set ss \<subseteq> {0..<numBits m}"
      "bm_wf m'" "numBits m' = numBits m" "marked m' = marked m \<union> set ss"
    using bm.iter_find_fresh [OF wf, of "nat ns"] room by (auto simp: ns_def nat_le_iff)
  define h where "h = h0\<lparr>numBytes := fileSize, numSectors := ns,
    dataSectors := patch (dataSectors h0) 0 ss\<rparr>"
  have "Allocate_loop (nat ns) 0 m (dataSectors h0) = Inr (patch (dataSectors h0) 0 ss, m')"
    using Allocate_loop_iter_find [of 0 "nat ns" "dataSectors h0" m] ns len ss by simp
  then have "FileHeader_Allocate m fileSize h0 = Inr (True, h, m')"
    using room bm.numClear_free [OF wf]
    by (simp add: FileHeader_Allocate_def ns_def [symmetric] h_def Let_def)
  moreover have "hdr_sectors h = ss" using ss by (simp add: hdr_sectors_def h_def patch_def)
  moreover have "hdr_wf h" using size len ss ns
    by (simp add: hdr_wf_def h_def ns_def [symmetric])
  moreover have "set (dataSectors h) \<subseteq> set (dataSectors h0) \<union> {0..<numBits m}"
    using ss(5) set_drop_subset [of "length ss" "dataSectors h0"] by (auto simp: h_def patch_def)
  ultimately show ?thesis using that [of h m'] ss by (simp add: h_def)
qed

lemma FileHeader_Allocate_no_room:
  assumes "bm_wf m" and "int (card ({0..<numBits m} - marked m)) < divRoundUp fileSize SectorSize"
  shows "FileHeader_Allocate m fileSize h0 =
    Inr (False, h0\<lparr>numBytes := fileSize, numSectors := divRoundUp fileSize SectorSize\<rparr>, m)"
  using assms bm.numClear_free by (simp add: FileHeader_Allocate_def Let_def)

text \<open>A file that needs more than \<open>NumDirect\<close> sectors overruns the table of the header.\<close>

lemma Allocate_loop_overrun:
  assumes "bm_wf m" and "k \<le> card ({0..<numBits m} - marked m)" and "int (length ds) < i + int k"
    and "0 \<le> i" and "i \<le> int (length ds)"
  shows "Allocate_loop k i m ds = Inl OutOfBounds"
  using assms
proof (induction k arbitrary: i m ds)
  case 0
  then show ?case by simp
next
  case (Suc k)
  then have "0 < card ({0..<numBits m} - marked m)" by simp
  then obtain s m1 where s: "BitMap_Find m = Inr (s, m1)" "s \<notin> marked m" "0 \<le> s"
      "s < numBits m" "bm_wf m1" "numBits m1 = numBits m" "marked m1 = insert s (marked m)"
    using bm.find_some [OF Suc.prems(1)] by metis
  have "{0..<numBits m1} - marked m1 = ({0..<numBits m} - marked m) - {s}" using s by auto
  then have k: "k \<le> card ({0..<numBits m1} - marked m1)" using Suc.prems(2) s by simp
  show ?case
  proof (cases "i < int (length ds)")
    case True
    with Suc.IH [OF s(5) k, of "ds[nat i := s]" "i + 1"] Suc.prems s show ?thesis by simp
  next
    case False
    with Suc.prems s show ?thesis by (simp add: aput_def)
  qed
qed

lemma FileHeader_Allocate_overrun:
  assumes wf: "bm_wf m" and big: "MaxFileSize < fileSize" and len: "length (dataSectors h0) = 30"
    and room: "divRoundUp fileSize SectorSize \<le> int (card ({0..<numBits m} - marked m))"
  shows "FileHeader_Allocate m fileSize h0 = Inl OutOfBounds"
proof -
  have "30 < divRoundUp fileSize SectorSize"
    using big divRoundUp_sectors [of fileSize] by (simp add: MaxFileSize_def SectorSize_def)
  then have "Allocate_loop (nat (divRoundUp fileSize SectorSize)) 0 m (dataSectors h0) = Inl OutOfBounds"
    using room len by (intro Allocate_loop_overrun [OF wf]) simp_all
  then show ?thesis
    using room bm.numClear_free [OF wf] by (simp add: FileHeader_Allocate_def Let_def)
qed

section \<open>Deallocation\<close>

lemma Deallocate_loop_correct:
  assumes "bm_wf m" and "i + k \<le> length ds" and "distinct (take k (drop i ds))"
    and "set (take k (drop i ds)) \<subseteq> marked m"
  shows "\<exists>m'. Deallocate_loop k (int i) ds m = Inr m' \<and> bm_wf m' \<and> numBits m' = numBits m
           \<and> marked m' = marked m - set (take k (drop i ds))"
  using assms
proof (induction k arbitrary: i m)
  case 0
  then show ?case by simp
next
  case (Suc k)
  then have i: "i < length ds" by simp
  have split: "take (Suc k) (drop i ds) = ds ! i # take k (drop (Suc i) ds)"
    using i by (simp add: Cons_nth_drop_Suc [symmetric])
  then have mem: "ds ! i \<in> marked m" using Suc.prems(4) by simp
  then have r: "0 \<le> ds ! i" "ds ! i < numBits m" by (auto simp: marked_def)
  obtain m1 where m1: "BitMap_Clear (ds ! i) m = Inr m1" "bm_wf m1"
      "numBits m1 = numBits m" "marked m1 = marked m - {ds ! i}"
    using BitMap_Clear_correct [OF Suc.prems(1) r] .
  have "\<exists>m'. Deallocate_loop k (int (Suc i)) ds m1 = Inr m' \<and> bm_wf m' \<and> numBits m' = numBits m1
      \<and> marked m' = marked m1 - set (take k (drop (Suc i) ds))"
    using Suc.prems split m1 by (intro Suc.IH) auto
  then show ?case
    using i m1 split mem BitMap_Test_correct [OF Suc.prems(1) r]
    by (auto simp: add.commute)
qed

lemma FileHeader_Deallocate_correct:
  assumes "bm_wf m" and "hdr_wf h" and "distinct (hdr_sectors h)" and "set (hdr_sectors h) \<subseteq> marked m"
  obtains m' where "FileHeader_Deallocate h m = Inr m'" "bm_wf m'" "numBits m' = numBits m"
    "marked m' = marked m - set (hdr_sectors h)"
  using Deallocate_loop_correct [OF assms(1), of 0 "nat (numSectors h)" "dataSectors h"] assms(2-4) that
  by (auto simp: FileHeader_Deallocate_def hdr_sectors_def hdr_wf_def nat_le_iff)

end
