(* ===== verification/OpenFile.thy ===== *)
theory OpenFile
  imports FileHdr
begin

text \<open>
  Open files (\<^verbatim>\<open>filesys/openfile.cc\<close>, the version compiled with \<^verbatim>\<open>FILESYS\<close>). Reads and writes work on
  whole sectors through a buffer of \<^verbatim>\<open>new char[...]\<close>, whose initial bytes are the parameter
  \<open>junk\<close>. The main results are the data refinement of a file to its list of bytes: \<open>ReadAt\<close> returns
  a segment of that list and \<open>WriteAt\<close> overwrites one, whatever the alignment, and no other sector of
  the disk changes.
\<close>

section \<open>The class OpenFile\<close>

record OpenFile =
  hdr :: FileHeader
  seekPosition :: int

definition OpenFile_new :: "int \<Rightarrow> SynchDisk \<Rightarrow> (OpenFile \<times> SynchDisk) res" where
  "OpenFile_new sec s =
     rbind (FileHeader_FetchFrom sec s) (\<lambda>(h, s'). Inr (\<lparr>hdr = h, seekPosition = 0\<rparr>, s'))"

definition OpenFile_Seek :: "int \<Rightarrow> OpenFile \<Rightarrow> OpenFile" where
  "OpenFile_Seek position f = f\<lparr>seekPosition := position\<rparr>"

definition OpenFile_Length :: "OpenFile \<Rightarrow> int" where
  "OpenFile_Length f = FileHeader_FileLength (hdr f)"

text \<open>The loops over the sectors \<open>i\<close>, \<open>i + 1\<close>, \<open>\<dots>\<close>; \<open>k\<close> iterations are left.\<close>

fun ReadAt_loop :: "nat \<Rightarrow> int \<Rightarrow> FileHeader \<Rightarrow> SynchDisk \<Rightarrow> (byte list \<times> SynchDisk) res" where
  "ReadAt_loop 0 i h s = Inr ([], s)"
| "ReadAt_loop (Suc k) i h s =
     rbind (FileHeader_ByteToSector h (i * SectorSize)) (\<lambda>sec.
     rbind (SynchDisk_ReadSector sec s) (\<lambda>(data, s1).
     rbind (ReadAt_loop k (i + 1) h s1) (\<lambda>(rest, s2). Inr (data @ rest, s2))))"

fun WriteAt_loop :: "nat \<Rightarrow> int \<Rightarrow> FileHeader \<Rightarrow> byte list \<Rightarrow> SynchDisk \<Rightarrow> SynchDisk res" where
  "WriteAt_loop 0 i h buf s = Inr s"
| "WriteAt_loop (Suc k) i h buf s =
     rbind (FileHeader_ByteToSector h (i * SectorSize)) (\<lambda>sec.
     rbind (SynchDisk_WriteSector sec buf s)
       (WriteAt_loop k (i + 1) h (drop (nat SectorSize) buf)))"

text \<open>
  \<open>ReadAt\<close> returns the bytes it stores into \<^verbatim>\<open>into\<close>; the C++ result is their number. The sum
  \<^verbatim>\<open>position + numBytes\<close> is an addition of 32-bit integers: where it exceeds \<open>INT_MAX\<close> it is undefined, and
  with the usual wrap-around the request is not cut at the end of the file and the size of the buffer
  is wrong as well, so that this is a fault of the model. The same sum in \<open>WriteAt\<close> cannot overflow
  unless \<^verbatim>\<open>from\<close> is a buffer of about two gigabytes, as the bytes to write are there already; it is
  computed without a bound.
\<close>

definition OpenFile_ReadAt :: "OpenFile \<Rightarrow> int \<Rightarrow> int \<Rightarrow> SynchDisk \<Rightarrow> (byte list \<times> SynchDisk) res" where
  "OpenFile_ReadAt f n position s =
     (let fileLength = FileHeader_FileLength (hdr f) in
      if n \<le> 0 \<or> position \<ge> fileLength then Inr ([], s)
      else if position + n > INT_MAX then Inl IntOverflow
      else
        let nb = (if position + n > fileLength then fileLength - position else n);
            firstSector = divRoundDown position SectorSize;
            lastSec = divRoundDown (position + nb - 1) SectorSize
        in rbind (ReadAt_loop (nat (1 + lastSec - firstSector)) firstSector (hdr f) s) (\<lambda>(buf, s').
           rbind (bcopy_out buf (position - firstSector * SectorSize) nb) (\<lambda>data.
           Inr (data, s'))))"

definition OpenFile_WriteAt ::
  "(nat \<Rightarrow> byte) \<Rightarrow> OpenFile \<Rightarrow> byte list \<Rightarrow> int \<Rightarrow> int \<Rightarrow> SynchDisk \<Rightarrow> (int \<times> SynchDisk) res" where
  "OpenFile_WriteAt junk f from n position s =
     (let fileLength = FileHeader_FileLength (hdr f) in
      if n \<le> 0 \<or> position \<ge> fileLength then Inr (0, s)
      else
        let nb = (if position + n > fileLength then fileLength - position else n);
            firstSector = divRoundDown position SectorSize;
            lastSec = divRoundDown (position + nb - 1) SectorSize;
            numSecs = 1 + lastSec - firstSector;
            buf = map junk [0..<nat (numSecs * SectorSize)];
            firstAligned = (position = firstSector * SectorSize);
            lastAligned = (position + nb = (lastSec + 1) * SectorSize)
        in rbind (if \<not> firstAligned
                  then rbind (OpenFile_ReadAt f SectorSize (firstSector * SectorSize) s) (\<lambda>(d, s1).
                       rbind (bcopy_in d (int (length d)) 0 buf) (\<lambda>buf1. Inr (buf1, s1)))
                  else Inr (buf, s)) (\<lambda>(buf1, s1).
           rbind (if \<not> lastAligned \<and> (firstSector \<noteq> lastSec \<or> firstAligned)
                  then rbind (OpenFile_ReadAt f SectorSize (lastSec * SectorSize) s1) (\<lambda>(d, s2).
                       rbind (bcopy_in d (int (length d)) ((lastSec - firstSector) * SectorSize) buf1)
                         (\<lambda>buf2. Inr (buf2, s2)))
                  else Inr (buf1, s1)) (\<lambda>(buf2, s2).
           rbind (bcopy_in from nb (position - firstSector * SectorSize) buf2) (\<lambda>buf3.
           rbind (WriteAt_loop (nat numSecs) firstSector (hdr f) buf3 s2) (\<lambda>s3.
           Inr (nb, s3))))))"

definition OpenFile_Read :: "OpenFile \<Rightarrow> int \<Rightarrow> SynchDisk \<Rightarrow> (byte list \<times> OpenFile \<times> SynchDisk) res" where
  "OpenFile_Read f n s =
     rbind (OpenFile_ReadAt f n (seekPosition f) s) (\<lambda>(data, s').
     Inr (data, f\<lparr>seekPosition := seekPosition f + int (length data)\<rparr>, s'))"

definition OpenFile_Write ::
  "(nat \<Rightarrow> byte) \<Rightarrow> OpenFile \<Rightarrow> byte list \<Rightarrow> int \<Rightarrow> SynchDisk \<Rightarrow> (int \<times> OpenFile \<times> SynchDisk) res" where
  "OpenFile_Write junk f from n s =
     rbind (OpenFile_WriteAt junk f from n (seekPosition f) s) (\<lambda>(result, s').
     Inr (result, f\<lparr>seekPosition := seekPosition f + result\<rparr>, s'))"

section \<open>A file as a list of bytes\<close>

definition raw_bytes :: "FileHeader \<Rightarrow> (int \<Rightarrow> byte list) \<Rightarrow> byte list" where
  "raw_bytes h secs = concat (map secs (hdr_sectors h))"

definition file_bytes :: "FileHeader \<Rightarrow> (int \<Rightarrow> byte list) \<Rightarrow> byte list" where
  "file_bytes h secs = take (nat (numBytes h)) (raw_bytes h secs)"

definition file_ok :: "FileHeader \<Rightarrow> bool" where
  "file_ok h \<longleftrightarrow> hdr_wf h \<and> sector_nums (hdr_sectors h) \<and> distinct (hdr_sectors h)"

lemma length_concat_uniform: "\<forall>x \<in> set xs. length x = m \<Longrightarrow> length (concat xs) = m * length xs"
  by (induction xs) auto

lemma concat_take_uniform: "\<forall>x \<in> set xs. length x = m \<Longrightarrow> concat (take k xs) = take (m * k) (concat xs)"
proof (induction xs arbitrary: k)
  case (Cons x xs)
  then show ?case by (cases k) auto
qed simp

lemma concat_drop_uniform: "\<forall>x \<in> set xs. length x = m \<Longrightarrow> concat (drop k xs) = drop (m * k) (concat xs)"
proof (induction xs arbitrary: k)
  case (Cons x xs)
  then show ?case by (cases k) auto
qed simp

lemma sectors_uniform:
  "sd_ok s \<Longrightarrow> sector_nums ns \<Longrightarrow> \<forall>x \<in> set (map (sd_sector s) ns). length x = 128"
  using sd.length_contents by auto

lemma length_raw_bytes:
  "sd_ok s \<Longrightarrow> file_ok h \<Longrightarrow> length (raw_bytes h (sd_sector s)) = 128 * nat (numSectors h)"
  using length_concat_uniform [OF sectors_uniform] length_hdr_sectors
  by (auto simp: raw_bytes_def file_ok_def)

lemma numBytes_le_sectors:
  assumes "hdr_wf h"
  shows "nat (numBytes h) \<le> 128 * nat (numSectors h)"
proof -
  have "numBytes h \<le> 128 * ((numBytes h + 127) div 128)" by linarith
  then show ?thesis using assms by (simp add: hdr_wf_def divRoundUp_sectors)
qed

lemma length_file_bytes:
  "sd_ok s \<Longrightarrow> file_ok h \<Longrightarrow> length (file_bytes h (sd_sector s)) = nat (numBytes h)"
  using length_raw_bytes [of s h] numBytes_le_sectors [of h] by (simp add: file_bytes_def file_ok_def)

lemma sector_nums_sub: "sector_nums ns \<Longrightarrow> sector_nums (take k (drop i ns))"
  by (meson in_set_dropD in_set_takeD)

lemma ByteToSector_in:
  assumes "file_ok h" and "i < nat (numSectors h)"
  shows "FileHeader_ByteToSector h (int i * SectorSize) = Inr (hdr_sectors h ! i)"
proof -
  have "numSectors h \<le> 30" using assms(1) by (simp add: file_ok_def hdr_wf_def)
  then have "i < 30" using assms(2) by linarith
  then show ?thesis using assms
    by (simp add: FileHeader_ByteToSector_def SectorSize_def hdr_sectors_def file_ok_def hdr_wf_def)
qed

lemma ReadAt_loop_seq_read:
  assumes "file_ok h" and "i + k \<le> nat (numSectors h)"
  shows "ReadAt_loop k (int i) h s = seq_read SynchDisk_ReadSector (take k (drop i (hdr_sectors h))) s"
  using assms
proof (induction k arbitrary: i s)
  case (Suc k)
  then have i: "i < nat (numSectors h)" by simp
  then have "take (Suc k) (drop i (hdr_sectors h)) =
      hdr_sectors h ! i # take k (drop (Suc i) (hdr_sectors h))"
    using length_hdr_sectors [of h] Suc.prems(1)
    by (simp add: file_ok_def Cons_nth_drop_Suc [symmetric])
  with ByteToSector_in [OF Suc.prems(1) i] Suc.IH [of "Suc i"] Suc.prems
  show ?case by (simp add: add.commute)
qed simp

lemma ReadAt_loop_correct:
  assumes s: "sd_ok s" and h: "file_ok h" and k: "i + k \<le> nat (numSectors h)"
  obtains s' where "ReadAt_loop k (int i) h s =
      Inr (take (128 * k) (drop (128 * i) (raw_bytes h (sd_sector s))), s')"
    "sd_ok s'" "sd_sector s' = sd_sector s"
proof -
  let ?ns = "take k (drop i (hdr_sectors h))"
  have all: "sector_nums (hdr_sectors h)" using h by (simp add: file_ok_def)
  have u: "\<forall>x \<in> set (map (sd_sector s) (hdr_sectors h)). length x = 128"
    by (rule sectors_uniform [OF s all])
  have u2: "\<forall>x \<in> set (drop i (map (sd_sector s) (hdr_sectors h))). length x = 128"
    using u by (meson in_set_dropD)
  have "concat (map (sd_sector s) ?ns)
      = take (128 * k) (drop (128 * i) (raw_bytes h (sd_sector s)))"
    using concat_take_uniform [OF u2, of k] concat_drop_uniform [OF u, of i]
    by (simp add: raw_bytes_def take_map drop_map)
  with sd.seq_read_contents [OF s sector_nums_sub [OF all]] ReadAt_loop_seq_read [OF h k] that
  show ?thesis by metis
qed

text \<open>The range of sectors that a request of \<open>nb\<close> bytes at \<open>p\<close> touches.\<close>

lemma request_sectors:
  fixes p nb :: nat
  assumes "0 < nb" and "p + nb \<le> nat (numBytes h)" and "hdr_wf h"
  shows "p div 128 + (1 + (p + nb - 1) div 128 - p div 128) \<le> nat (numSectors h)"
    and "p + nb \<le> 128 * (p div 128) + 128 * (1 + (p + nb - 1) div 128 - p div 128)"
    and "1 + int (p + nb - 1) div 128 - int p div 128 = int (1 + (p + nb - 1) div 128 - p div 128)"
proof -
  have le: "p div 128 \<le> (p + nb - 1) div 128" using assms(1) by (intro div_le_mono) simp
  have "(p + nb - 1) div 128 < nat (numSectors h)"
    using assms numBytes_le_sectors [OF assms(3)] by (simp add: less_mult_imp_div_less)
  with le show "p div 128 + (1 + (p + nb - 1) div 128 - p div 128) \<le> nat (numSectors h)" by simp
  have "p + nb - 1 < 128 * ((p + nb - 1) div 128) + 128" by linarith
  with le assms(1) show "p + nb \<le> 128 * (p div 128) + 128 * (1 + (p + nb - 1) div 128 - p div 128)"
    by (simp add: algebra_simps)
  show "1 + int (p + nb - 1) div 128 - int p div 128 = int (1 + (p + nb - 1) div 128 - p div 128)"
    using le by (simp add: of_nat_diff zdiv_int)
qed

lemma SectorSize_128: "SectorSize = 128"
  by (simp add: SectorSize_def)

lemma nat_span: "a \<le> b \<Longrightarrow> nat (1 + int b - int a) = 1 + b - a"
  by simp

lemma request_rounding:
  fixes p nb :: nat
  assumes "0 < nb"
  shows "divRoundDown (int p) 128 = int (p div 128)"
    and "divRoundDown (int p + int nb - 1) 128 = int ((p + nb - 1) div 128)"
    and "nat (1 + int ((p + nb - 1) div 128) - int (p div 128)) = 1 + (p + nb - 1) div 128 - p div 128"
proof -
  have d: "divRoundDown (int m) 128 = int (m div 128)" for m :: nat
    by (simp add: divRoundDown_nonneg zdiv_int)
  show "divRoundDown (int p) 128 = int (p div 128)" by (rule d)
  have "int p + int nb - 1 = int (p + nb - 1)" using assms by simp
  then show "divRoundDown (int p + int nb - 1) 128 = int ((p + nb - 1) div 128)"
    by (simp only: d)
  show "nat (1 + int ((p + nb - 1) div 128) - int (p div 128))
      = 1 + (p + nb - 1) div 128 - p div 128"
    by (rule nat_span) (use assms in \<open>intro div_le_mono, simp\<close>)
qed

section \<open>Reading\<close>

lemma take_drop_window:
  assumes "a \<le> p" and "p + n \<le> a + m"
  shows "take n (drop (p - a) (take m (drop a xs))) = take n (drop p xs)"
  using assms by (simp add: drop_take take_take min_def)

lemma bcopy_out_window:
  assumes "128 * F \<le> p" and "p + nb \<le> 128 * F + m" and "128 * F + m \<le> length raw"
  shows "bcopy_out (take m (drop (128 * F) raw)) (int p - int F * 128) (int nb)
       = Inr (take nb (drop p raw))"
proof -
  have e: "int p - int F * 128 = int (p - 128 * F)" using assms(1) by simp
  have "take nb (drop (p - 128 * F) (take m (drop (128 * F) raw))) = take nb (drop p raw)"
    by (rule take_drop_window [OF assms(1,2)])
  moreover have "int (p - 128 * F) + int nb \<le> int (length (take m (drop (128 * F) raw)))"
    using assms by simp
  ultimately show ?thesis unfolding e by (simp add: bcopy_out_def)
qed

lemma ReadAt_in_range:
  fixes p nb :: nat
  assumes s: "sd_ok s" and h: "file_ok (hdr f)" and n: "0 < n" and p: "p < nat (numBytes (hdr f))"
    and nb: "nb = min (nat n) (nat (numBytes (hdr f)) - p)" and fits: "int p + n \<le> INT_MAX"
  obtains s' where "OpenFile_ReadAt f n (int p) s =
      Inr (take nb (drop p (raw_bytes (hdr f) (sd_sector s))), s')"
    "sd_ok s'" "sd_sector s' = sd_sector s"
proof -
  have wf: "hdr_wf (hdr f)" using h by (simp add: file_ok_def)
  have pos: "0 < nb" "p + nb \<le> nat (numBytes (hdr f))" using n p nb by (auto simp: min_def)
  note r = request_sectors [OF pos wf]
  let ?k = "1 + (p + nb - 1) div 128 - p div 128"
  obtain s' where rd: "ReadAt_loop ?k (int (p div 128)) (hdr f) s =
      Inr (take (128 * ?k) (drop (128 * (p div 128)) (raw_bytes (hdr f) (sd_sector s))), s')"
      "sd_ok s'" "sd_sector s' = sd_sector s"
    using ReadAt_loop_correct [OF s h r(1)] .
  have nbi: "(if int p + n > numBytes (hdr f) then numBytes (hdr f) - int p else n) = int nb"
    using n p nb by auto
  have len: "128 * (p div 128) + 128 * ?k \<le> length (raw_bytes (hdr f) (sd_sector s))"
    using mult_le_mono2 [OF r(1), of 128] length_raw_bytes [OF s h] by (simp only: add_mult_distrib2)
  have cp: "bcopy_out (take (128 * ?k) (drop (128 * (p div 128)) (raw_bytes (hdr f) (sd_sector s))))
      (int p - int (p div 128) * 128) (int nb) = Inr (take nb (drop p (raw_bytes (hdr f) (sd_sector s))))"
    by (rule bcopy_out_window [OF _ r(2) len]) simp
  note d = request_rounding [OF pos(1)]
  have "\<not> (n \<le> 0 \<or> int p \<ge> numBytes (hdr f))" "\<not> INT_MAX < int p + n" using n p fits by auto
  then have "OpenFile_ReadAt f n (int p) s =
      Inr (take nb (drop p (raw_bytes (hdr f) (sd_sector s))), s')"
    unfolding OpenFile_ReadAt_def FileHeader_FileLength_def Let_def nbi SectorSize_128 d using rd(1) cp
    by (simp only: if_False rbind_Inr prod.case)
  with rd that show ?thesis by simp
qed

lemma file_bytes_window:
  "p + nb \<le> nat (numBytes h) \<Longrightarrow> take nb (drop p (file_bytes h secs)) = take nb (drop p (raw_bytes h secs))"
  by (simp add: file_bytes_def drop_take take_take min_def)

lemma OpenFile_ReadAt_correct:
  assumes s: "sd_ok s" and h: "file_ok (hdr f)" and p: "0 \<le> position"
    and fits: "n \<le> 0 \<or> numBytes (hdr f) \<le> position \<or> position + n \<le> INT_MAX"
  obtains s' where "OpenFile_ReadAt f n position s =
      Inr (take (nat n) (drop (nat position) (file_bytes (hdr f) (sd_sector s))), s')"
    "sd_ok s'" "sd_sector s' = sd_sector s"
proof (cases "n \<le> 0 \<or> position \<ge> numBytes (hdr f)")
  case True
  then have "OpenFile_ReadAt f n position s = Inr ([], s)"
    by (simp add: OpenFile_ReadAt_def FileHeader_FileLength_def)
  moreover have "take (nat n) (drop (nat position) (file_bytes (hdr f) (sd_sector s))) = []"
    using True length_file_bytes [OF s h] by auto
  ultimately show ?thesis using that s by simp
next
  case False
  define q where "q = nat position"
  define nb where "nb = min (nat n) (nat (numBytes (hdr f)) - q)"
  have q: "position = int q" "q < nat (numBytes (hdr f))" using p False by (auto simp: q_def)
  have "q + nb \<le> nat (numBytes (hdr f))" using q by (auto simp: nb_def)
  then have w: "take nb (drop q (file_bytes (hdr f) (sd_sector s)))
      = take nb (drop q (raw_bytes (hdr f) (sd_sector s)))" by (rule file_bytes_window)
  have "take (nat n) (drop q (file_bytes (hdr f) (sd_sector s))) =
      take nb (drop q (file_bytes (hdr f) (sd_sector s)))"
    using length_file_bytes [OF s h] by (simp add: nb_def min_def)
  with w q ReadAt_in_range [OF s h _ q(2) nb_def] False fits that show ?thesis
    by (metis linorder_not_le nat_int)
qed

text \<open>No file is longer than 3840 bytes, so that only requests close to \<open>INT_MAX\<close> bytes overflow.\<close>

lemma numBytes_le_max:
  assumes "file_ok h"
  shows "numBytes h \<le> 3840"
proof -
  have "nat (numBytes h) \<le> 128 * nat (numSectors h)" "numSectors h \<le> 30"
    using numBytes_le_sectors assms by (auto simp: file_ok_def hdr_wf_def)
  then show ?thesis by linarith
qed

lemma OpenFile_ReadAt_small:
  assumes "sd_ok s" and h: "file_ok (hdr f)" and "0 \<le> position" and n: "n \<le> INT_MAX - 3840"
  obtains s' where "OpenFile_ReadAt f n position s =
      Inr (take (nat n) (drop (nat position) (file_bytes (hdr f) (sd_sector s))), s')"
    "sd_ok s'" "sd_sector s' = sd_sector s"
proof (rule OpenFile_ReadAt_correct [OF assms(1-3), of n])
  show "n \<le> 0 \<or> numBytes (hdr f) \<le> position \<or> position + n \<le> INT_MAX"
    using n numBytes_le_max [OF h] by linarith
qed

lemma OpenFile_ReadAt_overflow:
  assumes "0 < n" and "position < numBytes (hdr f)" and "INT_MAX < position + n"
  shows "OpenFile_ReadAt f n position s = Inl IntOverflow"
  using assms by (simp add: OpenFile_ReadAt_def FileHeader_FileLength_def)

section \<open>Writing\<close>

lemma WriteSector_prefix:
  assumes "128 \<le> length buf"
  shows "SynchDisk_WriteSector n buf s = SynchDisk_WriteSector n (take 128 buf) s"
  using assms
  by (simp add: SynchDisk_WriteSector_def Disk_WriteRequest_def bcopy_out_def SectorSize_def)

lemma WriteAt_loop_correct:
  assumes "sd_ok s" and "file_ok h" and "i + k \<le> nat (numSectors h)" and "length buf = 128 * k"
  shows "\<exists>s'. WriteAt_loop k (int i) h buf s = Inr s' \<and> sd_ok s'
    \<and> concat (map (sd_sector s') (take k (drop i (hdr_sectors h)))) = buf
    \<and> (\<forall>n. n \<notin> set (take k (drop i (hdr_sectors h))) \<longrightarrow> sd_sector s' n = sd_sector s n)"
  using assms
proof (induction k arbitrary: i buf s)
  case 0
  then show ?case by simp
next
  case (Suc k)
  let ?n = "hdr_sectors h ! i" and ?rest = "take k (drop (Suc i) (hdr_sectors h))"
  have i: "i < length (hdr_sectors h)"
    using Suc.prems(2,3) length_hdr_sectors [of h] by (simp add: file_ok_def)
  have split: "take (Suc k) (drop i (hdr_sectors h)) = ?n # ?rest"
    using i by (simp add: Cons_nth_drop_Suc [symmetric])
  have "distinct (take (Suc k) (drop i (hdr_sectors h)))"
    using Suc.prems(2) by (simp add: file_ok_def)
  then have fresh: "?n \<notin> set ?rest" unfolding split by simp
  have num: "0 \<le> ?n" "?n < NumSectors" using Suc.prems(2) i by (auto simp: file_ok_def)
  obtain s1 where s1: "SynchDisk_WriteSector ?n buf s = Inr s1" "sd_ok s1"
      "sd_sector s1 = (sd_sector s)(?n := take 128 buf)"
    using sd.wr_contents [OF Suc.prems(1) num, of "take 128 buf"] WriteSector_prefix [of buf ?n s]
      Suc.prems(4) by auto
  have "\<exists>s'. WriteAt_loop k (int (Suc i)) h (drop 128 buf) s1 = Inr s' \<and> sd_ok s'
      \<and> concat (map (sd_sector s') ?rest) = drop 128 buf
      \<and> (\<forall>n. n \<notin> set ?rest \<longrightarrow> sd_sector s' n = sd_sector s1 n)"
    using Suc.prems s1 by (intro Suc.IH) auto
  then obtain s' where s': "WriteAt_loop k (int (Suc i)) h (drop 128 buf) s1 = Inr s'" "sd_ok s'"
      "concat (map (sd_sector s') ?rest) = drop 128 buf"
      "\<And>n. n \<notin> set ?rest \<Longrightarrow> sd_sector s' n = sd_sector s1 n" by auto
  have "sd_sector s' ?n = take 128 buf" using s'(4) [OF fresh] s1 by simp
  moreover have "FileHeader_ByteToSector h (int i * SectorSize) = Inr ?n"
    using ByteToSector_in [OF Suc.prems(2), of i] Suc.prems(3) by simp
  ultimately show ?case using s' s1 unfolding split
    by (auto simp: SectorSize_def add.commute)
qed

lemma raw_bytes_write:
  assumes s: "sd_ok s" "sd_ok s'" and h: "file_ok h" and k: "i + k \<le> nat (numSectors h)"
    and buf: "concat (map (sd_sector s') (take k (drop i (hdr_sectors h)))) = buf"
    and keep: "\<And>n. n \<notin> set (take k (drop i (hdr_sectors h))) \<Longrightarrow> sd_sector s' n = sd_sector s n"
  shows "raw_bytes h (sd_sector s') = patch (raw_bytes h (sd_sector s)) (128 * i) buf"
proof -
  let ?hs = "hdr_sectors h"
  have all: "sector_nums ?hs" and dist: "distinct ?hs" using h by (auto simp: file_ok_def)
  note u = sectors_uniform [OF s(1) all]
  have hs: "?hs = take i ?hs @ take k (drop i ?hs) @ drop (i + k) ?hs"
    by (metis append_take_drop_id drop_drop add.commute)
  have d: "distinct (take i ?hs @ take k (drop i ?hs) @ drop (i + k) ?hs)"
    using dist hs by simp
  have e1: "map (sd_sector s') (take i ?hs) = map (sd_sector s) (take i ?hs)"
    using d by (intro map_cong refl keep) auto
  have e2: "map (sd_sector s') (drop (i + k) ?hs) = map (sd_sector s) (drop (i + k) ?hs)"
    using d by (intro map_cong refl keep) auto
  have "raw_bytes h (sd_sector s') = concat (map (sd_sector s')
      (take i ?hs @ take k (drop i ?hs) @ drop (i + k) ?hs))"
    using hs by (simp add: raw_bytes_def)
  then have "raw_bytes h (sd_sector s') =
      concat (map (sd_sector s) (take i ?hs)) @ buf @ concat (map (sd_sector s) (drop (i + k) ?hs))"
    by (simp only: map_append concat_append e1 e2 buf)
  moreover have "length buf = 128 * k"
    using buf k length_hdr_sectors [of h] h
      length_concat_uniform [OF sectors_uniform [OF s(2) sector_nums_sub [OF all]], of k i]
    by (auto simp: file_ok_def)
  ultimately show ?thesis
    using concat_take_uniform [OF u, of i] concat_drop_uniform [OF u, of "i + k"]
    by (simp add: patch_def raw_bytes_def take_map drop_map algebra_simps)
qed

text \<open>
  The buffer that \<open>WriteAt\<close> assembles: the sectors \<open>p div 128\<close> to \<open>(p + nb - 1) div 128\<close>, of which the
  first and the last are filled from the file when they are only partly overwritten. Outside the
  written range it agrees with the old contents \<open>B\<close> of the file.
\<close>

definition head_filled :: "byte list \<Rightarrow> nat \<Rightarrow> byte list \<Rightarrow> byte list" where
  "head_filled B p buf = (if p \<noteq> 128 * (p div 128)
     then patch buf 0 (take 128 (drop (128 * (p div 128)) B)) else buf)"

definition tail_filled :: "byte list \<Rightarrow> nat \<Rightarrow> nat \<Rightarrow> byte list \<Rightarrow> byte list" where
  "tail_filled B p nb buf = (let F = p div 128; L = (p + nb - 1) div 128 in
     if p + nb \<noteq> 128 * (L + 1) \<and> (F \<noteq> L \<or> p = 128 * F)
     then patch buf (128 * (L - F)) (take 128 (drop (128 * L) B)) else buf)"

lemma length_head_filled:
  "128 \<le> length buf \<Longrightarrow> length (head_filled B p buf) = length buf"
  by (simp add: head_filled_def)

lemma length_tail_filled:
  assumes "0 < nb" and "length buf = 128 * (1 + (p + nb - 1) div 128 - p div 128)"
  shows "length (tail_filled B p nb buf) = length buf"
proof -
  let ?F = "p div 128" and ?L = "(p + nb - 1) div 128"
  have "?F \<le> ?L" using assms(1) by (intro div_le_mono) simp
  then obtain x where x: "?L = ?F + x" using le_Suc_ex by blast
  then have "length buf = 128 * x + 128" using assms(2) by simp
  then have "128 * (?L - ?F) + length (take 128 (drop (128 * ?L) B)) \<le> length buf"
    using x by simp
  then show ?thesis by (auto simp: tail_filled_def Let_def)
qed

lemma filled_agrees:
  assumes nb: "0 < nb" "p + nb \<le> length B"
    and len: "length buf = 128 * (1 + (p + nb - 1) div 128 - p div 128)"
    and j: "j < length buf" "128 * (p div 128) + j < length B"
    and out: "128 * (p div 128) + j < p \<or> p + nb \<le> 128 * (p div 128) + j"
  shows "tail_filled B p nb (head_filled B p buf) ! j = B ! (128 * (p div 128) + j)"
proof -
  define F where "F = p div 128"
  define L where "L = (p + nb - 1) div 128"
  have FL: "F \<le> L" unfolding F_def L_def using nb by (intro div_le_mono) simp
  have F: "128 * F \<le> p" "p < 128 * F + 128" unfolding F_def by linarith+
  have L: "128 * L + 1 \<le> p + nb" "p + nb \<le> 128 * L + 128" unfolding L_def using nb by linarith+
  have lb: "length buf = 128 * (1 + L - F)" using len by (simp add: F_def L_def)
  have b128: "128 \<le> length buf" using lb FL by simp
  define hb where "hb = head_filled B p buf"
  have lh: "length hb = length buf" using length_head_filled [OF b128] by (simp add: hb_def)
  have head: "hb ! j = B ! (128 * F + j)" if "j < 128" "p \<noteq> 128 * F"
  proof -
    have "j < length (take 128 (drop (128 * F) B))" using that j by (simp add: F_def [symmetric])
    moreover have "0 + length (take 128 (drop (128 * F) B)) \<le> length buf" using b128 by simp
    moreover have "hb = patch buf 0 (take 128 (drop (128 * F) B))"
      using that by (simp add: hb_def head_filled_def F_def [symmetric])
    ultimately show ?thesis using j(1) that by (simp add: nth_patch)
  qed
  show ?thesis
  proof (cases "p + nb \<noteq> 128 * (L + 1) \<and> (F \<noteq> L \<or> p = 128 * F)")
    case True
    define d where "d = take 128 (drop (128 * L) B)"
    have tl: "tail_filled B p nb hb = patch hb (128 * (L - F)) d"
      using True by (simp add: tail_filled_def F_def L_def d_def Let_def)
    have pl: "128 * (L - F) + length d \<le> length hb" using lh lb FL by (simp add: d_def)
    have np: "patch hb (128 * (L - F)) d ! j = (if 128 * (L - F) \<le> j \<and> j < 128 * (L - F) + length d
        then d ! (j - 128 * (L - F)) else hb ! j)"
      using nth_patch [OF pl] j lh by simp
    show ?thesis
    proof (cases "128 * (L - F) \<le> j")
      case True
      obtain x where x: "L = F + x" using FL le_Suc_ex by blast
      have lt: "j - 128 * (L - F) < length d"
        using j lb True unfolding d_def F_def [symmetric] x by (simp add: less_diff_conv)
      then have "patch hb (128 * (L - F)) d ! j = d ! (j - 128 * (L - F))"
        using np True by (simp add: less_diff_conv2)
      moreover have "128 * L + (j - 128 * (L - F)) = 128 * F + j" using True FL by simp
      moreover have "128 * L \<le> length B" using lt by (auto simp: d_def)
      ultimately show ?thesis using lt tl
        by (simp add: d_def hb_def [symmetric] F_def [symmetric])
    next
      case False
      with out L FL F have "128 * F + j < p" by (auto simp: F_def [symmetric])
      with False F head np j lh tl show ?thesis
        by (simp add: hb_def [symmetric] F_def [symmetric])
    qed
  next
    case False
    then have "tail_filled B p nb hb = hb"
      unfolding tail_filled_def Let_def F_def [symmetric] L_def [symmetric] by (rule if_not_P)
    moreover have "j < 128 \<and> p \<noteq> 128 * F"
    proof (cases "p + nb = 128 * (L + 1)")
      case True
      then have "128 * F + j < p" using out j lb FL by (auto simp: F_def [symmetric] algebra_simps)
      then show ?thesis using F by auto
    next
      case nl: False
      with False have "F = L" "p \<noteq> 128 * F" by auto
      then show ?thesis using j lb by simp
    qed
    ultimately show ?thesis using head by (simp add: hb_def [symmetric] F_def [symmetric])
  qed
qed

lemma fill_head:
  assumes s: "sd_ok s" and h: "file_ok (hdr f)" and b: "128 \<le> length buf"
  obtains s1 where
    "(if \<not> int p = int (p div 128) * 128
      then rbind (OpenFile_ReadAt f 128 (int (p div 128) * 128) s) (\<lambda>(d, s1).
           rbind (bcopy_in d (int (length d)) 0 buf) (\<lambda>buf1. Inr (buf1, s1)))
      else Inr (buf, s)) = Inr (head_filled (file_bytes (hdr f) (sd_sector s)) p buf, s1)"
    "sd_ok s1" "sd_sector s1 = sd_sector s"
proof -
  let ?B = "file_bytes (hdr f) (sd_sector s)"
  define F where "F = p div 128"
  obtain s1 where rd: "OpenFile_ReadAt f 128 (int F * 128) s = Inr (take 128 (drop (F * 128) ?B), s1)"
      "sd_ok s1" "sd_sector s1 = sd_sector s"
    using OpenFile_ReadAt_small [OF s h, of "int F * 128" 128] by (auto simp: nat_mult_distrib INT_MAX_def)
  have e: "int p = int F * 128 \<longleftrightarrow> p = 128 * F" by linarith
  have "bcopy_in (take 128 (drop (F * 128) ?B)) (int (length (take 128 (drop (F * 128) ?B)))) 0 buf
      = Inr (patch buf 0 (take 128 (drop (128 * F) ?B)))"
    using b bcopy_in_all [of 0 "take 128 (drop (F * 128) ?B)" buf] by (simp add: mult.commute)
  with rd s that show ?thesis unfolding head_filled_def F_def [symmetric] e
    by (cases "p = 128 * F") auto
qed

lemma fill_tail:
  assumes s: "sd_ok s" and h: "file_ok (hdr f)" and nb: "0 < nb"
    and b: "length buf = 128 * (1 + (p + nb - 1) div 128 - p div 128)"
  obtains s1 where
    "(if \<not> int p + int nb = (int ((p + nb - 1) div 128) + 1) * 128
         \<and> (int (p div 128) \<noteq> int ((p + nb - 1) div 128) \<or> int p = int (p div 128) * 128)
      then rbind (OpenFile_ReadAt f 128 (int ((p + nb - 1) div 128) * 128) s) (\<lambda>(d, s2).
           rbind (bcopy_in d (int (length d)) ((int ((p + nb - 1) div 128) - int (p div 128)) * 128) buf)
             (\<lambda>buf2. Inr (buf2, s2)))
      else Inr (buf, s)) = Inr (tail_filled (file_bytes (hdr f) (sd_sector s)) p nb buf, s1)"
    "sd_ok s1" "sd_sector s1 = sd_sector s"
proof -
  let ?B = "file_bytes (hdr f) (sd_sector s)"
  define F where "F = p div 128"
  define L where "L = (p + nb - 1) div 128"
  have "F \<le> L" unfolding F_def L_def using nb by (intro div_le_mono) simp
  then obtain x where x: "L = F + x" using le_Suc_ex by blast
  have b': "length buf = 128 * x + 128" using b unfolding F_def [symmetric] L_def [symmetric] x by simp
  obtain s1 where rd: "OpenFile_ReadAt f 128 (int L * 128) s = Inr (take 128 (drop (L * 128) ?B), s1)"
      "sd_ok s1" "sd_sector s1 = sd_sector s"
    using OpenFile_ReadAt_small [OF s h, of "int L * 128" 128] by (auto simp: nat_mult_distrib INT_MAX_def)
  have e: "int p + int nb = (int L + 1) * 128 \<longleftrightarrow> p + nb = 128 * (L + 1)"
    "int F \<noteq> int L \<longleftrightarrow> F \<noteq> L" "int p = int F * 128 \<longleftrightarrow> p = 128 * F" by auto
  have off: "(int L - int F) * 128 = int (128 * (L - F))" using x by simp
  have "bcopy_in (take 128 (drop (L * 128) ?B)) (int (length (take 128 (drop (L * 128) ?B))))
      (int (128 * (L - F))) buf = Inr (patch buf (128 * (L - F)) (take 128 (drop (128 * L) ?B)))"
    using b' x bcopy_in_all [of "128 * (L - F)" "take 128 (drop (L * 128) ?B)" buf]
    by (simp add: mult.commute)
  with rd s that show ?thesis
    unfolding tail_filled_def Let_def F_def [symmetric] L_def [symmetric] e off
    by (cases "p + nb \<noteq> 128 * (L + 1) \<and> (F \<noteq> L \<or> p = 128 * F)") auto
qed

text \<open>The sectors of the file after the buffer, with the data laid over it, has been written back.\<close>

lemma written_bytes:
  assumes nb: "0 < nb" "p + nb \<le> N" "N \<le> length raw" "length data = nb"
    and F: "F = p div 128" and k: "k = 1 + (p + nb - 1) div 128 - p div 128"
    and len: "length buf = 128 * k" "128 * F + 128 * k \<le> length raw"
  shows "take N (patch raw (128 * F)
      (patch (tail_filled (take N raw) p nb (head_filled (take N raw) p buf)) (p - 128 * F) data))
    = patch (take N raw) p data"
proof -
  define B where "B = take N raw"
  define buf2 where "buf2 = tail_filled B p nb (head_filled B p buf)"
  have lB: "length B = N" using nb by (simp add: B_def)
  have kpos: "0 < k" using k nb(1) div_le_mono [of p "p + nb - 1" 128] by simp
  have lb: "length buf2 = 128 * k"
    using length_tail_filled [OF nb(1), of "head_filled B p buf" p B] length_head_filled [of buf B p] len(1) kpos
    unfolding buf2_def k [symmetric] by simp
  have Fp: "128 * F \<le> p" by (simp add: F)
  have hi: "p + nb \<le> 128 * F + 128 * k"
  proof -
    have "p + nb - 1 < 128 * ((p + nb - 1) div 128) + 128" by linarith
    moreover have "p div 128 \<le> (p + nb - 1) div 128" using nb(1) by (intro div_le_mono) simp
    ultimately show ?thesis using nb(1) by (simp add: F k algebra_simps)
  qed
  define buf3 where "buf3 = patch buf2 (p - 128 * F) data"
  have l3: "length buf3 = 128 * k" and pl: "p - 128 * F + length data \<le> length buf2"
    using lb hi Fp nb(4) by (auto simp: buf3_def)
  have "take N (patch raw (128 * F) buf3) = patch B p data"
  proof (rule nth_equalityI)
    show "length (take N (patch raw (128 * F) buf3)) = length (patch B p data)"
      using l3 len nb lB by simp
    fix i assume "i < length (take N (patch raw (128 * F) buf3))"
    then have i: "i < N" by simp
    have new: "patch B p data ! i = (if p \<le> i \<and> i < p + nb then data ! (i - p) else B ! i)"
      using nth_patch [of p data B i] nb lB i by simp
    have old: "patch raw (128 * F) buf3 ! i =
        (if 128 * F \<le> i \<and> i < 128 * F + 128 * k then buf3 ! (i - 128 * F) else raw ! i)"
      using nth_patch [of "128 * F" buf3 raw i] l3 len nb i by simp
    have raw: "B ! i = raw ! i" using i by (simp add: B_def)
    show "take N (patch raw (128 * F) buf3) ! i = patch B p data ! i"
    proof (cases "128 * F \<le> i \<and> i < 128 * F + 128 * k")
      case False
      then have "\<not> (p \<le> i \<and> i < p + nb)" using Fp hi by auto
      then show ?thesis using False new old raw i by (simp only: nth_take if_False)
    next
      case True
      then obtain j where j: "i = 128 * F + j" "j < 128 * k" by (metis le_Suc_ex nat_add_left_cancel_less)
      have b3: "buf3 ! j = (if p - 128 * F \<le> j \<and> j < p - 128 * F + nb
          then data ! (j - (p - 128 * F)) else buf2 ! j)"
        using nth_patch [OF pl] j(2) lb nb(4) by (simp add: buf3_def)
      have inn: "p - 128 * F \<le> j \<and> j < p - 128 * F + nb \<longleftrightarrow> p \<le> i \<and> i < p + nb"
        "j - (p - 128 * F) = i - p" using Fp j(1) by auto
      have "buf2 ! j = B ! i" if "\<not> (p \<le> i \<and> i < p + nb)"
        using filled_agrees [of nb p B buf j] that j i nb lB len unfolding buf2_def F k by fastforce
      then show ?thesis using True old new b3 inn i j(1) by simp
    qed
  qed
  then show ?thesis by (simp add: buf3_def buf2_def B_def)
qed

lemma OpenFile_WriteAt_correct:
  assumes s: "sd_ok s" and h: "file_ok (hdr f)"
    and p: "0 \<le> position" "position < numBytes (hdr f)" and n: "0 < n" "n \<le> int (length from)"
    and nb: "nb = min (nat n) (nat (numBytes (hdr f)) - nat position)"
  obtains s' where "OpenFile_WriteAt junk f from n position s = Inr (int nb, s')" "sd_ok s'"
    "file_bytes (hdr f) (sd_sector s') =
       patch (file_bytes (hdr f) (sd_sector s)) (nat position) (take nb from)"
    "\<And>m. m \<notin> set (hdr_sectors (hdr f)) \<Longrightarrow> sd_sector s' m = sd_sector s m"
proof -
  define q where "q = nat position"
  define F where "F = q div 128"
  define k where "k = 1 + (q + nb - 1) div 128 - q div 128"
  define N where "N = nat (numBytes (hdr f))"
  define raw where "raw = raw_bytes (hdr f) (sd_sector s)"
  define B where "B = file_bytes (hdr f) (sd_sector s)"
  have q: "position = int q" using p by (simp add: q_def)
  have wf: "hdr_wf (hdr f)" using h by (simp add: file_ok_def)
  have qlt: "q < nat (numBytes (hdr f))" using p by (simp add: q_def)
  have pos: "0 < nb" "q + nb \<le> nat (numBytes (hdr f))"
    using n qlt nb [folded q_def] by (auto simp: min_def)
  have nbn: "nb \<le> length from" using nb n by linarith
  note r = request_sectors [OF pos wf, folded k_def, folded F_def]
  note d = request_rounding [OF pos(1), of q]
  have nbi: "(if int q + n > numBytes (hdr f) then numBytes (hdr f) - int q else n) = int nb"
    using n p nb q by auto
  have ns: "1 + int ((q + nb - 1) div 128) - int (q div 128) = int k"
  proof -
    have "q div 128 \<le> (q + nb - 1) div 128" using pos(1) by (intro div_le_mono) simp
    then show ?thesis unfolding k_def by linarith
  qed
  have Fq: "128 * F \<le> q" by (simp add: F_def)
  have kpos: "0 < k" using r(2) pos(1) Fq by (cases k) simp_all
  define buf where "buf = map junk [0..<128 * k]"
  have lbuf: "length buf = 128 * k" by (simp add: buf_def)
  have nbuf: "map junk [0..<nat (int k * 128)] = buf" by (simp add: buf_def nat_mult_distrib mult.commute)
  have b128: "128 \<le> length buf" using lbuf kpos by simp
  obtain s1 where s1: "(if \<not> int q = int (q div 128) * 128
      then rbind (OpenFile_ReadAt f 128 (int (q div 128) * 128) s) (\<lambda>(d, s1).
           rbind (bcopy_in d (int (length d)) 0 buf) (\<lambda>buf1. Inr (buf1, s1)))
      else Inr (buf, s)) = Inr (head_filled B q buf, s1)" "sd_ok s1" "sd_sector s1 = sd_sector s"
    using fill_head [OF s h b128] unfolding B_def .
  define buf1 where "buf1 = head_filled B q buf"
  have l1: "length buf1 = 128 * k" using length_head_filled [OF b128] lbuf by (simp add: buf1_def)
  obtain s2 where s2: "(if \<not> int q + int nb = (int ((q + nb - 1) div 128) + 1) * 128
         \<and> (int (q div 128) \<noteq> int ((q + nb - 1) div 128) \<or> int q = int (q div 128) * 128)
      then rbind (OpenFile_ReadAt f 128 (int ((q + nb - 1) div 128) * 128) s1) (\<lambda>(d, s2).
           rbind (bcopy_in d (int (length d)) ((int ((q + nb - 1) div 128) - int (q div 128)) * 128) buf1)
             (\<lambda>buf2. Inr (buf2, s2)))
      else Inr (buf1, s1)) = Inr (tail_filled B q nb buf1, s2)" "sd_ok s2" "sd_sector s2 = sd_sector s"
    using fill_tail [OF s1(2) h pos(1) l1 [unfolded k_def], unfolded s1(3), folded B_def] .
  define buf2 where "buf2 = tail_filled B q nb buf1"
  have l2: "length buf2 = 128 * k"
    using length_tail_filled [OF pos(1) l1 [unfolded k_def]] l1 by (simp add: buf2_def)
  have off: "int q - int F * 128 = int (q - 128 * F)" using Fq by simp
  have fit: "q - 128 * F + nb \<le> 128 * k" using r(2) Fq by linarith
  define buf3 where "buf3 = patch buf2 (q - 128 * F) (take nb from)"
  have l3: "length buf3 = 128 * k" using l2 fit nbn by (simp add: buf3_def min_def)
  have cp: "bcopy_in from (int nb) (int q - int F * 128) buf2 = Inr buf3"
    using nbn l2 fit unfolding off bcopy_in_def buf3_def by simp
  obtain s3 where s3: "WriteAt_loop k (int F) (hdr f) buf3 s2 = Inr s3" "sd_ok s3"
      "concat (map (sd_sector s3) (take k (drop F (hdr_sectors (hdr f))))) = buf3"
      "\<And>m. m \<notin> set (take k (drop F (hdr_sectors (hdr f)))) \<Longrightarrow> sd_sector s3 m = sd_sector s2 m"
    using WriteAt_loop_correct [OF s2(2) h r(1) l3] by blast
  have "raw_bytes (hdr f) (sd_sector s3) = patch raw (128 * F) buf3"
    using raw_bytes_write [OF s2(2) s3(2) h r(1) s3(3,4)] s2(3) by (simp add: raw_def)
  moreover have "take N (patch raw (128 * F) buf3) = patch B q (take nb from)"
  proof -
    have Braw: "B = take N raw" by (simp add: B_def file_bytes_def N_def raw_def)
    have "128 * F + 128 * k \<le> length raw"
      using r(1) length_raw_bytes [OF s h] unfolding raw_def by (simp add: algebra_simps)
    with pos nbn lbuf numBytes_le_sectors [OF wf] length_raw_bytes [OF s h] show ?thesis
      unfolding buf3_def buf2_def buf1_def Braw
      by (intro written_bytes [OF _ _ _ _ F_def k_def]) (auto simp: N_def raw_def)
  qed
  ultimately have fb: "file_bytes (hdr f) (sd_sector s3) =
      patch (file_bytes (hdr f) (sd_sector s)) (nat position) (take nb from)"
    by (simp add: file_bytes_def [of _ "sd_sector s3"] N_def B_def q_def)
  have "\<not> (n \<le> 0 \<or> int q \<ge> numBytes (hdr f))" using n p q by auto
  then have "OpenFile_WriteAt junk f from n (int q) s = Inr (int nb, s3)"
    unfolding OpenFile_WriteAt_def FileHeader_FileLength_def Let_def nbi SectorSize_128 d(1,2) ns nbuf
    using s1(1) [folded buf1_def] s2(1) [folded buf2_def] cp s3(1)
    by (simp only: if_False rbind_Inr prod.case F_def nat_int)
  moreover have "\<And>m. m \<notin> set (hdr_sectors (hdr f)) \<Longrightarrow> sd_sector s3 m = sd_sector s m"
    using s3(4) s2(3) by (metis in_set_dropD in_set_takeD)
  ultimately show ?thesis using that [OF _ s3(2) fb] q by blast
qed

section \<open>Reading what was written\<close>

lemma patch_read_back:
  "p + length d \<le> length xs \<Longrightarrow> take (length d) (drop p (patch xs p d)) = d"
  by (rule take_drop_patch)

lemma WriteAt_out_of_range:
  "n \<le> 0 \<or> numBytes (hdr f) \<le> position \<Longrightarrow> OpenFile_WriteAt junk f from n position s = Inr (0, s)"
  by (auto simp: OpenFile_WriteAt_def FileHeader_FileLength_def)

text \<open>A formatted but empty disk and a file of two sectors, for concrete instances.\<close>

definition blank_disk :: SynchDisk where
  "blank_disk = \<lparr>disk = \<lparr>fileno = replicate 131076 0, active = False, lastSector = 0, bufferInit = 0\<rparr>,
     stats = Statistics_new\<rparr>"

definition sample_file :: OpenFile where
  "sample_file = \<lparr>hdr = \<lparr>numBytes = 200, numSectors = 2, dataSectors = 9 # 5 # replicate 28 0\<rparr>,
     seekPosition = 126\<rparr>"

lemma blank_disk_ok: "sd_ok blank_disk"
  by (simp add: blank_disk_def sd_ok_def disk_wf_def disk_pos_ok_def disk_consts Statistics_new_def)

lemma sample_file_ok: "file_ok (hdr sample_file)"
  by (simp add: sample_file_def file_ok_def hdr_wf_def hdr_sectors_def divRoundUp_sectors
      NumSectors_def SectorsPerTrack_def NumTracks_def)

lemma sample_file_size [simp]: "numBytes (hdr sample_file) = 200"
  by (simp add: sample_file_def)

text \<open>
  \<open>ReadAt\<close> at any position that is not negative, aligned or not, returns exactly the bytes of the
  file from that position, cut at the end of the file, and leaves every sector of the disk as it was,
  unless the position lies in the file and the end of the request beyond \<open>INT_MAX\<close>.
\<close>

theorem OpenFile_ReadAt_window:
  assumes "sd_ok s" and "file_ok (hdr f)" and "0 \<le> position"
    and "n \<le> 0 \<or> numBytes (hdr f) \<le> position \<or> position + n \<le> INT_MAX"
  shows "\<exists>s'. OpenFile_ReadAt f n position s =
      Inr (take (nat n) (drop (nat position) (file_bytes (hdr f) (sd_sector s))), s')
    \<and> sd_ok s' \<and> sd_sector s' = sd_sector s"
  using OpenFile_ReadAt_correct [OF assms] by blast

theorem OpenFile_ReadAt_window_witness:
  "\<exists>s'. OpenFile_ReadAt sample_file 100 150 blank_disk =
      Inr (take (nat 100) (drop (nat 150) (file_bytes (hdr sample_file) (sd_sector blank_disk))), s')
    \<and> sd_ok s' \<and> sd_sector s' = sd_sector blank_disk"
  by (rule OpenFile_ReadAt_window [OF blank_disk_ok sample_file_ok]) (simp_all add: INT_MAX_def)

text \<open>
  C21. \<open>WriteAt\<close> inside a file replaces the bytes of the file from \<open>position\<close> by the given ones, cut at
  the end of the file, keeps all other bytes of the file (the partly written first and last sectors
  included), returns how many bytes it wrote, and changes no sector that is not one of the file's.
\<close>

theorem OpenFile_WriteAt_patch:
  assumes "sd_ok s" and "file_ok (hdr f)" and "0 \<le> position" and "position < numBytes (hdr f)"
    and "0 < n" and "n \<le> int (length from)"
    and "nb = min (nat n) (nat (numBytes (hdr f)) - nat position)"
  shows "\<exists>s'. OpenFile_WriteAt junk f from n position s = Inr (int nb, s') \<and> sd_ok s'
    \<and> file_bytes (hdr f) (sd_sector s') =
        patch (file_bytes (hdr f) (sd_sector s)) (nat position) (take nb from)
    \<and> (\<forall>m. m \<notin> set (hdr_sectors (hdr f)) \<longrightarrow> sd_sector s' m = sd_sector s m)"
  using OpenFile_WriteAt_correct [OF assms] by metis

theorem OpenFile_WriteAt_patch_witness:
  "\<exists>s'. OpenFile_WriteAt (\<lambda>_. 255) sample_file [1, 2, 3, 4] 4 126 blank_disk = Inr (int 4, s') \<and> sd_ok s'
    \<and> file_bytes (hdr sample_file) (sd_sector s') =
        patch (file_bytes (hdr sample_file) (sd_sector blank_disk)) (nat 126) (take 4 [1, 2, 3, 4])
    \<and> (\<forall>m. m \<notin> set (hdr_sectors (hdr sample_file)) \<longrightarrow> sd_sector s' m = sd_sector blank_disk m)"
  by (rule OpenFile_WriteAt_patch [OF blank_disk_ok sample_file_ok]) simp_all

text \<open>
  A sequential \<open>Write\<close> followed by a \<open>Seek\<close> back and a sequential \<open>Read\<close> of the same length returns
  the bytes that were written; each moves the seek position by the number of bytes it transferred.
\<close>

lemma OpenFile_write_seek_read:
  assumes s: "sd_ok s" and h: "file_ok (hdr f)" and p: "0 \<le> seekPosition f"
    and room: "seekPosition f + int (length from) \<le> numBytes (hdr f)" and "from \<noteq> []"
  shows "\<exists>f1 s1 f2 s2. OpenFile_Write junk f from (int (length from)) s = Inr (int (length from), f1, s1)
    \<and> seekPosition f1 = seekPosition f + int (length from)
    \<and> OpenFile_Read (OpenFile_Seek (seekPosition f) f1) (int (length from)) s1 = Inr (from, f2, s2)
    \<and> seekPosition f2 = seekPosition f1 \<and> sd_sector s2 = sd_sector s1 \<and> sd_ok s2"
proof -
  let ?n = "length from" and ?q = "nat (seekPosition f)"
  have n: "0 < int ?n" using assms(5) by simp
  have lt: "seekPosition f < numBytes (hdr f)" using room n by linarith
  have nb: "?n = min (nat (int ?n)) (nat (numBytes (hdr f)) - ?q)" using room p by simp
  obtain s1 where s1: "OpenFile_WriteAt junk f from (int ?n) (seekPosition f) s = Inr (int ?n, s1)"
      "sd_ok s1" "file_bytes (hdr f) (sd_sector s1) =
         patch (file_bytes (hdr f) (sd_sector s)) ?q (take ?n from)"
    using OpenFile_WriteAt_correct [OF s h p lt n _ nb] by (metis order_refl)
  obtain s2 where s2: "OpenFile_ReadAt f (int ?n) (seekPosition f) s1 =
      Inr (take (nat (int ?n)) (drop ?q (file_bytes (hdr f) (sd_sector s1))), s2)"
      "sd_ok s2" "sd_sector s2 = sd_sector s1"
    using OpenFile_ReadAt_small [OF s1(2) h p, of "int ?n"] room p numBytes_le_max [OF h] by (auto simp: INT_MAX_def)
  have "?q + ?n \<le> length (file_bytes (hdr f) (sd_sector s))"
    using length_file_bytes [OF s h] room p by linarith
  then have "take ?n (drop ?q (file_bytes (hdr f) (sd_sector s1))) = from"
    using patch_read_back [of ?q "from"] s1(3) by simp
  with s1 s2 have "OpenFile_ReadAt f (int ?n) (seekPosition f) s1 = Inr (from, s2)" by simp
  moreover have "OpenFile_ReadAt (f\<lparr>seekPosition := x\<rparr>) n q s = OpenFile_ReadAt f n q s" for x n q s
    by (simp add: OpenFile_ReadAt_def Let_def)
  ultimately show ?thesis using s1 s2
    by (simp add: OpenFile_Write_def OpenFile_Read_def OpenFile_Seek_def)
qed

end
