(* ===== verification/Directory.thy ===== *)
theory Directory
  imports OpenFile
begin

text \<open>
  The directory (\<^verbatim>\<open>filesys/directory.cc\<close>): a table of entries, stored as a regular file by its memory
  image. An entry is 20 bytes: \<^verbatim>\<open>bool inUse\<close>, three bytes of padding, \<^verbatim>\<open>int sector\<close>,
  \<^verbatim>\<open>char name[10]\<close> and two bytes of padding; the padding is kept in the model since it is stored too.
  A name is the list of the characters before its terminating NUL. The contract \<open>name_table\<close> says that
  the table is a partial map from names (cut at nine characters) to sectors.
\<close>

section \<open>C strings of bounded length\<close>

definition char0 :: "byte list \<Rightarrow> byte" where
  "char0 xs = (case xs of [] \<Rightarrow> 0 | x # _ \<Rightarrow> x)"

text \<open>\<open>strncmp_eq n a b\<close> is \<^verbatim>\<open>!strncmp(a, b, n)\<close>; \<open>strncpy dst src n\<close> the array after the call.\<close>

fun strncmp_eq :: "nat \<Rightarrow> byte list \<Rightarrow> byte list \<Rightarrow> bool" where
  "strncmp_eq 0 xs ys = True"
| "strncmp_eq (Suc n) xs ys =
     (char0 xs = char0 ys \<and> (char0 xs = 0 \<or> strncmp_eq n (tl xs) (tl ys)))"

definition cstr :: "nat \<Rightarrow> byte list \<Rightarrow> byte list" where
  "cstr n xs = takeWhile (\<lambda>c. c \<noteq> 0) (take n xs)"

definition strncpy :: "byte list \<Rightarrow> byte list \<Rightarrow> nat \<Rightarrow> byte list" where
  "strncpy dst src n = patch dst 0 (cstr n src @ replicate (n - length (cstr n src)) 0)"

lemma cstr_0 [simp]: "cstr 0 xs = []" and cstr_Nil [simp]: "cstr n [] = []"
  by (simp_all add: cstr_def)

lemma cstr_Suc: "cstr (Suc n) xs = (if char0 xs = 0 then [] else char0 xs # cstr n (tl xs))"
  by (cases xs) (simp_all add: cstr_def char0_def)

lemma strncmp_eq_cstr: "strncmp_eq n xs ys \<longleftrightarrow> cstr n xs = cstr n ys"
  by (induction n xs ys rule: strncmp_eq.induct) (auto simp: cstr_Suc)

lemma length_cstr: "length (cstr n xs) \<le> n"
proof -
  have "length (cstr n xs) \<le> length (take n xs)" unfolding cstr_def by (rule length_takeWhile_le)
  then show ?thesis by simp
qed

lemma cstr_nonzero: "c \<in> set (cstr n xs) \<Longrightarrow> c \<noteq> 0"
  by (auto simp: cstr_def dest: set_takeWhileD)

lemma cstr_idem: "cstr n (cstr n xs) = cstr n xs"
proof -
  have "take n (cstr n xs) = cstr n xs" using length_cstr by simp
  moreover have "takeWhile (\<lambda>c. c \<noteq> 0) (cstr n xs) = cstr n xs"
    using cstr_nonzero by (simp add: takeWhile_eq_all_conv)
  ultimately show ?thesis by (simp add: cstr_def [of n "cstr n xs"])
qed

lemma takeWhile_zeros: "takeWhile (\<lambda>c. c \<noteq> 0) (replicate m (0::byte) @ ys) = (if m = 0 then takeWhile (\<lambda>c. c \<noteq> 0) ys else [])"
  by (cases m) auto

lemma length_strncpy: "n \<le> length dst \<Longrightarrow> length (strncpy dst src n) = length dst"
  using length_cstr [of n src] by (simp add: strncpy_def)

lemma cstr_strncpy: "cstr n (strncpy dst src n) = cstr n src"
proof -
  have l: "length (cstr n src) \<le> n" by (rule length_cstr)
  then have "take n (strncpy dst src n) = cstr n src @ replicate (n - length (cstr n src)) 0"
    by (simp add: strncpy_def patch_def)
  then have "cstr n (strncpy dst src n)
      = takeWhile (\<lambda>c. c \<noteq> 0) (cstr n src @ replicate (n - length (cstr n src)) 0)"
    by (simp add: cstr_def [of n "strncpy dst src n"])
  also have "\<dots> = cstr n src @ takeWhile (\<lambda>c. c \<noteq> 0) (replicate (n - length (cstr n src)) 0)"
    using cstr_nonzero by (intro takeWhile_append2) auto
  also have "\<dots> = cstr n src" using takeWhile_zeros [of _ "[]"] by auto
  finally show ?thesis .
qed

section \<open>The class Directory\<close>

definition FileNameMaxLen :: nat where "FileNameMaxLen = 9"

record DirectoryEntry =
  inUse :: bool
  sector :: int
  name :: "byte list"
  padding :: "byte list"

type_synonym Directory = "DirectoryEntry list" \<comment> \<open>\<^verbatim>\<open>table\<close>; \<^verbatim>\<open>tableSize\<close> is its length\<close>

definition entry_size :: nat where "entry_size = 20" \<comment> \<open>\<^verbatim>\<open>sizeof(DirectoryEntry)\<close>\<close>

text \<open>The constructor: \<open>fresh\<close> is the uninitialised array, \<open>size\<close> its length.\<close>

definition Directory_new :: "DirectoryEntry list \<Rightarrow> Directory" where
  "Directory_new fresh = map (\<lambda>e. e\<lparr>inUse := False\<rparr>) fresh"

fun FindIndex_from :: "int \<Rightarrow> byte list \<Rightarrow> Directory \<Rightarrow> int" where
  "FindIndex_from i nm [] = -1"
| "FindIndex_from i nm (e # es) =
     (if inUse e \<and> strncmp_eq FileNameMaxLen (name e) nm then i else FindIndex_from (i + 1) nm es)"

definition Directory_FindIndex :: "byte list \<Rightarrow> Directory \<Rightarrow> int" where
  "Directory_FindIndex nm table = FindIndex_from 0 nm table"

definition Directory_Find :: "byte list \<Rightarrow> Directory \<Rightarrow> int res" where
  "Directory_Find nm table =
     (let i = Directory_FindIndex nm table in
      if i \<noteq> -1 then rbind (aget table i) (\<lambda>e. Inr (sector e)) else Inr (-1))"

fun Add_loop :: "byte list \<Rightarrow> int \<Rightarrow> Directory \<Rightarrow> bool \<times> Directory" where
  "Add_loop nm newSector [] = (False, [])"
| "Add_loop nm newSector (e # es) =
     (if \<not> inUse e
      then (True, e\<lparr>inUse := True, name := strncpy (name e) nm FileNameMaxLen, sector := newSector\<rparr> # es)
      else let (ok, es') = Add_loop nm newSector es in (ok, e # es'))"

definition Directory_Add :: "byte list \<Rightarrow> int \<Rightarrow> Directory \<Rightarrow> bool \<times> Directory" where
  "Directory_Add nm newSector table =
     (if Directory_FindIndex nm table \<noteq> -1 then (False, table) else Add_loop nm newSector table)"

definition Directory_Remove :: "byte list \<Rightarrow> Directory \<Rightarrow> (bool \<times> Directory) res" where
  "Directory_Remove nm table =
     (let i = Directory_FindIndex nm table in
      if i = -1 then Inr (False, table)
      else rbind (aget table i) (\<lambda>e.
           rbind (aput table i (e\<lparr>inUse := False\<rparr>)) (\<lambda>table'. Inr (True, table'))))"

text \<open>
  \<^verbatim>\<open>printf("%s", name)\<close> prints up to the NUL. \<open>Add\<close> never writes \<^verbatim>\<open>name[9]\<close>, so the NUL may be missing
  from the array; reading on is the fault \<open>OutOfBounds\<close>.
\<close>

definition print_name :: "byte list \<Rightarrow> byte list res" where
  "print_name nm = (if 0 \<in> set nm then Inr (takeWhile (\<lambda>c. c \<noteq> 0) nm) else Inl OutOfBounds)"

fun Directory_List :: "Directory \<Rightarrow> byte list list res" where
  "Directory_List [] = Inr []"
| "Directory_List (e # es) =
     (if inUse e
      then rbind (print_name (name e)) (\<lambda>l. rbind (Directory_List es) (\<lambda>ls. Inr (l # ls)))
      else Directory_List es)"

section \<open>Storage\<close>

definition entry_encode :: "DirectoryEntry \<Rightarrow> byte list" where
  "entry_encode e = (if inUse e then 1 else 0) # take 3 (padding e) @ le32 (word_of_int (sector e))
     @ name e @ drop 3 (padding e)"

definition entry_decode :: "byte list \<Rightarrow> DirectoryEntry" where
  "entry_decode bs = \<lparr>inUse = (bs ! 0 \<noteq> 0), sector = sint (hd (words_of (take 4 (drop 4 bs)))),
     name = take 10 (drop 8 bs), padding = take 3 (drop 1 bs) @ drop 18 bs\<rparr>"

definition dir_encode :: "Directory \<Rightarrow> byte list" where
  "dir_encode table = concat (map entry_encode table)"

fun dir_decode :: "nat \<Rightarrow> byte list \<Rightarrow> Directory" where
  "dir_decode 0 bs = []"
| "dir_decode (Suc k) bs = entry_decode (take entry_size bs) # dir_decode k (drop entry_size bs)"

definition Directory_FetchFrom :: "OpenFile \<Rightarrow> Directory \<Rightarrow> SynchDisk \<Rightarrow> (Directory \<times> SynchDisk) res" where
  "Directory_FetchFrom file table s =
     rbind (OpenFile_ReadAt file (int (length table * entry_size)) 0 s) (\<lambda>(d, s').
     rbind (bcopy_in d (int (length d)) 0 (dir_encode table)) (\<lambda>image.
     Inr (dir_decode (length table) image, s')))"

definition Directory_WriteBack ::
  "(nat \<Rightarrow> byte) \<Rightarrow> OpenFile \<Rightarrow> Directory \<Rightarrow> SynchDisk \<Rightarrow> SynchDisk res" where
  "Directory_WriteBack junk file table s =
     rbind (OpenFile_WriteAt junk file (dir_encode table) (int (length table * entry_size)) 0 s)
       (\<lambda>(_, s'). Inr s')"

definition entry_wf :: "DirectoryEntry \<Rightarrow> bool" where
  "entry_wf e \<longleftrightarrow> length (name e) = 10 \<and> length (padding e) = 5 \<and> in_int32 (sector e)"

lemma length_entry_encode: "entry_wf e \<Longrightarrow> length (entry_encode e) = 20"
  by (simp add: entry_encode_def entry_wf_def)

lemma entry_decode_encode:
  assumes "entry_wf e"
  shows "entry_decode (entry_encode e) = e"
proof -
  have l: "length (padding e) = 5" "length (name e) = 10" using assms by (auto simp: entry_wf_def)
  have w: "words_of (le32 w) = [w]" for w
    using words_of_bytes_of [of "[w]"] by (simp add: bytes_of_def)
  show ?thesis using assms l
    by (simp add: entry_decode_def entry_encode_def entry_wf_def w)
qed

lemma length_dir_encode: "\<forall>e \<in> set t. entry_wf e \<Longrightarrow> length (dir_encode t) = 20 * length t"
  by (induction t) (simp_all add: dir_encode_def length_entry_encode)

lemma dir_decode_encode: "\<forall>e \<in> set t. entry_wf e \<Longrightarrow> dir_decode (length t) (dir_encode t) = t"
  by (induction t) (simp_all add: dir_encode_def entry_size_def length_entry_encode entry_decode_encode)

lemma length_dir_decode [simp]: "length (dir_decode k bs) = k"
  by (induction k arbitrary: bs) simp_all

lemma entry_decode_wf: "length bs = 20 \<Longrightarrow> entry_wf (entry_decode bs)"
  by (simp add: entry_wf_def entry_decode_def)

lemma dir_decode_wf: "20 * k \<le> length bs \<Longrightarrow> \<forall>e \<in> set (dir_decode k bs). entry_wf e"
proof (induction k arbitrary: bs)
  case (Suc k)
  from Suc.IH [of "drop 20 bs"] Suc.prems show ?case by (auto simp: entry_size_def entry_decode_wf)
qed simp

lemma Directory_FetchFrom_correct:
  assumes s: "sd_ok s" and f: "file_ok (hdr file)" and n: "numBytes (hdr file) = 20 * int (length t)"
    and t: "\<forall>e \<in> set t. entry_wf e"
  obtains s' where "Directory_FetchFrom file t s =
      Inr (dir_decode (length t) (file_bytes (hdr file) (sd_sector s)), s')"
    "sd_ok s'" "sd_sector s' = sd_sector s"
proof -
  let ?B = "file_bytes (hdr file) (sd_sector s)"
  have lB: "length ?B = 20 * length t" using length_file_bytes [OF s f] n by simp
  obtain s' where "OpenFile_ReadAt file (int (20 * length t)) 0 s = Inr (?B, s')"
      "sd_ok s'" "sd_sector s' = sd_sector s"
    using OpenFile_ReadAt_correct [OF s f, of 0 "int (20 * length t)"] lB n numBytes_le_max [OF f] by (auto simp: INT_MAX_def)
  moreover have "bcopy_in ?B (int (length ?B)) 0 (dir_encode t) = Inr ?B"
    using bcopy_in_all [of 0 ?B "dir_encode t"] length_dir_encode [OF t] lB by (simp add: patch_whole)
  ultimately show ?thesis using that
    by (simp add: Directory_FetchFrom_def entry_size_def mult.commute)
qed

lemma Directory_WriteBack_correct:
  assumes s: "sd_ok s" and f: "file_ok (hdr file)" and n: "numBytes (hdr file) = 20 * int (length t)"
    and t: "\<forall>e \<in> set t. entry_wf e" "t \<noteq> []"
  obtains s' where "Directory_WriteBack junk file t s = Inr s'" "sd_ok s'"
    "file_bytes (hdr file) (sd_sector s') = dir_encode t"
    "\<And>m. m \<notin> set (hdr_sectors (hdr file)) \<Longrightarrow> sd_sector s' m = sd_sector s m"
proof -
  let ?B = "file_bytes (hdr file) (sd_sector s)"
  have lB: "length ?B = 20 * length t" using length_file_bytes [OF s f] n by simp
  have nb: "20 * length t = min (nat (int (20 * length t))) (nat (numBytes (hdr file)) - nat 0)"
    using n by simp
  obtain s' where s': "OpenFile_WriteAt junk file (dir_encode t) (int (20 * length t)) 0 s
        = Inr (int (20 * length t), s')" "sd_ok s'"
      "file_bytes (hdr file) (sd_sector s') = patch ?B (nat 0) (take (20 * length t) (dir_encode t))"
      "\<And>m. m \<notin> set (hdr_sectors (hdr file)) \<Longrightarrow> sd_sector s' m = sd_sector s m"
    using OpenFile_WriteAt_correct [OF s f _ _ _ _ nb, of "dir_encode t" junk] t n
      length_dir_encode [OF t(1)] by auto
  moreover have "patch ?B 0 (dir_encode t) = dir_encode t"
    using length_dir_encode [OF t(1)] lB by (simp add: patch_whole)
  ultimately show ?thesis using that length_dir_encode [OF t(1)]
    by (simp add: Directory_WriteBack_def entry_size_def mult.commute)
qed

section \<open>The table as a partial map\<close>

definition entry_key :: "DirectoryEntry \<Rightarrow> byte list" where
  "entry_key e = cstr 9 (name e)"

definition dir_lookup :: "Directory \<Rightarrow> byte list \<Rightarrow> int option" where
  "dir_lookup t k = map_option sector (List.find (\<lambda>e. inUse e \<and> entry_key e = k) t)"

definition dir_wf :: "Directory \<Rightarrow> bool" where
  "dir_wf t \<longleftrightarrow> (\<forall>e \<in> set t. entry_wf e) \<and> (\<forall>e \<in> set t. inUse e \<longrightarrow> 0 \<le> sector e)
     \<and> distinct (map entry_key (filter inUse t))"

definition dir_full :: "Directory \<Rightarrow> bool" where
  "dir_full t \<longleftrightarrow> (\<forall>e \<in> set t. inUse e)"

lemma dir_lookup_simps [simp]:
  "dir_lookup [] k = None"
  "dir_lookup (e # es) k = (if inUse e \<and> entry_key e = k then Some (sector e) else dir_lookup es k)"
  by (simp_all add: dir_lookup_def)

lemma dir_wf_simps [simp]:
  "dir_wf []"
  "dir_wf (e # es) \<longleftrightarrow> entry_wf e \<and> dir_wf es
     \<and> (inUse e \<longrightarrow> 0 \<le> sector e \<and> dir_lookup es (entry_key e) = None)"
proof -
  show "dir_wf []" by (simp add: dir_wf_def)
  have "entry_key e \<notin> entry_key ` {x \<in> set es. inUse x} \<longleftrightarrow> dir_lookup es (entry_key e) = None"
    by (induction es) (auto simp: image_iff)
  then show "dir_wf (e # es) \<longleftrightarrow> entry_wf e \<and> dir_wf es
     \<and> (inUse e \<longrightarrow> 0 \<le> sector e \<and> dir_lookup es (entry_key e) = None)"
    by (auto simp: dir_wf_def)
qed

lemma dir_lookup_update:
  assumes "dir_wf t" and "j < length t" and "inUse (t ! j)"
  shows "dir_lookup (t[j := (t ! j)\<lparr>inUse := False\<rparr>]) = (dir_lookup t)(entry_key (t ! j) := None)"
    and "dir_wf (t[j := (t ! j)\<lparr>inUse := False\<rparr>])"
    and "dir_lookup t (entry_key (t ! j)) = Some (sector (t ! j))"
  using assms
proof (induction t arbitrary: j)
  case (Cons e t)
  { case 1 then show ?case using Cons.IH(1,3) by (cases j) (fastforce simp: fun_eq_iff)+ }
  { case 2 then show ?case using Cons.IH(1,2) by (cases j) (auto simp: entry_wf_def) }
  { case 3 then show ?case using Cons.IH(3) by (cases j) fastforce+ }
qed simp_all

lemma FindIndex_from_absent: "dir_lookup t (cstr 9 nm) = None \<Longrightarrow> FindIndex_from i nm t = -1"
  by (induction t arbitrary: i)
    (auto simp: strncmp_eq_cstr FileNameMaxLen_def entry_key_def split: if_splits)

lemma FindIndex_from_present:
  assumes "dir_lookup t (cstr 9 nm) = Some x"
  obtains j where "j < length t" "FindIndex_from i nm t = i + int j" "inUse (t ! j)"
    "sector (t ! j) = x" "entry_key (t ! j) = cstr 9 nm"
  using assms
proof (induction t arbitrary: i thesis)
  case (Cons e t)
  show ?case
  proof (cases "inUse e \<and> entry_key e = cstr 9 nm")
    case True
    with Cons.prems show ?thesis
      by (intro Cons.prems(1) [of 0]) (auto simp: strncmp_eq_cstr FileNameMaxLen_def entry_key_def)
  next
    case False
    with Cons.prems(2) Cons.IH [of "i + 1"] obtain j where j: "j < length t"
        "FindIndex_from (i + 1) nm t = i + 1 + int j"
        "inUse (t ! j)" "sector (t ! j) = x" "entry_key (t ! j) = cstr 9 nm" by auto
    with False show ?thesis
      by (intro Cons.prems(1) [of "Suc j"]) (auto simp: strncmp_eq_cstr FileNameMaxLen_def entry_key_def)
  qed
qed simp

lemma Directory_Find_lookup:
  "Directory_Find nm t = Inr (case dir_lookup t (cstr 9 nm) of None \<Rightarrow> -1 | Some x \<Rightarrow> x)"
proof (cases "dir_lookup t (cstr 9 nm)")
  case None
  then show ?thesis by (simp add: Directory_Find_def Directory_FindIndex_def FindIndex_from_absent)
next
  case (Some x)
  from FindIndex_from_present [OF this, of 0] obtain j where "j < length t"
      "FindIndex_from 0 nm t = int j" "sector (t ! j) = x" by auto
  with Some show ?thesis by (simp add: Directory_Find_def Directory_FindIndex_def)
qed

lemma Directory_Remove_present:
  assumes "dir_wf t" and "dir_lookup t (cstr 9 nm) = Some x"
  obtains t' where "Directory_Remove nm t = Inr (True, t')" "dir_wf t'" "length t' = length t"
    "dir_lookup t' = (dir_lookup t)(cstr 9 nm := None)"
proof -
  from FindIndex_from_present [OF assms(2), of 0] obtain j where j: "j < length t"
      "FindIndex_from 0 nm t = int j" "inUse (t ! j)" "entry_key (t ! j) = cstr 9 nm" by auto
  then have "Directory_Remove nm t = Inr (True, t[j := (t ! j)\<lparr>inUse := False\<rparr>])"
    by (simp add: Directory_Remove_def Directory_FindIndex_def)
  with that dir_lookup_update [OF assms(1) j(1,3)] j(4) show ?thesis by simp
qed

lemma Add_loop_full: "dir_full t \<Longrightarrow> Add_loop nm x t = (False, t)"
  by (induction t) (auto simp: dir_full_def)

lemma Add_loop_room:
  assumes "dir_wf t" and "\<not> dir_full t" and "dir_lookup t (cstr 9 nm) = None" and "0 \<le> x" and "in_int32 x"
  shows "\<exists>t'. Add_loop nm x t = (True, t') \<and> dir_wf t' \<and> length t' = length t
    \<and> dir_lookup t' = (dir_lookup t)(cstr 9 nm \<mapsto> x)"
  using assms
proof (induction t)
  case Nil
  then show ?case by (simp add: dir_full_def)
next
  case (Cons e t)
  show ?case
  proof (cases "inUse e")
    case True
    with Cons.prems have "\<not> dir_full t" "dir_lookup t (cstr 9 nm) = None"
      by (auto simp: dir_full_def split: if_splits)
    with Cons.IH Cons.prems obtain t' where "Add_loop nm x t = (True, t')" "dir_wf t'"
        "length t' = length t" "dir_lookup t' = (dir_lookup t)(cstr 9 nm \<mapsto> x)"
      by (metis dir_wf_simps(2))
    with True Cons.prems show ?thesis by (auto simp: fun_eq_iff split: if_splits)
  next
    case False
    have "entry_key (e\<lparr>inUse := True, name := strncpy (name e) nm 9, sector := x\<rparr>) = cstr 9 nm"
      by (simp add: entry_key_def cstr_strncpy)
    with False Cons.prems show ?thesis
      by (auto simp: FileNameMaxLen_def entry_wf_def length_strncpy fun_eq_iff)
  qed
qed

section \<open>The contract of a name table\<close>

locale name_table =
  fixes find :: "byte list \<Rightarrow> 't \<Rightarrow> int res"
    and add :: "byte list \<Rightarrow> int \<Rightarrow> 't \<Rightarrow> bool \<times> 't"
    and remove :: "byte list \<Rightarrow> 't \<Rightarrow> (bool \<times> 't) res"
    and inv :: "'t \<Rightarrow> bool" and full :: "'t \<Rightarrow> bool"
    and lookup :: "'t \<Rightarrow> byte list \<Rightarrow> int option"
  assumes find_lookup: "inv t \<Longrightarrow>
      find nm t = Inr (case lookup t (cstr 9 nm) of None \<Rightarrow> -1 | Some x \<Rightarrow> x)"
    and add_room: "inv t \<Longrightarrow> \<not> full t \<Longrightarrow> lookup t (cstr 9 nm) = None \<Longrightarrow> 0 \<le> x \<Longrightarrow> in_int32 x \<Longrightarrow>
      \<exists>t'. add nm x t = (True, t') \<and> inv t' \<and> lookup t' = (lookup t)(cstr 9 nm \<mapsto> x)"
    and add_refused: "inv t \<Longrightarrow> full t \<or> lookup t (cstr 9 nm) \<noteq> None \<Longrightarrow> add nm x t = (False, t)"
    and remove_present: "inv t \<Longrightarrow> lookup t (cstr 9 nm) \<noteq> None \<Longrightarrow>
      \<exists>t'. remove nm t = Inr (True, t') \<and> inv t' \<and> lookup t' = (lookup t)(cstr 9 nm := None)"
    and remove_absent: "inv t \<Longrightarrow> lookup t (cstr 9 nm) = None \<Longrightarrow> remove nm t = Inr (False, t)"
    and stored_sector: "inv t \<Longrightarrow> lookup t k = Some x \<Longrightarrow> 0 \<le> x"
begin

lemma find_absent_iff: "inv t \<Longrightarrow> find nm t = Inr (-1) \<longleftrightarrow> lookup t (cstr 9 nm) = None"
  using find_lookup [of t nm] stored_sector [of t "cstr 9 nm"] by (auto split: option.splits)

lemma add_then_find:
  assumes "inv t" and "add nm x t = (True, t')" and "0 \<le> x" and "in_int32 x"
  shows "find nm' t' = (if cstr 9 nm' = cstr 9 nm then Inr x else find nm' t)"
proof -
  have "\<not> full t \<and> lookup t (cstr 9 nm) = None" using add_refused [of t nm x] assms(1,2) by (cases "lookup t (cstr 9 nm)") auto
  then have "inv t'" "lookup t' = (lookup t)(cstr 9 nm \<mapsto> x)" using add_room [of t nm x] assms by auto
  then show ?thesis using find_lookup assms(1) by auto
qed

lemma remove_then_find:
  assumes "inv t" and "remove nm t = Inr (True, t')"
  shows "find nm' t' = (if cstr 9 nm' = cstr 9 nm then Inr (-1) else find nm' t)"
proof -
  have "lookup t (cstr 9 nm) \<noteq> None" using remove_absent [of t nm] assms by auto
  then have "inv t'" "lookup t' = (lookup t)(cstr 9 nm := None)" using remove_present [of t nm] assms by auto
  then show ?thesis using find_lookup assms(1) by auto
qed

end

lemma dir_lookup_sector: "dir_wf t \<Longrightarrow> dir_lookup t k = Some x \<Longrightarrow> 0 \<le> x"
  by (induction t) (auto split: if_splits)

interpretation dir: name_table Directory_Find Directory_Add Directory_Remove
  "\<lambda>t. dir_wf t \<and> length t = n" dir_full dir_lookup for n
proof unfold_locales
  fix t nm x k assume t: "dir_wf t \<and> length t = n"
  show "Directory_Find nm t = Inr (case dir_lookup t (cstr 9 nm) of None \<Rightarrow> -1 | Some x \<Rightarrow> x)"
    by (rule Directory_Find_lookup)
  show "0 \<le> x" if "dir_lookup t k = Some x" using t that dir_lookup_sector by blast
  show "Directory_Remove nm t = Inr (False, t)" if "dir_lookup t (cstr 9 nm) = None"
    using that by (simp add: Directory_Remove_def Directory_FindIndex_def FindIndex_from_absent)
  show "Directory_Add nm x t = (False, t)" if "dir_full t \<or> dir_lookup t (cstr 9 nm) \<noteq> None"
    using that Add_loop_full FindIndex_from_present [of t nm _ 0] unfolding Directory_Add_def Directory_FindIndex_def
    by (smt (verit, best) not_None_eq of_nat_0_le_iff)
  show "\<exists>t'. Directory_Remove nm t = Inr (True, t') \<and> (dir_wf t' \<and> length t' = n)
      \<and> dir_lookup t' = (dir_lookup t)(cstr 9 nm := None)" if "dir_lookup t (cstr 9 nm) \<noteq> None"
    using that t Directory_Remove_present by blast
  show "\<exists>t'. Directory_Add nm x t = (True, t') \<and> (dir_wf t' \<and> length t' = n)
      \<and> dir_lookup t' = (dir_lookup t)(cstr 9 nm \<mapsto> x)"
    if "\<not> dir_full t" "dir_lookup t (cstr 9 nm) = None" "0 \<le> x" "in_int32 x"
    using Add_loop_room [of t nm x] t that
    by (auto simp: Directory_Add_def Directory_FindIndex_def FindIndex_from_absent)
qed

end
