(* ===== verification/FileSys.thy ===== *)
theory FileSys
  imports Directory
begin

text \<open>
  The file system (\<^verbatim>\<open>filesys/filesys.cc\<close>), with the storage of the free map
  (\<^verbatim>\<open>BitMap::FetchFrom\<close>, \<^verbatim>\<open>BitMap::WriteBack\<close> of \<^verbatim>\<open>userprog/bitmap.cc\<close>). The state is the disk and the two
  files that stay open. Objects made by \<^verbatim>\<open>new\<close> without a constructor hold arbitrary values: they are
  the parameter \<open>Fresh\<close>, and the results hold for every value of it.

  The invariant \<open>fs_wf\<close> is on the sectors of the disk alone; the abstraction \<open>fs_files\<close> reads off them
  the partial map from names to file contents, on which \<open>Create\<close>, \<open>Open\<close>, \<open>Remove\<close> and writes through
  open files are shown to act.
\<close>

section \<open>The free map on disk\<close>

definition BitMap_FetchFrom :: "OpenFile \<Rightarrow> BitMap \<Rightarrow> SynchDisk \<Rightarrow> (BitMap \<times> SynchDisk) res" where
  "BitMap_FetchFrom file bm s =
     rbind (OpenFile_ReadAt file (numWords bm * 4) 0 s) (\<lambda>(d, s').
     rbind (bcopy_in d (int (length d)) 0 (bytes_of (bitwords bm))) (\<lambda>image.
     Inr (bm\<lparr>bitwords := words_of image\<rparr>, s')))"

definition BitMap_WriteBack :: "(nat \<Rightarrow> byte) \<Rightarrow> OpenFile \<Rightarrow> BitMap \<Rightarrow> SynchDisk \<Rightarrow> SynchDisk res" where
  "BitMap_WriteBack junk file bm s =
     rbind (OpenFile_WriteAt junk file (bytes_of (bitwords bm)) (numWords bm * 4) 0 s) (\<lambda>(_, s'). Inr s')"

section \<open>The class FileSystem\<close>

definition FreeMapSector :: int where "FreeMapSector = 0"
definition DirectorySector :: int where "DirectorySector = 1"
definition FreeMapFileSize :: int where "FreeMapFileSize = NumSectors div BitsInByte"
definition NumDirEntries :: nat where "NumDirEntries = 10"
definition DirectoryFileSize :: int where "DirectoryFileSize = int (entry_size * NumDirEntries)"

lemmas fs_consts = FreeMapSector_def DirectorySector_def FreeMapFileSize_def NumDirEntries_def
  DirectoryFileSize_def entry_size_def BitsInByte_def

record FileSystem =
  freeMapFile :: OpenFile
  directoryFile :: OpenFile

text \<open>Uninitialised memory: the \<open>k\<close>-th buffer and header an operation allocates, and its other objects.\<close>

record Fresh =
  fresh_buf :: "nat \<Rightarrow> nat \<Rightarrow> byte"
  fresh_hdr :: "nat \<Rightarrow> FileHeader"
  fresh_map :: "nat \<Rightarrow> 32 word"
  fresh_dir :: "DirectoryEntry list"

definition FileSystem_new :: "Fresh \<Rightarrow> bool \<Rightarrow> SynchDisk \<Rightarrow> (FileSystem \<times> SynchDisk) res" where
  "FileSystem_new J format s =
     (if format then
        rbind (BitMap_new (fresh_map J) NumSectors) (\<lambda>fm0.
        let directory = Directory_new (fresh_dir J) in
        rbind (BitMap_Mark FreeMapSector fm0) (\<lambda>fm1.
        rbind (BitMap_Mark DirectorySector fm1) (\<lambda>fm2.
        rbind (FileHeader_Allocate fm2 FreeMapFileSize (fresh_hdr J 0)) (\<lambda>(ok1, mapHdr, fm3). ASSERT ok1 (
        rbind (FileHeader_Allocate fm3 DirectoryFileSize (fresh_hdr J 1)) (\<lambda>(ok2, dirHdr, fm4). ASSERT ok2 (
        rbind (FileHeader_WriteBack mapHdr FreeMapSector s) (\<lambda>s1.
        rbind (FileHeader_WriteBack dirHdr DirectorySector s1) (\<lambda>s2.
        rbind (OpenFile_new FreeMapSector s2) (\<lambda>(mf, s3).
        rbind (OpenFile_new DirectorySector s3) (\<lambda>(df, s4).
        rbind (BitMap_WriteBack (fresh_buf J 0) mf fm4 s4) (\<lambda>s5.
        rbind (Directory_WriteBack (fresh_buf J 1) df directory s5) (\<lambda>s6.
        Inr (\<lparr>freeMapFile = mf, directoryFile = df\<rparr>, s6))))))))))))))
      else
        rbind (OpenFile_new FreeMapSector s) (\<lambda>(mf, s1).
        rbind (OpenFile_new DirectorySector s1) (\<lambda>(df, s2).
        Inr (\<lparr>freeMapFile = mf, directoryFile = df\<rparr>, s2))))"

definition FileSystem_Create ::
  "Fresh \<Rightarrow> FileSystem \<Rightarrow> byte list \<Rightarrow> int \<Rightarrow> SynchDisk \<Rightarrow> (bool \<times> SynchDisk) res" where
  "FileSystem_Create J fs nm initialSize s =
     rbind (Directory_FetchFrom (directoryFile fs) (Directory_new (fresh_dir J)) s) (\<lambda>(directory, s1).
     rbind (Directory_Find nm directory) (\<lambda>found.
       if found \<noteq> -1 then Inr (False, s1)
       else
         rbind (BitMap_new (fresh_map J) NumSectors) (\<lambda>fm0.
         rbind (BitMap_FetchFrom (freeMapFile fs) fm0 s1) (\<lambda>(freeMap, s2).
         rbind (BitMap_Find freeMap) (\<lambda>(sec, fm1).
           if sec = -1 then Inr (False, s2)
           else case Directory_Add nm sec directory of (added, directory1) \<Rightarrow>
             if \<not> added then Inr (False, s2)
             else
               rbind (FileHeader_Allocate fm1 initialSize (fresh_hdr J 0)) (\<lambda>(ok, h, fm2).
                 if \<not> ok then Inr (False, s2)
                 else
                   rbind (FileHeader_WriteBack h sec s2) (\<lambda>s3.
                   rbind (Directory_WriteBack (fresh_buf J 0) (directoryFile fs) directory1 s3) (\<lambda>s4.
                   rbind (BitMap_WriteBack (fresh_buf J 1) (freeMapFile fs) fm2 s4) (\<lambda>s5.
                   Inr (True, s5))))))))))"

text \<open>\<open>None\<close> is the null pointer.\<close>

definition FileSystem_Open ::
  "Fresh \<Rightarrow> FileSystem \<Rightarrow> byte list \<Rightarrow> SynchDisk \<Rightarrow> (OpenFile option \<times> SynchDisk) res" where
  "FileSystem_Open J fs nm s =
     rbind (Directory_FetchFrom (directoryFile fs) (Directory_new (fresh_dir J)) s) (\<lambda>(directory, s1).
     rbind (Directory_Find nm directory) (\<lambda>sec.
       if sec \<ge> 0 then rbind (OpenFile_new sec s1) (\<lambda>(f, s2). Inr (Some f, s2))
       else Inr (None, s1)))"

definition FileSystem_Remove ::
  "Fresh \<Rightarrow> FileSystem \<Rightarrow> byte list \<Rightarrow> SynchDisk \<Rightarrow> (bool \<times> SynchDisk) res" where
  "FileSystem_Remove J fs nm s =
     rbind (Directory_FetchFrom (directoryFile fs) (Directory_new (fresh_dir J)) s) (\<lambda>(directory, s1).
     rbind (Directory_Find nm directory) (\<lambda>sec.
       if sec = -1 then Inr (False, s1)
       else
         rbind (FileHeader_FetchFrom sec s1) (\<lambda>(fileHdr, s2).
         rbind (BitMap_new (fresh_map J) NumSectors) (\<lambda>fm0.
         rbind (BitMap_FetchFrom (freeMapFile fs) fm0 s2) (\<lambda>(freeMap, s3).
         rbind (FileHeader_Deallocate fileHdr freeMap) (\<lambda>fm1.
         rbind (BitMap_Clear sec fm1) (\<lambda>fm2.
         rbind (Directory_Remove nm directory) (\<lambda>(_, directory1).
         rbind (BitMap_WriteBack (fresh_buf J 0) (freeMapFile fs) fm2 s3) (\<lambda>s4.
         rbind (Directory_WriteBack (fresh_buf J 1) (directoryFile fs) directory1 s4) (\<lambda>s5.
         Inr (True, s5)))))))))))"

definition FileSystem_List :: "Fresh \<Rightarrow> FileSystem \<Rightarrow> SynchDisk \<Rightarrow> (byte list list \<times> SynchDisk) res" where
  "FileSystem_List J fs s =
     rbind (Directory_FetchFrom (directoryFile fs) (Directory_new (fresh_dir J)) s) (\<lambda>(directory, s1).
     rbind (Directory_List directory) (\<lambda>out. Inr (out, s1)))"

section \<open>What is on the disk\<close>

text \<open>The functions below read a disk given by its sectors \<open>secs\<close>.\<close>

type_synonym sectors = "int \<Rightarrow> byte list"

definition hdr_at :: "sectors \<Rightarrow> int \<Rightarrow> FileHeader" where
  "hdr_at secs x = hdr_decode (secs x)"

text \<open>The sectors of the file whose header is in sector \<open>x\<close>, and its bytes.\<close>

definition extent :: "sectors \<Rightarrow> int \<Rightarrow> int list" where
  "extent secs x = x # hdr_sectors (hdr_at secs x)"

definition bytes_at :: "sectors \<Rightarrow> int \<Rightarrow> byte list" where
  "bytes_at secs x = file_bytes (hdr_at secs x) secs"

definition free_map :: "sectors \<Rightarrow> BitMap" where
  "free_map secs = \<lparr>numBits = 1024, numWords = 32, bitwords = words_of (bytes_at secs 0)\<rparr>"

definition dir_table :: "sectors \<Rightarrow> Directory" where
  "dir_table secs = dir_decode 10 (bytes_at secs 1)"

definition fs_names :: "sectors \<Rightarrow> byte list \<Rightarrow> int option" where
  "fs_names secs = dir_lookup (dir_table secs)"

definition fs_files :: "sectors \<Rightarrow> byte list \<Rightarrow> byte list option" where
  "fs_files secs k = map_option (bytes_at secs) (fs_names secs k)"

definition roots :: "sectors \<Rightarrow> int set" where
  "roots secs = {0, 1} \<union> ran (fs_names secs)"

text \<open>Well-formed files that do not share sectors.\<close>

definition layout_ok :: "sectors \<Rightarrow> int set \<Rightarrow> bool" where
  "layout_ok secs R \<longleftrightarrow>
     (\<forall>x \<in> R. hdr_wf (hdr_at secs x) \<and> distinct (extent secs x) \<and> sector_nums (extent secs x))
   \<and> (\<forall>x \<in> R. \<forall>y \<in> R. x \<noteq> y \<longrightarrow> set (extent secs x) \<inter> set (extent secs y) = {})"

definition space :: "sectors \<Rightarrow> int set \<Rightarrow> int set" where
  "space secs R = (\<Union>x \<in> R. set (extent secs x))"

definition fs_wf :: "sectors \<Rightarrow> bool" where
  "fs_wf secs \<longleftrightarrow> layout_ok secs (roots secs)
     \<and> numBytes (hdr_at secs 0) = 128 \<and> numBytes (hdr_at secs 1) = 200
     \<and> dir_wf (dir_table secs) \<and> ran (fs_names secs) \<inter> {0, 1} = {}
     \<and> inj_on (fs_names secs) (dom (fs_names secs))
     \<and> marked (free_map secs) = space secs (roots secs)"

text \<open>The files that the \<^verbatim>\<open>FileSystem\<close> object keeps open have the headers that are on the disk.\<close>

definition fs_inv :: "FileSystem \<Rightarrow> SynchDisk \<Rightarrow> bool" where
  "fs_inv fs s \<longleftrightarrow> sd_ok s \<and> fs_wf (sd_sector s)
     \<and> hdr (freeMapFile fs) = hdr_at (sd_sector s) 0 \<and> hdr (directoryFile fs) = hdr_at (sd_sector s) 1"

definition fresh_ok :: "Fresh \<Rightarrow> bool" where
  "fresh_ok J \<longleftrightarrow> (\<forall>k. hdr_image (fresh_hdr J k)) \<and> length (fresh_dir J) = 10
     \<and> (\<forall>e \<in> set (fresh_dir J). entry_wf e)"

text \<open>Only the header sectors matter to the layout, only its extent to a file.\<close>

lemma extent_cong: "secs' x = secs x \<Longrightarrow> extent secs' x = extent secs x"
  by (simp add: extent_def hdr_at_def)

lemma file_bytes_cong:
  assumes "\<And>m. m \<in> set (hdr_sectors h) \<Longrightarrow> secs' m = secs m"
  shows "file_bytes h secs' = file_bytes h secs"
proof -
  have "map secs' (hdr_sectors h) = map secs (hdr_sectors h)" using assms by simp
  then show ?thesis by (simp only: file_bytes_def raw_bytes_def)
qed

lemma bytes_at_cong:
  assumes "\<And>m. m \<in> set (extent secs x) \<Longrightarrow> secs' m = secs m"
  shows "bytes_at secs' x = bytes_at secs x"
proof -
  have "hdr_at secs' x = hdr_at secs x" using assms by (simp add: hdr_at_def extent_def)
  with file_bytes_cong [of "hdr_at secs x" secs' secs] assms show ?thesis
    by (simp add: bytes_at_def extent_def)
qed

lemma layout_ok_disjoint:
  "layout_ok secs R \<Longrightarrow> x \<in> R \<Longrightarrow> y \<in> R \<Longrightarrow> x \<noteq> y \<Longrightarrow> set (extent secs x) \<inter> set (extent secs y) = {}"
  by (auto simp: layout_ok_def)

lemma layout_ok_distinct: "layout_ok secs R \<Longrightarrow> x \<in> R \<Longrightarrow> distinct (extent secs x)"
  by (auto simp: layout_ok_def)

lemma layout_ok_mono:
  assumes "layout_ok secs R" and "R' \<subseteq> R" and "\<And>x. x \<in> R' \<Longrightarrow> secs' x = secs x"
  shows "layout_ok secs' R'"
proof -
  have e: "extent secs' x = extent secs x" "hdr_at secs' x = hdr_at secs x" if "x \<in> R'" for x
    using extent_cong [of secs' x secs] assms(3) [OF that] by (simp_all add: hdr_at_def)
  have "layout_ok secs R'" using assms(1,2) unfolding layout_ok_def by blast
  then show ?thesis by (simp add: layout_ok_def e)
qed

lemma layout_ok_insert:
  assumes "layout_ok secs R" and "hdr_wf (hdr_at secs x)" and "distinct (extent secs x)"
    and "sector_nums (extent secs x)" and "set (extent secs x) \<inter> space secs R = {}"
  shows "layout_ok secs (insert x R)"
  using assms unfolding layout_ok_def space_def by blast

lemma space_cong: "(\<And>x. x \<in> R \<Longrightarrow> secs' x = secs x) \<Longrightarrow> space secs' R = space secs R"
  unfolding space_def by (intro SUP_cong refl) (metis extent_cong)

lemma in_extent: "x \<in> set (extent secs x)"
  by (simp add: extent_def)

section \<open>Loading and storing the two tables\<close>

lemma fs_wf_meta:
  assumes "fs_wf secs"
  shows "file_ok (hdr_at secs 0)" "file_ok (hdr_at secs 1)"
    "numBytes (hdr_at secs 0) = 128" "numBytes (hdr_at secs 1) = 200"
  using assms by (auto simp: fs_wf_def roots_def layout_ok_def file_ok_def extent_def)

lemma fs_wf_file:
  assumes "fs_wf secs" and "fs_names secs k = Some x"
  shows "file_ok (hdr_at secs x)" "0 \<le> x" "x < NumSectors" "x \<in> roots secs" "x \<notin> {0, 1}"
proof -
  have r: "x \<in> ran (fs_names secs)" using assms(2) by (rule ranI)
  then show "x \<in> roots secs" by (simp add: roots_def)
  with assms(1) show "file_ok (hdr_at secs x)" "0 \<le> x" "x < NumSectors"
    by (auto simp: fs_wf_def layout_ok_def file_ok_def extent_def)
  show "x \<notin> {0, 1}" using assms(1) r by (auto simp: fs_wf_def)
qed

lemma bm_wf_free_map: "sd_ok s \<Longrightarrow> fs_wf (sd_sector s) \<Longrightarrow> bm_wf (free_map (sd_sector s))"
  using length_file_bytes [OF _ fs_wf_meta(1), of s "sd_sector s"] fs_wf_meta(3) [of "sd_sector s"]
  by (simp add: bm_wf_def free_map_def bytes_at_def divRoundUp_nonneg BitsInWord_def)

lemma Directory_load:
  assumes "fs_inv fs s" and "fresh_ok J"
  obtains s' where "Directory_FetchFrom (directoryFile fs) (Directory_new (fresh_dir J)) s =
      Inr (dir_table (sd_sector s), s')" "sd_ok s'" "sd_sector s' = sd_sector s"
proof -
  have h: "hdr (directoryFile fs) = hdr_at (sd_sector s) 1" and s: "sd_ok s" and wf: "fs_wf (sd_sector s)"
    using assms(1) by (auto simp: fs_inv_def)
  have "\<forall>e \<in> set (Directory_new (fresh_dir J)). entry_wf e" "length (Directory_new (fresh_dir J)) = 10"
    using assms(2) by (auto simp: fresh_ok_def Directory_new_def entry_wf_def)
  with Directory_FetchFrom_correct [of s "directoryFile fs" "Directory_new (fresh_dir J)"] s h
    fs_wf_meta [OF wf] that show ?thesis
    by (simp add: dir_table_def bytes_at_def) blast
qed

lemma free_map_load:
  assumes "fs_inv fs s"
  obtains fm0 s' where "BitMap_new junk NumSectors = Inr fm0"
    "BitMap_FetchFrom (freeMapFile fs) fm0 s = Inr (free_map (sd_sector s), s')"
    "sd_ok s'" "sd_sector s' = sd_sector s"
proof -
  have h: "hdr (freeMapFile fs) = hdr_at (sd_sector s) 0" and s: "sd_ok s" and wf: "fs_wf (sd_sector s)"
    using assms by (auto simp: fs_inv_def)
  let ?B = "bytes_at (sd_sector s) 0"
  have lB: "length ?B = 128"
    using length_file_bytes [OF s fs_wf_meta(1) [OF wf]] fs_wf_meta(3) [OF wf] by (simp add: bytes_at_def)
  obtain fm0 where fm0: "BitMap_new junk NumSectors = Inr fm0" "bm_wf fm0" "numBits fm0 = 1024"
    using BitMap_new_correct [of NumSectors junk] by (auto simp: disk_consts)
  have nw: "numWords fm0 = 32" "length (bitwords fm0) = 32"
    using fm0 by (auto simp: bm_wf_def divRoundUp_nonneg BitsInWord_def)
  obtain s' where s': "OpenFile_ReadAt (freeMapFile fs) 128 0 s = Inr (?B, s')"
      "sd_ok s'" "sd_sector s' = sd_sector s"
    using OpenFile_ReadAt_small [OF s, of "freeMapFile fs" 0 128] fs_wf_meta [OF wf] h lB
    by (auto simp: bytes_at_def INT_MAX_def)
  have "bcopy_in ?B (int (length ?B)) 0 (bytes_of (bitwords fm0)) = Inr ?B"
    using bcopy_in_all [of 0 ?B "bytes_of (bitwords fm0)"] lB nw by (simp add: patch_whole)
  with s' nw fm0(3) have "BitMap_FetchFrom (freeMapFile fs) fm0 s = Inr (free_map (sd_sector s), s')"
    by (simp add: BitMap_FetchFrom_def free_map_def)
  with fm0(1) s' that show ?thesis by blast
qed

lemma free_map_store:
  assumes s: "sd_ok s" and f: "file_ok (hdr file)" "numBytes (hdr file) = 128"
    and m: "bm_wf m" "numBits m = 1024"
  obtains s' where "BitMap_WriteBack junk file m s = Inr s'" "sd_ok s'"
    "file_bytes (hdr file) (sd_sector s') = bytes_of (bitwords m)"
    "\<And>n. n \<notin> set (hdr_sectors (hdr file)) \<Longrightarrow> sd_sector s' n = sd_sector s n"
proof -
  have nw: "numWords m = 32" "length (bytes_of (bitwords m)) = 128"
    using m by (auto simp: bm_wf_def divRoundUp_nonneg BitsInWord_def)
  have nb: "128 = min (nat 128) (nat (numBytes (hdr file)) - nat 0)" using f by simp
  have lB: "length (file_bytes (hdr file) (sd_sector s)) = 128" using length_file_bytes [OF s f(1)] f by simp
  obtain s' where s': "OpenFile_WriteAt junk file (bytes_of (bitwords m)) 128 0 s = Inr (int 128, s')" "sd_ok s'"
      "file_bytes (hdr file) (sd_sector s') =
         patch (file_bytes (hdr file) (sd_sector s)) (nat 0) (take 128 (bytes_of (bitwords m)))"
      "\<And>n. n \<notin> set (hdr_sectors (hdr file)) \<Longrightarrow> sd_sector s' n = sd_sector s n"
    using OpenFile_WriteAt_correct [OF s f(1) _ _ _ _ nb, of "bytes_of (bitwords m)" junk] f(2) nw by auto
  moreover have "patch (file_bytes (hdr file) (sd_sector s)) 0 (bytes_of (bitwords m)) = bytes_of (bitwords m)"
    using nw lB by (simp add: patch_whole)
  ultimately show ?thesis using that nw by (simp add: BitMap_WriteBack_def)
qed

text \<open>A disk on which only unused sectors and the two tables have been rewritten.\<close>

lemma fs_update:
  assumes wf: "fs_wf secs"
    and keep: "\<forall>m. m \<notin> N \<longrightarrow> m \<notin> set (hdr_sectors (hdr_at secs 0)) \<longrightarrow>
        m \<notin> set (hdr_sectors (hdr_at secs 1)) \<longrightarrow> secs' m = secs m"
    and N: "N \<inter> space secs (roots secs) = {}"
    and t: "file_bytes (hdr_at secs 1) secs' = dir_encode t" "dir_wf t" "length t = 10"
    and m: "file_bytes (hdr_at secs 0) secs' = bytes_of (bitwords m)" "bm_wf m" "numBits m = 1024"
    and inj: "inj_on (dir_lookup t) (dom (dir_lookup t))" "ran (dir_lookup t) \<inter> {0, 1} = {}"
    and lay: "layout_ok secs' ({0, 1} \<union> ran (dir_lookup t))"
    and mark: "marked m = space secs' ({0, 1} \<union> ran (dir_lookup t))"
  shows "fs_wf secs'" "fs_names secs' = dir_lookup t"
    "hdr_at secs' 0 = hdr_at secs 0" "hdr_at secs' 1 = hdr_at secs 1" "free_map secs' = m"
proof -
  have other: "secs' x = secs x" if "x \<in> {0, 1}" for x
  proof (rule keep [THEN spec, THEN mp, THEN mp, THEN mp])
    have disj: "set (extent secs 0) \<inter> set (extent secs 1) = {}" "distinct (extent secs 0)"
      "distinct (extent secs 1)" using wf by (auto simp: fs_wf_def layout_ok_def roots_def)
    then show "x \<notin> set (hdr_sectors (hdr_at secs 0))" "x \<notin> set (hdr_sectors (hdr_at secs 1))"
      using that by (auto simp: extent_def)
    show "x \<notin> N" using that N in_extent by (auto simp: space_def roots_def)
  qed
  then show h: "hdr_at secs' 0 = hdr_at secs 0" "hdr_at secs' 1 = hdr_at secs 1"
    by (simp_all add: hdr_at_def)
  have tab: "dir_table secs' = t"
    using t dir_decode_encode [of t] by (auto simp: dir_table_def bytes_at_def h dir_wf_def)
  then show nm: "fs_names secs' = dir_lookup t" by (simp add: fs_names_def)
  show fm: "free_map secs' = m"
    using m by (simp add: free_map_def bytes_at_def h bm_wf_def divRoundUp_nonneg BitsInWord_def)
  show "fs_wf secs'" using lay mark inj t fs_wf_meta(3,4) [OF wf]
    by (simp add: fs_wf_def roots_def nm tab fm h)
qed

lemma fs_wf_layout: "fs_wf secs \<Longrightarrow> layout_ok secs (roots secs)"
  by (simp add: fs_wf_def)

lemma table_roots: "0 \<in> roots secs" "1 \<in> roots secs"
  by (simp_all add: roots_def)

lemma header_not_table:
  assumes wf: "fs_wf secs" and x: "x \<in> roots secs" and y: "y \<in> {0, 1}"
  shows "x \<notin> set (hdr_sectors (hdr_at secs y))"
proof -
  have yr: "y \<in> roots secs" using y table_roots by auto
  note layout_ok_disjoint [OF fs_wf_layout [OF wf] x yr] layout_ok_distinct [OF fs_wf_layout [OF wf] yr]
  then show ?thesis by (cases "x = y") (auto simp: extent_def)
qed

lemma tables_disjoint:
  "fs_wf secs \<Longrightarrow> set (hdr_sectors (hdr_at secs 0)) \<inter> set (hdr_sectors (hdr_at secs 1)) = {}"
  using layout_ok_disjoint [OF fs_wf_layout table_roots] by (auto simp: extent_def)

lemma fs_update_keeps:
  assumes wf: "fs_wf secs"
    and keep: "\<forall>m. m \<notin> N \<longrightarrow> m \<notin> set (hdr_sectors (hdr_at secs 0)) \<longrightarrow>
        m \<notin> set (hdr_sectors (hdr_at secs 1)) \<longrightarrow> secs' m = secs m"
    and N: "N \<inter> space secs (roots secs) = {}"
    and x: "x \<in> roots secs"
  shows "secs' x = secs x" "x \<notin> {0, 1} \<Longrightarrow> bytes_at secs' x = bytes_at secs x"
proof -
  have n: "m \<notin> N" if "m \<in> set (extent secs x)" for m
    using that N x by (auto simp: space_def)
  show "secs' x = secs x"
    using header_not_table [OF wf x] n in_extent by (intro keep [THEN spec, THEN mp, THEN mp, THEN mp]) auto
  assume x01: "x \<notin> {0, 1}"
  have "m \<notin> set (hdr_sectors (hdr_at secs y))" if "m \<in> set (extent secs x)" "y \<in> {0, 1}" for m y
  proof -
    have "set (extent secs x) \<inter> set (extent secs y) = {}"
      using wf x x01 that(2) by (auto simp: fs_wf_def layout_ok_def roots_def)
    then show ?thesis using that(1) by (auto simp: extent_def)
  qed
  then show "bytes_at secs' x = bytes_at secs x" using n by (intro bytes_at_cong keep [THEN spec, THEN mp, THEN mp, THEN mp]) auto
qed

lemma space_insert: "space secs (insert x R) = set (extent secs x) \<union> space secs R"
  by (simp add: space_def)

lemma names_ran_sector:
  assumes "fs_wf secs" shows "roots secs \<subseteq> space secs (roots secs)"
  using in_extent by (auto simp: space_def)

section \<open>Creating a file\<close>

text \<open>The free sectors, as a set.\<close>

definition free_sectors :: "sectors \<Rightarrow> int set" where
  "free_sectors secs = {0..<1024} - marked (free_map secs)"

lemma FileHeader_WriteBack_correct:
  assumes "sd_ok s" and "hdr_image h" and "0 \<le> x" and "x < NumSectors"
  obtains s' where "FileHeader_WriteBack h x s = Inr s'" "sd_ok s'"
    "sd_sector s' = (sd_sector s)(x := hdr_encode h)"
  using sd.wr_contents [OF assms(1,3,4), of "hdr_encode h"] length_hdr_encode [of h] assms(2) that
  by (auto simp: FileHeader_WriteBack_def hdr_image_def)

lemma allocated_image:
  assumes "hdr_wf h" and "numBytes h \<le> MaxFileSize" and "hdr_image h0"
    and "set (dataSectors h) \<subseteq> set (dataSectors h0) \<union> {0..<1024}"
  shows "hdr_image h"
proof -
  have "in_int32 x" if "x \<in> set (dataSectors h)" for x
    using that assms(3,4) by (auto simp: hdr_image_def in_int32_def)
  moreover have "in_int32 (numBytes h)" "in_int32 (numSectors h)"
    using assms(1,2) hdr_wf_numSectors [OF assms(1)]
    by (auto simp: hdr_wf_def MaxFileSize_def SectorSize_def in_int32_def)
  ultimately show ?thesis using assms(1) by (simp add: hdr_image_def hdr_wf_def)
qed

text \<open>The state in which a new header, a new directory and a new free map have been stored.\<close>

lemma create_commit:
  assumes inv: "fs_inv fs s" and secs: "secs = sd_sector s"
    and sec: "0 \<le> sec" "sec < 1024" "sec \<notin> space secs (roots secs)"
    and t: "dir_wf t" "length t = 10" "dir_lookup t = (fs_names secs)(k \<mapsto> sec)" "fs_names secs k = None"
    and h: "hdr_image h" "hdr_wf h" "distinct (hdr_sectors h)" "sector_nums (hdr_sectors h)"
      "set (hdr_sectors h) \<inter> insert sec (space secs (roots secs)) = {}"
    and m: "bm_wf m" "numBits m = 1024" "marked m = insert sec (space secs (roots secs)) \<union> set (hdr_sectors h)"
    and s': "sd_ok s'" "file_bytes (hdr_at secs 1) (sd_sector s') = dir_encode t"
      "file_bytes (hdr_at secs 0) (sd_sector s') = bytes_of (bitwords m)"
      "\<forall>n. n \<notin> {sec} \<longrightarrow> n \<notin> set (hdr_sectors (hdr_at secs 0)) \<longrightarrow>
        n \<notin> set (hdr_sectors (hdr_at secs 1)) \<longrightarrow> sd_sector s' n = secs n"
      "sd_sector s' sec = hdr_encode h"
  shows "fs_inv fs s'" "hdr_at (sd_sector s') sec = h"
    "fs_names (sd_sector s') = (fs_names secs)(k \<mapsto> sec)" "free_map (sd_sector s') = m"
    "fs_files (sd_sector s') = (fs_files secs)(k \<mapsto> file_bytes h (sd_sector s'))"
proof -
  let ?secs' = "sd_sector s'"
  have wf: "fs_wf secs" using inv secs by (simp add: fs_inv_def)
  have N: "{sec} \<inter> space secs (roots secs) = {}" using sec by simp
  note keeps = fs_update_keeps [OF wf s'(4) N]
  show hs: "hdr_at ?secs' sec = h" using s'(5) hdr_decode_encode [OF h(1)] by (simp add: hdr_at_def)
  have R: "{0, 1} \<union> ran (dir_lookup t) = insert sec (roots secs)"
    using t(3,4) by (simp add: roots_def)
  have sp: "space ?secs' (roots secs) = space secs (roots secs)"
    by (rule space_cong) (rule keeps(1))
  have ex: "extent ?secs' sec = sec # hdr_sectors h" by (simp add: extent_def hs)
  have "layout_ok ?secs' (roots secs)"
    by (rule layout_ok_mono [of secs "roots secs"]) (use wf keeps(1) in \<open>auto simp: fs_wf_def\<close>)
  then have lay: "layout_ok ?secs' ({0, 1} \<union> ran (dir_lookup t))" unfolding R
    using h sec by (intro layout_ok_insert) (auto simp: hs ex sp disk_consts)
  have mark: "marked m = space ?secs' ({0, 1} \<union> ran (dir_lookup t))"
    unfolding R space_insert sp ex using m(3) by auto
  have fresh: "sec \<notin> ran (fs_names secs)" "sec \<notin> {0, 1}"
    using sec(3) names_ran_sector [OF wf] by (auto simp: roots_def)
  have inj: "inj_on (dir_lookup t) (dom (dir_lookup t))"
    using wf fresh t(3,4) by (auto simp: fs_wf_def inj_on_def ran_def)
  have rn: "ran (dir_lookup t) \<inter> {0, 1} = {}"
    using wf fresh t(3,4) by (auto simp: fs_wf_def)
  note u = fs_update [OF wf s'(4) N s'(2) t(1,2) s'(3) m(1,2) inj rn lay mark]
  show "fs_names ?secs' = (fs_names secs)(k \<mapsto> sec)" using u(2) t(3) by simp
  show "free_map ?secs' = m" by (rule u(5))
  show "fs_inv fs s'" using inv u(1,3,4) s'(1) secs by (simp add: fs_inv_def)
  have "bytes_at ?secs' x = bytes_at secs x" if "fs_names secs k' = Some x" for k' x
    using fs_wf_file [OF wf that] by (intro keeps(2)) auto
  then show "fs_files ?secs' = (fs_files secs)(k \<mapsto> file_bytes h ?secs')"
    using u(2) t(3) hs by (auto simp: fs_files_def bytes_at_def fun_eq_iff map_option_case split: option.splits)
qed

lemma create_store:
  assumes s: "sd_ok s" and wf: "fs_wf (sd_sector s)" and secs: "secs = sd_sector s"
    and fs: "hdr (freeMapFile fs) = hdr_at secs 0" "hdr (directoryFile fs) = hdr_at secs 1"
    and sec: "0 \<le> sec" "sec < 1024" "sec \<notin> space secs (roots secs)"
    and h: "hdr_image h" and t: "dir_wf t" "length t = 10" and m: "bm_wf m" "numBits m = 1024"
  obtains s3 s4 s5 where "FileHeader_WriteBack h sec s = Inr s3"
    "Directory_WriteBack ja (directoryFile fs) t s3 = Inr s4"
    "BitMap_WriteBack jb (freeMapFile fs) m s4 = Inr s5" "sd_ok s5"
    "file_bytes (hdr_at secs 1) (sd_sector s5) = dir_encode t"
    "file_bytes (hdr_at secs 0) (sd_sector s5) = bytes_of (bitwords m)"
    "\<forall>n. n \<notin> {sec} \<longrightarrow> n \<notin> set (hdr_sectors (hdr_at secs 0)) \<longrightarrow>
        n \<notin> set (hdr_sectors (hdr_at secs 1)) \<longrightarrow> sd_sector s5 n = secs n"
    "sd_sector s5 sec = hdr_encode h"
proof -
  note meta = fs_wf_meta [OF wf [folded secs]]
  obtain s3 where s3: "FileHeader_WriteBack h sec s = Inr s3" "sd_ok s3" "sd_sector s3 = secs(sec := hdr_encode h)"
    using FileHeader_WriteBack_correct [OF s h sec(1)] sec(2) secs by (auto simp: disk_consts)
  have tne: "\<forall>e \<in> set t. entry_wf e" "t \<noteq> []" using t by (auto simp: dir_wf_def)
  obtain s4 where s4: "Directory_WriteBack ja (directoryFile fs) t s3 = Inr s4" "sd_ok s4"
      "file_bytes (hdr_at secs 1) (sd_sector s4) = dir_encode t"
      "\<And>n. n \<notin> set (hdr_sectors (hdr_at secs 1)) \<Longrightarrow> sd_sector s4 n = sd_sector s3 n"
    using Directory_WriteBack_correct [OF s3(2), of "directoryFile fs" t] meta fs tne t(2) by auto
  obtain s5 where s5: "BitMap_WriteBack jb (freeMapFile fs) m s4 = Inr s5" "sd_ok s5"
      "file_bytes (hdr_at secs 0) (sd_sector s5) = bytes_of (bitwords m)"
      "\<And>n. n \<notin> set (hdr_sectors (hdr_at secs 0)) \<Longrightarrow> sd_sector s5 n = sd_sector s4 n"
    using free_map_store [OF s4(2), of "freeMapFile fs" m] meta fs m by auto
  have "file_bytes (hdr_at secs 1) (sd_sector s5) = dir_encode t"
    using s4(3) s5(4) tables_disjoint [OF wf [folded secs]]
      file_bytes_cong [of "hdr_at secs 1" "sd_sector s5" "sd_sector s4"] by auto
  moreover have "sec \<notin> set (hdr_sectors (hdr_at secs y))" if "y \<in> {0, 1}" for y
    using sec(3) that by (auto simp: space_def extent_def roots_def)
  ultimately show ?thesis using that [OF s3(1) s4(1) s5(1,2)] s5 s4 s3 by auto
qed

lemma fs_inv_facts:
  assumes "fs_inv fs s" and "secs = sd_sector s"
  shows "sd_ok s" "fs_wf secs" "hdr (freeMapFile fs) = hdr_at secs 0" "hdr (directoryFile fs) = hdr_at secs 1"
    "bm_wf (free_map secs)" "numBits (free_map secs) = 1024"
    "marked (free_map secs) = space secs (roots secs)"
    "dir_wf (dir_table secs) \<and> length (dir_table secs) = 10"
  using assms bm_wf_free_map [of s] by (auto simp: fs_inv_def free_map_def fs_wf_def dir_table_def)

lemma fs_load:
  assumes inv: "fs_inv fs s" and J: "fresh_ok J" and secs: "secs = sd_sector s"
  obtains s1 fm0 s2 where
    "Directory_FetchFrom (directoryFile fs) (Directory_new (fresh_dir J)) s = Inr (dir_table secs, s1)"
    "BitMap_new (fresh_map J) NumSectors = Inr fm0"
    "BitMap_FetchFrom (freeMapFile fs) fm0 s1 = Inr (free_map secs, s2)"
    "fs_inv fs s1" "sd_sector s1 = secs" "fs_inv fs s2" "sd_sector s2 = secs"
proof -
  obtain s1 where s1: "sd_ok s1" "sd_sector s1 = secs"
      "Directory_FetchFrom (directoryFile fs) (Directory_new (fresh_dir J)) s = Inr (dir_table secs, s1)"
    using Directory_load [OF inv J] secs by metis
  have inv1: "fs_inv fs s1" using inv s1 secs by (simp add: fs_inv_def)
  obtain fm0 s2 where s2: "BitMap_new (fresh_map J) NumSectors = Inr fm0"
      "BitMap_FetchFrom (freeMapFile fs) fm0 s1 = Inr (free_map secs, s2)" "sd_ok s2" "sd_sector s2 = secs"
    using free_map_load [OF inv1, of "fresh_map J"] s1(2) by metis
  have "fs_inv fs s2" using inv s2 secs by (simp add: fs_inv_def)
  with s1 s2 inv1 that show ?thesis by blast
qed

lemma FileSystem_Create_success:
  assumes inv: "fs_inv fs s" and J: "fresh_ok J" and secs: "secs = sd_sector s"
    and new: "fs_names secs (cstr 9 nm) = None" and room: "\<not> dir_full (dir_table secs)"
    and size: "0 \<le> initialSize" "initialSize \<le> MaxFileSize"
    and free: "1 + divRoundUp initialSize SectorSize \<le> int (card (free_sectors secs))"
  obtains s' sec h where "FileSystem_Create J fs nm initialSize s = Inr (True, s')" "fs_inv fs s'"
    "fs_names (sd_sector s') = (fs_names secs)(cstr 9 nm \<mapsto> sec)" "numBytes h = initialSize"
    "hdr_at (sd_sector s') sec = h" "sec \<in> free_sectors secs" "set (hdr_sectors h) \<subseteq> free_sectors secs - {sec}"
    "free_sectors (sd_sector s') = free_sectors secs - insert sec (set (hdr_sectors h))"
    "distinct (hdr_sectors h)" "hdr_wf h"
    "fs_files (sd_sector s') = (fs_files secs)(cstr 9 nm \<mapsto> file_bytes h (sd_sector s'))"
proof -
  let ?m = "free_map secs" and ?t = "dir_table secs"
  note f = fs_inv_facts [OF inv secs]
  have ns: "0 \<le> divRoundUp initialSize SectorSize"
    using size by (simp add: divRoundUp_sectors)
  obtain s1 fm0 s2 where l:
      "Directory_FetchFrom (directoryFile fs) (Directory_new (fresh_dir J)) s = Inr (?t, s1)"
      "BitMap_new (fresh_map J) NumSectors = Inr fm0"
      "BitMap_FetchFrom (freeMapFile fs) fm0 s1 = Inr (?m, s2)" "fs_inv fs s2" "sd_sector s2 = secs"
    using fs_load [OF inv J secs] by metis
  have "0 < card ({0..<numBits ?m} - marked ?m)"
    using free ns by (simp add: free_sectors_def f(6))
  then obtain sec m1 where sec: "BitMap_Find ?m = Inr (sec, m1)" "sec \<notin> marked ?m" "0 \<le> sec" "sec < 1024"
      "bm_wf m1" "numBits m1 = 1024" "marked m1 = insert sec (marked ?m)"
    using bm.find_some [OF f(5)] f(6) by metis
  have i32: "in_int32 sec" using sec by (simp add: in_int32_def)
  obtain t1 where t1: "Directory_Add nm sec ?t = (True, t1)" "dir_wf t1" "length t1 = 10"
      "dir_lookup t1 = (fs_names secs)(cstr 9 nm \<mapsto> sec)"
    using dir.add_room [OF f(8) room _ sec(3) i32] new by (auto simp: fs_names_def)
  have fm1: "{0..<numBits m1} - marked m1 = free_sectors secs - {sec}" "sec \<in> free_sectors secs"
    using sec by (auto simp: free_sectors_def)
  then have fr: "divRoundUp initialSize SectorSize \<le> int (card ({0..<numBits m1} - marked m1))"
    using free by (simp add: free_sectors_def)
  have len: "length (dataSectors (fresh_hdr J 0)) = 30" using J by (simp add: fresh_ok_def hdr_image_def)
  obtain h m2 where h: "FileHeader_Allocate m1 initialSize (fresh_hdr J 0) = Inr (True, h, m2)"
      "hdr_wf h" "numBytes h = initialSize" "distinct (hdr_sectors h)"
      "set (hdr_sectors h) \<inter> marked m1 = {}" "set (hdr_sectors h) \<subseteq> {0..<1024}"
      "bm_wf m2" "numBits m2 = 1024" "marked m2 = marked m1 \<union> set (hdr_sectors h)"
      "set (dataSectors h) \<subseteq> set (dataSectors (fresh_hdr J 0)) \<union> {0..<1024}"
    using FileHeader_Allocate_success [OF sec(5) size len fr] sec(6) by metis
  have hi: "hdr_image h"
    using allocated_image [OF h(2) _ _ h(10)] h(3) size J by (simp add: fresh_ok_def)
  have mk1: "marked m1 = insert sec (space secs (roots secs))" using sec(7) f(7) by simp
  have secn: "sec \<notin> space secs (roots secs)" using sec(2) f(7) by simp
  obtain s3 s4 s5 where st: "FileHeader_WriteBack h sec s2 = Inr s3"
      "Directory_WriteBack (fresh_buf J 0) (directoryFile fs) t1 s3 = Inr s4"
      "BitMap_WriteBack (fresh_buf J 1) (freeMapFile fs) m2 s4 = Inr s5" "sd_ok s5"
      "file_bytes (hdr_at secs 1) (sd_sector s5) = dir_encode t1"
      "file_bytes (hdr_at secs 0) (sd_sector s5) = bytes_of (bitwords m2)"
      "\<forall>n. n \<notin> {sec} \<longrightarrow> n \<notin> set (hdr_sectors (hdr_at secs 0)) \<longrightarrow>
        n \<notin> set (hdr_sectors (hdr_at secs 1)) \<longrightarrow> sd_sector s5 n = secs n"
      "sd_sector s5 sec = hdr_encode h"
    using create_store [where ja = "fresh_buf J 0" and jb = "fresh_buf J 1", OF fs_inv_facts(1) [OF l(4) refl] f(2) [folded l(5)] l(5) [symmetric] f(3,4) sec(3,4) secn hi t1(2,3) h(7,8)] .
  have run: "FileSystem_Create J fs nm initialSize s = Inr (True, s5)"
    using l(1-3) sec(1,3) t1(1) h(1) st(1-3) new Directory_Find_lookup [of nm ?t]
    by (simp add: FileSystem_Create_def fs_names_def)
  have hsn: "sector_nums (hdr_sectors h)" using h(6) by (auto simp: disk_consts)
  have dj: "set (hdr_sectors h) \<inter> insert sec (space secs (roots secs)) = {}" using h(5) mk1 by simp
  have m2: "marked m2 = insert sec (space secs (roots secs)) \<union> set (hdr_sectors h)" using h(9) mk1 by simp
  note cc = create_commit [OF inv secs sec(3,4) secn t1(2-4) new hi h(2,4) hsn dj h(7,8) m2 st(4-8)]
  have "free_sectors (sd_sector s5) = free_sectors secs - insert sec (set (hdr_sectors h))"
    using m2 f(7) by (auto simp: free_sectors_def cc(4))
  moreover have "set (hdr_sectors h) \<subseteq> free_sectors secs - {sec}"
    using h(5,6) sec(7) by (auto simp: free_sectors_def)
  ultimately show ?thesis using that [OF run cc(1,3) h(3) cc(2) fm1(2)] h(2,4) cc(5) by blast
qed

text \<open>When a check fails, the changed tables are dropped and the disk keeps its contents.\<close>

lemma FileSystem_Create_refused:
  assumes inv: "fs_inv fs s" and J: "fresh_ok J" and secs: "secs = sd_sector s"
    and no: "fs_names secs (cstr 9 nm) \<noteq> None \<or> dir_full (dir_table secs)
      \<or> int (card (free_sectors secs)) < 1 + divRoundUp initialSize SectorSize"
  obtains s' where "FileSystem_Create J fs nm initialSize s = Inr (False, s')" "fs_inv fs s'"
    "sd_sector s' = secs"
proof -
  let ?m = "free_map secs" and ?t = "dir_table secs"
  note f = fs_inv_facts [OF inv secs]
  obtain s1 fm0 s2 where l:
      "Directory_FetchFrom (directoryFile fs) (Directory_new (fresh_dir J)) s = Inr (?t, s1)"
      "BitMap_new (fresh_map J) NumSectors = Inr fm0" "BitMap_FetchFrom (freeMapFile fs) fm0 s1 = Inr (?m, s2)"
      "fs_inv fs s1" "sd_sector s1 = secs" "fs_inv fs s2" "sd_sector s2 = secs"
    using fs_load [OF inv J secs] by metis
  have fnd: "Directory_Find nm ?t = Inr (case fs_names secs (cstr 9 nm) of None \<Rightarrow> -1 | Some x \<Rightarrow> x)"
    using Directory_Find_lookup by (simp add: fs_names_def)
  show ?thesis
  proof (cases "fs_names secs (cstr 9 nm)")
    case (Some x)
    then have "x \<noteq> -1" using fs_wf_file(2) [OF f(2) Some] by simp
    with Some fnd l(1,4,5) that show ?thesis by (simp add: FileSystem_Create_def)
  next
    case None
    show ?thesis
    proof (cases "free_sectors secs = {}")
      case True
      then have "marked ?m = {0..<numBits ?m}"
        using marked_subset [of ?m] f(6) by (auto simp: free_sectors_def)
      then have "BitMap_Find ?m = Inr (-1, ?m)" by (rule bm.find_full [OF f(5)])
      with None fnd l that show ?thesis by (simp add: FileSystem_Create_def)
    next
      case False
      then have "0 < card ({0..<numBits ?m} - marked ?m)"
        using f(6) by (simp add: free_sectors_def card_gt_0_iff)
      then obtain sec m1 where sec: "BitMap_Find ?m = Inr (sec, m1)" "sec \<notin> marked ?m" "0 \<le> sec"
          "sec < 1024" "bm_wf m1" "numBits m1 = 1024" "marked m1 = insert sec (marked ?m)"
        using bm.find_some [OF f(5)] f(6) by metis
      show ?thesis
      proof (cases "dir_full ?t")
        case True
        then have "Directory_Add nm sec ?t = (False, ?t)" using dir.add_refused [OF f(8)] by simp
        with None fnd l sec that show ?thesis by (simp add: FileSystem_Create_def)
      next
        case nf: False
        have i32: "in_int32 sec" using sec by (simp add: in_int32_def)
        obtain t1 where t1: "Directory_Add nm sec ?t = (True, t1)"
          using dir.add_room [OF f(8) nf _ sec(3) i32] None by (auto simp: fs_names_def)
        have "{0..<numBits m1} - marked m1 = free_sectors secs - {sec}" "sec \<in> free_sectors secs"
          using sec by (auto simp: free_sectors_def)
        then have "int (card ({0..<numBits m1} - marked m1)) < divRoundUp initialSize SectorSize"
          using no None nf card_Suc_Diff1 [of "free_sectors secs" sec] by (auto simp: free_sectors_def)
        from FileHeader_Allocate_no_room [OF sec(5) this] None fnd l sec t1 that show ?thesis
          by (simp add: FileSystem_Create_def)
      qed
    qed
  qed
qed

text \<open>A size above \<open>MaxFileSize\<close> is not refused: the header overruns its table of sectors.\<close>

lemma FileSystem_Create_oversize:
  assumes inv: "fs_inv fs s" and J: "fresh_ok J" and secs: "secs = sd_sector s"
    and new: "fs_names secs (cstr 9 nm) = None" and room: "\<not> dir_full (dir_table secs)"
    and size: "MaxFileSize < initialSize"
    and free: "1 + divRoundUp initialSize SectorSize \<le> int (card (free_sectors secs))"
  shows "FileSystem_Create J fs nm initialSize s = Inl OutOfBounds"
proof -
  let ?m = "free_map secs" and ?t = "dir_table secs"
  note f = fs_inv_facts [OF inv secs]
  have "0 \<le> initialSize" using size by (simp add: MaxFileSize_def SectorSize_def)
  then have ns: "0 \<le> divRoundUp initialSize SectorSize" by (simp add: divRoundUp_sectors)
  obtain s1 fm0 s2 where l:
      "Directory_FetchFrom (directoryFile fs) (Directory_new (fresh_dir J)) s = Inr (?t, s1)"
      "BitMap_new (fresh_map J) NumSectors = Inr fm0" "BitMap_FetchFrom (freeMapFile fs) fm0 s1 = Inr (?m, s2)"
    using fs_load [OF inv J secs] by metis
  have "0 < card ({0..<numBits ?m} - marked ?m)"
    using free ns by (simp add: free_sectors_def f(6))
  then obtain sec m1 where sec: "BitMap_Find ?m = Inr (sec, m1)" "sec \<notin> marked ?m" "0 \<le> sec" "sec < 1024"
      "bm_wf m1" "numBits m1 = 1024" "marked m1 = insert sec (marked ?m)"
    using bm.find_some [OF f(5)] f(6) by metis
  have i32: "in_int32 sec" using sec by (simp add: in_int32_def)
  obtain t1 where t1: "Directory_Add nm sec ?t = (True, t1)"
    using dir.add_room [OF f(8) room _ sec(3) i32] new by (auto simp: fs_names_def)
  have "{0..<numBits m1} - marked m1 = free_sectors secs - {sec}" "sec \<in> free_sectors secs"
    using sec by (auto simp: free_sectors_def)
  then have "divRoundUp initialSize SectorSize \<le> int (card ({0..<numBits m1} - marked m1))"
    using free by (simp add: free_sectors_def)
  then have "FileHeader_Allocate m1 initialSize (fresh_hdr J 0) = Inl OutOfBounds"
    using J by (intro FileHeader_Allocate_overrun [OF sec(5) size]) (auto simp: fresh_ok_def hdr_image_def)
  with l sec(1,3) t1 new Directory_Find_lookup [of nm ?t] show ?thesis
    by (simp add: FileSystem_Create_def fs_names_def)
qed

section \<open>Opening and removing files\<close>

lemma OpenFile_new_correct:
  assumes "sd_ok s" and "0 \<le> x" and "x < NumSectors"
  obtains s' where "OpenFile_new x s = Inr (\<lparr>hdr = hdr_at (sd_sector s) x, seekPosition = 0\<rparr>, s')"
    "sd_ok s'" "sd_sector s' = sd_sector s"
  using sd.rd_contents [OF assms] that
  by (auto simp: OpenFile_new_def FileHeader_FetchFrom_def hdr_at_def)

lemma FileSystem_Open_correct:
  assumes inv: "fs_inv fs s" and J: "fresh_ok J" and secs: "secs = sd_sector s"
  obtains s' where "FileSystem_Open J fs nm s = Inr (map_option (\<lambda>x. \<lparr>hdr = hdr_at secs x, seekPosition = 0\<rparr>)
      (fs_names secs (cstr 9 nm)), s')" "fs_inv fs s'" "sd_sector s' = secs"
proof -
  let ?t = "dir_table secs"
  note f = fs_inv_facts [OF inv secs]
  obtain s1 where l:
      "Directory_FetchFrom (directoryFile fs) (Directory_new (fresh_dir J)) s = Inr (?t, s1)"
      "fs_inv fs s1" "sd_sector s1 = secs"
    using fs_load [OF inv J secs] by metis
  have fnd: "Directory_Find nm ?t = Inr (case fs_names secs (cstr 9 nm) of None \<Rightarrow> -1 | Some x \<Rightarrow> x)"
    using Directory_Find_lookup by (simp add: fs_names_def)
  show ?thesis
  proof (cases "fs_names secs (cstr 9 nm)")
    case None
    with fnd l that show ?thesis by (simp add: FileSystem_Open_def)
  next
    case (Some x)
    note x = fs_wf_file [OF f(2) Some]
    obtain s2 where s2: "OpenFile_new x s1 = Inr (\<lparr>hdr = hdr_at secs x, seekPosition = 0\<rparr>, s2)"
        "sd_ok s2" "sd_sector s2 = secs"
      using OpenFile_new_correct [of s1 x] x l(2,3) by (auto simp: fs_inv_def)
    with l(2,3) have "fs_inv fs s2" by (simp add: fs_inv_def)
    with Some fnd l s2 x that show ?thesis by (simp add: FileSystem_Open_def)
  qed
qed

lemma FileSystem_Remove_absent:
  assumes inv: "fs_inv fs s" and J: "fresh_ok J" and secs: "secs = sd_sector s"
    and "fs_names secs (cstr 9 nm) = None"
  obtains s' where "FileSystem_Remove J fs nm s = Inr (False, s')" "fs_inv fs s'" "sd_sector s' = secs"
proof -
  obtain s1 where "fs_inv fs s1" "sd_sector s1 = secs"
      "Directory_FetchFrom (directoryFile fs) (Directory_new (fresh_dir J)) s = Inr (dir_table secs, s1)"
    using fs_load [OF inv J secs] by metis
  with that assms(4) Directory_Find_lookup [of nm "dir_table secs"] show ?thesis
    by (simp add: FileSystem_Remove_def fs_names_def)
qed

text \<open>The state in which the free map and the directory without one file have been stored.\<close>

lemma remove_commit:
  assumes inv: "fs_inv fs s" and secs: "secs = sd_sector s"
    and x: "fs_names secs k = Some x"
    and t: "dir_wf t" "length t = 10" "dir_lookup t = (fs_names secs)(k := None)"
    and m: "bm_wf m" "numBits m = 1024" "marked m = space secs (roots secs) - set (extent secs x)"
    and s': "sd_ok s'" "file_bytes (hdr_at secs 1) (sd_sector s') = dir_encode t"
      "file_bytes (hdr_at secs 0) (sd_sector s') = bytes_of (bitwords m)"
      "\<forall>n. n \<notin> {} \<longrightarrow> n \<notin> set (hdr_sectors (hdr_at secs 0)) \<longrightarrow>
        n \<notin> set (hdr_sectors (hdr_at secs 1)) \<longrightarrow> sd_sector s' n = secs n"
  shows "fs_inv fs s'" "fs_names (sd_sector s') = (fs_names secs)(k := None)" "free_map (sd_sector s') = m"
    "fs_files (sd_sector s') = (fs_files secs)(k := None)"
proof -
  let ?secs' = "sd_sector s'"
  have wf: "fs_wf secs" using inv secs by (simp add: fs_inv_def)
  have N: "{} \<inter> space secs (roots secs) = {}" by simp
  note keeps = fs_update_keeps [OF wf s'(4) N]
  have injo: "inj_on (fs_names secs) (dom (fs_names secs))" using wf by (simp add: fs_wf_def)
  then have rn: "ran (dir_lookup t) = ran (fs_names secs) - {x}"
    using ran_remove [of "fs_names secs" k x] x t(3) by simp
  note x' = fs_wf_file [OF wf x]
  have R: "{0, 1} \<union> ran (dir_lookup t) = roots secs - {x}"
    using rn x'(5) by (auto simp: roots_def)
  have sp: "space ?secs' (roots secs - {x}) = space secs (roots secs - {x})"
    by (rule space_cong) (use keeps(1) in auto)
  have lay: "layout_ok ?secs' ({0, 1} \<union> ran (dir_lookup t))" unfolding R
    by (rule layout_ok_mono [OF fs_wf_layout [OF wf]]) (use keeps(1) in auto)
  have "space secs (roots secs) - set (extent secs x) = space secs (roots secs - {x})"
    using layout_ok_disjoint [OF fs_wf_layout [OF wf] _ x'(4)] by (auto simp: space_def)
  then have mark: "marked m = space ?secs' ({0, 1} \<union> ran (dir_lookup t))"
    unfolding R sp using m(3) by simp
  have inj: "inj_on (dir_lookup t) (dom (dir_lookup t))"
    using injo t(3) by (auto simp: inj_on_def)
  have r01: "ran (dir_lookup t) \<inter> {0, 1} = {}" using rn wf by (auto simp: fs_wf_def)
  note u = fs_update [OF wf s'(4) N s'(2) t(1,2) s'(3) m(1,2) inj r01 lay mark]
  show "fs_names ?secs' = (fs_names secs)(k := None)" using u(2) t(3) by simp
  show "free_map ?secs' = m" by (rule u(5))
  show "fs_inv fs s'" using inv u(1,3,4) s'(1) secs by (simp add: fs_inv_def)
  have "bytes_at ?secs' y = bytes_at secs y" if "fs_names secs k' = Some y" for k' y
    using fs_wf_file [OF wf that] by (intro keeps(2)) auto
  then show "fs_files ?secs' = (fs_files secs)(k := None)"
    using u(2) t(3) by (auto simp: fs_files_def fun_eq_iff map_option_case split: option.splits)
qed

lemma FileSystem_Remove_success:
  assumes inv: "fs_inv fs s" and J: "fresh_ok J" and secs: "secs = sd_sector s"
    and x: "fs_names secs (cstr 9 nm) = Some x"
  obtains s' where "FileSystem_Remove J fs nm s = Inr (True, s')" "fs_inv fs s'"
    "fs_names (sd_sector s') = (fs_names secs)(cstr 9 nm := None)"
    "fs_files (sd_sector s') = (fs_files secs)(cstr 9 nm := None)"
    "free_sectors (sd_sector s') = free_sectors secs \<union> set (extent secs x)"
proof -
  let ?m = "free_map secs" and ?t = "dir_table secs" and ?h = "hdr_at secs x"
  note f = fs_inv_facts [OF inv secs] and x' = fs_wf_file [OF fs_inv_facts(2) [OF inv secs] x]
  obtain s1 where l1:
      "Directory_FetchFrom (directoryFile fs) (Directory_new (fresh_dir J)) s = Inr (?t, s1)"
      "fs_inv fs s1" "sd_sector s1 = secs" using fs_load [OF inv J secs] by metis
  obtain s2 where s2: "FileHeader_FetchFrom x s1 = Inr (?h, s2)" "sd_ok s2" "sd_sector s2 = secs"
    using sd.rd_contents [OF fs_inv_facts(1) [OF l1(2) refl] x'(2,3)] l1(3)
    by (auto simp: FileHeader_FetchFrom_def hdr_at_def)
  have "fs_inv fs s2" using l1 s2 by (simp add: fs_inv_def)
  from free_map_load [OF this, of "fresh_map J"] s2(3)
  obtain fm0 s3 where s3: "BitMap_new (fresh_map J) NumSectors = Inr fm0"
      "BitMap_FetchFrom (freeMapFile fs) fm0 s2 = Inr (?m, s3)" "sd_ok s3" "sd_sector s3 = secs" by metis
  have lay: "layout_ok secs (roots secs)" by (rule fs_wf_layout [OF f(2)])
  have hw: "hdr_wf ?h" "distinct (hdr_sectors ?h)" "x \<notin> set (hdr_sectors ?h)"
    using lay x'(4) by (auto simp: layout_ok_def extent_def)
  have sub: "set (extent secs x) \<subseteq> marked ?m" using x'(4) f(7) by (auto simp: space_def)
  then have "set (hdr_sectors ?h) \<subseteq> marked ?m" by (simp add: extent_def)
  then obtain m1 where m1: "FileHeader_Deallocate ?h ?m = Inr m1" "bm_wf m1" "numBits m1 = 1024"
      "marked m1 = marked ?m - set (hdr_sectors ?h)"
    using FileHeader_Deallocate_correct [OF f(5) hw(1,2)] f(6) by metis
  obtain m2 where m2: "BitMap_Clear x m1 = Inr m2" "bm_wf m2" "numBits m2 = 1024" "marked m2 = marked m1 - {x}"
    using BitMap_Clear_correct [OF m1(2) x'(2)] x'(3) m1(3) by (auto simp: disk_consts)
  obtain t1 where t1: "Directory_Remove nm ?t = Inr (True, t1)" "dir_wf t1" "length t1 = 10"
      "dir_lookup t1 = (fs_names secs)(cstr 9 nm := None)"
    using dir.remove_present [OF f(8)] x by (auto simp: fs_names_def)
  note meta = fs_wf_meta [OF f(2)]
  obtain s4 where s4: "BitMap_WriteBack (fresh_buf J 0) (freeMapFile fs) m2 s3 = Inr s4" "sd_ok s4"
      "file_bytes (hdr_at secs 0) (sd_sector s4) = bytes_of (bitwords m2)"
      "\<And>n. n \<notin> set (hdr_sectors (hdr_at secs 0)) \<Longrightarrow> sd_sector s4 n = secs n"
    using free_map_store [OF s3(3), of "freeMapFile fs" m2] meta f(3) m2 s3(4) by auto
  have tne: "\<forall>e \<in> set t1. entry_wf e" "t1 \<noteq> []" using t1 by (auto simp: dir_wf_def)
  obtain s5 where s5: "Directory_WriteBack (fresh_buf J 1) (directoryFile fs) t1 s4 = Inr s5" "sd_ok s5"
      "file_bytes (hdr_at secs 1) (sd_sector s5) = dir_encode t1"
      "\<And>n. n \<notin> set (hdr_sectors (hdr_at secs 1)) \<Longrightarrow> sd_sector s5 n = sd_sector s4 n"
    using Directory_WriteBack_correct [OF s4(2), of "directoryFile fs" t1] meta f(4) tne t1(3) by auto
  have run: "FileSystem_Remove J fs nm s = Inr (True, s5)"
    using l1(1) s2(1) s3(1,2) m1(1) m2(1) t1(1) s4(1) s5(1) x x'(2) Directory_Find_lookup [of nm ?t]
    by (simp add: FileSystem_Remove_def fs_names_def)
  have mb: "file_bytes (hdr_at secs 0) (sd_sector s5) = bytes_of (bitwords m2)"
    using s4(3) s5(4) tables_disjoint [OF f(2)]
      file_bytes_cong [of "hdr_at secs 0" "sd_sector s5" "sd_sector s4"] by auto
  have keep: "\<forall>n. n \<notin> {} \<longrightarrow> n \<notin> set (hdr_sectors (hdr_at secs 0)) \<longrightarrow>
      n \<notin> set (hdr_sectors (hdr_at secs 1)) \<longrightarrow> sd_sector s5 n = secs n" using s4(4) s5(4) by simp
  have mk: "marked m2 = space secs (roots secs) - set (extent secs x)"
    using m1(4) m2(4) f(7) by (auto simp: extent_def)
  note rc = remove_commit [OF inv secs x t1(2-4) m2(2,3) mk s5(2,3) mb keep]
  have "free_sectors (sd_sector s5) = free_sectors secs \<union> set (extent secs x)"
    using mk f(7) rc(3) sub marked_subset [of ?m] f(6) by (auto simp: free_sectors_def)
  with that [OF run rc(1,2,4)] show ?thesis by blast
qed

section \<open>Writing through an open file\<close>

text \<open>Writing into a file changes that entry of the abstract map and nothing else.\<close>

lemma open_file_write:
  assumes inv: "fs_inv fs s" and secs: "secs = sd_sector s" and x: "fs_names secs k = Some x"
    and f: "hdr f = hdr_at secs x" and p: "0 \<le> position" "position < numBytes (hdr f)"
    and n: "0 < n" "n \<le> int (length from)" and nb: "nb = min (nat n) (nat (numBytes (hdr f)) - nat position)"
  obtains s' where "OpenFile_WriteAt junk f from n position s = Inr (int nb, s')" "fs_inv fs s'"
    "fs_files (sd_sector s') = (fs_files secs)(k \<mapsto> patch (bytes_at secs x) (nat position) (take nb from))"
    "fs_names (sd_sector s') = fs_names secs" "free_sectors (sd_sector s') = free_sectors secs" "hdr_at (sd_sector s') x = hdr_at secs x"
proof -
  note fi = fs_inv_facts [OF inv secs] and x' = fs_wf_file [OF fs_inv_facts(2) [OF inv secs] x]
  have fok: "file_ok (hdr f)" using x'(1) f by simp
  obtain s' where s': "OpenFile_WriteAt junk f from n position s = Inr (int nb, s')" "sd_ok s'"
      "file_bytes (hdr f) (sd_sector s') = patch (file_bytes (hdr f) secs) (nat position) (take nb from)"
      "\<And>m. m \<notin> set (hdr_sectors (hdr_at secs x)) \<Longrightarrow> sd_sector s' m = secs m"
    using OpenFile_WriteAt_correct [OF fi(1) fok p n nb] secs f by metis
  let ?secs' = "sd_sector s'"
  note lay = fs_wf_layout [OF fi(2)]
  have h: "?secs' y = secs y" if "y \<in> roots secs" for y
    using layout_ok_disjoint [OF lay that x'(4)] layout_ok_distinct [OF lay x'(4)]
    by (intro s'(4)) (cases "y = x"; auto simp: extent_def)
  have b: "bytes_at ?secs' y = bytes_at secs y" if "y \<in> roots secs" "y \<noteq> x" for y
    using layout_ok_disjoint [OF lay that(1) x'(4) that(2)]
    by (intro bytes_at_cong s'(4)) (auto simp: extent_def)
  have hd: "hdr_at ?secs' y = hdr_at secs y" if "y \<in> roots secs" for y using h [OF that] by (simp add: hdr_at_def)
  have tabs: "free_map ?secs' = free_map secs" "dir_table ?secs' = dir_table secs"
    using b [of 0] b [of 1] table_roots x'(5) by (auto simp: free_map_def dir_table_def)
  then have nm: "fs_names ?secs' = fs_names secs" by (simp add: fs_names_def)
  have "layout_ok ?secs' (roots secs)" by (rule layout_ok_mono [OF lay]) (auto simp: h)
  moreover have "space ?secs' (roots secs) = space secs (roots secs)" by (rule space_cong) (rule h)
  ultimately have "fs_wf ?secs'" using fi(2) hd table_roots nm tabs by (simp add: fs_wf_def roots_def)
  then have inv': "fs_inv fs s'" using inv s'(2) hd table_roots secs by (simp add: fs_inv_def)
  have bx: "bytes_at ?secs' x = patch (bytes_at secs x) (nat position) (take nb from)"
    using s'(3) hd [OF x'(4)] f by (simp add: bytes_at_def)
  have ff: "fs_files ?secs' k' = ((fs_files secs)(k \<mapsto> patch (bytes_at secs x) (nat position) (take nb from))) k'" for k'
  proof (cases "fs_names secs k'")
    case (Some y)
    have "y = x \<longleftrightarrow> k' = k" using fi(2) x Some by (auto simp: fs_wf_def inj_on_def dom_def)
    then show ?thesis using Some x bx b fs_wf_file(4) [OF fi(2) Some] by (auto simp: fs_files_def nm)
  qed (use x in \<open>auto simp: fs_files_def nm\<close>)
  show ?thesis by (rule that [OF s'(1) inv' ext [OF ff] nm]) (simp_all add: free_sectors_def tabs hd [OF x'(4)])
qed

section \<open>Formatting and mounting\<close>

lemma Directory_new_empty:
  assumes "\<forall>e \<in> set t. entry_wf e"
  shows "dir_wf (Directory_new t)" "dir_lookup (Directory_new t) = Map.empty" "length (Directory_new t) = length t"
  using assms by (induction t) (auto simp: Directory_new_def entry_wf_def)

lemma format_tables:
  assumes J: "fresh_ok J"
  obtains fm0 fm1 fm2 mh fm3 dh fm4 where "BitMap_new (fresh_map J) NumSectors = Inr fm0"
    "BitMap_Mark 0 fm0 = Inr fm1" "BitMap_Mark 1 fm1 = Inr fm2"
    "FileHeader_Allocate fm2 128 (fresh_hdr J 0) = Inr (True, mh, fm3)"
    "FileHeader_Allocate fm3 200 (fresh_hdr J 1) = Inr (True, dh, fm4)"
    "bm_wf fm4" "numBits fm4 = 1024" "marked fm4 = {0, 1} \<union> set (hdr_sectors mh) \<union> set (hdr_sectors dh)"
    "hdr_image mh" "hdr_image dh" "hdr_wf mh" "hdr_wf dh" "numBytes mh = 128" "numBytes dh = 200"
    "distinct (0 # 1 # hdr_sectors mh @ hdr_sectors dh)"
    "set (hdr_sectors mh) \<union> set (hdr_sectors dh) \<subseteq> {0..<1024}"
proof -
  obtain fm0 where fm0: "BitMap_new (fresh_map J) NumSectors = Inr fm0" "bm_wf fm0" "numBits fm0 = 1024"
      "marked fm0 = {}" using BitMap_new_correct [of NumSectors "fresh_map J"] by (auto simp: disk_consts)
  obtain fm1 where fm1: "BitMap_Mark 0 fm0 = Inr fm1" "bm_wf fm1" "numBits fm1 = 1024" "marked fm1 = {0}"
    using BitMap_Mark_correct [OF fm0(2), of 0] fm0 by auto
  obtain fm2 where fm2: "BitMap_Mark 1 fm1 = Inr fm2" "bm_wf fm2" "numBits fm2 = 1024" "marked fm2 = {0, 1}"
    using BitMap_Mark_correct [OF fm1(2), of 1] fm1 by (auto simp: insert_commute)
  have len: "length (dataSectors (fresh_hdr J k)) = 30" "hdr_image (fresh_hdr J k)" for k
    using J by (auto simp: fresh_ok_def hdr_image_def)
  have "card ({0..<1024::int} - {0, 1}) = 1022" by (subst card_Diff_subset) auto
  then have c2: "divRoundUp 128 SectorSize \<le> int (card ({0..<numBits fm2} - marked fm2))"
    using fm2 by (simp add: divRoundUp_sectors)
  have max: "(128::int) \<le> MaxFileSize" "(200::int) \<le> MaxFileSize" by (simp_all add: MaxFileSize_def SectorSize_def)
  obtain mh fm3 where mh: "FileHeader_Allocate fm2 128 (fresh_hdr J 0) = Inr (True, mh, fm3)"
      "hdr_wf mh" "numBytes mh = 128" "distinct (hdr_sectors mh)" "set (hdr_sectors mh) \<inter> {0, 1} = {}"
      "set (hdr_sectors mh) \<subseteq> {0..<1024}" "bm_wf fm3" "numBits fm3 = 1024"
      "marked fm3 = {0, 1} \<union> set (hdr_sectors mh)"
      "set (dataSectors mh) \<subseteq> set (dataSectors (fresh_hdr J 0)) \<union> {0..<1024}"
    using FileHeader_Allocate_success [OF fm2(2) _ max(1) len(1) c2] fm2 by (metis zero_le_numeral)
  have "length (hdr_sectors mh) = 1"
    using length_hdr_sectors [OF mh(2)] mh(2,3) by (simp add: hdr_wf_def divRoundUp_sectors)
  then have "card (marked fm3) = 3" using mh(4,5,9) distinct_card [OF mh(4)] by (simp add: card_Un_disjoint Int_commute)
  then have "card ({0..<1024::int} - marked fm3) = 1021"
    using marked_subset [of fm3] mh(8) by (subst card_Diff_subset) auto
  then have c3: "divRoundUp 200 SectorSize \<le> int (card ({0..<numBits fm3} - marked fm3))"
    using mh(8) by (simp add: divRoundUp_sectors)
  obtain dh fm4 where dh: "FileHeader_Allocate fm3 200 (fresh_hdr J 1) = Inr (True, dh, fm4)"
      "hdr_wf dh" "numBytes dh = 200" "distinct (hdr_sectors dh)" "set (hdr_sectors dh) \<inter> marked fm3 = {}"
      "set (hdr_sectors dh) \<subseteq> {0..<1024}" "bm_wf fm4" "numBits fm4 = 1024"
      "marked fm4 = marked fm3 \<union> set (hdr_sectors dh)"
      "set (dataSectors dh) \<subseteq> set (dataSectors (fresh_hdr J 1)) \<union> {0..<1024}"
    using FileHeader_Allocate_success [OF mh(7) _ max(2) len(1) c3] mh(8) by (metis zero_le_numeral)
  have im: "hdr_image mh" "hdr_image dh"
    using allocated_image [OF mh(2) _ len(2) mh(10)] allocated_image [OF dh(2) _ len(2) dh(10)] mh(3) dh(3) max
    by simp_all
  show ?thesis
    by (rule that [OF fm0(1) fm1(1) fm2(1) mh(1) dh(1)]) (use mh dh im in auto)
qed

lemma fs_wf_fresh:
  assumes h: "hdr_at secs 0 = mh" "hdr_at secs 1 = dh" "hdr_wf mh" "hdr_wf dh" "numBytes mh = 128" "numBytes dh = 200"
    and d: "distinct (0 # 1 # hdr_sectors mh @ hdr_sectors dh)"
      "set (hdr_sectors mh) \<union> set (hdr_sectors dh) \<subseteq> {0..<1024}"
    and m: "file_bytes mh secs = bytes_of (bitwords m)" "bm_wf m" "numBits m = 1024"
      "marked m = {0, 1} \<union> set (hdr_sectors mh) \<union> set (hdr_sectors dh)"
    and t: "file_bytes dh secs = dir_encode t" "dir_wf t" "length t = 10" "dir_lookup t = Map.empty"
  shows "fs_wf secs" "fs_files secs = Map.empty" "free_map secs = m"
proof -
  have tab: "dir_table secs = t"
    using t dir_decode_encode [of t] by (auto simp: dir_table_def bytes_at_def h(2) dir_wf_def)
  then have nm: "fs_names secs = Map.empty" using t(4) by (simp add: fs_names_def)
  then have R: "roots secs = {0, 1}" by (simp add: roots_def)
  show fm: "free_map secs = m"
    using m by (simp add: free_map_def bytes_at_def h(1) bm_wf_def divRoundUp_nonneg BitsInWord_def)
  have "layout_ok secs {0, 1}" using d h by (auto simp: layout_ok_def extent_def disk_consts)
  moreover have "space secs {0, 1} = marked m" using m(4) by (auto simp: space_def extent_def h)
  ultimately show "fs_wf secs" using h t(2) by (simp add: fs_wf_def R nm fm tab)
  show "fs_files secs = Map.empty" by (simp add: fs_files_def fun_eq_iff nm)
qed

lemma FileSystem_format_correct:
  assumes s: "sd_ok s" and J: "fresh_ok J"
  obtains fs s' where "FileSystem_new J True s = Inr (fs, s')" "fs_inv fs s'"
    "fs_files (sd_sector s') = Map.empty" "card (free_sectors (sd_sector s')) = 1019"
proof -
  from format_tables [OF J] obtain fm0 fm1 fm2 mh fm3 dh fm4 where
    f: "BitMap_new (fresh_map J) NumSectors = Inr fm0" "BitMap_Mark 0 fm0 = Inr fm1" "BitMap_Mark 1 fm1 = Inr fm2"
    "FileHeader_Allocate fm2 128 (fresh_hdr J 0) = Inr (True, mh, fm3)"
    "FileHeader_Allocate fm3 200 (fresh_hdr J 1) = Inr (True, dh, fm4)" and
    m: "bm_wf fm4" "numBits fm4 = 1024" "marked fm4 = {0, 1} \<union> set (hdr_sectors mh) \<union> set (hdr_sectors dh)" and
    h: "hdr_image mh" "hdr_image dh" "hdr_wf mh" "hdr_wf dh" "numBytes mh = 128" "numBytes dh = 200" and
    d: "distinct (0 # 1 # hdr_sectors mh @ hdr_sectors dh)"
      "set (hdr_sectors mh) \<union> set (hdr_sectors dh) \<subseteq> {0..<1024}" .
  obtain s1 where s1: "FileHeader_WriteBack mh 0 s = Inr s1" "sd_ok s1"
      "sd_sector s1 = (sd_sector s)(0 := hdr_encode mh)"
    using FileHeader_WriteBack_correct [OF s h(1), of 0] by (auto simp: disk_consts)
  obtain s2 where s2: "FileHeader_WriteBack dh 1 s1 = Inr s2" "sd_ok s2"
      "sd_sector s2 = (sd_sector s1)(1 := hdr_encode dh)"
    using FileHeader_WriteBack_correct [OF s1(2) h(2), of 1] by (auto simp: disk_consts)
  have h2: "hdr_at (sd_sector s2) 0 = mh" "hdr_at (sd_sector s2) 1 = dh"
    using s1(3) s2(3) h(1,2) by (simp_all add: hdr_at_def hdr_decode_encode)
  let ?mf = "\<lparr>hdr = mh, seekPosition = 0\<rparr>" and ?df = "\<lparr>hdr = dh, seekPosition = 0\<rparr>"
  obtain s3 where s3: "OpenFile_new 0 s2 = Inr (?mf, s3)" "sd_ok s3" "sd_sector s3 = sd_sector s2"
    using OpenFile_new_correct [OF s2(2), of 0] h2 by (auto simp: disk_consts)
  obtain s4 where s4: "OpenFile_new 1 s3 = Inr (?df, s4)" "sd_ok s4" "sd_sector s4 = sd_sector s2"
    using OpenFile_new_correct [OF s3(2), of 1] h2 s3(3) by (auto simp: disk_consts)
  have fok: "file_ok mh" "file_ok dh" using h d by (auto simp: file_ok_def disk_consts)
  obtain s5 where s5: "BitMap_WriteBack (fresh_buf J 0) ?mf fm4 s4 = Inr s5" "sd_ok s5"
      "file_bytes mh (sd_sector s5) = bytes_of (bitwords fm4)"
      "\<And>n. n \<notin> set (hdr_sectors mh) \<Longrightarrow> sd_sector s5 n = sd_sector s4 n"
    using free_map_store [OF s4(2), of ?mf fm4] fok h m by auto
  let ?t = "Directory_new (fresh_dir J)"
  have t: "dir_wf ?t" "dir_lookup ?t = Map.empty" "length ?t = 10" "\<forall>e \<in> set ?t. entry_wf e" "?t \<noteq> []"
    using Directory_new_empty [of "fresh_dir J"] J by (auto simp: fresh_ok_def dir_wf_def)
  obtain s6 where s6: "Directory_WriteBack (fresh_buf J 1) ?df ?t s5 = Inr s6" "sd_ok s6"
      "file_bytes dh (sd_sector s6) = dir_encode ?t"
      "\<And>n. n \<notin> set (hdr_sectors dh) \<Longrightarrow> sd_sector s6 n = sd_sector s5 n"
    using Directory_WriteBack_correct [OF s5(2), of ?df ?t] fok h t by auto
  have run: "FileSystem_new J True s = Inr (\<lparr>freeMapFile = ?mf, directoryFile = ?df\<rparr>, s6)"
    using f s1(1) s2(1) s3(1) s4(1) s5(1) s6(1)
    by (simp add: FileSystem_new_def fs_consts disk_consts)
  have mb: "file_bytes mh (sd_sector s6) = bytes_of (bitwords fm4)"
    using s5(3) s6(4) d(1) file_bytes_cong [of mh "sd_sector s6" "sd_sector s5"] by auto
  have "sd_sector s6 n = sd_sector s2 n" if "n \<in> {0, 1}" for n
    using s6(4) [of n] s5(4) [of n] s4(3) d(1) that by auto
  then have hh: "hdr_at (sd_sector s6) 0 = mh" "hdr_at (sd_sector s6) 1 = dh"
    using h2 by (simp_all add: hdr_at_def)
  note w = fs_wf_fresh [OF hh h(3-6) d mb m s6(3) t(1,3,2)]
  have "length (hdr_sectors mh) = 1" "length (hdr_sectors dh) = 2"
    using length_hdr_sectors h(3-6) by (auto simp: hdr_wf_def divRoundUp_sectors)
  then have "card (set (0 # 1 # hdr_sectors mh @ hdr_sectors dh)) = 5"
    using distinct_card [OF d(1)] by simp
  then have "card (marked fm4) = 5" using m(3) by (simp add: Un_assoc)
  then have "card (free_sectors (sd_sector s6)) = 1019"
    using marked_subset [of fm4] m(2) by (simp add: free_sectors_def w(3) card_Diff_subset)
  with that [OF run] w s6(2) hh show ?thesis by (simp add: fs_inv_def)
qed

text \<open>Without \<open>format\<close> the constructor opens the two tables it finds on the disk.\<close>

lemma FileSystem_mount_correct:
  assumes "sd_ok s" and "fs_wf (sd_sector s)"
  obtains fs s' where "FileSystem_new J False s = Inr (fs, s')" "fs_inv fs s'" "sd_sector s' = sd_sector s"
proof -
  obtain s1 where s1: "OpenFile_new 0 s = Inr (\<lparr>hdr = hdr_at (sd_sector s) 0, seekPosition = 0\<rparr>, s1)"
      "sd_ok s1" "sd_sector s1 = sd_sector s"
    using OpenFile_new_correct [OF assms(1), of 0] by (auto simp: disk_consts)
  obtain s2 where s2: "OpenFile_new 1 s1 = Inr (\<lparr>hdr = hdr_at (sd_sector s) 1, seekPosition = 0\<rparr>, s2)"
      "sd_ok s2" "sd_sector s2 = sd_sector s"
    using OpenFile_new_correct [OF s1(2), of 1] s1(3) by (auto simp: disk_consts)
  show ?thesis
    by (rule that [of "\<lparr>freeMapFile = \<lparr>hdr = hdr_at (sd_sector s) 0, seekPosition = 0\<rparr>,
        directoryFile = \<lparr>hdr = hdr_at (sd_sector s) 1, seekPosition = 0\<rparr>\<rparr>" s2])
      (use s1 s2 assms in \<open>simp_all add: FileSystem_new_def fs_inv_def fs_consts\<close>)
qed

end
