(* ===== verification/FileSys_Spec.thy ===== *)
theory FileSys_Spec
  imports FileSys
begin

text \<open>
  What the file system promises to its users: the abstract state is a partial map from names to
  contents, with the number of free sectors. The contract \<open>file_store\<close> states the laws of \<open>Create\<close> and
  \<open>Remove\<close> on it, \<open>spec_step\<close> the abstract effect and the result of each request, and the simulation
  theorem shows that every sequence of valid requests runs without a fault, follows the abstract steps
  and returns the abstract results.
\<close>

section \<open>The directory is full exactly when it holds ten names\<close>

lemma dir_lookup_Cons:
  "dir_lookup (e # es) = (if inUse e then (dir_lookup es)(entry_key e \<mapsto> sector e) else dir_lookup es)"
  by (auto simp: fun_eq_iff)

lemma dom_dir_lookup: "dom (dir_lookup t) = entry_key ` set (filter inUse t)"
proof (induction t)
  case Nil
  then show ?case by (simp add: dom_def)
next
  case (Cons e t)
  have "dom (dir_lookup (e # t)) =
      (if inUse e then insert (entry_key e) (dom (dir_lookup t)) else dom (dir_lookup t))"
    unfolding dir_lookup_Cons by simp
  with Cons show ?case by (simp del: dir_lookup_simps)
qed

lemma card_dom_dir_lookup:
  assumes "dir_wf t"
  shows "card (dom (dir_lookup t)) = length (filter inUse t)"
proof -
  have "distinct (map entry_key (filter inUse t))" using assms by (simp add: dir_wf_def)
  from distinct_card [OF this] show ?thesis by (simp add: dom_dir_lookup)
qed

lemma dir_full_iff: "dir_full t \<longleftrightarrow> length (filter inUse t) = length t"
  unfolding dir_full_def by (metis filter_True length_filter_less less_irrefl)

lemma dom_fs_files: "dom (fs_files secs) = dom (fs_names secs)"
  by (auto simp: fs_files_def)

lemma fs_full_iff:
  assumes "fs_wf secs"
  shows "dir_full (dir_table secs) \<longleftrightarrow> card (dom (fs_files secs)) = 10"
  using assms card_dom_dir_lookup [of "dir_table secs"]
  by (simp add: dir_full_iff dom_fs_files fs_names_def fs_wf_def dir_table_def)

section \<open>The contract\<close>

locale file_store =
  fixes create :: "byte list \<Rightarrow> int \<Rightarrow> 's \<Rightarrow> (bool \<times> 's) res"
    and remove :: "byte list \<Rightarrow> 's \<Rightarrow> (bool \<times> 's) res"
    and ok :: "'s \<Rightarrow> bool" and files :: "'s \<Rightarrow> byte list \<Rightarrow> byte list option"
    and avail :: "'s \<Rightarrow> nat" and need :: "int \<Rightarrow> int"
  assumes create_ok: "ok s \<Longrightarrow> files s (cstr 9 nm) = None \<Longrightarrow> card (dom (files s)) < 10 \<Longrightarrow>
      0 \<le> n \<Longrightarrow> n \<le> MaxFileSize \<Longrightarrow> need n \<le> int (avail s) \<Longrightarrow>
      \<exists>s' b. create nm n s = Inr (True, s') \<and> ok s' \<and> length b = nat n
        \<and> files s' = (files s)(cstr 9 nm \<mapsto> b) \<and> int (avail s') = int (avail s) - need n"
    and create_no: "ok s \<Longrightarrow> files s (cstr 9 nm) \<noteq> None \<or> card (dom (files s)) \<ge> 10 \<or> int (avail s) < need n \<Longrightarrow>
      \<exists>s'. create nm n s = Inr (False, s') \<and> ok s' \<and> files s' = files s \<and> avail s' = avail s"
    and remove_yes: "ok s \<Longrightarrow> files s (cstr 9 nm) = Some b \<Longrightarrow>
      \<exists>s'. remove nm s = Inr (True, s') \<and> ok s' \<and> files s' = (files s)(cstr 9 nm := None)
        \<and> int (avail s') = int (avail s) + need (int (length b))"
    and remove_no: "ok s \<Longrightarrow> files s (cstr 9 nm) = None \<Longrightarrow>
      \<exists>s'. remove nm s = Inr (False, s') \<and> ok s' \<and> files s' = files s \<and> avail s' = avail s"
begin

text \<open>Creating a file and removing it again restores the contents and the free space.\<close>

lemma create_remove:
  assumes "ok s" and "create nm n s = Inr (True, s1)" and n: "0 \<le> n" "n \<le> MaxFileSize"
  shows "\<exists>s2. remove nm s1 = Inr (True, s2) \<and> ok s2 \<and> files s2 = files s \<and> avail s2 = avail s"
proof -
  have new: "files s (cstr 9 nm) = None" "card (dom (files s)) < 10" "need n \<le> int (avail s)"
  proof -
    have "\<not> (files s (cstr 9 nm) \<noteq> None \<or> card (dom (files s)) \<ge> 10 \<or> int (avail s) < need n)"
    proof
      assume "files s (cstr 9 nm) \<noteq> None \<or> card (dom (files s)) \<ge> 10 \<or> int (avail s) < need n"
      from create_no [OF assms(1) this] assms(2) show False by auto
    qed
    then show "files s (cstr 9 nm) = None" "card (dom (files s)) < 10" "need n \<le> int (avail s)" by auto
  qed
  then obtain b where b: "ok s1" "length b = nat n" "files s1 = (files s)(cstr 9 nm \<mapsto> b)"
      "int (avail s1) = int (avail s) - need n" using create_ok [OF assms(1) new(1,2) n new(3)] assms(2) by auto
  then obtain s2 where "remove nm s1 = Inr (True, s2)" "ok s2" "files s2 = (files s1)(cstr 9 nm := None)"
      "int (avail s2) = int (avail s1) + need (int (length b))" using remove_yes [of s1 nm b] by auto
  moreover have "(files s)(cstr 9 nm := None) = files s" using new(1) by (simp add: fun_upd_idem)
  ultimately show ?thesis using b n by simp
qed

text \<open>Creating a file never disturbs another one, whether or not it succeeds.\<close>

lemma create_others:
  assumes "ok s" and "create nm n s = Inr (r, s1)" and n: "0 \<le> n" "n \<le> MaxFileSize" and "k \<noteq> cstr 9 nm"
  shows "files s1 k = files s k"
proof (cases "files s (cstr 9 nm) \<noteq> None \<or> card (dom (files s)) \<ge> 10 \<or> int (avail s) < need n")
  case True
  then show ?thesis using create_no [OF assms(1) True] assms(2) by auto
next
  case False
  then have new: "files s (cstr 9 nm) = None" "card (dom (files s)) < 10" "need n \<le> int (avail s)"
    by (auto simp: not_le)
  show ?thesis using create_ok [OF assms(1) new(1,2) n new(3)] assms(2,5) by auto
qed

end

text \<open>The sectors that a file of \<open>n\<close> bytes takes: its header and its data.\<close>

definition file_cost :: "int \<Rightarrow> int" where
  "file_cost n = 1 + divRoundUp n SectorSize"

lemma finite_free_sectors [simp]: "finite (free_sectors secs)"
  by (simp add: free_sectors_def)

lemma file_cost_extent:
  assumes "hdr_wf h" and "distinct (x # hdr_sectors h)"
  shows "int (card (insert x (set (hdr_sectors h)))) = file_cost (numBytes h)"
  using assms distinct_card [of "hdr_sectors h"] length_hdr_sectors [OF assms(1)] hdr_wf_numSectors [OF assms(1)]
  by (simp add: file_cost_def hdr_wf_def)

text \<open>The model of \<^verbatim>\<open>filesys.cc\<close> keeps the contract, whatever the uninitialised memory \<open>J\<close> holds.\<close>

lemma Create_contract:
  assumes ok: "fresh_ok J" "fs_inv fs s" and new: "fs_files (sd_sector s) (cstr 9 nm) = None"
    and room: "card (dom (fs_files (sd_sector s))) < 10" and n: "0 \<le> n" "n \<le> MaxFileSize"
    and cost: "file_cost n \<le> int (card (free_sectors (sd_sector s)))"
  shows "\<exists>s' b. FileSystem_Create J fs nm n s = Inr (True, s') \<and> (fresh_ok J \<and> fs_inv fs s') \<and> length b = nat n
    \<and> fs_files (sd_sector s') = (fs_files (sd_sector s))(cstr 9 nm \<mapsto> b)
    \<and> int (card (free_sectors (sd_sector s'))) = int (card (free_sectors (sd_sector s))) - file_cost n"
proof -
  let ?secs = "sd_sector s"
  have wf: "fs_wf ?secs" using ok by (simp add: fs_inv_def)
  have nf: "\<not> dir_full (dir_table ?secs)" using fs_full_iff [OF wf] room by simp
  have nn: "fs_names ?secs (cstr 9 nm) = None" using new by (simp add: fs_files_def)
  obtain s' x h where r: "FileSystem_Create J fs nm n s = Inr (True, s')" "fs_inv fs s'"
      "fs_names (sd_sector s') = (fs_names ?secs)(cstr 9 nm \<mapsto> x)" "numBytes h = n"
      "hdr_at (sd_sector s') x = h" "x \<in> free_sectors ?secs" "set (hdr_sectors h) \<subseteq> free_sectors ?secs - {x}"
      "free_sectors (sd_sector s') = free_sectors ?secs - insert x (set (hdr_sectors h))"
      "distinct (hdr_sectors h)" "hdr_wf h"
      "fs_files (sd_sector s') = (fs_files ?secs)(cstr 9 nm \<mapsto> file_bytes h (sd_sector s'))"
    using FileSystem_Create_success [OF ok(2,1) refl nn nf n cost [unfolded file_cost_def]] .
  have i: "int (card (insert x (set (hdr_sectors h)))) = file_cost n"
  proof -
    have "distinct (x # hdr_sectors h)" using r(7,9) by auto
    from file_cost_extent [OF r(10) this] r(4) show ?thesis by simp
  qed
  have sub: "insert x (set (hdr_sectors h)) \<subseteq> free_sectors ?secs" using r(6,7) by auto
  have "card (free_sectors (sd_sector s')) = card (free_sectors ?secs) - card (insert x (set (hdr_sectors h)))"
    unfolding r(8) by (rule card_Diff_subset [OF _ sub]) simp
  then have "int (card (free_sectors (sd_sector s'))) = int (card (free_sectors ?secs)) - file_cost n"
    using i card_mono [OF finite_free_sectors sub] by linarith
  moreover have "file_ok h" using fs_wf_file(1) [of "sd_sector s'" "cstr 9 nm" x] r(2,3,5) by (simp add: fs_inv_def)
  then have "length (file_bytes h (sd_sector s')) = nat n"
    using length_file_bytes [of s' h] r(2,4) by (simp add: fs_inv_def)
  ultimately show ?thesis using r ok(1) by blast
qed

lemma Create_refused_contract:
  assumes ok: "fresh_ok J" "fs_inv fs s" and no: "fs_files (sd_sector s) (cstr 9 nm) \<noteq> None
      \<or> card (dom (fs_files (sd_sector s))) \<ge> 10 \<or> int (card (free_sectors (sd_sector s))) < file_cost n"
  shows "\<exists>s'. FileSystem_Create J fs nm n s = Inr (False, s') \<and> (fresh_ok J \<and> fs_inv fs s')
    \<and> sd_sector s' = sd_sector s"
proof -
  let ?secs = "sd_sector s"
  have wf: "fs_wf ?secs" using ok by (simp add: fs_inv_def)
  have "card (dom (fs_files ?secs)) \<le> 10"
    using card_dom_dir_lookup [of "dir_table ?secs"] length_filter_le [of inUse "dir_table ?secs"] wf
    by (simp add: dom_fs_files fs_names_def fs_wf_def dir_table_def)
  then have "fs_names ?secs (cstr 9 nm) \<noteq> None \<or> dir_full (dir_table ?secs)
      \<or> int (card (free_sectors ?secs)) < 1 + divRoundUp n SectorSize"
    using no fs_full_iff [OF wf] by (auto simp: fs_files_def file_cost_def)
  from FileSystem_Create_refused [OF ok(2,1) refl this] ok(1) show ?thesis by metis
qed

lemma Remove_contract:
  assumes ok: "fresh_ok J" "fs_inv fs s" and b: "fs_files (sd_sector s) (cstr 9 nm) = Some b"
  shows "\<exists>s'. FileSystem_Remove J fs nm s = Inr (True, s') \<and> (fresh_ok J \<and> fs_inv fs s')
    \<and> fs_files (sd_sector s') = (fs_files (sd_sector s))(cstr 9 nm := None)
    \<and> int (card (free_sectors (sd_sector s'))) = int (card (free_sectors (sd_sector s))) + file_cost (int (length b))"
proof -
  let ?secs = "sd_sector s"
  have wf: "fs_wf ?secs" and s: "sd_ok s" using ok by (auto simp: fs_inv_def)
  obtain x where x: "fs_names ?secs (cstr 9 nm) = Some x" "b = bytes_at ?secs x"
    using b by (auto simp: fs_files_def)
  note x' = fs_wf_file [OF wf x(1)]
  obtain s' where r: "FileSystem_Remove J fs nm s = Inr (True, s')" "fs_inv fs s'"
      "fs_files (sd_sector s') = (fs_files ?secs)(cstr 9 nm := None)"
      "free_sectors (sd_sector s') = free_sectors ?secs \<union> set (extent ?secs x)"
    using FileSystem_Remove_success [OF ok(2,1) refl x(1)] .
  have "int (length b) = numBytes (hdr_at ?secs x)"
    using length_file_bytes [OF s x'(1)] x(2) x'(1) by (simp add: bytes_at_def file_ok_def hdr_wf_def)
  moreover have "free_sectors ?secs \<inter> set (extent ?secs x) = {}"
    using wf x'(4) by (auto simp: free_sectors_def fs_wf_def space_def)
  moreover have "int (card (set (extent ?secs x))) = file_cost (numBytes (hdr_at ?secs x))"
    using file_cost_extent [of "hdr_at ?secs x" x] x'(1) layout_ok_distinct [OF fs_wf_layout [OF wf] x'(4)]
    by (simp add: extent_def file_ok_def)
  ultimately show ?thesis using r ok(1) by (simp add: card_Un_disjoint)
qed

interpretation fsys: file_store "FileSystem_Create J fs" "FileSystem_Remove J fs"
  "\<lambda>s. fresh_ok J \<and> fs_inv fs s" "\<lambda>s. fs_files (sd_sector s)" "\<lambda>s. card (free_sectors (sd_sector s))"
  file_cost for J fs
proof unfold_locales
  fix s nm n b assume "fresh_ok J \<and> fs_inv fs s"
  then have ok: "fresh_ok J" "fs_inv fs s" by auto
  show "\<exists>s' b. FileSystem_Create J fs nm n s = Inr (True, s') \<and> (fresh_ok J \<and> fs_inv fs s') \<and> length b = nat n
    \<and> fs_files (sd_sector s') = (fs_files (sd_sector s))(cstr 9 nm \<mapsto> b)
    \<and> int (card (free_sectors (sd_sector s'))) = int (card (free_sectors (sd_sector s))) - file_cost n"
    if "fs_files (sd_sector s) (cstr 9 nm) = None" "card (dom (fs_files (sd_sector s))) < 10"
      "0 \<le> n" "n \<le> MaxFileSize" "file_cost n \<le> int (card (free_sectors (sd_sector s)))"
    using Create_contract [OF ok that] .
  show "\<exists>s'. FileSystem_Create J fs nm n s = Inr (False, s') \<and> (fresh_ok J \<and> fs_inv fs s')
      \<and> fs_files (sd_sector s') = fs_files (sd_sector s)
      \<and> card (free_sectors (sd_sector s')) = card (free_sectors (sd_sector s))"
    if "fs_files (sd_sector s) (cstr 9 nm) \<noteq> None \<or> 10 \<le> card (dom (fs_files (sd_sector s)))
      \<or> int (card (free_sectors (sd_sector s))) < file_cost n"
    using Create_refused_contract [OF ok that] by metis
  show "\<exists>s'. FileSystem_Remove J fs nm s = Inr (True, s') \<and> (fresh_ok J \<and> fs_inv fs s')
    \<and> fs_files (sd_sector s') = (fs_files (sd_sector s))(cstr 9 nm := None)
    \<and> int (card (free_sectors (sd_sector s'))) = int (card (free_sectors (sd_sector s))) + file_cost (int (length b))"
    if "fs_files (sd_sector s) (cstr 9 nm) = Some b"
    using Remove_contract [OF ok that] .
  show "\<exists>s'. FileSystem_Remove J fs nm s = Inr (False, s') \<and> (fresh_ok J \<and> fs_inv fs s')
      \<and> fs_files (sd_sector s') = fs_files (sd_sector s)
      \<and> card (free_sectors (sd_sector s')) = card (free_sectors (sd_sector s))"
    if "fs_files (sd_sector s) (cstr 9 nm) = None"
  proof -
    have "fs_names (sd_sector s) (cstr 9 nm) = None" using that by (simp add: fs_files_def)
    from FileSystem_Remove_absent [OF ok(2,1) refl this] ok(1) show ?thesis by metis
  qed
qed

section \<open>Requests\<close>

text \<open>
  A user of the file system creates, removes, reads and writes files by name: the last two open the
  file and use \<open>ReadAt\<close> and \<open>WriteAt\<close>, and do nothing when \<open>Open\<close> returns the null pointer. The result
  is what the calls return: the boolean of \<open>Create\<close> and \<open>Remove\<close>, the number of bytes written, or the
  bytes read.
\<close>

datatype fs_op =
    OpCreate "byte list" int
  | OpRemove "byte list"
  | OpWrite "byte list" "byte list" int
  | OpRead "byte list" int int

datatype fs_result = Success bool | Wrote int | Bytes "byte list" | NoSuchFile

fun fs_exec :: "Fresh \<Rightarrow> FileSystem \<Rightarrow> fs_op \<Rightarrow> SynchDisk \<Rightarrow> (fs_result \<times> SynchDisk) res" where
  "fs_exec J fs (OpCreate nm n) s = rbind (FileSystem_Create J fs nm n s) (\<lambda>(r, s'). Inr (Success r, s'))"
| "fs_exec J fs (OpRemove nm) s = rbind (FileSystem_Remove J fs nm s) (\<lambda>(r, s'). Inr (Success r, s'))"
| "fs_exec J fs (OpWrite nm data pos) s =
     rbind (FileSystem_Open J fs nm s) (\<lambda>(fo, s1). case fo of None \<Rightarrow> Inr (NoSuchFile, s1)
       | Some f \<Rightarrow> rbind (OpenFile_WriteAt (fresh_buf J 0) f data (int (length data)) pos s1)
           (\<lambda>(r, s2). Inr (Wrote r, s2)))"
| "fs_exec J fs (OpRead nm n pos) s =
     rbind (FileSystem_Open J fs nm s) (\<lambda>(fo, s1). case fo of None \<Rightarrow> Inr (NoSuchFile, s1)
       | Some f \<Rightarrow> rbind (OpenFile_ReadAt f n pos s1) (\<lambda>(d, s2). Inr (Bytes d, s2)))"

fun fs_exec_all :: "Fresh \<Rightarrow> FileSystem \<Rightarrow> fs_op list \<Rightarrow> SynchDisk \<Rightarrow> (fs_result list \<times> SynchDisk) res" where
  "fs_exec_all J fs [] s = Inr ([], s)"
| "fs_exec_all J fs (op # ops) s =
     rbind (fs_exec J fs op s) (\<lambda>(r, s1). rbind (fs_exec_all J fs ops s1) (\<lambda>(rs, s2). Inr (r # rs, s2)))"

text \<open>
  The requests that the calls are made for: sizes that fit a header (beyond them \<open>Create\<close> runs past
  the table of sectors), positions that are not negative, and an end of the transfer that is an \<^verbatim>\<open>int\<close>.
\<close>

fun op_valid :: "fs_op \<Rightarrow> bool" where
  "op_valid (OpCreate nm n) \<longleftrightarrow> 0 \<le> n \<and> n \<le> MaxFileSize"
| "op_valid (OpRemove nm) \<longleftrightarrow> True"
| "op_valid (OpWrite nm data pos) \<longleftrightarrow> 0 \<le> pos \<and> pos + int (length data) \<le> INT_MAX"
| "op_valid (OpRead nm n pos) \<longleftrightarrow> 0 \<le> pos \<and> pos + n \<le> INT_MAX"

section \<open>The abstract file system\<close>

text \<open>
  The abstract state has the contents of the files by name and the number of free sectors. Every
  request has exactly one result, which the state determines (\<open>spec_step_result\<close>); only the initial
  bytes of a new file are left open, as \<open>Create\<close> does not clear its sectors.
\<close>

type_synonym files = "byte list \<Rightarrow> byte list option"
type_synonym fs_state = "files \<times> nat"

definition fs_abs :: "SynchDisk \<Rightarrow> fs_state" where
  "fs_abs s = (fs_files (sd_sector s), card (free_sectors (sd_sector s)))"

definition overwrite :: "byte list \<Rightarrow> nat \<Rightarrow> byte list \<Rightarrow> byte list" where
  "overwrite b pos data = patch b pos (take (length b - pos) data)"

inductive spec_step :: "fs_state \<Rightarrow> fs_op \<Rightarrow> fs_result \<Rightarrow> fs_state \<Rightarrow> bool" where
  create: "F (cstr 9 nm) = None \<Longrightarrow> card (dom F) < 10 \<Longrightarrow> file_cost n \<le> int a \<Longrightarrow>
    length b = nat n \<Longrightarrow> int a' = int a - file_cost n \<Longrightarrow>
    spec_step (F, a) (OpCreate nm n) (Success True) (F(cstr 9 nm \<mapsto> b), a')"
| refuse: "F (cstr 9 nm) \<noteq> None \<or> 10 \<le> card (dom F) \<or> int a < file_cost n \<Longrightarrow>
    spec_step (F, a) (OpCreate nm n) (Success False) (F, a)"
| remove: "F (cstr 9 nm) = Some b \<Longrightarrow> int a' = int a + file_cost (int (length b)) \<Longrightarrow>
    spec_step (F, a) (OpRemove nm) (Success True) (F(cstr 9 nm := None), a')"
| remove_absent: "F (cstr 9 nm) = None \<Longrightarrow> spec_step (F, a) (OpRemove nm) (Success False) (F, a)"
| write_file: "F (cstr 9 nm) = Some b \<Longrightarrow>
    spec_step (F, a) (OpWrite nm data pos) (Wrote (int (min (length data) (length b - nat pos))))
      (F(cstr 9 nm \<mapsto> overwrite b (nat pos) data), a)"
| write_absent: "F (cstr 9 nm) = None \<Longrightarrow> spec_step (F, a) (OpWrite nm data pos) NoSuchFile (F, a)"
| read: "F (cstr 9 nm) = Some b \<Longrightarrow>
    spec_step (F, a) (OpRead nm n pos) (Bytes (take (nat n) (drop (nat pos) b))) (F, a)"
| read_absent: "F (cstr 9 nm) = None \<Longrightarrow> spec_step (F, a) (OpRead nm n pos) NoSuchFile (F, a)"

inductive spec_steps :: "fs_state \<Rightarrow> fs_op list \<Rightarrow> fs_result list \<Rightarrow> fs_state \<Rightarrow> bool" where
  no_ops: "spec_steps S [] [] S"
| one_op: "spec_step S op r S1 \<Longrightarrow> spec_steps S1 ops rs S2 \<Longrightarrow> spec_steps S (op # ops) (r # rs) S2"

inductive_simps spec_steps_Cons: "spec_steps S (op # ops) rs S2"
inductive_simps spec_steps_Nil: "spec_steps S [] rs S2"
inductive_simps spec_step_Create: "spec_step S (OpCreate nm n) r S'"
inductive_simps spec_step_Remove: "spec_step S (OpRemove nm) r S'"
inductive_simps spec_step_Write: "spec_step S (OpWrite nm data pos) r S'"
inductive_simps spec_step_Read: "spec_step S (OpRead nm n pos) r S'"

lemmas spec_step_simps = spec_step_Create spec_step_Remove spec_step_Write spec_step_Read

text \<open>The abstract state determines the result of every request.\<close>

lemma spec_step_result: "spec_step S op r S1 \<Longrightarrow> spec_step S op r' S2 \<Longrightarrow> r = r'"
  by (cases op) (auto simp: spec_step_simps)

text \<open>No more than ten files, and names without a NUL of at most nine characters, in every abstract state.\<close>

definition files_ok :: "files \<Rightarrow> bool" where
  "files_ok F \<longleftrightarrow> finite (dom F) \<and> card (dom F) \<le> 10 \<and> (\<forall>k \<in> dom F. cstr 9 k = k)"

lemma files_ok_update: "files_ok F \<Longrightarrow> F (cstr 9 nm) = Some b \<Longrightarrow> files_ok (F(cstr 9 nm \<mapsto> b'))"
  by (auto simp: files_ok_def cstr_idem insert_absorb dom_def [symmetric] simp del: fun_upd_apply)
    (metis domI insert_absorb)+

lemma spec_step_files_ok: "spec_step S op r S' \<Longrightarrow> files_ok (fst S) \<Longrightarrow> files_ok (fst S')"
proof (induction rule: spec_step.induct)
  case (create F nm n a b a')
  have "dom (F(cstr 9 nm \<mapsto> b)) = insert (cstr 9 nm) (dom F)" by simp
  with create show ?case by (auto simp: files_ok_def cstr_idem card_insert_if simp del: fun_upd_apply)
next
  case (remove F nm b a' a)
  have "dom (F(cstr 9 nm := None)) = dom F - {cstr 9 nm}" by simp
  moreover have "card (dom F - {cstr 9 nm}) \<le> card (dom F)" by (rule card_Diff1_le)
  ultimately show ?case using remove by (simp add: files_ok_def del: fun_upd_apply)
qed (simp_all add: files_ok_update)

lemma spec_steps_files_ok: "spec_steps S ops rs S' \<Longrightarrow> files_ok (fst S) \<Longrightarrow> files_ok (fst S')"
  by (induction rule: spec_steps.induct) (auto intro: spec_step_files_ok)

section \<open>Simulation\<close>

lemma write_simulation:
  assumes J: "fresh_ok J" and inv: "fs_inv fs s" and pos: "0 \<le> pos"
  shows "\<exists>r s'. fs_exec J fs (OpWrite nm data pos) s = Inr (r, s') \<and> fs_inv fs s'
    \<and> spec_step (fs_abs s) (OpWrite nm data pos) r (fs_abs s')"
proof -
  let ?secs = "sd_sector s"
  obtain s1 where o: "FileSystem_Open J fs nm s = Inr (map_option (\<lambda>x. \<lparr>hdr = hdr_at ?secs x, seekPosition = 0\<rparr>)
      (fs_names ?secs (cstr 9 nm)), s1)" "fs_inv fs s1" "sd_sector s1 = ?secs"
    using FileSystem_Open_correct [OF inv J refl] .
  show ?thesis
  proof (cases "fs_names ?secs (cstr 9 nm)")
    case None
    then show ?thesis using o by (auto simp: fs_files_def fs_abs_def spec_step_Write)
  next
    case (Some x)
    let ?f = "\<lparr>hdr = hdr_at ?secs x, seekPosition = 0\<rparr>" and ?b = "bytes_at ?secs x"
    let ?r = "min (length data) (length ?b - nat pos)"
    have wf: "fs_wf ?secs" and s: "sd_ok s" using inv by (auto simp: fs_inv_def)
    have lb: "length ?b = nat (numBytes (hdr_at ?secs x))"
      using length_file_bytes [OF s fs_wf_file(1) [OF wf Some]] by (simp add: bytes_at_def)
    have F: "fs_files ?secs (cstr 9 nm) = Some ?b" using Some by (simp add: fs_files_def)
    have ow: "overwrite ?b (nat pos) data = patch ?b (nat pos) (take ?r data)"
      by (simp add: overwrite_def min_def)
    obtain s2 where s2: "OpenFile_WriteAt (fresh_buf J 0) ?f data (int (length data)) pos s1 = Inr (int ?r, s2)"
        "fs_inv fs s2" "fs_files (sd_sector s2) = (fs_files ?secs)(cstr 9 nm \<mapsto> overwrite ?b (nat pos) data)"
        "free_sectors (sd_sector s2) = free_sectors ?secs"
    proof (cases "data = [] \<or> numBytes (hdr_at ?secs x) \<le> pos")
      case True
      then have r: "?r = 0" using lb by auto
      from True have "OpenFile_WriteAt (fresh_buf J 0) ?f data (int (length data)) pos s1 = Inr (0, s1)"
        by (intro WriteAt_out_of_range) auto
      then show ?thesis using that [of s1] o r F unfolding ow by (simp add: fun_upd_idem)
    next
      case False
      have "?r = min (nat (int (length data))) (nat (numBytes (hdr ?f)) - nat pos)" using lb by simp
      from open_file_write [where junk = "fresh_buf J 0", OF o(2) o(3) [symmetric] Some, of ?f pos "int (length data)" data, OF _ _ _ _ _ this]
      show ?thesis using that pos False ow by auto
    qed
    have "spec_step (fs_abs s) (OpWrite nm data pos) (Wrote (int ?r)) (fs_abs s2)"
      using spec_step.write_file [of "fs_files ?secs" nm ?b] F s2(3,4) by (simp add: fs_abs_def)
    then show ?thesis using o Some s2 by auto
  qed
qed

lemma read_simulation:
  assumes J: "fresh_ok J" and inv: "fs_inv fs s" and pos: "0 \<le> pos" "pos + n \<le> INT_MAX"
  shows "\<exists>r s'. fs_exec J fs (OpRead nm n pos) s = Inr (r, s') \<and> fs_inv fs s'
    \<and> spec_step (fs_abs s) (OpRead nm n pos) r (fs_abs s') \<and> sd_sector s' = sd_sector s"
proof -
  let ?secs = "sd_sector s"
  obtain s1 where o: "FileSystem_Open J fs nm s = Inr (map_option (\<lambda>x. \<lparr>hdr = hdr_at ?secs x, seekPosition = 0\<rparr>)
      (fs_names ?secs (cstr 9 nm)), s1)" "fs_inv fs s1" "sd_sector s1 = ?secs"
    using FileSystem_Open_correct [OF inv J refl] .
  show ?thesis
  proof (cases "fs_names ?secs (cstr 9 nm)")
    case None
    then show ?thesis using o by (auto simp: fs_files_def fs_abs_def spec_step_Read)
  next
    case (Some x)
    let ?f = "\<lparr>hdr = hdr_at ?secs x, seekPosition = 0\<rparr>"
    have s1: "sd_ok s1" "file_ok (hdr ?f)"
      using o(2) inv fs_wf_file(1) [OF _ Some] by (auto simp: fs_inv_def)
    obtain s2 where s2: "OpenFile_ReadAt ?f n pos s1 =
        Inr (take (nat n) (drop (nat pos) (bytes_at ?secs x)), s2)" "sd_ok s2" "sd_sector s2 = ?secs"
      using OpenFile_ReadAt_correct [OF s1 pos(1), of n] pos(2) o(3) by (auto simp: bytes_at_def)
    then have "fs_inv fs s2" using o by (simp add: fs_inv_def)
    then show ?thesis using o Some s2 by (auto simp: fs_abs_def fs_files_def spec_step_Read)
  qed
qed

lemma create_simulation:
  assumes J: "fresh_ok J" and inv: "fs_inv fs s" and n: "0 \<le> n" "n \<le> MaxFileSize"
  shows "\<exists>r s'. fs_exec J fs (OpCreate nm n) s = Inr (r, s') \<and> fs_inv fs s'
    \<and> spec_step (fs_abs s) (OpCreate nm n) r (fs_abs s')"
proof (cases "fs_files (sd_sector s) (cstr 9 nm) \<noteq> None \<or> 10 \<le> card (dom (fs_files (sd_sector s)))
    \<or> int (card (free_sectors (sd_sector s))) < file_cost n")
  case True
  then show ?thesis using fsys.create_no [OF conjI [OF J inv] True]
    by (auto simp: fs_abs_def spec_step_Create)
next
  case False
  then have new: "fs_files (sd_sector s) (cstr 9 nm) = None" "card (dom (fs_files (sd_sector s))) < 10"
    "file_cost n \<le> int (card (free_sectors (sd_sector s)))" by auto
  then show ?thesis using fsys.create_ok [OF conjI [OF J inv] new(1,2) n new(3)]
    by (auto simp: fs_abs_def intro!: spec_step.create)
qed

lemma remove_simulation:
  assumes J: "fresh_ok J" and inv: "fs_inv fs s"
  shows "\<exists>r s'. fs_exec J fs (OpRemove nm) s = Inr (r, s') \<and> fs_inv fs s'
    \<and> spec_step (fs_abs s) (OpRemove nm) r (fs_abs s')"
proof (cases "fs_files (sd_sector s) (cstr 9 nm)")
  case None
  with fsys.remove_no [OF conjI [OF J inv], of nm] show ?thesis
    by (auto simp: fs_abs_def intro: spec_step.remove_absent)
next
  case (Some b)
  from fsys.remove_yes [OF conjI [OF J inv] Some] show ?thesis
    by (auto simp: fs_abs_def intro!: spec_step.remove Some)
qed

lemma fs_exec_simulation:
  assumes "fresh_ok J" and "fs_inv fs s" and "op_valid op"
  shows "\<exists>r s'. fs_exec J fs op s = Inr (r, s') \<and> fs_inv fs s' \<and> spec_step (fs_abs s) op r (fs_abs s')"
proof (cases op)
  case (OpCreate nm n)
  then show ?thesis using create_simulation [OF assms(1,2)] assms(3) by simp
next
  case (OpRemove nm)
  then show ?thesis using remove_simulation [OF assms(1,2)] by simp
next
  case (OpWrite nm data pos)
  then show ?thesis using write_simulation [OF assms(1,2)] assms(3) by simp
next
  case (OpRead nm n pos)
  then show ?thesis using read_simulation [OF assms(1,2), of pos n nm] assms(3) by auto
qed

lemma fs_exec_all_simulation:
  assumes "fresh_ok J" and "fs_inv fs s" and "list_all op_valid ops"
  shows "\<exists>rs s'. fs_exec_all J fs ops s = Inr (rs, s') \<and> fs_inv fs s' \<and> spec_steps (fs_abs s) ops rs (fs_abs s')"
  using assms
proof (induction ops arbitrary: s)
  case Nil
  then show ?case by (auto intro: spec_steps.no_ops)
next
  case (Cons op ops)
  obtain r s1 where s1: "fs_exec J fs op s = Inr (r, s1)" "fs_inv fs s1" "spec_step (fs_abs s) op r (fs_abs s1)"
    using fs_exec_simulation [OF Cons.prems(1,2), of op] Cons.prems(3) by auto
  obtain rs s2 where "fs_exec_all J fs ops s1 = Inr (rs, s2)" "fs_inv fs s2" "spec_steps (fs_abs s1) ops rs (fs_abs s2)"
    using Cons.IH [OF Cons.prems(1) s1(2)] Cons.prems(3) by auto
  with s1 show ?case by (auto intro: spec_steps.one_op)
qed

section \<open>Properties\<close>

text \<open>Concrete uninitialised memory, full of garbage.\<close>

definition sample_fresh :: Fresh where
  "sample_fresh = \<lparr>fresh_buf = \<lambda>_ _. 255,
     fresh_hdr = \<lambda>_. \<lparr>numBytes = -7, numSectors = 99, dataSectors = replicate 30 77\<rparr>,
     fresh_map = \<lambda>_. -1,
     fresh_dir = replicate 10 \<lparr>inUse = True, sector = 3, name = replicate 10 65, padding = replicate 5 9\<rparr>\<rparr>"

lemma sample_fresh_ok: "fresh_ok sample_fresh"
  by (simp add: fresh_ok_def sample_fresh_def hdr_image_def entry_wf_def in_int32_def)

text \<open>
  Formatting any working disk, whatever it and the uninitialised memory hold, ends without a fault
  in a well-formed file system that has no files and 1019 free sectors.
\<close>

theorem fs_format:
  assumes "sd_ok s" and "fresh_ok J"
  shows "\<exists>fs s'. FileSystem_new J True s = Inr (fs, s') \<and> fs_inv fs s'
    \<and> fs_files (sd_sector s') = Map.empty \<and> card (free_sectors (sd_sector s')) = 1019"
  using FileSystem_format_correct [OF assms] by metis

theorem fs_format_witness:
  "\<exists>fs s'. FileSystem_new sample_fresh True blank_disk = Inr (fs, s') \<and> fs_inv fs s'
    \<and> fs_files (sd_sector s') = Map.empty \<and> card (free_sectors (sd_sector s')) = 1019"
  by (rule fs_format [OF blank_disk_ok sample_fresh_ok])

lemma formatted_sample:
  obtains fs s where "FileSystem_new sample_fresh True blank_disk = Inr (fs, s)" "fs_inv fs s"
    "fs_files (sd_sector s) = Map.empty" "card (free_sectors (sd_sector s)) = 1019"
  using FileSystem_format_correct [OF blank_disk_ok sample_fresh_ok] .

text \<open>
  C1. The file system refines the abstract one, results included. Take any sequence of requests in
  which every \<open>Create\<close> asks for 0 to \<open>MaxFileSize\<close> bytes, and every read and write has a position that is
  not negative and an end (position plus number of bytes) of at most \<open>INT_MAX\<close>. It runs to its end
  without an assertion failure, an access out of bounds or any other fault, keeps the file system
  well-formed, and every request returns and does what the abstract file system says: \<open>Create\<close> succeeds
  exactly when the name is new, there are fewer than ten files and the header and data sectors fit in
  the free space, which then shrinks by them; \<open>Remove\<close> succeeds exactly when the file is there, and gives
  its sectors back; a write reports and makes exactly the part of the change that lies in the file; and
  a read returns exactly the bytes of the file in the requested range.
\<close>

theorem fs_requests_refine:
  assumes "fresh_ok J" and "fs_inv fs s" and "list_all op_valid ops"
  shows "\<exists>rs s'. fs_exec_all J fs ops s = Inr (rs, s') \<and> fs_inv fs s'
    \<and> spec_steps (fs_abs s) ops rs (fs_abs s')"
  by (rule fs_exec_all_simulation [OF assms])

text \<open>On a formatted disk: a file is created, written and read back, a second creation is refused.\<close>

definition sample_requests :: "fs_op list" where
  "sample_requests = [OpCreate [97] 300, OpWrite [97] [1, 2] 299, OpCreate [97] 5, OpWrite [97] [3, 4] 127,
     OpRead [97] 2 127, OpRemove [98], OpRemove [97], OpRead [97] 1 0]"

lemma sample_requests_results:
  assumes "spec_steps (Map.empty, 1019) sample_requests rs S"
  shows "rs = [Success True, Wrote 1, Success False, Wrote 2, Bytes [3, 4], Success False, Success True, NoSuchFile]
    \<and> S = (Map.empty, 1019)"
proof -
  have c: "cstr 9 [97] = [97]" "cstr 9 [98] = [98]" by (simp_all add: cstr_def)
  have cost: "file_cost 300 = 4" by (simp add: file_cost_def divRoundUp_sectors)
  obtain r1 r2 r3 r4 r5 r6 r7 r8 S1 S2 S3 S4 S5 S6 S7 where rs: "rs = [r1, r2, r3, r4, r5, r6, r7, r8]"
    and st: "spec_step (Map.empty, 1019) (OpCreate [97] 300) r1 S1" "spec_step S1 (OpWrite [97] [1, 2] 299) r2 S2"
      "spec_step S2 (OpCreate [97] 5) r3 S3" "spec_step S3 (OpWrite [97] [3, 4] 127) r4 S4"
      "spec_step S4 (OpRead [97] 2 127) r5 S5" "spec_step S5 (OpRemove [98]) r6 S6"
      "spec_step S6 (OpRemove [97]) r7 S7" "spec_step S7 (OpRead [97] 1 0) r8 S"
    using assms unfolding sample_requests_def spec_steps_Cons spec_steps_Nil by blast
  obtain b where b: "r1 = Success True" "S1 = ([[97] \<mapsto> b], 1015)" "length b = 300"
    using st(1) by (auto simp: spec_step_Create c cost)
  let ?b1 = "patch b 299 [1]" and ?b2 = "patch (patch b 299 [1]) 127 [3, 4]"
  have l1: "length ?b1 = 300" and l2: "length ?b2 = 300" using b(3) by simp_all
  have s2: "r2 = Wrote 1" "S2 = ([[97] \<mapsto> ?b1], 1015)"
    using st(2) b by (auto simp: spec_step_Write c overwrite_def)
  have s3: "r3 = Success False" "S3 = S2" using st(3) unfolding s2 by (auto simp: spec_step_Create c)
  have s4: "r4 = Wrote 2" "S4 = ([[97] \<mapsto> ?b2], 1015)"
    using st(4) l1 unfolding s3 s2 by (auto simp: spec_step_Write c overwrite_def)
  have "r5 = Bytes (take 2 (drop 127 ?b2))" "S5 = S4" using st(5) unfolding s4 by (auto simp: spec_step_Read c)
  moreover have "take 2 (drop 127 ?b2) = [3, 4]"
    using patch_read_back [of 127 "[3, 4]" ?b1] l1 by (simp add: numeral_2_eq_2)
  ultimately have s5: "r5 = Bytes [3, 4]" "S5 = S4" by auto
  have s6: "r6 = Success False" "S6 = S4" using st(6) unfolding s5 s4 by (auto simp: spec_step_Remove c)
  have s7: "r7 = Success True" "S7 = (Map.empty, 1019)"
    using st(7) l2 unfolding s6 s4 by (auto simp: spec_step_Remove c cost)
  have "r8 = NoSuchFile" "S = S7" using st(8) unfolding s7 by (auto simp: spec_step_Read c)
  then show ?thesis using rs b(1) s2 s3 s4 s5 s6 s7 by simp
qed

theorem fs_requests_refine_witness:
  "\<exists>fs s s'. FileSystem_new sample_fresh True blank_disk = Inr (fs, s)
    \<and> fs_exec_all sample_fresh fs sample_requests s = Inr ([Success True, Wrote 1, Success False, Wrote 2,
         Bytes [3, 4], Success False, Success True, NoSuchFile], s')
    \<and> fs_inv fs s' \<and> fs_abs s' = (Map.empty, 1019)"
proof -
  obtain fs s where f: "FileSystem_new sample_fresh True blank_disk = Inr (fs, s)" "fs_inv fs s"
      "fs_abs s = (Map.empty, 1019)" using formatted_sample by (metis fs_abs_def)
  have "list_all op_valid sample_requests"
    by (simp add: sample_requests_def MaxFileSize_def SectorSize_def NumDirect_def INT_MAX_def)
  from fs_requests_refine [OF sample_fresh_ok f(2) this] obtain rs s' where
    "fs_exec_all sample_fresh fs sample_requests s = Inr (rs, s')" "fs_inv fs s'"
    "spec_steps (Map.empty, 1019) sample_requests rs (fs_abs s')" unfolding f(3) by blast
  with sample_requests_results [OF this(3)] f(1) show ?thesis by metis
qed

text \<open>
  C18. \<open>Create\<close> of a new name, with a directory entry and enough sectors free, succeeds; the new file has
  the requested length, every other file keeps its contents, and the free space shrinks by one sector
  for the header and the data sectors of the file.
\<close>

theorem fs_create:
  assumes "fresh_ok J" and "fs_inv fs s" and "fs_files (sd_sector s) (cstr 9 nm) = None"
    and "card (dom (fs_files (sd_sector s))) < 10" and "0 \<le> n" and "n \<le> MaxFileSize"
    and "file_cost n \<le> int (card (free_sectors (sd_sector s)))"
  shows "\<exists>s' b. FileSystem_Create J fs nm n s = Inr (True, s') \<and> fs_inv fs s' \<and> length b = nat n
    \<and> fs_files (sd_sector s') = (fs_files (sd_sector s))(cstr 9 nm \<mapsto> b)
    \<and> int (card (free_sectors (sd_sector s'))) = int (card (free_sectors (sd_sector s))) - file_cost n"
  using fsys.create_ok [OF conjI [OF assms(1,2)] assms(3-7)] by blast

theorem fs_create_witness:
  "\<exists>fs s. FileSystem_new sample_fresh True blank_disk = Inr (fs, s)
    \<and> (\<exists>s' b. FileSystem_Create sample_fresh fs [97, 98] 3840 s = Inr (True, s') \<and> fs_inv fs s'
      \<and> length b = nat 3840 \<and> fs_files (sd_sector s') = (fs_files (sd_sector s))(cstr 9 [97, 98] \<mapsto> b)
      \<and> int (card (free_sectors (sd_sector s'))) = int (card (free_sectors (sd_sector s))) - file_cost 3840)"
proof -
  obtain fs s where f: "FileSystem_new sample_fresh True blank_disk = Inr (fs, s)" "fs_inv fs s"
      "fs_files (sd_sector s) = Map.empty" "card (free_sectors (sd_sector s)) = 1019"
    using formatted_sample .
  have "file_cost 3840 \<le> int (card (free_sectors (sd_sector s)))"
    by (simp add: f(4) file_cost_def divRoundUp_sectors)
  with fs_create [OF sample_fresh_ok f(2), of "[97, 98]" 3840] f show ?thesis
    by (simp add: MaxFileSize_def SectorSize_def)
qed

text \<open>
  C19. \<open>Create\<close> returns false when the name exists, the directory holds ten files, or the header and data
  sectors do not fit; then no sector of the disk has changed.
\<close>

theorem fs_create_refused:
  assumes "fresh_ok J" and "fs_inv fs s"
    and "fs_files (sd_sector s) (cstr 9 nm) \<noteq> None \<or> 10 \<le> card (dom (fs_files (sd_sector s)))
      \<or> int (card (free_sectors (sd_sector s))) < file_cost n"
  shows "\<exists>s'. FileSystem_Create J fs nm n s = Inr (False, s') \<and> fs_inv fs s' \<and> sd_sector s' = sd_sector s"
  using Create_refused_contract [OF assms] by blast

theorem fs_create_refused_witness:
  "\<exists>fs s. FileSystem_new sample_fresh True blank_disk = Inr (fs, s)
    \<and> (\<exists>s'. FileSystem_Create sample_fresh fs [97] 200000 s = Inr (False, s') \<and> fs_inv fs s'
      \<and> sd_sector s' = sd_sector s)"
proof -
  obtain fs s where f: "FileSystem_new sample_fresh True blank_disk = Inr (fs, s)" "fs_inv fs s"
      "card (free_sectors (sd_sector s)) = 1019" using formatted_sample by metis
  have "int (card (free_sectors (sd_sector s))) < file_cost 200000"
    by (simp add: f(3) file_cost_def divRoundUp_sectors)
  with fs_create_refused [OF sample_fresh_ok f(2), of "[97]" 200000] f(1) show ?thesis by blast
qed

text \<open>
  C22. A file size above \<open>MaxFileSize\<close> for which the disk has room is not refused: \<open>Create\<close> writes past the
  end of the table of data sectors in the file header.
\<close>

theorem fs_create_oversize:
  assumes "fresh_ok J" and "fs_inv fs s" and "fs_files (sd_sector s) (cstr 9 nm) = None"
    and "card (dom (fs_files (sd_sector s))) < 10" and "MaxFileSize < n"
    and "file_cost n \<le> int (card (free_sectors (sd_sector s)))"
  shows "FileSystem_Create J fs nm n s = Inl OutOfBounds"
proof (rule FileSystem_Create_oversize [OF assms(2,1) refl _ _ assms(5)])
  show "fs_names (sd_sector s) (cstr 9 nm) = None" using assms(3) by (simp add: fs_files_def)
  show "\<not> dir_full (dir_table (sd_sector s))" using fs_full_iff assms(2,4) by (auto simp: fs_inv_def)
  show "1 + divRoundUp n SectorSize \<le> int (card (free_sectors (sd_sector s)))"
    using assms(6) by (simp add: file_cost_def)
qed

theorem fs_create_oversize_witness:
  "\<exists>fs s. FileSystem_new sample_fresh True blank_disk = Inr (fs, s)
    \<and> FileSystem_Create sample_fresh fs [97] 3841 s = Inl OutOfBounds"
proof -
  obtain fs s where f: "FileSystem_new sample_fresh True blank_disk = Inr (fs, s)" "fs_inv fs s"
      "fs_files (sd_sector s) = Map.empty" "card (free_sectors (sd_sector s)) = 1019"
    using formatted_sample .
  have "file_cost 3841 \<le> int (card (free_sectors (sd_sector s)))"
    by (simp add: f(4) file_cost_def divRoundUp_sectors)
  with fs_create_oversize [OF sample_fresh_ok f(2), of "[97]" 3841] f show ?thesis
    by (simp add: MaxFileSize_def SectorSize_def)
qed

text \<open>
  C20. Removing a file that was just created restores the files and the number of free sectors that
  were there before.
\<close>

theorem fs_create_remove:
  assumes "fresh_ok J" and "fs_inv fs s" and "FileSystem_Create J fs nm n s = Inr (True, s1)"
    and "0 \<le> n" and "n \<le> MaxFileSize"
  shows "\<exists>s2. FileSystem_Remove J fs nm s1 = Inr (True, s2) \<and> fs_inv fs s2
    \<and> fs_files (sd_sector s2) = fs_files (sd_sector s)
    \<and> card (free_sectors (sd_sector s2)) = card (free_sectors (sd_sector s))"
  using fsys.create_remove [OF conjI [OF assms(1,2)] assms(3-5)] by blast

theorem fs_create_remove_witness:
  "\<exists>fs s s1. FileSystem_new sample_fresh True blank_disk = Inr (fs, s)
    \<and> FileSystem_Create sample_fresh fs [97] 200 s = Inr (True, s1)
    \<and> (\<exists>s2. FileSystem_Remove sample_fresh fs [97] s1 = Inr (True, s2) \<and> fs_inv fs s2
      \<and> fs_files (sd_sector s2) = fs_files (sd_sector s)
      \<and> card (free_sectors (sd_sector s2)) = card (free_sectors (sd_sector s)))"
proof -
  obtain fs s where f: "FileSystem_new sample_fresh True blank_disk = Inr (fs, s)" "fs_inv fs s"
      "fs_files (sd_sector s) = Map.empty" "card (free_sectors (sd_sector s)) = 1019"
    using formatted_sample .
  have n: "(0::int) \<le> 200" "(200::int) \<le> MaxFileSize" by (simp_all add: MaxFileSize_def SectorSize_def)
  have "file_cost 200 \<le> int (card (free_sectors (sd_sector s)))"
    by (simp add: f(4) file_cost_def divRoundUp_sectors)
  then obtain s1 where s1: "FileSystem_Create sample_fresh fs [97] 200 s = Inr (True, s1)"
    using Create_contract [OF sample_fresh_ok f(2) _ _ n, of "[97]"] f(3) by auto
  from fs_create_remove [OF sample_fresh_ok f(2) s1 n] f(1) s1 show ?thesis by blast
qed

text \<open>
  C13. Bytes written to a file through one \<open>Open\<close> are read back through a later \<open>Open\<close> of the same name,
  and every other file still has the contents it had.
\<close>

theorem fs_open_write_open_read:
  assumes J: "fresh_ok J" and inv: "fs_inv fs s" and b: "fs_files (sd_sector s) (cstr 9 nm) = Some b"
    and pos: "0 \<le> pos" and data: "data \<noteq> []" and fits: "nat pos + length data \<le> length b"
  shows "\<exists>f s1 s2 g s3 s4. FileSystem_Open J fs nm s = Inr (Some f, s1)
    \<and> OpenFile_WriteAt junk f data (int (length data)) pos s1 = Inr (int (length data), s2)
    \<and> FileSystem_Open J fs nm s2 = Inr (Some g, s3)
    \<and> OpenFile_ReadAt g (int (length data)) pos s3 = Inr (data, s4)
    \<and> fs_inv fs s4 \<and> fs_files (sd_sector s4) = (fs_files (sd_sector s))(cstr 9 nm \<mapsto> patch b (nat pos) data)"
proof -
  let ?secs = "sd_sector s"
  obtain x where x: "fs_names ?secs (cstr 9 nm) = Some x" "b = bytes_at ?secs x"
    using b by (auto simp: fs_files_def)
  let ?f = "\<lparr>hdr = hdr_at ?secs x, seekPosition = 0\<rparr>"
  obtain s1 where s1: "FileSystem_Open J fs nm s = Inr (Some ?f, s1)" "fs_inv fs s1" "sd_sector s1 = ?secs"
    using FileSystem_Open_correct [OF inv J refl, of nm] x(1) by auto
  have wf: "fs_wf ?secs" "sd_ok s" using inv by (auto simp: fs_inv_def)
  have lb: "length b = nat (numBytes (hdr_at ?secs x))"
    using length_file_bytes [OF wf(2) fs_wf_file(1) [OF wf(1) x(1)]] x(2) by (simp add: bytes_at_def)
  have nb: "length data = min (nat (int (length data))) (nat (numBytes (hdr ?f)) - nat pos)"
    using fits lb by simp
  have "pos < numBytes (hdr ?f)" "0 < int (length data)"
  proof -
    show len: "0 < int (length data)" using data by simp
    show "pos < numBytes (hdr ?f)" unfolding OpenFile.select_convs using fits lb pos len by linarith
  qed
  then obtain s2 where s2: "OpenFile_WriteAt junk ?f data (int (length data)) pos s1 = Inr (int (length data), s2)"
      "fs_inv fs s2" "fs_files (sd_sector s2) = (fs_files ?secs)(cstr 9 nm \<mapsto> patch b (nat pos) data)"
      "fs_names (sd_sector s2) = fs_names ?secs"
    using open_file_write [OF s1(2) s1(3) [symmetric] x(1), of ?f pos "int (length data)" data "length data" junk]
      pos nb x(2) by auto
  let ?g = "\<lparr>hdr = hdr_at (sd_sector s2) x, seekPosition = 0\<rparr>"
  obtain s3 where s3: "FileSystem_Open J fs nm s2 = Inr (Some ?g, s3)" "fs_inv fs s3" "sd_sector s3 = sd_sector s2"
    using FileSystem_Open_correct [OF s2(2) J refl, of nm] x(1) s2(4) by auto
  have x2: "fs_names (sd_sector s2) (cstr 9 nm) = Some x" using x(1) s2(4) by simp
  have "int (length data) \<le> 3840"
    using fits lb numBytes_le_max [OF fs_wf_file(1) [OF wf(1) x(1)]] by linarith
  then have small: "int (length data) \<le> INT_MAX - 3840" by (simp add: INT_MAX_def)
  have ok3: "sd_ok s3" "file_ok (hdr ?g)" using s2(2) s3(2) fs_wf_file(1) [OF _ x2] by (auto simp: fs_inv_def)
  obtain s4 where s4: "OpenFile_ReadAt ?g (int (length data)) pos s3 =
      Inr (take (nat (int (length data))) (drop (nat pos) (file_bytes (hdr ?g) (sd_sector s3))), s4)"
      "sd_ok s4" "sd_sector s4 = sd_sector s3"
    using OpenFile_ReadAt_small [OF ok3 pos, of "int (length data)"] small by blast
  have "fs_files (sd_sector s2) (cstr 9 nm) = Some (patch b (nat pos) data)" using s2(3) by simp
  then have "file_bytes (hdr ?g) (sd_sector s3) = patch b (nat pos) data"
    using x2 s3(3) by (simp add: fs_files_def bytes_at_def)
  then have "OpenFile_ReadAt ?g (int (length data)) pos s3 = Inr (data, s4)"
    using s4(1) patch_read_back [OF fits] by simp
  moreover have "fs_inv fs s4" using s3(2,3) s4(2,3) by (simp add: fs_inv_def)
  ultimately show ?thesis using s1(1) s2(1,3) s3 s4(3) by metis
qed

theorem fs_open_write_open_read_witness:
  "\<exists>fs s s0 b. FileSystem_new sample_fresh True blank_disk = Inr (fs, s)
    \<and> FileSystem_Create sample_fresh fs [97] 200 s = Inr (True, s0)
    \<and> (\<exists>f s1 s2 g s3 s4. FileSystem_Open sample_fresh fs [97] s0 = Inr (Some f, s1)
      \<and> OpenFile_WriteAt (\<lambda>_. 9) f [4, 5, 6] (int (length [4::byte, 5, 6])) 127 s1 = Inr (int (length [4::byte, 5, 6]), s2)
      \<and> FileSystem_Open sample_fresh fs [97] s2 = Inr (Some g, s3)
      \<and> OpenFile_ReadAt g (int (length [4::byte, 5, 6])) 127 s3 = Inr ([4, 5, 6], s4)
      \<and> fs_inv fs s4
      \<and> fs_files (sd_sector s4) = (fs_files (sd_sector s0))(cstr 9 [97] \<mapsto> patch b (nat 127) [4, 5, 6]))"
proof -
  obtain fs s where f: "FileSystem_new sample_fresh True blank_disk = Inr (fs, s)" "fs_inv fs s"
      "fs_files (sd_sector s) = Map.empty" "card (free_sectors (sd_sector s)) = 1019"
    using formatted_sample .
  have n: "(0::int) \<le> 200" "(200::int) \<le> MaxFileSize" by (simp_all add: MaxFileSize_def SectorSize_def)
  have "file_cost 200 \<le> int (card (free_sectors (sd_sector s)))"
    by (simp add: f(4) file_cost_def divRoundUp_sectors)
  then obtain s0 b where s0: "FileSystem_Create sample_fresh fs [97] 200 s = Inr (True, s0)" "fs_inv fs s0"
      "length b = 200" "fs_files (sd_sector s0) (cstr 9 [97]) = Some b"
    using Create_contract [OF sample_fresh_ok f(2) _ _ n, of "[97]"] f(3) by auto
  have "nat 127 + length [4::byte, 5, 6] \<le> length b" using s0(3) by simp
  moreover have "(0::int) \<le> 127" "[4::byte, 5, 6] \<noteq> []" by simp_all
  ultimately show ?thesis
    using fs_open_write_open_read [OF sample_fresh_ok s0(2,4), of 127 "[4, 5, 6]" "\<lambda>_. 9"] f(1) s0(1) by metis
qed

text \<open>
  Mounting a disk that holds a well-formed file system, with no formatting, changes no sector, so
  that all files survive a restart.
\<close>

lemma fs_mount:
  assumes "sd_ok s" and "fs_wf (sd_sector s)"
  shows "\<exists>fs s'. FileSystem_new J False s = Inr (fs, s') \<and> fs_inv fs s' \<and> sd_sector s' = sd_sector s
    \<and> fs_files (sd_sector s') = fs_files (sd_sector s)"
  using FileSystem_mount_correct [OF assms, of J] by metis

text \<open>
  \<open>List\<close> runs past the end of the \<^verbatim>\<open>name\<close> array for a file whose name has nine characters, when the
  tenth byte of the entry was not zero before: \<open>Add\<close> copies nine bytes and writes no terminator.
\<close>

lemma dir_list_unterminated:
  assumes "length (name e) = 10" and "name e ! 9 \<noteq> 0" and "length nm = 9" and "0 \<notin> set nm"
    and "\<not> inUse e" and "dir_lookup es nm = None"
  shows "\<exists>t. Directory_Add nm x (e # es) = (True, t) \<and> Directory_List t = Inl OutOfBounds"
proof -
  have "takeWhile (\<lambda>c. c \<noteq> 0) nm = nm" using assms(4) by (auto simp: takeWhile_eq_all_conv)
  then have c: "cstr 9 nm = nm" using assms(3) by (simp add: cstr_def)
  have "drop 9 (name e) = [name e ! 9]"
    using assms(1) by (simp add: Cons_nth_drop_Suc [symmetric])
  then have "strncpy (name e) nm 9 = nm @ [name e ! 9]"
    using assms(3) c by (simp add: strncpy_def patch_def)
  then have "print_name (strncpy (name e) nm 9) = Inl OutOfBounds"
    using assms(2,4) by (simp add: print_name_def)
  moreover have "Directory_FindIndex nm (e # es) = -1"
    using assms(5,6) c by (simp add: Directory_FindIndex_def FindIndex_from_absent)
  ultimately show ?thesis using assms(5) by (simp add: Directory_Add_def FileNameMaxLen_def)
qed

end
