(* ===== verification/Machine.thy ===== *)
theory Machine
  imports Disk
begin

text \<open>
  The simulated machine: registers, physical memory and address translation
  (\<^verbatim>\<open>machine/machine.cc\<close>, \<^verbatim>\<open>machine/translate.cc\<close>). Registers are 32-bit words and memory is bytes; the
  host is little-endian, so that \<^verbatim>\<open>WordToHost\<close> and its companions are the identity. The kernel's
  \<^verbatim>\<open>ExceptionHandler\<close> is an argument of the operations that can trap, and the state it works on beside
  the machine is the field \<open>kernel\<close>.
\<close>

section \<open>Constants and data\<close>

definition PageSize :: int where "PageSize = SectorSize"
definition NumPhysPages :: int where "NumPhysPages = 128"
definition MemorySize :: int where "MemorySize = NumPhysPages * PageSize"
definition TLBSize :: nat where "TLBSize = 4"

lemmas machine_consts = PageSize_def NumPhysPages_def MemorySize_def TLBSize_def SectorSize_def

datatype ExceptionType = NoException | SyscallException | PageFaultException | ReadOnlyException
  | BusErrorException | AddressErrorException | OverflowException | IllegalInstrException

definition StackReg :: nat where "StackReg = 29"
definition RetAddrReg :: nat where "RetAddrReg = 31"
definition NumGPRegs :: nat where "NumGPRegs = 32"
definition HiReg :: nat where "HiReg = 32"
definition LoReg :: nat where "LoReg = 33"
definition PCReg :: nat where "PCReg = 34"
definition NextPCReg :: nat where "NextPCReg = 35"
definition PrevPCReg :: nat where "PrevPCReg = 36"
definition LoadReg :: nat where "LoadReg = 37"
definition LoadValueReg :: nat where "LoadValueReg = 38"
definition BadVAddrReg :: nat where "BadVAddrReg = 39"
definition NumTotalRegs :: nat where "NumTotalRegs = 40"

lemmas reg_nums = StackReg_def RetAddrReg_def NumGPRegs_def HiReg_def LoReg_def PCReg_def NextPCReg_def
  PrevPCReg_def LoadReg_def LoadValueReg_def BadVAddrReg_def NumTotalRegs_def

record TranslationEntry =
  virtualPage :: int
  physicalPage :: int
  valid :: bool
  readOnly :: bool
  used :: bool \<comment> \<open>\<^verbatim>\<open>use\<close>\<close>
  dirty :: bool

datatype MachineStatus = IdleMode | SystemMode | UserMode

record 'k Machine =
  registers :: "32 word list"
  mainMemory :: "byte list"
  tlb :: "TranslationEntry list option" \<comment> \<open>\<open>None\<close> is the null pointer\<close>
  pageTable :: "TranslationEntry list option" \<comment> \<open>\<^verbatim>\<open>pageTableSize\<close> is its length\<close>
  status :: MachineStatus \<comment> \<open>\<^verbatim>\<open>interrupt->getStatus()\<close>\<close>
  kernel :: 'k

type_synonym 'k handler = "ExceptionType \<Rightarrow> 'k Machine \<Rightarrow> 'k Machine res"

section \<open>machine.cc\<close>

text \<open>The constructor, without and with \<^verbatim>\<open>USE_TLB\<close> (\<open>fresh\<close>: the uninitialised TLB entries).\<close>

definition Machine_new :: "TranslationEntry list option \<Rightarrow> 'k \<Rightarrow> 'k Machine" where
  "Machine_new fresh k = \<lparr>registers = replicate NumTotalRegs 0, mainMemory = replicate (nat MemorySize) 0,
     tlb = map_option (map (\<lambda>e. e\<lparr>valid := False\<rparr>)) fresh, pageTable = None,
     status = SystemMode, kernel = k\<rparr>"

definition ReadRegister :: "int \<Rightarrow> 'k Machine \<Rightarrow> 32 word res" where
  "ReadRegister num m = ASSERT (0 \<le> num \<and> num < int NumTotalRegs) (aget (registers m) num)"

definition WriteRegister :: "int \<Rightarrow> 32 word \<Rightarrow> 'k Machine \<Rightarrow> 'k Machine res" where
  "WriteRegister num v m = ASSERT (0 \<le> num \<and> num < int NumTotalRegs)
     (rbind (aput (registers m) num v) (\<lambda>rs. Inr (m\<lparr>registers := rs\<rparr>)))"

text \<open>Register access with an index known to be in range.\<close>

definition reg :: "'k Machine \<Rightarrow> nat \<Rightarrow> 32 word" where
  "reg m i = registers m ! i"

definition set_reg :: "nat \<Rightarrow> 32 word \<Rightarrow> 'k Machine \<Rightarrow> 'k Machine" where
  "set_reg i v m = m\<lparr>registers := (registers m)[i := v]\<rparr>"

text \<open>\<^verbatim>\<open>DelayedLoad\<close> of \<^verbatim>\<open>mipssim.cc\<close>: the pending load goes to the register that register \<open>LoadReg\<close> names.\<close>

definition DelayedLoad :: "nat \<Rightarrow> 32 word \<Rightarrow> 'k Machine \<Rightarrow> 'k Machine res" where
  "DelayedLoad nextReg nextValue m =
     rbind (aput (registers m) (sint (reg m LoadReg)) (reg m LoadValueReg)) (\<lambda>rs.
     Inr (set_reg 0 0 (set_reg LoadValueReg nextValue (set_reg LoadReg (of_nat nextReg)
       (m\<lparr>registers := rs\<rparr>)))))"

definition RaiseException :: "'k handler \<Rightarrow> ExceptionType \<Rightarrow> 32 word \<Rightarrow> 'k Machine \<Rightarrow> 'k Machine res" where
  "RaiseException h which badVAddr m =
     rbind (DelayedLoad 0 0 (set_reg BadVAddrReg badVAddr m)) (\<lambda>m1.
     rbind (h which (m1\<lparr>status := SystemMode\<rparr>)) (\<lambda>m2. Inr (m2\<lparr>status := UserMode\<rparr>)))"

section \<open>translate.cc\<close>

definition WordToHost :: "32 word \<Rightarrow> 32 word" where "WordToHost w = w"
definition ShortToHost :: "16 word \<Rightarrow> 16 word" where "ShortToHost w = w"
definition WordToMachine :: "32 word \<Rightarrow> 32 word" where "WordToMachine w = WordToHost w"
definition ShortToMachine :: "16 word \<Rightarrow> 16 word" where "ShortToMachine w = ShortToHost w"

text \<open>The search through the TLB: the index of the first valid entry for the page.\<close>

fun tlb_search :: "nat \<Rightarrow> int \<Rightarrow> TranslationEntry list \<Rightarrow> nat option" where
  "tlb_search i vpn [] = None"
| "tlb_search i vpn (e # es) =
     (if valid e \<and> virtualPage e = vpn then Some i else tlb_search (Suc i) vpn es)"

definition find_entry :: "int \<Rightarrow> 'k Machine \<Rightarrow> ExceptionType + nat" where
  "find_entry vpn m =
     (case tlb m of
        None \<Rightarrow>
          (case pageTable m of
             None \<Rightarrow> Inl PageFaultException
           | Some pt \<Rightarrow>
               if vpn \<ge> int (length pt) then Inl AddressErrorException
               else if \<not> valid (pt ! nat vpn) then Inl PageFaultException
               else Inr (nat vpn))
      | Some t \<Rightarrow> (case tlb_search 0 vpn t of None \<Rightarrow> Inl PageFaultException | Some i \<Rightarrow> Inr i))"

definition entries :: "'k Machine \<Rightarrow> TranslationEntry list" where
  "entries m = (case tlb m of Some t \<Rightarrow> t | None \<Rightarrow> (case pageTable m of Some pt \<Rightarrow> pt | None \<Rightarrow> []))"

definition set_entry :: "nat \<Rightarrow> TranslationEntry \<Rightarrow> 'k Machine \<Rightarrow> 'k Machine" where
  "set_entry i e m = (case tlb m of Some t \<Rightarrow> m\<lparr>tlb := Some (t[i := e])\<rparr>
     | None \<Rightarrow> m\<lparr>pageTable := map_option (\<lambda>pt. pt[i := e]) (pageTable m)\<rparr>)"

text \<open>\<^verbatim>\<open>Translate\<close> returns the exception, or the physical address it stores through \<^verbatim>\<open>physAddr\<close>.\<close>

definition Translate ::
  "32 word \<Rightarrow> int \<Rightarrow> bool \<Rightarrow> 'k Machine \<Rightarrow> ((ExceptionType + int) \<times> 'k Machine) res" where
  "Translate virtAddr sz writing m =
     (if (sz = 4 \<and> virtAddr AND 3 \<noteq> 0) \<or> (sz = 2 \<and> virtAddr AND 1 \<noteq> 0)
      then Inr (Inl AddressErrorException, m)
      else
        ASSERT (tlb m = None \<or> pageTable m = None) (ASSERT (tlb m \<noteq> None \<or> pageTable m \<noteq> None)
        (let vpn = uint virtAddr div PageSize; offset = uint virtAddr mod PageSize in
         case find_entry vpn m of
           Inl e \<Rightarrow> Inr (Inl e, m)
         | Inr i \<Rightarrow>
             let entry = entries m ! i; pageFrame = uint (word_of_int (physicalPage entry) :: 32 word) in
             if readOnly entry \<and> writing then Inr (Inl ReadOnlyException, m)
             else if pageFrame \<ge> NumPhysPages then Inr (Inl BusErrorException, m)
             else
               let entry1 = entry\<lparr>used := True\<rparr>;
                   entry2 = (if writing then entry1\<lparr>dirty := True\<rparr> else entry1);
                   physAddr = pageFrame * PageSize + offset
               in ASSERT (physAddr \<ge> 0 \<and> physAddr + sz \<le> MemorySize)
                    (Inr (Inr physAddr, set_entry i entry2 m)))))"

definition short_of :: "byte list \<Rightarrow> 16 word" where
  "short_of bs = (ucast (bs ! 0) :: 16 word) OR push_bit 8 (ucast (bs ! 1))"

definition ReadMem :: "'k handler \<Rightarrow> 32 word \<Rightarrow> int \<Rightarrow> 'k Machine \<Rightarrow> (32 word option \<times> 'k Machine) res" where
  "ReadMem h addr sz m =
     rbind (Translate addr sz False m) (\<lambda>(r, m1). case r of
         Inl e \<Rightarrow> rbind (RaiseException h e addr m1) (\<lambda>m2. Inr (None, m2))
       | Inr p \<Rightarrow>
           if sz = 1 then rbind (aget (mainMemory m1) p) (\<lambda>b. Inr (Some (scast b), m1))
           else if sz = 2 then rbind (bcopy_out (mainMemory m1) p 2) (\<lambda>bs.
             Inr (Some (ucast (ShortToHost (short_of bs))), m1))
           else if sz = 4 then rbind (bcopy_out (mainMemory m1) p 4) (\<lambda>bs.
             Inr (Some (WordToHost (hd (words_of bs))), m1))
           else Inl AssertFail)"

definition WriteMem :: "'k handler \<Rightarrow> 32 word \<Rightarrow> int \<Rightarrow> 32 word \<Rightarrow> 'k Machine \<Rightarrow> (bool \<times> 'k Machine) res" where
  "WriteMem h addr sz v m =
     rbind (Translate addr sz True m) (\<lambda>(r, m1). case r of
         Inl e \<Rightarrow> rbind (RaiseException h e addr m1) (\<lambda>m2. Inr (False, m2))
       | Inr p \<Rightarrow>
           let store = (\<lambda>bs. rbind (bcopy_in bs (int (length bs)) p (mainMemory m1)) (\<lambda>mem.
                 Inr (True, m1\<lparr>mainMemory := mem\<rparr>)))
           in if sz = 1 then store [ucast (v AND 0xff)]
              else if sz = 2 then
                let s = ShortToMachine (ucast (v AND 0xffff)) in store [ucast s, ucast (drop_bit 8 s)]
              else if sz = 4 then store (le32 (WordToMachine v))
              else Inl AssertFail)"

section \<open>Well-formed machines\<close>

definition table_ok :: "'k Machine \<Rightarrow> bool" where
  "table_ok m \<longleftrightarrow> (tlb m = None \<and> pageTable m \<noteq> None)
     \<or> (pageTable m = None \<and> (case tlb m of None \<Rightarrow> False | Some t \<Rightarrow> length t = TLBSize))"

definition mach_len :: "'k Machine \<Rightarrow> bool" where
  "mach_len m \<longleftrightarrow> length (registers m) = 40 \<and> length (mainMemory m) = 16384 \<and> table_ok m
     \<and> uint (registers m ! LoadReg) < 32"

definition mach_ok :: "'k Machine \<Rightarrow> bool" where
  "mach_ok m \<longleftrightarrow> mach_len m \<and> registers m ! 0 = 0"

lemma mach_ok_len: "mach_ok m \<Longrightarrow> mach_len m"
  by (simp add: mach_ok_def)

lemma mach_len_status [simp]: "mach_len (m\<lparr>status := st\<rparr>) = mach_len m" "mach_ok (m\<lparr>status := st\<rparr>) = mach_ok m"
  by (simp_all add: mach_len_def mach_ok_def table_ok_def)

lemma set_reg_simps [simp]:
  "mainMemory (set_reg i v m) = mainMemory m" "tlb (set_reg i v m) = tlb m"
  "pageTable (set_reg i v m) = pageTable m" "length (registers (set_reg i v m)) = length (registers m)"
  "registers (set_reg i v m) = (registers m)[i := v]"
  by (simp_all add: set_reg_def)

lemma mach_len_set_reg: "mach_len m \<Longrightarrow> i \<noteq> LoadReg \<Longrightarrow> mach_len (set_reg i v m)"
  by (simp add: mach_len_def table_ok_def)

lemma sint_small: "uint (w :: 32 word) < 32 \<Longrightarrow> sint w = uint w"
  using sint_of_int32 [of "uint w"] uint_ge_0 [of w] by (simp add: in_int32_def)

lemma DelayedLoad_ok:
  assumes "mach_len m" and "k < 32"
  obtains m' where "DelayedLoad k v m = Inr m'" "mach_ok m'" "tlb m' = tlb m" "pageTable m' = pageTable m"
    "mainMemory m' = mainMemory m" "status m' = status m" "kernel m' = kernel m"
    "registers m' = (registers m)[nat (uint (reg m LoadReg)) := reg m LoadValueReg, LoadReg := of_nat k,
       LoadValueReg := v, 0 := 0]"
proof -
  let ?i = "nat (uint (reg m LoadReg))"
  have r: "length (registers m) = 40" "uint (reg m LoadReg) < 32" using assms(1) by (auto simp: mach_len_def reg_def)
  then have "aput (registers m) (sint (reg m LoadReg)) (reg m LoadValueReg)
      = Inr ((registers m)[?i := reg m LoadValueReg])"
    by (simp add: sint_small aput_def)
  then have D: "DelayedLoad k v m = Inr (m\<lparr>registers := (registers m)[?i := reg m LoadValueReg, LoadReg := of_nat k,
       LoadValueReg := v, 0 := 0]\<rparr>)"
    by (simp add: DelayedLoad_def set_reg_def)
  have "uint (of_nat k :: 32 word) = int k" using assms(2) by (simp add: unsigned_of_nat take_bit_nat_eq_self)
  then show ?thesis
    by (intro that [OF D]) (use assms r in \<open>simp_all add: mach_ok_def mach_len_def table_ok_def reg_nums\<close>)
qed

text \<open>
  Raising an exception: the handler is called once, on a well-formed machine in system mode in which
  the pending load has been performed, the bad address recorded and nothing else has changed, and what
  it leaves is the machine in user mode again. If the handler stops, so does the exception.
\<close>

definition exception_state :: "'k Machine \<Rightarrow> 'k Machine \<Rightarrow> bool" where
  "exception_state m m1 \<longleftrightarrow> mach_ok m1 \<and> status m1 = SystemMode \<and> mainMemory m1 = mainMemory m \<and> kernel m1 = kernel m
     \<and> (\<exists>bad. registers m1 = (registers m)[BadVAddrReg := bad, nat (uint (reg m LoadReg)) := reg m LoadValueReg,
          LoadReg := 0, LoadValueReg := 0, 0 := 0])"

definition handled :: "'k handler \<Rightarrow> ExceptionType \<Rightarrow> 'k Machine \<Rightarrow> 'k Machine res" where
  "handled h e m = rbind (h e m) (\<lambda>m'. Inr (m'\<lparr>status := UserMode\<rparr>))"

lemma RaiseException_enters:
  assumes m: "mach_len m"
  obtains m1 where "RaiseException h e bad m = handled h e m1" "exception_state m m1"
proof -
  have ne: "LoadReg \<noteq> BadVAddrReg" "LoadValueReg \<noteq> BadVAddrReg" by (simp_all add: reg_nums)
  have "mach_len (set_reg BadVAddrReg bad m)" using m by (simp add: mach_len_set_reg reg_nums)
  then obtain m1 where m1: "DelayedLoad 0 0 (set_reg BadVAddrReg bad m) = Inr m1" "mach_ok m1"
      "mainMemory m1 = mainMemory m" "kernel m1 = kernel m"
      "registers m1 = (registers m)[BadVAddrReg := bad, nat (uint (reg m LoadReg)) := reg m LoadValueReg,
          LoadReg := 0, LoadValueReg := 0, 0 := 0]"
    using DelayedLoad_ok [of "set_reg BadVAddrReg bad m" 0 0] ne by (auto simp: reg_def set_reg_def)
  then have "exception_state m (m1\<lparr>status := SystemMode\<rparr>)" by (auto simp: exception_state_def)
  with m1(1) that show ?thesis by (simp add: RaiseException_def handled_def)
qed

lemma exception_state_cong:
  "exception_state m1 mx \<Longrightarrow> registers m1 = registers m \<Longrightarrow> mainMemory m1 = mainMemory m \<Longrightarrow> kernel m1 = kernel m \<Longrightarrow>
   exception_state m mx"
  by (simp add: exception_state_def reg_def)

section \<open>Translation\<close>

lemma and_mask_dvd:
  "(w :: 32 word) AND 3 = 0 \<longleftrightarrow> 4 dvd uint w" "(w :: 32 word) AND 1 = 0 \<longleftrightarrow> 2 dvd uint w"
proof -
  have "uint (w AND 3) = uint w mod 4"
    using take_bit_eq_mask [of 2 "uint w"] by (simp add: unsigned_and_eq take_bit_eq_mod mask_eq_exp_minus_1)
  then show "w AND 3 = 0 \<longleftrightarrow> 4 dvd uint w" by (metis dvd_eq_mod_eq_0 unsigned_0 word_uint_eqI)
  have "uint (w AND 1) = uint w mod 2"
    using take_bit_eq_mask [of 1 "uint w"] by (simp add: unsigned_and_eq take_bit_eq_mod mask_eq_exp_minus_1)
  then show "w AND 1 = 0 \<longleftrightarrow> 2 dvd uint w" by (metis dvd_eq_mod_eq_0 unsigned_0 word_uint_eqI)
qed

definition aligned :: "32 word \<Rightarrow> int \<Rightarrow> bool" where
  "aligned va sz \<longleftrightarrow> \<not> ((sz = 4 \<and> va AND 3 \<noteq> 0) \<or> (sz = 2 \<and> va AND 1 \<noteq> 0))"

lemma aligned_offset:
  assumes "aligned va sz" and "sz \<in> {1, 2, 4}"
  shows "uint va mod 128 + sz \<le> 128"
proof -
  have "sz dvd uint va" using assms by (auto simp: aligned_def and_mask_dvd)
  moreover have "sz dvd 128" using assms(2) by auto
  ultimately have "sz dvd uint va mod 128" "sz dvd 128 - uint va mod 128" by (auto simp: dvd_mod)
  moreover have "0 < 128 - uint va mod 128" by simp
  ultimately show ?thesis using zdvd_imp_le by fastforce
qed

lemma vpn_nonneg: "0 \<le> uint (va :: 32 word) div 128"
  by (simp add: pos_imp_zdiv_nonneg_iff)

lemma tlb_search_Some: "tlb_search k vpn es = Some i \<Longrightarrow> k \<le> i \<and> i < k + length es
    \<and> valid (es ! (i - k)) \<and> virtualPage (es ! (i - k)) = vpn"
  by (induction es arbitrary: k) (auto split: if_splits simp: nth_Cons' dest: Suc_leD, fastforce+)

lemma find_entry_Inr:
  assumes "find_entry vpn m = Inr i" and "0 \<le> vpn"
  shows "i < length (entries m)" "valid (entries m ! i)"
  using assms tlb_search_Some [of 0 vpn _ i]
  by (auto simp: find_entry_def entries_def split: option.splits if_splits)

lemma entries_set_entry: "table_ok m \<Longrightarrow> entries (set_entry i e m) = (entries m)[i := e]"
  by (auto simp: entries_def set_entry_def table_ok_def split: option.splits)

lemma set_entry_simps [simp]:
  "registers (set_entry i e m) = registers m" "mainMemory (set_entry i e m) = mainMemory m"
  "status (set_entry i e m) = status m" "kernel (set_entry i e m) = kernel m"
  by (auto simp: set_entry_def split: option.splits)

lemma table_ok_set_entry: "table_ok m \<Longrightarrow> table_ok (set_entry i e m)"
  by (auto simp: table_ok_def set_entry_def split: option.splits)

lemma mach_ok_set_entry: "mach_len m \<Longrightarrow> mach_len (set_entry i e m)" "mach_ok m \<Longrightarrow> mach_ok (set_entry i e m)"
  by (simp_all add: mach_len_def mach_ok_def table_ok_set_entry)

text \<open>The frame an entry maps to, and the marks that an access leaves in the entry.\<close>

definition frame_of :: "TranslationEntry \<Rightarrow> int" where
  "frame_of e = uint (word_of_int (physicalPage e) :: 32 word)"

definition touch :: "bool \<Rightarrow> TranslationEntry \<Rightarrow> TranslationEntry" where
  "touch w e = (if w then e\<lparr>used := True, dirty := True\<rparr> else e\<lparr>used := True\<rparr>)"

lemma touch_simps [simp]:
  "valid (touch w e) = valid e" "virtualPage (touch w e) = virtualPage e" "readOnly (touch w e) = readOnly e"
  "frame_of (touch w e) = frame_of e" "physicalPage (touch w e) = physicalPage e"
  by (auto simp: touch_def frame_of_def)

lemma Translate_aligned:
  assumes t: "table_ok m" and al: "aligned va sz"
  shows "Translate va sz w m = (case find_entry (uint va div 128) m of Inl e \<Rightarrow> Inr (Inl e, m)
     | Inr i \<Rightarrow> if readOnly (entries m ! i) \<and> w then Inr (Inl ReadOnlyException, m)
        else if frame_of (entries m ! i) \<ge> 128 then Inr (Inl BusErrorException, m)
        else let p = frame_of (entries m ! i) * 128 + uint va mod 128 in
          ASSERT (p \<ge> 0 \<and> p + sz \<le> 16384) (Inr (Inr p, set_entry i (touch w (entries m ! i)) m)))"
proof -
  have "tlb m = None \<or> pageTable m = None" "tlb m \<noteq> None \<or> pageTable m \<noteq> None"
    using t by (auto simp: table_ok_def split: option.splits)
  then show ?thesis unfolding Translate_def if_not_P [OF al [unfolded aligned_def]]
    by (simp add: machine_consts Let_def frame_of_def touch_def split: sum.splits)
qed

lemma Translate_mapped:
  assumes t: "table_ok m" and al: "aligned va sz" and sz: "sz \<in> {1, 2, 4}"
    and i: "find_entry (uint va div 128) m = Inr i" and ro: "\<not> (readOnly (entries m ! i) \<and> w)"
    and f: "frame_of (entries m ! i) < 128"
  shows "Translate va sz w m = Inr (Inr (frame_of (entries m ! i) * 128 + uint va mod 128),
    set_entry i (touch w (entries m ! i)) m)"
proof -
  have "0 \<le> frame_of (entries m ! i)" by (simp add: frame_of_def)
  then have "0 \<le> frame_of (entries m ! i) * 128 + uint va mod 128" by simp
  moreover have "frame_of (entries m ! i) * 128 + uint va mod 128 + sz \<le> 16384"
    using aligned_offset [OF al sz] f by linarith
  ultimately show ?thesis using Translate_aligned [OF t al, of w] i ro f by (simp add: Let_def)
qed

lemma Translate_cases:
  assumes t: "table_ok m" and sz: "sz \<in> {1, 2, 4}"
  obtains (trap) e where "Translate va sz w m = Inr (Inl e, m)" "e \<noteq> NoException"
    | (mapped) i p where "Translate va sz w m = Inr (Inr p, set_entry i (touch w (entries m ! i)) m)"
        "aligned va sz" "find_entry (uint va div 128) m = Inr i" "\<not> (readOnly (entries m ! i) \<and> w)"
        "frame_of (entries m ! i) < 128" "p = frame_of (entries m ! i) * 128 + uint va mod 128"
        "0 \<le> p" "p + sz \<le> 16384"
proof (cases "aligned va sz")
  case False
  then show ?thesis using trap [of AddressErrorException] by (simp add: Translate_def aligned_def)
next
  case al: True
  note T = Translate_aligned [OF t al, of w]
  show ?thesis
  proof (cases "find_entry (uint va div 128) m")
    case (Inl e)
    then have "e \<noteq> NoException" by (auto simp: find_entry_def split: option.splits if_splits)
    then show ?thesis using trap T Inl by simp
  next
    case (Inr i)
    let ?f = "frame_of (entries m ! i)"
    have f: "0 \<le> ?f" by (simp add: frame_of_def)
    consider "readOnly (entries m ! i) \<and> w" | "\<not> (readOnly (entries m ! i) \<and> w)" "?f \<ge> 128"
      | "\<not> (readOnly (entries m ! i) \<and> w)" "?f < 128" by linarith
    then show ?thesis
    proof cases
      case 1
      then show ?thesis using trap [of ReadOnlyException] T Inr by simp
    next
      case 2
      then show ?thesis using trap [of BusErrorException] T Inr by simp
    next
      case 3
      have "?f * 128 + uint va mod 128 + sz \<le> 16384" using aligned_offset [OF al sz] 3 by linarith
      moreover have "0 \<le> ?f * 128 + uint va mod 128" using f by simp
      ultimately show ?thesis by (intro mapped [OF Translate_mapped [OF t al sz Inr 3] al Inr 3 refl])
    qed
  qed
qed

section \<open>Memory access\<close>

text \<open>The value that a read of \<open>sz\<close> bytes finds at physical address \<open>p\<close>, and the bytes that a write stores.\<close>

definition load_value :: "int \<Rightarrow> byte list \<Rightarrow> int \<Rightarrow> 32 word" where
  "load_value sz mem p = (let bs = take (nat sz) (drop (nat p) mem) in
     if sz = 1 then scast (hd bs) else if sz = 2 then ucast (short_of bs) else hd (words_of bs))"

definition store_bytes :: "int \<Rightarrow> 32 word \<Rightarrow> byte list" where
  "store_bytes sz v = (if sz = 1 then [ucast v] else if sz = 2 then [ucast v, ucast (drop_bit 8 v)] else le32 v)"

lemma length_store_bytes: "sz \<in> {1, 2, 4} \<Longrightarrow> length (store_bytes sz v) = nat sz"
  by (auto simp: store_bytes_def)

lemma ucast_masks:
  "ucast ((v :: 32 word) AND 0xff) = (ucast v :: 8 word)"
  "(ucast (ucast (v AND 0xffff) :: 16 word) :: 8 word) = ucast v"
  "(ucast (drop_bit 8 (ucast (v AND 0xffff) :: 16 word)) :: 8 word) = ucast (drop_bit 8 v)"
proof -
  have m: "(0xff :: 32 word) = mask 8" "(0xffff :: 32 word) = mask 16" by (simp_all add: mask_eq_exp_minus_1)
  show "ucast (v AND 0xff) = (ucast v :: 8 word)"
    "(ucast (ucast (v AND 0xffff) :: 16 word) :: 8 word) = ucast v"
    "(ucast (drop_bit 8 (ucast (v AND 0xffff) :: 16 word)) :: 8 word) = ucast (drop_bit 8 v)"
    unfolding m by (auto simp: bit_simps intro!: bit_word_eqI)
qed

lemma ReadMem_mapped:
  assumes T: "Translate va sz False m = Inr (Inr p, m1)" and sz: "sz \<in> {1, 2, 4}"
    and p: "0 \<le> p" "p + sz \<le> int (length (mainMemory m1))"
  shows "ReadMem h va sz m = Inr (Some (load_value sz (mainMemory m1) p), m1)"
proof -
  have "hd (take 1 (drop (nat p) (mainMemory m1))) = mainMemory m1 ! nat p" if "sz = 1"
    using p that by (simp add: hd_drop_conv_nth)
  then show ?thesis using T sz p
    by (auto simp: ReadMem_def load_value_def bcopy_out_def ShortToHost_def WordToHost_def Let_def aget_def)
qed

lemma WriteMem_mapped:
  assumes T: "Translate va sz True m = Inr (Inr p, m1)" and sz: "sz \<in> {1, 2, 4}"
    and p: "0 \<le> p" "p + sz \<le> int (length (mainMemory m1))"
  shows "WriteMem h va sz v m =
    Inr (True, m1\<lparr>mainMemory := patch (mainMemory m1) (nat p) (store_bytes sz v)\<rparr>)"
proof -
  have "bcopy_in (store_bytes sz v) (int (length (store_bytes sz v))) p (mainMemory m1)
      = Inr (patch (mainMemory m1) (nat p) (store_bytes sz v))"
    using bcopy_in_all [of "nat p" "store_bytes sz v" "mainMemory m1"] p sz length_store_bytes [OF sz] by auto
  moreover have "sz = 1 \<or> sz = 2 \<or> sz = 4" using sz by auto
  ultimately show ?thesis using T
    by (auto simp: WriteMem_def store_bytes_def ucast_masks ShortToMachine_def ShortToHost_def
        WordToMachine_def WordToHost_def Let_def)
qed

lemma ReadMem_outcome:
  assumes m: "mach_ok m" and sz: "sz \<in> {1, 2, 4}"
  obtains (value_read) v m1 where "ReadMem h va sz m = Inr (Some v, m1)" "mach_ok m1" "registers m1 = registers m"
      "mainMemory m1 = mainMemory m" "kernel m1 = kernel m" "aligned va sz"
    | (exception) e mx where "ReadMem h va sz m = rbind (handled h e mx) (\<lambda>m2. Inr (None, m2))" "exception_state m mx"
proof -
  have t: "table_ok m" "length (mainMemory m) = 16384" using m by (auto simp: mach_ok_def mach_len_def)
  show thesis
  proof (cases rule: Translate_cases [OF t(1) sz, of va False, case_names trap mapped])
    case (trap e)
    obtain mx where "RaiseException h e va m = handled h e mx" "exception_state m mx"
      using RaiseException_enters [OF mach_ok_len [OF m]] .
    with trap exception show thesis by (simp add: ReadMem_def)
  next
    case (mapped i p)
    show thesis
      using mapped(2,7,8) t(2) mach_ok_set_entry(2) [OF m]
      by (intro value_read [OF ReadMem_mapped [OF mapped(1) sz]]) simp_all
  qed
qed

lemma mach_ok_memory: "mach_ok m \<Longrightarrow> length mem = 16384 \<Longrightarrow> mach_ok (m\<lparr>mainMemory := mem\<rparr>)"
  by (simp add: mach_ok_def mach_len_def table_ok_def)

lemma WriteMem_outcome:
  assumes m: "mach_ok m" and sz: "sz \<in> {1, 2, 4}"
  obtains (written) m1 where "WriteMem h va sz v m = Inr (True, m1)" "mach_ok m1" "registers m1 = registers m"
    | (exception) e mx where "WriteMem h va sz v m = rbind (handled h e mx) (\<lambda>m2. Inr (False, m2))" "exception_state m mx"
proof -
  have t: "table_ok m" "length (mainMemory m) = 16384" using m by (auto simp: mach_ok_def mach_len_def)
  show thesis
  proof (cases rule: Translate_cases [OF t(1) sz, of va True, case_names trap mapped])
    case (trap e)
    obtain mx where "RaiseException h e va m = handled h e mx" "exception_state m mx"
      using RaiseException_enters [OF mach_ok_len [OF m]] .
    with trap exception show thesis by (simp add: WriteMem_def)
  next
    case (mapped i p)
    have "nat p + length (store_bytes sz v) \<le> length (mainMemory m)"
      using mapped(7,8) t(2) length_store_bytes [OF sz] sz by auto
    then have "length (patch (mainMemory m) (nat p) (store_bytes sz v)) = 16384" using t(2) by simp
    then show thesis
      using mapped(7,8) t(2) mach_ok_set_entry(2) [OF m]
      by (intro written [OF WriteMem_mapped [OF mapped(1) sz]] mach_ok_memory) simp_all
  qed
qed

section \<open>Reading what was written, and isolation\<close>

lemma memory_update_simps [simp]:
  "entries (m\<lparr>mainMemory := mem\<rparr>) = entries m" "find_entry vpn (m\<lparr>mainMemory := mem\<rparr>) = find_entry vpn m"
  "table_ok (m\<lparr>mainMemory := mem\<rparr>) = table_ok m"
  by (simp_all add: entries_def find_entry_def table_ok_def split: option.splits)

lemma tlb_search_touch:
  "tlb_search k vpn (es[j := touch w (es ! j)]) = tlb_search k vpn es" if "j < length es"
  using that
proof (induction es arbitrary: j k)
  case (Cons e es)
  then show ?case by (cases j) auto
qed simp

lemma find_entry_touch:
  assumes "find_entry vpn m = Inr i" and "0 \<le> vpn"
  shows "find_entry vpn (set_entry i (touch w (entries m ! i)) m) = Inr i"
proof (cases "tlb m")
  case None
  with assms show ?thesis
    by (auto simp: find_entry_def set_entry_def entries_def split: option.splits if_splits)
next
  case (Some t)
  then have "i < length t" using find_entry_Inr [OF assms] by (simp add: entries_def)
  with Some assms show ?thesis
    by (auto simp: find_entry_def set_entry_def entries_def tlb_search_touch split: option.splits)
qed

lemma load_stored:
  assumes sz: "sz \<in> {1, 2, 4}" and p: "0 \<le> p" "p + sz \<le> int (length mem)"
  shows "load_value sz (patch mem (nat p) (store_bytes sz v)) p =
    (if sz = 1 then scast (ucast v :: 8 word) else if sz = 2 then ucast (ucast v :: 16 word) else v)"
proof -
  have "nat p + length (store_bytes sz v) \<le> length mem" using p length_store_bytes [OF sz] sz by auto
  from take_drop_patch [OF this] length_store_bytes [OF sz]
  have bs: "take (nat sz) (drop (nat p) (patch mem (nat p) (store_bytes sz v))) = store_bytes sz v" by simp
  have s2: "short_of [ucast v, ucast (drop_bit 8 v)] = (ucast v :: 16 word)"
    by (auto simp: short_of_def bit_simps intro!: bit_word_eqI)
  have "words_of (le32 v) = [v]" using words_of_bytes_of [of "[v]"] by (simp add: bytes_of_def)
  moreover have "sz = 1 \<or> sz = 2 \<or> sz = 4" using sz by auto
  ultimately show ?thesis unfolding load_value_def Let_def bs using s2 by (auto simp: store_bytes_def)
qed

lemma WriteMem_True:
  assumes m: "mach_ok m" and sz: "sz \<in> {1, 2, 4}" and W: "WriteMem h va sz v m = Inr (True, m1)"
  obtains i p where "find_entry (uint va div 128) m = Inr i" "aligned va sz" "\<not> readOnly (entries m ! i)"
    "frame_of (entries m ! i) < 128" "p = frame_of (entries m ! i) * 128 + uint va mod 128"
    "0 \<le> p" "p + sz \<le> 16384"
    "m1 = (set_entry i (touch True (entries m ! i)) m)\<lparr>mainMemory := patch (mainMemory m) (nat p) (store_bytes sz v)\<rparr>"
proof -
  have t: "table_ok m" "length (mainMemory m) = 16384" using m by (auto simp: mach_ok_def mach_len_def)
  show ?thesis
  proof (cases rule: Translate_cases [OF t(1) sz, of va True, case_names trap mapped])
    case (trap e)
    then show ?thesis using W by (auto simp: WriteMem_def rbind_eq_Inr)
  next
    case (mapped i p)
    then show ?thesis using W WriteMem_mapped [OF mapped(1) sz, of h v] t(2) that [of i p] by simp
  qed
qed

text \<open>A machine with two mapped pages, one of them read-only, and a handler that just returns.\<close>

definition sample_machine :: "unit Machine" where
  "sample_machine = (Machine_new None ())\<lparr>pageTable := Some
     [\<lparr>virtualPage = 0, physicalPage = 5, valid = True, readOnly = False, used = False, dirty = False\<rparr>,
      \<lparr>virtualPage = 1, physicalPage = 9, valid = True, readOnly = True, used = False, dirty = False\<rparr>]\<rparr>"

lemma sample_machine_ok: "mach_ok sample_machine"
  by (simp add: sample_machine_def Machine_new_def mach_ok_def mach_len_def table_ok_def reg_nums machine_consts)

text \<open>
  C23. A read of the address and size just written returns the value that was stored: bytes come back
  sign-extended, half words zero-extended and words unchanged, and no exception is raised.
\<close>

theorem WriteMem_then_ReadMem:
  assumes m: "mach_ok m" and sz: "sz \<in> {1, 2, 4}" and W: "WriteMem h va sz v m = Inr (True, m1)"
  shows "\<exists>m2. ReadMem h' va sz m1 = Inr (Some (if sz = 1 then scast (ucast v :: 8 word)
      else if sz = 2 then ucast (ucast v :: 16 word) else v), m2) \<and> mainMemory m2 = mainMemory m1"
proof -
  obtain i p where w: "find_entry (uint va div 128) m = Inr i" "aligned va sz" "\<not> readOnly (entries m ! i)"
    "frame_of (entries m ! i) < 128" "p = frame_of (entries m ! i) * 128 + uint va mod 128" "0 \<le> p" "p + sz \<le> 16384"
    "m1 = (set_entry i (touch True (entries m ! i)) m)\<lparr>mainMemory := patch (mainMemory m) (nat p) (store_bytes sz v)\<rparr>"
    using WriteMem_True [OF m sz W] .
  let ?m0 = "set_entry i (touch True (entries m ! i)) m"
  have t: "table_ok m" "length (mainMemory m) = 16384" using m by (auto simp: mach_ok_def mach_len_def)
  note nn = vpn_nonneg [of va]
  have i: "i < length (entries m)" by (rule find_entry_Inr(1) [OF w(1) nn])
  have e: "entries m1 ! i = touch True (entries m ! i)"
    using entries_set_entry [OF t(1)] i w(8) by simp
  have t1: "table_ok m1" using table_ok_set_entry [OF t(1)] w(8) by simp
  have f1: "find_entry (uint va div 128) m1 = Inr i"
    using find_entry_touch [OF w(1) nn, of True] w(8) by simp
  have len: "nat p + length (store_bytes sz v) \<le> length (mainMemory m)"
    using w(6,7) t(2) length_store_bytes [OF sz] sz by auto
  have "Translate va sz False m1 = Inr (Inr p, set_entry i (touch False (entries m1 ! i)) m1)"
    using Translate_mapped [OF t1 w(2) sz f1, of False] e w(4,5) by simp
  then have "ReadMem h' va sz m1 = Inr (Some (load_value sz (mainMemory m1) p),
      set_entry i (touch False (entries m1 ! i)) m1)"
    using ReadMem_mapped [of va sz m1 p _ h'] sz w(6-8) len t(2) by simp
  moreover have "load_value sz (mainMemory m1) p = (if sz = 1 then scast (ucast v :: 8 word)
      else if sz = 2 then ucast (ucast v :: 16 word) else v)"
    using load_stored [OF sz w(6), of "mainMemory m"] w(7,8) t(2) by simp
  ultimately show ?thesis by simp
qed

theorem WriteMem_then_ReadMem_witness:
  "\<exists>m1 m2. WriteMem (\<lambda>e m. Inr m) 100 4 0xdeadbeef sample_machine = Inr (True, m1)
    \<and> ReadMem (\<lambda>e m. Inr m) 100 4 m1 = Inr (Some 0xdeadbeef, m2) \<and> mainMemory m2 = mainMemory m1"
proof -
  have e: "entries sample_machine ! 0 =
      \<lparr>virtualPage = 0, physicalPage = 5, valid = True, readOnly = False, used = False, dirty = False\<rparr>"
    "find_entry (uint (100 :: 32 word) div 128) sample_machine = Inr 0" "length (mainMemory sample_machine) = 16384"
    by (simp_all add: entries_def find_entry_def sample_machine_def Machine_new_def machine_consts)
  have t: "table_ok sample_machine" "aligned 100 4"
    using sample_machine_ok by (simp_all add: mach_ok_def mach_len_def aligned_def)
  have "Translate 100 4 True sample_machine = Inr (Inr 740, set_entry 0 (touch True (entries sample_machine ! 0)) sample_machine)"
    using Translate_mapped [OF t _ e(2), of True] by (simp add: e(1) frame_of_def)
  from WriteMem_mapped [OF this, of "\<lambda>e m. Inr m" "0xdeadbeef"] e(3)
  obtain m1 where m1: "WriteMem (\<lambda>e m. Inr m) 100 4 0xdeadbeef sample_machine = Inr (True, m1)" by simp
  from WriteMem_then_ReadMem [OF sample_machine_ok _ this, of "\<lambda>e m. Inr m"] m1 show ?thesis by fastforce
qed

text \<open>
  C15. Isolation: a completed write changes only the bytes of one frame, to which a valid entry of the
  current table that is not read-only maps the page of the address.
\<close>

theorem WriteMem_isolation:
  assumes m: "mach_ok m" and sz: "sz \<in> {1, 2, 4}" and W: "WriteMem h va sz v m = Inr (True, m1)"
  shows "\<exists>i < length (entries m). valid (entries m ! i) \<and> \<not> readOnly (entries m ! i)
    \<and> frame_of (entries m ! i) < NumPhysPages
    \<and> (\<forall>q < length (mainMemory m). int q div PageSize \<noteq> frame_of (entries m ! i) \<longrightarrow>
         mainMemory m1 ! q = mainMemory m ! q)"
proof -
  obtain i p where w: "find_entry (uint va div 128) m = Inr i" "aligned va sz" "\<not> readOnly (entries m ! i)"
    "frame_of (entries m ! i) < 128" "p = frame_of (entries m ! i) * 128 + uint va mod 128" "0 \<le> p" "p + sz \<le> 16384"
    "m1 = (set_entry i (touch True (entries m ! i)) m)\<lparr>mainMemory := patch (mainMemory m) (nat p) (store_bytes sz v)\<rparr>"
    using WriteMem_True [OF m sz W] .
  have t: "length (mainMemory m) = 16384" using m by (auto simp: mach_ok_def mach_len_def)
  have i: "i < length (entries m)" "valid (entries m ! i)" using find_entry_Inr [OF w(1) vpn_nonneg] .
  have len: "nat p + length (store_bytes sz v) \<le> length (mainMemory m)"
    using w(6,7) t length_store_bytes [OF sz] sz by auto
  have "mainMemory m1 ! q = mainMemory m ! q"
    if q: "q < length (mainMemory m)" "int q div 128 \<noteq> frame_of (entries m ! i)" for q
  proof -
    have "\<not> (nat p \<le> q \<and> q < nat p + length (store_bytes sz v))"
    proof
      assume a: "nat p \<le> q \<and> q < nat p + length (store_bytes sz v)"
      let ?f = "frame_of (entries m ! i)"
      have "p + sz \<le> ?f * 128 + 128" "?f * 128 \<le> p" using aligned_offset [OF w(2) sz] w(5) by simp_all
      then have "?f * 128 \<le> int q" "int q < ?f * 128 + 128"
        using a length_store_bytes [OF sz] sz w(6) by auto
      then show False using q(2) by linarith
    qed
    then show ?thesis using nth_patch [OF len q(1)] w(8) by (simp only: if_False) simp
  qed
  then show ?thesis using i w(3,4) by (auto simp: machine_consts)
qed

theorem WriteMem_isolation_witness:
  "\<exists>m1. WriteMem (\<lambda>e m. Inr m) 100 4 7 sample_machine = Inr (True, m1)
    \<and> (\<exists>i < length (entries sample_machine). valid (entries sample_machine ! i)
      \<and> \<not> readOnly (entries sample_machine ! i) \<and> frame_of (entries sample_machine ! i) < NumPhysPages
      \<and> (\<forall>q < length (mainMemory sample_machine). int q div PageSize \<noteq> frame_of (entries sample_machine ! i) \<longrightarrow>
         mainMemory m1 ! q = mainMemory sample_machine ! q))"
proof -
  have e: "entries sample_machine ! 0 =
      \<lparr>virtualPage = 0, physicalPage = 5, valid = True, readOnly = False, used = False, dirty = False\<rparr>"
    "find_entry (uint (100 :: 32 word) div 128) sample_machine = Inr 0" "length (mainMemory sample_machine) = 16384"
    by (simp_all add: entries_def find_entry_def sample_machine_def Machine_new_def machine_consts)
  have t: "table_ok sample_machine" "aligned 100 4"
    using sample_machine_ok by (simp_all add: mach_ok_def mach_len_def aligned_def)
  have "Translate 100 4 True sample_machine = Inr (Inr 740, set_entry 0 (touch True (entries sample_machine ! 0)) sample_machine)"
    using Translate_mapped [OF t _ e(2), of True] by (simp add: e(1) frame_of_def)
  from WriteMem_mapped [OF this, of "\<lambda>e m. Inr m" 7] e(3)
  obtain m1 where m1: "WriteMem (\<lambda>e m. Inr m) 100 4 7 sample_machine = Inr (True, m1)" by simp
  from WriteMem_isolation [OF sample_machine_ok _ this] m1 show ?thesis by blast
qed

text \<open>
  C24. The assertions of \<open>Translate\<close> cannot fail when exactly one table is present: the result is either
  one of the exceptions of the code, with nothing changed, or a physical address of memory in the
  frame of the entry found, with that entry marked used (and dirty on a write).
\<close>

theorem Translate_total:
  assumes "table_ok m" and "sz \<in> {1, 2, 4}"
  shows "(\<exists>e. Translate va sz w m = Inr (Inl e, m)
        \<and> e \<in> {AddressErrorException, PageFaultException, ReadOnlyException, BusErrorException})
    \<or> (\<exists>i p. Translate va sz w m = Inr (Inr p, set_entry i (touch w (entries m ! i)) m)
        \<and> find_entry (uint va div PageSize) m = Inr i \<and> p div PageSize = frame_of (entries m ! i)
        \<and> p mod PageSize = uint va mod PageSize \<and> 0 \<le> p \<and> p + sz \<le> MemorySize)"
proof (cases rule: Translate_cases [OF assms, of va w, case_names trap mapped])
  case (trap e)
  then show ?thesis by (cases e) (auto simp: Translate_def find_entry_def Let_def ASSERT_def
        split: if_splits option.splits sum.splits)
next
  case (mapped i p)
  then have "p div 128 = frame_of (entries m ! i)" "p mod 128 = uint va mod 128" by simp_all
  then show ?thesis using mapped by (auto simp: machine_consts)
qed

theorem Translate_total_witness:
  "(\<exists>e. Translate 200 2 True sample_machine = Inr (Inl e, sample_machine)
        \<and> e \<in> {AddressErrorException, PageFaultException, ReadOnlyException, BusErrorException})
    \<or> (\<exists>i p. Translate 200 2 True sample_machine =
          Inr (Inr p, set_entry i (touch True (entries sample_machine ! i)) sample_machine)
        \<and> find_entry (uint (200 :: 32 word) div PageSize) sample_machine = Inr i
        \<and> p div PageSize = frame_of (entries sample_machine ! i)
        \<and> p mod PageSize = uint (200 :: 32 word) mod PageSize \<and> 0 \<le> p \<and> p + 2 \<le> MemorySize)"
  by (rule Translate_total) (use sample_machine_ok in \<open>simp_all add: mach_ok_def mach_len_def\<close>)

end
