(* ===== verification/Mips.thy ===== *)
theory Mips
  imports Machine
begin

text \<open>
  The MIPS instruction interpreter (\<^verbatim>\<open>machine/mipssim.cc\<close>, \<^verbatim>\<open>mipssim.h\<close>): decoding, multiplication and the
  execution of one instruction. The \<^verbatim>\<open>switch\<close> of \<^verbatim>\<open>OneInstruction\<close> is cut into consecutive pieces of its
  cases, each falling through to the next. A piece returns \<open>None\<close> where the code returns from
  \<^verbatim>\<open>OneInstruction\<close> after an exception, and otherwise the new \<open>pcAfter\<close> and the delayed load. On the
  host, \<^verbatim>\<open>>>\<close> of an \<^verbatim>\<open>int\<close> is an arithmetic shift, \<^verbatim>\<open>char\<close> is signed, and \<^verbatim>\<open>INT_MIN / -1\<close> traps.
\<close>

section \<open>Operation codes\<close>

datatype (plugins only: code) OpCode = OP_ADD | OP_ADDI | OP_ADDIU | OP_ADDU | OP_AND | OP_ANDI | OP_BEQ | OP_BGEZ | OP_BGEZAL
  | OP_BGTZ | OP_BLEZ | OP_BLTZ | OP_BLTZAL | OP_BNE | OP_DIV | OP_DIVU | OP_J | OP_JAL | OP_JALR | OP_JR
  | OP_LB | OP_LBU | OP_LH | OP_LHU | OP_LUI | OP_LW | OP_LWL | OP_LWR | OP_MFHI | OP_MFLO | OP_MTHI
  | OP_MTLO | OP_MULT | OP_MULTU | OP_NOR | OP_OR | OP_ORI | OP_RFE | OP_SB | OP_SH | OP_SLL | OP_SLLV
  | OP_SLT | OP_SLTI | OP_SLTIU | OP_SLTU | OP_SRA | OP_SRAV | OP_SRL | OP_SRLV | OP_SUB | OP_SUBU
  | OP_SW | OP_SWL | OP_SWR | OP_XOR | OP_XORI | OP_SYSCALL | OP_UNIMP | OP_RES | SPECIAL | BCOND

datatype Format = IFMT | JFMT | RFMT

definition opTable :: "(OpCode \<times> Format) list" where
  "opTable = [
    (SPECIAL, RFMT), (BCOND, IFMT), (OP_J, JFMT), (OP_JAL, JFMT),
    (OP_BEQ, IFMT), (OP_BNE, IFMT), (OP_BLEZ, IFMT), (OP_BGTZ, IFMT),
    (OP_ADDI, IFMT), (OP_ADDIU, IFMT), (OP_SLTI, IFMT), (OP_SLTIU, IFMT),
    (OP_ANDI, IFMT), (OP_ORI, IFMT), (OP_XORI, IFMT), (OP_LUI, IFMT),
    (OP_UNIMP, IFMT), (OP_UNIMP, IFMT), (OP_UNIMP, IFMT), (OP_UNIMP, IFMT),
    (OP_RES, IFMT), (OP_RES, IFMT), (OP_RES, IFMT), (OP_RES, IFMT),
    (OP_RES, IFMT), (OP_RES, IFMT), (OP_RES, IFMT), (OP_RES, IFMT),
    (OP_RES, IFMT), (OP_RES, IFMT), (OP_RES, IFMT), (OP_RES, IFMT),
    (OP_LB, IFMT), (OP_LH, IFMT), (OP_LWL, IFMT), (OP_LW, IFMT),
    (OP_LBU, IFMT), (OP_LHU, IFMT), (OP_LWR, IFMT), (OP_RES, IFMT),
    (OP_SB, IFMT), (OP_SH, IFMT), (OP_SWL, IFMT), (OP_SW, IFMT),
    (OP_RES, IFMT), (OP_RES, IFMT), (OP_SWR, IFMT), (OP_RES, IFMT),
    (OP_UNIMP, IFMT), (OP_UNIMP, IFMT), (OP_UNIMP, IFMT), (OP_UNIMP, IFMT),
    (OP_RES, IFMT), (OP_RES, IFMT), (OP_RES, IFMT), (OP_RES, IFMT),
    (OP_UNIMP, IFMT), (OP_UNIMP, IFMT), (OP_UNIMP, IFMT), (OP_UNIMP, IFMT),
    (OP_RES, IFMT), (OP_RES, IFMT), (OP_RES, IFMT), (OP_RES, IFMT)]"

definition specialTable :: "OpCode list" where
  "specialTable = [
    OP_SLL, OP_RES, OP_SRL, OP_SRA, OP_SLLV, OP_RES, OP_SRLV, OP_SRAV,
    OP_JR, OP_JALR, OP_RES, OP_RES, OP_SYSCALL, OP_UNIMP, OP_RES, OP_RES,
    OP_MFHI, OP_MTHI, OP_MFLO, OP_MTLO, OP_RES, OP_RES, OP_RES, OP_RES,
    OP_MULT, OP_MULTU, OP_DIV, OP_DIVU, OP_RES, OP_RES, OP_RES, OP_RES,
    OP_ADD, OP_ADDU, OP_SUB, OP_SUBU, OP_AND, OP_OR, OP_XOR, OP_NOR,
    OP_RES, OP_RES, OP_SLT, OP_SLTU, OP_RES, OP_RES, OP_RES, OP_RES,
    OP_RES, OP_RES, OP_RES, OP_RES, OP_RES, OP_RES, OP_RES, OP_RES,
    OP_RES, OP_RES, OP_RES, OP_RES, OP_RES, OP_RES, OP_RES, OP_RES]"

section \<open>Decoding\<close>

record Instruction =
  ivalue :: "32 word" \<comment> \<open>\<^verbatim>\<open>value\<close>\<close>
  opCode :: OpCode
  rs :: nat
  rt :: nat
  rd :: nat
  extra :: "32 word"

definition Instruction_Decode :: "32 word \<Rightarrow> Instruction" where
  "Instruction_Decode v =
     (let opPtr = opTable ! unat (drop_bit 26 v AND 0x3f);
          op0 = fst opPtr;
          ex = (case snd opPtr of
                  IFMT \<Rightarrow> let e = v AND 0xffff in if e AND 0x8000 \<noteq> 0 then e OR 0xffff0000 else e
                | RFMT \<Rightarrow> drop_bit 6 v AND 0x1f
                | JFMT \<Rightarrow> v AND 0x3ffffff);
          op = (if op0 = SPECIAL then specialTable ! unat (v AND 0x3f)
                else if op0 = BCOND then
                  let i = v AND 0x1f0000 in
                  if i = 0 then OP_BLTZ else if i = 0x10000 then OP_BGEZ
                  else if i = 0x100000 then OP_BLTZAL else if i = 0x110000 then OP_BGEZAL
                  else OP_UNIMP
                else op0)
      in \<lparr>ivalue = v, opCode = op, rs = unat (drop_bit 21 v AND 0x1f), rt = unat (drop_bit 16 v AND 0x1f),
          rd = unat (drop_bit 11 v AND 0x1f), extra = ex\<rparr>)"

section \<open>Multiplication\<close>

text \<open>The loop over the bits of \<open>a\<close>, with \<open>k\<close> iterations left.\<close>

fun Mult_loop :: "nat \<Rightarrow> 32 word \<Rightarrow> 32 word \<Rightarrow> 32 word \<Rightarrow> 32 word \<Rightarrow> 32 word \<Rightarrow> 32 word \<times> 32 word" where
  "Mult_loop 0 a bLo bHi lo hi = (hi, lo)"
| "Mult_loop (Suc k) a bLo bHi lo hi =
     (let (lo1, hi1) = (if a AND 1 \<noteq> 0
             then let l = lo + bLo in (l, (if l < bLo then hi + 1 else hi) + bHi)
             else (lo, hi))
      in if a AND 1 \<noteq> 0 \<and> a AND 0xfffffffe = 0 then (hi1, lo1)
         else Mult_loop k (signed_drop_bit 1 a) (push_bit 1 bLo)
                (if bLo AND 0x80000000 \<noteq> 0 then push_bit 1 bHi OR 1 else push_bit 1 bHi) lo1 hi1)"

text \<open>The pair stored through \<^verbatim>\<open>hiPtr\<close> and \<^verbatim>\<open>loPtr\<close>.\<close>

definition Mult :: "32 word \<Rightarrow> 32 word \<Rightarrow> bool \<Rightarrow> 32 word \<times> 32 word" where
  "Mult a b signedArith =
     (if a = 0 \<or> b = 0 then (0, 0)
      else
        let negA = (signedArith \<and> sint a < 0); negB = (signedArith \<and> sint b < 0);
            a1 = (if negA then - a else a); b1 = (if negB then - b else b);
            (hi, lo) = Mult_loop 32 a1 b1 0 0 0
        in if negA \<noteq> negB
           then let lo1 = NOT lo + 1 in ((if lo1 = 0 then NOT hi + 1 else NOT hi), lo1)
           else (hi, lo))"

section \<open>Executing one instruction\<close>

definition SIGN_BIT :: "32 word" where "SIGN_BIT = 0x80000000"

definition IndexToAddr :: "32 word \<Rightarrow> 32 word" where "IndexToAddr x = push_bit 2 x"

type_synonym 'k outcome = "('k Machine \<times> (32 word \<times> nat \<times> 32 word) option) res"

text \<open>Leaving the \<^verbatim>\<open>switch\<close> by \<^verbatim>\<open>break\<close>, and returning after an exception.\<close>

definition break_with :: "32 word \<Rightarrow> 'k Machine \<Rightarrow> 'k outcome" where
  "break_with pcAfter m = Inr (m, Some (pcAfter, 0, 0))"

definition trap :: "'k handler \<Rightarrow> ExceptionType \<Rightarrow> 32 word \<Rightarrow> 'k Machine \<Rightarrow> 'k outcome" where
  "trap h e bad m = rbind (RaiseException h e bad m) (\<lambda>m'. Inr (m', None))"

definition exec_syscall_res :: "'k handler \<Rightarrow> Instruction \<Rightarrow> 32 word \<Rightarrow> 'k Machine \<Rightarrow> 'k outcome" where
  "exec_syscall_res h instr pcAfter m =
     (let s = reg m (rs instr); t = reg m (rt instr) in
      case opCode instr of
        OP_SYSCALL \<Rightarrow> trap h SyscallException 0 m
      | OP_XOR \<Rightarrow> break_with pcAfter (set_reg (rd instr) (s XOR t) m)
      | OP_XORI \<Rightarrow> break_with pcAfter (set_reg (rt instr) (s XOR (extra instr AND 0xffff)) m)
      | OP_RES \<Rightarrow> trap h IllegalInstrException 0 m
      | OP_UNIMP \<Rightarrow> trap h IllegalInstrException 0 m
      | _ \<Rightarrow> Inl AssertFail)"

definition exec_sub_swr :: "'k handler \<Rightarrow> Instruction \<Rightarrow> 32 word \<Rightarrow> 'k Machine \<Rightarrow> 'k outcome" where
  "exec_sub_swr h instr pcAfter m =
     (let s = reg m (rs instr); t = reg m (rt instr); tmp = s + extra instr in
      case opCode instr of
        OP_SUB \<Rightarrow>
          let diff = s - t in
          if (s XOR t) AND SIGN_BIT \<noteq> 0 \<and> (s XOR diff) AND SIGN_BIT \<noteq> 0
          then trap h OverflowException 0 m
          else break_with pcAfter (set_reg (rd instr) diff m)
      | OP_SUBU \<Rightarrow> break_with pcAfter (set_reg (rd instr) (s - t) m)
      | OP_SW \<Rightarrow> rbind (WriteMem h tmp 4 t m) (\<lambda>(ok, m1).
          if ok then break_with pcAfter m1 else Inr (m1, None))
      | OP_SWL \<Rightarrow> ASSERT (tmp AND 3 = 0) (rbind (ReadMem h (tmp AND NOT 3) 4 m) (\<lambda>(r, m1). case r of
          None \<Rightarrow> Inr (m1, None)
        | Some v \<Rightarrow>
            let t1 = reg m1 (rt instr);
                v1 = (if tmp AND 3 = 0 then t1
                      else if tmp AND 3 = 1 then (v AND 0xff000000) OR (signed_drop_bit 8 t1 AND 0xffffff)
                      else if tmp AND 3 = 2 then (v AND 0xffff0000) OR (signed_drop_bit 16 t1 AND 0xffff)
                      else (v AND 0xffffff00) OR (signed_drop_bit 24 t1 AND 0xff))
            in rbind (WriteMem h (tmp AND NOT 3) 4 v1 m1) (\<lambda>(ok, m2).
               if ok then break_with pcAfter m2 else Inr (m2, None))))
      | OP_SWR \<Rightarrow> ASSERT (tmp AND 3 = 0) (rbind (ReadMem h (tmp AND NOT 3) 4 m) (\<lambda>(r, m1). case r of
          None \<Rightarrow> Inr (m1, None)
        | Some v \<Rightarrow>
            let t1 = reg m1 (rt instr);
                v1 = (if tmp AND 3 = 0 then (v AND 0xffffff) OR push_bit 24 t1
                      else if tmp AND 3 = 1 then (v AND 0xffff) OR push_bit 16 t1
                      else if tmp AND 3 = 2 then (v AND 0xff) OR push_bit 8 t1
                      else t1)
            in rbind (WriteMem h (tmp AND NOT 3) 4 v1 m1) (\<lambda>(ok, m2).
               if ok then break_with pcAfter m2 else Inr (m2, None))))
      | _ \<Rightarrow> exec_syscall_res h instr pcAfter m)"

definition exec_sb_srlv :: "'k handler \<Rightarrow> Instruction \<Rightarrow> 32 word \<Rightarrow> 'k Machine \<Rightarrow> 'k outcome" where
  "exec_sb_srlv h instr pcAfter m =
     (let s = reg m (rs instr); t = reg m (rt instr) in
      case opCode instr of
        OP_SB \<Rightarrow> rbind (WriteMem h (s + extra instr) 1 t m) (\<lambda>(ok, m1).
          if ok then break_with pcAfter m1 else Inr (m1, None))
      | OP_SH \<Rightarrow> rbind (WriteMem h (s + extra instr) 2 t m) (\<lambda>(ok, m1).
          if ok then break_with pcAfter m1 else Inr (m1, None))
      | OP_SLL \<Rightarrow> break_with pcAfter (set_reg (rd instr) (push_bit (unat (extra instr)) t) m)
      | OP_SLLV \<Rightarrow> break_with pcAfter (set_reg (rd instr) (push_bit (unat (s AND 0x1f)) t) m)
      | OP_SLT \<Rightarrow> break_with pcAfter (set_reg (rd instr) (if sint s < sint t then 1 else 0) m)
      | OP_SLTI \<Rightarrow> break_with pcAfter (set_reg (rt instr) (if sint s < sint (extra instr) then 1 else 0) m)
      | OP_SLTIU \<Rightarrow> break_with pcAfter (set_reg (rt instr) (if s < extra instr then 1 else 0) m)
      | OP_SLTU \<Rightarrow> break_with pcAfter (set_reg (rd instr) (if s < t then 1 else 0) m)
      | OP_SRA \<Rightarrow> break_with pcAfter (set_reg (rd instr) (signed_drop_bit (unat (extra instr)) t) m)
      | OP_SRAV \<Rightarrow> break_with pcAfter (set_reg (rd instr) (signed_drop_bit (unat (s AND 0x1f)) t) m)
      | OP_SRL \<Rightarrow> break_with pcAfter (set_reg (rd instr) (signed_drop_bit (unat (extra instr)) t) m)
      | OP_SRLV \<Rightarrow> break_with pcAfter (set_reg (rd instr) (signed_drop_bit (unat (s AND 0x1f)) t) m)
      | _ \<Rightarrow> exec_sub_swr h instr pcAfter m)"

definition exec_mfhi_ori :: "'k handler \<Rightarrow> Instruction \<Rightarrow> 32 word \<Rightarrow> 'k Machine \<Rightarrow> 'k outcome" where
  "exec_mfhi_ori h instr pcAfter m =
     (let s = reg m (rs instr); t = reg m (rt instr) in
      case opCode instr of
        OP_MFHI \<Rightarrow> break_with pcAfter (set_reg (rd instr) (reg m HiReg) m)
      | OP_MFLO \<Rightarrow> break_with pcAfter (set_reg (rd instr) (reg m LoReg) m)
      | OP_MTHI \<Rightarrow> break_with pcAfter (set_reg HiReg s m)
      | OP_MTLO \<Rightarrow> break_with pcAfter (set_reg LoReg s m)
      | OP_MULT \<Rightarrow> break_with pcAfter (let (hi, lo) = Mult s t True in set_reg LoReg lo (set_reg HiReg hi m))
      | OP_MULTU \<Rightarrow> break_with pcAfter (let (hi, lo) = Mult s t False in set_reg LoReg lo (set_reg HiReg hi m))
      | OP_NOR \<Rightarrow> break_with pcAfter (set_reg (rd instr) (NOT (s OR t)) m)
      | OP_OR \<Rightarrow> break_with pcAfter (set_reg (rd instr) (s OR s) m)
      | OP_ORI \<Rightarrow> break_with pcAfter (set_reg (rt instr) (s OR (extra instr AND 0xffff)) m)
      | _ \<Rightarrow> exec_sb_srlv h instr pcAfter m)"

text \<open>The register value that a partial load completes: the pending one, if there is one.\<close>

definition pending_load :: "Instruction \<Rightarrow> 'k Machine \<Rightarrow> 32 word" where
  "pending_load instr m = (if reg m LoadReg = of_nat (rt instr) then reg m LoadValueReg else reg m (rt instr))"

definition exec_lwl_lwr :: "'k handler \<Rightarrow> Instruction \<Rightarrow> 32 word \<Rightarrow> 'k Machine \<Rightarrow> 'k outcome" where
  "exec_lwl_lwr h instr pcAfter m =
     (let tmp = reg m (rs instr) + extra instr in
      case opCode instr of
        OP_LWL \<Rightarrow> ASSERT (tmp AND 3 = 0) (rbind (ReadMem h tmp 4 m) (\<lambda>(r, m1). case r of
          None \<Rightarrow> Inr (m1, None)
        | Some v \<Rightarrow>
            let nv = pending_load instr m1;
                nv1 = (if tmp AND 3 = 0 then v
                       else if tmp AND 3 = 1 then (nv AND 0xff) OR push_bit 8 v
                       else if tmp AND 3 = 2 then (nv AND 0xffff) OR push_bit 16 v
                       else (nv AND 0xffffff) OR push_bit 24 v)
            in Inr (m1, Some (pcAfter, rt instr, nv1))))
      | OP_LWR \<Rightarrow> ASSERT (tmp AND 3 = 0) (rbind (ReadMem h tmp 4 m) (\<lambda>(r, m1). case r of
          None \<Rightarrow> Inr (m1, None)
        | Some v \<Rightarrow>
            let nv = pending_load instr m1;
                nv1 = (if tmp AND 3 = 0 then (nv AND 0xffffff00) OR (signed_drop_bit 24 v AND 0xff)
                       else if tmp AND 3 = 1 then (nv AND 0xffff0000) OR (signed_drop_bit 16 v AND 0xffff)
                       else if tmp AND 3 = 2 then (nv AND 0xff000000) OR (signed_drop_bit 8 v AND 0xffffff)
                       else v)
            in Inr (m1, Some (pcAfter, rt instr, nv1))))
      | _ \<Rightarrow> exec_mfhi_ori h instr pcAfter m)"

definition exec_lb_lw :: "'k handler \<Rightarrow> Instruction \<Rightarrow> 32 word \<Rightarrow> 'k Machine \<Rightarrow> 'k outcome" where
  "exec_lb_lw h instr pcAfter m =
     (let tmp = reg m (rs instr) + extra instr;
          load = (\<lambda>sz conv. rbind (ReadMem h tmp sz m) (\<lambda>(r, m1). case r of
             None \<Rightarrow> Inr (m1, None) | Some v \<Rightarrow> Inr (m1, Some (pcAfter, rt instr, conv v))));
          byte = (\<lambda>sx v. if v AND 0x80 \<noteq> 0 \<and> sx then v OR 0xffffff00 else v AND 0xff);
          half = (\<lambda>sx v. if v AND 0x8000 \<noteq> 0 \<and> sx then v OR 0xffff0000 else v AND 0xffff)
      in
      case opCode instr of
        OP_LB \<Rightarrow> load 1 (byte True)
      | OP_LBU \<Rightarrow> load 1 (byte False)
      | OP_LH \<Rightarrow> if tmp AND 1 \<noteq> 0 then trap h AddressErrorException tmp m else load 2 (half True)
      | OP_LHU \<Rightarrow> if tmp AND 1 \<noteq> 0 then trap h AddressErrorException tmp m else load 2 (half False)
      | OP_LUI \<Rightarrow> break_with pcAfter (set_reg (rt instr) (push_bit 16 (extra instr)) m)
      | OP_LW \<Rightarrow> if tmp AND 3 \<noteq> 0 then trap h AddressErrorException tmp m else load 4 (\<lambda>v. v)
      | _ \<Rightarrow> exec_lwl_lwr h instr pcAfter m)"

definition exec_div_jr :: "'k handler \<Rightarrow> Instruction \<Rightarrow> 32 word \<Rightarrow> 'k Machine \<Rightarrow> 'k outcome" where
  "exec_div_jr h instr pcAfter m =
     (let s = reg m (rs instr); t = reg m (rt instr);
          jump = (\<lambda>m. break_with ((pcAfter AND 0xf0000000) OR IndexToAddr (extra instr)) m)
      in
      case opCode instr of
        OP_DIV \<Rightarrow>
          if t = 0 then break_with pcAfter (set_reg HiReg 0 (set_reg LoReg 0 m))
          else if s = SIGN_BIT \<and> t = - 1 then Inl DivideError
          else break_with pcAfter (set_reg HiReg (word_of_int (sint s smod sint t))
                 (set_reg LoReg (word_of_int (sint s sdiv sint t)) m))
      | OP_DIVU \<Rightarrow>
          if t = 0 then break_with pcAfter (set_reg HiReg 0 (set_reg LoReg 0 m))
          else break_with pcAfter (set_reg HiReg (s mod t) (set_reg LoReg (s div t) m))
      | OP_JAL \<Rightarrow> jump (set_reg RetAddrReg (reg m NextPCReg + 4) m)
      | OP_J \<Rightarrow> jump m
      | OP_JALR \<Rightarrow> let m1 = set_reg (rd instr) (reg m NextPCReg + 4) m in break_with (reg m1 (rs instr)) m1
      | OP_JR \<Rightarrow> break_with s m
      | _ \<Rightarrow> exec_lb_lw h instr pcAfter m)"

definition exec_add_bne :: "'k handler \<Rightarrow> Instruction \<Rightarrow> 32 word \<Rightarrow> 'k Machine \<Rightarrow> 'k outcome" where
  "exec_add_bne h instr pcAfter m =
     (let s = reg m (rs instr); t = reg m (rt instr); x = extra instr;
          branch = (\<lambda>m c. break_with (if c then reg m NextPCReg + IndexToAddr x else pcAfter) m);
          link = set_reg RetAddrReg (reg m NextPCReg + 4) m
      in
      case opCode instr of
        OP_ADD \<Rightarrow>
          let sum = s + t in
          if \<not> (s XOR t) AND SIGN_BIT \<noteq> 0 \<and> (s XOR sum) AND SIGN_BIT \<noteq> 0
          then trap h OverflowException 0 m
          else break_with pcAfter (set_reg (rd instr) sum m)
      | OP_ADDI \<Rightarrow>
          let sum = s + x in
          if \<not> (s XOR x) AND SIGN_BIT \<noteq> 0 \<and> (x XOR sum) AND SIGN_BIT \<noteq> 0
          then trap h OverflowException 0 m
          else break_with pcAfter (set_reg (rt instr) sum m)
      | OP_ADDIU \<Rightarrow> break_with pcAfter (set_reg (rt instr) (s + x) m)
      | OP_ADDU \<Rightarrow> break_with pcAfter (set_reg (rd instr) (s + t) m)
      | OP_AND \<Rightarrow> break_with pcAfter (set_reg (rd instr) (s AND t) m)
      | OP_ANDI \<Rightarrow> break_with pcAfter (set_reg (rt instr) (s AND (x AND 0xffff)) m)
      | OP_BEQ \<Rightarrow> branch m (s = t)
      | OP_BGEZAL \<Rightarrow> branch link (\<not> reg link (rs instr) AND SIGN_BIT \<noteq> 0)
      | OP_BGEZ \<Rightarrow> branch m (\<not> s AND SIGN_BIT \<noteq> 0)
      | OP_BGTZ \<Rightarrow> branch m (sint s > 0)
      | OP_BLEZ \<Rightarrow> branch m (sint s \<le> 0)
      | OP_BLTZAL \<Rightarrow> branch link (reg link (rs instr) AND SIGN_BIT \<noteq> 0)
      | OP_BLTZ \<Rightarrow> branch m (s AND SIGN_BIT \<noteq> 0)
      | OP_BNE \<Rightarrow> branch m (s \<noteq> t)
      | _ \<Rightarrow> exec_div_jr h instr pcAfter m)"

definition OneInstruction :: "'k handler \<Rightarrow> 'k Machine \<Rightarrow> 'k Machine res" where
  "OneInstruction h m =
     rbind (ReadMem h (reg m PCReg) 4 m) (\<lambda>(r, m1). case r of
       None \<Rightarrow> Inr m1
     | Some raw \<Rightarrow>
         rbind (exec_add_bne h (Instruction_Decode raw) (reg m1 NextPCReg + 4) m1) (\<lambda>(m2, next_step).
           case next_step of
             None \<Rightarrow> Inr m2
           | Some (pcAfter, nextLoadReg, nextLoadValue) \<Rightarrow>
               rbind (DelayedLoad nextLoadReg nextLoadValue m2) (\<lambda>m3.
               let m4 = set_reg PrevPCReg (reg m3 PCReg) m3;
                   m5 = set_reg PCReg (reg m4 NextPCReg) m4
               in Inr (set_reg NextPCReg pcAfter m5))))"

lemmas exec_defs = exec_add_bne_def exec_div_jr_def exec_lb_lw_def exec_lwl_lwr_def exec_mfhi_ori_def
  exec_sb_srlv_def exec_sub_swr_def exec_syscall_res_def

section \<open>Decoding yields instructions that the interpreter handles\<close>

definition instr_ok :: "Instruction \<Rightarrow> bool" where
  "instr_ok i \<longleftrightarrow> rs i < 32 \<and> rt i < 32 \<and> rd i < 32 \<and> opCode i \<notin> {SPECIAL, BCOND, OP_RFE}"

lemma unat_and_le: "unat ((w :: 32 word) AND k) \<le> unat k"
  by (simp add: word_and_le1 word_le_nat_alt [symmetric])

lemma opTable_nth: "i < 64 \<Longrightarrow> fst (opTable ! i) \<noteq> OP_RFE"
proof -
  have "length opTable = 64" "list_all (\<lambda>p. fst p \<noteq> OP_RFE) opTable" by (simp_all add: opTable_def)
  then show "i < 64 \<Longrightarrow> fst (opTable ! i) \<noteq> OP_RFE" by (simp add: list_all_length)
qed

lemma specialTable_nth: "i < 64 \<Longrightarrow> specialTable ! i \<notin> {SPECIAL, BCOND, OP_RFE}"
proof -
  have "length specialTable = 64" "list_all (\<lambda>x. x \<notin> {SPECIAL, BCOND, OP_RFE}) specialTable"
    by (simp_all add: specialTable_def)
  then show "i < 64 \<Longrightarrow> specialTable ! i \<notin> {SPECIAL, BCOND, OP_RFE}" by (simp add: list_all_length)
qed

lemma Decode_ok: "instr_ok (Instruction_Decode v)"
proof -
  have "unat (w AND 0x1f) < 32" "unat (w AND 0x3f) < 64" for w :: "32 word"
    using unat_and_le [of w "0x1f"] unat_and_le [of w "0x3f"] by simp_all
  then show ?thesis
    using opTable_nth [of "unat (drop_bit 26 v AND 0x3f)"] specialTable_nth [of "unat (v AND 0x3f)"]
    by (simp add: instr_ok_def Instruction_Decode_def Let_def)
qed

section \<open>Every instruction runs to its end\<close>

text \<open>The cases in which the simulator itself stops: unaligned partial accesses, and the quotient that overflows.\<close>

definition stops_simulator :: "Instruction \<Rightarrow> 'k Machine \<Rightarrow> bool" where
  "stops_simulator i m \<longleftrightarrow>
     (opCode i \<in> {OP_LWL, OP_LWR, OP_SWL, OP_SWR} \<and> (reg m (rs i) + extra i) AND 3 \<noteq> 0)
   \<or> (opCode i = OP_DIV \<and> reg m (rs i) = SIGN_BIT \<and> reg m (rt i) = - 1)"

text \<open>
  An instruction either leaves the \<^verbatim>\<open>switch\<close> with the program counters as they were, or has raised exactly
  one exception before it changed anything.
\<close>

definition exec_good :: "'k handler \<Rightarrow> 'k Machine \<Rightarrow> 'k outcome \<Rightarrow> bool" where
  "exec_good h m r \<longleftrightarrow>
     (\<exists>m' pc k v. r = Inr (m', Some (pc, k, v)) \<and> mach_len m' \<and> k < 32
        \<and> reg m' PCReg = reg m PCReg \<and> reg m' NextPCReg = reg m NextPCReg)
   \<or> (\<exists>e mx. r = rbind (handled h e mx) (\<lambda>m'. Inr (m', None)) \<and> exception_state m mx)"

lemma exec_good_exception:
  "exception_state m mx \<Longrightarrow> r = rbind (handled h e mx) (\<lambda>m'. Inr (m', None)) \<Longrightarrow> exec_good h m r"
  by (auto simp: exec_good_def)

lemma exec_good_done:
  "mach_len m' \<Longrightarrow> k < 32 \<Longrightarrow> registers m' = registers m \<Longrightarrow> exec_good h m (Inr (m', Some (pc, k, v)))"
  by (auto simp: exec_good_def reg_def)

lemma jump_good: "mach_ok m \<Longrightarrow> exec_good h m (break_with pc m)"
  by (simp add: break_with_def exec_good_done mach_ok_len)

lemma set_gp_reg: "mach_len m \<Longrightarrow> i < 37 \<Longrightarrow> mach_len (set_reg i v m)"
  by (rule mach_len_set_reg) (simp_all add: LoadReg_def)

lemma write_good: "mach_ok m \<Longrightarrow> i < 34 \<Longrightarrow> exec_good h m (break_with pc (set_reg i v m))"
  using set_gp_reg [OF mach_ok_len, of m i v]
  by (auto simp: exec_good_def break_with_def reg_def reg_nums)

lemma write2_good: "mach_ok m \<Longrightarrow> i < 34 \<Longrightarrow> j < 34 \<Longrightarrow> exec_good h m (break_with pc (set_reg j w (set_reg i v m)))"
  using set_gp_reg [OF set_gp_reg [OF mach_ok_len, of m i v], of j w]
  by (auto simp: exec_good_def break_with_def reg_def reg_nums)

lemma trap_good: "mach_ok m \<Longrightarrow> exec_good h m (trap h e bad m)"
  by (rule RaiseException_enters [OF mach_ok_len, of m h e bad]) (auto simp: trap_def intro: exec_good_exception)

lemma load_good:
  assumes "mach_ok m" and "sz \<in> {1, 2, 4}" and "k < 32"
  shows "exec_good h m (rbind (ReadMem h va sz m) (\<lambda>(r, m1). case r of
     None \<Rightarrow> Inr (m1, None) | Some v \<Rightarrow> Inr (m1, Some (pc, k, f m1 v))))"
proof (cases rule: ReadMem_outcome [OF assms(1,2), of h va, case_names value_read exception])
  case (value_read v m1)
  then show ?thesis using assms(3) exec_good_done [OF mach_ok_len] by simp
next
  case (exception e mx)
  then show ?thesis by (intro exec_good_exception [of m mx]) (simp_all add: rbind_assoc)
qed

lemma store_good:
  assumes "mach_ok m" and "sz \<in> {1, 2, 4}"
  shows "exec_good h m (rbind (WriteMem h va sz v m) (\<lambda>(ok, m1).
     if ok then break_with pc m1 else Inr (m1, None)))"
proof (cases rule: WriteMem_outcome [OF assms, of h va v, case_names written exception])
  case (written m1)
  then show ?thesis by (simp add: break_with_def exec_good_done mach_ok_len)
next
  case (exception e mx)
  then show ?thesis by (intro exec_good_exception [of m mx]) (simp_all add: rbind_assoc)
qed

lemma exec_good_cong:
  "exec_good h m1 r \<Longrightarrow> registers m1 = registers m \<Longrightarrow> mainMemory m1 = mainMemory m \<Longrightarrow> kernel m1 = kernel m \<Longrightarrow>
   exec_good h m r"
  unfolding exec_good_def by (auto simp: reg_def dest: exception_state_cong)

lemma partial_store_good:
  assumes "mach_ok m"
  shows "exec_good h m (rbind (ReadMem h va 4 m) (\<lambda>(r, m1). case r of None \<Rightarrow> Inr (m1, None)
     | Some v \<Rightarrow> rbind (WriteMem h vb 4 (f m1 v) m1) (\<lambda>(ok, m2).
         if ok then break_with pc m2 else Inr (m2, None))))"
proof -
  have four: "(4 :: int) \<in> {1, 2, 4}" by simp
  show ?thesis
  proof (cases rule: ReadMem_outcome [OF assms four, of h va, case_names value_read exception])
    case (value_read v m1)
    then show ?thesis using exec_good_cong [OF store_good [OF value_read(2) four]] by simp
  next
    case (exception e mx)
    then show ?thesis by (intro exec_good_exception [of m mx]) (simp_all add: rbind_assoc)
  qed
qed

lemmas exec_good_simps = write_good write2_good jump_good
lemmas exec_good_intros = trap_good store_good partial_store_good load_good

lemma exec_syscall_res_good:
  assumes "mach_ok m" "instr_ok i" "opCode i \<in> {OP_SYSCALL, OP_XOR, OP_XORI, OP_RES, OP_UNIMP}"
  shows "exec_good h m (exec_syscall_res h i pc m)"
  using assms by (auto simp: exec_syscall_res_def Let_def instr_ok_def exec_good_simps intro!: exec_good_intros)

lemma exec_sub_swr_good:
  assumes m: "mach_ok m" and i: "instr_ok i" and st: "\<not> stops_simulator i m"
    and op: "opCode i \<in> {OP_SUB, OP_SUBU, OP_SW, OP_SWL, OP_SWR}"
  shows "exec_good h m (exec_sub_swr h i pc m)"
  using op m i st unfolding exec_sub_swr_def Let_def
  by (auto simp: instr_ok_def stops_simulator_def exec_good_simps intro!: exec_good_intros)

lemma exec_sb_srlv_good:
  assumes m: "mach_ok m" and i: "instr_ok i"
    and op: "opCode i \<in> {OP_SB, OP_SH, OP_SLL, OP_SLLV, OP_SLT, OP_SLTI, OP_SLTIU, OP_SLTU, OP_SRA, OP_SRAV, OP_SRL, OP_SRLV}"
  shows "exec_good h m (exec_sb_srlv h i pc m)"
  using op m i by (auto simp: exec_sb_srlv_def Let_def instr_ok_def exec_good_simps intro!: exec_good_intros)

lemma exec_mfhi_ori_good:
  assumes m: "mach_ok m" and i: "instr_ok i"
    and op: "opCode i \<in> {OP_MFHI, OP_MFLO, OP_MTHI, OP_MTLO, OP_MULT, OP_MULTU, OP_NOR, OP_OR, OP_ORI}"
  shows "exec_good h m (exec_mfhi_ori h i pc m)"
  using op m i by (auto simp: exec_mfhi_ori_def Let_def instr_ok_def HiReg_def LoReg_def exec_good_simps
      split: prod.splits intro!: exec_good_intros)

lemma exec_lwl_lwr_good:
  assumes m: "mach_ok m" and i: "instr_ok i" and st: "\<not> stops_simulator i m"
    and op: "opCode i \<in> {OP_LWL, OP_LWR}"
  shows "exec_good h m (exec_lwl_lwr h i pc m)"
  using op m i st unfolding exec_lwl_lwr_def Let_def
  by (auto simp: instr_ok_def stops_simulator_def intro!: load_good)

lemma exec_lb_lw_good:
  assumes m: "mach_ok m" and i: "instr_ok i"
    and op: "opCode i \<in> {OP_LB, OP_LBU, OP_LH, OP_LHU, OP_LUI, OP_LW}"
  shows "exec_good h m (exec_lb_lw h i pc m)"
  using op m i by (auto simp: exec_lb_lw_def Let_def instr_ok_def exec_good_simps intro!: exec_good_intros)

lemma exec_div_jr_good:
  assumes m: "mach_ok m" and i: "instr_ok i" and st: "\<not> stops_simulator i m"
    and op: "opCode i \<in> {OP_DIV, OP_DIVU, OP_J, OP_JAL, OP_JALR, OP_JR}"
  shows "exec_good h m (exec_div_jr h i pc m)"
  using op m i st
  by (auto simp: exec_div_jr_def Let_def instr_ok_def stops_simulator_def HiReg_def LoReg_def RetAddrReg_def
      exec_good_simps intro!: exec_good_intros)

lemma exec_add_bne_good:
  assumes m: "mach_ok m" and i: "instr_ok i"
    and op: "opCode i \<in> {OP_ADD, OP_ADDI, OP_ADDIU, OP_ADDU, OP_AND, OP_ANDI, OP_BEQ, OP_BGEZ, OP_BGEZAL, OP_BGTZ,
      OP_BLEZ, OP_BLTZ, OP_BLTZAL, OP_BNE}"
  shows "exec_good h m (exec_add_bne h i pc m)"
  using op m i by (auto simp: exec_add_bne_def Let_def instr_ok_def RetAddrReg_def exec_good_simps intro!: trap_good)

text \<open>The pieces of the \<^verbatim>\<open>switch\<close> and the cases that each hands on.\<close>

lemma exec_fall_through:
  "opCode i \<notin> {OP_ADD, OP_ADDI, OP_ADDIU, OP_ADDU, OP_AND, OP_ANDI, OP_BEQ, OP_BGEZ, OP_BGEZAL, OP_BGTZ,
      OP_BLEZ, OP_BLTZ, OP_BLTZAL, OP_BNE} \<Longrightarrow> exec_add_bne h i pc m = exec_div_jr h i pc m"
  "opCode i \<notin> {OP_DIV, OP_DIVU, OP_J, OP_JAL, OP_JALR, OP_JR} \<Longrightarrow> exec_div_jr h i pc m = exec_lb_lw h i pc m"
  "opCode i \<notin> {OP_LB, OP_LBU, OP_LH, OP_LHU, OP_LUI, OP_LW} \<Longrightarrow> exec_lb_lw h i pc m = exec_lwl_lwr h i pc m"
  "opCode i \<notin> {OP_LWL, OP_LWR} \<Longrightarrow> exec_lwl_lwr h i pc m = exec_mfhi_ori h i pc m"
  "opCode i \<notin> {OP_MFHI, OP_MFLO, OP_MTHI, OP_MTLO, OP_MULT, OP_MULTU, OP_NOR, OP_OR, OP_ORI} \<Longrightarrow>
     exec_mfhi_ori h i pc m = exec_sb_srlv h i pc m"
  "opCode i \<notin> {OP_SB, OP_SH, OP_SLL, OP_SLLV, OP_SLT, OP_SLTI, OP_SLTIU, OP_SLTU, OP_SRA, OP_SRAV, OP_SRL, OP_SRLV} \<Longrightarrow>
     exec_sb_srlv h i pc m = exec_sub_swr h i pc m"
  "opCode i \<notin> {OP_SUB, OP_SUBU, OP_SW, OP_SWL, OP_SWR} \<Longrightarrow>
     exec_sub_swr h i pc m = exec_syscall_res h i pc m"
  by (cases "opCode i"; simp add: exec_add_bne_def exec_div_jr_def exec_lb_lw_def exec_lwl_lwr_def exec_mfhi_ori_def
      exec_sb_srlv_def exec_sub_swr_def Let_def)+

lemma exec_total:
  assumes m: "mach_ok m" and i: "instr_ok i" and st: "\<not> stops_simulator i m"
  shows "exec_good h m (exec_add_bne h i pc m)"
proof -
  have g: "exec_good h m (exec_add_bne h i pc m)" if "opCode i \<in> {OP_SYSCALL, OP_XOR, OP_XORI, OP_RES, OP_UNIMP}"
    using exec_syscall_res_good [OF m i that] that exec_fall_through [of i h pc m] by auto
  moreover have "opCode i \<notin> {SPECIAL, BCOND, OP_RFE}" using i by (simp add: instr_ok_def)
  ultimately show ?thesis
    using exec_add_bne_good [OF m i] exec_div_jr_good [OF m i st] exec_lb_lw_good [OF m i]
      exec_lwl_lwr_good [OF m i st] exec_mfhi_ori_good [OF m i] exec_sb_srlv_good [OF m i]
      exec_sub_swr_good [OF m i st] exec_fall_through [of i h pc m]
    by (cases "opCode i") simp_all
qed

end
