(* ===== verification/User_Memory.thy ===== *)
theory User_Memory
  imports Machine
begin

text \<open>
  The transfers between the kernel and the memory of a user program (\<^verbatim>\<open>userprog/user.cc\<close>): strings and
  buffers are read and written one byte at a time through the translation of the machine. Addresses
  are 32-bit words, kernel buffers are lists of bytes with checked access, and \<open>h\<close> is the kernel's exception
  handler. The code ignores the result of \<^verbatim>\<open>ReadMem\<close> and \<^verbatim>\<open>WriteMem\<close>: after an exception \<^verbatim>\<open>value\<close> is what it was.
\<close>

section \<open>user.cc\<close>

definition value_after :: "32 word option \<Rightarrow> 32 word \<Rightarrow> 32 word" where
  "value_after r old = (case r of None \<Rightarrow> old | Some v \<Rightarrow> v)"

function (sequential) read_str_loop ::
  "'k handler \<Rightarrow> 32 word \<Rightarrow> int \<Rightarrow> 32 word \<Rightarrow> byte list \<Rightarrow> 'k Machine \<Rightarrow> (byte list \<times> 'k Machine) res" where
  "read_str_loop h usrAddr i v outStr m =
     (if (ucast v :: byte) = 0 then rbind (aput outStr i 0) (\<lambda>out1. Inr (out1, m))
      else
        rbind (aput outStr i (ucast v)) (\<lambda>out1.
        rbind (ReadMem h (usrAddr + of_int (i + 1)) 1 m) (\<lambda>(r, m1).
        read_str_loop h usrAddr (i + 1) (value_after r v) out1 m1)))"
  by pat_completeness auto

termination
  by (relation "measure (\<lambda>(h, a, i, v, out, m). nat (int (length out) - i))") (auto simp: aput_eq_Inr)

definition readStrFromUsr :: "'k handler \<Rightarrow> 32 word \<Rightarrow> byte list \<Rightarrow> 'k Machine \<Rightarrow> (byte list \<times> 'k Machine) res" where
  "readStrFromUsr h usrAddr outStr m =
     rbind (ReadMem h usrAddr 1 m) (\<lambda>(r, m1). read_str_loop h usrAddr 0 (value_after r 1) outStr m1)"

text \<open>
  The two loops of \<^verbatim>\<open>readStrFromUsrSpecial\<close>; the first one does not end when every byte is a separator.
\<close>

partial_function (option) skip_loop ::
  "'k handler \<Rightarrow> byte \<Rightarrow> 32 word \<Rightarrow> 32 word \<Rightarrow> 'k Machine \<Rightarrow> (32 word \<times> 32 word \<times> 'k Machine) res option" where
  "skip_loop h sep nextAddr v m =
     (if (ucast v :: byte) = sep
      then (case ReadMem h nextAddr 1 m of Inl f \<Rightarrow> Some (Inl f)
            | Inr (r, m1) \<Rightarrow> skip_loop h sep (nextAddr + 1) (value_after r v) m1)
      else Some (Inr (nextAddr, v, m)))"

function (sequential) special_loop ::
  "'k handler \<Rightarrow> byte \<Rightarrow> 32 word \<Rightarrow> int \<Rightarrow> 32 word \<Rightarrow> byte list \<Rightarrow> 'k Machine \<Rightarrow> (32 word \<times> byte list \<times> 'k Machine) res" where
  "special_loop h sep nextAddr i v outStr m =
     (if (ucast v :: byte) \<noteq> 0 \<and> (ucast v :: byte) \<noteq> sep
      then
        rbind (aput outStr i (ucast v)) (\<lambda>out1.
        rbind (ReadMem h nextAddr 1 m) (\<lambda>(r, m1).
        special_loop h sep (nextAddr + 1) (i + 1) (value_after r v) out1 m1))
      else rbind (aput outStr i 0) (\<lambda>out1. Inr (nextAddr, out1, m)))"
  by pat_completeness auto

termination
  by (relation "measure (\<lambda>(h, d, a, i, v, out, m). nat (int (length out) - i))") (auto simp: aput_eq_Inr)

definition readStrFromUsrSpecial ::
  "'k handler \<Rightarrow> 32 word \<Rightarrow> byte list \<Rightarrow> byte \<Rightarrow> 'k Machine \<Rightarrow> (32 word \<times> byte list \<times> 'k Machine) res option" where
  "readStrFromUsrSpecial h usrAddr outStr sep m =
     (case ReadMem h usrAddr 1 m of Inl f \<Rightarrow> Some (Inl f)
      | Inr (r, m1) \<Rightarrow>
          (case skip_loop h sep (usrAddr + 1) (value_after r 1) m1 of
             None \<Rightarrow> None
           | Some x \<Rightarrow> Some (rbind x (\<lambda>(nextAddr, v, m2). special_loop h sep nextAddr 0 v outStr m2))))"

fun read_buff_from ::
  "'k handler \<Rightarrow> 32 word \<Rightarrow> nat \<Rightarrow> nat \<Rightarrow> 32 word \<Rightarrow> byte list \<Rightarrow> 'k Machine \<Rightarrow> (byte list \<times> 'k Machine) res" where
  "read_buff_from h usrAddr i 0 v outBuff m = Inr (outBuff, m)"
| "read_buff_from h usrAddr i (Suc n) v outBuff m =
     rbind (ReadMem h (usrAddr + of_nat i) 1 m) (\<lambda>(r, m1).
     let v1 = value_after r v in
     rbind (aput outBuff (int i) (ucast v1)) (\<lambda>out1. read_buff_from h usrAddr (Suc i) n v1 out1 m1))"

definition readBuffFromUsr :: "'k handler \<Rightarrow> 32 word \<Rightarrow> byte list \<Rightarrow> int \<Rightarrow> 'k Machine \<Rightarrow> (byte list \<times> 'k Machine) res" where
  "readBuffFromUsr h usrAddr outBuff byteCount m = read_buff_from h usrAddr 0 (nat byteCount) 1 outBuff m"

fun write_str_from :: "'k handler \<Rightarrow> byte list \<Rightarrow> 32 word \<Rightarrow> 'k Machine \<Rightarrow> 'k Machine res" where
  "write_str_from h [] a m = Inl OutOfBounds"
| "write_str_from h (b # bs) a m =
     (if b \<noteq> 0 then rbind (WriteMem h a 1 (scast b) m) (\<lambda>(r, m1). write_str_from h bs (a + 1) m1) else Inr m)"

definition writeStrToUsr :: "'k handler \<Rightarrow> byte list \<Rightarrow> 32 word \<Rightarrow> 'k Machine \<Rightarrow> 'k Machine res" where
  "writeStrToUsr h str usrAddr m = write_str_from h str usrAddr m"

fun write_buff_from :: "'k handler \<Rightarrow> byte list \<Rightarrow> 32 word \<Rightarrow> nat \<Rightarrow> nat \<Rightarrow> 'k Machine \<Rightarrow> 'k Machine res" where
  "write_buff_from h buff usrAddr i 0 m = Inr m"
| "write_buff_from h buff usrAddr i (Suc n) m =
     rbind (aget buff (int i)) (\<lambda>b.
     rbind (WriteMem h (usrAddr + of_nat i) 1 (scast b) m) (\<lambda>(r, m1). write_buff_from h buff usrAddr (Suc i) n m1))"

definition writeBuffToUsr :: "'k handler \<Rightarrow> byte list \<Rightarrow> 32 word \<Rightarrow> int \<Rightarrow> 'k Machine \<Rightarrow> 'k Machine res" where
  "writeBuffToUsr h buff usrAddr byteCount m = write_buff_from h buff usrAddr 0 (nat byteCount) m"

text \<open>An exception in the kernel calls the kernel's handler, which aborts.\<close>

definition kernel_abort :: "'k handler" where
  "kernel_abort which m = Inl AssertFail"

declare read_str_loop.simps [simp del] special_loop.simps [simp del]

section \<open>The memory of a user program\<close>

text \<open>
  The memory that a program sees through its page table: a partial map from addresses to bytes.
\<close>

definition phys :: "'k Machine \<Rightarrow> 32 word \<Rightarrow> nat option" where
  "phys m a = (case find_entry (uint a div 128) m of Inl e \<Rightarrow> None
     | Inr i \<Rightarrow> if frame_of (entries m ! i) < 128 then Some (nat (frame_of (entries m ! i) * 128 + uint a mod 128)) else None)"

definition user_byte :: "'k Machine \<Rightarrow> 32 word \<Rightarrow> byte option" where
  "user_byte m a = map_option (\<lambda>p. mainMemory m ! p) (phys m a)"

definition writable :: "'k Machine \<Rightarrow> 32 word \<Rightarrow> bool" where
  "writable m a \<longleftrightarrow> phys m a \<noteq> None \<and> (\<forall>i. find_entry (uint a div 128) m = Inr i \<longrightarrow> \<not> readOnly (entries m ! i))"

text \<open>A page table that maps different pages to different frames.\<close>

definition one_to_one :: "'k Machine \<Rightarrow> bool" where
  "one_to_one m \<longleftrightarrow> (\<forall>a b p. phys m a = Some p \<longrightarrow> phys m b = Some p \<longrightarrow> a = b)"

lemma find_entry_touch_any:
  assumes "i < length (entries m)" and "0 \<le> v"
  shows "find_entry v (set_entry i (touch w (entries m ! i)) m) = find_entry v m"
proof (cases "tlb m")
  case None
  with assms show ?thesis
    by (cases "pageTable m") (auto simp: find_entry_def set_entry_def entries_def nth_list_update)
next
  case (Some t)
  with assms show ?thesis by (auto simp: find_entry_def set_entry_def entries_def tlb_search_touch split: option.splits)
qed

lemma touch_entries:
  assumes "table_ok m" and "i < length (entries m)"
  shows "frame_of (entries (set_entry i (touch w (entries m ! i)) m) ! j) = frame_of (entries m ! j)"
    "readOnly (entries (set_entry i (touch w (entries m ! i)) m) ! j) = readOnly (entries m ! j)"
  using assms by (cases "j = i"; simp add: entries_set_entry)+

text \<open>The marks that an access leaves in the table change nothing that the program can see.\<close>

lemma phys_touch:
  assumes "table_ok m" and "i < length (entries m)"
  shows "phys ((set_entry i (touch w (entries m ! i)) m)\<lparr>mainMemory := mem\<rparr>) = phys m"
    "writable ((set_entry i (touch w (entries m ! i)) m)\<lparr>mainMemory := mem\<rparr>) = writable m"
    "phys (set_entry i (touch w (entries m ! i)) m) = phys m"
    "writable (set_entry i (touch w (entries m ! i)) m) = writable m"
proof -
  have "0 \<le> uint a div 128" for a :: "32 word" by (rule vpn_nonneg)
  then show P: "phys ((set_entry i (touch w (entries m ! i)) m)\<lparr>mainMemory := mem\<rparr>) = phys m"
    "phys (set_entry i (touch w (entries m ! i)) m) = phys m"
    using find_entry_touch_any [OF assms(2)] touch_entries [OF assms]
    by (auto simp: phys_def fun_eq_iff split: sum.splits)
  show "writable ((set_entry i (touch w (entries m ! i)) m)\<lparr>mainMemory := mem\<rparr>) = writable m"
    "writable (set_entry i (touch w (entries m ! i)) m) = writable m"
    unfolding writable_def fun_eq_iff P using find_entry_touch_any [OF assms(2) vpn_nonneg] touch_entries [OF assms] by simp_all
qed

lemma phys_memory: "phys (m\<lparr>mainMemory := mem\<rparr>) = phys m"
proof -
  have "find_entry v (m\<lparr>mainMemory := mem\<rparr>) = find_entry v m" "entries (m\<lparr>mainMemory := mem\<rparr>) = entries m" for v
    by (simp_all add: find_entry_def entries_def split: option.split)
  then show ?thesis by (simp add: fun_eq_iff phys_def split: sum.split)
qed

lemma phys_SomeE:
  assumes "phys m a = Some p"
  obtains i where "find_entry (uint a div 128) m = Inr i" "frame_of (entries m ! i) < 128"
    "p = nat (frame_of (entries m ! i) * 128 + uint a mod 128)" "p < 16384" "int p = frame_of (entries m ! i) * 128 + uint a mod 128"
proof -
  obtain i where i: "find_entry (uint a div 128) m = Inr i" "frame_of (entries m ! i) < 128"
    "p = nat (frame_of (entries m ! i) * 128 + uint a mod 128)" using assms by (auto simp: phys_def split: sum.splits if_splits)
  have "0 \<le> frame_of (entries m ! i)" by (simp add: frame_of_def)
  moreover have "0 \<le> uint a mod 128" "uint a mod 128 < 128" by simp_all
  ultimately show thesis using that [OF i] i(2,3) by linarith
qed

text \<open>Reading one byte.\<close>

definition same_user :: "'k Machine \<Rightarrow> 'k Machine \<Rightarrow> bool" where
  "same_user m m' \<longleftrightarrow> mach_ok m' \<and> phys m' = phys m \<and> writable m' = writable m \<and> mainMemory m' = mainMemory m \<and> registers m' = registers m"

lemma same_user_byte: "same_user m m' \<Longrightarrow> user_byte m' = user_byte m"
  by (auto simp: same_user_def user_byte_def fun_eq_iff)

lemma same_user_trans: "same_user m m1 \<Longrightarrow> same_user m1 m2 \<Longrightarrow> same_user m m2"
  by (simp add: same_user_def)

lemma ReadMem_byte:
  assumes m: "mach_ok m" and b: "user_byte m a = Some b"
  shows "\<exists>m'. ReadMem h a 1 m = Inr (Some (scast b), m') \<and> same_user m m'"
proof -
  obtain p where p: "phys m a = Some p" "mainMemory m ! p = b" using b by (auto simp: user_byte_def)
  obtain i where i: "find_entry (uint a div 128) m = Inr i" "frame_of (entries m ! i) < 128"
    "p < 16384" "int p = frame_of (entries m ! i) * 128 + uint a mod 128" using phys_SomeE [OF p(1)] .
  have t: "table_ok m" "length (mainMemory m) = 16384" using m by (auto simp: mach_ok_def mach_len_def)
  have len: "i < length (entries m)" using find_entry_Inr(1) [OF i(1) vpn_nonneg] .
  let ?m = "set_entry i (touch False (entries m ! i)) m"
  have "Translate a 1 False m = Inr (Inr (int p), ?m)"
    using Translate_mapped [OF t(1) _ _ i(1) _ i(2), of 1 False] i(4) by (simp add: aligned_def)
  then have "ReadMem h a 1 m = Inr (Some (load_value 1 (mainMemory ?m) (int p)), ?m)"
    by (rule ReadMem_mapped) (use i(3) t(2) in simp_all)
  moreover have "load_value 1 (mainMemory ?m) (int p) = scast b" using p(2) i(3) t(2) by (simp add: load_value_def hd_drop_conv_nth)
  moreover have "same_user m ?m" using mach_ok_set_entry(2) [OF m] phys_touch [OF t(1) len] by (simp add: same_user_def)
  ultimately show ?thesis by simp
qed

text \<open>Writing one byte.\<close>

lemma WriteMem_byte:
  assumes m: "mach_ok m" and o: "one_to_one m" and w: "writable m a"
  shows "\<exists>m'. WriteMem h a 1 v m = Inr (True, m') \<and> mach_ok m' \<and> phys m' = phys m \<and> writable m' = writable m
    \<and> user_byte m' = (user_byte m)(a \<mapsto> ucast v)"
proof -
  obtain p where p: "phys m a = Some p" using w by (auto simp: writable_def)
  obtain i where i: "find_entry (uint a div 128) m = Inr i" "frame_of (entries m ! i) < 128"
    "p < 16384" "int p = frame_of (entries m ! i) * 128 + uint a mod 128" using phys_SomeE [OF p] .
  have t: "table_ok m" "length (mainMemory m) = 16384" using m by (auto simp: mach_ok_def mach_len_def)
  have len: "i < length (entries m)" using find_entry_Inr(1) [OF i(1) vpn_nonneg] .
  have ro: "\<not> readOnly (entries m ! i)" using w i(1) by (simp add: writable_def)
  let ?m = "set_entry i (touch True (entries m ! i)) m"
  let ?mem = "patch (mainMemory ?m) (nat (int p)) (store_bytes 1 v)"
  have "Translate a 1 True m = Inr (Inr (int p), ?m)"
    using Translate_mapped [OF t(1) _ _ i(1) _ i(2), of 1 True] i(4) ro by (simp add: aligned_def)
  then have W: "WriteMem h a 1 v m = Inr (True, ?m\<lparr>mainMemory := ?mem\<rparr>)"
    by (rule WriteMem_mapped) (use i(3) t(2) in simp_all)
  have ln: "p + length (store_bytes 1 v) \<le> length (mainMemory m)" using i(3) t(2) by (simp add: store_bytes_def)
  have M: "?mem ! q = (if q = p then ucast v else mainMemory m ! q)" if "q < 16384" for q
    using nth_patch [OF ln, of q] that t(2) by (auto simp: store_bytes_def)
  have ok: "mach_ok (?m\<lparr>mainMemory := ?mem\<rparr>)"
    by (rule mach_ok_memory [OF mach_ok_set_entry(2) [OF m]]) (use ln t(2) in simp)
  have "user_byte (?m\<lparr>mainMemory := ?mem\<rparr>) b = ((user_byte m)(a \<mapsto> ucast v)) b" for b
  proof (cases "phys m b")
    case None
    then show ?thesis using p phys_touch(1) [OF t(1) len] by (auto simp: user_byte_def)
  next
    case (Some q)
    then have "q < 16384" by (rule phys_SomeE)
    moreover have "q = p \<longleftrightarrow> b = a" using o p Some unfolding one_to_one_def by (metis option.inject)
    ultimately show ?thesis using M Some phys_touch(1) [OF t(1) len] by (auto simp: user_byte_def)
  qed
  then show ?thesis using W ok phys_touch [OF t(1) len] by auto
qed

section \<open>Memory accesses stay in the program's own frames\<close>

definition table_frames :: "'k Machine \<Rightarrow> int list option" where
  "table_frames m = map_option (map physicalPage) (pageTable m)"

text \<open>The frames that the page table maps.\<close>

definition own_pages :: "'k Machine \<Rightarrow> int set" where
  "own_pages m = (case table_frames m of None \<Rightarrow> {} | Some ps \<Rightarrow> (\<lambda>p. uint (word_of_int p :: 32 word)) ` set ps)"

text \<open>What an access to user memory may do to the machine: without a TLB it writes to those frames only.\<close>

definition tame :: "'k Machine \<Rightarrow> 'k Machine \<Rightarrow> bool" where
  "tame m m' \<longleftrightarrow> table_frames m' = table_frames m \<and> length (mainMemory m') = length (mainMemory m) \<and> (tlb m' = None \<longleftrightarrow> tlb m = None)
     \<and> (tlb m = None \<longrightarrow> (\<forall>q < length (mainMemory m). int (q div 128) \<notin> own_pages m \<longrightarrow> mainMemory m' ! q = mainMemory m ! q))"

lemma tame_refl [simp]: "tame m m"
  by (simp add: tame_def)

lemma tame_trans: "tame m m1 \<Longrightarrow> tame m1 m2 \<Longrightarrow> tame m m2"
  by (simp add: tame_def own_pages_def)

lemma set_entry_frames:
  assumes "physicalPage e = physicalPage (entries m ! i)"
  shows "table_frames (set_entry i e m) = table_frames m"
proof (cases "tlb m")
  case None
  have "(map physicalPage pt)[i := physicalPage (pt ! i)] = map physicalPage pt" for pt
    by (metis list_update_id map_update)
  with None show ?thesis using assms
    by (cases "pageTable m") (auto simp: set_entry_def table_frames_def entries_def map_update)
next
  case (Some t)
  then show ?thesis by (simp add: set_entry_def table_frames_def)
qed

lemma set_entry_tlb: "tlb (set_entry i e m) = None \<longleftrightarrow> tlb m = None"
  by (simp add: set_entry_def split: option.split)

lemma Translate_tame:
  assumes "Translate a sz w m = Inr (r, m')"
  shows "tame m m'" "mainMemory m' = mainMemory m"
  using assms
  by (auto simp: Translate_def Let_def tame_def set_entry_frames set_entry_tlb split: if_splits sum.splits)

lemma kernel_abort_RaiseException [simp]: "RaiseException kernel_abort e a m = Inr m' \<longleftrightarrow> False"
  by (auto simp: RaiseException_def kernel_abort_def rbind_eq_Inr)

lemma ReadMem_tame:
  assumes "ReadMem kernel_abort a sz m = Inr (r, m')"
  shows "tame m m'"
proof -
  obtain r1 m1 where t: "Translate a sz False m = Inr (r1, m1)" using assms by (auto simp: ReadMem_def rbind_eq_Inr)
  have "m' = m1"
  proof (cases r1)
    case (Inl e)
    then show ?thesis using assms t by (simp add: ReadMem_def rbind_eq_Inr)
  next
    case (Inr p)
    then show ?thesis using assms t by (auto simp: ReadMem_def rbind_eq_Inr split: if_splits)
  qed
  then show ?thesis using Translate_tame(1) [OF t] by simp
qed

lemma WriteMem_cases:
  assumes "WriteMem kernel_abort a sz v m = Inr (r, m')"
  obtains p m1 bs mem where "Translate a sz True m = Inr (Inr p, m1)" "bcopy_in bs (int (length bs)) p (mainMemory m1) = Inr mem"
    "m' = m1\<lparr>mainMemory := mem\<rparr>" "int (length bs) = sz" "sz \<in> {1, 2, 4}"
proof -
  obtain r1 m1 where t: "Translate a sz True m = Inr (r1, m1)" using assms by (auto simp: WriteMem_def rbind_eq_Inr)
  show thesis
  proof (cases r1)
    case (Inl e)
    then show ?thesis using assms t by (simp add: WriteMem_def rbind_eq_Inr)
  next
    case (Inr p)
    let ?bs = "if sz = 1 then [ucast (v AND 0xff)] else if sz = 2
      then [ucast (ShortToMachine (ucast (v AND 0xffff))), ucast (drop_bit 8 (ShortToMachine (ucast (v AND 0xffff))))]
      else le32 (WordToMachine v)"
    have "rbind (bcopy_in ?bs (int (length ?bs)) p (mainMemory m1)) (\<lambda>mem. Inr (True, m1\<lparr>mainMemory := mem\<rparr>)) = Inr (r, m')"
      using assms t Inr by (auto simp: WriteMem_def Let_def split: if_splits)
    moreover have sz: "sz \<in> {1, 2, 4}" using assms t Inr by (auto simp: WriteMem_def Let_def split: if_splits)
    moreover have "int (length ?bs) = sz" using sz by (auto simp: le32_def)
    ultimately show ?thesis using that [OF t [unfolded Inr], of ?bs] by (auto simp: rbind_eq_Inr)
  qed
qed

lemma Translate_own_page:
  assumes t: "Translate a sz w m = Inr (Inr p, m1)" and sz: "sz \<in> {1, 2, 4}" and tlb: "tlb m = None"
    and q: "p \<le> int q" "int q < p + sz"
  shows "int (q div 128) \<in> own_pages m"
proof -
  obtain pt where pt: "pageTable m = Some pt" using t tlb by (auto simp: Translate_def split: if_splits)
  then have ok: "table_ok m" using tlb by (simp add: table_ok_def)
  from Translate_cases [OF ok sz, of a w] obtain i where
    i: "aligned a sz" "find_entry (uint a div 128) m = Inr i" "p = frame_of (entries m ! i) * 128 + uint a mod 128"
    using t by cases auto
  have "i < length (entries m)" using find_entry_Inr(1) [OF i(2) vpn_nonneg] .
  then have "frame_of (entries m ! i) \<in> own_pages m" using pt tlb by (auto simp: own_pages_def table_frames_def entries_def frame_of_def)
  moreover have "int (q div 128) = frame_of (entries m ! i)"
    using aligned_offset [OF i(1) sz] q i(3) unfolding zdiv_int by (intro int_div_pos_eq [where r = "int q - frame_of (entries m ! i) * 128"]) auto
  ultimately show ?thesis by simp
qed

lemma WriteMem_tame:
  assumes "WriteMem kernel_abort a sz v m = Inr (r, m')"
  shows "tame m m'"
proof -
  obtain p m1 bs mem where w: "Translate a sz True m = Inr (Inr p, m1)" "bcopy_in bs (int (length bs)) p (mainMemory m1) = Inr mem"
    "m' = m1\<lparr>mainMemory := mem\<rparr>" "int (length bs) = sz" "sz \<in> {1, 2, 4}" using assms by (rule WriteMem_cases)
  note T = Translate_tame [OF w(1)]
  have b: "0 \<le> p" "nat p + length bs \<le> length (mainMemory m)" "mem = patch (mainMemory m) (nat p) bs"
    using w(2) T(2) by (auto simp: bcopy_in_def split: if_splits)
  have "mem ! q = mainMemory m ! q" if "tlb m = None" "q < length (mainMemory m)" "int (q div 128) \<notin> own_pages m" for q
  proof -
    have "\<not> (nat p \<le> q \<and> q < nat p + length bs)"
      using Translate_own_page [OF w(1) w(5) that(1), of q] that(3) b(1) w(4) by linarith
    then show ?thesis using nth_patch [OF b(2), of q] that(2) b(3) by auto
  qed
  then show ?thesis using T w(3) b by (simp add: tame_def table_frames_def)
qed

lemma read_str_loop_tame: "read_str_loop kernel_abort a i v out m = Inr (out', m') \<Longrightarrow> tame m m'"
  for m :: "'k Machine"
proof (induction "kernel_abort :: 'k handler" a i v out m rule: read_str_loop.induct)
  case (1 a i v out m)
  show ?case
  proof (cases "(ucast v :: byte) = 0")
    case True
    then show ?thesis using "1.prems" by (subst (asm) read_str_loop.simps) (auto simp: rbind_eq_Inr)
  next
    case False
    then obtain out1 r m1 where st: "aput out i (ucast v) = Inr out1" "ReadMem kernel_abort (a + of_int (i + 1)) 1 m = Inr (r, m1)"
      "read_str_loop kernel_abort a (i + 1) (value_after r v) out1 m1 = Inr (out', m')"
      using "1.prems" by (subst (asm) read_str_loop.simps) (auto simp: rbind_eq_Inr)
    show ?thesis using tame_trans [OF ReadMem_tame [OF st(2)]] "1.hyps" [OF False st(1,2) refl st(3)] by blast
  qed
qed

lemma readStrFromUsr_tame:
  assumes "readStrFromUsr kernel_abort a out m = Inr (out', m')"
  shows "tame m m'"
proof -
  obtain r m1 where "ReadMem kernel_abort a 1 m = Inr (r, m1)" "read_str_loop kernel_abort a 0 (value_after r 1) out m1 = Inr (out', m')"
    using assms by (auto simp: readStrFromUsr_def rbind_eq_Inr)
  then show ?thesis using ReadMem_tame read_str_loop_tame tame_trans by blast
qed

lemma skip_loop_tame:
  assumes "skip_loop kernel_abort sep a v m = Some (Inr (a', v', m'))"
  shows "tame m m'"
proof -
  have "h = kernel_abort \<longrightarrow> (\<forall>a' v' m'. r = Inr (a', v', m') \<longrightarrow> tame m m')" if "skip_loop h sep a v m = Some r" for h sep a v m r
    using that
  proof (rule skip_loop.raw_induct [rotated])
    fix loop h sep a v m r
    assume IH: "\<And>h sep a v m r. loop h sep a v m = Some r \<Longrightarrow> h = kernel_abort \<longrightarrow> (\<forall>a' v' m'. r = Inr (a', v', m') \<longrightarrow> tame m m')"
      and step: "(if (ucast v :: byte) = sep
        then (case ReadMem h a 1 m of Inl f \<Rightarrow> Some (Inl f) | Inr (r, m1) \<Rightarrow> loop h sep (a + 1) (value_after r v) m1)
        else Some (Inr (a, v, m))) = Some r"
    show "h = kernel_abort \<longrightarrow> (\<forall>a' v' m'. r = Inr (a', v', m') \<longrightarrow> tame m m')"
    proof (intro impI allI)
      fix a' v' m' assume h: "h = kernel_abort" and r: "r = Inr (a', v', m')"
      show "tame m m'"
      proof (cases "(ucast v :: byte) = sep")
        case True
        with step h r obtain r1 m1 where st: "ReadMem kernel_abort a 1 m = Inr (r1, m1)"
          "loop kernel_abort sep (a + 1) (value_after r1 v) m1 = Some r" by (auto split: sum.splits)
        have "tame m1 m'" using IH [OF st(2)] r by simp
        with ReadMem_tame [OF st(1)] show ?thesis by (rule tame_trans)
      qed (use step r in auto)
    qed
  qed
  then show ?thesis using assms by blast
qed

lemma special_loop_tame: "special_loop kernel_abort sep a i v out m = Inr (a', out', m') \<Longrightarrow> tame m m'"
  for m :: "'k Machine"
proof (induction "kernel_abort :: 'k handler" sep a i v out m rule: special_loop.induct)
  case (1 sep a i v out m)
  show ?case
  proof (cases "(ucast v :: byte) \<noteq> 0 \<and> (ucast v :: byte) \<noteq> sep")
    case False
    then show ?thesis using "1.prems" by (subst (asm) special_loop.simps) (auto simp: rbind_eq_Inr split: if_splits)
  next
    case True
    then obtain out1 r m1 where st: "aput out i (ucast v) = Inr out1" "ReadMem kernel_abort a 1 m = Inr (r, m1)"
      "special_loop kernel_abort sep (a + 1) (i + 1) (value_after r v) out1 m1 = Inr (a', out', m')"
      using "1.prems" by (subst (asm) special_loop.simps) (auto simp: rbind_eq_Inr split: if_splits)
    show ?thesis using tame_trans [OF ReadMem_tame [OF st(2)]] "1.hyps" [OF True st(1,2) refl st(3)] by blast
  qed
qed

lemma readStrFromUsrSpecial_tame:
  assumes "readStrFromUsrSpecial kernel_abort a out sep m = Some (Inr (a', out', m'))"
  shows "tame m m'"
proof -
  obtain r m1 na v m2 where st: "ReadMem kernel_abort a 1 m = Inr (r, m1)" "skip_loop kernel_abort sep (a + 1) (value_after r 1) m1 = Some (Inr (na, v, m2))"
    "special_loop kernel_abort sep na 0 v out m2 = Inr (a', out', m')"
    using assms by (auto simp: readStrFromUsrSpecial_def rbind_eq_Inr split: sum.splits option.splits)
  have "tame m m2" by (rule tame_trans [OF ReadMem_tame [OF st(1)] skip_loop_tame [OF st(2)]])
  then show ?thesis using special_loop_tame [OF st(3)] by (rule tame_trans)
qed

lemma read_buff_tame: "read_buff_from kernel_abort a i k v out m = Inr (out', m') \<Longrightarrow> tame m m'"
proof (induction k arbitrary: i v out m)
  case (Suc k)
  then obtain r m1 out1 where st: "ReadMem kernel_abort (a + of_nat i) 1 m = Inr (r, m1)"
    "read_buff_from kernel_abort a (Suc i) k (value_after r v) out1 m1 = Inr (out', m')" by (auto simp: rbind_eq_Inr Let_def)
  show ?case by (rule tame_trans [OF ReadMem_tame [OF st(1)] Suc.IH [OF st(2)]])
qed simp

lemma write_buff_tame: "write_buff_from kernel_abort buf a i k m = Inr m' \<Longrightarrow> tame m m'"
proof (induction k arbitrary: i m)
  case (Suc k)
  then obtain b :: byte and r m1 where st: "WriteMem kernel_abort (a + of_nat i) 1 (scast b) m = Inr (r, m1)"
    "write_buff_from kernel_abort buf a (Suc i) k m1 = Inr m'" by (auto simp: rbind_eq_Inr)
  show ?case by (rule tame_trans [OF WriteMem_tame [OF st(1)] Suc.IH [OF st(2)]])
qed simp

lemma buff_tame: "readBuffFromUsr kernel_abort a out n m = Inr (out', m') \<Longrightarrow> tame m m'" "writeBuffToUsr kernel_abort buf a n m = Inr m' \<Longrightarrow> tame m m'"
  unfolding readBuffFromUsr_def writeBuffToUsr_def by (fact read_buff_tame, fact write_buff_tame)

lemmas user_tame = readStrFromUsr_tame readStrFromUsrSpecial_tame buff_tame

section \<open>Buffers and strings\<close>

lemma ucast_scast_byte [simp]: "(ucast (scast (b :: byte) :: 32 word) :: byte) = b"
  by (auto simp: bit_simps intro!: bit_word_eqI)

lemma patch_Cons: "i < length out \<Longrightarrow> patch (out[i := b]) (Suc i) bs = patch out i (b # bs)"
  by (simp add: patch_def take_Suc_conv_app_nth drop_update_cancel)

lemma word_offset_inj:
  assumes "j < 2 ^ 32" and "k < 2 ^ 32"
  shows "(of_nat j :: 32 word) = of_nat k \<longleftrightarrow> j = k"
proof -
  have "unat (of_nat j :: 32 word) = j" "unat (of_nat k :: 32 word) = k" using assms by (simp_all add: unsigned_of_nat take_bit_nat_eq_self)
  then show ?thesis by metis
qed

lemma read_buff_result:
  assumes "mach_ok m" and "\<forall>j < length bs. user_byte m (a + of_nat (i + j)) = Some (bs ! j)" and "i + length bs \<le> length out"
  shows "\<exists>m'. read_buff_from h a i (length bs) v out m = Inr (patch out i bs, m') \<and> same_user m m'"
  using assms
proof (induction bs arbitrary: i v out m)
  case Nil
  then show ?case by (simp add: same_user_def)
next
  case (Cons b bs)
  have "user_byte m (a + of_nat i) = Some b" using Cons.prems(2) by (auto dest: spec [of _ 0])
  then obtain m1 where m1: "ReadMem h (a + of_nat i) 1 m = Inr (Some (scast b), m1)" "same_user m m1"
    using ReadMem_byte [OF Cons.prems(1)] by blast
  have "user_byte m1 (a + of_nat (Suc i + j)) = Some (bs ! j)" if "j < length bs" for j
    using Cons.prems(2) [rule_format, of "Suc j"] same_user_byte [OF m1(2)] that by (simp add: algebra_simps)
  then obtain m2 where m2: "read_buff_from h a (Suc i) (length bs) (scast b) (out[i := b]) m1 = Inr (patch (out[i := b]) (Suc i) bs, m2)"
    "same_user m1 m2" using Cons.IH [of m1 "Suc i" "out[i := b]" "scast b"] m1(2) Cons.prems(3) by (auto simp: same_user_def)
  then show ?case using m1 Cons.prems(3) patch_Cons [of i out b bs] same_user_trans [OF m1(2) m2(2)]
    by (simp add: value_after_def Let_def)
qed

lemma write_buff_result:
  assumes "mach_ok m" and "one_to_one m" and "\<forall>j < n. writable m (a + of_nat (i + j))" and "i + n \<le> length buff" and "i + n \<le> 2 ^ 32"
  shows "\<exists>m'. write_buff_from h buff a i n m = Inr m' \<and> mach_ok m' \<and> phys m' = phys m \<and> writable m' = writable m
    \<and> (\<forall>j < n. user_byte m' (a + of_nat (i + j)) = Some (buff ! (i + j)))
    \<and> (\<forall>b. (\<forall>j < n. b \<noteq> a + of_nat (i + j)) \<longrightarrow> user_byte m' b = user_byte m b)"
  using assms
proof (induction n arbitrary: i m)
  case 0
  then show ?case by simp
next
  case (Suc n)
  have w: "writable m (a + of_nat i)" using Suc.prems(3) by (auto dest: spec [of _ 0])
  from WriteMem_byte [OF Suc.prems(1,2) w, of h "scast (buff ! i)"]
  obtain m1 where m1: "WriteMem h (a + of_nat i) 1 (scast (buff ! i)) m = Inr (True, m1)" "mach_ok m1" "phys m1 = phys m"
    "writable m1 = writable m" "user_byte m1 = (user_byte m)(a + of_nat i \<mapsto> buff ! i)" by auto
  have "writable m1 (a + of_nat (Suc i + j))" if "j < n" for j
    using Suc.prems(3) [rule_format, of "Suc j"] m1(4) that by (simp add: algebra_simps)
  moreover have "one_to_one m1" using Suc.prems(2) m1(3) by (simp add: one_to_one_def)
  ultimately obtain m2 where m2: "write_buff_from h buff a (Suc i) n m1 = Inr m2" "mach_ok m2" "phys m2 = phys m1" "writable m2 = writable m1"
    "\<forall>j < n. user_byte m2 (a + of_nat (Suc i + j)) = Some (buff ! (Suc i + j))"
    "\<forall>b. (\<forall>j < n. b \<noteq> a + of_nat (Suc i + j)) \<longrightarrow> user_byte m2 b = user_byte m1 b"
    using Suc.IH [of m1 "Suc i"] Suc.prems(4,5) m1(2) by auto
  have ne: "a + of_nat i \<noteq> a + of_nat (Suc i + j)" if "j < n" for j
    using word_offset_inj [of i "Suc i + j"] Suc.prems(5) that by (simp del: of_nat_Suc of_nat_add)
  then have first: "user_byte m2 (a + of_nat i) = Some (buff ! i)" using m2(6) m1(5) by auto
  have "user_byte m2 (a + of_nat (i + j)) = Some (buff ! (i + j))" if "j < Suc n" for j
    using that first m2(5) [rule_format, of "j - 1"] by (cases j) simp_all
  moreover have "user_byte m2 b = user_byte m b" if b: "\<forall>j < Suc n. b \<noteq> a + of_nat (i + j)" for b
  proof -
    have "b \<noteq> a + of_nat i" using b [rule_format, of 0] by simp
    moreover have "b \<noteq> a + of_nat (Suc i + j)" if "j < n" for j using b [rule_format, of "Suc j"] that by (simp add: algebra_simps)
    ultimately show ?thesis using m2(6) m1(5) by simp
  qed
  ultimately show ?case using m1 m2 Suc.prems(4) by simp
qed

text \<open>
  What the kernel writes into the memory of a user program is what it reads back: when the pages of the
  range are writable and the page table maps different pages to different frames, \<open>writeBuffToUsr\<close> and then
  \<open>readBuffFromUsr\<close> return the bytes of the buffer, and no other byte that the program sees has changed.
\<close>

theorem user_buffer_roundtrip:
  assumes m: "mach_ok m" "one_to_one m" and w: "\<forall>j < n. writable m (a + of_nat j)"
    and n: "n \<le> length buff" "n \<le> length out" "n \<le> 2 ^ 32"
  shows "\<exists>m1 m2. writeBuffToUsr h buff a (int n) m = Inr m1 \<and> readBuffFromUsr h' a out (int n) m1 = Inr (take n buff @ drop n out, m2)
    \<and> (\<forall>b. (\<forall>j < n. b \<noteq> a + of_nat j) \<longrightarrow> user_byte m1 b = user_byte m b)"
proof -
  obtain m1 where m1: "write_buff_from h buff a 0 n m = Inr m1" "mach_ok m1" "\<forall>j < n. user_byte m1 (a + of_nat j) = Some (buff ! j)"
    "\<forall>b. (\<forall>j < n. b \<noteq> a + of_nat j) \<longrightarrow> user_byte m1 b = user_byte m b"
    using write_buff_result [OF m, of n a 0 buff h] w n by auto
  have "\<forall>j < length (take n buff). user_byte m1 (a + of_nat (0 + j)) = Some (take n buff ! j)" using m1(3) n(1) by simp
  from read_buff_result [OF m1(2) this, of out h' 1] n
  obtain m2 where "read_buff_from h' a 0 n 1 out m1 = Inr (patch out 0 (take n buff), m2)" by (auto simp: min_absorb2)
  then show ?thesis using m1(1,4) n(1) by (auto simp: writeBuffToUsr_def readBuffFromUsr_def patch_def min_absorb2)
qed

text \<open>A user page at frame 3, and the handler that aborts, as the kernel's does for every exception but a system call.\<close>

definition user_machine :: "unit Machine" where
  "user_machine = (Machine_new None ())\<lparr>pageTable := Some
     [\<lparr>virtualPage = 0, physicalPage = 3, valid = True, readOnly = False, used = False, dirty = False\<rparr>]\<rparr>"

lemma user_machine_ok: "mach_ok user_machine"
  by (simp add: user_machine_def Machine_new_def mach_ok_def mach_len_def table_ok_def reg_nums machine_consts)

lemma user_machine_phys: "phys user_machine a = (if uint a < 128 then Some (nat (384 + uint a)) else None)"
proof (cases "uint a < 128")
  case True
  then have "uint a div 128 = 0" "uint a mod 128 = uint a" by simp_all
  then show ?thesis
    using True by (simp add: phys_def find_entry_def entries_def user_machine_def Machine_new_def frame_of_def)
next
  case False
  then have "uint a div 128 \<ge> 1" by linarith
  then show ?thesis using False by (simp add: phys_def find_entry_def user_machine_def Machine_new_def)
qed

lemma user_machine_one_to_one: "one_to_one user_machine"
  unfolding one_to_one_def user_machine_phys
  by (auto split: if_splits simp: nat_eq_iff word_uint_eq_iff)

lemma user_machine_writable: "uint a < 128 \<Longrightarrow> writable user_machine a"
  unfolding writable_def user_machine_phys
  by (auto simp: find_entry_def entries_def user_machine_def Machine_new_def split: if_splits)

theorem user_buffer_roundtrip_witness:
  "\<exists>m1 m2. writeBuffToUsr kernel_abort [1, 2, 3] 16 3 user_machine = Inr m1
    \<and> readBuffFromUsr kernel_abort 16 [7, 7, 7, 7] 3 m1 = Inr ([1, 2, 3, 7], m2)"
proof -
  have "\<forall>j < 3. writable user_machine (16 + of_nat j)"
    by (auto simp: numeral_3_eq_3 less_Suc_eq intro!: user_machine_writable)
  from user_buffer_roundtrip [OF user_machine_ok user_machine_one_to_one this, of "[1, 2, 3]" "[7, 7, 7, 7]" kernel_abort kernel_abort]
  show ?thesis by auto
qed

text \<open>A string of the program: bytes that are not null up to the null that ends it.\<close>

definition user_string :: "'k Machine \<Rightarrow> 32 word \<Rightarrow> byte list \<Rightarrow> bool" where
  "user_string m a str \<longleftrightarrow> 0 \<notin> set str \<and> (\<forall>j \<le> length str. user_byte m (a + of_nat j) = Some ((str @ [0]) ! j))"

lemma read_str_step:
  "read_str_loop h a (int i) v out m =
     (if (ucast v :: byte) = 0 then rbind (aput out (int i) 0) (\<lambda>out1. Inr (out1, m))
      else rbind (aput out (int i) (ucast v)) (\<lambda>out1. rbind (ReadMem h (a + of_nat (Suc i)) 1 m) (\<lambda>(r, m1).
        read_str_loop h a (int (Suc i)) (value_after r v) out1 m1)))"
  by (subst read_str_loop.simps) (simp add: add.commute)

lemma read_str_result:
  assumes "mach_ok m" and "0 \<notin> set bs" and "\<forall>j < length bs. user_byte m (a + of_nat (Suc (i + j))) = Some ((bs @ [0]) ! Suc j)"
    and "ucast v = (bs @ [0]) ! 0"
  shows "if i + length bs < length out
    then \<exists>m'. read_str_loop h a (int i) v out m = Inr (patch out i (bs @ [0]), m') \<and> same_user m m'
    else read_str_loop h a (int i) v out m = Inl OutOfBounds"
  using assms
proof (induction bs arbitrary: i v out m)
  case Nil
  then show ?case by (subst (1 2) read_str_step) (auto simp: aput_def patch_def same_user_def upd_conv_take_nth_drop)
next
  case (Cons b bs)
  have b: "ucast v = b" "b \<noteq> 0" using Cons.prems(2,4) by auto
  show ?case
  proof (cases "i < length out")
    case True
    have "user_byte m (a + of_nat (Suc i)) = Some ((bs @ [0]) ! 0)" using Cons.prems(3) [rule_format, of 0] by simp
    then obtain m1 where m1: "ReadMem h (a + of_nat (Suc i)) 1 m = Inr (Some (scast ((bs @ [0]) ! 0)), m1)" "same_user m m1"
      using ReadMem_byte [OF Cons.prems(1)] by blast
    have "read_str_loop h a (int i) v out m = read_str_loop h a (int (Suc i)) (scast ((bs @ [0]) ! 0)) (out[i := b]) m1"
      by (subst read_str_step) (use b True m1(1) in \<open>simp add: value_after_def aput_def del: of_nat_Suc\<close>)
    moreover have "user_byte m1 (a + of_nat (Suc (Suc i + j))) = Some ((bs @ [0]) ! Suc j)" if "j < length bs" for j
      using Cons.prems(3) [rule_format, of "Suc j"] same_user_byte [OF m1(2)] that by simp
    ultimately show ?thesis
      using Cons.IH [of m1 "Suc i" "scast ((bs @ [0]) ! 0)" "out[i := b]"] Cons.prems(2) m1(2) True patch_Cons [of i out b "bs @ [0]"]
      by (auto simp: same_user_def split: if_splits)
  next
    case False
    then show ?thesis by (subst (1 2) read_str_step) (use b in \<open>auto simp: aput_def\<close>)
  qed
qed

text \<open>
  C37. \<open>readStrFromUsr\<close> on a string of the program: when the buffer has room for the string and its null, the buffer holds
  exactly them and what was behind, and the program's memory is as before; when it has not, the code writes behind
  the end of the buffer. It never stops early, and it does not look at the size of the buffer.
\<close>

theorem readStrFromUsr_result:
  assumes m: "mach_ok m" and s: "user_string m a str"
  shows "if length str < length outStr
    then \<exists>m'. readStrFromUsr h a outStr m = Inr (str @ 0 # drop (Suc (length str)) outStr, m') \<and> user_byte m' = user_byte m
    else readStrFromUsr h a outStr m = Inl OutOfBounds"
proof -
  have "user_byte m a = Some ((str @ [0]) ! 0)" using s by (auto simp: user_string_def dest: spec [of _ 0])
  then obtain m1 where m1: "ReadMem h a 1 m = Inr (Some (scast ((str @ [0]) ! 0)), m1)" "same_user m m1"
    using ReadMem_byte [OF m] by blast
  have "\<forall>j < length str. user_byte m1 (a + of_nat (Suc (0 + j))) = Some ((str @ [0]) ! Suc j)"
    using s same_user_byte [OF m1(2)] by (auto simp: user_string_def simp del: of_nat_Suc)
  from read_str_result [OF _ _ this, of "scast ((str @ [0]) ! 0)" outStr h]
  show ?thesis using m1 s same_user_byte
    by (auto simp: readStrFromUsr_def value_after_def user_string_def same_user_def patch_def split: if_splits)
qed

definition string_machine :: "unit Machine" where
  "string_machine = user_machine\<lparr>mainMemory := patch (replicate 16384 0) 384 [0x68, 0x69, 0]\<rparr>"

lemma string_machine_ok: "mach_ok string_machine"
  unfolding string_machine_def by (rule mach_ok_memory [OF user_machine_ok]) simp

lemma string_machine_string: "user_string string_machine 0 [0x68, 0x69]"
proof -
  have "phys string_machine = phys user_machine"
    unfolding string_machine_def by (rule phys_memory)
  moreover have "patch (replicate 16384 0) 384 [0x68, 0x69, 0 :: byte] ! (384 + j) = [0x68, 0x69, 0] ! j" if "j < 3" for j
    using that by (simp add: nth_patch)
  from this [of 0] this [of 1] this [of 2]
  have "patch (replicate 16384 0) 384 [0x68, 0x69, 0 :: byte] ! 384 = 0x68"
    "patch (replicate 16384 0) 384 [0x68, 0x69, 0 :: byte] ! 385 = 0x69"
    "patch (replicate 16384 0) 384 [0x68, 0x69, 0 :: byte] ! 386 = 0" by simp_all
  ultimately show ?thesis
    by (auto simp: user_string_def user_byte_def user_machine_phys string_machine_def le_Suc_eq)
qed

theorem readStrFromUsr_result_witness:
  "(\<exists>m'. readStrFromUsr kernel_abort 0 [9, 9, 9, 9] string_machine = Inr ([0x68, 0x69, 0, 9], m'))
    \<and> readStrFromUsr kernel_abort 0 [9, 9] string_machine = Inl OutOfBounds"
  using readStrFromUsr_result [OF string_machine_ok string_machine_string, of "[9, 9, 9, 9]" kernel_abort]
    readStrFromUsr_result [OF string_machine_ok string_machine_string, of "[9, 9]" kernel_abort] by auto

end
