(* ===== verification/Mips_Arith.thy ===== *)
theory Mips_Arith
  imports Mips User_Memory
begin

text \<open>
  What the instruction interpreter computes: the shift-and-add multiplication, the overflow tests of
  \<^verbatim>\<open>ADD\<close>, \<^verbatim>\<open>ADDI\<close> and \<^verbatim>\<open>SUB\<close>, the effect of one whole instruction, and the operations whose code does not
  do what the instruction set says.
\<close>

section \<open>Multiplication\<close>

text \<open>The number that a pair of words stands for.\<close>

definition dword :: "32 word \<Rightarrow> 32 word \<Rightarrow> int" where
  "dword hi lo = uint hi * 2 ^ 32 + uint lo"

lemma dword_add:
  "dword ((if lo + bLo < bLo then hi + 1 else hi) + bHi) (lo + bLo) mod 2 ^ 64
     = (dword hi lo + dword bHi bLo) mod 2 ^ 64"
proof -
  let ?c = "(if lo + bLo < bLo then 1 else 0) :: int"
  have lt: "uint lo < 2 ^ 32" "uint bLo < 2 ^ 32" "0 \<le> uint lo" "0 \<le> uint bLo"
    using uint_lt2p [of lo] uint_lt2p [of bLo] by simp_all
  have plus: "uint (lo + bLo) = (if uint lo + uint bLo < 2 ^ 32 then uint lo + uint bLo else uint lo + uint bLo - 2 ^ 32)"
    using uint_plus_if' [of lo bLo] by simp
  then have lo: "uint (lo + bLo) = uint lo + uint bLo - ?c * 2 ^ 32"
    using lt by (auto simp: word_less_def)
  have "uint ((if lo + bLo < bLo then hi + 1 else hi) + bHi) = (uint hi + ?c + uint bHi) mod 2 ^ 32"
    by (simp add: uint_word_ariths mod_simps)
  then obtain q where "uint ((if lo + bLo < bLo then hi + 1 else hi) + bHi) = uint hi + ?c + uint bHi - q * 2 ^ 32"
    by (metis minus_mult_div_eq_mod mult.commute)
  then have "dword ((if lo + bLo < bLo then hi + 1 else hi) + bHi) (lo + bLo)
      = dword hi lo + dword bHi bLo - q * 2 ^ 64"
    unfolding dword_def lo by (simp add: algebra_simps)
  then show ?thesis by (metis mod_mult_self4 diff_conv_add_uminus mod_diff_right_eq mod_mult_self2_is_0 diff_zero)
qed

lemma sign_bit_iff: "(x :: 32 word) AND 0x80000000 \<noteq> 0 \<longleftrightarrow> 2 ^ 31 \<le> uint x"
proof -
  have "(0x80000000 :: 32 word) = 2 ^ 31" by simp
  then have "x AND 0x80000000 \<noteq> 0 \<longleftrightarrow> bit x 31" by (simp only: and_exp_eq_0_iff_not_bit not_not)
  also have "\<dots> \<longleftrightarrow> bit (uint x) 31" by (simp add: bit_uint_iff)
  also have "\<dots> \<longleftrightarrow> 2 ^ 31 \<le> uint x"
  proof -
    have "uint x < 2 * 2 ^ 31" "0 \<le> uint x" using uint_lt2p [of x] by simp_all
    then have "uint x div 2 ^ 31 = (if 2 ^ 31 \<le> uint x then 1 else 0)" by auto
    then show ?thesis by (simp add: bit_iff_odd)
  qed
  finally show ?thesis .
qed

lemma dword_double:
  "dword (if bLo AND 0x80000000 \<noteq> 0 then push_bit 1 bHi OR 1 else push_bit 1 bHi) (push_bit 1 bLo) mod 2 ^ 64
     = (2 * dword bHi bLo) mod 2 ^ 64"
proof -
  have c: "bLo AND 0x80000000 \<noteq> 0 \<longleftrightarrow> bLo + bLo < bLo"
    using uint_plus_if' [of bLo bLo] uint_lt2p [of bLo] by (simp add: sign_bit_iff word_less_def)
  have dbl: "push_bit 1 x = x + x" for x :: "32 word" by (simp add: push_bit_eq_mult)
  have "push_bit 1 bHi OR 1 = push_bit 1 bHi + 1"
    by (simp add: or_one_eq)
  then have h: "(if bLo AND 0x80000000 \<noteq> 0 then push_bit 1 bHi OR 1 else push_bit 1 bHi)
      = (if bLo + bLo < bLo then bHi + 1 else bHi) + bHi"
    using c dbl [of bHi] by auto
  show ?thesis unfolding h dbl [of bLo] dword_add by simp
qed

lemma take_bit_shift:
  assumes "k < 32"
  shows "take_bit (Suc k) (uint (a :: 32 word)) = (if a AND 1 \<noteq> 0 then 1 else 0) + 2 * take_bit k (uint (signed_drop_bit 1 a))"
proof -
  have "take_bit k (uint (signed_drop_bit 1 a)) = take_bit k (uint a div 2)"
  proof (rule bit_eqI)
    fix n
    show "bit (take_bit k (uint (signed_drop_bit 1 a))) n \<longleftrightarrow> bit (take_bit k (uint a div 2)) n"
      using assms by (auto simp: bit_simps bit_signed_drop_bit_iff simp flip: bit_Suc)
  qed
  moreover have "a AND 1 \<noteq> 0 \<longleftrightarrow> odd (uint a)"
  proof -
    have "odd a \<longleftrightarrow> odd (uint a)" using bit_uint_iff [of a 0] by (simp add: bit_0)
    then show ?thesis by (simp add: and_one_eq mod_2_eq_odd)
  qed
  ultimately show ?thesis by (simp add: take_bit_Suc mod_2_eq_odd)
qed

lemma Mult_loop_correct:
  assumes "k \<le> 32" and "Mult_loop k a bLo bHi lo hi = (hi', lo')"
  shows "dword hi' lo' mod 2 ^ 64 = (dword hi lo + take_bit k (uint a) * dword bHi bLo) mod 2 ^ 64"
  using assms
proof (induction k arbitrary: a bLo bHi lo hi)
  case 0
  then show ?case by simp
next
  case (Suc k)
  let ?hi = "if a AND 1 \<noteq> 0 then (if lo + bLo < bLo then hi + 1 else hi) + bHi else hi"
  let ?lo = "if a AND 1 \<noteq> 0 then lo + bLo else lo"
  let ?o = "(if a AND 1 \<noteq> 0 then 1 else 0) :: int"
  have add: "dword ?hi ?lo mod 2 ^ 64 = (dword hi lo + ?o * dword bHi bLo) mod 2 ^ 64"
    using dword_add by simp
  have tb: "take_bit (Suc k) (uint a) = ?o + 2 * take_bit k (uint (signed_drop_bit 1 a))"
    using take_bit_shift [of k a] Suc.prems(1) by simp
  show ?case
  proof (cases "a AND 1 \<noteq> 0 \<and> a AND 0xfffffffe = 0")
    case True
    then have "a = 1"
    proof -
      have "(1 :: 32 word) OR 0xfffffffe = - 1" by simp
      then have "a = a AND (1 OR 0xfffffffe)" by (simp only: and.right_neutral)
      also have "\<dots> = a AND 1" unfolding bit.conj_disj_distrib using True by simp
      also have "\<dots> = of_bool (odd a)" by (simp add: and_one_eq mod_2_eq_odd)
      finally show ?thesis using True by (cases "odd a") auto
    qed
    moreover have "hi' = ?hi" "lo' = ?lo" using Suc.prems(2) [symmetric] True by (simp_all add: Let_def)
    moreover have "take_bit (Suc k) (uint (1 :: 32 word)) = 1" by simp
    ultimately show ?thesis using add by (simp only: and_one_eq) simp
  next
    case False
    let ?b = "if bLo AND 0x80000000 \<noteq> 0 then push_bit 1 bHi OR 1 else push_bit 1 bHi"
    have "Mult_loop k (signed_drop_bit 1 a) (push_bit 1 bLo) ?b ?lo ?hi = (hi', lo')"
      using Suc.prems(2) False by (auto simp: Let_def split: if_splits)
    from Suc.IH [OF _ this] Suc.prems(1)
    have "dword hi' lo' mod 2 ^ 64 = (dword ?hi ?lo
        + take_bit k (uint (signed_drop_bit 1 a)) * dword ?b (push_bit 1 bLo)) mod 2 ^ 64" by simp
    also have "\<dots> = (dword hi lo + ?o * dword bHi bLo
        + take_bit k (uint (signed_drop_bit 1 a)) * (2 * dword bHi bLo)) mod 2 ^ 64"
      using add dword_double [of bLo bHi] by (intro mod_add_cong mod_mult_cong refl)
    also have "\<dots> = (dword hi lo + take_bit (Suc k) (uint a) * dword bHi bLo) mod 2 ^ 64"
      unfolding tb by (simp add: algebra_simps)
    finally show ?thesis .
  qed
qed

lemma dword_range: "0 \<le> dword hi lo" "dword hi lo < 2 ^ 64"
  using uint_lt2p [of hi] uint_lt2p [of lo] by (simp_all add: dword_def)

lemma dword_negate: "dword (if NOT lo + 1 = 0 then NOT hi + 1 else NOT hi) (NOT lo + 1) mod 2 ^ 64 = (- dword hi lo) mod 2 ^ 64"
proof -
  have n: "NOT x + 1 = - x" for x :: "32 word" by (simp add: not_eq_complement)
  have nt: "uint (NOT x) = 2 ^ 32 - 1 - uint x" for x :: "32 word"
  proof -
    have "uint (NOT x) = (- uint x - 1) mod 2 ^ 32"
      by (simp add: not_eq_complement uint_word_ariths mod_simps)
    also have "- uint x - 1 = (2 ^ 32 - 1 - uint x) + (- 1) * 2 ^ 32" by simp
    also have "((2 ^ 32 - 1 - uint x) + (- 1) * 2 ^ 32) mod 2 ^ 32 = (2 ^ 32 - 1 - uint x) mod 2 ^ 32"
      by (rule mod_mult_self1)
    also have "\<dots> = 2 ^ 32 - 1 - uint x"
    proof -
      have "0 \<le> u \<Longrightarrow> u < 2 ^ 32 \<Longrightarrow> (2 ^ 32 - 1 - u) mod 2 ^ 32 = 2 ^ 32 - 1 - u" for u :: int by simp
      from this [OF uint_ge_0, of x] uint_lt2p [of x] show ?thesis by simp
    qed
    finally show ?thesis .
  qed
  have neg: "uint (- x) = (if x = 0 then 0 else 2 ^ 32 - uint x)" for x :: "32 word"
    using uint_lt2p [of x] by (simp add: uint_word_ariths zmod_zminus1_eq_if uint_0_iff)
  show ?thesis
  proof (cases "lo = 0")
    case True
    then show ?thesis using nt [of hi] neg [of hi] n by (auto simp: dword_def algebra_simps)
  next
    case False
    then have "dword (if NOT lo + 1 = 0 then NOT hi + 1 else NOT hi) (NOT lo + 1) = 2 ^ 64 - dword hi lo"
      using nt [of hi] neg [of lo] n by (simp add: dword_def algebra_simps)
    then show ?thesis by (simp add: mod_simps)
  qed
qed

lemma sint_neg_iff: "sint (x :: 32 word) < 0 \<longleftrightarrow> 2 ^ 31 \<le> uint x"
  and sint_cases: "sint (x :: 32 word) = (if 2 ^ 31 \<le> uint x then uint x - 2 ^ 32 else uint x)"
proof -
  have r: "uint x < 2 ^ 32" "0 \<le> uint x" using uint_lt2p [of x] by simp_all
  have "sint (word_of_int (if 2 ^ 31 \<le> uint x then uint x - 2 ^ 32 else uint x) :: 32 word)
      = (if 2 ^ 31 \<le> uint x then uint x - 2 ^ 32 else uint x)"
  proof (rule sint_of_int32)
    have "0 \<le> u \<Longrightarrow> u < 2 ^ 32 \<Longrightarrow> in_int32 (if 2 ^ 31 \<le> u then u - 2 ^ 32 else u)" for u
      by (auto simp: in_int32_def)
    then show "in_int32 (if 2 ^ 31 \<le> uint x then uint x - 2 ^ 32 else uint x)" using r by blast
  qed
  moreover have "word_of_int (if 2 ^ 31 \<le> uint x then uint x - 2 ^ 32 else uint x) = x"
    using r by (auto simp: word_uint_eq_iff uint_word_of_int_eq take_bit_eq_mod mod_pos_pos_trivial)
  ultimately show c: "sint x = (if 2 ^ 31 \<le> uint x then uint x - 2 ^ 32 else uint x)" by simp
  then show "sint x < 0 \<longleftrightarrow> 2 ^ 31 \<le> uint x" using r by auto
qed

lemma uint_abs: "sint (x :: 32 word) < 0 \<Longrightarrow> uint (- x) = - sint x"
  using uint_lt2p [of x] sint_neg_iff [of x] sint_cases [of x]
  by (simp add: uint_word_ariths zmod_zminus1_eq_if)

lemma Mult_value:
  assumes "Mult a b sg = (hi, lo)"
  shows "dword hi lo = (if sg then sint a * sint b else uint a * uint b) mod 2 ^ 64"
proof (cases "a = 0 \<or> b = 0")
  case True
  then show ?thesis using assms by (auto simp: Mult_def dword_def)
next
  case False
  let ?na = "sg \<and> sint a < 0" and ?nb = "sg \<and> sint b < 0"
  let ?a = "if ?na then - a else a" and ?b = "if ?nb then - b else b"
  obtain h l where hl: "Mult_loop 32 ?a ?b 0 0 0 = (h, l)" by fastforce
  have "take_bit 32 (uint ?a) = uint ?a" using uint_lt2p [of ?a] by (simp add: take_bit_int_eq_self)
  then have v: "dword h l mod 2 ^ 64 = (uint ?a * uint ?b) mod 2 ^ 64"
    using Mult_loop_correct [OF _ hl] by (simp add: dword_def)
  have sa: "uint ?a = (if sg then \<bar>sint a\<bar> else uint a)" "uint ?b = (if sg then \<bar>sint b\<bar> else uint b)"
    using uint_abs [of a] uint_abs [of b] sint_cases [of a] sint_cases [of b] sint_neg_iff [of a] sint_neg_iff [of b]
    by auto
  have "dword hi lo mod 2 ^ 64 = (if ?na \<noteq> ?nb then - dword h l else dword h l) mod 2 ^ 64"
    using assms False hl dword_negate [of l h] by (auto simp: Mult_def Let_def split: if_splits)
  also have "\<dots> = (if ?na \<noteq> ?nb then - (uint ?a * uint ?b) else uint ?a * uint ?b) mod 2 ^ 64"
  proof (cases "?na \<noteq> ?nb")
    case True
    have "(- dword h l) mod 2 ^ 64 = (- (uint ?a * uint ?b)) mod 2 ^ 64" using v by (metis mod_minus_eq)
    then show ?thesis unfolding if_P [OF True] .
  next
    case False
    show ?thesis unfolding if_not_P [OF False] by (rule v)
  qed
  also have "(if ?na \<noteq> ?nb then - (uint ?a * uint ?b) else uint ?a * uint ?b)
      = (if sg then sint a * sint b else uint a * uint b)"
    unfolding sa by (auto simp: abs_mult [symmetric] abs_if)
  finally show ?thesis using dword_range [of hi lo] by simp
qed

section \<open>Overflow\<close>

lemma sign_bit_bit: "(x :: 32 word) AND 0x80000000 \<noteq> 0 \<longleftrightarrow> bit x 31"
proof -
  have "(0x80000000 :: 32 word) = 2 ^ 31" by simp
  then show ?thesis by (simp only: and_exp_eq_0_iff_not_bit not_not)
qed

lemma sign_bit_neg: "(x :: 32 word) AND 0x80000000 \<noteq> 0 \<longleftrightarrow> sint x < 0"
  using sign_bit_iff sint_neg_iff by simp

lemma sign_xor: "((x :: 32 word) XOR y) AND 0x80000000 \<noteq> 0 \<longleftrightarrow> (sint x < 0) \<noteq> (sint y < 0)"
  using sign_bit_bit [of "x XOR y"] sign_bit_bit [of x] sign_bit_bit [of y] sign_bit_neg [of x] sign_bit_neg [of y]
  by (simp add: bit_xor_iff)

lemma wrap_plus:
  fixes s t :: "32 word"
  shows "sint (s + t) = (if sint s + sint t < - (2 ^ 31) then sint s + sint t + 2 ^ 32
    else if sint s + sint t \<ge> 2 ^ 31 then sint s + sint t - 2 ^ 32 else sint s + sint t)"
proof -
  have "sint (s + t) = (if S + T < - (2 ^ 31) then S + T + 2 ^ 32 else if S + T \<ge> 2 ^ 31 then S + T - 2 ^ 32 else S + T)"
    if "S = sint s" "T = sint t" for S T
  proof -
    have r: "in_int32 S" "in_int32 T" using that by simp_all
    define V where "V = (if S + T < - (2 ^ 31) then S + T + 2 ^ 32 else if S + T \<ge> 2 ^ 31 then S + T - 2 ^ 32 else S + T)"
    have "s + t = word_of_int (S + T)" using that by simp
    also have "\<dots> = (word_of_int V :: 32 word)"
      by (auto simp: V_def word_of_int_eq_iff take_bit_eq_mod mod_simps)
    finally have "sint (s + t) = V" using r by (simp add: in_int32_def V_def)
    then show ?thesis by (simp add: V_def)
  qed
  then show ?thesis by blast
qed

lemma add_overflow_iff:
  fixes s t :: "32 word"
  shows "(\<not> (s XOR t) AND 0x80000000 \<noteq> 0 \<and> (s XOR (s + t)) AND 0x80000000 \<noteq> 0) \<longleftrightarrow> \<not> in_int32 (sint s + sint t)"
proof -
  have "in_int32 (sint s)" "in_int32 (sint t)" by simp_all
  then show ?thesis unfolding sign_xor wrap_plus [of s t] by (auto simp: in_int32_def)
qed

lemma sub_overflow_iff:
  fixes s t :: "32 word"
  shows "((s XOR t) AND 0x80000000 \<noteq> 0 \<and> (s XOR (s - t)) AND 0x80000000 \<noteq> 0) \<longleftrightarrow> \<not> in_int32 (sint s - sint t)"
proof -
  have r: "in_int32 (sint s)" "in_int32 (sint t)" "in_int32 (sint (s - t))" by simp_all
  have "sint s = (if sint (s - t) + sint t < - (2 ^ 31) then sint (s - t) + sint t + 2 ^ 32
    else if sint (s - t) + sint t \<ge> 2 ^ 31 then sint (s - t) + sint t - 2 ^ 32 else sint (s - t) + sint t)"
    using wrap_plus [of "s - t" t] by simp
  with r show ?thesis unfolding sign_xor by (auto simp: in_int32_def split: if_splits)
qed

section \<open>One whole instruction\<close>

text \<open>A successful access changes nothing but the marks of the entry it went through.\<close>

lemma ReadMem_Some:
  assumes m: "mach_ok m" and sz: "sz \<in> {1, 2, 4}" and R: "ReadMem h va sz m = Inr (Some v, m1)"
  shows "registers m1 = registers m" "mainMemory m1 = mainMemory m" "mach_ok m1" "kernel m1 = kernel m" "aligned va sz"
proof -
  have t: "table_ok m" "length (mainMemory m) = 16384" using m by (auto simp: mach_ok_def mach_len_def)
  have "registers m1 = registers m \<and> mainMemory m1 = mainMemory m \<and> mach_ok m1 \<and> kernel m1 = kernel m \<and> aligned va sz"
  proof (cases rule: Translate_cases [OF t(1) sz, of va False, case_names trap mapped])
    case (trap e)
    then show ?thesis using R by (auto simp: ReadMem_def rbind_eq_Inr)
  next
    case (mapped i p)
    then have "m1 = set_entry i (touch False (entries m ! i)) m"
      using R ReadMem_mapped [OF mapped(1) sz, of h] t(2) by simp
    then show ?thesis using mach_ok_set_entry(2) [OF m] mapped(2) by simp
  qed
  then show "registers m1 = registers m" "mainMemory m1 = mainMemory m" "mach_ok m1" "kernel m1 = kernel m" "aligned va sz"
    by simp_all
qed

text \<open>What follows the \<^verbatim>\<open>switch\<close>: the delayed load is performed and the program counters advance.\<close>

lemma retire_ok:
  assumes "mach_len m" and "k < 32"
  obtains m' where "rbind (DelayedLoad k v m) (\<lambda>m3. let m4 = set_reg PrevPCReg (reg m3 PCReg) m3;
        m5 = set_reg PCReg (reg m4 NextPCReg) m4 in Inr (set_reg NextPCReg pc m5)) = Inr m'" "mach_ok m'"
    "registers m' = (registers m)[nat (uint (reg m LoadReg)) := reg m LoadValueReg, LoadReg := of_nat k,
       LoadValueReg := v, 0 := 0, PrevPCReg := reg m PCReg, PCReg := reg m NextPCReg, NextPCReg := pc]"
proof -
  obtain m3 where m3: "DelayedLoad k v m = Inr m3" "mach_ok m3" 
    "registers m3 = (registers m)[nat (uint (reg m LoadReg)) := reg m LoadValueReg, LoadReg := of_nat k,
       LoadValueReg := v, 0 := 0]"
    using DelayedLoad_ok [OF assms] by metis
  have l: "uint (reg m LoadReg) < 32" "length (registers m) = 40" using assms(1) by (simp_all add: mach_len_def reg_def)
  define R where "R = (registers m)[nat (uint (reg m LoadReg)) := reg m LoadValueReg, LoadReg := of_nat k,
       LoadValueReg := v, 0 := 0]"
  have ne: "nat (uint (reg m LoadReg)) \<noteq> 34" "nat (uint (reg m LoadReg)) \<noteq> 35"
    using l(1) uint_ge_0 [of "reg m LoadReg"] by linarith+
  have pcs: "reg m3 PCReg = reg m PCReg" "reg m3 NextPCReg = reg m NextPCReg"
    unfolding reg_def m3(3) using ne by (simp_all add: reg_nums reg_def)
  have ok: "mach_ok (set_reg i x m3')" if "mach_ok m3'" "i \<in> {34, 35, 36}" for i x and m3' :: "'a Machine"
    using that by (auto simp: mach_ok_def mach_len_def table_ok_def reg_nums)
  have nx: "reg (set_reg PrevPCReg (reg m PCReg) m3) NextPCReg = reg m NextPCReg"
    using pcs(2) by (simp add: reg_def reg_nums)
  have "rbind (DelayedLoad k v m) (\<lambda>m3. let m4 = set_reg PrevPCReg (reg m3 PCReg) m3;
        m5 = set_reg PCReg (reg m4 NextPCReg) m4 in Inr (set_reg NextPCReg pc m5))
      = Inr (set_reg NextPCReg pc (set_reg PCReg (reg m NextPCReg) (set_reg PrevPCReg (reg m PCReg) m3)))"
    by (simp add: m3(1) Let_def nx pcs)
  moreover have "mach_ok (set_reg NextPCReg pc (set_reg PCReg (reg m NextPCReg) (set_reg PrevPCReg (reg m PCReg) m3)))"
    by (intro ok m3(2)) (simp_all add: reg_nums)
  ultimately show ?thesis using that m3(3) by simp
qed

lemma OneInstruction_fetch:
  assumes "ReadMem h (reg m PCReg) 4 m = Inr (Some raw, m1)"
    and "exec_add_bne h (Instruction_Decode raw) (reg m1 NextPCReg + 4) m1 = Inr (m2, nx)"
  shows "OneInstruction h m = (case nx of None \<Rightarrow> Inr m2 | Some (pc, k, v) \<Rightarrow>
    rbind (DelayedLoad k v m2) (\<lambda>m3. let m4 = set_reg PrevPCReg (reg m3 PCReg) m3;
        m5 = set_reg PCReg (reg m4 NextPCReg) m4 in Inr (set_reg NextPCReg pc m5)))"
  using assms by (simp add: OneInstruction_def Let_def split: option.split)

lemma exception_state_pcs:
  assumes m: "mach_ok m" and x: "exception_state m mx"
  shows "reg mx PCReg = reg m PCReg \<and> reg mx NextPCReg = reg m NextPCReg \<and> reg mx PrevPCReg = reg m PrevPCReg"
proof -
  obtain bad where R: "registers mx = (registers m)[BadVAddrReg := bad, nat (uint (reg m LoadReg)) := reg m LoadValueReg,
      LoadReg := 0, LoadValueReg := 0, 0 := 0]" using x by (auto simp: exception_state_def)
  have "uint (reg m LoadReg) < 32" using m by (simp add: mach_ok_def mach_len_def reg_def)
  then have ne: "nat (uint (reg m LoadReg)) \<noteq> 34" "nat (uint (reg m LoadReg)) \<noteq> 35" "nat (uint (reg m LoadReg)) \<noteq> 36"
    using uint_ge_0 [of "reg m LoadReg"] by linarith+
  show ?thesis unfolding reg_def [of mx] R using ne by (simp add: reg_nums) (simp add: reg_def)
qed

lemma retire_pcs:
  assumes "mach_len m" and "k < 32"
  shows "\<exists>m'. rbind (DelayedLoad k v m) (\<lambda>m3. let m4 = set_reg PrevPCReg (reg m3 PCReg) m3;
        m5 = set_reg PCReg (reg m4 NextPCReg) m4 in Inr (set_reg NextPCReg pc m5)) = Inr m'
      \<and> mach_ok m' \<and> reg m' PrevPCReg = reg m PCReg \<and> reg m' PCReg = reg m NextPCReg"
proof -
  obtain m' where m': "rbind (DelayedLoad k v m) (\<lambda>m3. let m4 = set_reg PrevPCReg (reg m3 PCReg) m3;
        m5 = set_reg PCReg (reg m4 NextPCReg) m4 in Inr (set_reg NextPCReg pc m5)) = Inr m'" "mach_ok m'"
    "registers m' = (registers m)[nat (uint (reg m LoadReg)) := reg m LoadValueReg, LoadReg := of_nat k,
       LoadValueReg := v, 0 := 0, PrevPCReg := reg m PCReg, PCReg := reg m NextPCReg, NextPCReg := pc]"
    by (rule retire_ok [OF assms])
  have "length (registers m) = 40" using assms(1) by (simp add: mach_len_def)
  then have "reg m' PrevPCReg = reg m PCReg \<and> reg m' PCReg = reg m NextPCReg"
    unfolding reg_def [of m'] m'(3) by (simp add: reg_nums)
  with m'(1,2) show ?thesis by blast
qed

text \<open>The outcome of a whole instruction, from the outcome of the \<^verbatim>\<open>switch\<close>.\<close>

lemma OneInstruction_outcome:
  assumes m: "mach_ok m"
    and st: "\<forall>raw m1. ReadMem h (reg m PCReg) 4 m = Inr (Some raw, m1) \<longrightarrow> \<not> stops_simulator (Instruction_Decode raw) m1"
  shows "(\<exists>m'. OneInstruction h m = Inr m' \<and> mach_ok m' \<and> reg m' PrevPCReg = reg m PCReg \<and> reg m' PCReg = reg m NextPCReg)
    \<or> (\<exists>e mx. OneInstruction h m = handled h e mx \<and> exception_state m mx)"
proof -
  have four: "(4 :: int) \<in> {1, 2, 4}" by simp
  show ?thesis
  proof (cases rule: ReadMem_outcome [OF m four, of h "reg m PCReg", case_names value_read exception])
    case (exception e mx)
    then have "OneInstruction h m = handled h e mx" by (simp add: OneInstruction_def rbind_assoc rbind_unit)
    with exception show ?thesis by blast
  next
    case (value_read raw m1)
    have g: "reg m1 j = reg m j" for j using value_read(3) by (simp add: reg_def)
    have "exec_good h m (exec_add_bne h (Instruction_Decode raw) (reg m1 NextPCReg + 4) m1)"
      using exec_good_cong [OF exec_total [OF value_read(2) Decode_ok] value_read(3-5)] st value_read(1) by blast
    then consider (completes) m2 pc k v where
        "exec_add_bne h (Instruction_Decode raw) (reg m1 NextPCReg + 4) m1 = Inr (m2, Some (pc, k, v))"
        "mach_len m2" "k < 32" "reg m2 PCReg = reg m PCReg" "reg m2 NextPCReg = reg m NextPCReg"
      | (raises) e mx where "exec_add_bne h (Instruction_Decode raw) (reg m1 NextPCReg + 4) m1
          = rbind (handled h e mx) (\<lambda>m'. Inr (m', None))" "exception_state m mx"
      unfolding exec_good_def by blast
    then show ?thesis
    proof cases
      case completes
      then show ?thesis using OneInstruction_fetch [OF value_read(1) completes(1)] retire_pcs [OF completes(2,3), of v pc]
        by auto
    next
      case raises
      then have "OneInstruction h m = handled h e mx"
        using value_read(1) by (simp add: OneInstruction_def rbind_assoc rbind_unit)
      with raises(2) show ?thesis by blast
    qed
  qed
qed

text \<open>
  C14. Instructions are atomic, whatever word the program counter points at, unless the word is a partial
  access (\<^verbatim>\<open>LWL\<close>, \<^verbatim>\<open>LWR\<close>, \<^verbatim>\<open>SWL\<close>, \<^verbatim>\<open>SWR\<close>) to an unaligned address or a division of the smallest number by -1, which
  stop the simulator. Nothing is assumed of the exception handler. Either the instruction completes, the machine is well-formed
  again (registers and memory of the right size, register 0 zero, a pending load that names a register) and the
  program counters have advanced to the next instruction; or the handler is called, exactly once, on a
  well-formed machine in system mode that still has the memory and the program counters of before, with all other
  registers unchanged but for the pending load, which is performed, and the bad address, which is
  recorded, and the outcome of the instruction is the outcome of the handler (which may stop the
  simulator, as the kernel's does for all exceptions but the system call).
\<close>

theorem OneInstruction_total:
  assumes m: "mach_ok m"
    and st: "\<forall>raw m1. ReadMem h (reg m PCReg) 4 m = Inr (Some raw, m1) \<longrightarrow> \<not> stops_simulator (Instruction_Decode raw) m1"
  shows "(\<exists>m'. OneInstruction h m = Inr m' \<and> mach_ok m' \<and> reg m' PrevPCReg = reg m PCReg \<and> reg m' PCReg = reg m NextPCReg)
    \<or> (\<exists>e mx. OneInstruction h m = rbind (h e mx) (\<lambda>m'. Inr (m'\<lparr>status := UserMode\<rparr>)) \<and> mach_ok mx
        \<and> status mx = SystemMode \<and> mainMemory mx = mainMemory m \<and> kernel mx = kernel m
        \<and> (\<exists>bad. registers mx = (registers m)[BadVAddrReg := bad, nat (uint (reg m LoadReg)) := reg m LoadValueReg,
             LoadReg := 0, LoadValueReg := 0, 0 := 0])
        \<and> reg mx PCReg = reg m PCReg \<and> reg mx NextPCReg = reg m NextPCReg \<and> reg mx PrevPCReg = reg m PrevPCReg)"
proof -
  note outcome = OneInstruction_outcome [OF m st]
  have pcs: "reg mx PCReg = reg m PCReg \<and> reg mx NextPCReg = reg m NextPCReg \<and> reg mx PrevPCReg = reg m PrevPCReg"
    if "exception_state m mx" for mx
    by (rule exception_state_pcs [OF m that])
  from outcome pcs show ?thesis unfolding exception_state_def handled_def by blast
qed

text \<open>The sample machine with other registers and another memory: page 0 is in frame 5.\<close>

definition loaded_machine :: "32 word list \<Rightarrow> byte list \<Rightarrow> unit Machine" where
  "loaded_machine rg mem = sample_machine\<lparr>registers := rg, mainMemory := mem\<rparr>"

lemma loaded_machine_ok:
  "length rg = 40 \<Longrightarrow> rg ! 0 = 0 \<Longrightarrow> uint (rg ! LoadReg) < 32 \<Longrightarrow> length mem = 16384 \<Longrightarrow> mach_ok (loaded_machine rg mem)"
  using sample_machine_ok by (simp add: loaded_machine_def mach_ok_def mach_len_def table_ok_def)

lemma sample_fetch:
  assumes "length mem = 16384"
  shows "\<exists>m1. ReadMem h 0 4 (loaded_machine rg mem) = Inr (Some (hd (words_of (take 4 (drop 640 mem)))), m1)"
proof -
  let ?m = "loaded_machine rg mem"
  have e: "frame_of (entries ?m ! 0) = 5" "find_entry (uint (0 :: 32 word) div 128) ?m = Inr 0"
    by (simp_all add: entries_def find_entry_def loaded_machine_def sample_machine_def Machine_new_def machine_consts frame_of_def)
  have t: "table_ok ?m" "aligned 0 4"
    using sample_machine_ok by (simp_all add: loaded_machine_def mach_ok_def mach_len_def table_ok_def aligned_def)
  have "Translate 0 4 False ?m = Inr (Inr 640, set_entry 0 (touch False (entries ?m ! 0)) ?m)"
    using Translate_mapped [OF t _ e(2), of False] e(1) by (simp add: loaded_machine_def)
  then show ?thesis using ReadMem_mapped [of 0 4 ?m 640 _ h] assms by (simp add: load_value_def loaded_machine_def)
qed

text \<open>
  With the kernel's handler: the word 0 (a shift of register 0) completes, and a program counter outside
  the page table reaches the handler, which stops.
\<close>

theorem OneInstruction_total_witness:
  "(\<exists>m'. OneInstruction kernel_abort sample_machine = Inr m' \<and> mach_ok m' \<and> reg m' PrevPCReg = 0 \<and> reg m' PCReg = 0)
   \<and> OneInstruction kernel_abort (set_reg PCReg 256 sample_machine) = Inl AssertFail
   \<and> (\<exists>mx :: unit Machine. mach_ok mx \<and> status mx = SystemMode \<and> mainMemory mx = mainMemory sample_machine \<and> reg mx PCReg = 256)"
proof -
  let ?m = "set_reg PCReg 256 sample_machine"
  have r: "reg sample_machine PCReg = 0" "reg sample_machine NextPCReg = 0" "reg ?m PCReg = 256"
    by (simp_all add: reg_def sample_machine_def Machine_new_def reg_nums)
  have s: "sample_machine = loaded_machine (replicate 40 0) (replicate 16384 0)"
    by (simp add: loaded_machine_def sample_machine_def Machine_new_def reg_nums machine_consts)
  have z: "take 4 (drop 640 (replicate 16384 (0 :: byte))) = [0, 0, 0, 0]" by (simp add: replicate_Suc numeral_eq_Suc)
  obtain m1 where F: "ReadMem kernel_abort 0 4 sample_machine = Inr (Some 0, m1)"
    using sample_fetch [of "replicate 16384 0" kernel_abort "replicate 40 0"] unfolding s z by auto
  let ?i = "Instruction_Decode 0"
  have op: "opCode ?i = OP_SLL" "rd ?i = 0" by (simp_all add: Instruction_Decode_def opTable_def specialTable_def Let_def)
  then obtain v where x: "exec_add_bne kernel_abort ?i (reg m1 NextPCReg + 4) m1 =
      break_with (reg m1 NextPCReg + 4) (set_reg 0 v m1)"
    using exec_fall_through [of ?i kernel_abort "reg m1 NextPCReg + 4" m1] by (auto simp: exec_sb_srlv_def Let_def)
  have "mach_len (set_reg 0 v m1)" 
    by (rule set_gp_reg [OF mach_ok_len [OF ReadMem_Some(3) [OF sample_machine_ok _ F]]]) simp_all
  from retire_pcs [OF this, of 0 0] have ex: "\<exists>m'. OneInstruction kernel_abort sample_machine = Inr m'"
    using OneInstruction_fetch [of kernel_abort sample_machine 0 m1] F r(1) x by (auto simp: break_with_def)
  have "\<not> stops_simulator ?i m1" using op by (simp add: stops_simulator_def)
  then have one: "(\<exists>m'. OneInstruction kernel_abort sample_machine = Inr m' \<and> mach_ok m' \<and> reg m' PrevPCReg = 0 \<and> reg m' PCReg = 0)"
    using OneInstruction_total [OF sample_machine_ok, of kernel_abort] ex F r by (auto simp: kernel_abort_def)
  have m: "mach_ok ?m" using sample_machine_ok by (simp add: mach_ok_def mach_len_def table_ok_def reg_nums)
  have "find_entry 2 ?m = Inl AddressErrorException"
    by (simp add: find_entry_def sample_machine_def Machine_new_def)
  then have "Translate 256 4 False ?m = Inr (Inl AddressErrorException, ?m)"
    by (simp add: Translate_def sample_machine_def Machine_new_def machine_consts)
  moreover have "RaiseException kernel_abort AddressErrorException 256 ?m = Inl AssertFail"
    by (rule RaiseException_enters [OF mach_ok_len [OF m], of kernel_abort AddressErrorException 256])
      (simp add: handled_def kernel_abort_def)
  ultimately have R: "ReadMem kernel_abort 256 4 ?m = Inl AssertFail" by (simp add: ReadMem_def)
  have "OneInstruction kernel_abort ?m = Inl AssertFail" using R r(3) by (simp add: OneInstruction_def)
  moreover from this OneInstruction_total [OF m, of kernel_abort] R r(3)
  obtain mx :: "unit Machine" where "mach_ok mx" "status mx = SystemMode" "mainMemory mx = mainMemory sample_machine" "reg mx PCReg = 256"
    by auto
  ultimately show ?thesis using one by blast
qed

text \<open>
  C25. The shift-and-add multiplication computes the exact 64-bit product, of the operands read as signed
  or as unsigned numbers, for all 2^64 pairs of operands.
\<close>

theorem Mult_correct:
  "dword (fst (Mult a b signedArith)) (snd (Mult a b signedArith))
     = (if signedArith then sint a * sint b else uint a * uint b) mod 2 ^ 64"
  using Mult_value [of a b signedArith] by (cases "Mult a b signedArith") simp

text \<open>
  C26. The overflow tests are exact: \<^verbatim>\<open>ADD\<close>, \<^verbatim>\<open>ADDI\<close> and \<^verbatim>\<open>SUB\<close> trap if and only if the mathematical result does
  not fit in 32 bits, and then change no register; otherwise the target register gets that result.
\<close>

theorem overflow_exact:
  assumes "opCode i \<in> {OP_ADD, OP_ADDI, OP_SUB}"
  shows "exec_add_bne h i pcAfter m =
    (let s = sint (reg m (rs i));
         v = (if opCode i = OP_ADD then s + sint (reg m (rt i)) else if opCode i = OP_ADDI then s + sint (extra i)
              else s - sint (reg m (rt i)));
         target = (if opCode i = OP_ADDI then rt i else rd i)
     in if in_int32 v then break_with pcAfter (set_reg target (word_of_int v) m)
        else trap h OverflowException 0 m)"
proof -
  let ?s = "reg m (rs i)" and ?t = "reg m (rt i)" and ?x = "extra i"
  have x: "(\<not> (?s XOR ?x) AND 0x80000000 \<noteq> 0 \<and> (?x XOR (?s + ?x)) AND 0x80000000 \<noteq> 0) \<longleftrightarrow> \<not> in_int32 (sint ?s + sint ?x)"
    using add_overflow_iff [of ?x ?s] by (simp only: add.commute xor.commute)
  note t = add_overflow_iff [of ?s ?t] sub_overflow_iff [of ?s ?t] x
  consider "opCode i = OP_ADD" | "opCode i = OP_ADDI" | "opCode i = OP_SUB" using assms by blast
  then show ?thesis
  proof cases
    case 1
    then show ?thesis by (simp add: exec_add_bne_def Let_def SIGN_BIT_def t [simplified])
  next
    case 2
    then show ?thesis by (simp add: exec_add_bne_def Let_def SIGN_BIT_def t [simplified])
  next
    case 3
    then have "exec_add_bne h i pcAfter m = exec_sub_swr h i pcAfter m" using exec_fall_through [of i h pcAfter m] by simp
    with 3 show ?thesis by (simp add: exec_sub_swr_def Let_def SIGN_BIT_def t [simplified])
  qed
qed

theorem overflow_exact_witness:
  "\<exists>m'. exec_add_bne (\<lambda>e m. Inr m) (Instruction_Decode 0x2001ffff) 8 sample_machine = break_with 8 m'
    \<and> reg m' 1 = word_of_int (- 1)"
proof -
  let ?i = "Instruction_Decode 0x2001ffff"
  have i: "opCode ?i = OP_ADDI" "rs ?i = 0" "rt ?i = 1" "sint (extra ?i) = - 1"
    by (simp_all add: Instruction_Decode_def opTable_def Let_def)
  have r: "reg sample_machine 0 = 0" "length (registers sample_machine) = 40"
    by (simp_all add: reg_def sample_machine_def Machine_new_def reg_nums)
  have "exec_add_bne (\<lambda>e m. Inr m) ?i 8 sample_machine = break_with 8 (set_reg 1 (word_of_int (- 1)) sample_machine)"
    using overflow_exact [of ?i "\<lambda>e m. Inr m" 8 sample_machine] i r by (simp add: in_int32_def Let_def)
  moreover have "reg (set_reg 1 (word_of_int (- 1)) sample_machine) 1 = word_of_int (- 1)"
    using r(2) by (simp add: reg_def del: of_int_minus of_int_1)
  ultimately show ?thesis by blast
qed

text \<open>
  The load delay slot: a word load leaves its value pending, so the instruction after it still sees
  the old value of the target register (unless an earlier load to that register was pending), while the
  program counters move on by one instruction.
\<close>

lemma LW_delayed:
  assumes m: "mach_ok m" and F: "ReadMem h (reg m PCReg) 4 m = Inr (Some raw, m1)"
    and op: "opCode (Instruction_Decode raw) = OP_LW" and k: "k = rt (Instruction_Decode raw)" "k \<noteq> 0"
    and D: "ReadMem h (reg m (rs (Instruction_Decode raw)) + extra (Instruction_Decode raw)) 4 m1 = Inr (Some v, m2)"
    and np: "reg m LoadReg \<noteq> of_nat k"
  shows "\<exists>m'. OneInstruction h m = Inr m' \<and> mach_ok m' \<and> reg m' k = reg m k
    \<and> reg m' LoadReg = of_nat k \<and> reg m' LoadValueReg = v
    \<and> reg m' PCReg = reg m NextPCReg \<and> reg m' NextPCReg = reg m NextPCReg + 4 \<and> reg m' PrevPCReg = reg m PCReg"
proof -
  let ?i = "Instruction_Decode raw"
  have r1: "registers m1 = registers m" "mach_ok m1" using ReadMem_Some [OF m _ F] by simp_all
  have r2: "registers m2 = registers m" "mach_ok m2" "(reg m (rs ?i) + extra ?i) AND 3 = 0"
    using ReadMem_Some [OF r1(2) _ D] r1(1) by (simp_all add: aligned_def)
  have g: "reg m1 j = reg m j" "reg m2 j = reg m j" for j using r1 r2 by (simp_all add: reg_def)
  have "exec_add_bne h ?i (reg m1 NextPCReg + 4) m1 = exec_lb_lw h ?i (reg m NextPCReg + 4) m1"
    using exec_fall_through [of ?i h "reg m NextPCReg + 4" m1] op g by simp
  also have "\<dots> = Inr (m2, Some (reg m NextPCReg + 4, k, v))"
    using op D r2(3) k(1) g by (simp add: exec_lb_lw_def Let_def)
  finally have O: "OneInstruction h m = rbind (DelayedLoad k v m2) (\<lambda>m3. let m4 = set_reg PrevPCReg (reg m3 PCReg) m3;
        m5 = set_reg PCReg (reg m4 NextPCReg) m4 in Inr (set_reg NextPCReg (reg m NextPCReg + 4) m5))"
    using OneInstruction_fetch [OF F] by simp
  have k32: "k < 32" using Decode_ok [of raw] k by (simp add: instr_ok_def)
  obtain m' where m': "OneInstruction h m = Inr m'" "mach_ok m'"
    "registers m' = (registers m)[nat (uint (reg m LoadReg)) := reg m LoadValueReg, LoadReg := of_nat k,
       LoadValueReg := v, 0 := 0, PrevPCReg := reg m PCReg, PCReg := reg m NextPCReg, NextPCReg := reg m NextPCReg + 4]"
    by (rule retire_ok [OF mach_ok_len [OF r2(2)] k32, of v "reg m NextPCReg + 4"])
      (simp only: O [symmetric] g r2(1))
  have len: "length (registers m) = 40" using m by (simp add: mach_ok_def mach_len_def)
  have "unat (reg m LoadReg) \<noteq> k" using np by auto
  then have "reg m' k = reg m k" using k(2) k32 len m'(3) by (simp add: reg_def reg_nums)
  moreover have "reg m' LoadReg = of_nat k" "reg m' LoadValueReg = v" "reg m' PCReg = reg m NextPCReg"
    "reg m' NextPCReg = reg m NextPCReg + 4" "reg m' PrevPCReg = reg m PCReg"
    unfolding reg_def m'(3) using len by (simp_all add: reg_nums)
  ultimately show ?thesis using m'(1,2) by simp
qed

section \<open>Where the interpreter departs from the instruction set\<close>

lemma signed_drop_bit_logical:
  assumes "n < 32"
  shows "signed_drop_bit n (x :: 32 word) = drop_bit n x \<longleftrightarrow> n = 0 \<or> 0 \<le> sint x"
proof
  assume eq: "signed_drop_bit n x = drop_bit n x"
  have "bit (signed_drop_bit n x) 31 \<longleftrightarrow> bit x 31" by (cases "n = 0") (auto simp: bit_signed_drop_bit_iff)
  moreover have "n \<noteq> 0 \<Longrightarrow> \<not> bit (drop_bit n x) 31" using bit_imp_le_length [of x "n + 31"] by (auto simp: bit_drop_bit_eq)
  ultimately show "n = 0 \<or> 0 \<le> sint x" using eq sign_bit_bit [of x] sign_bit_neg [of x] by auto
next
  assume "n = 0 \<or> 0 \<le> sint x"
  then show "signed_drop_bit n x = drop_bit n x"
  proof
    assume "0 \<le> sint x"
    then have "\<not> bit x 31" using sign_bit_bit [of x] sign_bit_neg [of x] by auto
    then show ?thesis by (intro bit_eqI) (auto simp: bit_signed_drop_bit_iff bit_drop_bit_eq dest: bit_imp_le_length)
  qed simp
qed

lemma or_same_iff: "(x :: 32 word) = x OR y \<longleftrightarrow> y AND NOT x = 0"
proof
  assume "x = x OR y"
  then have "y AND NOT x = y AND NOT (x OR y)" by simp
  also have "\<dots> = 0" by (rule bit_eqI) (auto simp: bit_simps)
  finally show "y AND NOT x = 0" .
next
  assume e: "y AND NOT x = 0"
  show "x = x OR y"
  proof (rule bit_word_eqI)
    fix n :: nat assume n: "n < LENGTH(32)"
    then have "\<not> bit (y AND NOT x) n" using e by simp
    with n show "bit x n \<longleftrightarrow> bit (x OR y) n" by (auto simp: bit_simps)
  qed
qed

text \<open>The value an instruction computes into \<^verbatim>\<open>rd\<close> is there after it, unless a load to that register was pending.\<close>

lemma mach_ok_regs: "mach_ok m \<Longrightarrow> length (registers m) = 40"
  by (simp add: mach_ok_def mach_len_def)

lemma computed_result:
  assumes m: "mach_ok m" and F: "ReadMem h (reg m PCReg) 4 m = Inr (Some raw, m1)"
    and x: "exec_add_bne h (Instruction_Decode raw) (reg m1 NextPCReg + 4) m1 = break_with pc (set_reg k v m1)"
    and k: "k \<noteq> 0" "k < 32" "reg m LoadReg \<noteq> of_nat k"
  shows "\<exists>m'. OneInstruction h m = Inr m' \<and> reg m' k = v"
proof -
  have r1: "registers m1 = registers m" "mach_ok m1" using ReadMem_Some [OF m _ F] by simp_all
  let ?m = "set_reg k v m1"
  have len: "mach_len ?m" "length (registers ?m) = 40"
    using set_gp_reg [OF mach_ok_len [OF r1(2)], of k v] k(2) by (simp, simp add: r1(1) mach_ok_regs [OF m])
  have lr: "reg ?m LoadReg = reg m LoadReg" using k(2) r1(1) by (simp add: reg_def reg_nums)
  obtain m' where m': "rbind (DelayedLoad 0 0 ?m) (\<lambda>m3. let m4 = set_reg PrevPCReg (reg m3 PCReg) m3;
        m5 = set_reg PCReg (reg m4 NextPCReg) m4 in Inr (set_reg NextPCReg pc m5)) = Inr m'"
    "registers m' = (registers ?m)[nat (uint (reg ?m LoadReg)) := reg ?m LoadValueReg, LoadReg := of_nat 0,
       LoadValueReg := 0, 0 := 0, PrevPCReg := reg ?m PCReg, PCReg := reg ?m NextPCReg, NextPCReg := pc]"
    by (rule retire_ok [OF len(1), of 0 0 pc]) simp_all
  have "nat (uint (reg m LoadReg)) \<noteq> k" using k(3) by auto
  then have "reg m' k = v" unfolding reg_def [of m'] m'(2) lr using k len(2) by (simp add: reg_nums)
  moreover have "OneInstruction h m = Inr m'"
    using OneInstruction_fetch [OF F] x m'(1) by (simp add: break_with_def)
  ultimately show ?thesis by blast
qed

lemma SRL_extra:
  assumes "opCode (Instruction_Decode raw) = OP_SRL"
  shows "extra (Instruction_Decode raw) = drop_bit 6 raw AND 0x1f"
proof -
  let ?p = "opTable ! unat (drop_bit 26 raw AND 0x3f)"
  have "length opTable = 64" "list_all (\<lambda>p. fst p \<noteq> OP_SRL \<and> (fst p = SPECIAL \<longrightarrow> snd p = RFMT)) opTable"
    by (simp_all add: opTable_def)
  moreover have "unat (drop_bit 26 raw AND 0x3f) < 64" using unat_and_le [of "drop_bit 26 raw" "0x3f"] by simp
  ultimately have "fst ?p \<noteq> OP_SRL" "fst ?p = SPECIAL \<Longrightarrow> snd ?p = RFMT" by (simp_all add: list_all_length)
  moreover have "fst ?p = SPECIAL"
    using assms \<open>fst ?p \<noteq> OP_SRL\<close> by (auto simp: Instruction_Decode_def Let_def split: if_splits)
  ultimately show ?thesis by (simp add: Instruction_Decode_def Let_def)
qed

text \<open>
  C27. Where \<^verbatim>\<open>OR\<close> and \<^verbatim>\<open>SRL\<close> are wrong, exactly. After a whole \<^verbatim>\<open>OR\<close> instruction the target register holds
  the bitwise or of the operands only if the second operand has no bit that the first one lacks; after a
  whole \<^verbatim>\<open>SRL\<close> it holds the logically shifted operand only if the shift amount is 0 or the operand is not
  negative; and in these cases it does. (The instruction was fetched, the target is not register 0 and
  no load to it was pending.)
\<close>

theorem or_srl_exact:
  assumes m: "mach_ok m" and F: "ReadMem h (reg m PCReg) 4 m = Inr (Some raw, m1)"
    and k: "rd (Instruction_Decode raw) \<noteq> 0" "reg m LoadReg \<noteq> of_nat (rd (Instruction_Decode raw))"
  shows "(opCode (Instruction_Decode raw) = OP_OR \<longrightarrow> (\<exists>m'. OneInstruction h m = Inr m' \<and>
      (reg m' (rd (Instruction_Decode raw)) = reg m (rs (Instruction_Decode raw)) OR reg m (rt (Instruction_Decode raw))
        \<longleftrightarrow> reg m (rt (Instruction_Decode raw)) AND NOT (reg m (rs (Instruction_Decode raw))) = 0)))
    \<and> (opCode (Instruction_Decode raw) = OP_SRL \<longrightarrow> (\<exists>m'. OneInstruction h m = Inr m' \<and>
      (reg m' (rd (Instruction_Decode raw)) = drop_bit (unat (drop_bit 6 raw AND 0x1f)) (reg m (rt (Instruction_Decode raw)))
        \<longleftrightarrow> drop_bit 6 raw AND 0x1f = 0 \<or> 0 \<le> sint (reg m (rt (Instruction_Decode raw))))))"
proof -
  let ?i = "Instruction_Decode raw" and ?pc = "reg m1 NextPCReg + 4" and ?sh = "drop_bit 6 raw AND 0x1f"
  have g: "reg m1 j = reg m j" for j using ReadMem_Some(1) [OF m _ F] by (simp add: reg_def)
  have k32: "rd ?i < 32" using Decode_ok [of raw] by (simp add: instr_ok_def)
  note result = computed_result [OF m F _ k(1) k32 k(2)]
  have OR: "\<exists>m'. OneInstruction h m = Inr m' \<and> reg m' (rd ?i) = reg m (rs ?i)" if "opCode ?i = OP_OR"
    using that exec_fall_through [of ?i h ?pc m1] g by (intro result) (simp add: exec_mfhi_ori_def Let_def)
  have SRL: "\<exists>m'. OneInstruction h m = Inr m' \<and> reg m' (rd ?i) = signed_drop_bit (unat (extra ?i)) (reg m (rt ?i))"
    if "opCode ?i = OP_SRL"
    using that exec_fall_through [of ?i h ?pc m1] g by (intro result) (simp add: exec_sb_srlv_def Let_def)
  have "opCode ?i = OP_SRL \<Longrightarrow> extra ?i = ?sh" by (rule SRL_extra)
  moreover have "unat ?sh < 32" using unat_and_le [of "drop_bit 6 raw" "0x1f"] by simp
  then have "signed_drop_bit (unat ?sh) y = drop_bit (unat ?sh) y \<longleftrightarrow> ?sh = 0 \<or> 0 \<le> sint y" for y :: "32 word"
    using signed_drop_bit_logical [of "unat ?sh" y] by (simp add: unat_eq_0)
  ultimately show ?thesis using OR SRL or_same_iff by metis
qed

text \<open>
  \<^verbatim>\<open>or $1, $1, $2\<close> with 1 and 6 does not give 7, and \<^verbatim>\<open>srl $1, $2, 1\<close> of the smallest number does not give 2^30.
\<close>

theorem or_srl_exact_witness:
  "(\<exists>m'. OneInstruction kernel_abort (loaded_machine ((replicate 40 0)[1 := 1, 2 := 6])
        (patch (replicate 16384 0) 640 (le32 0x00220825))) = Inr m' \<and> reg m' 1 \<noteq> 7)
   \<and> (\<exists>m'. OneInstruction kernel_abort (loaded_machine ((replicate 40 0)[2 := 0x80000000])
        (patch (replicate 16384 0) 640 (le32 0x00020842))) = Inr m' \<and> reg m' 1 \<noteq> 0x40000000)"
proof -
  have mem: "length (patch (replicate 16384 0) 640 (le32 w)) = 16384"
    "take 4 (drop 640 (patch (replicate 16384 0) 640 (le32 w))) = le32 w" for w
    using take_drop_patch [of 640 "le32 w" "replicate 16384 0"] by simp_all
  have w: "hd (words_of (le32 v)) = v" for v using words_of_bytes_of [of "[v]"] by (simp add: bytes_of_def)
  note fetch = sample_fetch [OF mem(1), where h = kernel_abort, unfolded mem(2) w]
  let ?m1 = "loaded_machine ((replicate 40 0)[1 := 1, 2 := 6]) (patch (replicate 16384 0) 640 (le32 0x00220825))"
  let ?m2 = "loaded_machine ((replicate 40 0)[2 := 0x80000000]) (patch (replicate 16384 0) 640 (le32 0x00020842))"
  let ?i = "Instruction_Decode 0x00220825" and ?j = "Instruction_Decode 0x00020842"
  have i: "opCode ?i = OP_OR" "rs ?i = 1" "rt ?i = 2" "rd ?i = 1" "opCode ?j = OP_SRL" "rt ?j = 2" "rd ?j = 1"
    by (simp_all add: Instruction_Decode_def opTable_def specialTable_def Let_def)
  have ok: "mach_ok ?m1" "mach_ok ?m2" using mem(1) by (intro loaded_machine_ok; simp add: reg_nums)+
  have r: "reg ?m1 PCReg = 0" "reg ?m2 PCReg = 0" "reg ?m1 LoadReg = 0" "reg ?m2 LoadReg = 0"
    "reg ?m1 1 = 1" "reg ?m1 2 = 6" "reg ?m2 2 = 0x80000000"
    by (simp_all add: reg_def loaded_machine_def reg_nums)
  obtain n1 where F1: "ReadMem kernel_abort (reg ?m1 PCReg) 4 ?m1 = Inr (Some 0x00220825, n1)" using fetch r(1) by metis
  obtain n2 where F2: "ReadMem kernel_abort (reg ?m2 PCReg) 4 ?m2 = Inr (Some 0x00020842, n2)" using fetch r(2) by metis
  have "\<exists>m'. OneInstruction kernel_abort ?m1 = Inr m' \<and> (reg m' 1 = 1 OR 6 \<longleftrightarrow> 6 AND NOT 1 = (0 :: 32 word))"
    using or_srl_exact [OF ok(1) F1] unfolding i r by simp
  moreover have "\<exists>m'. OneInstruction kernel_abort ?m2 = Inr m' \<and> (reg m' 1 = drop_bit 1 0x80000000 \<longleftrightarrow> False)"
    using or_srl_exact [OF ok(2) F2] unfolding i r by simp
  ultimately show ?thesis by simp
qed

end
