(* ===== verification/Linked_List.thy ===== *)
theory Linked_List
  imports Nachos_Prelude "HOL-Library.Monad_Syntax" "HOL-Library.Multiset"
begin

text \<open>
  The singly linked list of \<^verbatim>\<open>threads/list.h\<close>, on an explicit heap: elements are cells reached through
  pointers, \<^verbatim>\<open>new\<close> takes an unused address and \<^verbatim>\<open>delete\<close> frees one. The walk of \<^verbatim>\<open>SortedInsert\<close>, \<^verbatim>\<open>Apply\<close>
  and the destructor could run forever on a cyclic structure, so they are partial functions whose
  value \<open>None\<close> means not returning. \<open>list_rep\<close> relates a list to the sequence of its keys and items,
  and the operations refine the operations on sequences that the scheduler, the semaphores and the
  pending interrupts use.
\<close>

section \<open>The heap\<close>

record 'a ListElement =
  next_elt :: "nat option" \<comment> \<open>\<^verbatim>\<open>next\<close>; \<open>None\<close> is the null pointer\<close>
  key :: int
  item :: 'a

record 'a heap =
  cells :: "nat \<rightharpoonup> 'a ListElement"
  brk :: nat \<comment> \<open>the addresses from here on are unused\<close>

definition deref :: "'a heap \<Rightarrow> nat option \<Rightarrow> 'a ListElement res" where
  "deref h p = (case p of None \<Rightarrow> Inl NullPointer
     | Some a \<Rightarrow> (case cells h a of None \<Rightarrow> Inl DanglingPointer | Some n \<Rightarrow> Inr n))"

definition alloc :: "'a ListElement \<Rightarrow> 'a heap \<Rightarrow> nat \<times> 'a heap" where
  "alloc n h = (brk h, \<lparr>cells = (cells h)(brk h \<mapsto> n), brk = Suc (brk h)\<rparr>)"

definition set_next :: "nat option \<Rightarrow> nat option \<Rightarrow> 'a heap \<Rightarrow> 'a heap res" where
  "set_next p q h = rbind (deref h p) (\<lambda>n. Inr (h\<lparr>cells := (cells h)(the p \<mapsto> n\<lparr>next_elt := q\<rparr>)\<rparr>))"

definition free :: "nat option \<Rightarrow> 'a heap \<Rightarrow> 'a heap res" where
  "free p h = rbind (deref h p) (\<lambda>n. Inr (h\<lparr>cells := (cells h)(the p := None)\<rparr>))"

section \<open>The class List\<close>

record List =
  first_elt :: "nat option" \<comment> \<open>\<^verbatim>\<open>first\<close>\<close>
  last_elt :: "nat option" \<comment> \<open>\<^verbatim>\<open>last\<close>\<close>

definition ListElement_new :: "'a \<Rightarrow> int \<Rightarrow> 'a ListElement" where
  "ListElement_new anItem sortKey = \<lparr>next_elt = None, key = sortKey, item = anItem\<rparr>"

definition List_new :: List where
  "List_new = \<lparr>first_elt = None, last_elt = None\<rparr>"

definition List_IsEmpty :: "List \<Rightarrow> bool" where
  "List_IsEmpty l \<longleftrightarrow> first_elt l = None"

definition List_Append :: "'a \<Rightarrow> 'a heap \<times> List \<Rightarrow> ('a heap \<times> List) res" where
  "List_Append it = (\<lambda>(h, l).
     let (element, h1) = alloc (ListElement_new it 0) h in
     if List_IsEmpty l then Inr (h1, l\<lparr>first_elt := Some element, last_elt := Some element\<rparr>)
     else rbind (set_next (last_elt l) (Some element) h1) (\<lambda>h2. Inr (h2, l\<lparr>last_elt := Some element\<rparr>)))"

definition List_Prepend :: "'a \<Rightarrow> 'a heap \<times> List \<Rightarrow> ('a heap \<times> List) res" where
  "List_Prepend it = (\<lambda>(h, l).
     let (element, h1) = alloc (ListElement_new it 0) h in
     if List_IsEmpty l then Inr (h1, l\<lparr>first_elt := Some element, last_elt := Some element\<rparr>)
     else rbind (set_next (Some element) (first_elt l) h1) (\<lambda>h2. Inr (h2, l\<lparr>first_elt := Some element\<rparr>)))"

text \<open>The item is \<open>None\<close> for the null item; the key is what is stored through \<^verbatim>\<open>keyPtr\<close>.\<close>

definition List_SortedRemove ::
  "'a heap \<times> List \<Rightarrow> ('a option \<times> int option \<times> 'a heap \<times> List) res" where
  "List_SortedRemove = (\<lambda>(h, l).
     let element = first_elt l in
     if List_IsEmpty l then Inr (None, None, h, l)
     else
       rbind (deref h element) (\<lambda>n.
       let thing = item n;
           l1 = (if first_elt l = last_elt l then \<lparr>first_elt = None, last_elt = None\<rparr>
                 else l\<lparr>first_elt := next_elt n\<rparr>)
       in rbind (free element h) (\<lambda>h1. Inr (Some thing, Some (key n), h1, l1))))"

definition List_Remove :: "'a heap \<times> List \<Rightarrow> ('a option \<times> 'a heap \<times> List) res" where
  "List_Remove s = rbind (List_SortedRemove s) (\<lambda>(thing, k, s1). Inr (thing, s1))"

text \<open>The \<^verbatim>\<open>for\<close> loop of \<^verbatim>\<open>SortedInsert\<close>; the flag tells whether it inserted the element and returned.\<close>

partial_function (option) insert_walk ::
  "nat option \<Rightarrow> nat \<Rightarrow> int \<Rightarrow> 'a heap \<Rightarrow> ('a heap \<times> bool) res option" where
  "insert_walk ptr element sortKey h =
     (case deref h ptr of Inl f \<Rightarrow> Some (Inl f) | Inr n \<Rightarrow>
        (case next_elt n of None \<Rightarrow> Some (Inr (h, False)) | Some q \<Rightarrow>
           (case deref h (Some q) of Inl f \<Rightarrow> Some (Inl f) | Inr m \<Rightarrow>
              if sortKey < key m
              then Some (rbind (set_next (Some element) (Some q) h) (\<lambda>h1.
                     rbind (set_next ptr (Some element) h1) (\<lambda>h2. Inr (h2, True))))
              else insert_walk (Some q) element sortKey h)))"

definition List_SortedInsert ::
  "'a \<Rightarrow> int \<Rightarrow> 'a heap \<times> List \<Rightarrow> ('a heap \<times> List) res option" where
  "List_SortedInsert it sortKey = (\<lambda>(h, l).
     let (element, h1) = alloc (ListElement_new it sortKey) h in
     if List_IsEmpty l then Some (Inr (h1, l\<lparr>first_elt := Some element, last_elt := Some element\<rparr>))
     else case deref h1 (first_elt l) of Inl f \<Rightarrow> Some (Inl f) | Inr n \<Rightarrow>
       if sortKey < key n
       then Some (rbind (set_next (Some element) (first_elt l) h1) (\<lambda>h2. Inr (h2, l\<lparr>first_elt := Some element\<rparr>)))
       else case insert_walk (first_elt l) element sortKey h1 of
           None \<Rightarrow> None
         | Some (Inl f) \<Rightarrow> Some (Inl f)
         | Some (Inr (h2, True)) \<Rightarrow> Some (Inr (h2, l))
         | Some (Inr (h2, False)) \<Rightarrow>
             Some (rbind (set_next (last_elt l) (Some element) h2) (\<lambda>h3. Inr (h3, l\<lparr>last_elt := Some element\<rparr>))))"

text \<open>\<^verbatim>\<open>Apply\<close> calls its argument on the items in this order.\<close>

partial_function (option) apply_walk :: "'a heap \<Rightarrow> nat option \<Rightarrow> 'a list res option" where
  "apply_walk h ptr =
     (case ptr of None \<Rightarrow> Some (Inr []) | Some a \<Rightarrow>
        (case deref h ptr of Inl f \<Rightarrow> Some (Inl f) | Inr n \<Rightarrow>
           apply_walk h (next_elt n) \<bind> (\<lambda>r. Some (rbind r (\<lambda>xs. Inr (item n # xs))))))"

definition List_Apply :: "'a heap \<times> List \<Rightarrow> 'a list res option" where
  "List_Apply = (\<lambda>(h, l). apply_walk h (first_elt l))"

partial_function (option) List_destroy :: "'a heap \<times> List \<Rightarrow> ('a heap \<times> List) res option" where
  "List_destroy s =
     (if List_IsEmpty (snd s) then Some (Inr s)
      else case List_Remove s of Inl f \<Rightarrow> Some (Inl f) | Inr (thing, s1) \<Rightarrow> List_destroy s1)"

section \<open>The sequence a list stands for\<close>

fun chain :: "'a heap \<Rightarrow> nat option \<Rightarrow> (nat \<times> int \<times> 'a) list \<Rightarrow> nat option \<Rightarrow> bool" where
  "chain h p [] q \<longleftrightarrow> p = q"
| "chain h p ((a, k, x) # ys) q \<longleftrightarrow> p = Some a \<and>
     (case cells h a of None \<Rightarrow> False | Some n \<Rightarrow> key n = k \<and> item n = x \<and> chain h (next_elt n) ys q)"

definition list_rep :: "'a heap \<Rightarrow> List \<Rightarrow> (nat \<times> int \<times> 'a) list \<Rightarrow> bool" where
  "list_rep h l as \<longleftrightarrow> chain h (first_elt l) as None \<and> distinct (map fst as)
     \<and> last_elt l = (if as = [] then None else Some (fst (last as))) \<and> (\<forall>a \<in> fst ` set as. a < brk h)"

text \<open>Insertion before the first element with a larger key.\<close>

fun insert_sorted :: "'k :: linorder \<Rightarrow> 'a \<Rightarrow> ('k \<times> 'a) list \<Rightarrow> ('k \<times> 'a) list" where
  "insert_sorted k x [] = [(k, x)]"
| "insert_sorted k x ((k', y) # ys) = (if k < k' then (k, x) # (k', y) # ys else (k', y) # insert_sorted k x ys)"

abbreviation addrs :: "(nat \<times> int \<times> 'a) list \<Rightarrow> nat set" where
  "addrs as \<equiv> fst ` set as"

text \<open>A change of the heap that concerns only the cells of one list, and new cells.\<close>

definition local_change :: "'a heap \<Rightarrow> (nat \<times> int \<times> 'a) list \<Rightarrow> 'a heap \<Rightarrow> (nat \<times> int \<times> 'a) list \<Rightarrow> bool" where
  "local_change h as h' as' \<longleftrightarrow> brk h \<le> brk h' \<and> (\<forall>a < brk h. a \<notin> addrs as \<longrightarrow> cells h' a = cells h a)
     \<and> addrs as' \<subseteq> addrs as \<union> {brk h..<brk h'}"

section \<open>Chains\<close>

lemma chain_cong: "\<forall>a \<in> addrs as. cells h' a = cells h a \<Longrightarrow> chain h' p as q = chain h p as q"
  by (induction as arbitrary: p) (auto split: option.splits)

lemma chain_append: "chain h p (as @ bs) q \<longleftrightarrow> (\<exists>r. chain h p as r \<and> chain h r bs q)"
  by (induction as arbitrary: p) (auto split: option.splits)

lemma chain_single: "chain h p [(a, k, x)] None \<longleftrightarrow> p = Some a \<and>
    cells h a = Some \<lparr>next_elt = None, key = k, item = x\<rparr>"
  by (auto split: option.splits)

lemma insert_sorted_conv: "insert_sorted k x xs = takeWhile (\<lambda>p. \<not> k < fst p) xs @ (k, x) # dropWhile (\<lambda>p. \<not> k < fst p) xs"
  by (induction k x xs rule: insert_sorted.induct) auto

lemma map_snd_takeWhile: "map snd (takeWhile (\<lambda>p. \<not> k < fst (snd p)) as) = takeWhile (\<lambda>p. \<not> k < fst p) (map snd as)"
  "map snd (dropWhile (\<lambda>p. \<not> k < fst (snd p)) as) = dropWhile (\<lambda>p. \<not> k < fst p) (map snd as)"
  by (induction as) auto

lemma list_rep_frame:
  assumes "list_rep h l' bs" and "local_change h as h' as'" and "addrs as \<inter> addrs bs = {}"
  shows "list_rep h' l' bs \<and> addrs as' \<inter> addrs bs = {}"
proof -
  have b: "\<forall>a \<in> addrs bs. a < brk h" and le: "brk h \<le> brk h'"
    using assms(1,2) by (simp_all add: list_rep_def local_change_def)
  then have "\<forall>a \<in> addrs bs. cells h' a = cells h a" using assms(2,3) b unfolding local_change_def by blast
  then have "chain h' (first_elt l') bs None" using assms(1) chain_cong [of bs h' h] by (simp add: list_rep_def)
  moreover have "\<forall>a \<in> addrs bs. a < brk h'" using b le by (meson less_le_trans)
  moreover have "addrs as' \<inter> addrs bs = {}"
  proof -
    have "addrs as' \<subseteq> addrs as \<union> {brk h..<brk h'}" using assms(2) by (simp add: local_change_def)
    moreover have "{brk h..<brk h'} \<inter> addrs bs = {}" using b by (meson atLeastLessThan_iff disjoint_iff leD)
    ultimately show ?thesis using assms(3) by blast
  qed
  ultimately show ?thesis using assms(1) by (simp add: list_rep_def)
qed

section \<open>The operations refine those on sequences\<close>

lemma list_rep_empty: "list_rep h l as \<Longrightarrow> List_IsEmpty l \<longleftrightarrow> as = []"
  by (cases as) (auto simp: list_rep_def List_IsEmpty_def)

lemma rep_singleton:
  assumes "alloc (ListElement_new x k) h = (e, h1)"
  shows "list_rep h1 (l\<lparr>first_elt := Some e, last_elt := Some e\<rparr>) [(e, k, x)]" "local_change h [] h1 [(e, k, x)]"
  using assms by (auto simp: alloc_def list_rep_def ListElement_new_def local_change_def)

lemma append_cell:
  assumes R: "list_rep h l as" and ne: "as \<noteq> []" and A: "alloc (ListElement_new x k) h = (e, h1)"
  obtains h2 where "set_next (last_elt l) (Some e) h1 = Inr h2" "list_rep h2 (l\<lparr>last_elt := Some e\<rparr>) (as @ [(e, k, x)])"
    "local_change h as h2 (as @ [(e, k, x)])"
proof -
  obtain bs a k0 x0 where as: "as = bs @ [(a, k0, x0)]" using ne by (metis prod_cases3 rev_exhaust)
  have l: "last_elt l = Some a" "chain h (first_elt l) bs (Some a)"
    and n: "cells h a = Some \<lparr>next_elt = None, key = k0, item = x0\<rparr>"
    and d: "distinct (map fst bs)" "a \<notin> addrs bs" "a < brk h" "\<forall>b \<in> addrs bs. b < brk h"
    using R unfolding list_rep_def as chain_append chain_single by auto
  have e: "e = brk h" "h1 = \<lparr>cells = (cells h)(e \<mapsto> ListElement_new x k), brk = Suc e\<rparr>"
    using A by (auto simp: alloc_def)
  let ?h2 = "h1\<lparr>cells := (cells h1)(a \<mapsto> \<lparr>next_elt = Some e, key = k0, item = x0\<rparr>)\<rparr>"
  have "set_next (last_elt l) (Some e) h1 = Inr ?h2" using l n d(3) by (simp add: set_next_def deref_def e)
  moreover have "chain ?h2 (first_elt l) bs (Some a)"
    by (subst chain_cong [of bs _ h]) (use l(2) d e in auto)
  then have "list_rep ?h2 (l\<lparr>last_elt := Some e\<rparr>) (as @ [(e, k, x)])"
    using d e by (auto simp: list_rep_def as chain_append ListElement_new_def)
  moreover have "local_change h as ?h2 (as @ [(e, k, x)])" by (auto simp: local_change_def as e)
  ultimately show ?thesis using that by blast
qed

lemma prepend_cell:
  assumes R: "list_rep h l as" and ne: "as \<noteq> []" and A: "alloc (ListElement_new x k) h = (e, h1)"
  obtains h2 where "set_next (Some e) (first_elt l) h1 = Inr h2" "list_rep h2 (l\<lparr>first_elt := Some e\<rparr>) ((e, k, x) # as)"
    "local_change h as h2 ((e, k, x) # as)"
proof -
  have e: "e = brk h" "h1 = \<lparr>cells = (cells h)(e \<mapsto> ListElement_new x k), brk = Suc e\<rparr>"
    using A by (auto simp: alloc_def)
  let ?h2 = "h1\<lparr>cells := (cells h1)(e \<mapsto> \<lparr>next_elt = first_elt l, key = k, item = x\<rparr>)\<rparr>"
  have d: "\<forall>b \<in> addrs as. b < brk h" using R by (simp add: list_rep_def)
  have "set_next (Some e) (first_elt l) h1 = Inr ?h2" by (simp add: set_next_def deref_def e ListElement_new_def)
  moreover have "chain ?h2 (first_elt l) as None = chain h (first_elt l) as None"
    by (rule chain_cong) (use d e in auto)
  then have "list_rep ?h2 (l\<lparr>first_elt := Some e\<rparr>) ((e, k, x) # as)"
    using R ne d e by (auto simp: list_rep_def)
  moreover have "local_change h as ?h2 ((e, k, x) # as)" by (auto simp: local_change_def e)
  ultimately show ?thesis using that by blast
qed

lemma List_Append_correct:
  assumes "list_rep h l as"
  obtains h' l' as' where "List_Append x (h, l) = Inr (h', l')" "list_rep h' l' as'"
    "map snd as' = map snd as @ [(0, x)]" "local_change h as h' as'"
proof -
  obtain e h1 where A: "alloc (ListElement_new x 0) h = (e, h1)" by fastforce
  show ?thesis
  proof (cases "as = []")
    case True
    then have "List_IsEmpty l" using list_rep_empty [OF assms] by simp
    then show ?thesis using rep_singleton [OF A] A True that [of h1 _ "[(e, 0, x)]"] by (simp add: List_Append_def)
  next
    case False
    obtain h2 where "set_next (last_elt l) (Some e) h1 = Inr h2" "list_rep h2 (l\<lparr>last_elt := Some e\<rparr>) (as @ [(e, 0, x)])"
      "local_change h as h2 (as @ [(e, 0, x)])" using append_cell [OF assms False A] .
    then show ?thesis using list_rep_empty [OF assms] False A
      by (intro that [of h2 "l\<lparr>last_elt := Some e\<rparr>" "as @ [(e, 0, x)]"]) (simp_all add: List_Append_def)
  qed
qed

lemma List_Prepend_correct:
  assumes "list_rep h l as"
  obtains h' l' as' where "List_Prepend x (h, l) = Inr (h', l')" "list_rep h' l' as'"
    "map snd as' = (0, x) # map snd as" "local_change h as h' as'"
proof -
  obtain e h1 where A: "alloc (ListElement_new x 0) h = (e, h1)" by fastforce
  show ?thesis
  proof (cases "as = []")
    case True
    then have "List_IsEmpty l" using list_rep_empty [OF assms] by simp
    then show ?thesis using rep_singleton [OF A] A True that [of h1 _ "[(e, 0, x)]"] by (simp add: List_Prepend_def)
  next
    case False
    obtain h2 where "set_next (Some e) (first_elt l) h1 = Inr h2" "list_rep h2 (l\<lparr>first_elt := Some e\<rparr>) ((e, 0, x) # as)"
      "local_change h as h2 ((e, 0, x) # as)" using prepend_cell [OF assms False A] .
    then show ?thesis using list_rep_empty [OF assms] False A
      by (intro that [of h2 "l\<lparr>first_elt := Some e\<rparr>" "(e, 0, x) # as"]) (simp_all add: List_Prepend_def)
  qed
qed

lemma List_SortedRemove_correct:
  assumes "list_rep h l ((a, k, x) # as)"
  obtains h' l' where "List_SortedRemove (h, l) = Inr (Some x, Some k, h', l')" "list_rep h' l' as"
    "local_change h ((a, k, x) # as) h' as"
proof -
  obtain n where n: "cells h a = Some n" "key n = k" "item n = x" "chain h (next_elt n) as None" "first_elt l = Some a"
    using assms by (auto simp: list_rep_def split: option.splits)
  have d: "a \<notin> addrs as" "distinct (map fst as)" "\<forall>b \<in> addrs as. b < brk h"
    and la: "last_elt l = Some (fst (last ((a, k, x) # as)))"
    using assms by (auto simp: list_rep_def)
  let ?h' = "h\<lparr>cells := (cells h)(a := None)\<rparr>"
  let ?l' = "if first_elt l = last_elt l then \<lparr>first_elt = None, last_elt = None\<rparr> else l\<lparr>first_elt := next_elt n\<rparr>"
  have "List_SortedRemove (h, l) = Inr (Some x, Some k, ?h', ?l')"
    using n by (simp add: List_SortedRemove_def List_IsEmpty_def deref_def free_def)
  moreover have "list_rep ?h' ?l' as"
  proof (cases "as = []")
    case True
    then show ?thesis using n la by (simp add: list_rep_def)
  next
    case False
    then have "last_elt l = Some (fst (last as))" "fst (last as) \<noteq> a" using la d(1) by auto
    moreover have "chain ?h' (next_elt n) as None" by (subst chain_cong [of as _ h]) (use n(4) d(1) in auto)
    ultimately show ?thesis using False n d by (simp add: list_rep_def)
  qed
  moreover have "local_change h ((a, k, x) # as) ?h' as" by (auto simp: local_change_def)
  ultimately show ?thesis using that by blast
qed

text \<open>The walk of \<^verbatim>\<open>SortedInsert\<close> ends, and inserts the new cell where the sequence says.\<close>

definition insert_cell :: "nat \<Rightarrow> int \<Rightarrow> 'a \<Rightarrow> (nat \<times> int \<times> 'a) list \<Rightarrow> (nat \<times> int \<times> 'a) list" where
  "insert_cell e k x as = takeWhile (\<lambda>p. \<not> k < fst (snd p)) as @ (e, k, x) # dropWhile (\<lambda>p. \<not> k < fst (snd p)) as"

lemma insert_cell_simps [simp]:
  "insert_cell e k x [] = [(e, k, x)]"
  "insert_cell e k x ((a, k', y) # as) = (if k < k' then (e, k, x) # (a, k', y) # as else (a, k', y) # insert_cell e k x as)"
  by (auto simp: insert_cell_def)

lemma set_insert_cell: "set (insert_cell e k x as) = insert (e, k, x) (set as)"
proof (induction as)
  case (Cons p as)
  then show ?case by (cases p) auto
qed simp

lemma distinct_insert_cell: "distinct (map fst as) \<Longrightarrow> e \<notin> addrs as \<Longrightarrow> distinct (map fst (insert_cell e k x as))"
proof (induction as)
  case (Cons p as)
  then show ?case by (cases p) (auto simp: set_insert_cell)
qed simp

lemma map_snd_insert_cell: "map snd (insert_cell e k x as) = insert_sorted k x (map snd as)"
  by (simp add: insert_cell_def insert_sorted_conv map_snd_takeWhile)

lemma insert_walk_correct:
  assumes "chain h (Some a) ((a, k0, x0) # ys) None" and "distinct (a # map fst ys)"
    and "e \<noteq> a" "e \<notin> addrs ys" and "cells h e = Some (ListElement_new x k)"
  shows "\<exists>h' b. insert_walk (Some a) e k h = Some (Inr (h', b)) \<and> (b \<longleftrightarrow> (\<exists>p \<in> set ys. k < fst (snd p)))
    \<and> (\<not> b \<longrightarrow> h' = h) \<and> (b \<longrightarrow> chain h' (Some a) ((a, k0, x0) # insert_cell e k x ys) None) \<and> brk h' = brk h
    \<and> (\<forall>c. c \<noteq> e \<longrightarrow> c \<noteq> a \<longrightarrow> c \<notin> addrs ys \<longrightarrow> cells h' c = cells h c)"
  using assms
proof (induction ys arbitrary: a k0 x0)
  case Nil
  then have "cells h a = Some \<lparr>next_elt = None, key = k0, item = x0\<rparr>" by (auto split: option.splits)
  then show ?case by (subst insert_walk.simps) (auto simp: deref_def)
next
  case (Cons y ys)
  obtain a1 k1 x1 where y: "y = (a1, k1, x1)" by (cases y)
  have c: "cells h a = Some \<lparr>next_elt = Some a1, key = k0, item = x0\<rparr>" and t: "chain h (Some a1) ((a1, k1, x1) # ys) None"
    using Cons.prems(1) by (auto simp: y split: option.splits)
  obtain n1 where n1: "cells h a1 = Some n1" "key n1 = k1" using t by (auto split: option.splits)
  have W: "insert_walk (Some a) e k h =
     (if k < k1 then Some (rbind (set_next (Some e) (Some a1) h) (\<lambda>h1.
            rbind (set_next (Some a) (Some e) h1) (\<lambda>h2. Inr (h2, True))))
      else insert_walk (Some a1) e k h)"
    using c n1 by (subst insert_walk.simps) (simp add: deref_def)
  show ?case
  proof (cases "k < k1")
    case True
    let ?h = "h\<lparr>cells := (cells h)(e \<mapsto> \<lparr>next_elt = Some a1, key = k, item = x\<rparr>, a \<mapsto> \<lparr>next_elt = Some e, key = k0, item = x0\<rparr>)\<rparr>"
    have "chain ?h (Some a1) (y # ys) None"
      by (subst chain_cong [of _ _ h]) (use t Cons.prems y in auto)
    then have "chain ?h (Some a) ((a, k0, x0) # insert_cell e k x (y # ys)) None"
      using True Cons.prems(3) by (simp add: y)
    moreover have "insert_walk (Some a) e k h = Some (Inr (?h, True))"
      using True Cons.prems(3,5) c W by (simp add: set_next_def deref_def ListElement_new_def)
    ultimately show ?thesis using True y by auto
  next
    case False
    obtain h' b where I: "insert_walk (Some a1) e k h = Some (Inr (h', b))" "b \<longleftrightarrow> (\<exists>p \<in> set ys. k < fst (snd p))"
      "\<not> b \<longrightarrow> h' = h" "b \<longrightarrow> chain h' (Some a1) ((a1, k1, x1) # insert_cell e k x ys) None" "brk h' = brk h"
      "\<forall>c. c \<noteq> e \<longrightarrow> c \<noteq> a1 \<longrightarrow> c \<notin> addrs ys \<longrightarrow> cells h' c = cells h c"
      using Cons.IH [OF t] Cons.prems y by auto
    have "cells h' a = cells h a" using I(6) Cons.prems(2,3) y by auto
    then have "b \<longrightarrow> chain h' (Some a) ((a, k0, x0) # insert_cell e k x (y # ys)) None"
      using I(4) c False y by simp
    then show ?thesis using I W False y by auto
  qed
qed

lemma last_insert_cell: "\<exists>p \<in> set as. k < fst (snd p) \<Longrightarrow> last (insert_cell e k x as) = last as"
proof (induction as)
  case (Cons p as)
  have "insert_cell e k x as \<noteq> []" by (simp add: insert_cell_def)
  with Cons show ?case by (cases p) (auto split: if_splits)
qed simp

lemma insert_cell_end: "\<forall>p \<in> set as. \<not> k < fst (snd p) \<Longrightarrow> insert_cell e k x as = as @ [(e, k, x)]"
proof -
  assume "\<forall>p \<in> set as. \<not> k < fst (snd p)"
  then have "takeWhile (\<lambda>p. \<not> k < fst (snd p)) as = as" "dropWhile (\<lambda>p. \<not> k < fst (snd p)) as = []"
    by (simp_all add: takeWhile_eq_all_conv dropWhile_eq_Nil_conv)
  then show ?thesis by (simp add: insert_cell_def)
qed

lemma List_SortedInsert_correct:
  assumes R: "list_rep h l as"
  obtains h' l' as' where "List_SortedInsert x k (h, l) = Some (Inr (h', l'))" "list_rep h' l' as'"
    "map snd as' = insert_sorted k x (map snd as)" "local_change h as h' as'"
proof -
  obtain e h1 where A: "alloc (ListElement_new x k) h = (e, h1)" by fastforce
  show ?thesis
  proof (cases as)
    case Nil
    then have "List_IsEmpty l" using list_rep_empty [OF assms] by simp
    then show ?thesis using rep_singleton [OF A] A Nil
      by (intro that [of h1 _ "[(e, k, x)]"]) (simp_all add: List_SortedInsert_def)
  next
    case (Cons p ys)
    obtain a k0 x0 where p: "p = (a, k0, x0)" by (cases p)
    have ne: "as \<noteq> []" "\<not> List_IsEmpty l" using Cons list_rep_empty [OF assms] by simp_all
    have f: "first_elt l = Some a" "distinct (a # map fst ys)" "\<forall>b \<in> insert a (addrs ys). b < brk h"
      using R by (auto simp: list_rep_def Cons p)
    have e: "e = brk h" "h1 = \<lparr>cells = (cells h)(e \<mapsto> ListElement_new x k), brk = Suc e\<rparr>"
      using A by (auto simp: alloc_def)
    have ch: "chain h1 (Some a) as None" by (subst chain_cong [of as _ h]) (use R f e Cons p in \<open>auto simp: list_rep_def\<close>)
    obtain n where n: "cells h1 a = Some n" "key n = k0" using ch by (auto simp: Cons p split: option.splits)
    show ?thesis
    proof (cases "k < k0")
      case True
      obtain h2 where "set_next (Some e) (first_elt l) h1 = Inr h2" "list_rep h2 (l\<lparr>first_elt := Some e\<rparr>) ((e, k, x) # as)"
        "local_change h as h2 ((e, k, x) # as)" using prepend_cell [OF R ne(1) A] .
      then show ?thesis using A ne(2) n f(1) True Cons p
        by (intro that [of h2 "l\<lparr>first_elt := Some e\<rparr>" "(e, k, x) # as"])
          (simp_all add: List_SortedInsert_def deref_def)
    next
      case False
      have en: "e \<noteq> a" "e \<notin> addrs ys" using f(3) e(1) by auto
      have "chain h1 (Some a) ((a, k0, x0) # ys) None" "cells h1 e = Some (ListElement_new x k)" using ch Cons p e by simp_all
      then obtain h2 b where W: "insert_walk (Some a) e k h1 = Some (Inr (h2, b))" "b \<longleftrightarrow> (\<exists>p \<in> set ys. k < fst (snd p))"
        "\<not> b \<longrightarrow> h2 = h1" "b \<longrightarrow> chain h2 (Some a) ((a, k0, x0) # insert_cell e k x ys) None" "brk h2 = brk h1"
        "\<forall>c. c \<noteq> e \<longrightarrow> c \<noteq> a \<longrightarrow> c \<notin> addrs ys \<longrightarrow> cells h2 c = cells h1 c"
        using insert_walk_correct [of h1 a k0 x0 ys e x k] f(2) en by blast
      have b_iff: "b \<longleftrightarrow> (\<exists>p \<in> set as. k < fst (snd p))" using W(2) False Cons p by simp
      show ?thesis
      proof (cases b)
        case True
        have "last (insert_cell e k x as) = last as" by (rule last_insert_cell) (use b_iff True in blast)
        then have "list_rep h2 l (insert_cell e k x as)"
          using R W(4,5) True False Cons p f en e distinct_insert_cell [of as e k x]
          by (auto simp: list_rep_def set_insert_cell)
        moreover have "local_change h as h2 (insert_cell e k x as)"
          using W(5,6) e Cons p by (auto simp: local_change_def set_insert_cell)
        moreover have "List_SortedInsert x k (h, l) = Some (Inr (h2, l))"
          using A ne(2) n f(1) False W(1) True by (simp add: List_SortedInsert_def deref_def)
        ultimately show ?thesis using that map_snd_insert_cell by metis
      next
        case False
        then have "insert_cell e k x as = as @ [(e, k, x)]" by (intro insert_cell_end) (use b_iff in blast)
        moreover obtain h3 where "set_next (last_elt l) (Some e) h1 = Inr h3"
          "list_rep h3 (l\<lparr>last_elt := Some e\<rparr>) (as @ [(e, k, x)])" "local_change h as h3 (as @ [(e, k, x)])"
          using append_cell [OF R ne(1) A] .
        moreover have "h2 = h1" using W(3) False by simp
        ultimately show ?thesis using A ne(2) n f(1) \<open>\<not> k < k0\<close> W(1) False map_snd_insert_cell [of e k x as]
          by (intro that [of h3 "l\<lparr>last_elt := Some e\<rparr>" "as @ [(e, k, x)]"]) (simp_all add: List_SortedInsert_def deref_def)
      qed
    qed
  qed
qed

lemma apply_walk_correct: "chain h p as None \<Longrightarrow> apply_walk h p = Some (Inr (map (snd \<circ> snd) as))"
proof (induction as arbitrary: p)
  case Nil
  then show ?case by (subst apply_walk.simps) simp
next
  case (Cons y ys)
  then show ?case by (subst apply_walk.simps) (cases y, auto simp: deref_def split: option.splits)
qed

lemma List_destroy_correct:
  assumes "list_rep h l as"
  shows "\<exists>h' l'. List_destroy (h, l) = Some (Inr (h', l')) \<and> list_rep h' l' [] \<and> local_change h as h' []
    \<and> (\<forall>a \<in> addrs as. cells h' a = None)"
  using assms
proof (induction as arbitrary: h l)
  case Nil
  then show ?case using list_rep_empty [OF Nil] by (subst List_destroy.simps) (simp add: local_change_def)
next
  case (Cons y ys)
  obtain a k x where y: "y = (a, k, x)" by (cases y)
  obtain h1 l1 where r: "List_SortedRemove (h, l) = Inr (Some x, Some k, h1, l1)" "list_rep h1 l1 ys"
    "local_change h (y # ys) h1 ys" using List_SortedRemove_correct [of h l a k x ys] Cons.prems y by blast
  from Cons.IH [OF r(2)] obtain h2 l2 where d: "List_destroy (h1, l1) = Some (Inr (h2, l2))" "list_rep h2 l2 []"
    "local_change h1 ys h2 []" "\<forall>a \<in> addrs ys. cells h2 a = None" by blast
  have ne: "\<not> List_IsEmpty l" using list_rep_empty [OF Cons.prems] by simp
  have "first_elt l = Some a" "a \<notin> addrs ys" "a < brk h" using Cons.prems by (auto simp: list_rep_def y)
  then have "cells h1 a = None" "brk h1 = brk h"
    using r(1) ne by (auto simp: List_SortedRemove_def Let_def free_def rbind_eq_Inr)
  moreover have "\<forall>b < brk h1. b \<notin> addrs ys \<longrightarrow> cells h2 b = cells h1 b" using d(3) by (simp add: local_change_def)
  ultimately have fr: "cells h2 a = None" using \<open>a \<notin> addrs ys\<close> \<open>a < brk h\<close> by simp
  have "local_change h (y # ys) h2 []" using r(3) d(3) unfolding local_change_def by auto
  moreover have "List_destroy (h, l) = Some (Inr (h2, l2))"
    using ne r(1) d(1) by (subst List_destroy.simps) (simp add: List_Remove_def)
  ultimately show ?case using d(2,4) fr y by auto
qed

section \<open>The contract of a list\<close>

text \<open>Putting a sequence of items on a list, and taking a number of them off.\<close>

fun append_all :: "('a \<Rightarrow> 's \<Rightarrow> 's res) \<Rightarrow> 'a list \<Rightarrow> 's \<Rightarrow> 's res" where
  "append_all app [] s = Inr s"
| "append_all app (x # xs) s = rbind (app x s) (append_all app xs)"

fun insert_all :: "('a \<Rightarrow> int \<Rightarrow> 's \<Rightarrow> 's res option) \<Rightarrow> (int \<times> 'a) list \<Rightarrow> 's \<Rightarrow> 's res option" where
  "insert_all ins [] s = Some (Inr s)"
| "insert_all ins ((k, x) # xs) s = (case ins x k s of None \<Rightarrow> None | Some (Inl f) \<Rightarrow> Some (Inl f)
     | Some (Inr s1) \<Rightarrow> insert_all ins xs s1)"

fun remove_n :: "('s \<Rightarrow> ('a option \<times> int option \<times> 's) res) \<Rightarrow> nat \<Rightarrow> 's \<Rightarrow> ('a option list \<times> 's) res" where
  "remove_n rem 0 s = Inr ([], s)"
| "remove_n rem (Suc n) s = rbind (rem s) (\<lambda>(x, k, s1). rbind (remove_n rem n s1) (\<lambda>(xs, s2). Inr (x # xs, s2)))"

locale item_list =
  fixes append :: "'a \<Rightarrow> 's \<Rightarrow> 's res"
    and sortedInsert :: "'a \<Rightarrow> int \<Rightarrow> 's \<Rightarrow> 's res option"
    and remove :: "'s \<Rightarrow> ('a option \<times> int option \<times> 's) res"
    and rep :: "'s \<Rightarrow> (int \<times> 'a) list \<Rightarrow> bool"
  assumes append_rep: "rep s xs \<Longrightarrow> \<exists>s'. append x s = Inr s' \<and> rep s' (xs @ [(0, x)])"
    and insert_rep: "rep s xs \<Longrightarrow> \<exists>s'. sortedInsert x k s = Some (Inr s') \<and> rep s' (insert_sorted k x xs)"
    and remove_empty: "rep s [] \<Longrightarrow> remove s = Inr (None, None, s)"
    and remove_rep: "rep s ((k, x) # xs) \<Longrightarrow> \<exists>s'. remove s = Inr (Some x, Some k, s') \<and> rep s' xs"
begin

lemma append_all_rep: "rep s xs \<Longrightarrow> \<exists>s'. append_all append ys s = Inr s' \<and> rep s' (xs @ map (Pair 0) ys)"
proof (induction ys arbitrary: s xs)
  case (Cons y ys)
  obtain s1 where s1: "append y s = Inr s1" "rep s1 (xs @ [(0, y)])" using append_rep [OF Cons.prems] by blast
  from Cons.IH [OF s1(2)] s1(1) show ?case by simp
qed simp

lemma insert_all_rep: "rep s xs \<Longrightarrow>
   \<exists>s'. insert_all sortedInsert ys s = Some (Inr s') \<and> rep s' (fold (\<lambda>(k, x). insert_sorted k x) ys xs)"
proof (induction ys arbitrary: s xs)
  case (Cons y ys)
  obtain k x where y: "y = (k, x)" by (cases y)
  obtain s1 where s1: "sortedInsert x k s = Some (Inr s1)" "rep s1 (insert_sorted k x xs)"
    using insert_rep [OF Cons.prems] by blast
  from Cons.IH [OF s1(2)] s1(1) show ?case by (simp add: y)
qed simp

lemma remove_n_rep: "rep s xs \<Longrightarrow> n = length xs \<Longrightarrow> \<exists>s'. remove_n remove n s = Inr (map (Some \<circ> snd) xs, s') \<and> rep s' []"
proof (induction xs arbitrary: s n)
  case (Cons y ys)
  obtain k x where y: "y = (k, x)" by (cases y)
  obtain s1 where s1: "remove s = Inr (Some x, Some k, s1)" "rep s1 ys" using remove_rep Cons.prems(1) y by blast
  from Cons.IH [OF s1(2) refl] s1(1) Cons.prems(2) y show ?case by auto
qed simp

text \<open>Appending and removing is first in, first out.\<close>

lemma fifo: "rep s [] \<Longrightarrow> \<exists>s' s''. append_all append ys s = Inr s'
   \<and> remove_n remove (length ys) s' = Inr (map Some ys, s'') \<and> rep s'' []"
  using append_all_rep [of s "[]" ys] remove_n_rep [of _ "map (Pair 0) ys" "length ys"] by (fastforce simp: comp_def)

end

lemma insert_sorted_sort: "sorted (map fst xs) \<Longrightarrow> sorted (map fst (insert_sorted k x xs))"
  and set_insert_sorted: "set (insert_sorted k x xs) = insert (k, x) (set xs)"
  by (induction k x xs rule: insert_sorted.induct) (auto split: if_splits)

lemma mset_insert_sorted: "mset (insert_sorted k x xs) = add_mset (k, x) (mset xs)"
  by (induction k x xs rule: insert_sorted.induct) auto

lemma filter_insert_sorted: "sorted (map fst xs) \<Longrightarrow> filter (\<lambda>p. fst p = j) (insert_sorted k x xs)
    = filter (\<lambda>p. fst p = j) xs @ (if k = j then [(k, x)] else [])"
proof (induction k x xs rule: insert_sorted.induct)
  case (2 k x k' y ys)
  have "filter (\<lambda>p. fst p = j) ys = []" if "j < k'" using 2(2) that by (auto simp: filter_empty_conv)
  with 2 show ?case by auto
qed simp

lemma fold_insert_sorted: "sorted (map fst xs) \<Longrightarrow> fold (\<lambda>(k, x). insert_sorted k x) ys xs = sort_key fst (xs @ ys)"
proof -
  assume s: "sorted (map fst xs)"
  have A: "sorted (map fst zs) \<Longrightarrow> sorted (map fst (fold (\<lambda>(k, x). insert_sorted k x) ys zs))
     \<and> (\<forall>j. filter (\<lambda>p. fst p = j) (fold (\<lambda>(k, x). insert_sorted k x) ys zs) = filter (\<lambda>p. fst p = j) (zs @ ys))
     \<and> mset (fold (\<lambda>(k, x). insert_sorted k x) ys zs) = mset (zs @ ys)" for zs
    by (induction ys arbitrary: zs) (auto simp: insert_sorted_sort filter_insert_sorted mset_insert_sorted)
  show ?thesis by (rule properties_for_sort_key [symmetric]) (use A [OF s] in \<open>auto simp: eq_commute\<close>)
qed

section \<open>The class List keeps the contract\<close>

definition seq_rep :: "'a heap \<times> List \<Rightarrow> (int \<times> 'a) list \<Rightarrow> bool" where
  "seq_rep s xs \<longleftrightarrow> (\<exists>as. list_rep (fst s) (snd s) as \<and> map snd as = xs)"

interpretation ll: item_list List_Append List_SortedInsert List_SortedRemove seq_rep
proof unfold_locales
  fix s :: "'a heap \<times> List" and xs :: "(int \<times> 'a) list" and x :: 'a and k :: int
  obtain h l where s: "s = (h, l)" by (cases s)
  show "\<exists>s'. List_Append x s = Inr s' \<and> seq_rep s' (xs @ [(0, x)])" if R: "seq_rep s xs"
  proof -
    from R obtain as where as: "list_rep h l as" "map snd as = xs" by (auto simp: seq_rep_def s)
    obtain h' l' as' where "List_Append x (h, l) = Inr (h', l')" "list_rep h' l' as'" "map snd as' = map snd as @ [(0, x)]"
      using List_Append_correct [OF as(1)] .
    then show ?thesis using as(2) by (auto simp: seq_rep_def s)
  qed
  show "\<exists>s'. List_SortedInsert x k s = Some (Inr s') \<and> seq_rep s' (insert_sorted k x xs)" if R: "seq_rep s xs"
  proof -
    from R obtain as where as: "list_rep h l as" "map snd as = xs" by (auto simp: seq_rep_def s)
    obtain h' l' as' where "List_SortedInsert x k (h, l) = Some (Inr (h', l'))" "list_rep h' l' as'"
      "map snd as' = insert_sorted k x (map snd as)"
      using List_SortedInsert_correct [OF as(1)] .
    then show ?thesis using as(2) by (auto simp: seq_rep_def s)
  qed
  show "List_SortedRemove s = Inr (None, None, s)" if "seq_rep s []"
    using that list_rep_empty [of h l "[]"] by (auto simp: seq_rep_def s List_SortedRemove_def Let_def)
  show "\<exists>s'. List_SortedRemove s = Inr (Some x, Some k, s') \<and> seq_rep s' xs" if R: "seq_rep s ((k, x) # xs)"
  proof -
    from R obtain a as where as: "list_rep h l ((a, k, x) # as)" "map snd as = xs" by (auto simp: seq_rep_def s)
    obtain h' l' where "List_SortedRemove (h, l) = Inr (Some x, Some k, h', l')" "list_rep h' l' as"
      using List_SortedRemove_correct [OF as(1)] .
    then show ?thesis using as(2) by (auto simp: seq_rep_def s)
  qed
qed

lemma seq_rep_new: "seq_rep (h, List_new) []"
  by (simp add: seq_rep_def list_rep_def List_new_def)

text \<open>
  Items put on a new list with \<open>Append\<close> come off with \<open>Remove\<close> in the order they were put, the list is
  empty afterwards, and no null or dangling pointer is followed.
\<close>

theorem List_fifo:
  "\<exists>s s'. append_all List_Append items (h, List_new) = Inr s
    \<and> remove_n List_SortedRemove (length items) s = Inr (map Some items, s') \<and> List_IsEmpty (snd s')"
proof -
  obtain s s' where "append_all List_Append items (h, List_new) = Inr s"
    "remove_n List_SortedRemove (length items) s = Inr (map Some items, s')" "seq_rep s' []"
    using ll.fifo [OF seq_rep_new] by blast
  moreover from this(3) have "List_IsEmpty (snd s')" using list_rep_empty by (auto simp: seq_rep_def)
  ultimately show ?thesis by blast
qed

text \<open>
  C29. Items put on a new list with \<open>SortedInsert\<close> come off in increasing order of their keys, those with
  equal keys in the order they were put; every insertion returns.
\<close>

theorem List_priority_order:
  "\<exists>s s'. insert_all List_SortedInsert items (h, List_new) = Some (Inr s)
    \<and> remove_n List_SortedRemove (length items) s = Inr (map (Some \<circ> snd) (sort_key fst items), s')
    \<and> List_IsEmpty (snd s')"
proof -
  obtain s where s: "insert_all List_SortedInsert items (h, List_new) = Some (Inr s)" "seq_rep s (sort_key fst items)"
    using ll.insert_all_rep [OF seq_rep_new, of items h] fold_insert_sorted [of "[]" items] by auto
  obtain s' where s': "remove_n List_SortedRemove (length items) s = Inr (map (Some \<circ> snd) (sort_key fst items), s')" "seq_rep s' []"
    using ll.remove_n_rep [OF s(2), of "length items"] by auto
  from s'(2) have "List_IsEmpty (snd s')" using list_rep_empty by (auto simp: seq_rep_def)
  with s(1) s'(1) show ?thesis by blast
qed

text \<open>
  An insertion into one list leaves every other list of the heap as it was, and shares no element
  with it.
\<close>

lemma List_no_interference:
  assumes "list_rep h l as" and "list_rep h l' bs" and "addrs as \<inter> addrs bs = {}"
  shows "\<exists>h1 l1 as1. List_SortedInsert x k (h, l) = Some (Inr (h1, l1)) \<and> list_rep h1 l1 as1
    \<and> map snd as1 = insert_sorted k x (map snd as) \<and> list_rep h1 l' bs \<and> addrs as1 \<inter> addrs bs = {}"
proof -
  obtain h1 l1 as1 where "List_SortedInsert x k (h, l) = Some (Inr (h1, l1))" "list_rep h1 l1 as1"
    "map snd as1 = insert_sorted k x (map snd as)" "local_change h as h1 as1"
    using List_SortedInsert_correct [OF assms(1)] .
  with list_rep_frame [OF assms(2) this(4) assms(3)] show ?thesis by blast
qed

definition two_lists :: "char heap" where
  "two_lists = \<lparr>cells = [0 \<mapsto> \<lparr>next_elt = Some 2, key = 5, item = CHR ''a''\<rparr>, 1 \<mapsto> \<lparr>next_elt = None, key = 7, item = CHR ''b''\<rparr>,
     2 \<mapsto> \<lparr>next_elt = None, key = 9, item = CHR ''c''\<rparr>], brk = 3\<rparr>"

end
