(* ===== verification/Interrupt.thy ===== *)
theory Interrupt
  imports Machine Linked_List
begin

text \<open>
  The interrupt simulation (\<^verbatim>\<open>machine/interrupt.cc\<close>) and the timer device (\<^verbatim>\<open>machine/timer.cc\<close>): simulated
  time, the sorted list of pending interrupts, and the firing of those that are due. A pending
  interrupt names the device routine to call together with its argument; what the call does is the
  argument \<open>call\<close> of the operations that fire interrupts, and \<open>delayed\<close> is the call
  \<^verbatim>\<open>machine->DelayedLoad(0, 0)\<close>. The record is extended by the thread system, and the operations work on
  every extension. The pending list is the sequence that the list of \<^verbatim>\<open>threads/list.h\<close> stands for.
\<close>

section \<open>State\<close>

datatype IntStatus = IntOff | IntOn

datatype IntType = TimerInt | DiskInt | ConsoleWriteInt | ConsoleReadInt | NetworkSendInt | NetworkRecvInt

record 'h PendingInterrupt =
  handler :: 'h \<comment> \<open>\<^verbatim>\<open>handler\<close> with its \<^verbatim>\<open>arg\<close>\<close>
  when_due :: int \<comment> \<open>\<^verbatim>\<open>when\<close>\<close>
  itype :: IntType

record 'h Interrupt =
  level :: IntStatus
  pending :: "(int \<times> 'h PendingInterrupt) list"
  inHandler :: bool
  yieldOnReturn :: bool
  istatus :: MachineStatus
  stats :: Statistics \<comment> \<open>the global \<^verbatim>\<open>stats\<close>\<close>

type_synonym ('h, 'z) istate = "('h, 'z) Interrupt_scheme"

text \<open>The part of the state that is not the interrupt simulation's own.\<close>

abbreviation system_of :: "('h, 'z) istate \<Rightarrow> 'z" where
  "system_of \<equiv> Interrupt.more"

abbreviation set_system :: "'z \<Rightarrow> ('h, 'z) istate \<Rightarrow> ('h, 'z) istate" where
  "set_system z \<equiv> Interrupt.more_update (\<lambda>_. z)"

abbreviation now :: "('h, 'z) istate \<Rightarrow> int" where
  "now i \<equiv> totalTicks (stats i)"

definition PendingInterrupt_new :: "'h \<Rightarrow> int \<Rightarrow> IntType \<Rightarrow> 'h PendingInterrupt" where
  "PendingInterrupt_new func time kind = \<lparr>handler = func, when_due = time, itype = kind\<rparr>"

definition Interrupt_new :: "Statistics \<Rightarrow> 'h Interrupt" where
  "Interrupt_new st = \<lparr>level = IntOff, pending = [], inHandler = False, yieldOnReturn = False,
     istatus = SystemMode, stats = st\<rparr>"

section \<open>Operations\<close>

definition ChangeLevel :: "IntStatus \<Rightarrow> ('h, 'z) istate \<Rightarrow> ('h, 'z) istate" where
  "ChangeLevel lvl i = i\<lparr>level := lvl\<rparr>"

definition YieldOnReturn :: "('h, 'z) istate \<Rightarrow> ('h, 'z) istate" where
  "YieldOnReturn i = i\<lparr>yieldOnReturn := True\<rparr>"

definition Schedule :: "'h \<Rightarrow> int \<Rightarrow> IntType \<Rightarrow> ('h, 'z) istate \<Rightarrow> ('h, 'z) istate res" where
  "Schedule func fromNow type i =
     (let w = now i + fromNow; toOccur = PendingInterrupt_new func w type in
      ASSERT (fromNow > 0) (Inr (i\<lparr>pending := insert_sorted w toOccur (pending i)\<rparr>)))"

text \<open>Calling the routine of an interrupt taken off the list; \<open>old\<close> is the status to restore.\<close>

definition fire :: "('h \<Rightarrow> ('h, 'z) istate \<Rightarrow> ('h, 'z) istate res) \<Rightarrow> (('h, 'z) istate \<Rightarrow> ('h, 'z) istate res)
    \<Rightarrow> MachineStatus \<Rightarrow> 'h PendingInterrupt \<Rightarrow> ('h, 'z) istate \<Rightarrow> ('h, 'z) istate res" where
  "fire call delayed old toOccur i =
     rbind (delayed i) (\<lambda>i1.
     rbind (call (handler toOccur) (i1\<lparr>inHandler := True, istatus := SystemMode\<rparr>)) (\<lambda>i2.
     Inr (i2\<lparr>istatus := old, inHandler := False\<rparr>)))"

definition CheckIfDue :: "('h \<Rightarrow> ('h, 'z) istate \<Rightarrow> ('h, 'z) istate res) \<Rightarrow> (('h, 'z) istate \<Rightarrow> ('h, 'z) istate res)
    \<Rightarrow> bool \<Rightarrow> ('h, 'z) istate \<Rightarrow> (bool \<times> ('h, 'z) istate) res" where
  "CheckIfDue call delayed advanceClock i =
     ASSERT (level i = IntOff)
      (case pending i of
         [] \<Rightarrow> Inr (False, i)
       | (w, toOccur) # rest \<Rightarrow>
           let i1 = i\<lparr>pending := rest\<rparr>; back = insert_sorted w toOccur rest in
           if \<not> advanceClock \<and> w > now i then Inr (False, i\<lparr>pending := back\<rparr>)
           else
             let i2 = (if advanceClock \<and> w > now i
                       then i1\<lparr>stats := (stats i)\<lparr>idleTicks := idleTicks (stats i) + (w - now i), totalTicks := w\<rparr>\<rparr>
                       else i1)
             in if istatus i2 = IdleMode \<and> itype toOccur = TimerInt \<and> pending i2 = []
                then Inr (False, i2\<lparr>pending := back\<rparr>)
                else rbind (fire call delayed (istatus i) toOccur i2) (\<lambda>i3. Inr (True, i3)))"

text \<open>The loops \<^verbatim>\<open>while (CheckIfDue(false)) ;\<close>.\<close>

partial_function (option) fire_due ::
  "('h \<Rightarrow> ('h, 'z) istate \<Rightarrow> ('h, 'z) istate res) \<Rightarrow> (('h, 'z) istate \<Rightarrow> ('h, 'z) istate res)
    \<Rightarrow> ('h, 'z) istate \<Rightarrow> ('h, 'z) istate res option" where
  "fire_due call delayed i =
     (case CheckIfDue call delayed False i of
        Inl f \<Rightarrow> Some (Inl f)
      | Inr (fired, i1) \<Rightarrow> if fired then fire_due call delayed i1 else Some (Inr i1))"

text \<open>\<^verbatim>\<open>OneTick\<close> up to the point where it calls \<^verbatim>\<open>currentThread->Yield()\<close>.\<close>

definition advance_clock :: "('h, 'z) istate \<Rightarrow> ('h, 'z) istate" where
  "advance_clock i =
     (if istatus i = SystemMode
      then i\<lparr>stats := (stats i)\<lparr>totalTicks := totalTicks (stats i) + SystemTick, systemTicks := systemTicks (stats i) + SystemTick\<rparr>\<rparr>
      else i\<lparr>stats := (stats i)\<lparr>totalTicks := totalTicks (stats i) + UserTick, userTicks := userTicks (stats i) + UserTick\<rparr>\<rparr>)"

definition tick :: "('h \<Rightarrow> ('h, 'z) istate \<Rightarrow> ('h, 'z) istate res) \<Rightarrow> (('h, 'z) istate \<Rightarrow> ('h, 'z) istate res)
    \<Rightarrow> ('h, 'z) istate \<Rightarrow> ('h, 'z) istate res option" where
  "tick call delayed i =
     (case fire_due call delayed (ChangeLevel IntOff (advance_clock i)) of
        None \<Rightarrow> None
      | Some r \<Rightarrow> Some (rbind r (\<lambda>i1. Inr (ChangeLevel IntOn i1))))"

text \<open>\<^verbatim>\<open>Idle\<close> either returns (\<open>Some\<close>) or halts the machine (\<open>None\<close>).\<close>

definition Idle :: "('h \<Rightarrow> ('h, 'z) istate \<Rightarrow> ('h, 'z) istate res) \<Rightarrow> (('h, 'z) istate \<Rightarrow> ('h, 'z) istate res)
    \<Rightarrow> ('h, 'z) istate \<Rightarrow> ('h, 'z) istate option res option" where
  "Idle call delayed i =
     (case CheckIfDue call delayed True (i\<lparr>istatus := IdleMode\<rparr>) of
        Inl f \<Rightarrow> Some (Inl f)
      | Inr (fired, i1) \<Rightarrow>
          if fired
          then (case fire_due call delayed i1 of
                  None \<Rightarrow> None
                | Some r \<Rightarrow> Some (rbind r (\<lambda>i2. Inr (Some (i2\<lparr>yieldOnReturn := False, istatus := SystemMode\<rparr>)))))
          else Some (Inr None))"

section \<open>The timer\<close>

record 'f Timer =
  randomize :: bool
  timer_handler :: 'f \<comment> \<open>\<^verbatim>\<open>handler\<close> with its \<^verbatim>\<open>arg\<close>\<close>

text \<open>\<open>rnd\<close> is the value of \<^verbatim>\<open>Random()\<close>, which is not negative.\<close>

definition TimeOfNextInterrupt :: "'f Timer \<Rightarrow> int \<Rightarrow> int" where
  "TimeOfNextInterrupt t rnd = (if randomize t then 1 + rnd smod (TimerTicks * 2) else TimerTicks)"

text \<open>\<open>this\<close> is the routine \<^verbatim>\<open>TimerHandler\<close> with this timer as its argument.\<close>

definition Timer_new :: "'h \<Rightarrow> 'f \<Rightarrow> bool \<Rightarrow> int \<Rightarrow> ('h, 'z) istate \<Rightarrow> ('f Timer \<times> ('h, 'z) istate) res" where
  "Timer_new this timerHandler doRandom rnd i =
     (let t = \<lparr>randomize = doRandom, timer_handler = timerHandler\<rparr> in
      rbind (Schedule this (TimeOfNextInterrupt t rnd) TimerInt i) (\<lambda>i1. Inr (t, i1)))"

definition TimerExpired :: "('f \<Rightarrow> ('h, 'z) istate \<Rightarrow> ('h, 'z) istate res) \<Rightarrow> 'h \<Rightarrow> 'f Timer \<Rightarrow> int
    \<Rightarrow> ('h, 'z) istate \<Rightarrow> ('h, 'z) istate res" where
  "TimerExpired callf this t rnd i =
     rbind (Schedule this (TimeOfNextInterrupt t rnd) TimerInt i) (callf (timer_handler t))"

text \<open>The handler that \<^verbatim>\<open>system.cc\<close> gives to the timer.\<close>

definition TimerInterruptHandler :: "('h, 'z) istate \<Rightarrow> ('h, 'z) istate res" where
  "TimerInterruptHandler i = Inr (if istatus i \<noteq> IdleMode then YieldOnReturn i else i)"

section \<open>Invariant\<close>

definition int_inv :: "('h, 'z) istate \<Rightarrow> bool" where
  "int_inv i \<longleftrightarrow> sorted (map fst (pending i)) \<and> (\<forall>(w, p) \<in> set (pending i). when_due p = w)"

definition due :: "('h, 'z) istate \<Rightarrow> (int \<times> 'h PendingInterrupt) list" where
  "due i = filter (\<lambda>p. fst p \<le> now i) (pending i)"

text \<open>What a device routine may do to the interrupt state: schedule interrupts in the future, ask for a yield.\<close>

definition quiet :: "('h, 'z) istate \<Rightarrow> ('h, 'z) istate \<Rightarrow> bool" where
  "quiet i i' \<longleftrightarrow> level i' = level i \<and> int_inv i' \<and> now i' = now i \<and> due i' = due i"

lemma int_inv_new: "int_inv (Interrupt_new st)"
  by (simp add: int_inv_def Interrupt_new_def)

lemma insert_sorted_filter: "\<not> P (k, x) \<Longrightarrow> filter P (insert_sorted k x xs) = filter P xs"
  by (induction k x xs rule: insert_sorted.induct) auto

lemma int_inv_insert: "int_inv i \<Longrightarrow> when_due p = w \<Longrightarrow> int_inv (i\<lparr>pending := insert_sorted w p (pending i)\<rparr>)"
  by (simp add: int_inv_def insert_sorted_sort set_insert_sorted)

lemma int_inv_tl: "int_inv i \<Longrightarrow> pending i = q # rest \<Longrightarrow> int_inv (i\<lparr>pending := rest\<rparr>)"
  by (simp add: int_inv_def)

lemma int_inv_cong [simp]:
  "int_inv (i\<lparr>level := l\<rparr>) = int_inv i" "int_inv (i\<lparr>inHandler := b\<rparr>) = int_inv i" "int_inv (i\<lparr>istatus := st\<rparr>) = int_inv i"
  "int_inv (i\<lparr>stats := s\<rparr>) = int_inv i" "int_inv (i\<lparr>yieldOnReturn := b\<rparr>) = int_inv i"
  "due (i\<lparr>level := l\<rparr>) = due i" "due (i\<lparr>inHandler := b\<rparr>) = due i" "due (i\<lparr>istatus := st\<rparr>) = due i"
  "due (i\<lparr>yieldOnReturn := b\<rparr>) = due i"
  by (simp_all add: int_inv_def due_def)

lemma Schedule_quiet:
  assumes "int_inv i" and "fromNow > 0"
  shows "\<exists>i'. Schedule h fromNow ty i = Inr i' \<and> quiet i i' \<and> istatus i' = istatus i"
proof -
  let ?i' = "i\<lparr>pending := insert_sorted (now i + fromNow) (PendingInterrupt_new h (now i + fromNow) ty) (pending i)\<rparr>"
  have "Schedule h fromNow ty i = Inr ?i'" using assms(2) by (simp add: Schedule_def Let_def)
  moreover have "int_inv ?i'" by (rule int_inv_insert [OF assms(1)]) (simp add: PendingInterrupt_new_def)
  then have "quiet i ?i'" using assms(2) by (simp add: quiet_def due_def insert_sorted_filter)
  ultimately show ?thesis by simp
qed

section \<open>The contract of the devices\<close>

locale devices =
  fixes call :: "'h \<Rightarrow> ('h, 'z) istate \<Rightarrow> ('h, 'z) istate res"
    and delayed :: "('h, 'z) istate \<Rightarrow> ('h, 'z) istate res"
  assumes call_quiet: "int_inv i \<Longrightarrow> level i = IntOff \<Longrightarrow> inHandler i \<Longrightarrow> \<exists>i'. call h i = Inr i' \<and> quiet i i'"
    and delayed_quiet: "int_inv i \<Longrightarrow> \<exists>i'. delayed i = Inr i' \<and> quiet i i' \<and> pending i' = pending i \<and> istatus i' = istatus i"
begin

lemma fire_quiet:
  assumes "int_inv i" and "level i = IntOff"
  shows "\<exists>i'. fire call delayed old p i = Inr i' \<and> quiet i i' \<and> istatus i' = old \<and> \<not> inHandler i'"
proof -
  obtain i1 where i1: "delayed i = Inr i1" "quiet i i1" using delayed_quiet [OF assms(1)] by blast
  then have "int_inv (i1\<lparr>inHandler := True, istatus := SystemMode\<rparr>)" using assms(2) by (simp add: quiet_def)
  moreover have "level i1 = IntOff" using i1(2) assms(2) by (simp add: quiet_def)
  ultimately obtain i2 where i2: "call (handler p) (i1\<lparr>inHandler := True, istatus := SystemMode\<rparr>) = Inr i2"
    "quiet (i1\<lparr>inHandler := True, istatus := SystemMode\<rparr>) i2"
    using call_quiet [of "i1\<lparr>inHandler := True, istatus := SystemMode\<rparr>" "handler p"] by auto
  have "fire call delayed old p i = Inr (i2\<lparr>istatus := old, inHandler := False\<rparr>)"
    using i1(1) i2(1) by (simp add: fire_def)
  moreover have "quiet i (i2\<lparr>istatus := old, inHandler := False\<rparr>)" using i1(2) i2(2) by (simp add: quiet_def)
  ultimately show ?thesis by simp
qed

end

text \<open>Firing a given sequence of interrupts, each taken off the front of the pending list.\<close>

fun fire_list :: "('h \<Rightarrow> ('h, 'z) istate \<Rightarrow> ('h, 'z) istate res) \<Rightarrow> (('h, 'z) istate \<Rightarrow> ('h, 'z) istate res)
    \<Rightarrow> 'h PendingInterrupt list \<Rightarrow> ('h, 'z) istate \<Rightarrow> ('h, 'z) istate res" where
  "fire_list call delayed [] i = Inr i"
| "fire_list call delayed (p # ps) i =
     rbind (fire call delayed (istatus i) p (i\<lparr>pending := tl (pending i)\<rparr>)) (fire_list call delayed ps)"

lemma due_Cons: "int_inv i \<Longrightarrow> due i \<noteq> [] \<longleftrightarrow> (\<exists>w p rest. pending i = (w, p) # rest \<and> w \<le> now i)"
proof (cases "pending i")
  case (Cons q rest)
  assume "int_inv i"
  with Cons have "\<forall>r \<in> set rest. fst q \<le> fst r" by (simp add: int_inv_def)
  then show ?thesis using Cons by (cases q) (auto simp: due_def filter_empty_conv split: if_splits)
qed (simp add: due_def)

text \<open>What is left when the loop stops: the interrupts that are not due, with the first put back.\<close>

definition put_back :: "('h, 'z) istate \<Rightarrow> ('h, 'z) istate" where
  "put_back i = (case pending i of [] \<Rightarrow> i | (w, p) # rest \<Rightarrow> i\<lparr>pending := insert_sorted w p rest\<rparr>)"

lemma put_back_ok:
  assumes "int_inv i"
  shows "int_inv (put_back i)" "mset (pending (put_back i)) = mset (pending i)" "now (put_back i) = now i"
    "level (put_back i) = level i" "istatus (put_back i) = istatus i" "due i = [] \<Longrightarrow> due (put_back i) = []"
proof -
  show "int_inv (put_back i)"
    using assms by (auto simp: put_back_def int_inv_def insert_sorted_sort set_insert_sorted split: list.splits)
  show m: "mset (pending (put_back i)) = mset (pending i)"
    by (auto simp: put_back_def mset_insert_sorted split: list.splits)
  show n: "now (put_back i) = now i" "level (put_back i) = level i" "istatus (put_back i) = istatus i"
    by (auto simp: put_back_def split: list.splits)
  show "due i = [] \<Longrightarrow> due (put_back i) = []"
    using mset_eq_setD [OF m] n(1) by (simp add: due_def filter_empty_conv)
qed

context devices
begin

lemma CheckIfDue_none:
  assumes "int_inv i" and "level i = IntOff" and "due i = []"
  shows "CheckIfDue call delayed False i = Inr (False, put_back i)"
proof (cases "pending i")
  case (Cons q rest)
  then have "fst q > now i" using assms(3) by (auto simp: due_def split: if_splits)
  then show ?thesis using Cons assms(2) by (cases q) (simp add: CheckIfDue_def put_back_def)
qed (simp add: CheckIfDue_def put_back_def assms)

lemma fire_due_runs:
  assumes "int_inv i" and "level i = IntOff" and "istatus i \<noteq> IdleMode"
  shows "\<exists>i'. fire_list call delayed (map snd (due i)) i = Inr i' \<and> fire_due call delayed i = Some (Inr (put_back i'))
    \<and> int_inv i' \<and> level i' = IntOff \<and> now i' = now i \<and> due i' = [] \<and> istatus i' = istatus i"
  using assms
proof (induction "due i" arbitrary: i)
  case Nil
  then show ?case using CheckIfDue_none [of i] by (subst fire_due.simps) simp
next
  case (Cons d ds)
  obtain w p rest where p: "pending i = (w, p) # rest" "w \<le> now i" using due_Cons [OF Cons.prems(1)] Cons.hyps(2) by auto
  then have d: "d = (w, p)" "ds = due (i\<lparr>pending := rest\<rparr>)" using Cons.hyps(2) by (auto simp: due_def)
  obtain i1 where i1: "fire call delayed (istatus i) p (i\<lparr>pending := rest\<rparr>) = Inr i1" "quiet (i\<lparr>pending := rest\<rparr>) i1"
    "istatus i1 = istatus i" using fire_quiet [of "i\<lparr>pending := rest\<rparr>"] int_inv_tl [OF Cons.prems(1) p(1)] Cons.prems(2) by auto
  have q: "ds = due i1" "int_inv i1" "level i1 = IntOff" "now i1 = now i" using i1(2) d(2) Cons.prems(2) by (simp_all add: quiet_def)
  have "CheckIfDue call delayed False i = Inr (True, i1)"
    using p i1(1) Cons.prems(2,3) by (simp add: CheckIfDue_def Let_def)
  then have step: "fire_due call delayed i = fire_due call delayed i1" by (subst fire_due.simps) simp
  from Cons.hyps(1) [OF q(1-3)] i1(3) Cons.prems(3)
  obtain i' where "fire_list call delayed (map snd ds) i1 = Inr i'" "fire_due call delayed i1 = Some (Inr (put_back i'))"
    "int_inv i'" "level i' = IntOff" "now i' = now i" "due i' = []" "istatus i' = istatus i" using q(1,4) by auto
  then show ?case using step i1(1) p(1) Cons.hyps(2) [symmetric] d(1) by auto
qed

text \<open>In every mode the loop ends, and leaves the clock alone.\<close>

lemma fire_due_returns:
  assumes "int_inv i" and "level i = IntOff"
  shows "\<exists>i'. fire_due call delayed i = Some (Inr i') \<and> int_inv i' \<and> level i' = IntOff \<and> now i' = now i"
  using assms
proof (induction "length (due i)" arbitrary: i rule: less_induct)
  case less
  show ?case
  proof (cases "due i")
    case Nil
    then show ?thesis using CheckIfDue_none [OF less.prems] put_back_ok [OF less.prems(1)] less.prems(2)
      by (subst fire_due.simps) simp
  next
    case (Cons d ds)
    obtain w p rest where p: "pending i = (w, p) # rest" "w \<le> now i" using due_Cons [OF less.prems(1)] Cons by auto
    show ?thesis
    proof (cases "istatus i = IdleMode \<and> itype p = TimerInt \<and> rest = []")
      case True
      then have "fire_due call delayed i = Some (Inr (put_back i))" using p less.prems(2)
        by (subst fire_due.simps) (simp add: CheckIfDue_def put_back_def Let_def)
      then show ?thesis using put_back_ok [OF less.prems(1)] less.prems(2) by simp
    next
      case False
      obtain i1 where i1: "fire call delayed (istatus i) p (i\<lparr>pending := rest\<rparr>) = Inr i1" "quiet (i\<lparr>pending := rest\<rparr>) i1"
        using fire_quiet [of "i\<lparr>pending := rest\<rparr>"] int_inv_tl [OF less.prems(1) p(1)] less.prems(2) by auto
      have q: "due i1 = due (i\<lparr>pending := rest\<rparr>)" "int_inv i1" "level i1 = IntOff" "now i1 = now i"
        using i1(2) less.prems(2) by (simp_all add: quiet_def)
      have "length (due i1) < length (due i)" using q(1) p by (simp add: due_def)
      from less.hyps [OF this q(2,3)] obtain i' where i': "fire_due call delayed i1 = Some (Inr i')" "int_inv i'"
        "level i' = IntOff" "now i' = now i1" by blast
      have "CheckIfDue call delayed False i = Inr (True, i1)"
        using p i1(1) less.prems(2) False by (auto simp: CheckIfDue_def Let_def)
      then show ?thesis using i' q(4) by (subst fire_due.simps) simp
    qed
  qed
qed

lemma tick_runs:
  assumes "int_inv i" and "istatus i \<noteq> IdleMode"
  shows "\<exists>i'. tick call delayed i = Some (Inr i') \<and> int_inv i' \<and> level i' = IntOn \<and> now i' > now i \<and> due i' = []
    \<and> istatus i' = istatus i"
proof -
  let ?i = "ChangeLevel IntOff (advance_clock i)"
  have a: "int_inv ?i" "level ?i = IntOff" "istatus ?i = istatus i" "now ?i > now i"
    using assms(1) by (simp_all add: ChangeLevel_def advance_clock_def SystemTick_def UserTick_def)
  then obtain i' where "fire_due call delayed ?i = Some (Inr (put_back i'))" "int_inv i'" "now i' = now ?i" "due i' = []"
    "istatus i' = istatus i" using fire_due_runs [of ?i] assms(2) by auto
  then show ?thesis using put_back_ok [of i'] a(4) by (auto simp: tick_def ChangeLevel_def)
qed

text \<open>When the machine idles: halt if nothing but the timer can happen, and otherwise move to the next interrupt.\<close>

lemma Idle_halts:
  assumes "level i = IntOff" and "pending i = [] \<or> (\<exists>w p. pending i = [(w, p)] \<and> itype p = TimerInt)"
  shows "Idle call delayed i = Some (Inr None)"
  using assms by (auto simp: Idle_def CheckIfDue_def Let_def)

lemma Idle_advances:
  assumes i: "int_inv i" "level i = IntOff" and p: "pending i = (w, p) # rest" and t: "rest \<noteq> [] \<or> itype p \<noteq> TimerInt"
  shows "\<exists>i'. Idle call delayed i = Some (Inr (Some i')) \<and> int_inv i' \<and> level i' = IntOff \<and> now i' = max (now i) w
    \<and> istatus i' = SystemMode \<and> \<not> yieldOnReturn i'"
proof -
  let ?s = "if w > now i then (stats i)\<lparr>idleTicks := idleTicks (stats i) + (w - now i), totalTicks := w\<rparr> else stats i"
  let ?i = "i\<lparr>istatus := IdleMode, pending := rest, stats := ?s\<rparr>"
  have a: "int_inv ?i" "level ?i = IntOff" "now ?i = max (now i) w" using i p by (auto simp: int_inv_def)
  obtain i1 where i1: "fire call delayed IdleMode p ?i = Inr i1" "quiet ?i i1" using fire_quiet [OF a(1,2)] by blast
  have "CheckIfDue call delayed True (i\<lparr>istatus := IdleMode\<rparr>) = Inr (True, i1)"
    using p i1(1) t i(2) by (cases "w > now i") (auto simp: CheckIfDue_def Let_def)
  moreover have "int_inv i1" "level i1 = IntOff" "now i1 = max (now i) w" using i1(2) a by (simp_all add: quiet_def)
  then obtain i2 where "fire_due call delayed i1 = Some (Inr i2)" "int_inv i2" "level i2 = IntOff" "now i2 = max (now i) w"
    using fire_due_returns by metis
  ultimately show ?thesis by (simp add: Idle_def)
qed

end

section \<open>Invariants of the whole system across interrupts\<close>

text \<open>
  A property of the state that the device routines keep is kept by the clock tick and by idling. It may
  depend on which routines are pending, but only so that taking one off the list does not break it.
\<close>

definition handlers :: "('h, 'z) istate \<Rightarrow> 'h set" where
  "handlers i = (handler \<circ> snd) ` set (pending i)"

locale interrupt_invariant =
  fixes call :: "'h \<Rightarrow> ('h, 'z) istate \<Rightarrow> ('h, 'z) istate res"
    and delayed :: "('h, 'z) istate \<Rightarrow> ('h, 'z) istate res"
    and holds :: "('h, 'z) istate \<Rightarrow> bool"
  assumes holds_mono: "holds i \<Longrightarrow> system_of i' = system_of i \<Longrightarrow> handlers i' \<subseteq> handlers i \<Longrightarrow> holds i'"
    and holds_call: "holds i0 \<Longrightarrow> h \<in> handlers i0 \<Longrightarrow> system_of i0 = system_of i \<Longrightarrow>
      handlers i \<subseteq> handlers i0 \<Longrightarrow> level i = IntOff \<Longrightarrow> call h i = Inr i' \<Longrightarrow> holds i'"
    and holds_delayed: "holds i0 \<Longrightarrow> system_of i0 = system_of i \<Longrightarrow> delayed i = Inr i' \<Longrightarrow>
      holds (set_system (system_of i') i0) \<and> pending i' = pending i \<and> level i' = level i"
begin

lemma fire_holds:
  assumes "holds i0" and "handler p \<in> handlers i0" and "system_of i0 = system_of i"
    and "handlers i \<subseteq> handlers i0" and "level i = IntOff" and "fire call delayed old p i = Inr i'"
  shows "holds i'"
proof -
  obtain i1 i2 where i1: "delayed i = Inr i1" and i2: "call (handler p) (i1\<lparr>inHandler := True, istatus := SystemMode\<rparr>) = Inr i2"
    and i': "i' = i2\<lparr>istatus := old, inHandler := False\<rparr>"
    using assms(6) by (auto simp: fire_def rbind_eq_Inr)
  let ?i0 = "set_system (system_of i1) i0"
  have d: "holds ?i0" "pending i1 = pending i" "level i1 = level i" using holds_delayed [OF assms(1,3) i1] by simp_all
  have "holds i2"
    by (rule holds_call [OF d(1) _ _ _ _ i2]) (use assms(2,4,5) d in \<open>simp_all add: handlers_def\<close>)
  then show ?thesis unfolding i' by (rule holds_mono) (simp_all add: handlers_def)
qed

lemma CheckIfDue_holds:
  assumes P: "holds i" and C: "CheckIfDue call delayed adv i = Inr (b, i')"
  shows "holds i'"
proof (cases "pending i")
  case Nil
  then show ?thesis using P C by (simp add: CheckIfDue_def)
next
  case (Cons q rest)
  obtain w p where q: "q = (w, p)" by (cases q)
  have lv: "level i = IntOff" using C by (simp add: CheckIfDue_def)
  let ?s = "if adv \<and> w > now i then (stats i)\<lparr>idleTicks := idleTicks (stats i) + (w - now i), totalTicks := w\<rparr> else stats i"
  let ?i = "i\<lparr>pending := rest, stats := ?s\<rparr>"
  have same: "holds (i\<lparr>pending := ps, stats := st\<rparr>)" if "set ps \<subseteq> set (pending i)" for ps st
    by (rule holds_mono [OF P]) (use that in \<open>auto simp: handlers_def\<close>)
  consider "i' = i\<lparr>pending := insert_sorted w p rest, stats := stats i\<rparr>"
    | "i' = i\<lparr>pending := insert_sorted w p rest, stats := ?s\<rparr>"
    | "fire call delayed (istatus i) p ?i = Inr i'"
    using C Cons q lv by (cases "adv \<and> w > now i") (auto simp: CheckIfDue_def Let_def rbind_eq_Inr split: if_splits)
  then show ?thesis
  proof cases
    case 1
    show ?thesis unfolding 1 by (rule same) (simp add: Cons q set_insert_sorted)
  next
    case 2
    show ?thesis unfolding 2 by (rule same) (simp add: Cons q set_insert_sorted)
  next
    case 3
    then show ?thesis by (rule fire_holds [OF P, rotated -1]) (use Cons q lv in \<open>auto simp: handlers_def\<close>)
  qed
qed

lemma fire_due_holds: "fire_due call delayed i = Some (Inr i') \<Longrightarrow> holds i \<Longrightarrow> holds i'"
proof -
  have "c = call \<longrightarrow> d = delayed \<longrightarrow> holds i \<longrightarrow> (\<forall>i'. r = Inr i' \<longrightarrow> holds i')"
    if "fire_due c d i = Some r" for c d i r
    using that
  proof (rule fire_due.raw_induct [rotated])
    fix rec c d i r
    assume IH: "\<And>c d i r. rec c d i = Some r \<Longrightarrow> c = call \<longrightarrow> d = delayed \<longrightarrow> holds i \<longrightarrow> (\<forall>i'. r = Inr i' \<longrightarrow> holds i')"
      and step: "(case CheckIfDue c d False i of Inl f \<Rightarrow> Some (Inl f)
        | Inr (fired, i1) \<Rightarrow> if fired then rec c d i1 else Some (Inr i1)) = Some r"
    show "c = call \<longrightarrow> d = delayed \<longrightarrow> holds i \<longrightarrow> (\<forall>i'. r = Inr i' \<longrightarrow> holds i')"
    proof (intro impI allI)
      fix i' assume c: "c = call" "d = delayed" "holds i" "r = Inr i'"
      with step obtain b i1 where C: "CheckIfDue call delayed False i = Inr (b, i1)"
        by (auto split: sum.splits)
      then have "holds i1" using CheckIfDue_holds c(3) by blast
      then show "holds i'" using step c IH C by (auto split: if_splits)
    qed
  qed
  then show "fire_due call delayed i = Some (Inr i') \<Longrightarrow> holds i \<Longrightarrow> holds i'" by blast
qed

lemma tick_holds:
  assumes "holds i" and "tick call delayed i = Some (Inr i')"
  shows "holds i'"
proof -
  let ?i = "ChangeLevel IntOff (advance_clock i)"
  obtain i1 where i1: "fire_due call delayed ?i = Some (Inr i1)" "i' = ChangeLevel IntOn i1"
    using assms(2) by (auto simp: tick_def rbind_eq_Inr split: option.splits)
  have "holds ?i" by (rule holds_mono [OF assms(1)]) (simp_all add: ChangeLevel_def advance_clock_def handlers_def)
  then have "holds i1" using fire_due_holds i1(1) by blast
  then show ?thesis unfolding i1(2) by (rule holds_mono) (simp_all add: ChangeLevel_def handlers_def)
qed

lemma Idle_holds:
  assumes "holds i" and "Idle call delayed i = Some (Inr (Some i'))"
  shows "holds i'"
proof -
  obtain i1 i2 where i1: "CheckIfDue call delayed True (i\<lparr>istatus := IdleMode\<rparr>) = Inr (True, i1)"
    "fire_due call delayed i1 = Some (Inr i2)" "i' = i2\<lparr>yieldOnReturn := False, istatus := SystemMode\<rparr>"
    using assms(2) by (auto simp: Idle_def rbind_eq_Inr split: sum.splits if_splits option.splits)
  have "holds (i\<lparr>istatus := IdleMode\<rparr>)" by (rule holds_mono [OF assms(1)]) (simp_all add: handlers_def)
  then have "holds i2" using CheckIfDue_holds [OF _ i1(1)] fire_due_holds [OF i1(2)] by blast
  then show ?thesis unfolding i1(3) by (rule holds_mono) (simp_all add: handlers_def)
qed

end

section \<open>The timer keeps the contract\<close>

lemma TimeOfNextInterrupt_pos: "0 \<le> rnd \<Longrightarrow> 0 < TimeOfNextInterrupt t rnd"
proof -
  assume "0 \<le> rnd"
  then have "rnd smod 200 = rnd mod 200" using minus_div_mult_eq_mod [of rnd 200]
    by (cases "rnd = 0") (simp_all add: signed_modulo_int_def signed_divide_int_def)
  then show ?thesis by (simp add: TimeOfNextInterrupt_def TimerTicks_def add_pos_nonneg)
qed

lemma TimerExpired_quiet:
  assumes "int_inv i" and "0 \<le> rnd"
  shows "\<exists>i'. TimerExpired (\<lambda>_. TimerInterruptHandler) this t rnd i = Inr i' \<and> quiet i i'"
proof -
  obtain i1 where "Schedule this (TimeOfNextInterrupt t rnd) TimerInt i = Inr i1" "quiet i i1"
    using Schedule_quiet [OF assms(1) TimeOfNextInterrupt_pos [OF assms(2)]] by blast
  then show ?thesis by (simp add: TimerExpired_def TimerInterruptHandler_def YieldOnReturn_def quiet_def)
qed

interpretation timer: devices "\<lambda>h. TimerExpired (\<lambda>_. TimerInterruptHandler) h t (int n)" Inr
  by unfold_locales (rule TimerExpired_quiet, simp_all add: quiet_def)

section \<open>Properties\<close>

text \<open>
  C28. A clock tick fires exactly the interrupts that have become due, in the order of the pending list
  (that is, of their times), with interrupts disabled; the loop ends because handlers can only schedule
  in the future, and afterwards no pending interrupt is late and interrupts are enabled.
\<close>

theorem tick_fires_due:
  assumes "devices call delayed" and "int_inv i" and "istatus i \<noteq> IdleMode"
  shows "\<exists>j. fire_list call delayed (map snd (due (advance_clock i))) (ChangeLevel IntOff (advance_clock i)) = Inr j
    \<and> tick call delayed i = Some (Inr (ChangeLevel IntOn (put_back j)))
    \<and> (\<forall>(w, p) \<in> set (pending (put_back j)). now (put_back j) < w) \<and> int_inv (put_back j)"
proof -
  let ?i = "ChangeLevel IntOff (advance_clock i)"
  have a: "int_inv ?i" "level ?i = IntOff" "istatus ?i = istatus i" "due ?i = due (advance_clock i)"
    using assms(2) by (simp_all add: ChangeLevel_def advance_clock_def)
  obtain j where j: "fire_list call delayed (map snd (due ?i)) ?i = Inr j" "fire_due call delayed ?i = Some (Inr (put_back j))"
    "int_inv j" "due j = []" using devices.fire_due_runs [OF assms(1) a(1,2)] a(3) assms(3) by auto
  have "due (put_back j) = []" "int_inv (put_back j)" using put_back_ok [OF j(3)] j(4) by simp_all
  then show ?thesis using j(1,2) a(4) by (auto simp: tick_def due_def filter_empty_conv not_le)
qed

theorem tick_fires_due_witness:
  fixes t :: "unit Timer"
  defines "t \<equiv> \<lparr>randomize = False, timer_handler = ()\<rparr>"
  defines "i \<equiv> (Interrupt_new Statistics_new)\<lparr>pending := [(5, PendingInterrupt_new ''tick'' 5 TimerInt)]\<rparr>"
  shows "\<exists>j. tick (\<lambda>h. TimerExpired (\<lambda>_. TimerInterruptHandler) h t (int 0)) Inr i = Some (Inr (ChangeLevel IntOn (put_back j)))
    \<and> (\<forall>(w, p) \<in> set (pending (put_back j)). now (put_back j) < w)"
proof -
  have "int_inv i" "istatus i \<noteq> IdleMode" by (simp_all add: i_def Interrupt_new_def int_inv_def PendingInterrupt_new_def)
  from tick_fires_due [OF timer.devices_axioms this, of t 0] show ?thesis by blast
qed

text \<open>
  When no thread is ready, the machine halts if and only if no interrupt is pending or the only one is
  the timer's; otherwise the clock moves to the time of the next interrupt and no further, at least
  that interrupt is fired, and \<open>Idle\<close> returns in system mode with no yield requested.
\<close>

theorem Idle_correct:
  assumes "devices call delayed" and "int_inv i" and "level i = IntOff"
  shows "if pending i = [] \<or> (\<exists>w p. pending i = [(w, p)] \<and> itype p = TimerInt)
    then Idle call delayed i = Some (Inr None)
    else \<exists>i'. Idle call delayed i = Some (Inr (Some i')) \<and> int_inv i' \<and> level i' = IntOff
      \<and> now i' = max (now i) (fst (hd (pending i))) \<and> istatus i' = SystemMode \<and> \<not> yieldOnReturn i'"
proof (cases "pending i")
  case Nil
  then show ?thesis using devices.Idle_halts [OF assms(1,3)] by simp
next
  case (Cons q rest)
  obtain w p where q: "q = (w, p)" by (cases q)
  show ?thesis
  proof (cases "rest = [] \<and> itype p = TimerInt")
    case True
    then show ?thesis using Cons q devices.Idle_halts [OF assms(1,3)] by simp
  next
    case False
    then show ?thesis using Cons q devices.Idle_advances [OF assms, of w p rest] by auto
  qed
qed

theorem Idle_correct_witness:
  fixes t :: "unit Timer"
  defines "t \<equiv> \<lparr>randomize = False, timer_handler = ()\<rparr>"
  defines "i \<equiv> (Interrupt_new Statistics_new)\<lparr>pending := [(50, PendingInterrupt_new ''disk'' 50 DiskInt)]\<rparr>"
  shows "\<exists>i'. Idle (\<lambda>h. TimerExpired (\<lambda>_. TimerInterruptHandler) h t (int 0)) Inr i = Some (Inr (Some i')) \<and> now i' = 50"
proof -
  have "int_inv i" "level i = IntOff" "now i = 0"
    by (simp_all add: i_def Interrupt_new_def int_inv_def PendingInterrupt_new_def Statistics_new_def)
  with Idle_correct [OF timer.devices_axioms this(1,2), of t 0] show ?thesis
    by (auto simp: i_def PendingInterrupt_new_def)
qed

end
