(* ===== verification/Scheduler.thy ===== *)
theory Scheduler
  imports Interrupt
begin

text \<open>
  Threads and the scheduler (\<^verbatim>\<open>threads/thread.h\<close>, \<^verbatim>\<open>threads/scheduler.cc\<close>), on the state of the whole
  kernel. Threads, semaphores, locks, condition variables and ports are objects of the kernel, named
  by numbers; a thread control block holds what the thread has still to do in the kernel when it is
  next given the CPU, as a stack of \<open>frame\<close>s: a frame is a call that is still to be made, or the rest of
  a routine that was interrupted by a context switch. \<open>SWITCH\<close> is the change of the current thread; a
  thread that runs for the first time starts in \<open>ThreadRoot\<close>, every other one in the rest of
  \<^verbatim>\<open>Scheduler::Run\<close>. Lists of threads are the sequences that \<^verbatim>\<open>threads/list.h\<close> implements.
\<close>

section \<open>State\<close>

type_synonym tid = nat
type_synonym sid = nat
type_synonym lid = nat
type_synonym cid = nat
type_synonym portid = nat

datatype ThreadStatus = JUST_CREATED | RUNNING | READY | BLOCKED

datatype frame =
    ThreadRoot \<comment> \<open>the first activation of a forked thread\<close>
  | AfterSwitch \<comment> \<open>the rest of \<^verbatim>\<open>Scheduler::Run\<close>\<close>
  | RestoreLevel IntStatus \<comment> \<open>\<^verbatim>\<open>interrupt->SetLevel(oldLevel)\<close>\<close>
  | RestoreStatus MachineStatus \<comment> \<open>the end of \<^verbatim>\<open>Interrupt::OneTick\<close>\<close>
  | P_loop sid IntStatus \<comment> \<open>the loop of \<^verbatim>\<open>Semaphore::P\<close>\<close>
  | FinishTail \<comment> \<open>the end of \<^verbatim>\<open>Thread::Finish\<close>\<close>
  | Donate lid | SetOwner lid \<comment> \<open>parts of \<^verbatim>\<open>Lock::Acquire\<close>\<close>
  | BroadcastLoop cid | SendLoop portid int | ReceiveLoop portid \<comment> \<open>loops of \<^verbatim>\<open>synch.cc\<close>\<close>
  | CallOneTick | CallYield | CallFinish | CallFork tid bool int | CallJoin tid
  | CallP sid | CallV sid | CallAcquire lid | CallRelease lid
  | CallWait cid | CallSignal cid | CallBroadcast cid | CallSend portid int | CallReceive portid

record Thread =
  tname :: string
  stack :: "32 word option" \<comment> \<open>the word at the bottom of the stack; \<open>None\<close> when \<^verbatim>\<open>stack\<close> is null\<close>
  tstatus :: ThreadStatus
  join_flag :: bool \<comment> \<open>\<^verbatim>\<open>join\<close>\<close>
  priority :: int
  portJoin :: "portid option"
  userRegisters :: "32 word list"
  space :: "nat option" \<comment> \<open>the page table of its address space\<close>
  frames :: "frame list"

record Semaphore =
  svalue :: int \<comment> \<open>\<^verbatim>\<open>value\<close>\<close>
  squeue :: "tid list" \<comment> \<open>\<^verbatim>\<open>queue\<close>\<close>

record Lock =
  thname :: "tid option"
  lsem :: sid \<comment> \<open>\<^verbatim>\<open>sem\<close>\<close>
  semInvP :: sid
  Prioritymax :: int

record Condition =
  clock :: lid \<comment> \<open>\<^verbatim>\<open>lock\<close>\<close>
  semList :: "sid list"

record Puerto =
  plock :: lid
  pcondS :: cid
  pcondR :: cid
  buffer :: "int option" \<comment> \<open>\<open>None\<close> until the first message\<close>
  accessible :: bool \<comment> \<open>\<^verbatim>\<open>access\<close>\<close>

text \<open>Interrupts call the timer's routine, or a routine that performs \<^verbatim>\<open>V\<close> on a semaphore of a driver.\<close>

datatype device = TimerDevice bool | DriverDone sid

record kernel = "device Interrupt" +
  threads :: "tid \<rightharpoonup> Thread"
  currentThread :: tid
  readyListP :: "tid list list"
  threadToBeDestroyed :: "tid option"
  machine :: "unit Machine" \<comment> \<open>its registers\<close>
  pageTablePtr :: "nat option" \<comment> \<open>\<^verbatim>\<open>machine->pageTable\<close>\<close>
  semaphores :: "sid \<rightharpoonup> Semaphore"
  locks :: "lid \<rightharpoonup> Lock"
  conditions :: "cid \<rightharpoonup> Condition"
  ports :: "portid \<rightharpoonup> Puerto"
  halted :: bool
  randoms :: "nat \<Rightarrow> nat" \<comment> \<open>the values that \<^verbatim>\<open>Random()\<close> is going to return\<close>
  next_id :: nat \<comment> \<open>the next unused object\<close>

definition STACK_FENCEPOST :: "32 word" where "STACK_FENCEPOST = 0xdeadbeef"

definition MaxPriority :: int where "MaxPriority = 3"

text \<open>Following a pointer to an object of the kernel.\<close>

definition follow :: "('a \<rightharpoonup> 'b) \<Rightarrow> 'a \<Rightarrow> 'b res" where
  "follow tab p = (case tab p of None \<Rightarrow> Inl DanglingPointer | Some x \<Rightarrow> Inr x)"

definition upd_thread :: "tid \<Rightarrow> (Thread \<Rightarrow> Thread) \<Rightarrow> kernel \<Rightarrow> kernel" where
  "upd_thread t f k = k\<lparr>threads := (threads k)(t := map_option f (threads k t))\<rparr>"

definition push :: "frame list \<Rightarrow> kernel \<Rightarrow> kernel" where
  "push fs k = upd_thread (currentThread k) (\<lambda>th. th\<lparr>frames := fs @ frames th\<rparr>) k"

section \<open>thread.h and thread.cc, the parts the scheduler calls\<close>

text \<open>\<open>junk\<close>: the registers, which the constructor leaves as they are.\<close>

definition Thread_new :: "string \<Rightarrow> 32 word list \<Rightarrow> Thread" where
  "Thread_new threadName junk = \<lparr>tname = threadName, stack = None, tstatus = JUST_CREATED, join_flag = False,
     priority = 0, portJoin = None, userRegisters = junk, space = None, frames = []\<rparr>"

definition setStatus :: "ThreadStatus \<Rightarrow> Thread \<Rightarrow> Thread" where
  "setStatus st th = th\<lparr>tstatus := st\<rparr>"

definition setPriority :: "int \<Rightarrow> Thread \<Rightarrow> Thread" where
  "setPriority i th = th\<lparr>priority := i\<rparr>"

definition CheckOverflow :: "Thread \<Rightarrow> bool" where
  "CheckOverflow th \<longleftrightarrow> stack th = None \<or> stack th = Some STACK_FENCEPOST"

fun save_from :: "nat \<Rightarrow> unit Machine \<Rightarrow> 32 word list \<Rightarrow> 32 word list res" where
  "save_from 0 m us = Inr us"
| "save_from (Suc n) m us =
     rbind (ReadRegister (int (NumTotalRegs - Suc n)) m) (\<lambda>v.
     rbind (aput us (int (NumTotalRegs - Suc n)) v) (save_from n m))"

definition SaveUserState :: "tid \<Rightarrow> kernel \<Rightarrow> kernel res" where
  "SaveUserState t k =
     rbind (follow (threads k) t) (\<lambda>th.
     rbind (save_from NumTotalRegs (machine k) (userRegisters th)) (\<lambda>us.
     Inr (upd_thread t (\<lambda>th. th\<lparr>userRegisters := us\<rparr>) k)))"

fun restore_from :: "nat \<Rightarrow> 32 word list \<Rightarrow> unit Machine \<Rightarrow> unit Machine res" where
  "restore_from 0 us m = Inr m"
| "restore_from (Suc n) us m =
     rbind (aget us (int (NumTotalRegs - Suc n))) (\<lambda>v.
     rbind (WriteRegister (int (NumTotalRegs - Suc n)) v m) (restore_from n us))"

definition RestoreUserState :: "tid \<Rightarrow> kernel \<Rightarrow> kernel res" where
  "RestoreUserState t k =
     rbind (follow (threads k) t) (\<lambda>th.
     rbind (restore_from NumTotalRegs (userRegisters th) (machine k)) (\<lambda>m. Inr (k\<lparr>machine := m\<rparr>)))"

text \<open>\<^verbatim>\<open>AddrSpace::SaveState\<close> does nothing; \<^verbatim>\<open>RestoreState\<close> installs the page table.\<close>

definition AddrSpace_RestoreState :: "nat \<Rightarrow> kernel \<Rightarrow> kernel" where
  "AddrSpace_RestoreState sp k = k\<lparr>pageTablePtr := Some sp\<rparr>"

section \<open>scheduler.cc\<close>

definition Scheduler_new :: "tid list list" where
  "Scheduler_new = replicate (nat MaxPriority) []"

definition ReadyToRun :: "tid \<Rightarrow> kernel \<Rightarrow> kernel res" where
  "ReadyToRun t k =
     rbind (follow (threads k) t) (\<lambda>th.
     let k1 = upd_thread t (setStatus READY) k in
     rbind (aget (readyListP k1) (priority th)) (\<lambda>q.
     rbind (aput (readyListP k1) (priority th) (q @ [t])) (\<lambda>qs.
     Inr (k1\<lparr>readyListP := qs\<rparr>))))"

text \<open>The loop that looks for a list that is not empty, from the highest index down.\<close>

fun top_queue :: "nat \<Rightarrow> tid list list \<Rightarrow> nat res" where
  "top_queue 0 qs = Inr 0"
| "top_queue (Suc p) qs = rbind (aget qs (int (Suc p))) (\<lambda>q. if q = [] then top_queue p qs else Inr (Suc p))"

definition FindNextToRun :: "kernel \<Rightarrow> (tid option \<times> kernel) res" where
  "FindNextToRun k =
     rbind (top_queue (nat (MaxPriority - 1)) (readyListP k)) (\<lambda>p.
     rbind (aget (readyListP k) (int p)) (\<lambda>q.
     case q of [] \<Rightarrow> Inr (None, k) | t # ts \<Rightarrow> Inr (Some t, k\<lparr>readyListP := (readyListP k)[p := ts]\<rparr>)))"

text \<open>\<^verbatim>\<open>Run\<close> up to \<^verbatim>\<open>SWITCH\<close>, and what the old thread does when it is switched to again.\<close>

definition Run :: "tid \<Rightarrow> kernel \<Rightarrow> kernel res" where
  "Run nextThread k =
     (let oldThread = currentThread k in
      rbind (follow (threads k) oldThread) (\<lambda>old.
      rbind (if space old \<noteq> None then SaveUserState oldThread k else Inr k) (\<lambda>k1.
      ASSERT (CheckOverflow old)
       (let k2 = (push [AfterSwitch] k1)\<lparr>currentThread := nextThread\<rparr> in
        rbind (follow (threads k2) nextThread) (\<lambda>_. Inr (upd_thread nextThread (setStatus RUNNING) k2))))))"

definition Thread_delete :: "tid \<Rightarrow> kernel \<Rightarrow> kernel res" where
  "Thread_delete t k =
     ASSERT (t \<noteq> currentThread k)
      (rbind (follow (threads k) t) (\<lambda>_. Inr (k\<lparr>threads := (threads k)(t := None)\<rparr>)))"

definition Run_after_switch :: "kernel \<Rightarrow> kernel res" where
  "Run_after_switch k =
     rbind (case threadToBeDestroyed k of None \<Rightarrow> Inr k
            | Some d \<Rightarrow> rbind (Thread_delete d k) (\<lambda>k1. Inr (k1\<lparr>threadToBeDestroyed := None\<rparr>))) (\<lambda>k1.
     rbind (follow (threads k1) (currentThread k1)) (\<lambda>cur.
     case space cur of None \<Rightarrow> Inr k1
     | Some sp \<Rightarrow> rbind (RestoreUserState (currentThread k1) k1) (\<lambda>k2. Inr (AddrSpace_RestoreState sp k2))))"

text \<open>The threads in the order in which \<^verbatim>\<open>Print\<close> prints them, list by list.\<close>

definition Scheduler_Print :: "kernel \<Rightarrow> (nat \<times> string list) list res" where
  "Scheduler_Print k = (if \<forall>t \<in> set (concat (readyListP k)). threads k t \<noteq> None
     then Inr (map (\<lambda>i. (i, map (\<lambda>t. tname (the (threads k t))) (readyListP k ! i))) [0..<length (readyListP k)])
     else Inl DanglingPointer)"

text \<open>
  The loop of \<^verbatim>\<open>ChangeQueuePriority\<close>. On an empty list \<^verbatim>\<open>Remove\<close> returns null, which the loop would
  append and take off again for ever.
\<close>

partial_function (option) rotate_to :: "tid \<Rightarrow> tid \<Rightarrow> int \<Rightarrow> int \<Rightarrow> tid list list \<Rightarrow> tid list list res option" where
  "rotate_to th threadh i prio qs =
     (case aget qs i of Inl f \<Rightarrow> Some (Inl f) | Inr q \<Rightarrow>
        (case q of
           [] \<Rightarrow> None
         | thread1 # rest \<Rightarrow>
             if thread1 = threadh then Some (aput qs i rest)
             else if thread1 = th
             then (case rbind (aput qs i rest) (\<lambda>qs1. rbind (aget qs1 prio) (\<lambda>qp. aput qs1 prio (th # qp))) of
                     Inl f \<Rightarrow> Some (Inl f) | Inr qs2 \<Rightarrow> rotate_to th threadh i prio qs2)
             else (case aput qs i (rest @ [thread1]) of Inl f \<Rightarrow> Some (Inl f)
                   | Inr qs1 \<Rightarrow> rotate_to th threadh i prio qs1)))"

definition ChangeQueuePriority :: "tid \<Rightarrow> int \<Rightarrow> kernel \<Rightarrow> kernel res option" where
  "ChangeQueuePriority th prio k =
     (case rbind (follow (threads k) th) (\<lambda>t. rbind (aget (readyListP k) (priority t)) (\<lambda>q. Inr (priority t, q))) of
        Inl f \<Rightarrow> Some (Inl f)
      | Inr (i, []) \<Rightarrow> Some (Inl NullPointer) \<comment> \<open>\<^verbatim>\<open>threadh->getName()\<close>\<close>
      | Inr (i, threadh # rest) \<Rightarrow>
          (case (if threadh = th
                 then Some (rbind (aput (readyListP k) i rest) (\<lambda>qs. rbind (aget qs prio) (\<lambda>qp. aput qs prio (th # qp))))
                 else (case aput (readyListP k) i (rest @ [threadh]) of Inl f \<Rightarrow> Some (Inl f)
                       | Inr qs \<Rightarrow> rotate_to th threadh i prio qs)) of
             None \<Rightarrow> None
           | Some r \<Rightarrow> Some (rbind r (\<lambda>qs. Inr (k\<lparr>readyListP := qs\<rparr>)))))"

section \<open>Basic facts\<close>

lemma follow_eq_Inr [simp]: "follow tab p = Inr x \<longleftrightarrow> tab p = Some x"
  by (simp add: follow_def split: option.splits)

lemma follow_Some [simp]: "tab p = Some x \<Longrightarrow> follow tab p = Inr x"
  by simp

lemma upd_thread_simps [simp]:
  "readyListP (upd_thread t f k) = readyListP k" "currentThread (upd_thread t f k) = currentThread k"
  "machine (upd_thread t f k) = machine k" "threadToBeDestroyed (upd_thread t f k) = threadToBeDestroyed k"
  "semaphores (upd_thread t f k) = semaphores k" "locks (upd_thread t f k) = locks k"
  "conditions (upd_thread t f k) = conditions k" "ports (upd_thread t f k) = ports k" "halted (upd_thread t f k) = halted k"
  "level (upd_thread t f k) = level k" "pending (upd_thread t f k) = pending k" "stats (upd_thread t f k) = stats k"
  "inHandler (upd_thread t f k) = inHandler k" "yieldOnReturn (upd_thread t f k) = yieldOnReturn k"
  "istatus (upd_thread t f k) = istatus k" "randoms (upd_thread t f k) = randoms k" "next_id (upd_thread t f k) = next_id k" "pageTablePtr (upd_thread t f k) = pageTablePtr k"
  "threads (upd_thread t f k) u = (if u = t then map_option f (threads k t) else threads k u)"
  by (simp_all add: upd_thread_def)

lemma setStatus_simps [simp]:
  "tstatus (setStatus st th) = st" "priority (setStatus st th) = priority th" "frames (setStatus st th) = frames th"
  "space (setStatus st th) = space th" "userRegisters (setStatus st th) = userRegisters th" "stack (setStatus st th) = stack th"
  by (simp_all add: setStatus_def)

section \<open>Which thread is dispatched\<close>

text \<open>The ready threads in the order in which the scheduler would pick them.\<close>

definition ready_order :: "kernel \<Rightarrow> tid list" where
  "ready_order k = concat (rev (readyListP k))"

lemma three_queues:
  assumes "length qs = 3"
  obtains a b c where "qs = [a, b, c]"
proof -
  from assms obtain a b c where "qs = [a, b, c]" by (metis (no_types) length_0_conv length_Suc_conv numeral_3_eq_3)
  then show thesis by (rule that)
qed

lemma FindNextToRun_order:
  assumes "length (readyListP k) = 3"
  shows "FindNextToRun k = (case ready_order k of [] \<Rightarrow> Inr (None, k)
    | t # ts \<Rightarrow> Inr (Some t, k\<lparr>readyListP := (readyListP k)
        [(if readyListP k ! 2 \<noteq> [] then 2 else if readyListP k ! 1 \<noteq> [] then 1 else 0) :=
          tl (if readyListP k ! 2 \<noteq> [] then readyListP k ! 2 else if readyListP k ! 1 \<noteq> [] then readyListP k ! 1
              else readyListP k ! 0)]\<rparr>))"
proof -
  obtain a b c where q: "readyListP k = [a, b, c]" using three_queues [OF assms] .
  have n: "nat (MaxPriority - 1) = Suc (Suc 0)" by (simp add: MaxPriority_def)
  show ?thesis unfolding FindNextToRun_def n
    by (cases c; cases b; cases a) (simp_all add: q ready_order_def aget_def)
qed

lemma FindNextToRun_cases:
  assumes "length (readyListP k) = 3"
  obtains (idle) "FindNextToRun k = Inr (None, k)" "ready_order k = []"
    | (found) t k' qs where "FindNextToRun k = Inr (Some t, k')" "k' = k\<lparr>readyListP := qs\<rparr>" "length qs = 3"
        "ready_order k = t # ready_order k'" "\<And>i. i < 3 \<Longrightarrow> readyListP k ! i = qs ! i \<or> readyListP k ! i = t # qs ! i"
proof -
  obtain a b c where q: "readyListP k = [a, b, c]" using three_queues [OF assms] .
  note F = FindNextToRun_order [OF assms]
  consider "c = []" "b = []" "a = []" | t ts where "c = t # ts" | t ts where "c = []" "b = t # ts"
    | t ts where "c = []" "b = []" "a = t # ts" by (metis neq_Nil_conv)
  then show thesis
  proof cases
    case 1
    then show ?thesis using F q by (intro idle) (simp_all add: ready_order_def)
  next
    case (2 t ts)
    then show ?thesis using F q
      by (intro found [of t _ "[a, b, ts]"]) (auto simp: ready_order_def less_Suc_eq numeral_3_eq_3)
  next
    case (3 t ts)
    then show ?thesis using F q
      by (intro found [of t _ "[a, ts, c]"]) (auto simp: ready_order_def less_Suc_eq numeral_3_eq_3)
  next
    case (4 t ts)
    then show ?thesis using F q
      by (intro found [of t _ "[ts, b, c]"]) (auto simp: ready_order_def less_Suc_eq numeral_3_eq_3)
  qed
qed

definition prio_ok :: "Thread \<Rightarrow> bool" where
  "prio_ok th \<longleftrightarrow> 0 \<le> priority th \<and> priority th < 3"

lemma ReadyToRun_ok:
  assumes "threads k t = Some th" and "prio_ok th" and "length (readyListP k) = 3"
  shows "ReadyToRun t k = Inr ((upd_thread t (setStatus READY) k)
    \<lparr>readyListP := (readyListP k)[nat (priority th) := readyListP k ! nat (priority th) @ [t]]\<rparr>)"
  using assms by (simp add: ReadyToRun_def prio_ok_def)

text \<open>Making a sequence of threads ready, and picking a number of threads.\<close>

fun ready_all :: "tid list \<Rightarrow> kernel \<Rightarrow> kernel res" where
  "ready_all [] k = Inr k"
| "ready_all (t # ts) k = rbind (ReadyToRun t k) (ready_all ts)"

fun find_n :: "nat \<Rightarrow> kernel \<Rightarrow> (tid option list \<times> kernel) res" where
  "find_n 0 k = Inr ([], k)"
| "find_n (Suc n) k = rbind (FindNextToRun k) (\<lambda>(t, k1). rbind (find_n n k1) (\<lambda>(ts, k2). Inr (t # ts, k2)))"

lemma find_n_order:
  assumes "length (readyListP k) = 3" and "n = length (ready_order k)"
  shows "\<exists>k'. find_n n k = Inr (map Some (ready_order k), k')"
  using assms
proof (induction "ready_order k" arbitrary: k n)
  case Nil
  then show ?case by simp
next
  case (Cons t ts)
  show ?case
  proof (cases rule: FindNextToRun_cases [OF Cons.prems(1), case_names idle found])
    case idle
    then show ?thesis using Cons.hyps(2) by simp
  next
    case (found t' k' qs)
    then have "ts = ready_order k'" "t' = t" "length (readyListP k') = 3" using Cons.hyps(2) by simp_all
    from Cons.hyps(1) [OF this(1,3) refl] show ?thesis using found Cons.prems(2) Cons.hyps(2) \<open>t' = t\<close> by auto
  qed
qed

definition tprio :: "kernel \<Rightarrow> tid \<Rightarrow> int" where
  "tprio k t = priority (the (threads k t))"

lemma ready_all_queues:
  assumes "\<forall>t \<in> set ts. \<exists>th. threads k t = Some th \<and> prio_ok th" and "length (readyListP k) = 3"
  shows "\<exists>k'. ready_all ts k = Inr k' \<and> length (readyListP k') = 3
    \<and> (\<forall>i < 3. readyListP k' ! i = readyListP k ! i @ filter (\<lambda>t. tprio k t = int i) ts)"
  using assms
proof (induction ts arbitrary: k)
  case Nil
  then show ?case by simp
next
  case (Cons t ts)
  obtain th where th: "threads k t = Some th" "prio_ok th" using Cons.prems(1) by auto
  let ?p = "nat (priority th)"
  let ?k = "(upd_thread t (setStatus READY) k)\<lparr>readyListP := (readyListP k)[?p := readyListP k ! ?p @ [t]]\<rparr>"
  have R: "ReadyToRun t k = Inr ?k" by (rule ReadyToRun_ok [OF th Cons.prems(2)])
  have "\<forall>u \<in> set ts. \<exists>th. threads ?k u = Some th \<and> prio_ok th"
    using Cons.prems(1) by (auto simp: prio_ok_def)
  from Cons.IH [OF this] Cons.prems(2) obtain k' where k': "ready_all ts ?k = Inr k'" "length (readyListP k') = 3"
    "\<forall>i < 3. readyListP k' ! i = readyListP ?k ! i @ filter (\<lambda>t. tprio ?k t = int i) ts" by auto
  have same: "tprio ?k u = tprio k u" for u by (cases "threads k u") (auto simp: tprio_def)
  have "readyListP k' ! i = readyListP k ! i @ filter (\<lambda>t. tprio k t = int i) (t # ts)" if i: "i < 3" for i
    using k'(3) i th Cons.prems(2) unfolding same by (auto simp: tprio_def nth_list_update prio_ok_def)
  then show ?case using R k'(1,2) by (intro exI [of _ k']) (simp add: del: filter.simps)
qed

lemma sort_three:
  assumes "\<forall>t \<in> set ts. f t \<in> {0, 1, 2 :: int}"
  shows "sort_key (\<lambda>t. - f t) ts = filter (\<lambda>t. f t = 2) ts @ filter (\<lambda>t. f t = 1) ts @ filter (\<lambda>t. f t = 0) ts"
proof (rule properties_for_sort_key)
  let ?r = "filter (\<lambda>t. f t = 2) ts @ filter (\<lambda>t. f t = 1) ts @ filter (\<lambda>t. f t = 0) ts"
  show "mset ?r = mset ts" using assms by (induction ts) auto
  show "filter (\<lambda>x. - f k = - f x) ?r = filter (\<lambda>x. - f k = - f x) ts" if "k \<in> set ?r" for k
    using that by (auto simp: filter_filter filter_empty_conv intro!: filter_cong)
  show "sorted (map (\<lambda>t. - f t) ?r)" by (auto simp: sorted_append sorted_map sorted_wrt_filter intro: sorted_wrt_mono_rel [of _ "\<lambda>_ _. True"])
qed

text \<open>
  C31. Threads are dispatched by priority, larger numbers first, and in the order in which they became
  ready among equals: whatever threads are made ready on an idle scheduler, \<open>FindNextToRun\<close> returns them
  in the stable order of decreasing priority.
\<close>

theorem dispatch_order:
  assumes "\<forall>t \<in> set ts. \<exists>th. threads k t = Some th \<and> prio_ok th" and "readyListP k = Scheduler_new"
  shows "\<exists>k' k''. ready_all ts k = Inr k' \<and>
    find_n (length ts) k' = Inr (map Some (sort_key (\<lambda>t. - tprio k t) ts), k'')"
proof -
  have e: "length (readyListP k) = 3" "\<forall>i < 3. readyListP k ! i = []"
    using assms(2) by (simp_all add: Scheduler_new_def MaxPriority_def)
  obtain k' where k': "ready_all ts k = Inr k'" "length (readyListP k') = 3"
    "\<forall>i < 3. readyListP k' ! i = filter (\<lambda>t. tprio k t = int i) ts"
    using ready_all_queues [OF assms(1) e(1)] e(2) by auto
  obtain a b c where "readyListP k' = [a, b, c]" using three_queues [OF k'(2)] .
  moreover have "\<forall>t \<in> set ts. tprio k t \<in> {0, 1, 2}" using assms(1) by (fastforce simp: tprio_def prio_ok_def)
  ultimately have "ready_order k' = sort_key (\<lambda>t. - tprio k t) ts"
    using k'(3) [rule_format, of 0] k'(3) [rule_format, of 1] k'(3) [rule_format, of 2] sort_three [of ts "tprio k"]
    by (simp add: ready_order_def)
  then show ?thesis using find_n_order [OF k'(2) refl] k'(1) by auto
qed

text \<open>A kernel with four threads besides the main one, of priorities 0, 2, 0 and 1.\<close>

definition sample_kernel :: kernel where
  "sample_kernel = \<lparr>level = IntOff, pending = [], inHandler = False, yieldOnReturn = False, istatus = SystemMode,
     stats = Statistics_new,
     threads = [0 \<mapsto> setStatus RUNNING (Thread_new ''main'' []), 1 \<mapsto> Thread_new ''a'' [],
       2 \<mapsto> setPriority 2 (Thread_new ''b'' []), 3 \<mapsto> Thread_new ''c'' [], 4 \<mapsto> setPriority 1 (Thread_new ''d'' [])],
     currentThread = 0, readyListP = Scheduler_new, threadToBeDestroyed = None, machine = Machine_new None (),
     pageTablePtr = None, semaphores = Map.empty, locks = Map.empty, conditions = Map.empty, ports = Map.empty,
     halted = False, randoms = (\<lambda>n. 0), next_id = 5\<rparr>"

theorem dispatch_order_witness:
  "\<exists>k' k''. ready_all [1, 2, 3, 4] sample_kernel = Inr k'
    \<and> find_n 4 k' = Inr ([Some 2, Some 4, Some 1, Some 3], k'')"
proof -
  have s: "sort_key (\<lambda>t. - tprio sample_kernel t) [1, 2, 3, 4] = [2, 4, 1, 3]"
    by (simp add: tprio_def sample_kernel_def Thread_new_def setPriority_def)
  have "\<forall>t \<in> set [1, 2, 3, 4]. \<exists>th. threads sample_kernel t = Some th \<and> prio_ok th"
    "readyListP sample_kernel = Scheduler_new"
    by (simp_all add: sample_kernel_def Thread_new_def setPriority_def prio_ok_def)
  from dispatch_order [OF this] have "\<exists>k' k''. ready_all [1, 2, 3, 4] sample_kernel = Inr k'
      \<and> find_n (length [1 :: nat, 2, 3, 4]) k' = Inr (map Some [2, 4, 1, 3], k'')" unfolding s .
  moreover have "length [1 :: nat, 2, 3, 4] = 4" "map Some [2 :: nat, 4, 1, 3] = [Some 2, Some 4, Some 1, Some 3]" by simp_all
  ultimately show ?thesis by (simp only:)
qed

section \<open>Moving a thread to another list\<close>

lemma rotate_to_result:
  assumes "length qs = 3" and "0 \<le> i" "i < 3" "0 \<le> prio" "prio < 3" "i \<noteq> prio"
    and "qs ! nat i = xs @ h # ys" and "h \<notin> set xs" and "th \<noteq> h" and "distinct xs"
  shows "rotate_to th h i prio qs = Some (Inr (qs[nat i := ys @ filter (\<lambda>t. t \<noteq> th) xs,
      nat prio := (if th \<in> set xs then [th] else []) @ qs ! nat prio]))"
  using assms
proof (induction xs arbitrary: qs ys)
  case Nil
  have "nat i \<noteq> nat prio" using Nil.prems by auto
  then have "qs[nat i := ys, nat prio := qs ! nat prio] = qs[nat i := ys]"
    using list_update_id [of "qs[nat i := ys]" "nat prio"] by simp
  then show ?case using Nil.prems by (subst rotate_to.simps) auto
next
  case (Cons x xs)
  have ne: "nat i \<noteq> nat prio" using Cons.prems by auto
  show ?case
  proof (cases "x = th")
    case True
    let ?qs = "qs[nat i := xs @ h # ys, nat prio := th # qs ! nat prio]"
    have "rotate_to th h i prio qs = rotate_to th h i prio ?qs"
      using Cons.prems True ne by (subst rotate_to.simps) auto
    moreover have "rotate_to th h i prio ?qs = Some (Inr (?qs[nat i := ys @ filter (\<lambda>t. t \<noteq> th) xs,
      nat prio := (if th \<in> set xs then [th] else []) @ ?qs ! nat prio]))"
      by (rule Cons.IH) (use Cons.prems ne in auto)
    ultimately show ?thesis using Cons.prems True ne by (simp add: list_update_swap [of "nat prio" "nat i"])
  next
    case False
    let ?qs = "qs[nat i := xs @ h # ys @ [x]]"
    have "rotate_to th h i prio qs = rotate_to th h i prio ?qs"
      using Cons.prems False by (subst rotate_to.simps) auto
    moreover have "rotate_to th h i prio ?qs = Some (Inr (?qs[nat i := (ys @ [x]) @ filter (\<lambda>t. t \<noteq> th) xs,
      nat prio := (if th \<in> set xs then [th] else []) @ ?qs ! nat prio]))"
      by (rule Cons.IH) (use Cons.prems ne in auto)
    ultimately show ?thesis using Cons.prems False ne by simp
  qed
qed

lemma set_move:
  assumes "i = 0 \<or> i = 1 \<or> i = (2 :: nat)" "j = 0 \<or> j = 1 \<or> j = (2 :: nat)" "i \<noteq> j" and "[a, b, c] ! i = h # rest" "th \<in> set rest"
    and "h \<notin> set rest" "set a \<inter> set b = {}" "set a \<inter> set c = {}" "set b \<inter> set c = {}"
  shows "set (concat (rev ([a, b, c][i := filter (\<lambda>u. u \<noteq> th) rest, j := th # [a, b, c] ! j])))
    = set (concat (rev [a, b, c])) - {h}"
  using assms by (elim disjE) auto

text \<open>
  C32. \<open>ChangeQueuePriority\<close> loses a thread: when the thread to move is not the first of its list, the
  first one is taken off and never put back, so that no ready list holds it any more.
\<close>

theorem ChangeQueuePriority_loses_head:
  assumes th: "threads k th = Some t" "prio_ok t" and len: "length (readyListP k) = 3"
    and q: "readyListP k ! nat (priority t) = h # rest" "th \<in> set rest" "h \<noteq> th"
    and d: "distinct (concat (readyListP k))" and p: "0 \<le> prio" "prio < 3" "prio \<noteq> priority t"
  shows "\<exists>k'. ChangeQueuePriority th prio k = Some (Inr k') \<and> h \<in> set (ready_order k) \<and> h \<notin> set (ready_order k')
    \<and> set (ready_order k') = set (ready_order k) - {h}"
proof -
  let ?i = "nat (priority t)" and ?qs = "readyListP k"
  have i: "0 \<le> priority t" "priority t < 3" "?i < 3" using th(2) by (auto simp: prio_ok_def)
  have dr: "distinct (h # rest)"
    using d len i(3) q(1) by (metis distinct_concat_iff nth_mem)
  let ?q1 = "?qs[?i := rest @ [h]]"
  have "rotate_to th h (priority t) prio ?q1 = Some (Inr (?q1[?i := [] @ filter (\<lambda>u. u \<noteq> th) rest,
      nat prio := (if th \<in> set rest then [th] else []) @ ?q1 ! nat prio]))"
    by (rule rotate_to_result) (use len i p q dr in auto)
  then have R: "ChangeQueuePriority th prio k = Some (Inr (k\<lparr>readyListP := ?qs[?i := filter (\<lambda>u. u \<noteq> th) rest,
      nat prio := th # ?qs ! nat prio]\<rparr>))"
    using th len i q p by (simp add: ChangeQueuePriority_def)
  obtain a b c where abc: "?qs = [a, b, c]" using three_queues [OF len] .
  have ij: "?i = 0 \<or> ?i = 1 \<or> ?i = 2" "nat prio = 0 \<or> nat prio = 1 \<or> nat prio = 2" "?i \<noteq> nat prio" using i p by auto
  have "set (ready_order (k\<lparr>readyListP := ?qs[?i := filter (\<lambda>u. u \<noteq> th) rest, nat prio := th # ?qs ! nat prio]\<rparr>))
      = set (ready_order k) - {h}"
  proof -
    have "[a, b, c] ! ?i = h # rest" "h \<notin> set rest" "set a \<inter> set b = {}" "set a \<inter> set c = {}" "set b \<inter> set c = {}"
      using q(1) dr d by (auto simp: abc)
    from set_move [OF ij this(1) q(2) this(2-)] show ?thesis by (simp add: ready_order_def abc)
  qed
  moreover have "h \<in> set (ready_order k)"
  proof -
    have "?qs ! ?i \<in> set ?qs" using len i(3) by simp
    then show ?thesis using q(1) unfolding ready_order_def by force
  qed
  ultimately show ?thesis using R by blast
qed

definition lossy_kernel :: kernel where
  "lossy_kernel = sample_kernel\<lparr>readyListP := [[1, 3], [4], [2]]\<rparr>"

theorem ChangeQueuePriority_loses_head_witness:
  "\<exists>k'. ChangeQueuePriority 3 2 lossy_kernel = Some (Inr k') \<and> 1 \<in> set (ready_order lossy_kernel) \<and> 1 \<notin> set (ready_order k')"
proof -
  have "threads lossy_kernel 3 = Some (Thread_new ''c'' [])" "prio_ok (Thread_new ''c'' [])" "length (readyListP lossy_kernel) = 3"
    "readyListP lossy_kernel ! nat (priority (Thread_new ''c'' [])) = 1 # [3]" "(3 :: nat) \<in> set [3]" "(1 :: nat) \<noteq> 3"
    "distinct (concat (readyListP lossy_kernel))" "(0 :: int) \<le> 2" "(2 :: int) < 3" "2 \<noteq> priority (Thread_new ''c'' [])"
    by (simp_all add: lossy_kernel_def sample_kernel_def Thread_new_def prio_ok_def)
  from ChangeQueuePriority_loses_head [OF this] show ?thesis by blast
qed

section \<open>The user registers across a context switch\<close>

lemma aput_take_drop: "j < length us \<Longrightarrow> length rs = length us \<Longrightarrow>
    (take j rs @ drop j us)[j := rs ! j] = take (Suc j) rs @ drop (Suc j) us"
  by (simp add: take_Suc_conv_app_nth Cons_nth_drop_Suc [symmetric] list_update_append)

lemma save_from_result:
  assumes "n \<le> 40" and "length (registers m) = 40" and "length us = 40"
  shows "save_from n m (take (40 - n) (registers m) @ drop (40 - n) us) = Inr (registers m)"
  using assms
proof (induction n)
  case 0
  then show ?case by simp
next
  case (Suc n)
  from Suc.prems(1) obtain j where j: "40 - Suc n = j" "40 - n = Suc j" "j < 40" by auto
  have "aput (take j (registers m) @ drop j us) (int j) (registers m ! j) = Inr (take (Suc j) (registers m) @ drop (Suc j) us)"
    using aput_take_drop [of j us "registers m"] Suc.prems j(3) by simp
  then show ?case using Suc j(3) unfolding save_from.simps NumTotalRegs_def j by (simp add: ReadRegister_def NumTotalRegs_def)
qed

lemma restore_from_result:
  assumes "n \<le> 40" and "length (registers m) = 40" and "length us = 40" and "take (40 - n) (registers m) = take (40 - n) us"
  shows "restore_from n us m = Inr (m\<lparr>registers := us\<rparr>)"
  using assms
proof (induction n arbitrary: m)
  case 0
  then show ?case by (cases m) simp
next
  case (Suc n)
  from Suc.prems(1) obtain j where j: "40 - Suc n = j" "40 - n = Suc j" "j < 40" by auto
  let ?m = "m\<lparr>registers := (registers m)[j := us ! j]\<rparr>"
  have "take (Suc j) (registers ?m) = take (Suc j) us"
    using Suc.prems j by (simp add: take_Suc_conv_app_nth)
  then have "restore_from n us ?m = Inr (?m\<lparr>registers := us\<rparr>)" using Suc.prems j(2) by (intro Suc.IH) simp_all
  then show ?case using Suc.prems j(3) unfolding restore_from.simps NumTotalRegs_def j
    by (simp add: WriteRegister_def NumTotalRegs_def)
qed

lemma Run_saves:
  assumes "Run nextThread k = Inr k1" and "threads k (currentThread k) = Some old" and "space old = Some sp"
    and "length (registers (machine k)) = 40" and "length (userRegisters old) = 40"
  shows "\<exists>old1. threads k1 (currentThread k) = Some old1 \<and> userRegisters old1 = registers (machine k)
    \<and> space old1 = Some sp \<and> frames old1 = AfterSwitch # frames old"
proof -
  have "save_from NumTotalRegs (machine k) (userRegisters old) = Inr (registers (machine k))"
    using save_from_result [of 40 "machine k" "userRegisters old"] assms(4,5) by (simp add: NumTotalRegs_def)
  then show ?thesis using assms(1-3)
    by (auto simp: Run_def Let_def SaveUserState_def push_def rbind_eq_Inr split: if_splits)
qed

text \<open>The second half of \<open>Run\<close> loads what was saved.\<close>

lemma Run_after_switch_restores:
  assumes R: "Run_after_switch k = Inr k'" and th: "threads k (currentThread k) = Some th" "space th = Some sp"
    and len: "length (registers (machine k)) = 40" "length (userRegisters th) = 40"
  shows "registers (machine k') = userRegisters th \<and> pageTablePtr k' = Some sp \<and> currentThread k' = currentThread k
    \<and> threads k' (currentThread k) = Some th"
proof -
  have "restore_from NumTotalRegs (userRegisters th) (machine k) = Inr ((machine k)\<lparr>registers := userRegisters th\<rparr>)"
    using restore_from_result [of 40 "machine k" "userRegisters th"] len by (simp add: NumTotalRegs_def)
  moreover obtain k1 where "threads k1 (currentThread k) = Some th" "machine k1 = machine k" "currentThread k1 = currentThread k"
    "rbind (follow (threads k1) (currentThread k1)) (\<lambda>cur. case space cur of None \<Rightarrow> Inr k1
     | Some sp \<Rightarrow> rbind (RestoreUserState (currentThread k1) k1) (\<lambda>k2. Inr (AddrSpace_RestoreState sp k2))) = Inr k'"
  proof (cases "threadToBeDestroyed k")
    case None
    then show ?thesis using R th(1) that [of k] by (simp add: Run_after_switch_def)
  next
    case (Some d)
    then show ?thesis
      using R th(1) that [of "k\<lparr>threads := (threads k)(d := None), threadToBeDestroyed := None\<rparr>"]
      by (auto simp: Run_after_switch_def Thread_delete_def rbind_eq_Inr)
  qed
  ultimately show ?thesis using th(2) by (auto simp: RestoreUserState_def AddrSpace_RestoreState_def)
qed

end
