(* ===== verification/Synch.thy ===== *)
theory Synch
  imports Scheduler
begin

text \<open>
  The rest of \<^verbatim>\<open>threads/thread.cc\<close>, the synchronisation routines of \<^verbatim>\<open>threads/synch.cc\<close>, and the part of the
  interrupt simulation that calls back into the thread system. A routine runs with interrupts disabled
  up to the point where it gives up the CPU or re-enables interrupts; what is left of it there is pushed
  on the stack of frames of its thread, and \<open>exec_frame\<close> runs the topmost frame of the current thread.
\<close>

section \<open>Interrupts that call into the kernel\<close>

definition upd_sem :: "sid \<Rightarrow> (Semaphore \<Rightarrow> Semaphore) \<Rightarrow> kernel \<Rightarrow> kernel" where
  "upd_sem s f k = k\<lparr>semaphores := (semaphores k)(s := map_option f (semaphores k s))\<rparr>"

text \<open>
  \<^verbatim>\<open>interrupt->SetLevel(oldLevel)\<close> at the end of a routine: enabling interrupts advances the clock, which
  is a step of its own; leaving them disabled is not.
\<close>

definition leave :: "IntStatus \<Rightarrow> kernel \<Rightarrow> kernel" where
  "leave oldLevel k = (if oldLevel = IntOn then push [RestoreLevel IntOn] k else ChangeLevel IntOff k)"

definition Semaphore_V :: "sid \<Rightarrow> kernel \<Rightarrow> kernel res" where
  "Semaphore_V s k =
     (let oldLevel = level k; k1 = ChangeLevel IntOff k in
      rbind (follow (semaphores k1) s) (\<lambda>sem.
      rbind (case squeue sem of [] \<Rightarrow> Inr k1
             | t # ts \<Rightarrow> ReadyToRun t (upd_sem s (\<lambda>sem. sem\<lparr>squeue := ts\<rparr>) k1)) (\<lambda>k2.
      Inr (leave oldLevel (upd_sem s (\<lambda>sem. sem\<lparr>svalue := svalue sem + 1\<rparr>) k2)))))"

definition device_call :: "device \<Rightarrow> kernel \<Rightarrow> kernel res" where
  "device_call d k = (case d of
     TimerDevice r \<Rightarrow>
       TimerExpired (\<lambda>_. TimerInterruptHandler) d \<lparr>randomize = r, timer_handler = ()\<rparr> (int (randoms k 0))
         (if r then k\<lparr>randoms := (\<lambda>n. randoms k (Suc n))\<rparr> else k)
   | DriverDone s \<Rightarrow> Semaphore_V s k)"

definition delayed_load :: "kernel \<Rightarrow> kernel res" where
  "delayed_load k = rbind (DelayedLoad 0 0 (machine k)) (\<lambda>m. Inr (k\<lparr>machine := m\<rparr>))"

section \<open>Yield, SetLevel, OneTick\<close>

definition Thread_Yield :: "kernel \<Rightarrow> kernel res" where
  "Thread_Yield k =
     (let oldLevel = level k; k1 = ChangeLevel IntOff k in
      rbind (FindNextToRun k1) (\<lambda>(nextThread, k2).
      case nextThread of
        None \<Rightarrow> Inr (push [RestoreLevel oldLevel] k2)
      | Some t \<Rightarrow> rbind (ReadyToRun (currentThread k2) k2) (\<lambda>k3. Run t (push [RestoreLevel oldLevel] k3))))"

definition OneTick :: "kernel \<Rightarrow> kernel res option" where
  "OneTick k =
     (case tick device_call delayed_load k of
        None \<Rightarrow> None
      | Some r \<Rightarrow> Some (rbind r (\<lambda>k1.
          if yieldOnReturn k1
          then Thread_Yield (push [RestoreStatus (istatus k)] (k1\<lparr>yieldOnReturn := False, istatus := SystemMode\<rparr>))
          else Inr k1)))"

definition SetLevel :: "IntStatus \<Rightarrow> kernel \<Rightarrow> kernel res option" where
  "SetLevel lvl k =
     (if lvl = IntOff \<or> \<not> inHandler k
      then if lvl = IntOn \<and> level k = IntOff then OneTick (ChangeLevel lvl k) else Some (Inr (ChangeLevel lvl k))
      else Some (Inl AssertFail))"

definition Enable :: "kernel \<Rightarrow> kernel res option" where
  "Enable k = SetLevel IntOn k"

section \<open>Sleep, Finish, Fork, Join\<close>

partial_function (option) sleep_loop :: "kernel \<Rightarrow> kernel res option" where
  "sleep_loop k =
     (case FindNextToRun k of
        Inl f \<Rightarrow> Some (Inl f)
      | Inr (Some nextThread, k1) \<Rightarrow> Some (Run nextThread k1)
      | Inr (None, k1) \<Rightarrow>
          (case Idle device_call delayed_load k1 of
             None \<Rightarrow> None
           | Some (Inl f) \<Rightarrow> Some (Inl f)
           | Some (Inr None) \<Rightarrow> Some (Inr (k1\<lparr>halted := True\<rparr>))
           | Some (Inr (Some k2)) \<Rightarrow> sleep_loop k2))"

definition Thread_Sleep :: "kernel \<Rightarrow> kernel res option" where
  "Thread_Sleep k =
     (if level k = IntOff then sleep_loop (upd_thread (currentThread k) (setStatus BLOCKED) k)
      else Some (Inl AssertFail))"

definition Thread_Finish :: "kernel \<Rightarrow> kernel res" where
  "Thread_Finish k =
     (let k1 = ChangeLevel IntOff k in
      rbind (follow (threads k1) (currentThread k1)) (\<lambda>th.
      if join_flag th
      then (case portJoin th of None \<Rightarrow> Inl NullPointer | Some p \<Rightarrow> Inr (push [CallSend p 0, FinishTail] k1))
      else Inr (push [FinishTail] k1)))"

definition Finish_tail :: "kernel \<Rightarrow> kernel res option" where
  "Finish_tail k = Thread_Sleep (k\<lparr>threadToBeDestroyed := Some (currentThread k)\<rparr>)"

definition Semaphore_new :: "int \<Rightarrow> kernel \<Rightarrow> sid \<times> kernel" where
  "Semaphore_new initialValue k = (next_id k,
     k\<lparr>semaphores := (semaphores k)(next_id k \<mapsto> \<lparr>svalue = initialValue, squeue = []\<rparr>), next_id := Suc (next_id k)\<rparr>)"

text \<open>\<open>junk\<close>: \<^verbatim>\<open>Prioritymax\<close>, which the constructor does not set.\<close>

definition Lock_new :: "int \<Rightarrow> kernel \<Rightarrow> lid \<times> kernel" where
  "Lock_new junk k =
     (let (s, k1) = Semaphore_new 1 k; (i, k2) = Semaphore_new 1 k1; l = next_id k2 in
      (l, k2\<lparr>locks := (locks k2)(l \<mapsto> \<lparr>thname = None, lsem = s, semInvP = i, Prioritymax = junk\<rparr>), next_id := Suc l\<rparr>))"

definition Condition_new :: "lid \<Rightarrow> kernel \<Rightarrow> cid \<times> kernel" where
  "Condition_new conditionLock k = (next_id k,
     k\<lparr>conditions := (conditions k)(next_id k \<mapsto> \<lparr>clock = conditionLock, semList = []\<rparr>), next_id := Suc (next_id k)\<rparr>)"

definition Puerto_new :: "kernel \<Rightarrow> portid \<times> kernel" where
  "Puerto_new k =
     (let (l, k1) = Lock_new 0 k; (cS, k2) = Condition_new l k1; (cR, k3) = Condition_new l k2; p = next_id k3 in
      (p, k3\<lparr>ports := (ports k3)(p \<mapsto> \<lparr>plock = l, pcondS = cS, pcondR = cR, buffer = None, accessible = True\<rparr>),
            next_id := Suc p\<rparr>))"

definition StackAllocate :: "Thread \<Rightarrow> Thread" where
  "StackAllocate th = th\<lparr>stack := Some STACK_FENCEPOST, frames := [ThreadRoot]\<rparr>"

definition Thread_Fork :: "tid \<Rightarrow> bool \<Rightarrow> int \<Rightarrow> kernel \<Rightarrow> kernel res" where
  "Thread_Fork t j p k =
     rbind (follow (threads k) t) (\<lambda>_.
     let k1 = upd_thread t StackAllocate k;
         k2 = (if \<not> j
               then let (port, k') = Puerto_new k1 in upd_thread t (\<lambda>th. th\<lparr>join_flag := True, portJoin := Some port\<rparr>) k'
               else k1);
         k3 = upd_thread t (setPriority p) k2;
         oldLevel = level k3
     in rbind (ReadyToRun t (ChangeLevel IntOff k3)) (\<lambda>k4. Inr (leave oldLevel k4)))"

definition Thread_Join :: "tid \<Rightarrow> kernel \<Rightarrow> kernel res" where
  "Thread_Join t k =
     rbind (follow (threads k) t) (\<lambda>th.
     if join_flag th then (case portJoin th of None \<Rightarrow> Inl NullPointer | Some p \<Rightarrow> Inr (push [CallReceive p] k)) else Inr k)"

section \<open>synch.cc\<close>

text \<open>One pass of the loop of \<^verbatim>\<open>P\<close>, with interrupts disabled; the sleeping thread comes back to the loop.\<close>

definition P_iteration :: "sid \<Rightarrow> IntStatus \<Rightarrow> kernel \<Rightarrow> kernel res option" where
  "P_iteration s oldLevel k =
     (case follow (semaphores k) s of
        Inl f \<Rightarrow> Some (Inl f)
      | Inr sem \<Rightarrow>
          if svalue sem = 0
          then Thread_Sleep (push [P_loop s oldLevel] (upd_sem s (\<lambda>sem. sem\<lparr>squeue := squeue sem @ [currentThread k]\<rparr>) k))
          else Some (Inr (leave oldLevel (upd_sem s (\<lambda>sem. sem\<lparr>svalue := svalue sem - 1\<rparr>) k))))"

definition Semaphore_P :: "sid \<Rightarrow> kernel \<Rightarrow> kernel res option" where
  "Semaphore_P s k = P_iteration s (level k) (ChangeLevel IntOff k)"

definition isHeldByCurrentThread :: "Lock \<Rightarrow> kernel \<Rightarrow> bool" where
  "isHeldByCurrentThread lk k \<longleftrightarrow> thname lk = Some (currentThread k)"

definition Lock_Acquire :: "lid \<Rightarrow> kernel \<Rightarrow> kernel res" where
  "Lock_Acquire l k =
     rbind (follow (locks k) l) (\<lambda>lk.
     Inr (if \<not> isHeldByCurrentThread lk k
          then push [CallP (semInvP lk), Donate l, CallV (semInvP lk), CallP (lsem lk), SetOwner l] k
          else k))"

definition upd_lock :: "lid \<Rightarrow> (Lock \<Rightarrow> Lock) \<Rightarrow> kernel \<Rightarrow> kernel" where
  "upd_lock l f k = k\<lparr>locks := (locks k)(l := map_option f (locks k l))\<rparr>"

text \<open>The part of \<^verbatim>\<open>Acquire\<close> between \<^verbatim>\<open>semInvP->P()\<close> and \<^verbatim>\<open>semInvP->V()\<close>.\<close>

definition Lock_donate :: "lid \<Rightarrow> kernel \<Rightarrow> kernel res option" where
  "Lock_donate l k =
     (case follow (locks k) l of
        Inl f \<Rightarrow> Some (Inl f)
      | Inr lk \<Rightarrow>
         (case thname lk of
            None \<Rightarrow> Some (Inr k)
          | Some h \<Rightarrow>
             (case rbind (follow (threads k) h) (\<lambda>ht. rbind (follow (threads k) (currentThread k)) (\<lambda>cur.
                     Inr (priority ht, priority cur))) of
                Inl f \<Rightarrow> Some (Inl f)
              | Inr (pm, pcurrent) \<Rightarrow>
                  let k1 = upd_lock l (\<lambda>lk. lk\<lparr>Prioritymax := pm\<rparr>) k in
                  if pm < pcurrent
                  then (case ChangeQueuePriority h pcurrent k1 of
                          None \<Rightarrow> None
                        | Some r \<Rightarrow> Some (rbind r (\<lambda>k2.
                            Inr (upd_lock l (\<lambda>lk. lk\<lparr>Prioritymax := pcurrent\<rparr>) (upd_thread h (setPriority pcurrent) k2)))))
                  else Some (Inr k1))))"

definition Lock_set_owner :: "lid \<Rightarrow> kernel \<Rightarrow> kernel res" where
  "Lock_set_owner l k = rbind (follow (locks k) l) (\<lambda>_. Inr (upd_lock l (\<lambda>lk. lk\<lparr>thname := Some (currentThread k)\<rparr>) k))"

definition Lock_Release :: "lid \<Rightarrow> kernel \<Rightarrow> kernel res" where
  "Lock_Release l k =
     rbind (follow (locks k) l) (\<lambda>lk.
     ASSERT (isHeldByCurrentThread lk k)
       (Inr (push [CallV (lsem lk)] (upd_lock l (\<lambda>lk. lk\<lparr>thname := None\<rparr>) k))))"

definition upd_cond :: "cid \<Rightarrow> (Condition \<Rightarrow> Condition) \<Rightarrow> kernel \<Rightarrow> kernel" where
  "upd_cond c f k = k\<lparr>conditions := (conditions k)(c := map_option f (conditions k c))\<rparr>"

text \<open>\<^verbatim>\<open>ASSERT(lock->isHeldByCurrentThread())\<close>, at the start of the three operations.\<close>

definition with_lock :: "cid \<Rightarrow> kernel \<Rightarrow> (Condition \<Rightarrow> kernel res) \<Rightarrow> kernel res" where
  "with_lock c k body =
     rbind (follow (conditions k) c) (\<lambda>cd.
     rbind (follow (locks k) (clock cd)) (\<lambda>lk. ASSERT (isHeldByCurrentThread lk k) (body cd)))"

definition Condition_Wait :: "cid \<Rightarrow> kernel \<Rightarrow> kernel res" where
  "Condition_Wait c k = with_lock c k (\<lambda>cd.
     let (s, k1) = Semaphore_new 1 k; k2 = upd_cond c (\<lambda>cd. cd\<lparr>semList := semList cd @ [s]\<rparr>) k1 in
     Inr (push [CallRelease (clock cd), CallP s, CallAcquire (clock cd)] k2))"

definition Condition_Signal :: "cid \<Rightarrow> kernel \<Rightarrow> kernel res" where
  "Condition_Signal c k = with_lock c k (\<lambda>cd.
     case semList cd of [] \<Rightarrow> Inr k
     | s # ss \<Rightarrow> Inr (push [CallV s] (upd_cond c (\<lambda>cd. cd\<lparr>semList := ss\<rparr>) k)))"

definition Broadcast_loop :: "cid \<Rightarrow> kernel \<Rightarrow> kernel res" where
  "Broadcast_loop c k =
     rbind (follow (conditions k) c) (\<lambda>cd.
     Inr (if semList cd = [] then k else push [CallSignal c, BroadcastLoop c] k))"

definition Condition_Broadcast :: "cid \<Rightarrow> kernel \<Rightarrow> kernel res" where
  "Condition_Broadcast c k = with_lock c k (\<lambda>cd. Broadcast_loop c k)"

definition upd_port :: "portid \<Rightarrow> (Puerto \<Rightarrow> Puerto) \<Rightarrow> kernel \<Rightarrow> kernel" where
  "upd_port p f k = k\<lparr>ports := (ports k)(p := map_option f (ports k p))\<rparr>"

definition Puerto_Send :: "portid \<Rightarrow> int \<Rightarrow> kernel \<Rightarrow> kernel res" where
  "Puerto_Send p msg k = rbind (follow (ports k) p) (\<lambda>pt. Inr (push [CallAcquire (plock pt), SendLoop p msg] k))"

definition Send_loop :: "portid \<Rightarrow> int \<Rightarrow> kernel \<Rightarrow> kernel res" where
  "Send_loop p msg k =
     rbind (follow (ports k) p) (\<lambda>pt.
     if \<not> accessible pt then Inr (push [CallWait (pcondS pt), SendLoop p msg] k)
     else Inr (push [CallSignal (pcondR pt), CallRelease (plock pt)]
                (upd_port p (\<lambda>pt. pt\<lparr>buffer := Some msg, accessible := False\<rparr>) k)))"

definition Puerto_Receive :: "portid \<Rightarrow> kernel \<Rightarrow> kernel res" where
  "Puerto_Receive p k = rbind (follow (ports k) p) (\<lambda>pt. Inr (push [CallAcquire (plock pt), ReceiveLoop p] k))"

definition Receive_loop :: "portid \<Rightarrow> kernel \<Rightarrow> kernel res" where
  "Receive_loop p k =
     rbind (follow (ports k) p) (\<lambda>pt.
     if accessible pt then Inr (push [CallWait (pcondR pt), ReceiveLoop p] k)
     else case buffer pt of
         None \<Rightarrow> Inl Uninitialised
       | Some buf \<Rightarrow> Inr (push [CallSignal (pcondS pt), CallRelease (plock pt)] (upd_port p (\<lambda>pt. pt\<lparr>accessible := True\<rparr>) k)))"

text \<open>
  The destructors. Deleting an object that has been deleted already is following a dangling pointer. The destructor of a
  lock leaves \<^verbatim>\<open>semInvP\<close> behind, that of a condition variable deletes the lock too, but not the semaphores in its list.
\<close>

definition Semaphore_delete :: "sid \<Rightarrow> kernel \<Rightarrow> kernel res" where
  "Semaphore_delete s k = rbind (follow (semaphores k) s) (\<lambda>_. Inr (k\<lparr>semaphores := (semaphores k)(s := None)\<rparr>))"

definition Lock_delete :: "lid \<Rightarrow> kernel \<Rightarrow> kernel res" where
  "Lock_delete l k =
     rbind (follow (locks k) l) (\<lambda>lk.
     rbind (Semaphore_delete (lsem lk) k) (\<lambda>k1. Inr (k1\<lparr>locks := (locks k1)(l := None)\<rparr>)))"

definition Condition_delete :: "cid \<Rightarrow> kernel \<Rightarrow> kernel res" where
  "Condition_delete c k =
     rbind (follow (conditions k) c) (\<lambda>cd.
     rbind (Lock_delete (clock cd) k) (\<lambda>k1. Inr (k1\<lparr>conditions := (conditions k1)(c := None)\<rparr>)))"

definition Puerto_delete :: "portid \<Rightarrow> kernel \<Rightarrow> kernel res" where
  "Puerto_delete p k =
     rbind (follow (ports k) p) (\<lambda>pt.
     rbind (Lock_delete (plock pt) k) (\<lambda>k1.
     rbind (Condition_delete (pcondS pt) k1) (\<lambda>k2.
     rbind (Condition_delete (pcondR pt) k2) (\<lambda>k3. Inr (k3\<lparr>ports := (ports k3)(p := None)\<rparr>)))))"

section \<open>Running a thread\<close>

definition exec_frame :: "frame \<Rightarrow> kernel \<Rightarrow> kernel res option" where
  "exec_frame f k = (case f of
     ThreadRoot \<Rightarrow> Enable k
   | AfterSwitch \<Rightarrow> Some (Run_after_switch k)
   | RestoreLevel l \<Rightarrow> SetLevel l k
   | RestoreStatus st \<Rightarrow> Some (Inr (k\<lparr>istatus := st\<rparr>))
   | P_loop s old \<Rightarrow> P_iteration s old k
   | FinishTail \<Rightarrow> Finish_tail k
   | Donate l \<Rightarrow> Lock_donate l k
   | SetOwner l \<Rightarrow> Some (Lock_set_owner l k)
   | BroadcastLoop c \<Rightarrow> Some (Broadcast_loop c k)
   | SendLoop p m \<Rightarrow> Some (Send_loop p m k)
   | ReceiveLoop p \<Rightarrow> Some (Receive_loop p k)
   | CallOneTick \<Rightarrow> OneTick k
   | CallYield \<Rightarrow> Some (Thread_Yield k)
   | CallFinish \<Rightarrow> Some (Thread_Finish k)
   | CallFork t j p \<Rightarrow> Some (Thread_Fork t j p k)
   | CallJoin t \<Rightarrow> Some (Thread_Join t k)
   | CallP s \<Rightarrow> Semaphore_P s k
   | CallV s \<Rightarrow> Some (Semaphore_V s k)
   | CallAcquire l \<Rightarrow> Some (Lock_Acquire l k)
   | CallRelease l \<Rightarrow> Some (Lock_Release l k)
   | CallWait c \<Rightarrow> Some (Condition_Wait c k)
   | CallSignal c \<Rightarrow> Some (Condition_Signal c k)
   | CallBroadcast c \<Rightarrow> Some (Condition_Broadcast c k)
   | CallSend p m \<Rightarrow> Some (Puerto_Send p m k)
   | CallReceive p \<Rightarrow> Some (Puerto_Receive p k))"

section \<open>Deleting a condition variable after its lock\<close>

lemma Lock_delete_gone: "Lock_delete l k = Inr k' \<Longrightarrow> locks k' l = None \<and> conditions k' = conditions k"
  by (auto simp: Lock_delete_def Semaphore_delete_def rbind_eq_Inr)

text \<open>The code that owns both deletes the lock first; the destructor of the condition variable then deletes it again.\<close>

lemma lock_deleted_twice:
  assumes "conditions k c = Some cd"
  shows "rbind (Lock_delete (clock cd) k) (\<lambda>k1. rbind (Condition_delete c k1) f) = Inl DanglingPointer"
proof (cases "Lock_delete (clock cd) k")
  case (Inl e)
  then have "e = DanglingPointer" by (auto simp: Lock_delete_def Semaphore_delete_def follow_def rbind_def split: option.splits sum.splits)
  with Inl show ?thesis by simp
next
  case (Inr k1)
  from Lock_delete_gone [OF Inr] have "conditions k1 c = Some cd" "locks k1 (clock cd) = None" using assms by simp_all
  then have "Condition_delete c k1 = Inl DanglingPointer" by (simp add: Condition_delete_def Lock_delete_def follow_def)
  with Inr show ?thesis by simp
qed

lemma port_deleted_twice:
  assumes "ports k p = Some pt" and "conditions k (pcondS pt) = Some cd" and "clock cd = plock pt"
  shows "Puerto_delete p k = Inl DanglingPointer"
  using lock_deleted_twice [OF assms(2)] assms(1,3) by (simp add: Puerto_delete_def)

section \<open>Waiting on a condition variable\<close>

text \<open>
  C34. \<^verbatim>\<open>Wait\<close> does not wait: the semaphore that it creates for the waiting thread has the value 1, so that the
  \<^verbatim>\<open>P\<close> that should put the thread to sleep until it is signalled returns at once, in whatever state the
  other threads have left the kernel meanwhile, unless they have already used up that semaphore.
\<close>

theorem Wait_does_not_wait:
  assumes W: "Condition_Wait c k = Inr k1" and t: "threads k (currentThread k) = Some th"
  shows "\<exists>l s th1. threads k1 (currentThread k) = Some th1 \<and> frames th1 = [CallRelease l, CallP s, CallAcquire l] @ frames th
    \<and> semaphores k1 s = Some \<lparr>svalue = 1, squeue = []\<rparr>
    \<and> (\<forall>k2. semaphores k2 s = semaphores k1 s \<longrightarrow>
        (\<exists>k3. exec_frame (CallP s) k2 = Some (Inr k3) \<and> currentThread k3 = currentThread k2 \<and> readyListP k3 = readyListP k2))"
proof -
  obtain cd :: Condition where k1: "k1 = push [CallRelease (clock cd), CallP (next_id k), CallAcquire (clock cd)]
      (upd_cond c (\<lambda>cd. cd\<lparr>semList := semList cd @ [next_id k]\<rparr>)
        (k\<lparr>semaphores := (semaphores k)(next_id k \<mapsto> \<lparr>svalue = 1, squeue = []\<rparr>), next_id := Suc (next_id k)\<rparr>))"
    using W by (auto simp: Condition_Wait_def with_lock_def Semaphore_new_def rbind_eq_Inr)
  let ?th = "th\<lparr>frames := [CallRelease (clock cd), CallP (next_id k), CallAcquire (clock cd)] @ frames th\<rparr>"
  have "threads k1 (currentThread k) = Some ?th" "semaphores k1 (next_id k) = Some \<lparr>svalue = 1, squeue = []\<rparr>"
    using t by (simp_all add: k1 push_def upd_cond_def)
  moreover have "\<exists>k3. exec_frame (CallP (next_id k)) k2 = Some (Inr k3) \<and> currentThread k3 = currentThread k2 \<and> readyListP k3 = readyListP k2"
    if "semaphores k2 (next_id k) = semaphores k1 (next_id k)" for k2
    using that calculation(2)
    by (simp add: exec_frame_def Semaphore_P_def P_iteration_def ChangeLevel_def leave_def push_def upd_sem_def)
  ultimately show ?thesis by (intro exI [of _ "clock cd"] exI [of _ "next_id k"] exI [of _ ?th]) simp
qed

definition waiting_kernel :: kernel where
  "waiting_kernel = sample_kernel\<lparr>locks := [10 \<mapsto> \<lparr>thname = Some 0, lsem = 8, semInvP = 9, Prioritymax = 0\<rparr>],
     conditions := [11 \<mapsto> \<lparr>clock = 10, semList = []\<rparr>], next_id := 12\<rparr>"

theorem Wait_does_not_wait_witness:
  "\<exists>k1 s. Condition_Wait 11 waiting_kernel = Inr k1 \<and> semaphores k1 s = Some \<lparr>svalue = 1, squeue = []\<rparr>
    \<and> (\<exists>k3. exec_frame (CallP s) k1 = Some (Inr k3) \<and> currentThread k3 = currentThread k1)"
proof -
  let ?th = "setStatus RUNNING (Thread_new ''main'' [])"
  have t: "threads waiting_kernel (currentThread waiting_kernel) = Some ?th" by (simp add: waiting_kernel_def sample_kernel_def)
  obtain k1 where k1: "Condition_Wait 11 waiting_kernel = Inr k1"
    by (simp add: Condition_Wait_def with_lock_def isHeldByCurrentThread_def waiting_kernel_def sample_kernel_def Semaphore_new_def)
  from Wait_does_not_wait [OF this t] show ?thesis using k1 by blast
qed

section \<open>Waking up\<close>

text \<open>
  \<^verbatim>\<open>V\<close> wakes the thread that has waited longest and no other: the first thread of the queue of the
  semaphore becomes ready and goes to the end of the ready list of its own priority, the others keep
  their order, the value is one higher, and the thread that called \<^verbatim>\<open>V\<close> keeps the CPU.
\<close>

theorem V_wakes_first:
  assumes s: "semaphores k s = Some sem" and t: "squeue sem = t # ts" "threads k t = Some th" "prio_ok th" and l: "length (readyListP k) = 3"
  shows "\<exists>k'. Semaphore_V s k = Inr k' \<and> semaphores k' s = Some \<lparr>svalue = svalue sem + 1, squeue = ts\<rparr>
    \<and> readyListP k' = (readyListP k)[nat (priority th) := readyListP k ! nat (priority th) @ [t]]
    \<and> (\<exists>th'. threads k' t = Some th' \<and> tstatus th' = READY) \<and> currentThread k' = currentThread k"
proof -
  define k1 where "k1 = upd_sem s (\<lambda>sem. sem\<lparr>squeue := ts\<rparr>) (ChangeLevel IntOff k)"
  have f: "threads k1 = threads k" "readyListP k1 = readyListP k" "currentThread k1 = currentThread k"
    "semaphores k1 s = Some (sem\<lparr>squeue := ts\<rparr>)" using s by (simp_all add: k1_def upd_sem_def ChangeLevel_def)
  let ?q = "(readyListP k)[nat (priority th) := readyListP k ! nat (priority th) @ [t]]"
  define k2 where "k2 = (upd_thread t (setStatus READY) k1)\<lparr>readyListP := ?q\<rparr>"
  have "ReadyToRun t k1 = Inr k2" using ReadyToRun_ok [of k1 t th] f t(2,3) l by (simp add: k2_def)
  then have V: "Semaphore_V s k = Inr (leave (level k) (upd_sem s (\<lambda>sem. sem\<lparr>svalue := svalue sem + 1\<rparr>) k2))"
    using s t(1) by (simp add: Semaphore_V_def Let_def ChangeLevel_def k1_def)
  have g: "threads k2 t = Some (setStatus READY th)" "readyListP k2 = ?q" "currentThread k2 = currentThread k"
    "semaphores k2 s = Some (sem\<lparr>squeue := ts\<rparr>)" using f t(2) by (simp_all add: k2_def)
  define k3 where "k3 = upd_sem s (\<lambda>sem. sem\<lparr>svalue := svalue sem + 1\<rparr>) k2"
  have h: "threads k3 t = Some (setStatus READY th)" "readyListP k3 = ?q" "currentThread k3 = currentThread k"
    "semaphores k3 s = Some \<lparr>svalue = svalue sem + 1, squeue = ts\<rparr>" using g by (simp_all add: k3_def upd_sem_def)
  have "semaphores (leave lv k3) s = semaphores k3 s" "readyListP (leave lv k3) = readyListP k3" "currentThread (leave lv k3) = currentThread k3"
    "\<exists>th'. threads (leave lv k3) t = Some th' \<and> tstatus th' = READY" for lv
    using h(1) by (auto simp: leave_def push_def ChangeLevel_def)
  then show ?thesis using V h unfolding k3_def [symmetric] by auto
qed

definition blocked_kernel :: kernel where
  "blocked_kernel = sample_kernel\<lparr>semaphores := [9 \<mapsto> \<lparr>svalue = 0, squeue = [2, 3]\<rparr>]\<rparr>"

theorem V_wakes_first_witness:
  "\<exists>k'. Semaphore_V 9 blocked_kernel = Inr k' \<and> semaphores k' 9 = Some \<lparr>svalue = 1, squeue = [3]\<rparr> \<and> readyListP k' = [[], [], [2]]"
proof -
  have "semaphores blocked_kernel 9 = Some \<lparr>svalue = 0, squeue = [2, 3]\<rparr>" "threads blocked_kernel 2 = Some (setPriority 2 (Thread_new ''b'' []))"
    "prio_ok (setPriority 2 (Thread_new ''b'' []))" "length (readyListP blocked_kernel) = 3" "readyListP blocked_kernel = [[], [], []]"
    "priority (setPriority 2 (Thread_new ''b'' [])) = 2"
    by (simp_all add: blocked_kernel_def sample_kernel_def prio_ok_def setPriority_def Scheduler_new_def MaxPriority_def numeral_3_eq_3)
  with V_wakes_first [OF this(1) _ this(2-4), of "[3]"] show ?thesis by auto
qed

end
