(* ===== verification/Threads_Inv.thy ===== *)
theory Threads_Inv
  imports Synch
begin

text \<open>
  The steps of the kernel as a relation, and what they keep true of the threads: no thread is in two
  queues, the current thread is the only one that is running, the threads in the ready lists are ready
  and those in the queue of a semaphore are blocked in \<^verbatim>\<open>P\<close> on it, and a finished thread is never run
  again. As long as no priority is donated, no thread gets lost either.
\<close>

section \<open>Steps of the kernel\<close>

text \<open>Semaphores that are private to a lock or a condition variable.\<close>

definition private_sem :: "kernel \<Rightarrow> sid \<Rightarrow> bool" where
  "private_sem k s \<longleftrightarrow> (\<exists>i \<in> set [0..<next_id k].
     (case locks k i of None \<Rightarrow> False | Some lk \<Rightarrow> s = lsem lk \<or> s = semInvP lk)
     \<or> (case conditions k i of None \<Rightarrow> False | Some cd \<Rightarrow> s \<in> set (semList cd)))"

text \<open>The calls that code outside the thread system makes.\<close>

definition client_call :: "kernel \<Rightarrow> frame \<Rightarrow> bool" where
  "client_call k f = (case f of
     CallOneTick \<Rightarrow> True | CallYield \<Rightarrow> True | CallFinish \<Rightarrow> True
   | CallFork t j p \<Rightarrow> (case threads k t of None \<Rightarrow> False | Some th \<Rightarrow> tstatus th = JUST_CREATED)
   | CallJoin t \<Rightarrow> threads k t \<noteq> None
   | CallP s \<Rightarrow> semaphores k s \<noteq> None \<and> \<not> private_sem k s \<and> s < next_id k
   | CallV s \<Rightarrow> semaphores k s \<noteq> None \<and> \<not> private_sem k s \<and> s < next_id k
   | CallAcquire l \<Rightarrow> locks k l \<noteq> None | CallRelease l \<Rightarrow> locks k l \<noteq> None
   | CallWait c \<Rightarrow> conditions k c \<noteq> None | CallSignal c \<Rightarrow> conditions k c \<noteq> None | CallBroadcast c \<Rightarrow> conditions k c \<noteq> None
   | CallSend p m \<Rightarrow> ports k p \<noteq> None | CallReceive p \<Rightarrow> ports k p \<noteq> None
   | _ \<Rightarrow> False)"

definition create_thread :: "string \<Rightarrow> 32 word list \<Rightarrow> kernel \<Rightarrow> tid \<times> kernel" where
  "create_thread nm junk k = (next_id k,
     k\<lparr>threads := (threads k)(next_id k \<mapsto> Thread_new nm junk), next_id := Suc (next_id k)\<rparr>)"

definition pop_frame :: "kernel \<Rightarrow> kernel" where
  "pop_frame k = upd_thread (currentThread k) (\<lambda>th. th\<lparr>frames := tl (frames th)\<rparr>) k"

definition top_frames :: "kernel \<Rightarrow> frame list" where
  "top_frames k = (case threads k (currentThread k) of None \<Rightarrow> [] | Some th \<Rightarrow> frames th)"

inductive kernel_step :: "kernel \<Rightarrow> kernel \<Rightarrow> bool" where
  exec: "\<not> halted k \<Longrightarrow> top_frames k = f # fs \<Longrightarrow> exec_frame f (pop_frame k) = Some (Inr k') \<Longrightarrow> kernel_step k k'"
| client: "\<not> halted k \<Longrightarrow> top_frames k = [] \<Longrightarrow> client_call k f \<Longrightarrow> exec_frame f k = Some (Inr k') \<Longrightarrow> kernel_step k k'"
| new_thread: "\<not> halted k \<Longrightarrow> top_frames k = [] \<Longrightarrow> create_thread nm junk k = (t, k') \<Longrightarrow> kernel_step k k'"
| new_semaphore: "\<not> halted k \<Longrightarrow> top_frames k = [] \<Longrightarrow> 0 \<le> v \<Longrightarrow> Semaphore_new v k = (s, k') \<Longrightarrow> kernel_step k k'"
| new_lock: "\<not> halted k \<Longrightarrow> top_frames k = [] \<Longrightarrow> Lock_new junk k = (l, k') \<Longrightarrow> kernel_step k k'"
| new_condition: "\<not> halted k \<Longrightarrow> top_frames k = [] \<Longrightarrow> locks k l \<noteq> None \<Longrightarrow> Condition_new l k = (c, k') \<Longrightarrow> kernel_step k k'"
| new_port: "\<not> halted k \<Longrightarrow> top_frames k = [] \<Longrightarrow> Puerto_new k = (p, k') \<Longrightarrow> kernel_step k k'"
| start_device: "\<not> halted k \<Longrightarrow> top_frames k = [] \<Longrightarrow> \<not> private_sem k s \<Longrightarrow> s < next_id k \<Longrightarrow>
    Schedule (DriverDone s) n ty k = Inr k' \<Longrightarrow> kernel_step k k'"

text \<open>
  The kernel when \<^verbatim>\<open>Initialize\<close> has set up the thread system, before it enables interrupts; \<open>m\<close> is the machine,
  \<open>junk\<close> what the registers of the main thread hold, \<open>rnd\<close> the values of \<^verbatim>\<open>Random()\<close>.
\<close>

definition boot_kernel :: "unit Machine \<Rightarrow> 32 word list \<Rightarrow> bool \<Rightarrow> (nat \<Rightarrow> nat) \<Rightarrow> kernel" where
  "boot_kernel m junk randomYield rnd =
     (let k = \<lparr>level = IntOff, pending = [], inHandler = False, yieldOnReturn = False, istatus = SystemMode, stats = Statistics_new,
           threads = [0 \<mapsto> (setStatus RUNNING (Thread_new ''main'' junk))\<lparr>frames := [RestoreLevel IntOn]\<rparr>],
           currentThread = 0, readyListP = Scheduler_new, threadToBeDestroyed = None, machine = m,
           pageTablePtr = None, semaphores = Map.empty, locks = Map.empty, conditions = Map.empty, ports = Map.empty,
           halted = False, randoms = rnd, next_id = 1\<rparr>
      in case Timer_new (TimerDevice randomYield) () randomYield (int (rnd 0)) k of
           Inl f \<Rightarrow> k | Inr (t, k1) \<Rightarrow> k1\<lparr>randoms := (\<lambda>n. if randomYield then rnd (Suc n) else rnd n)\<rparr>)"

text \<open>A step of \<^verbatim>\<open>Acquire\<close> that raises the priority of the holder of the lock.\<close>

definition donates :: "lid \<Rightarrow> kernel \<Rightarrow> bool" where
  "donates l k = (case Option.bind (locks k l) thname of None \<Rightarrow> False
     | Some h \<Rightarrow> (case (threads k h, threads k (currentThread k)) of
         (Some ht, Some cur) \<Rightarrow> priority ht < priority cur | _ \<Rightarrow> False))"

text \<open>The states that can be reached; with \<open>b\<close>, those that can be reached without any priority donation.\<close>

inductive reachable :: "bool \<Rightarrow> kernel \<Rightarrow> bool" for b where
  boot: "reachable b (boot_kernel m junk r rnd)"
| step: "reachable b k \<Longrightarrow> kernel_step k k' \<Longrightarrow> (\<And>l fs. b \<Longrightarrow> top_frames k = Donate l # fs \<Longrightarrow> \<not> donates l k) \<Longrightarrow> reachable b k'"

section \<open>The invariant of the thread system\<close>

fun waiting_for :: "frame list \<Rightarrow> sid option" where
  "waiting_for (AfterSwitch # fs) = waiting_for fs"
| "waiting_for (P_loop s l # fs) = Some s"
| "waiting_for _ = None"

text \<open>Calls that only client code makes are never left over, and \<^verbatim>\<open>Finish\<close> is the last thing a thread does.\<close>

definition client_only :: "frame \<Rightarrow> bool" where
  "client_only f = (case f of CallFork t j p \<Rightarrow> True | CallFinish \<Rightarrow> True | _ \<Rightarrow> False)"

fun frames_ok :: "frame list \<Rightarrow> bool" where
  "frames_ok [] = True"
| "frames_ok (f # fs) = (\<not> client_only f \<and> (f = FinishTail \<longrightarrow> fs = []) \<and> frames_ok fs)"

text \<open>
  The invariant is a property of the ready lists \<open>R\<close>, the queues \<open>S\<close> of the semaphores, the thread \<open>D\<close> to be
  destroyed, and the status and frames \<open>T\<close> of the threads.
\<close>

type_synonym tview = "tid \<rightharpoonup> ThreadStatus \<times> frame list"

definition sched_ok :: "tid list list \<Rightarrow> (sid \<rightharpoonup> tid list) \<Rightarrow> tid option \<Rightarrow> tview \<Rightarrow> bool" where
  "sched_ok R S D T \<longleftrightarrow> length R = 3 \<and> distinct (concat R)
     \<and> (\<forall>t \<in> set (concat R). \<exists>fs. T t = Some (READY, fs))
     \<and> (\<forall>s q. S s = Some q \<longrightarrow> distinct q \<and> (\<forall>t \<in> set q. \<exists>fs. T t = Some (BLOCKED, fs) \<and> waiting_for fs = Some s))
     \<and> (\<forall>d. D = Some d \<longrightarrow> (\<exists>fs. T d = Some (BLOCKED, fs) \<and> set fs \<subseteq> {AfterSwitch}))
     \<and> (\<forall>t st fs. T t = Some (st, fs) \<longrightarrow> frames_ok fs)
     \<and> (\<forall>t fs. T t = Some (JUST_CREATED, fs) \<longrightarrow> set fs \<subseteq> {ThreadRoot, AfterSwitch})"

text \<open>No thread outside \<open>X\<close> is lost: a ready one is in a ready list, a blocked one in a queue unless it has finished.\<close>

definition none_lost :: "tid set \<Rightarrow> tid list list \<Rightarrow> (sid \<rightharpoonup> tid list) \<Rightarrow> tview \<Rightarrow> bool" where
  "none_lost X R S T \<longleftrightarrow> (\<forall>t st fs. t \<notin> X \<longrightarrow> T t = Some (st, fs) \<longrightarrow>
     (st = READY \<longrightarrow> t \<in> set (concat R)) \<and>
     (st = BLOCKED \<longrightarrow> (\<exists>s q. S s = Some q \<and> t \<in> set q) \<or> set fs \<subseteq> {AfterSwitch}))"

definition unqueued :: "tid \<Rightarrow> tid list list \<Rightarrow> (sid \<rightharpoonup> tid list) \<Rightarrow> bool" where
  "unqueued t R S \<longleftrightarrow> t \<notin> set (concat R) \<and> (\<forall>s q. S s = Some q \<longrightarrow> t \<notin> set q)"

lemma waiting_for_finished: "set fs \<subseteq> {AfterSwitch} \<Longrightarrow> waiting_for fs = None"
  by (induction fs) auto

text \<open>A thread whose status says so is in no queue.\<close>

lemma unqueued_status:
  assumes "sched_ok R S D T" and "T t = Some (st, fs)" and "st \<notin> {READY, BLOCKED}"
  shows "unqueued t R S" "D \<noteq> Some t"
  using assms by (fastforce simp: sched_ok_def unqueued_def)+

lemma sched_ok_dequeue:
  assumes "sched_ok R S D T" and "R = us @ (t # q) # vs" and "R' = us @ q # vs"
  shows "sched_ok R' S D T" "unqueued t R' S" "D \<noteq> Some t" "\<exists>fs. T t = Some (READY, fs)"
proof -
  have r: "\<exists>fs. T t = Some (READY, fs)" using assms by (auto simp: sched_ok_def)
  then show "\<exists>fs. T t = Some (READY, fs)" .
  show "sched_ok R' S D T" using assms by (auto simp: sched_ok_def)
  show "D \<noteq> Some t" using assms(1) r by (auto simp: sched_ok_def)
  show "unqueued t R' S" using assms r by (fastforce simp: sched_ok_def unqueued_def)
qed

lemma concat_append_at:
  assumes "length R = 3" and "p < 3"
  shows "set (concat (R[p := R ! p @ [t]])) = insert t (set (concat R))"
    "distinct (concat (R[p := R ! p @ [t]])) \<longleftrightarrow> distinct (concat R) \<and> t \<notin> set (concat R)"
proof -
  obtain a b c where R: "R = [a, b, c]" using three_queues [OF assms(1)] .
  consider "p = 0" | "p = 1" | "p = 2" using assms(2) by linarith
  then show "set (concat (R[p := R ! p @ [t]])) = insert t (set (concat R))"
    "distinct (concat (R[p := R ! p @ [t]])) \<longleftrightarrow> distinct (concat R) \<and> t \<notin> set (concat R)"
    unfolding R by (cases; auto)+
qed

lemma sched_ok_enqueue:
  assumes "sched_ok R S D T" and "T t = Some (st, fs)" and "unqueued t R S" and "D \<noteq> Some t" and "p < 3"
  shows "sched_ok (R[p := R ! p @ [t]]) S D (T(t \<mapsto> (READY, fs)))"
  using assms concat_append_at [of R p t] by (auto simp: sched_ok_def unqueued_def)

lemma sched_ok_status:
  assumes "sched_ok R S D T" and "T t = Some (st, fs)" and "unqueued t R S" and "D \<noteq> Some t" and "st' \<noteq> JUST_CREATED"
  shows "sched_ok R S D (T(t \<mapsto> (st', fs)))"
  using assms by (auto simp: sched_ok_def unqueued_def)

lemma sched_ok_after_switch:
  assumes "sched_ok R S D T" and "T c = Some (st, fs)"
  shows "sched_ok R S D (T(c \<mapsto> (st, AfterSwitch # fs)))"
  using assms by (fastforce simp: sched_ok_def client_only_def)

lemma sched_ok_frames:
  assumes "sched_ok R S D T" and "T c = Some (st, fs)" and "st \<noteq> BLOCKED" and "frames_ok gs"
    and "st = JUST_CREATED \<Longrightarrow> set gs \<subseteq> {ThreadRoot, AfterSwitch}"
  shows "sched_ok R S D (T(c \<mapsto> (st, gs)))"
  using assms by (fastforce simp: sched_ok_def)

lemma sched_ok_block:
  assumes "sched_ok R S D T" and "T c = Some (RUNNING, fs)" and "waiting_for fs = Some s" and "S s = Some q"
  shows "sched_ok R (S(s \<mapsto> q @ [c])) D (T(c \<mapsto> (BLOCKED, fs)))"
proof -
  have "unqueued c R S" "D \<noteq> Some c" using unqueued_status [OF assms(1,2)] by simp_all
  then show ?thesis using assms unfolding sched_ok_def unqueued_def by auto
qed

lemma sched_ok_wake:
  assumes "sched_ok R S D T" and "S s = Some (t # q)"
  shows "sched_ok R (S(s \<mapsto> q)) D T" "unqueued t R (S(s \<mapsto> q))" "D \<noteq> Some t" "\<exists>fs. T t = Some (BLOCKED, fs)"
proof -
  have t: "\<exists>fs. T t = Some (BLOCKED, fs) \<and> waiting_for fs = Some s" using assms by (auto simp: sched_ok_def)
  then show "\<exists>fs. T t = Some (BLOCKED, fs)" by blast
  have "distinct (t # q)" using assms by (simp only: sched_ok_def)
  then show "sched_ok R (S(s \<mapsto> q)) D T" using assms unfolding sched_ok_def by auto
  show "D \<noteq> Some t" using assms(1) t waiting_for_finished unfolding sched_ok_def by fastforce
  obtain fs where fs: "T t = Some (BLOCKED, fs)" "waiting_for fs = Some s" using t by blast
  have "t \<notin> set (concat R)" using assms(1) fs(1) unfolding sched_ok_def by force
  moreover have "t \<notin> set q'" if "(S(s \<mapsto> q)) s' = Some q'" for s' q'
  proof (cases "s' = s")
    case True
    then show ?thesis using that \<open>distinct (t # q)\<close> by simp
  next
    case False
    then have "\<forall>u \<in> set q'. \<exists>fs. T u = Some (BLOCKED, fs) \<and> waiting_for fs = Some s'"
      using assms(1) that unfolding sched_ok_def by simp
    then show ?thesis using fs False by force
  qed
  ultimately show "unqueued t R (S(s \<mapsto> q))" unfolding unqueued_def by blast
qed

lemma sched_ok_finish:
  assumes "sched_ok R S D T" and "T c = Some (RUNNING, [])"
  shows "sched_ok R S (Some c) (T(c \<mapsto> (BLOCKED, [])))"
proof -
  have "unqueued c R S" "D \<noteq> Some c" using unqueued_status [OF assms] by simp_all
  then show ?thesis using assms unfolding sched_ok_def unqueued_def by auto
qed

lemma sched_ok_delete:
  assumes "sched_ok R S (Some d) T"
  shows "sched_ok R S None (T(d := None))"
proof -
  obtain fs where fs: "T d = Some (BLOCKED, fs)" "set fs \<subseteq> {AfterSwitch}" using assms by (auto simp: sched_ok_def)
  then have "waiting_for fs = None" by (simp add: waiting_for_finished)
  then have "unqueued d R S" using assms fs(1) unfolding sched_ok_def unqueued_def by fastforce
  then show ?thesis using assms unfolding sched_ok_def unqueued_def by auto
qed

lemma none_lost_dequeue:
  assumes "none_lost {} R S T" and "R = us @ (t # q) # vs"
  shows "none_lost {t} (us @ q # vs) S T"
proof -
  have "set (concat R) = insert t (set (concat (us @ q # vs)))" by (auto simp: assms(2))
  then have "u \<in> set (concat R) \<longleftrightarrow> u = t \<or> u \<in> set (concat (us @ q # vs))" for u by blast
  with assms(1) show ?thesis unfolding none_lost_def by (simp del: set_concat) blast
qed

lemma none_lost_after_switch:
  "none_lost X R S T \<Longrightarrow> T c = Some (st, fs) \<Longrightarrow> none_lost X R S (T(c \<mapsto> (st, AfterSwitch # fs)))"
  by (auto simp: none_lost_def)

lemma none_lost_status:
  "none_lost (insert t X) R S T \<Longrightarrow> st \<notin> {READY, BLOCKED} \<Longrightarrow> none_lost X R S (T(t \<mapsto> (st, fs)))"
  by (auto simp: none_lost_def)

lemma none_lost_frames:
  "none_lost X R S T \<Longrightarrow> T c = Some (st, fs) \<Longrightarrow> st \<noteq> BLOCKED \<Longrightarrow> none_lost X R S (T(c \<mapsto> (st, gs)))"
  by (auto simp: none_lost_def)

lemma none_lost_block:
  assumes "none_lost {} R S T" and "S s = Some q"
  shows "none_lost {} R (S(s \<mapsto> q @ [c])) (T(c \<mapsto> (BLOCKED, fs)))"
  unfolding none_lost_def
proof (intro allI impI conjI)
  fix t st fs' assume T: "(T(c \<mapsto> (BLOCKED, fs))) t = Some (st, fs')"
  show "t \<in> set (concat R)" if "st = READY" using assms T that by (auto simp: none_lost_def split: if_splits)
  show "(\<exists>s' q'. (S(s \<mapsto> q @ [c])) s' = Some q' \<and> t \<in> set q') \<or> set fs' \<subseteq> {AfterSwitch}" if "st = BLOCKED"
  proof (cases "t = c")
    case False
    then have "(\<exists>s q. S s = Some q \<and> t \<in> set q) \<or> set fs' \<subseteq> {AfterSwitch}" using assms(1) T that by (auto simp: none_lost_def)
    then show ?thesis using assms(2) by (metis Un_iff fun_upd_apply option.inject set_append)
  qed auto
qed

lemma none_lost_wake:
  assumes "none_lost {} R S T" and "S s = Some (t # q)"
  shows "none_lost {t} R (S(s \<mapsto> q)) T"
  unfolding none_lost_def
proof (intro allI impI conjI)
  fix u st fs assume u: "u \<notin> {t}" "T u = Some (st, fs)"
  show "u \<in> set (concat R)" if "st = READY" using assms u that by (auto simp: none_lost_def)
  show "(\<exists>s' q'. (S(s \<mapsto> q)) s' = Some q' \<and> u \<in> set q') \<or> set fs \<subseteq> {AfterSwitch}" if "st = BLOCKED"
  proof -
    have "(\<exists>s q. S s = Some q \<and> u \<in> set q) \<or> set fs \<subseteq> {AfterSwitch}" using assms(1) u that by (auto simp: none_lost_def)
    then show ?thesis using assms(2) u(1) by (metis fun_upd_apply insertE list.simps(15) option.inject singletonI)
  qed
qed

lemma none_lost_mono: "none_lost X R S T \<Longrightarrow> X \<subseteq> Y \<Longrightarrow> none_lost Y R S T"
  by (auto simp: none_lost_def)

section \<open>The invariant on kernel states\<close>

definition tview :: "kernel \<Rightarrow> tview" where
  "tview k t = map_option (\<lambda>th. (tstatus th, frames th)) (threads k t)"

definition squeues :: "kernel \<Rightarrow> sid \<rightharpoonup> tid list" where
  "squeues k s = map_option squeue (semaphores k s)"

definition kernel_inv :: "bool \<Rightarrow> tid set \<Rightarrow> kernel \<Rightarrow> bool" where
  "kernel_inv b X k \<longleftrightarrow> sched_ok (readyListP k) (squeues k) (threadToBeDestroyed k) (tview k)
     \<and> (b \<longrightarrow> none_lost X (readyListP k) (squeues k) (tview k))
     \<and> dom (threads k) \<subseteq> {..<next_id k} \<and> dom (semaphores k) \<subseteq> {..<next_id k}"

definition running :: "kernel \<Rightarrow> tid set" where
  "running k = {t. \<exists>fs. tview k t = Some (RUNNING, fs)}"

lemma tview_upd [simp]:
  "tview (upd_thread t f k) = (tview k)(t := map_option (\<lambda>th. (tstatus (f th), frames (f th))) (threads k t))"
  by (rule ext) (simp add: tview_def option.map_comp comp_def)

lemma view_cong [simp]:
  "tview (k\<lparr>readyListP := R\<rparr>) = tview k" "tview (k\<lparr>currentThread := c\<rparr>) = tview k" "tview (k\<lparr>threadToBeDestroyed := d\<rparr>) = tview k"
  "tview (k\<lparr>semaphores := sm\<rparr>) = tview k" "tview (k\<lparr>level := l\<rparr>) = tview k" "tview (k\<lparr>machine := m\<rparr>) = tview k"
  "tview (k\<lparr>pageTablePtr := pt\<rparr>) = tview k" "tview (k\<lparr>pending := pe\<rparr>) = tview k" "tview (k\<lparr>yieldOnReturn := y\<rparr>) = tview k"
  "tview (k\<lparr>istatus := ms\<rparr>) = tview k" "tview (k\<lparr>randoms := rd\<rparr>) = tview k" "tview (k\<lparr>locks := lo\<rparr>) = tview k"
  "tview (k\<lparr>conditions := co\<rparr>) = tview k" "tview (k\<lparr>ports := po\<rparr>) = tview k" "tview (k\<lparr>next_id := n\<rparr>) = tview k"
  "tview (k\<lparr>halted := h\<rparr>) = tview k" "tview (k\<lparr>stats := st\<rparr>) = tview k" "tview (k\<lparr>inHandler := ih\<rparr>) = tview k"
  "squeues (upd_thread t f k) = squeues k"
  "squeues (k\<lparr>readyListP := R\<rparr>) = squeues k" "squeues (k\<lparr>currentThread := c\<rparr>) = squeues k" "squeues (k\<lparr>threadToBeDestroyed := d\<rparr>) = squeues k"
  "squeues (k\<lparr>threads := th\<rparr>) = squeues k" "squeues (k\<lparr>level := l\<rparr>) = squeues k" "squeues (k\<lparr>machine := m\<rparr>) = squeues k"
  "squeues (k\<lparr>pageTablePtr := pt\<rparr>) = squeues k" "squeues (k\<lparr>pending := pe\<rparr>) = squeues k" "squeues (k\<lparr>yieldOnReturn := y\<rparr>) = squeues k"
  "squeues (k\<lparr>istatus := ms\<rparr>) = squeues k" "squeues (k\<lparr>randoms := rd\<rparr>) = squeues k" "squeues (k\<lparr>locks := lo\<rparr>) = squeues k"
  "squeues (k\<lparr>conditions := co\<rparr>) = squeues k" "squeues (k\<lparr>ports := po\<rparr>) = squeues k" "squeues (k\<lparr>next_id := n\<rparr>) = squeues k"
  "squeues (k\<lparr>halted := h\<rparr>) = squeues k" "squeues (k\<lparr>stats := st\<rparr>) = squeues k" "squeues (k\<lparr>inHandler := ih\<rparr>) = squeues k"
  by (simp_all add: tview_def squeues_def fun_eq_iff)

lemma tview_Some: "threads k t = Some th \<Longrightarrow> tview k t = Some (tstatus th, frames th)"
  by (simp add: tview_def)

lemma tview_SomeE: "tview k t = Some (st, fs) \<Longrightarrow> (\<And>th. threads k t = Some th \<Longrightarrow> tstatus th = st \<Longrightarrow> frames th = fs \<Longrightarrow> P) \<Longrightarrow> P"
  by (auto simp: tview_def)

lemma dom_upd_thread [simp]: "dom (threads (upd_thread t f k)) = dom (threads k)"
  by (auto simp: upd_thread_def dom_def)

text \<open>The invariant does not look at the interrupt simulation, the machine or the other objects.\<close>

lemma system_fields:
  "system_of k' = system_of k \<Longrightarrow> threads k' = threads k \<and> semaphores k' = semaphores k \<and> readyListP k' = readyListP k
    \<and> threadToBeDestroyed k' = threadToBeDestroyed k \<and> next_id k' = next_id k \<and> locks k' = locks k
    \<and> conditions k' = conditions k \<and> ports k' = ports k \<and> currentThread k' = currentThread k \<and> halted k' = halted k"
  by (cases k; cases k') simp

lemma kernel_inv_system: "system_of k' = system_of k \<Longrightarrow> kernel_inv b X k' = kernel_inv b X k \<and> running k' = running k
    \<and> currentThread k' = currentThread k \<and> halted k' = halted k"
proof -
  assume "system_of k' = system_of k"
  note f = system_fields [OF this]
  then have "tview k' = tview k" "squeues k' = squeues k" by (simp_all add: tview_def squeues_def fun_eq_iff)
  with f show ?thesis by (simp add: kernel_inv_def running_def)
qed

lemma kernel_inv_cong [simp]:
  "kernel_inv b X (k\<lparr>machine := m\<rparr>) = kernel_inv b X k" "kernel_inv b X (k\<lparr>level := l\<rparr>) = kernel_inv b X k"
  "kernel_inv b X (k\<lparr>istatus := ms\<rparr>) = kernel_inv b X k" "kernel_inv b X (k\<lparr>yieldOnReturn := y\<rparr>) = kernel_inv b X k"
  "kernel_inv b X (k\<lparr>pending := pe\<rparr>) = kernel_inv b X k" "kernel_inv b X (k\<lparr>randoms := rd\<rparr>) = kernel_inv b X k"
  "kernel_inv b X (k\<lparr>locks := lo\<rparr>) = kernel_inv b X k" "kernel_inv b X (k\<lparr>conditions := co\<rparr>) = kernel_inv b X k"
  "kernel_inv b X (k\<lparr>ports := po\<rparr>) = kernel_inv b X k" "kernel_inv b X (k\<lparr>halted := h\<rparr>) = kernel_inv b X k"
  "kernel_inv b X (k\<lparr>pageTablePtr := pt\<rparr>) = kernel_inv b X k" "kernel_inv b X (k\<lparr>currentThread := c\<rparr>) = kernel_inv b X k"
  "running (k\<lparr>machine := m\<rparr>) = running k" "running (k\<lparr>level := l\<rparr>) = running k"
  "running (k\<lparr>istatus := ms\<rparr>) = running k" "running (k\<lparr>yieldOnReturn := y\<rparr>) = running k"
  "running (k\<lparr>pending := pe\<rparr>) = running k" "running (k\<lparr>randoms := rd\<rparr>) = running k"
  "running (k\<lparr>locks := lo\<rparr>) = running k" "running (k\<lparr>conditions := co\<rparr>) = running k"
  "running (k\<lparr>ports := po\<rparr>) = running k" "running (k\<lparr>halted := h\<rparr>) = running k"
  "running (k\<lparr>pageTablePtr := pt\<rparr>) = running k" "running (k\<lparr>currentThread := c\<rparr>) = running k"
  "running (k\<lparr>semaphores := sm\<rparr>) = running k" "running (k\<lparr>next_id := n\<rparr>) = running k"
  "running (k\<lparr>readyListP := rl\<rparr>) = running k" "running (k\<lparr>threadToBeDestroyed := td\<rparr>) = running k"
  by (simp_all add: kernel_inv_def running_def)

section \<open>The scheduler keeps it\<close>

lemma FindNextToRun_inv:
  assumes I: "kernel_inv b {} k" and F: "FindNextToRun k = Inr (Some t, k')"
  shows "kernel_inv b {t} k'" "unqueued t (readyListP k') (squeues k)" "threadToBeDestroyed k \<noteq> Some t"
    "\<exists>fs. tview k t = Some (READY, fs)" "\<exists>R. k' = k\<lparr>readyListP := R\<rparr>"
proof -
  have len: "length (readyListP k) = 3" using I by (simp add: kernel_inv_def sched_ok_def)
  obtain a b' c where q: "readyListP k = [a, b', c]" using three_queues [OF len] .
  have "\<exists>us q' vs. readyListP k = us @ (t # q') # vs \<and> k' = k\<lparr>readyListP := us @ q' # vs\<rparr>"
  proof -
    consider "c = t # tl c" "k' = k\<lparr>readyListP := [a, b', tl c]\<rparr>" | "b' = t # tl b'" "k' = k\<lparr>readyListP := [a, tl b', c]\<rparr>"
      | "a = t # tl a" "k' = k\<lparr>readyListP := [tl a, b', c]\<rparr>"
      using F FindNextToRun_order [OF len] q by (cases c; cases b'; cases a) (auto simp: ready_order_def)
    then show ?thesis
    proof cases
      case 1
      then show ?thesis using q by (intro exI [of _ "[a, b']"] exI [of _ "tl c"] exI [of _ "[]"]) simp
    next
      case 2
      then show ?thesis using q by (intro exI [of _ "[a]"] exI [of _ "tl b'"] exI [of _ "[c]"]) simp
    next
      case 3
      then show ?thesis using q by (intro exI [of _ "[]"] exI [of _ "tl a"] exI [of _ "[b', c]"]) simp
    qed
  qed
  then obtain us q' vs where r: "readyListP k = us @ (t # q') # vs" "k' = k\<lparr>readyListP := us @ q' # vs\<rparr>" by blast
  note D = sched_ok_dequeue [OF _ r(1) refl, of "squeues k" "threadToBeDestroyed k" "tview k"]
  have s: "sched_ok (readyListP k) (squeues k) (threadToBeDestroyed k) (tview k)" using I by (simp add: kernel_inv_def)
  show "unqueued t (readyListP k') (squeues k)" "threadToBeDestroyed k \<noteq> Some t" "\<exists>fs. tview k t = Some (READY, fs)"
    using D [OF s] r(2) by simp_all
  show "\<exists>R. k' = k\<lparr>readyListP := R\<rparr>" using r(2) by blast
  have "b \<longrightarrow> none_lost {t} (us @ q' # vs) (squeues k) (tview k)"
    using I none_lost_dequeue [OF _ r(1)] by (simp add: kernel_inv_def)
  then show "kernel_inv b {t} k'" using I D(1) [OF s] r(2) by (simp add: kernel_inv_def)
qed

lemma ReadyToRun_inv:
  assumes I: "kernel_inv b (insert t X) k" and t: "threads k t = Some th" and u: "unqueued t (readyListP k) (squeues k)"
    and d: "threadToBeDestroyed k \<noteq> Some t" and R: "ReadyToRun t k = Inr k'"
  shows "kernel_inv b X k'" "tview k' = (tview k)(t \<mapsto> (READY, frames th))" "\<exists>qs. k' = (upd_thread t (setStatus READY) k)\<lparr>readyListP := qs\<rparr>"
    "set (concat (readyListP k')) = insert t (set (concat (readyListP k)))"
proof -
  have len: "length (readyListP k) = 3" using I by (simp add: kernel_inv_def sched_ok_def)
  let ?p = "nat (priority th)"
  have p: "prio_ok th" using R t len by (auto simp: ReadyToRun_def Let_def aget_def rbind_eq_Inr prio_ok_def split: if_splits)
  then have k': "k' = (upd_thread t (setStatus READY) k)\<lparr>readyListP := (readyListP k)[?p := readyListP k ! ?p @ [t]]\<rparr>"
    using R ReadyToRun_ok [OF t p len] by simp
  then show "\<exists>qs. k' = (upd_thread t (setStatus READY) k)\<lparr>readyListP := qs\<rparr>" by blast
  show v: "tview k' = (tview k)(t \<mapsto> (READY, frames th))" using k' t by simp
  have "?p < 3" using p by (auto simp: prio_ok_def)
  have "sched_ok (readyListP k) (squeues k) (threadToBeDestroyed k) (tview k)" using I by (simp add: kernel_inv_def)
  from sched_ok_enqueue [OF this tview_Some [OF t] u d \<open>?p < 3\<close>]
  have "sched_ok (readyListP k') (squeues k') (threadToBeDestroyed k') (tview k')" unfolding v using k' by simp
  moreover show c: "set (concat (readyListP k')) = insert t (set (concat (readyListP k)))"
    using concat_append_at(1) [OF len \<open>?p < 3\<close>] k' by simp
  from c have "b \<longrightarrow> none_lost X (readyListP k') (squeues k') (tview k')"
    unfolding v using I k' by (auto simp: kernel_inv_def none_lost_def)
  ultimately show "kernel_inv b X k'" using I k' by (simp add: kernel_inv_def)
qed

lemma Run_view:
  assumes "Run t k = Inr k'"
  obtains st gs where "tview k (currentThread k) = Some (st, gs)" "threads k t \<noteq> None"
    "tview k' = (let T = (tview k)(currentThread k \<mapsto> (st, AfterSwitch # gs)) in T(t := map_option (\<lambda>(_, fs). (RUNNING, fs)) (T t)))"
    "currentThread k' = t" "readyListP k' = readyListP k" "squeues k' = squeues k" "threadToBeDestroyed k' = threadToBeDestroyed k"
    "dom (threads k') = dom (threads k)" "semaphores k' = semaphores k" "next_id k' = next_id k" "halted k' = halted k"
proof -
  obtain old k1 where o: "threads k (currentThread k) = Some old"
    and k1: "(if space old \<noteq> None then SaveUserState (currentThread k) k else Inr k) = Inr k1"
    and R: "k' = upd_thread t (setStatus RUNNING) ((push [AfterSwitch] k1)\<lparr>currentThread := t\<rparr>)"
    and nt: "threads ((push [AfterSwitch] k1)\<lparr>currentThread := t\<rparr>) t \<noteq> None"
    using assms by (auto simp: Run_def Let_def rbind_eq_Inr)
  have v: "tview k1 = tview k" "currentThread k1 = currentThread k" "readyListP k1 = readyListP k" "squeues k1 = squeues k"
    "threadToBeDestroyed k1 = threadToBeDestroyed k" "dom (threads k1) = dom (threads k)" "semaphores k1 = semaphores k"
    "next_id k1 = next_id k" "halted k1 = halted k"
    using k1 o by (auto simp: SaveUserState_def rbind_eq_Inr fun_eq_iff tview_def split: if_splits)
  obtain old1 where o1: "threads k1 (currentThread k) = Some old1" "tstatus old1 = tstatus old" "frames old1 = frames old"
    using arg_cong [OF v(1), of "\<lambda>f. f (currentThread k)"] o by (auto simp: tview_def)
  have tv: "tview (push [AfterSwitch] k1) = (tview k)(currentThread k \<mapsto> (tstatus old, AfterSwitch # frames old))"
    using o1 v(1,2) by (simp add: push_def)
  have "map_option (\<lambda>th. (tstatus (setStatus RUNNING th), frames (setStatus RUNNING th))) (threads (push [AfterSwitch] k1) t)
      = map_option (\<lambda>(_, fs). (RUNNING, fs)) (tview (push [AfterSwitch] k1) t)"
    by (cases "threads (push [AfterSwitch] k1) t") (simp_all add: tview_def)
  then have "tview k' = (let T = (tview k)(currentThread k \<mapsto> (tstatus old, AfterSwitch # frames old))
      in T(t := map_option (\<lambda>(_, fs). (RUNNING, fs)) (T t)))"
    unfolding R by (simp add: tv Let_def)
  moreover have "threads k t \<noteq> None" using nt v(6) by (auto simp: push_def split: if_splits)
  ultimately show thesis using that [OF tview_Some [OF o]] v R by (simp add: push_def)
qed

lemma Run_inv:
  assumes I: "kernel_inv b {t} k" and t: "tview k t = Some (READY, fs)" and u: "unqueued t (readyListP k) (squeues k)"
    and d: "threadToBeDestroyed k \<noteq> Some t" and R: "Run t k = Inr k'" and r: "running k = {}"
  shows "kernel_inv b {} k'" "running k' = {t}" "currentThread k' = t" "halted k' = halted k"
proof -
  obtain st gs where v: "tview k (currentThread k) = Some (st, gs)"
    "tview k' = (let T = (tview k)(currentThread k \<mapsto> (st, AfterSwitch # gs)) in T(t := map_option (\<lambda>(_, fs). (RUNNING, fs)) (T t)))"
    "currentThread k' = t" "readyListP k' = readyListP k" "squeues k' = squeues k" "threadToBeDestroyed k' = threadToBeDestroyed k"
    "dom (threads k') = dom (threads k)" "semaphores k' = semaphores k" "next_id k' = next_id k" "halted k' = halted k"
    using Run_view [OF R] by metis
  let ?T = "(tview k)(currentThread k \<mapsto> (st, AfterSwitch # gs))"
  obtain st' fs' where t': "?T t = Some (st', fs')" using t by (cases "t = currentThread k") auto
  then have tv: "tview k' = ?T(t \<mapsto> (RUNNING, fs'))" using v(2) by (simp add: Let_def)
  have s: "sched_ok (readyListP k) (squeues k) (threadToBeDestroyed k) (tview k)" using I by (simp add: kernel_inv_def)
  have "sched_ok (readyListP k') (squeues k') (threadToBeDestroyed k') (tview k')"
    unfolding tv v(4-6) by (rule sched_ok_status [OF sched_ok_after_switch [OF s v(1)] t' u d]) simp
  moreover have "b \<longrightarrow> none_lost {} (readyListP k') (squeues k') (tview k')"
  proof
    assume b
    then have n: "none_lost {t} (readyListP k) (squeues k) (tview k)" using I by (simp add: kernel_inv_def)
    show "none_lost {} (readyListP k') (squeues k') (tview k')"
      unfolding tv v(4,5) by (rule none_lost_status [OF none_lost_after_switch [OF n v(1)]]) simp
  qed
  ultimately show "kernel_inv b {} k'" using I v by (simp add: kernel_inv_def)
  show "running k' = {t}" using r v(1) unfolding running_def tv by (auto split: if_splits)
  show "currentThread k' = t" "halted k' = halted k" by fact+
qed

section \<open>Routines that run in the current thread\<close>

text \<open>The state between two steps, while the machine has not halted.\<close>

definition at_rest :: "bool \<Rightarrow> kernel \<Rightarrow> bool" where
  "at_rest b k \<longleftrightarrow> kernel_inv b {} k \<and> running k = {currentThread k} \<and> \<not> halted k"

lemma at_rest_current:
  assumes "at_rest b k"
  obtains th where "threads k (currentThread k) = Some th" "tstatus th = RUNNING"
    "unqueued (currentThread k) (readyListP k) (squeues k)" "threadToBeDestroyed k \<noteq> Some (currentThread k)"
proof -
  obtain fs where fs: "tview k (currentThread k) = Some (RUNNING, fs)" using assms by (auto simp: at_rest_def running_def)
  moreover have "sched_ok (readyListP k) (squeues k) (threadToBeDestroyed k) (tview k)"
    using assms by (simp add: at_rest_def kernel_inv_def)
  from unqueued_status [OF this fs] have "unqueued (currentThread k) (readyListP k) (squeues k)"
    "threadToBeDestroyed k \<noteq> Some (currentThread k)" by simp_all
  ultimately show thesis using that by (auto elim!: tview_SomeE)
qed

lemma at_rest_cong [simp]:
  "at_rest b (k\<lparr>machine := m\<rparr>) = at_rest b k" "at_rest b (k\<lparr>level := l\<rparr>) = at_rest b k"
  "at_rest b (k\<lparr>istatus := ms\<rparr>) = at_rest b k" "at_rest b (k\<lparr>yieldOnReturn := y\<rparr>) = at_rest b k"
  "at_rest b (k\<lparr>pending := pe\<rparr>) = at_rest b k" "at_rest b (k\<lparr>randoms := rd\<rparr>) = at_rest b k"
  "at_rest b (k\<lparr>locks := lo\<rparr>) = at_rest b k" "at_rest b (k\<lparr>conditions := co\<rparr>) = at_rest b k"
  "at_rest b (k\<lparr>ports := po\<rparr>) = at_rest b k" 
  "at_rest b (k\<lparr>pageTablePtr := pt\<rparr>) = at_rest b k" "at_rest b (ChangeLevel l k) = at_rest b k"
  by (simp_all add: at_rest_def ChangeLevel_def)

text \<open>Changing the frames of the current thread.\<close>

lemma frames_inv:
  assumes I: "kernel_inv b X k" and th: "threads k c = Some th" "tstatus th \<noteq> BLOCKED" and g: "frames_ok (g (frames th))"
    and j: "tstatus th = JUST_CREATED \<Longrightarrow> set (g (frames th)) \<subseteq> {ThreadRoot, AfterSwitch}"
  shows "kernel_inv b X (upd_thread c (\<lambda>th. th\<lparr>frames := g (frames th)\<rparr>) k)"
    "running (upd_thread c (\<lambda>th. th\<lparr>frames := g (frames th)\<rparr>) k) = running k"
proof -
  note v = tview_Some [OF th(1)]
  have s: "sched_ok (readyListP k) (squeues k) (threadToBeDestroyed k) (tview k)"
    and n: "b \<longrightarrow> none_lost X (readyListP k) (squeues k) (tview k)" using I by (simp_all add: kernel_inv_def)
  have "b \<longrightarrow> none_lost X (readyListP k) (squeues k) ((tview k)(c \<mapsto> (tstatus th, g (frames th))))"
    using n v th(2) by (auto intro: none_lost_frames)
  then show "kernel_inv b X (upd_thread c (\<lambda>th. th\<lparr>frames := g (frames th)\<rparr>) k)"
    using sched_ok_frames [OF s v th(2) g j] I th by (simp add: kernel_inv_def)
  show "running (upd_thread c (\<lambda>th. th\<lparr>frames := g (frames th)\<rparr>) k) = running k"
    using th v by (auto simp: running_def split: if_splits)
qed

lemma current_frames_inv:
  assumes R: "at_rest b k" and f: "\<And>th. threads k (currentThread k) = Some th \<Longrightarrow> frames_ok (g (frames th))"
  shows "at_rest b (upd_thread (currentThread k) (\<lambda>th. th\<lparr>frames := g (frames th)\<rparr>) k)"
proof -
  obtain th where th: "threads k (currentThread k) = Some th" "tstatus th = RUNNING" using at_rest_current [OF R] .
  then show ?thesis using frames_inv [of b "{}" k "currentThread k" th g] R f by (simp add: at_rest_def)
qed

lemma frames_ok_append: "frames_ok gs \<Longrightarrow> frames_ok fs \<Longrightarrow> FinishTail \<notin> set gs \<or> fs = [] \<Longrightarrow> frames_ok (gs @ fs)"
  by (induction gs) auto

lemma at_rest_frames_ok: "at_rest b k \<Longrightarrow> threads k t = Some th \<Longrightarrow> frames_ok (frames th)"
  using tview_Some [of k t th] by (auto simp: at_rest_def kernel_inv_def sched_ok_def)

lemma push_inv:
  assumes "at_rest b k" and "frames_ok gs" and "FinishTail \<notin> set gs \<or> top_frames k = []"
  shows "at_rest b (push gs k)"
  unfolding push_def
  by (rule current_frames_inv [OF assms(1)])
    (use assms(2,3) at_rest_frames_ok [OF assms(1)] in \<open>auto simp: top_frames_def intro!: frames_ok_append\<close>)

lemma leave_inv: "at_rest b k \<Longrightarrow> at_rest b (leave old k)"
  by (simp add: leave_def push_inv client_only_def)

lemma squeues_upd_sem [simp]:
  "squeues (upd_sem s f k) = (squeues k)(s := map_option (\<lambda>sem. squeue (f sem)) (semaphores k s))"
  "tview (upd_sem s f k) = tview k" "readyListP (upd_sem s f k) = readyListP k"
  "threadToBeDestroyed (upd_sem s f k) = threadToBeDestroyed k" "threads (upd_sem s f k) = threads k"
  "dom (semaphores (upd_sem s f k)) = dom (semaphores k)" "next_id (upd_sem s f k) = next_id k"
  "currentThread (upd_sem s f k) = currentThread k" "halted (upd_sem s f k) = halted k" "level (upd_sem s f k) = level k"
  "running (upd_sem s f k) = running k"
  by (auto simp: upd_sem_def squeues_def fun_eq_iff dom_def running_def option.map_comp comp_def)

lemma upd_sem_value: "(\<And>sem. squeue (f sem) = squeue sem) \<Longrightarrow> kernel_inv b X (upd_sem s f k) = kernel_inv b X k"
proof -
  assume "\<And>sem. squeue (f sem) = squeue sem"
  then have "squeues (upd_sem s f k) = squeues k" by (auto simp: squeues_def fun_eq_iff)
  then show ?thesis unfolding kernel_inv_def by (simp only: squeues_upd_sem(2-7))
qed

text \<open>The body of \<^verbatim>\<open>V\<close>: the first waiting thread becomes ready.\<close>

lemma wake_inv:
  assumes I: "kernel_inv b {} k" and q: "semaphores k s = Some sem" "squeue sem = t # ts"
    and R: "ReadyToRun t (upd_sem s (\<lambda>sem. sem\<lparr>squeue := ts\<rparr>) k) = Inr k'"
  shows "kernel_inv b {} k' \<and> running k' = running k \<and> currentThread k' = currentThread k \<and> halted k' = halted k \<and> level k' = level k"
proof -
  let ?k = "upd_sem s (\<lambda>sem. sem\<lparr>squeue := ts\<rparr>) k"
  have s: "sched_ok (readyListP k) (squeues k) (threadToBeDestroyed k) (tview k)" "squeues k s = Some (t # ts)"
    using I q by (simp_all add: kernel_inv_def squeues_def)
  have S: "squeues ?k = (squeues k)(s \<mapsto> ts)" using q by simp
  note W = sched_ok_wake [OF s]
  have "b \<longrightarrow> none_lost {t} (readyListP k) ((squeues k)(s \<mapsto> ts)) (tview k)"
    using I s(2) by (auto simp: kernel_inv_def intro: none_lost_wake)
  then have "kernel_inv b {t} ?k" using I W(1) S by (simp add: kernel_inv_def)
  moreover obtain fs where fs: "tview k t = Some (BLOCKED, fs)" using W(4) by blast
  then obtain th where th: "threads ?k t = Some th" "tstatus th = BLOCKED" by (auto elim!: tview_SomeE)
  moreover have "unqueued t (readyListP ?k) (squeues ?k)" using W(2) S by simp
  ultimately have K: "kernel_inv b {} k'" "tview k' = (tview k)(t \<mapsto> (READY, frames th))"
    "\<exists>qs. k' = (upd_thread t (setStatus READY) ?k)\<lparr>readyListP := qs\<rparr>"
    using ReadyToRun_inv [OF _ th(1) _ _ R] W(3) by simp_all
  have "running k' = running k" using fs unfolding running_def K(2) by (auto split: if_splits)
  then show ?thesis using K by auto
qed

lemma V_body_inv:
  assumes I: "kernel_inv b {} k" and V: "Semaphore_V s k = Inr k'"
  obtains k2 where "k' = leave (level k) k2" "kernel_inv b {} k2" "running k2 = running k" "currentThread k2 = currentThread k"
    "halted k2 = halted k" "level k2 = IntOff"
proof -
  let ?k1 = "ChangeLevel IntOff k"
  have I1: "kernel_inv b {} ?k1" "running ?k1 = running k" "currentThread ?k1 = currentThread k" "halted ?k1 = halted k"
    "level ?k1 = IntOff" using I by (simp_all add: ChangeLevel_def)
  obtain sem k2 where sem: "semaphores ?k1 s = Some sem"
    and k2: "(case squeue sem of [] \<Rightarrow> Inr ?k1 | t # ts \<Rightarrow> ReadyToRun t (upd_sem s (\<lambda>sem. sem\<lparr>squeue := ts\<rparr>) ?k1)) = Inr k2"
    and k': "k' = leave (level k) (upd_sem s (\<lambda>sem. sem\<lparr>svalue := svalue sem + 1\<rparr>) k2)"
    using V by (auto simp: Semaphore_V_def Let_def rbind_eq_Inr)
  have "kernel_inv b {} k2 \<and> running k2 = running k \<and> currentThread k2 = currentThread k \<and> halted k2 = halted k \<and> level k2 = IntOff"
  proof (cases "squeue sem")
    case Nil
    then show ?thesis using k2 I1 by simp
  next
    case (Cons t ts)
    then show ?thesis using wake_inv [OF I1(1) sem Cons] k2 I1 by simp
  qed
  then show thesis using that [OF k'] by (simp add: upd_sem_value)
qed

end
