(* ===== verification/Kernel_Safety.thy ===== *)
theory Kernel_Safety
  imports Threads_Inv
begin

text \<open>
  Every step of the kernel keeps the invariant of \<^verbatim>\<open>Threads_Inv\<close>: interrupts, yielding, sleeping and
  finishing, and the operations on semaphores, locks, condition variables and ports.
\<close>

section \<open>Interrupts\<close>

definition quiet_kernel :: "bool \<Rightarrow> tid set \<Rightarrow> tid \<Rightarrow> bool \<Rightarrow> kernel \<Rightarrow> bool" where
  "quiet_kernel b R c h k \<longleftrightarrow> kernel_inv b {} k \<and> running k = R \<and> currentThread k = c \<and> halted k = h"

lemma quiet_kernel_system: "system_of k' = system_of k \<Longrightarrow> quiet_kernel b R c h k' = quiet_kernel b R c h k"
  using kernel_inv_system [of k' k] by (simp add: quiet_kernel_def)

lemma quiet_kernel_cong [simp]:
  "quiet_kernel b R c h (k\<lparr>randoms := f\<rparr>) = quiet_kernel b R c h k" "quiet_kernel b R c h (k\<lparr>machine := m\<rparr>) = quiet_kernel b R c h k"
  by (simp_all add: quiet_kernel_def)

lemma TimerExpired_system:
  "TimerExpired (\<lambda>_. TimerInterruptHandler) d t r k = Inr k' \<Longrightarrow> system_of k' = system_of k"
  by (auto simp: TimerExpired_def Schedule_def Let_def TimerInterruptHandler_def YieldOnReturn_def rbind_eq_Inr split: if_splits)

lemma device_call_quiet:
  assumes K: "quiet_kernel b R c h k" and l: "level k = IntOff" and D: "device_call d k = Inr k'"
  shows "quiet_kernel b R c h k'"
proof (cases d)
  case (TimerDevice r)
  let ?k = "if r then k\<lparr>randoms := (\<lambda>n. randoms k (Suc n))\<rparr> else k"
  have "system_of k' = system_of ?k" using D TimerDevice TimerExpired_system unfolding device_call_def by force
  moreover have "quiet_kernel b R c h ?k" using K by simp
  ultimately show ?thesis using quiet_kernel_system by metis
next
  case (DriverDone s)
  then have V: "Semaphore_V s k = Inr k'" using D by (simp add: device_call_def)
  have I: "kernel_inv b {} k" using K by (simp add: quiet_kernel_def)
  obtain k2 where "k' = leave (level k) k2" "kernel_inv b {} k2" "running k2 = running k" "currentThread k2 = currentThread k"
    "halted k2 = halted k" using V_body_inv [OF I V] by metis
  then show ?thesis using K l by (simp add: quiet_kernel_def leave_def ChangeLevel_def)
qed

lemma delayed_load_system:
  assumes "delayed_load k = Inr k'"
  obtains m where "k' = k\<lparr>machine := m\<rparr>"
  using assms by (auto simp: delayed_load_def rbind_eq_Inr)

interpretation quiet: interrupt_invariant device_call delayed_load "quiet_kernel b R c h"
proof
  fix i i' :: kernel
  assume "quiet_kernel b R c h i" "system_of i' = system_of i" "handlers i' \<subseteq> handlers i"
  then show "quiet_kernel b R c h i'" using quiet_kernel_system by metis
next
  fix i0 i i' :: kernel and d
  assume "quiet_kernel b R c h i0" "system_of i0 = system_of i" "level i = IntOff" "device_call d i = Inr i'"
  then show "quiet_kernel b R c h i'" using quiet_kernel_system device_call_quiet by metis
next
  fix i0 i i' :: kernel
  assume K: "quiet_kernel b R c h i0" "system_of i0 = system_of i" "delayed_load i = Inr i'"
  obtain m where m: "i' = i\<lparr>machine := m\<rparr>" using delayed_load_system [OF K(3)] .
  have "quiet_kernel b R c h i'" unfolding m using K(1,2) quiet_kernel_system [of i i0] by simp
  moreover have "quiet_kernel b R c h (set_system (system_of i') i0) = quiet_kernel b R c h i'" by (rule quiet_kernel_system) simp
  ultimately show "quiet_kernel b R c h (set_system (system_of i') i0) \<and> pending i' = pending i \<and> level i' = level i"
    using m by simp
qed

section \<open>Yielding and sleeping\<close>

text \<open>The state after a step: the machine may have halted, with no thread running.\<close>

definition safe :: "bool \<Rightarrow> kernel \<Rightarrow> bool" where
  "safe b k \<longleftrightarrow> kernel_inv b {} k \<and> running k = (if halted k then {} else {currentThread k})"

lemma safe_at_rest: "\<not> halted k \<Longrightarrow> safe b k = at_rest b k"
  by (simp add: safe_def at_rest_def)

lemma at_rest_safe: "at_rest b k \<Longrightarrow> safe b k"
  by (simp add: safe_def at_rest_def)

lemma kernel_inv_mono: "kernel_inv b X k \<Longrightarrow> X \<subseteq> Y \<Longrightarrow> kernel_inv b Y k"
  using none_lost_mono by (auto simp: kernel_inv_def)

lemma FindNextToRun_None: "FindNextToRun k = Inr (None, k') \<Longrightarrow> k' = k"
  unfolding FindNextToRun_def by (auto simp: rbind_eq_Inr split: list.split_asm) (meson neq_Nil_conv)

lemma Yield_switch:
  assumes A: "at_rest b k" and F: "FindNextToRun k = Inr (Some t, k2)" and R: "ReadyToRun (currentThread k2) k2 = Inr k3"
    and S: "Run t (push [RestoreLevel l] k3) = Inr k'"
  shows "at_rest b k'"
proof -
  let ?c = "currentThread k"
  obtain th where th: "threads k ?c = Some th" "tstatus th = RUNNING" "unqueued ?c (readyListP k) (squeues k)"
    "threadToBeDestroyed k \<noteq> Some ?c" using at_rest_current [OF A] .
  have I: "kernel_inv b {} k" and r: "running k = {?c}" using A by (simp_all add: at_rest_def)
  note N = FindNextToRun_inv [OF I F]
  obtain Q where k2: "k2 = k\<lparr>readyListP := Q\<rparr>" using N(5) by blast
  obtain fs where fs: "tview k t = Some (READY, fs)" using N(4) by blast
  have tc: "t \<noteq> ?c" using fs th by (auto simp: tview_def)
  have v2: "tview k2 = tview k" "squeues k2 = squeues k" "threads k2 = threads k" "currentThread k2 = ?c"
    "threadToBeDestroyed k2 = threadToBeDestroyed k" "halted k2 = halted k" using k2 by simp_all
  have I2: "kernel_inv b (insert ?c {t}) k2" using N(1) by (rule kernel_inv_mono) simp
  have s2: "sched_ok (readyListP k2) (squeues k2) (threadToBeDestroyed k2) (tview k2)" using N(1) by (simp add: kernel_inv_def)
  have u2: "unqueued ?c (readyListP k2) (squeues k2)"
    using unqueued_status(1) [OF s2] tview_Some [OF th(1)] th(2) v2(1) by simp
  note K3 = ReadyToRun_inv [OF I2 _ u2, of th, unfolded v2(3), OF th(1) _ R [unfolded v2(4)]]
  have d2: "threadToBeDestroyed k2 \<noteq> Some ?c" using th(4) v2(5) by simp
  obtain qs where k3: "k3 = (upd_thread ?c (setStatus READY) k2)\<lparr>readyListP := qs\<rparr>" using K3(3) [OF d2] by blast
  have v3: "currentThread k3 = ?c" "squeues k3 = squeues k" "threadToBeDestroyed k3 = threadToBeDestroyed k" "halted k3 = halted k"
    "threads k3 ?c = Some (setStatus READY th)" using k3 v2 th(1) by simp_all
  have t3: "tview k3 t = Some (READY, fs)" "running k3 = {}" using K3(2) [OF d2] v2(1) fs tc r by (auto simp: running_def)
  have u3: "unqueued t (readyListP k3) (squeues k3)" using N(2) K3(4) [OF d2] v3(2) tc by (auto simp: unqueued_def simp del: set_concat)
  let ?k4 = "push [RestoreLevel l] k3"
  have ok: "frames_ok ([RestoreLevel l] @ frames th)" using at_rest_frames_ok [OF A th(1)] by (simp add: client_only_def)
  have P: "kernel_inv b {t} ?k4" "running ?k4 = {}"
    using frames_inv [OF K3(1) [OF d2] v3(5), of "\<lambda>fs. [RestoreLevel l] @ fs"] ok t3(2) by (simp_all add: push_def v3(1))
  have t4: "tview ?k4 t = Some (READY, fs)" using t3(1) tc by (simp add: push_def v3(1))
  show ?thesis
    using Run_inv [OF P(1) t4 _ _ S P(2)] u3 N(3) v3 A by (simp add: push_def at_rest_def)
qed

lemma Yield_inv:
  assumes A: "at_rest b k" and Y: "Thread_Yield k = Inr k'"
  shows "at_rest b k'"
proof -
  let ?k = "ChangeLevel IntOff k"
  have A1: "at_rest b ?k" using A by simp
  obtain n k2 where F: "FindNextToRun ?k = Inr (n, k2)"
    and c: "(case n of None \<Rightarrow> Inr (push [RestoreLevel (level k)] k2)
      | Some t \<Rightarrow> rbind (ReadyToRun (currentThread k2) k2) (\<lambda>k3. Run t (push [RestoreLevel (level k)] k3))) = Inr k'"
    using Y by (auto simp: Thread_Yield_def Let_def rbind_eq_Inr)
  show ?thesis
  proof (cases n)
    case None
    then have "k' = push [RestoreLevel (level k)] ?k" using c FindNextToRun_None [of ?k k2] F by simp
    then show ?thesis using push_inv [OF A1, of "[RestoreLevel (level k)]"] by (simp add: client_only_def)
  next
    case (Some t)
    then obtain k3 where "ReadyToRun (currentThread k2) k2 = Inr k3" "Run t (push [RestoreLevel (level k)] k3) = Inr k'"
      using c by (auto simp: rbind_eq_Inr)
    then show ?thesis using Yield_switch [OF A1] F Some by metis
  qed
qed

lemma tick_inv:
  assumes A: "at_rest b k" and T: "tick device_call delayed_load k = Some (Inr k')"
  shows "at_rest b k'"
proof -
  have "quiet_kernel b {currentThread k} (currentThread k) False k" using A by (simp add: quiet_kernel_def at_rest_def)
  from quiet.tick_holds [OF this T] show ?thesis by (simp add: quiet_kernel_def at_rest_def)
qed

lemma OneTick_inv:
  assumes A: "at_rest b k" and T: "OneTick k = Some (Inr k')"
  shows "at_rest b k'"
proof -
  obtain k1 where k1: "tick device_call delayed_load k = Some (Inr k1)"
    and c: "(if yieldOnReturn k1
      then Thread_Yield (push [RestoreStatus (istatus k)] (k1\<lparr>yieldOnReturn := False, istatus := SystemMode\<rparr>)) else Inr k1) = Inr k'"
    using T by (auto simp: OneTick_def rbind_eq_Inr split: option.splits)
  note A1 = tick_inv [OF A k1]
  let ?k = "push [RestoreStatus (istatus k)] (k1\<lparr>yieldOnReturn := False, istatus := SystemMode\<rparr>)"
  have "at_rest b ?k" by (rule push_inv) (use A1 in \<open>simp_all add: client_only_def\<close>)
  then show ?thesis using A1 c Yield_inv by (cases "yieldOnReturn k1") auto
qed

lemma SetLevel_inv:
  assumes A: "at_rest b k" and S: "SetLevel l k = Some (Inr k')"
  shows "at_rest b k'"
  using S A OneTick_inv [of b "ChangeLevel l k" k'] by (auto simp: SetLevel_def split: if_splits)

text \<open>A thread that has been put to sleep: the CPU goes to another one, or the machine halts.\<close>

lemma sleep_loop_inv: "sleep_loop k = Some (Inr k') \<Longrightarrow> kernel_inv b {} k \<Longrightarrow> running k = {} \<Longrightarrow> \<not> halted k \<Longrightarrow> safe b k'"
proof -
  have "kernel_inv b {} k \<longrightarrow> running k = {} \<longrightarrow> \<not> halted k \<longrightarrow> (\<forall>k'. r = Inr k' \<longrightarrow> safe b k')" if "sleep_loop k = Some r" for k r
    using that
  proof (rule sleep_loop.raw_induct [rotated])
    fix rec k r
    assume IH: "\<And>k r. rec k = Some r \<Longrightarrow> kernel_inv b {} k \<longrightarrow> running k = {} \<longrightarrow> \<not> halted k \<longrightarrow> (\<forall>k'. r = Inr k' \<longrightarrow> safe b k')"
      and step: "(case FindNextToRun k of Inl f \<Rightarrow> Some (Inl f)
        | Inr (Some nextThread, k1) \<Rightarrow> Some (Run nextThread k1)
        | Inr (None, k1) \<Rightarrow> (case Idle device_call delayed_load k1 of None \<Rightarrow> None
             | Some (Inl f) \<Rightarrow> Some (Inl f)
             | Some (Inr None) \<Rightarrow> Some (Inr (k1\<lparr>halted := True\<rparr>))
             | Some (Inr (Some k2)) \<Rightarrow> rec k2)) = Some r"
    show "kernel_inv b {} k \<longrightarrow> running k = {} \<longrightarrow> \<not> halted k \<longrightarrow> (\<forall>k'. r = Inr k' \<longrightarrow> safe b k')"
    proof (intro impI allI)
      fix k' assume K: "kernel_inv b {} k" "running k = {}" "\<not> halted k" and r: "r = Inr k'"
      from step r obtain n k1 where F: "FindNextToRun k = Inr (n, k1)" by (auto split: sum.splits)
      show "safe b k'"
      proof (cases n)
        case (Some t)
        note N = FindNextToRun_inv [OF K(1) F [unfolded Some]]
        obtain fs Q where "tview k t = Some (READY, fs)" "k1 = k\<lparr>readyListP := Q\<rparr>" using N(4,5) by blast
        moreover have "Run t k1 = Inr k'" using step r F Some by simp
        ultimately show ?thesis using Run_inv [OF N(1), of fs k'] N(2,3) K(2,3) by (simp add: safe_def)
      next
        case None
        then have k1: "k1 = k" using F FindNextToRun_None by simp
        have q: "quiet_kernel b {} (currentThread k) False k" using K by (simp add: quiet_kernel_def)
        from step r F None k1 consider "k' = k\<lparr>halted := True\<rparr>"
          | k2 where "Idle device_call delayed_load k = Some (Inr (Some k2))" "rec k2 = Some (Inr k')"
          by (auto split: option.splits sum.splits)
        then show ?thesis
        proof cases
          case 1
          then show ?thesis using K by (simp add: safe_def)
        next
          case 2
          from quiet.Idle_holds [OF q 2(1)] show ?thesis using IH [OF 2(2)] by (simp add: quiet_kernel_def)
        qed
      qed
    qed
  qed
  then show "sleep_loop k = Some (Inr k') \<Longrightarrow> kernel_inv b {} k \<Longrightarrow> running k = {} \<Longrightarrow> \<not> halted k \<Longrightarrow> safe b k'" by blast
qed

text \<open>\<^verbatim>\<open>Sleep\<close> of a thread that is in the queue of a semaphore, or has finished.\<close>

lemma Sleep_inv:
  assumes S: "Thread_Sleep k = Some (Inr k')" and h: "\<not> halted k" and r: "running k = {currentThread k}"
    and I: "kernel_inv b {} (upd_thread (currentThread k) (setStatus BLOCKED) k)"
  shows "safe b k'"
proof -
  have "running (upd_thread (currentThread k) (setStatus BLOCKED) k) = {}"
    using r by (auto simp: running_def split: if_splits)
  then show ?thesis using S sleep_loop_inv [OF _ I] h by (auto simp: Thread_Sleep_def split: if_splits)
qed

lemma Finish_tail_inv:
  assumes A: "at_rest b k" and t: "top_frames k = []" and F: "Finish_tail k = Some (Inr k')"
  shows "safe b k'"
proof -
  obtain th where th: "threads k (currentThread k) = Some th" "tstatus th = RUNNING" using at_rest_current [OF A] .
  then have fr: "tview k (currentThread k) = Some (RUNNING, [])" "frames th = []" using t by (simp_all add: top_frames_def tview_def)
  have s: "sched_ok (readyListP k) (squeues k) (threadToBeDestroyed k) (tview k)"
    "b \<longrightarrow> none_lost {} (readyListP k) (squeues k) (tview k)" using A by (simp_all add: at_rest_def kernel_inv_def)
  have "b \<longrightarrow> none_lost {} (readyListP k) (squeues k) ((tview k)(currentThread k \<mapsto> (BLOCKED, [])))"
    using s(2) by (auto simp: none_lost_def)
  then have "kernel_inv b {} (upd_thread (currentThread k) (setStatus BLOCKED) (k\<lparr>threadToBeDestroyed := Some (currentThread k)\<rparr>))"
    using sched_ok_finish [OF s(1) fr(1)] A th(1) fr(2) by (simp add: kernel_inv_def at_rest_def)
  then show ?thesis using Sleep_inv [of "k\<lparr>threadToBeDestroyed := Some (currentThread k)\<rparr>" k' b] F A
    by (simp add: Finish_tail_def at_rest_def)
qed

lemma P_iteration_inv:
  assumes A: "at_rest b k" and P: "P_iteration s old k = Some (Inr k')"
  shows "safe b k'"
proof -
  obtain sem where sem: "semaphores k s = Some sem" using P by (auto simp: P_iteration_def split: sum.splits)
  have A': "kernel_inv b {} k" "running k = {currentThread k}" "\<not> halted k" using A by (simp_all add: at_rest_def)
  show ?thesis
  proof (cases "svalue sem = 0")
    case False
    let ?k = "upd_sem s (\<lambda>sem. sem\<lparr>svalue := svalue sem - 1\<rparr>) k"
    have "at_rest b ?k" using A' by (simp add: at_rest_def upd_sem_value)
    then show ?thesis using P sem False by (auto simp: P_iteration_def leave_inv at_rest_safe)
  next
    case True
    let ?f = "\<lambda>sem. sem\<lparr>squeue := squeue sem @ [currentThread k]\<rparr>" and ?c = "currentThread k"
    let ?k1 = "push [P_loop s old] k"
    let ?k2 = "push [P_loop s old] (upd_sem s ?f k)"
    obtain th where th: "threads k ?c = Some th" "tstatus th = RUNNING" using at_rest_current [OF A] .
    have A1: "at_rest b ?k1" using A by (rule push_inv) (simp_all add: client_only_def)
    have v1: "tview ?k1 = (tview k)(?c \<mapsto> (RUNNING, P_loop s old # frames th))" "squeues ?k1 = squeues k" "readyListP ?k1 = readyListP k"
      "threadToBeDestroyed ?k1 = threadToBeDestroyed k" using th by (simp_all add: push_def)
    have v2: "tview ?k2 = tview ?k1" "squeues ?k2 = (squeues k)(s \<mapsto> squeue sem @ [?c])" "readyListP ?k2 = readyListP k"
      "threadToBeDestroyed ?k2 = threadToBeDestroyed k" "currentThread ?k2 = ?c" "halted ?k2 = halted k" "next_id ?k2 = next_id k"
      using sem by (simp_all add: push_def)
    have S: "Thread_Sleep ?k2 = Some (Inr k')" using P sem True by (simp add: P_iteration_def)
    have c1: "tview ?k1 ?c = Some (RUNNING, P_loop s old # frames th)" "squeues k s = Some (squeue sem)"
      using v1 sem by (simp_all add: squeues_def)
    have s1: "sched_ok (readyListP k) (squeues k) (threadToBeDestroyed k) (tview ?k1)"
      "b \<longrightarrow> none_lost {} (readyListP k) (squeues k) (tview ?k1)" using A1 v1 by (simp_all add: at_rest_def kernel_inv_def)
    let ?T = "(tview ?k1)(?c \<mapsto> (BLOCKED, P_loop s old # frames th))"
    have "sched_ok (readyListP k) ((squeues k)(s \<mapsto> squeue sem @ [?c])) (threadToBeDestroyed k) ?T"
      by (rule sched_ok_block [OF s1(1) c1(1) _ c1(2)]) simp
    moreover have "b \<longrightarrow> none_lost {} (readyListP k) ((squeues k)(s \<mapsto> squeue sem @ [?c])) ?T"
      using s1(2) c1(2) by (auto intro: none_lost_block)
    moreover have "tview (upd_thread ?c (setStatus BLOCKED) ?k2) = ?T" using th by (simp add: v2(1)) (simp add: push_def)
    ultimately have "kernel_inv b {} (upd_thread (currentThread ?k2) (setStatus BLOCKED) ?k2)"
      using A'(1) v2 by (simp add: kernel_inv_def) (simp add: push_def)
    moreover have "running ?k2 = {?c}" using A1 v2(1) by (simp add: at_rest_def running_def) (simp add: push_def)
    ultimately show ?thesis using Sleep_inv [OF S] A'(3) v2(5,6) by simp
  qed
qed

section \<open>Creating objects\<close>

lemma fresh_semaphore:
  assumes I: "kernel_inv b X k"
  shows "kernel_inv b X (k\<lparr>semaphores := (semaphores k)(next_id k \<mapsto> \<lparr>svalue = v, squeue = []\<rparr>), next_id := Suc (next_id k)\<rparr>)"
proof -
  let ?k = "k\<lparr>semaphores := (semaphores k)(next_id k \<mapsto> \<lparr>svalue = v, squeue = []\<rparr>), next_id := Suc (next_id k)\<rparr>"
  have n: "semaphores k (next_id k) = None" using I by (auto simp: kernel_inv_def)
  have q: "squeues ?k = (squeues k)(next_id k \<mapsto> [])" by (simp add: squeues_def fun_eq_iff)
  have "sched_ok (readyListP k) ((squeues k)(next_id k \<mapsto> [])) (threadToBeDestroyed k) (tview k)"
    using I by (auto simp: kernel_inv_def sched_ok_def)
  moreover have "none_lost X (readyListP k) ((squeues k)(next_id k \<mapsto> [])) (tview k)"
    if m: "none_lost X (readyListP k) (squeues k) (tview k)"
  proof -
    have "squeues k (next_id k) = None" using n by (simp add: squeues_def)
    then have "(\<exists>s q. squeues k s = Some q \<and> t \<in> set q) \<Longrightarrow> (\<exists>s q. ((squeues k)(next_id k \<mapsto> [])) s = Some q \<and> t \<in> set q)" for t
      by (metis fun_upd_apply option.distinct(1))
    then show ?thesis using m unfolding none_lost_def by blast
  qed
  ultimately show ?thesis using I q by (auto simp: kernel_inv_def less_Suc_eq)
qed

lemma next_id_inv: "kernel_inv b X k \<Longrightarrow> next_id k \<le> n \<Longrightarrow> kernel_inv b X (k\<lparr>next_id := n\<rparr>)"
  by (auto simp: kernel_inv_def)

lemma Semaphore_new_inv: "Semaphore_new v k = (s, k') \<Longrightarrow> kernel_inv b X k \<Longrightarrow> kernel_inv b X k'"
  using fresh_semaphore by (auto simp: Semaphore_new_def)

lemma Lock_new_inv: "Lock_new junk k = (l, k') \<Longrightarrow> kernel_inv b X k \<Longrightarrow> kernel_inv b X k'"
  by (auto simp: Lock_new_def Let_def split: prod.splits intro!: next_id_inv dest!: Semaphore_new_inv)

lemma Condition_new_inv: "Condition_new l k = (c, k') \<Longrightarrow> kernel_inv b X k \<Longrightarrow> kernel_inv b X k'"
  by (auto simp: Condition_new_def intro!: next_id_inv)

lemma Puerto_new_inv: "Puerto_new k = (p, k') \<Longrightarrow> kernel_inv b X k \<Longrightarrow> kernel_inv b X k'"
  by (auto simp: Puerto_new_def Let_def split: prod.splits intro!: next_id_inv dest!: Lock_new_inv Condition_new_inv)

text \<open>Creating an object leaves the threads alone.\<close>

definition same_threads :: "kernel \<Rightarrow> kernel \<Rightarrow> bool" where
  "same_threads k k' \<longleftrightarrow> threads k' = threads k \<and> currentThread k' = currentThread k \<and> halted k' = halted k
     \<and> readyListP k' = readyListP k \<and> threadToBeDestroyed k' = threadToBeDestroyed k \<and> level k' = level k"

lemma same_threads_refl [simp]: "same_threads k k"
  by (simp add: same_threads_def)

lemma same_threads_new:
  "Semaphore_new v k = (s, k') \<Longrightarrow> same_threads k k'" "Lock_new junk k = (l, k') \<Longrightarrow> same_threads k k'"
  "Condition_new l k = (c, k') \<Longrightarrow> same_threads k k'" "Puerto_new k = (p, k') \<Longrightarrow> same_threads k k'"
  by (auto simp: same_threads_def Semaphore_new_def Lock_new_def Condition_new_def Puerto_new_def Let_def)

lemma same_threads_running: "same_threads k k' \<Longrightarrow> running k' = running k"
  by (simp add: same_threads_def running_def tview_def)

lemma same_threads_at_rest: "same_threads k k' \<Longrightarrow> kernel_inv b {} k' \<Longrightarrow> at_rest b k \<Longrightarrow> at_rest b k'"
  using same_threads_running [of k k'] by (simp add: at_rest_def same_threads_def)

lemmas new_inv = Semaphore_new_inv Lock_new_inv Condition_new_inv Puerto_new_inv

lemma create_thread_inv:
  assumes "create_thread nm junk k = (t, k')" and A: "at_rest b k"
  shows "at_rest b k'"
proof -
  let ?n = "next_id k"
  have k': "k' = k\<lparr>threads := (threads k)(?n \<mapsto> Thread_new nm junk), next_id := Suc ?n\<rparr>" using assms(1) by (auto simp: create_thread_def)
  have n: "threads k ?n = None" using A by (auto simp: at_rest_def kernel_inv_def)
  then have n': "tview k ?n = None" by (simp add: tview_def)
  have v: "tview k' = (tview k)(?n \<mapsto> (JUST_CREATED, []))" "squeues k' = squeues k"
    by (simp_all add: k' tview_def squeues_def Thread_new_def fun_eq_iff)
  have s: "sched_ok (readyListP k) (squeues k) (threadToBeDestroyed k) (tview k)"
    "b \<longrightarrow> none_lost {} (readyListP k) (squeues k) (tview k)" using A by (simp_all add: at_rest_def kernel_inv_def)
  have "sched_ok (readyListP k) (squeues k) (threadToBeDestroyed k) ((tview k)(?n \<mapsto> (JUST_CREATED, [])))"
    using s(1) n' by (fastforce simp: sched_ok_def)
  moreover have "b \<longrightarrow> none_lost {} (readyListP k) (squeues k) ((tview k)(?n \<mapsto> (JUST_CREATED, [])))"
    using s(2) by (auto simp: none_lost_def)
  ultimately have "kernel_inv b {} k'" using A unfolding kernel_inv_def v by (auto simp: k' at_rest_def kernel_inv_def less_Suc_eq)
  moreover have "running k' = running k" unfolding running_def v using n' by auto
  ultimately show ?thesis using A by (simp add: at_rest_def k')
qed

section \<open>The other routines\<close>

lemma Run_after_switch_inv:
  assumes A: "at_rest b k" and R: "Run_after_switch k = Inr k'"
  shows "at_rest b k'"
proof -
  obtain k1 where k1: "(case threadToBeDestroyed k of None \<Rightarrow> Inr k
      | Some d \<Rightarrow> rbind (Thread_delete d k) (\<lambda>k1. Inr (k1\<lparr>threadToBeDestroyed := None\<rparr>))) = Inr k1"
    and r: "rbind (follow (threads k1) (currentThread k1)) (\<lambda>cur. case space cur of None \<Rightarrow> Inr k1
      | Some sp \<Rightarrow> rbind (RestoreUserState (currentThread k1) k1) (\<lambda>k2. Inr (AddrSpace_RestoreState sp k2))) = Inr k'"
    using R unfolding Run_after_switch_def rbind_eq_Inr by blast
  have "at_rest b k' = at_rest b k1"
    using r by (auto simp: rbind_eq_Inr RestoreUserState_def AddrSpace_RestoreState_def split: option.splits)
  moreover have "at_rest b k1"
  proof (cases "threadToBeDestroyed k")
    case None
    then show ?thesis using k1 A by simp
  next
    case (Some d)
    have d: "d \<noteq> currentThread k" "k1 = k\<lparr>threads := (threads k)(d := None), threadToBeDestroyed := None\<rparr>"
      using k1 Some by (auto simp: Thread_delete_def rbind_eq_Inr)
    have v: "tview k1 = (tview k)(d := None)" "squeues k1 = squeues k" by (simp_all add: d(2) tview_def squeues_def fun_eq_iff)
    have s: "sched_ok (readyListP k) (squeues k) (Some d) (tview k)"
      "b \<longrightarrow> none_lost {} (readyListP k) (squeues k) (tview k)" using A Some by (simp_all add: at_rest_def kernel_inv_def)
    have "kernel_inv b {} k1"
      using sched_ok_delete [OF s(1)] s(2) A unfolding kernel_inv_def v
      by (auto simp: d(2) at_rest_def kernel_inv_def none_lost_def)
    moreover have "running k1 = running k"
    proof -
      obtain fs where "tview k d = Some (BLOCKED, fs)" using s(1) by (auto simp: sched_ok_def)
      then show ?thesis unfolding running_def v by auto
    qed
    ultimately show ?thesis using A by (simp add: at_rest_def d(2))
  qed
  ultimately show ?thesis by simp
qed

lemma V_inv: "at_rest b k \<Longrightarrow> Semaphore_V s k = Inr k' \<Longrightarrow> at_rest b k'"
  by (rule V_body_inv [of b k s k']) (auto simp: at_rest_def intro!: leave_inv [unfolded at_rest_def])

text \<open>Moving threads between the ready lists may lose some, but never duplicates one.\<close>

lemma mset_concat_update: "i < length qs \<Longrightarrow> mset (concat (qs[i := q])) + mset (qs ! i) = mset (concat qs) + mset q"
  by (induction qs arbitrary: i) (auto simp: nth_Cons split: nat.splits)

lemma aput_mset:
  assumes "aget qs i = Inr q" and "aput qs i q' = Inr qs'"
  shows "mset (concat qs') + mset q = mset (concat qs) + mset q'" "length qs' = length qs"
  using assms mset_concat_update [of "nat i" qs q'] by (auto simp: aget_def aput_def split: if_splits)

lemma rotate_to_subset:
  assumes "rotate_to th h i prio qs = Some (Inr qs')"
  shows "mset (concat qs') \<subseteq># mset (concat qs) \<and> length qs' = length qs"
proof -
  let ?P = "\<lambda>qs r. \<forall>qs'. r = Inr qs' \<longrightarrow> mset (concat qs') \<subseteq># mset (concat qs) \<and> length qs' = length qs"
  have "?P qs r" if "rotate_to th h i prio qs = Some r" for th h i prio qs r
    using that
  proof (rule rotate_to.raw_induct [rotated])
    fix rec th h i prio qs r
    assume IH: "\<And>th h i prio qs r. rec th h i prio qs = Some r \<Longrightarrow> ?P qs r"
      and step: "(case aget qs i of Inl f \<Rightarrow> Some (Inl f) | Inr q \<Rightarrow> (case q of [] \<Rightarrow> None
         | thread1 # rest \<Rightarrow>
             if thread1 = h then Some (aput qs i rest)
             else if thread1 = th
             then (case rbind (aput qs i rest) (\<lambda>qs1. rbind (aget qs1 prio) (\<lambda>qp. aput qs1 prio (th # qp))) of
                     Inl f \<Rightarrow> Some (Inl f) | Inr qs2 \<Rightarrow> rec th h i prio qs2)
             else (case aput qs i (rest @ [thread1]) of Inl f \<Rightarrow> Some (Inl f)
                   | Inr qs1 \<Rightarrow> rec th h i prio qs1))) = Some r"
    show "?P qs r"
    proof (intro allI impI)
      fix qs' assume r: "r = Inr qs'"
      with step obtain u rest where q: "aget qs i = Inr (u # rest)" by (auto split: sum.splits list.splits)
      consider "u = h" "aput qs i rest = Inr qs'"
        | qs1 qp qs2 where "u = th" "aput qs i rest = Inr qs1" "aget qs1 prio = Inr qp" "aput qs1 prio (th # qp) = Inr qs2" "rec th h i prio qs2 = Some (Inr qs')"
        | qs1 where "aput qs i (rest @ [u]) = Inr qs1" "rec th h i prio qs1 = Some (Inr qs')"
        using step q r by (auto simp: rbind_eq_Inr split: if_splits sum.splits)
      then show "mset (concat qs') \<subseteq># mset (concat qs) \<and> length qs' = length qs"
      proof cases
        case 1
        from aput_mset [OF q 1(2)] have "mset (concat qs) = add_mset u (mset (concat qs'))" "length qs' = length qs" by simp_all
        then show ?thesis by simp
      next
        case 2
        from aput_mset [OF q 2(2)] aput_mset [OF 2(3,4)] 2(1)
        have "mset (concat qs2) = mset (concat qs)" "length qs2 = length qs" by (simp_all add: union_single_eq_member)
        then show ?thesis using IH [OF 2(5)] by simp
      next
        case 3
        from aput_mset [OF q 3(1)] have "mset (concat qs1) = mset (concat qs)" "length qs1 = length qs" by simp_all
        then show ?thesis using IH [OF 3(2)] by simp
      qed
    qed
  qed
  with assms show ?thesis by blast
qed

lemma ChangeQueuePriority_subset:
  assumes "ChangeQueuePriority th prio k = Some (Inr k')"
  obtains qs where "k' = k\<lparr>readyListP := qs\<rparr>" "mset (concat qs) \<subseteq># mset (concat (readyListP k))" "length qs = length (readyListP k)"
proof -
  obtain i u rest where q: "aget (readyListP k) i = Inr (u # rest)"
    and R: "(case (if u = th
        then Some (rbind (aput (readyListP k) i rest) (\<lambda>qs. rbind (aget qs prio) (\<lambda>qp. aput qs prio (th # qp))))
        else (case aput (readyListP k) i (rest @ [u]) of Inl f \<Rightarrow> Some (Inl f) | Inr qs \<Rightarrow> rotate_to th u i prio qs)) of
      None \<Rightarrow> None | Some r \<Rightarrow> Some (rbind r (\<lambda>qs. Inr (k\<lparr>readyListP := qs\<rparr>)))) = Some (Inr k')"
    using assms unfolding ChangeQueuePriority_def
    by (auto simp: rbind_eq_Inr split: sum.splits list.splits)
  show thesis
  proof (cases "u = th")
    case True
    then obtain qs1 qp qs2 where c: "aput (readyListP k) i rest = Inr qs1" "aget qs1 prio = Inr qp" "aput qs1 prio (th # qp) = Inr qs2"
      "k' = k\<lparr>readyListP := qs2\<rparr>" using R by (auto simp: rbind_eq_Inr)
    from aput_mset [OF q c(1)] aput_mset [OF c(2,3)] True
    have "mset (concat qs2) = mset (concat (readyListP k))" "length qs2 = length (readyListP k)" by simp_all
    then show thesis using that [OF c(4)] by simp
  next
    case False
    then obtain qs1 qs2 where c: "aput (readyListP k) i (rest @ [u]) = Inr qs1" "rotate_to th u i prio qs1 = Some (Inr qs2)"
      "k' = k\<lparr>readyListP := qs2\<rparr>" using R by (auto simp: rbind_eq_Inr split: sum.splits option.splits)
    from aput_mset [OF q c(1)] have "mset (concat qs1) = mset (concat (readyListP k))" "length qs1 = length (readyListP k)" by simp_all
    then show thesis using that [OF c(3)] rotate_to_subset [OF c(2)] by simp
  qed
qed

lemma distinct_submset:
  assumes m: "mset xs \<subseteq># mset ys" and d: "distinct ys"
  shows "distinct xs"
proof -
  have "count (mset xs) a = 1" if a: "a \<in> set xs" for a
  proof -
    have "a \<in> set ys" using set_mset_mono [OF m] a by auto
    then have "count (mset ys) a = 1" using d by (simp add: distinct_count_atmost_1)
    moreover have "count (mset xs) a \<noteq> 0" using a by simp
    ultimately show ?thesis using mset_subset_eq_count [OF m, of a] by linarith
  qed
  then show ?thesis by (simp add: distinct_count_atmost_1)
qed

lemma fewer_ready_inv:
  assumes A: "at_rest False k" and m: "mset (concat qs) \<subseteq># mset (concat (readyListP k))" and l: "length qs = length (readyListP k)"
  shows "at_rest False (k\<lparr>readyListP := qs\<rparr>)"
proof -
  have s: "sched_ok (readyListP k) (squeues k) (threadToBeDestroyed k) (tview k)" using A by (simp add: at_rest_def kernel_inv_def)
  have "set (concat qs) \<subseteq> set (concat (readyListP k))" using set_mset_mono [OF m] by simp
  moreover have "distinct (concat qs)"
    using distinct_submset [OF m] s by (simp add: sched_ok_def)
  ultimately have "sched_ok qs (squeues k) (threadToBeDestroyed k) (tview k)"
    using s l unfolding sched_ok_def by (simp del: set_concat) blast
  then show ?thesis using A by (simp add: at_rest_def kernel_inv_def)
qed

lemma upd_thread_inv:
  assumes "\<And>th. tstatus (f th) = tstatus th" and "\<And>th. frames (f th) = frames th"
  shows "at_rest b (upd_thread t f k) = at_rest b k"
proof -
  have "tview (upd_thread t f k) = tview k" using assms by (auto simp: tview_def fun_eq_iff option.map_comp comp_def)
  then show ?thesis by (simp add: at_rest_def kernel_inv_def running_def)
qed

lemma setPriority_inv: "at_rest b (upd_thread t (setPriority p) k) = at_rest b k"
  by (rule upd_thread_inv) (simp_all add: setPriority_def)

lemma upd_obj_inv [simp]:
  "at_rest b (upd_lock l f k) = at_rest b k" "at_rest b (upd_cond c g k) = at_rest b k" "at_rest b (upd_port p h k) = at_rest b k"
  by (simp_all add: upd_lock_def upd_cond_def upd_port_def)

lemma Lock_donate_inv:
  assumes A: "at_rest b k" and D: "Lock_donate l k = Some (Inr k')" and n: "b \<Longrightarrow> \<not> donates l k"
  shows "at_rest b k'"
proof -
  obtain lk where lk: "locks k l = Some lk" using D by (auto simp: Lock_donate_def split: sum.splits)
  show ?thesis
  proof (cases "thname lk")
    case None
    then show ?thesis using A D lk by (simp add: Lock_donate_def)
  next
    case (Some h)
    obtain ht cur where t: "threads k h = Some ht" "threads k (currentThread k) = Some cur"
      using D lk Some by (auto simp: Lock_donate_def rbind_eq_Inr split: sum.splits)
    let ?k1 = "upd_lock l (\<lambda>lk. lk\<lparr>Prioritymax := priority ht\<rparr>) k"
    show ?thesis
    proof (cases "priority ht < priority cur")
      case False
      then have "k' = ?k1" using D lk Some t by (simp add: Lock_donate_def)
      then show ?thesis using A by simp
    next
      case True
      then have "\<not> b" using n lk Some t by (auto simp: donates_def)
      obtain k2 where k2: "ChangeQueuePriority h (priority cur) ?k1 = Some (Inr k2)"
        "k' = upd_lock l (\<lambda>lk. lk\<lparr>Prioritymax := priority cur\<rparr>) (upd_thread h (setPriority (priority cur)) k2)"
        using D lk Some t True by (auto simp: Lock_donate_def rbind_eq_Inr split: option.splits)
      obtain qs where "k2 = ?k1\<lparr>readyListP := qs\<rparr>" "mset (concat qs) \<subseteq># mset (concat (readyListP ?k1))"
        "length qs = length (readyListP ?k1)" using ChangeQueuePriority_subset [OF k2(1)] .
      then have "at_rest False k2" using fewer_ready_inv [of ?k1 qs] A \<open>\<not> b\<close> by simp
      then show ?thesis using k2(2) \<open>\<not> b\<close> by (simp add: setPriority_inv)
    qed
  qed
qed

lemma ready_new_inv:
  assumes A: "at_rest b k" and t: "threads k t = Some th" "tstatus th = JUST_CREATED" and R: "ReadyToRun t k = Inr k'"
  shows "at_rest b k'"
proof -
  have v: "tview k t = Some (JUST_CREATED, frames th)" using t by (simp add: tview_def)
  have s: "sched_ok (readyListP k) (squeues k) (threadToBeDestroyed k) (tview k)" using A by (simp add: at_rest_def kernel_inv_def)
  have u: "unqueued t (readyListP k) (squeues k)" "threadToBeDestroyed k \<noteq> Some t"
    by (rule unqueued_status [OF s v], simp)+
  have "kernel_inv b (insert t {}) k" by (rule kernel_inv_mono [of b "{}"]) (use A in \<open>simp_all add: at_rest_def\<close>)
  note R = ReadyToRun_inv [OF this t(1) u R]
  have "running k' = running k" unfolding running_def R(2) using v by (auto split: if_splits)
  then show ?thesis using A R(1,3) by (auto simp: at_rest_def)
qed

lemma Fork_inv:
  assumes A: "at_rest b k" and t: "threads k t = Some th" "tstatus th = JUST_CREATED" and F: "Thread_Fork t j p k = Inr k'"
  shows "at_rest b k'"
proof -
  let ?k1 = "upd_thread t StackAllocate k"
  let ?k2 = "if \<not> j then let (port, k') = Puerto_new ?k1 in upd_thread t (\<lambda>th. th\<lparr>join_flag := True, portJoin := Some port\<rparr>) k' else ?k1"
  let ?k3 = "ChangeLevel IntOff (upd_thread t (setPriority p) ?k2)"
  have v1: "tview ?k1 = tview (upd_thread t (\<lambda>th. th\<lparr>frames := [ThreadRoot]\<rparr>) k)" by (simp add: StackAllocate_def)
  have "kernel_inv b {} (upd_thread t (\<lambda>th. th\<lparr>frames := [ThreadRoot]\<rparr>) k)"
    "running (upd_thread t (\<lambda>th. th\<lparr>frames := [ThreadRoot]\<rparr>) k) = running k"
    using frames_inv [of b "{}" k t th "\<lambda>_. [ThreadRoot]"] A t by (simp_all add: at_rest_def client_only_def)
  then have A1: "at_rest b ?k1" "threads ?k1 t = Some (StackAllocate th)"
    using A t v1 by (simp_all add: at_rest_def kernel_inv_def running_def)
  have A2: "at_rest b ?k2 \<and> (\<exists>th2. threads ?k2 t = Some th2 \<and> tstatus th2 = JUST_CREATED)"
  proof (cases j)
    case True
    then show ?thesis using A1(1) t by (simp add: StackAllocate_def)
  next
    case False
    obtain port k2 where n: "Puerto_new ?k1 = (port, k2)" by (cases "Puerto_new ?k1")
    have st: "same_threads ?k1 k2" using same_threads_new(4) [OF n] .
    have "at_rest b k2" by (rule same_threads_at_rest [OF st _ A1(1)]) (use Puerto_new_inv [OF n] A1(1) in \<open>simp add: at_rest_def\<close>)
    then have "at_rest b (upd_thread t (\<lambda>th. th\<lparr>join_flag := True, portJoin := Some port\<rparr>) k2)"
      by (subst upd_thread_inv) simp_all
    moreover have "threads k2 t = Some (StackAllocate th)" using st A1(2) by (simp add: same_threads_def)
    moreover have "tstatus (StackAllocate th) = JUST_CREATED" using t(2) by (simp add: StackAllocate_def)
    ultimately show ?thesis using False n by simp
  qed
  then have "at_rest b ?k3" "\<exists>th3. threads ?k3 t = Some th3 \<and> tstatus th3 = JUST_CREATED"
    using setPriority_inv by (auto simp: ChangeLevel_def setPriority_def)
  then obtain th3 where A3: "at_rest b ?k3" "threads ?k3 t = Some th3" "tstatus th3 = JUST_CREATED" by blast
  obtain k4 where k4: "ReadyToRun t ?k3 = Inr k4" "k' = leave (level (upd_thread t (setPriority p) ?k2)) k4"
    using F t(1) by (simp add: Thread_Fork_def Let_def rbind_eq_Inr) blast
  show ?thesis using ready_new_inv [OF A3 k4(1)] k4(2) by (simp add: leave_inv)
qed

section \<open>Every step\<close>

lemma with_lock_Inr: "with_lock c k body = Inr k' \<Longrightarrow> (\<And>cd. conditions k c = Some cd \<Longrightarrow> body cd = Inr k' \<Longrightarrow> P) \<Longrightarrow> P"
  by (auto simp: with_lock_def rbind_eq_Inr)

lemma Wait_inv:
  assumes A: "at_rest b k" and W: "Condition_Wait c k = Inr k'"
  shows "at_rest b k'"
proof -
  obtain s k1 where n: "Semaphore_new 1 k = (s, k1)" by (cases "Semaphore_new 1 k")
  have "at_rest b k1"
    by (rule same_threads_at_rest [OF same_threads_new(1) [OF n] _ A]) (use Semaphore_new_inv [OF n] A in \<open>simp add: at_rest_def\<close>)
  then have "at_rest b (push [CallRelease l, CallP s, CallAcquire l] (upd_cond c (\<lambda>cd. cd\<lparr>semList := semList cd @ [s]\<rparr>) k1))" for l
    by (simp add: push_inv client_only_def)
  then show ?thesis using W n by (auto simp: Condition_Wait_def elim!: with_lock_Inr)
qed

lemma push_only_inv:
  assumes "at_rest b k"
  shows "Thread_Join t k = Inr k' \<Longrightarrow> at_rest b k'" "Lock_Acquire l k = Inr k' \<Longrightarrow> at_rest b k'"
    "Lock_set_owner l k = Inr k' \<Longrightarrow> at_rest b k'" "Lock_Release l k = Inr k' \<Longrightarrow> at_rest b k'"
    "Condition_Signal c k = Inr k' \<Longrightarrow> at_rest b k'" "Broadcast_loop c k = Inr k' \<Longrightarrow> at_rest b k'"
    "Condition_Broadcast c k = Inr k' \<Longrightarrow> at_rest b k'" "Puerto_Send p m k = Inr k' \<Longrightarrow> at_rest b k'"
    "Puerto_Receive p k = Inr k' \<Longrightarrow> at_rest b k'" "Send_loop p m k = Inr k' \<Longrightarrow> at_rest b k'" "Receive_loop p k = Inr k' \<Longrightarrow> at_rest b k'"
proof -
  have P: "at_rest b (push gs k1)" if "at_rest b k1" "frames_ok gs" "FinishTail \<notin> set gs" for gs k1
    using push_inv that by blast
  show "Thread_Join t k = Inr k' \<Longrightarrow> at_rest b k'"
    using assms by (auto simp: Thread_Join_def rbind_eq_Inr client_only_def intro!: P split: if_splits option.splits)
  show "Lock_Acquire l k = Inr k' \<Longrightarrow> at_rest b k'"
    using assms by (auto simp: Lock_Acquire_def rbind_eq_Inr client_only_def intro!: P split: if_splits)
  show "Lock_set_owner l k = Inr k' \<Longrightarrow> at_rest b k'" using assms by (auto simp: Lock_set_owner_def rbind_eq_Inr)
  show "Lock_Release l k = Inr k' \<Longrightarrow> at_rest b k'"
    using assms by (auto simp: Lock_Release_def rbind_eq_Inr client_only_def intro!: P)
  show "Condition_Signal c k = Inr k' \<Longrightarrow> at_rest b k'"
    using assms by (auto simp: Condition_Signal_def client_only_def elim!: with_lock_Inr intro!: P split: list.splits)
  show B: "Broadcast_loop c k = Inr k' \<Longrightarrow> at_rest b k'"
    using assms by (auto simp: Broadcast_loop_def rbind_eq_Inr client_only_def intro!: P split: if_splits)
  then show "Condition_Broadcast c k = Inr k' \<Longrightarrow> at_rest b k'" by (auto simp: Condition_Broadcast_def elim!: with_lock_Inr)
  show "Puerto_Send p m k = Inr k' \<Longrightarrow> at_rest b k'"
    using assms by (auto simp: Puerto_Send_def rbind_eq_Inr client_only_def intro!: P)
  show "Puerto_Receive p k = Inr k' \<Longrightarrow> at_rest b k'"
    using assms by (auto simp: Puerto_Receive_def rbind_eq_Inr client_only_def intro!: P)
  show "Send_loop p m k = Inr k' \<Longrightarrow> at_rest b k'"
    using assms by (auto simp: Send_loop_def rbind_eq_Inr client_only_def intro!: P split: if_splits)
  show "Receive_loop p k = Inr k' \<Longrightarrow> at_rest b k'"
    using assms by (auto simp: Receive_loop_def rbind_eq_Inr client_only_def intro!: P split: if_splits option.splits)
qed

lemma Finish_inv:
  assumes A: "at_rest b k" and t: "top_frames k = []" and F: "Thread_Finish k = Inr k'"
  shows "at_rest b k'"
proof -
  let ?k = "ChangeLevel IntOff k"
  have "at_rest b ?k" "top_frames ?k = []" using A t by (simp_all add: top_frames_def ChangeLevel_def)
  then show ?thesis using F
    by (auto simp: Thread_Finish_def Let_def rbind_eq_Inr client_only_def intro!: push_inv split: if_splits option.splits)
qed

text \<open>What \<open>exec_frame\<close> needs to know of the frame it runs.\<close>

definition frame_ready :: "bool \<Rightarrow> frame \<Rightarrow> kernel \<Rightarrow> bool" where
  "frame_ready b f k = (case f of
     FinishTail \<Rightarrow> top_frames k = [] | CallFinish \<Rightarrow> top_frames k = []
   | CallFork t j p \<Rightarrow> (\<exists>th. threads k t = Some th \<and> tstatus th = JUST_CREATED)
   | Donate l \<Rightarrow> \<not> (b \<and> donates l k) | _ \<Rightarrow> True)"

lemmas call_inv = SetLevel_inv OneTick_inv Yield_inv V_inv Wait_inv Run_after_switch_inv push_only_inv

lemma exec_frame_inv:
  assumes A: "at_rest b k" and r: "frame_ready b f k" and E: "exec_frame f k = Some (Inr k')"
  shows "safe b k'"
proof (cases f)
  case (P_loop s old)
  then show ?thesis using A E P_iteration_inv by (simp add: exec_frame_def)
next
  case (CallP s)
  then show ?thesis using A E P_iteration_inv [of b "ChangeLevel IntOff k" s "level k" k'] by (simp add: exec_frame_def Semaphore_P_def)
next
  case FinishTail
  then show ?thesis using A E r Finish_tail_inv by (simp add: exec_frame_def frame_ready_def)
next
  case (CallFork t j p)
  then show ?thesis using A E r Fork_inv at_rest_safe by (auto simp: exec_frame_def frame_ready_def)
next
  case (Donate l)
  then show ?thesis using A E r Lock_donate_inv at_rest_safe by (auto simp: exec_frame_def frame_ready_def)
next
  case (RestoreStatus st)
  then show ?thesis using A E by (auto simp: exec_frame_def intro: at_rest_safe)
next
  case CallFinish
  then show ?thesis using E r Finish_inv [OF A] by (simp add: exec_frame_def at_rest_safe frame_ready_def)
qed (use E in \<open>auto simp: exec_frame_def Enable_def intro!: at_rest_safe dest: call_inv [OF A]\<close>)

lemma pop_inv:
  assumes A: "at_rest b k"
  shows "at_rest b (pop_frame k)"
  unfolding pop_frame_def
  by (rule current_frames_inv [OF A]) (use at_rest_frames_ok [OF A] frames_ok.elims in \<open>fastforce\<close>)

lemma pop_simps [simp]:
  "currentThread (pop_frame k) = currentThread k" "locks (pop_frame k) = locks k" "semaphores (pop_frame k) = semaphores k"
  "conditions (pop_frame k) = conditions k" "ports (pop_frame k) = ports k" "next_id (pop_frame k) = next_id k"
  "halted (pop_frame k) = halted k" "pending (pop_frame k) = pending k" "threadToBeDestroyed (pop_frame k) = threadToBeDestroyed k"
  by (simp_all add: pop_frame_def)

lemma pop_priority: "map_option priority (threads (pop_frame k) t) = map_option priority (threads k t)"
  by (simp add: pop_frame_def option.map_comp comp_def)

lemma pop_donates: "donates l (pop_frame k) = donates l k"
  using pop_priority [of k]
  by (auto simp: donates_def pop_frame_def split: option.splits bind_splits)

lemma top_frames_pop: "top_frames k = f # fs \<Longrightarrow> top_frames (pop_frame k) = fs"
  by (simp add: top_frames_def pop_frame_def split: option.splits)

lemma top_frames_thread: "top_frames k = f # fs \<Longrightarrow> \<exists>th. threads k (currentThread k) = Some th \<and> frames th = f # fs"
  by (simp add: top_frames_def split: option.splits)

lemma popped_ready:
  assumes A: "at_rest b k" and t: "top_frames k = f # fs" and d: "\<And>l. b \<Longrightarrow> f = Donate l \<Longrightarrow> \<not> donates l k"
  shows "frame_ready b f (pop_frame k)"
proof -
  have "frames_ok (f # fs)" using at_rest_frames_ok [OF A] top_frames_thread [OF t] by metis
  then show ?thesis using d top_frames_pop [OF t] by (auto simp: frame_ready_def client_only_def pop_donates split: frame.splits)
qed

theorem step_inv:
  assumes S: "safe b k" and st: "kernel_step k k'" and d: "\<And>l fs. b \<Longrightarrow> top_frames k = Donate l # fs \<Longrightarrow> \<not> donates l k"
  shows "safe b k'"
  using st
proof cases
  case (exec f fs)
  then have A: "at_rest b k" using S by (simp add: safe_at_rest)
  have "frame_ready b f (pop_frame k)" using popped_ready [OF A exec(2)] d exec(2) by blast
  then show ?thesis using exec_frame_inv [OF pop_inv [OF A]] exec(3) by blast
next
  case (client f)
  then have A: "at_rest b k" using S by (simp add: safe_at_rest)
  have "frame_ready b f k" using client(2,3) by (auto simp: frame_ready_def client_call_def split: frame.splits option.splits)
  then show ?thesis using exec_frame_inv [OF A] client(4) by blast
next
  case (new_thread nm junk t)
  then show ?thesis using S create_thread_inv at_rest_safe by (auto simp: safe_at_rest)
next
  case (new_semaphore v s)
  then show ?thesis using S same_threads_at_rest [OF same_threads_new(1)] Semaphore_new_inv at_rest_safe
    by (auto simp: safe_at_rest at_rest_def)
next
  case (new_lock junk l)
  then show ?thesis using S same_threads_at_rest [OF same_threads_new(2)] Lock_new_inv at_rest_safe
    by (auto simp: safe_at_rest at_rest_def)
next
  case (new_condition l c)
  then show ?thesis using S same_threads_at_rest [OF same_threads_new(3)] Condition_new_inv at_rest_safe
    by (auto simp: safe_at_rest at_rest_def)
next
  case (new_port p)
  then show ?thesis using S same_threads_at_rest [OF same_threads_new(4)] Puerto_new_inv at_rest_safe
    by (auto simp: safe_at_rest at_rest_def)
next
  case (start_device s n ty)
  then show ?thesis using S by (auto simp: Schedule_def Let_def safe_def)
qed

lemma boot_fields:
  "readyListP (boot_kernel m junk r rnd) = [[], [], []]" "threadToBeDestroyed (boot_kernel m junk r rnd) = None"
  "threads (boot_kernel m junk r rnd) = [0 \<mapsto> (setStatus RUNNING (Thread_new ''main'' junk))\<lparr>frames := [RestoreLevel IntOn]\<rparr>]"
  "semaphores (boot_kernel m junk r rnd) = Map.empty" "locks (boot_kernel m junk r rnd) = Map.empty" "conditions (boot_kernel m junk r rnd) = Map.empty"
  "ports (boot_kernel m junk r rnd) = Map.empty" "next_id (boot_kernel m junk r rnd) = 1"
  "currentThread (boot_kernel m junk r rnd) = 0" "halted (boot_kernel m junk r rnd) = False" "handlers (boot_kernel m junk r rnd) \<subseteq> {TimerDevice r}"
  by (simp_all add: boot_kernel_def Let_def Timer_new_def Schedule_def Scheduler_new_def MaxPriority_def handlers_def
      PendingInterrupt_new_def numeral_3_eq_3 TimeOfNextInterrupt_pos)

lemma boot_safe: "safe b (boot_kernel m junk r rnd)"
proof -
  have v: "tview (boot_kernel m junk r rnd) = [0 \<mapsto> (RUNNING, [RestoreLevel IntOn])]" "squeues (boot_kernel m junk r rnd) = Map.empty"
    by (simp_all add: tview_def squeues_def fun_eq_iff boot_fields Thread_new_def)
  have "sched_ok [[], [], []] Map.empty None [0 \<mapsto> (RUNNING, [RestoreLevel IntOn])]"
    "none_lost {} [[], [], []] Map.empty [0 \<mapsto> (RUNNING, [RestoreLevel IntOn])]"
    by (auto simp: sched_ok_def none_lost_def client_only_def)
  then show ?thesis by (auto simp: safe_def kernel_inv_def running_def v boot_fields split: if_splits)
qed

lemma reachable_safe: "reachable b k \<Longrightarrow> safe b k"
  by (induction rule: reachable.induct) (use boot_safe step_inv in blast)+

lemma reachable_weaken: "reachable b k \<Longrightarrow> reachable False k"
  by (induction rule: reachable.induct) (auto intro: reachable.intros)

section \<open>Running a list of steps\<close>

declare fire_due.simps [code] sleep_loop.simps [code] rotate_to.simps [code]

datatype action = Exec | Client frame | NewThread string | NewSemaphore int | NewLock | NewCondition lid | NewPort

definition result :: "kernel res option \<Rightarrow> kernel option" where
  "result r = (case r of Some (Inr k) \<Rightarrow> Some k | _ \<Rightarrow> None)"

definition act :: "bool \<Rightarrow> action \<Rightarrow> kernel \<Rightarrow> kernel option" where
  "act b a k =
     (if halted k then None
      else case (top_frames k, a) of
        (f # fs, Exec) \<Rightarrow> if b \<and> (case f of Donate l \<Rightarrow> donates l k | _ \<Rightarrow> False) then None else result (exec_frame f (pop_frame k))
      | ([], Client f) \<Rightarrow> if client_call k f then result (exec_frame f k) else None
      | ([], NewThread nm) \<Rightarrow> Some (snd (create_thread nm [] k))
      | ([], NewSemaphore v) \<Rightarrow> if 0 \<le> v then Some (snd (Semaphore_new v k)) else None
      | ([], NewLock) \<Rightarrow> Some (snd (Lock_new 0 k))
      | ([], NewCondition l) \<Rightarrow> if locks k l \<noteq> None then Some (snd (Condition_new l k)) else None
      | ([], NewPort) \<Rightarrow> Some (snd (Puerto_new k))
      | _ \<Rightarrow> None)"

fun acts :: "bool \<Rightarrow> action list \<Rightarrow> kernel \<Rightarrow> kernel option" where
  "acts b [] k = Some k"
| "acts b (a # as) k = (case act b a k of None \<Rightarrow> None | Some k' \<Rightarrow> acts b as k')"

lemma result_Some [simp]: "result r = Some k \<longleftrightarrow> r = Some (Inr k)"
  by (auto simp: result_def split: option.splits sum.splits)

lemma act_step:
  assumes A: "act b a k = Some k'"
  shows "kernel_step k k'"
proof (cases "top_frames k")
  case (Cons f fs)
  then have E: "\<not> halted k" "exec_frame f (pop_frame k) = Some (Inr k')"
    using A by (auto simp: act_def split: if_splits action.splits)
  show ?thesis by (rule kernel_step.exec [OF E(1) Cons E(2)])
next
  case Nil
  show ?thesis
  proof (cases a)
    case (Client f)
    then have "\<not> halted k" "client_call k f" "exec_frame f k = Some (Inr k')"
      using A Nil by (auto simp: act_def split: if_splits)
    then show ?thesis using Nil kernel_step.client by blast
  next
    case (NewThread nm)
    then show ?thesis using A Nil kernel_step.new_thread [of k nm "[]"] by (auto simp: act_def prod_eq_iff split: if_splits)
  next
    case (NewSemaphore v)
    then show ?thesis using A Nil kernel_step.new_semaphore [of k v] by (auto simp: act_def prod_eq_iff split: if_splits)
  next
    case NewLock
    then show ?thesis using A Nil kernel_step.new_lock [of k 0] by (auto simp: act_def prod_eq_iff split: if_splits)
  next
    case (NewCondition l)
    then show ?thesis using A Nil kernel_step.new_condition [of k l] by (auto simp: act_def prod_eq_iff split: if_splits)
  next
    case NewPort
    then show ?thesis using A Nil kernel_step.new_port [of k] by (auto simp: act_def prod_eq_iff split: if_splits)
  qed (use A Nil in \<open>simp add: act_def split: if_splits\<close>)
qed

lemma act_reachable:
  assumes R: "reachable b k" and A: "act b a k = Some k'"
  shows "reachable b k'"
proof (rule reachable.step [OF R act_step [OF A]])
  fix l fs assume "b" "top_frames k = Donate l # fs"
  then show "\<not> donates l k" using A by (auto simp: act_def split: if_splits action.splits)
qed

lemma acts_reachable: "reachable b k \<Longrightarrow> acts b as k = Some k' \<Longrightarrow> reachable b k'"
  by (induction b as k rule: acts.induct) (auto intro: act_reachable split: option.splits)

lemma boot_acts: "acts b as (boot_kernel m junk r rnd) = Some k \<Longrightarrow> reachable b k"
  using acts_reachable reachable.boot by blast

text \<open>The main thread sleeps in \<^verbatim>\<open>P\<close> on semaphore 1, thread 2 runs and thread 3 is ready.\<close>

definition sleeping_steps :: "action list" where
  "sleeping_steps = [Exec, NewSemaphore 0, NewThread ''a'', NewThread ''b'', Client (CallFork 2 True 1), Exec,
     Client (CallFork 3 True 0), Exec, Client (CallP 1), Exec]"

lemma sleeping_run:
  obtains k th where "reachable True k" "currentThread k = 2" "readyListP k = [[3], [], []]" "\<not> halted k"
    "semaphores k 1 = Some \<lparr>svalue = 0, squeue = [0]\<rparr>" "threads k 0 = Some th" "tstatus th = BLOCKED"
proof -
  have "map_option (\<lambda>k. (currentThread k, readyListP k, halted k, map_option (\<lambda>sem. (svalue sem, squeue sem)) (semaphores k 1),
      map_option tstatus (threads k 0))) (acts True sleeping_steps (boot_kernel m junk False (\<lambda>_. 0)))
      = Some (2, [[3], [], []], False, Some (0, [0]), Some BLOCKED)" for m :: "unit Machine" and junk :: "32 word list"
    by code_simp
  then obtain k where k: "acts True sleeping_steps (boot_kernel undefined [] False (\<lambda>_. 0)) = Some k" "currentThread k = 2"
    "readyListP k = [[3], [], []]" "\<not> halted k" "map_option (\<lambda>sem. (svalue sem, squeue sem)) (semaphores k 1) = Some (0, [0])"
    "map_option tstatus (threads k 0) = Some BLOCKED" by fastforce
  show thesis using that [OF boot_acts [OF k(1)] k(2-4)] k(5,6) by auto
qed

section \<open>Properties\<close>

text \<open>
  C3. In every reachable state of the thread system, whatever the interleaving of yields, interrupts,
  sleeps and wake-ups: unless the machine has halted the current thread is the one and only running
  thread; no thread is twice in the ready lists and all those in them are ready; and the threads in the
  queue of a semaphore are distinct and blocked in \<^verbatim>\<open>P\<close> on that very semaphore.
\<close>

theorem threads_consistent:
  assumes "reachable b k"
  shows "(\<not> halted k \<longrightarrow> {t. \<exists>th. threads k t = Some th \<and> tstatus th = RUNNING} = {currentThread k})
    \<and> distinct (concat (readyListP k))
    \<and> (\<forall>t \<in> set (concat (readyListP k)). \<exists>th. threads k t = Some th \<and> tstatus th = READY)
    \<and> (\<forall>s sem. semaphores k s = Some sem \<longrightarrow> distinct (squeue sem)
        \<and> (\<forall>t \<in> set (squeue sem). \<exists>th. threads k t = Some th \<and> tstatus th = BLOCKED \<and> waiting_for (frames th) = Some s))"
proof -
  have S: "sched_ok (readyListP k) (squeues k) (threadToBeDestroyed k) (tview k)" and "running k = (if halted k then {} else {currentThread k})"
    using reachable_safe [OF assms] by (simp_all add: safe_def kernel_inv_def)
  moreover have "running k = {t. \<exists>th. threads k t = Some th \<and> tstatus th = RUNNING}" by (auto simp: running_def tview_def)
  moreover have "\<exists>th. threads k t = Some th \<and> tstatus th = READY" if "t \<in> set (concat (readyListP k))" for t
    using S that unfolding sched_ok_def by (metis tview_SomeE)
  moreover have "distinct (squeue sem) \<and> (\<forall>t \<in> set (squeue sem). \<exists>th. threads k t = Some th \<and> tstatus th = BLOCKED \<and> waiting_for (frames th) = Some s)"
    if "semaphores k s = Some sem" for s sem
  proof -
    have "squeues k s = Some (squeue sem)" using that by (simp add: squeues_def)
    then show ?thesis using S unfolding sched_ok_def by (metis tview_SomeE)
  qed
  ultimately show ?thesis unfolding sched_ok_def by simp
qed

theorem threads_consistent_witness:
  "\<exists>k th. reachable True k \<and> currentThread k = 2 \<and> {t. \<exists>th. threads k t = Some th \<and> tstatus th = RUNNING} = {2}
    \<and> threads k 0 = Some th \<and> tstatus th = BLOCKED \<and> waiting_for (frames th) = Some 1"
proof -
  obtain k th where k: "reachable True k" "currentThread k = 2" "\<not> halted k" "semaphores k 1 = Some \<lparr>svalue = 0, squeue = [0]\<rparr>"
    "threads k 0 = Some th" using sleeping_run by metis
  from threads_consistent [OF k(1)] have "{t. \<exists>th. threads k t = Some th \<and> tstatus th = RUNNING} = {2}"
    "\<forall>t \<in> set [0]. \<exists>th. threads k t = Some th \<and> tstatus th = BLOCKED \<and> waiting_for (frames th) = Some 1"
    using k(2-4) by auto
  then show ?thesis using k by auto
qed

text \<open>
  C30. As long as no priority is donated, no thread is lost: a ready thread is in a ready list, where the
  scheduler will find it, and a blocked thread is in the queue of a semaphore, where a \<^verbatim>\<open>V\<close> will find it,
  unless it has finished.
\<close>

theorem no_thread_lost:
  assumes "reachable True k" and "threads k t = Some th"
  shows "(tstatus th = READY \<longrightarrow> t \<in> set (ready_order k))
    \<and> (tstatus th = BLOCKED \<longrightarrow> (\<exists>s sem. semaphores k s = Some sem \<and> t \<in> set (squeue sem)) \<or> set (frames th) \<subseteq> {AfterSwitch})"
proof -
  have n: "none_lost {} (readyListP k) (squeues k) (tview k)" using reachable_safe [OF assms(1)] by (simp add: safe_def kernel_inv_def)
  have t: "tview k t = Some (tstatus th, frames th)" using assms(2) by (rule tview_Some)
  have "set (concat (readyListP k)) = set (ready_order k)" by (auto simp: ready_order_def)
  moreover have "\<exists>s sem. semaphores k s = Some sem \<and> t \<in> set (squeue sem)" if "squeues k s = Some q" "t \<in> set q" for s q
    using that by (auto simp: squeues_def)
  ultimately show ?thesis using n t unfolding none_lost_def by (metis empty_iff)
qed

theorem no_thread_lost_witness:
  "\<exists>k th s sem. reachable True k \<and> threads k 0 = Some th \<and> tstatus th = BLOCKED
    \<and> (semaphores k s = Some sem \<and> 0 \<in> set (squeue sem) \<or> set (frames th) \<subseteq> {AfterSwitch})"
proof -
  obtain k th where k: "reachable True k" "threads k 0 = Some th" "tstatus th = BLOCKED" using sleeping_run by metis
  with no_thread_lost [OF k(1,2)] show ?thesis by blast
qed

text \<open>
  Deleting a finished thread is safe: when a thread comes back from \<open>Run\<close> and finds a thread to be
  destroyed, that thread exists, is not the current one (so the assertion in its destructor holds), is
  blocked, and no ready list and no semaphore refers to it.
\<close>

theorem delete_finished:
  assumes R: "reachable b k" and h: "\<not> halted k" and d: "threadToBeDestroyed k = Some d"
  shows "Thread_delete d k = Inr (k\<lparr>threads := (threads k)(d := None)\<rparr>) \<and> d \<notin> set (ready_order k)
    \<and> (\<forall>s sem. semaphores k s = Some sem \<longrightarrow> d \<notin> set (squeue sem))"
proof -
  have S: "sched_ok (readyListP k) (squeues k) (Some d) (tview k)" and r: "running k = {currentThread k}"
    using reachable_safe [OF R] h d by (simp_all add: safe_def kernel_inv_def)
  then obtain fs where fs: "tview k d = Some (BLOCKED, fs)" "set fs \<subseteq> {AfterSwitch}" by (auto simp: sched_ok_def)
  then obtain th where th: "threads k d = Some th" by (auto elim!: tview_SomeE)
  have "\<exists>gs. tview k (currentThread k) = Some (RUNNING, gs)" using r unfolding running_def by blast
  then have "d \<noteq> currentThread k" using fs(1) by auto
  moreover have "d \<notin> set (concat (readyListP k))" using S fs(1) unfolding sched_ok_def by force
  moreover have "d \<notin> set q" if "squeues k s = Some q" for s q
    using S that fs waiting_for_finished [OF fs(2)] unfolding sched_ok_def by fastforce
  ultimately show ?thesis using th by (auto simp: Thread_delete_def ready_order_def squeues_def)
qed

text \<open>Thread 1 has finished; the main thread has been switched to.\<close>

definition finishing_steps :: "action list" where
  "finishing_steps = [Exec, NewThread ''a'', Client (CallFork 1 True 0), Exec, Client CallYield, Exec, Client CallFinish, Exec]"

theorem delete_finished_witness:
  "\<exists>k. reachable True k \<and> threadToBeDestroyed k = Some 1 \<and> Thread_delete 1 k = Inr (k\<lparr>threads := (threads k)(1 := None)\<rparr>)"
proof -
  have "map_option (\<lambda>k. (halted k, threadToBeDestroyed k)) (acts True finishing_steps (boot_kernel m junk False (\<lambda>_. 0)))
      = Some (False, Some 1)" for m :: "unit Machine" and junk :: "32 word list"
    by code_simp
  then obtain k where k: "acts True finishing_steps (boot_kernel undefined [] False (\<lambda>_. 0)) = Some k" "\<not> halted k"
    "threadToBeDestroyed k = Some 1" by fastforce
  from delete_finished [OF boot_acts [OF k(1)] k(2,3)] show ?thesis using boot_acts [OF k(1)] k(3) by blast
qed

end
