(* ===== verification/Kernel_Quiet.thy ===== *)
theory Kernel_Quiet
  imports Kernel_Safety
begin

text \<open>
  What a switch of threads and a clock tick leave alone, as an interface: a relation between kernel states that
  holds for the elementary changes the scheduler makes holds for all of \<^verbatim>\<open>ReadyToRun\<close>, \<^verbatim>\<open>FindNextToRun\<close>, \<^verbatim>\<open>Run\<close> and \<^verbatim>\<open>Yield\<close>;
  when interrupts respect it too, it holds for \<^verbatim>\<open>OneTick\<close>, \<^verbatim>\<open>SetLevel\<close> and \<^verbatim>\<open>Sleep\<close>. The memory of the machine, the
  tokens of the locks and the work of the threads are such relations.
\<close>

text \<open>The frames that a switch or an interrupt leaves on the stack of a thread.\<close>

definition resume_frame :: "frame \<Rightarrow> bool" where
  "resume_frame f = (case f of AfterSwitch \<Rightarrow> True | RestoreLevel l \<Rightarrow> True | RestoreStatus st \<Rightarrow> True | _ \<Rightarrow> False)"

lemma resume_frame_simps [simp]: "resume_frame AfterSwitch" "resume_frame (RestoreLevel l)" "resume_frame (RestoreStatus st)"
  by (simp_all add: resume_frame_def)

text \<open>A successful \<^verbatim>\<open>Signal\<close> does nothing, or takes a semaphore off the list and calls its \<^verbatim>\<open>V\<close>.\<close>

lemma Signal_cases:
  assumes "Condition_Signal c k = Inr k'"
  obtains "k' = k" | s ss where "k' = push [CallV s] (upd_cond c (\<lambda>cd. cd\<lparr>semList := ss\<rparr>) k)"
proof -
  obtain cd :: Condition where "(case semList cd of [] \<Rightarrow> Inr k
     | s # ss \<Rightarrow> Inr (push [CallV s] (upd_cond c (\<lambda>cd. cd\<lparr>semList := ss\<rparr>) k))) = (Inr k' :: kernel res)"
    using assms by (auto simp: Condition_Signal_def with_lock_def rbind_eq_Inr)
  then show thesis using that by (cases "semList cd") auto
qed

locale scheduling =
  fixes Q :: "kernel \<Rightarrow> kernel \<Rightarrow> bool"
  assumes Q_refl: "Q k k"
    and Q_trans: "Q k k1 \<Longrightarrow> Q k1 k2 \<Longrightarrow> Q k k2"
    and Q_thread: "(\<And>th. frames (f th) = frames th) \<Longrightarrow> Q k (upd_thread t f k)"
    and Q_push: "\<forall>f \<in> set fs. resume_frame f \<Longrightarrow> Q k (push fs k)"
    and Q_level: "Q k (ChangeLevel l k)"
    and Q_ready: "Q k (k\<lparr>readyListP := rl\<rparr>)"
    and Q_current: "Q k (k\<lparr>currentThread := c\<rparr>)"
    and Q_prioritymax: "Q k (upd_lock lo (\<lambda>lk. lk\<lparr>Prioritymax := p\<rparr>) k)"
begin

lemma leave_Q: "Q k (leave old k)"
  by (auto simp: leave_def intro: Q_push Q_level)

lemma ReadyToRun_Q:
  assumes "ReadyToRun t k = Inr k'"
  shows "Q k k'"
proof -
  obtain rl where "k' = (upd_thread t (setStatus READY) k)\<lparr>readyListP := rl\<rparr>"
    using assms by (auto simp: ReadyToRun_def Let_def rbind_eq_Inr)
  then show ?thesis using Q_trans [OF Q_thread Q_ready] by simp
qed

lemma FindNextToRun_Q:
  assumes "FindNextToRun k = Inr (n, k')"
  shows "Q k k'"
proof -
  obtain p q where "(case q of [] \<Rightarrow> Inr (None, k) | t # ts \<Rightarrow> Inr (Some t, k\<lparr>readyListP := (readyListP k)[p := ts]\<rparr>)) = (Inr (n, k') :: (tid option \<times> kernel) res)"
    using assms unfolding FindNextToRun_def rbind_eq_Inr by blast
  then show ?thesis using Q_refl Q_ready by (cases q) auto
qed

lemma Run_Q:
  assumes "Run t k = Inr k'"
  shows "Q k k'"
proof -
  obtain old k1 where "threads k (currentThread k) = Some old" and k1: "(if space old \<noteq> None then SaveUserState (currentThread k) k else Inr k) = Inr k1"
    and R: "k' = upd_thread t (setStatus RUNNING) ((push [AfterSwitch] k1)\<lparr>currentThread := t\<rparr>)"
    using assms by (auto simp: Run_def Let_def rbind_eq_Inr)
  have "Q k k1" using k1 by (auto simp: SaveUserState_def rbind_eq_Inr Q_refl intro: Q_thread split: if_splits)
  moreover have "Q k1 (push [AfterSwitch] k1)" by (rule Q_push) simp
  moreover have "Q ((push [AfterSwitch] k1)\<lparr>currentThread := t\<rparr>) k'" unfolding R by (rule Q_thread) simp
  ultimately show ?thesis using Q_trans Q_current by blast
qed

lemma Yield_Q:
  assumes "Thread_Yield k = Inr k'"
  shows "Q k k'"
proof -
  let ?k = "ChangeLevel IntOff k" and ?p = "push [RestoreLevel (level k)]"
  obtain n k2 where F: "FindNextToRun ?k = Inr (n, k2)"
    and c: "(case n of None \<Rightarrow> Inr (?p k2) | Some t \<Rightarrow> rbind (ReadyToRun (currentThread k2) k2) (\<lambda>k3. Run t (?p k3))) = Inr k'"
    using assms by (auto simp: Thread_Yield_def Let_def rbind_eq_Inr)
  have P: "Q k1 (?p k1)" for k1 by (rule Q_push) simp
  have Q2: "Q k k2" using Q_trans [OF Q_level FindNextToRun_Q [OF F]] .
  show ?thesis
  proof (cases n)
    case None
    then show ?thesis using c Q_trans [OF Q2 P] by simp
  next
    case (Some t)
    then obtain k3 where k3: "ReadyToRun (currentThread k2) k2 = Inr k3" "Run t (?p k3) = Inr k'" using c by (auto simp: rbind_eq_Inr)
    show ?thesis using Q_trans [OF Q2 Q_trans [OF ReadyToRun_Q [OF k3(1)] Q_trans [OF P Run_Q [OF k3(2)]]]] .
  qed
qed

lemma donate_Q:
  assumes D: "Lock_donate l k = Some (Inr k')"
  shows "Q k k'"
proof -
  obtain lk where lk: "locks k l = Some lk" using D by (auto simp: Lock_donate_def split: sum.splits)
  show ?thesis
  proof (cases "thname lk")
    case None
    then show ?thesis using D lk Q_refl by (simp add: Lock_donate_def)
  next
    case (Some h)
    obtain ht cur where t: "threads k h = Some ht" "threads k (currentThread k) = Some cur"
      using D lk Some by (auto simp: Lock_donate_def rbind_eq_Inr split: sum.splits)
    let ?k1 = "upd_lock l (\<lambda>lk. lk\<lparr>Prioritymax := priority ht\<rparr>) k"
    show ?thesis
    proof (cases "priority ht < priority cur")
      case False
      then have "k' = ?k1" using D lk Some t by (simp add: Lock_donate_def)
      then show ?thesis using Q_prioritymax by simp
    next
      case True
      obtain k2 where k2: "ChangeQueuePriority h (priority cur) ?k1 = Some (Inr k2)"
        "k' = upd_lock l (\<lambda>lk. lk\<lparr>Prioritymax := priority cur\<rparr>) (upd_thread h (setPriority (priority cur)) k2)"
        using D lk Some t True by (auto simp: Lock_donate_def rbind_eq_Inr split: option.splits)
      obtain qs where "k2 = ?k1\<lparr>readyListP := qs\<rparr>" using ChangeQueuePriority_subset [OF k2(1)] by blast
      then have "Q k k2" using Q_trans [OF Q_prioritymax Q_ready] by simp
      moreover have "Q k2 (upd_thread h (setPriority (priority cur)) k2)" by (rule Q_thread) (simp add: setPriority_def)
      ultimately show ?thesis using Q_trans Q_prioritymax unfolding k2(2) by blast
    qed
  qed
qed

end

text \<open>With interrupts.\<close>

locale interruptible = scheduling +
  assumes interrupts: "interrupt_invariant device_call delayed_load (Q k)"
    and Q_yieldOnReturn: "Q k (k\<lparr>yieldOnReturn := False, istatus := ms\<rparr>)"
    and Q_halted: "Q k (k\<lparr>halted := True\<rparr>)"
begin

lemma OneTick_Q:
  assumes "OneTick k = Some (Inr k')"
  shows "Q k k'"
proof -
  obtain k1 where k1: "tick device_call delayed_load k = Some (Inr k1)"
    and c: "(if yieldOnReturn k1
      then Thread_Yield (push [RestoreStatus (istatus k)] (k1\<lparr>yieldOnReturn := False, istatus := SystemMode\<rparr>)) else Inr k1) = Inr k'"
    using assms by (auto simp: OneTick_def rbind_eq_Inr split: option.splits)
  let ?k1 = "k1\<lparr>yieldOnReturn := False, istatus := SystemMode\<rparr>" and ?p = "push [RestoreStatus (istatus k)]"
  have K1: "Q k k1" by (rule interrupt_invariant.tick_holds [OF interrupts Q_refl k1])
  show ?thesis
  proof (cases "yieldOnReturn k1")
    case True
    then have Y: "Thread_Yield (?p ?k1) = Inr k'" using c by simp
    have P: "Q ?k1 (?p ?k1)" by (rule Q_push) simp
    show ?thesis using Q_trans [OF K1 Q_trans [OF Q_yieldOnReturn Q_trans [OF P Yield_Q [OF Y]]]] .
  qed (use c K1 in simp)
qed

lemma SetLevel_Q: "SetLevel l k = Some (Inr k') \<Longrightarrow> Q k k'"
  using Q_trans [OF Q_level OneTick_Q] Q_level by (fastforce simp: SetLevel_def split: if_splits)

lemma sleep_loop_Q: "sleep_loop k = Some (Inr k') \<Longrightarrow> Q k k'"
proof -
  have "\<forall>k'. r = Inr k' \<longrightarrow> Q k k'" if "sleep_loop k = Some r" for k r
    using that
  proof (rule sleep_loop.raw_induct [rotated])
    fix rec k r
    assume IH: "\<And>k r. rec k = Some r \<Longrightarrow> \<forall>k'. r = Inr k' \<longrightarrow> Q k k'"
      and step: "(case FindNextToRun k of Inl f \<Rightarrow> Some (Inl f)
        | Inr (Some nextThread, k1) \<Rightarrow> Some (Run nextThread k1)
        | Inr (None, k1) \<Rightarrow> (case Idle device_call delayed_load k1 of None \<Rightarrow> None
             | Some (Inl f) \<Rightarrow> Some (Inl f)
             | Some (Inr None) \<Rightarrow> Some (Inr (k1\<lparr>halted := True\<rparr>))
             | Some (Inr (Some k2)) \<Rightarrow> rec k2)) = Some r"
    show "\<forall>k'. r = Inr k' \<longrightarrow> Q k k'"
    proof (intro impI allI)
      fix k' assume r: "r = Inr k'"
      from step r obtain n k1 where F: "FindNextToRun k = Inr (n, k1)" by (auto split: sum.splits)
      note K1 = FindNextToRun_Q [OF F]
      consider t where "Run t k1 = Inr k'" | "k' = k1\<lparr>halted := True\<rparr>"
        | k2 where "Idle device_call delayed_load k1 = Some (Inr (Some k2))" "rec k2 = Some (Inr k')"
        using step r F by (auto split: option.splits sum.splits)
      then show "Q k k'"
      proof cases
        case 1
        then show ?thesis using Q_trans [OF K1 Run_Q] by blast
      next
        case 2
        then show ?thesis using Q_trans [OF K1 Q_halted] by simp
      next
        case 3
        from interrupt_invariant.Idle_holds [OF interrupts K1 3(1)] show ?thesis using IH [OF 3(2)] Q_trans by blast
      qed
    qed
  qed
  then show "sleep_loop k = Some (Inr k') \<Longrightarrow> Q k k'" by blast
qed

lemma Sleep_Q:
  assumes "Thread_Sleep k = Some (Inr k')"
  shows "Q k k'"
proof -
  let ?k = "upd_thread (currentThread k) (setStatus BLOCKED) k"
  have "Q ?k k'" using assms sleep_loop_Q by (simp add: Thread_Sleep_def split: if_splits)
  moreover have "Q k ?k" by (rule Q_thread) simp
  ultimately show ?thesis using Q_trans by blast
qed

end

text \<open>With the second half of \<^verbatim>\<open>Run\<close>, which deletes a thread that has finished and loads the state of the new one into the machine.\<close>

locale switching = scheduling +
  assumes Q_machine: "Q k (k\<lparr>machine := m, pageTablePtr := sp\<rparr>)"
    and Q_delete: "threads k d = Some th \<Longrightarrow> set (frames th) \<subseteq> {AfterSwitch} \<Longrightarrow>
      Q k (k\<lparr>threads := (threads k)(d := None), threadToBeDestroyed := None\<rparr>)"
begin

lemma after_switch_Q:
  assumes A: "at_rest b k" and R: "Run_after_switch k = Inr k'"
  shows "Q k k'"
proof -
  obtain k1 where k1: "(case threadToBeDestroyed k of None \<Rightarrow> Inr k
      | Some d \<Rightarrow> rbind (Thread_delete d k) (\<lambda>k1. Inr (k1\<lparr>threadToBeDestroyed := None\<rparr>))) = Inr k1"
    and r: "rbind (follow (threads k1) (currentThread k1)) (\<lambda>cur. case space cur of None \<Rightarrow> Inr k1
      | Some sp \<Rightarrow> rbind (RestoreUserState (currentThread k1) k1) (\<lambda>k2. Inr (AddrSpace_RestoreState sp k2))) = Inr k'"
    using R unfolding Run_after_switch_def rbind_eq_Inr by blast
  have "Q k1 k'"
    using r by (auto simp: rbind_eq_Inr RestoreUserState_def AddrSpace_RestoreState_def intro: Q_refl Q_machine split: option.splits)
  moreover have "Q k k1"
  proof (cases "threadToBeDestroyed k")
    case None
    then show ?thesis using k1 Q_refl by simp
  next
    case (Some d)
    then have k1': "k1 = k\<lparr>threads := (threads k)(d := None), threadToBeDestroyed := None\<rparr>"
      using k1 by (auto simp: Thread_delete_def rbind_eq_Inr)
    have "sched_ok (readyListP k) (squeues k) (Some d) (tview k)" using A Some by (simp add: at_rest_def kernel_inv_def)
    then obtain fs where "tview k d = Some (BLOCKED, fs)" "set fs \<subseteq> {AfterSwitch}" by (auto simp: sched_ok_def)
    then show ?thesis unfolding k1' using Q_delete by (auto simp: tview_def)
  qed
  ultimately show ?thesis using Q_trans by blast
qed

end

end
