(* ===== verification/Kernel_Memory.thy ===== *)
theory Kernel_Memory
  imports Kernel_Quiet
begin

text \<open>
  What the thread system leaves alone: whatever it does, with its clock interrupts and thread switches, the main memory of the
  machine stays as it is, and the identities that it has handed out stay used. The memory of user programs is
  changed by the programs and by system calls only.
\<close>

definition mem_kept :: "kernel \<Rightarrow> kernel \<Rightarrow> bool" where
  "mem_kept k k' \<longleftrightarrow> next_id k \<le> next_id k' \<and> mainMemory (machine k') = mainMemory (machine k) \<and> tlb (machine k') = tlb (machine k)"

lemma mem_kept_refl [simp]: "mem_kept k k"
  by (simp add: mem_kept_def)

lemma mem_kept_trans [trans]: "mem_kept k k1 \<Longrightarrow> mem_kept k1 k2 \<Longrightarrow> mem_kept k k2"
  by (simp add: mem_kept_def)

text \<open>Updates of other parts of the state.\<close>

lemma mem_kept_same: "next_id k' = next_id k \<Longrightarrow> machine k' = machine k \<Longrightarrow> mem_kept k k'"
  by (simp add: mem_kept_def)

lemma push_machine [simp]: "next_id (push fs k) = next_id k" "machine (push fs k) = machine k"
  by (simp_all add: push_def)

lemma leave_machine [simp]: "next_id (leave l k) = next_id k" "machine (leave l k) = machine k"
  by (simp_all add: leave_def ChangeLevel_def)

lemma upd_machine [simp]:
  "next_id (upd_sem s f k) = next_id k" "machine (upd_sem s f k) = machine k"
  "next_id (upd_lock l g k) = next_id k" "machine (upd_lock l g k) = machine k"
  "next_id (upd_cond c h k) = next_id k" "machine (upd_cond c h k) = machine k"
  "next_id (upd_port p j k) = next_id k" "machine (upd_port p j k) = machine k"
  by (simp_all add: upd_sem_def upd_lock_def upd_cond_def upd_port_def)

lemma mem_kept_system: "system_of k1 = system_of k \<Longrightarrow> mem_kept k0 k1 = mem_kept k0 k"
  by (cases k; cases k1) (simp add: mem_kept_def)

section \<open>Scheduler and interrupts\<close>

interpretation mem_sched: scheduling mem_kept
  by unfold_locales (auto simp: mem_kept_def ChangeLevel_def)

lemma restore_from_mem: "restore_from n us m = Inr m' \<Longrightarrow> mainMemory m' = mainMemory m \<and> tlb m' = tlb m"
  by (induction n arbitrary: m) (auto simp: rbind_eq_Inr WriteRegister_def)

lemma Run_after_switch_mem:
  assumes "Run_after_switch k = Inr k'"
  shows "mem_kept k k'"
proof -
  obtain k1 and cur :: Thread where st: "(case threadToBeDestroyed k of None \<Rightarrow> Inr k
            | Some d \<Rightarrow> rbind (Thread_delete d k) (\<lambda>k1. Inr (k1\<lparr>threadToBeDestroyed := None\<rparr>))) = Inr k1" and
    r: "(case space cur of None \<Rightarrow> Inr k1 | Some sp \<Rightarrow> rbind (RestoreUserState (currentThread k1) k1) (\<lambda>k2. Inr (AddrSpace_RestoreState sp k2))) = Inr k'"
    using assms unfolding Run_after_switch_def rbind_eq_Inr by blast
  have k1: "next_id k1 = next_id k" "machine k1 = machine k"
    using st by (auto simp: Thread_delete_def rbind_eq_Inr split: option.splits)
  show ?thesis
  proof (cases "space cur")
    case None
    then show ?thesis using k1 r by (simp add: mem_kept_def)
  next
    case (Some sp)
    then show ?thesis using k1 r restore_from_mem
      by (auto simp: mem_kept_def RestoreUserState_def rbind_eq_Inr AddrSpace_RestoreState_def)
  qed
qed

lemma Semaphore_V_mem:
  assumes "Semaphore_V s k = Inr k'"
  shows "mem_kept k k'"
proof -
  obtain sem :: Semaphore and k2 where k2: "(case squeue sem of [] \<Rightarrow> Inr (ChangeLevel IntOff k)
             | t # ts \<Rightarrow> ReadyToRun t (upd_sem s (\<lambda>sem. sem\<lparr>squeue := ts\<rparr>) (ChangeLevel IntOff k))) = Inr k2"
    "k' = leave (level k) (upd_sem s (\<lambda>sem. sem\<lparr>svalue := svalue sem + 1\<rparr>) k2)"
    using assms unfolding Semaphore_V_def Let_def rbind_eq_Inr by auto
  have "mem_kept k k2"
  proof (cases "squeue sem")
    case Nil
    then show ?thesis using k2(1) by (auto intro!: mem_kept_same simp: ChangeLevel_def)
  next
    case (Cons t ts)
    then have "ReadyToRun t (upd_sem s (\<lambda>sem. sem\<lparr>squeue := ts\<rparr>) (ChangeLevel IntOff k)) = Inr k2" using k2(1) by simp
    from mem_sched.ReadyToRun_Q [OF this] show ?thesis by (simp add: mem_kept_def ChangeLevel_def)
  qed
  then show ?thesis using k2(2) by (simp add: mem_kept_def)
qed

lemma device_call_mem:
  assumes "device_call d k = Inr k'"
  shows "mem_kept k k'"
proof (cases d)
  case (TimerDevice r)
  then show ?thesis using assms
    by (auto simp: device_call_def TimerExpired_def Schedule_def Let_def TimerInterruptHandler_def YieldOnReturn_def rbind_eq_Inr
        intro!: mem_kept_same split: if_splits)
next
  case (DriverDone s)
  then show ?thesis using assms Semaphore_V_mem by (simp add: device_call_def)
qed

lemma delayed_load_mem:
  assumes "delayed_load k = Inr k'"
  shows "mem_kept k k'" "pending k' = pending k" "level k' = level k"
  using assms by (auto simp: delayed_load_def DelayedLoad_def rbind_eq_Inr mem_kept_def set_reg_def)

interpretation memq: interrupt_invariant device_call delayed_load "mem_kept k0"
proof
  fix i i' :: kernel
  assume "mem_kept k0 i" "system_of i' = system_of i" "handlers i' \<subseteq> handlers i"
  then show "mem_kept k0 i'" using mem_kept_system by blast
next
  fix i0 i i' :: kernel and d
  assume "mem_kept k0 i0" "system_of i0 = system_of i" "device_call d i = Inr i'"
  then show "mem_kept k0 i'" using mem_kept_system device_call_mem mem_kept_trans by metis
next
  fix i0 i i' :: kernel
  assume K: "mem_kept k0 i0" "system_of i0 = system_of i" "delayed_load i = Inr i'"
  have "mem_kept k0 i" using K(1,2) mem_kept_system [of i0 i] by simp
  then have "mem_kept k0 i'" using delayed_load_mem(1) [OF K(3)] mem_kept_trans by blast
  moreover have "mem_kept k0 (set_system (system_of i') i0) = mem_kept k0 i'" by (rule mem_kept_system) simp
  ultimately show "mem_kept k0 (set_system (system_of i') i0) \<and> pending i' = pending i \<and> level i' = level i"
    using delayed_load_mem [OF K(3)] by simp
qed

interpretation mem_ticks: interruptible mem_kept
  by unfold_locales (simp_all add: memq.interrupt_invariant_axioms [unfolded interrupt_invariant_def] mem_kept_def)

section \<open>Every step\<close>

lemma P_iteration_mem:
  assumes "P_iteration s old k = Some (Inr k')"
  shows "mem_kept k k'"
proof -
  obtain sem where "semaphores k s = Some sem" using assms by (cases "semaphores k s") (auto simp: P_iteration_def follow_def)
  then show ?thesis using assms mem_ticks.Sleep_Q [of _ k'] by (fastforce simp: P_iteration_def mem_kept_def split: if_splits)
qed

lemma new_mem:
  "Semaphore_new v k = (s, k') \<Longrightarrow> mem_kept k k'" "Lock_new j k = (l, k') \<Longrightarrow> mem_kept k k'"
  "Condition_new l k = (c, k') \<Longrightarrow> mem_kept k k'" "Puerto_new k = (p, k') \<Longrightarrow> mem_kept k k'"
  by (auto simp: Puerto_new_def Lock_new_def Semaphore_new_def Condition_new_def Let_def mem_kept_def)

lemma Thread_Fork_mem:
  assumes "Thread_Fork t j p k = Inr k'"
  shows "mem_kept k k'"
proof -
  define k2 where "k2 = (let k1 = upd_thread t StackAllocate k in
      if \<not> j then let (port, k') = Puerto_new k1 in upd_thread t (\<lambda>th. th\<lparr>join_flag := True, portJoin := Some port\<rparr>) k' else k1)"
  have k2: "mem_kept k k2"
    using new_mem(4) [of "upd_thread t StackAllocate k"] by (cases "Puerto_new (upd_thread t StackAllocate k)") (simp add: k2_def Let_def mem_kept_def)
  define k3 where "k3 = upd_thread t (setPriority p) k2"
  obtain k4 where k4: "ReadyToRun t (ChangeLevel IntOff k3) = Inr k4" "k' = leave (level k3) k4"
    using assms by (auto simp: Thread_Fork_def rbind_eq_Inr Let_def k3_def k2_def)
  show ?thesis using mem_sched.ReadyToRun_Q [OF k4(1)] k4(2) k2 by (simp add: k3_def ChangeLevel_def mem_kept_def)
qed

lemma call_mem:
  "Thread_Finish k = Inr k' \<Longrightarrow> mem_kept k k'" "Thread_Join t k = Inr k' \<Longrightarrow> mem_kept k k'" "Thread_delete t k = Inr k' \<Longrightarrow> mem_kept k k'"
  "Lock_Acquire l k = Inr k' \<Longrightarrow> mem_kept k k'" "Lock_Release l k = Inr k' \<Longrightarrow> mem_kept k k'" "Lock_set_owner l k = Inr k' \<Longrightarrow> mem_kept k k'"
  "Condition_Wait c k = Inr k' \<Longrightarrow> mem_kept k k'"
  "Broadcast_loop c k = Inr k' \<Longrightarrow> mem_kept k k'" "Condition_Broadcast c k = Inr k' \<Longrightarrow> mem_kept k k'"
  "Puerto_Send p m k = Inr k' \<Longrightarrow> mem_kept k k'" "Send_loop p m k = Inr k' \<Longrightarrow> mem_kept k k'"
  "Puerto_Receive p k = Inr k' \<Longrightarrow> mem_kept k k'" "Receive_loop p k = Inr k' \<Longrightarrow> mem_kept k k'"
  by (auto simp: Thread_Finish_def Thread_Join_def Thread_delete_def Lock_Acquire_def Lock_Release_def Lock_set_owner_def Condition_Wait_def
      Broadcast_loop_def Condition_Broadcast_def Puerto_Send_def Send_loop_def Puerto_Receive_def Receive_loop_def
      with_lock_def Semaphore_new_def ChangeLevel_def rbind_eq_Inr Let_def mem_kept_def split: if_splits option.splits list.splits)

lemma Condition_Signal_mem: "Condition_Signal c k = Inr k' \<Longrightarrow> mem_kept k k'"
  by (erule Signal_cases) (simp_all add: mem_kept_def)

lemmas thread_mem = Condition_Signal_mem Run_after_switch_mem Semaphore_V_mem mem_sched.Yield_Q mem_ticks.OneTick_Q mem_ticks.SetLevel_Q mem_ticks.Sleep_Q P_iteration_mem
  mem_sched.donate_Q Thread_Fork_mem call_mem

lemma exec_frame_mem:
  assumes "exec_frame f k = Some (Inr k')"
  shows "mem_kept k k'"
  using assms
  by (cases f) (auto dest!: thread_mem simp: exec_frame_def Enable_def Finish_tail_def Semaphore_P_def mem_kept_def ChangeLevel_def)

lemma kernel_step_mem:
  assumes "kernel_step k k'"
  shows "mem_kept k k'"
  using assms
proof cases
  case (exec f fs)
  then show ?thesis using exec_frame_mem [of f "pop_frame k" k'] by (simp add: pop_frame_def mem_kept_def)
next
  case (new_thread nm junk t)
  then show ?thesis by (auto simp: create_thread_def mem_kept_def)
next
  case (start_device s n ty)
  then show ?thesis by (auto simp: Schedule_def mem_kept_def Let_def split: if_splits)
qed (auto intro: exec_frame_mem new_mem)

end
