(* ===== verification/User_Switch.thy ===== *)
theory User_Switch
  imports Kernel_Memory
begin

text \<open>
  The machine state of a user thread across context switches. A thread that is not the current one keeps the
  registers that \<^verbatim>\<open>SaveUserState\<close> put into its control block, and its address space, through every step that other
  threads make: this is shown for all operations of the thread system and for the interrupts, and gives that the
  registers and the page table are back when the thread goes on.
\<close>

section \<open>The saved state of a thread\<close>

definition own_state :: "tid \<Rightarrow> kernel \<Rightarrow> (32 word list \<times> nat option) option" where
  "own_state t k = map_option (\<lambda>th. (userRegisters th, space th)) (threads k t)"

lemma own_state_threads: "threads k' t = threads k t \<Longrightarrow> own_state t k' = own_state t k"
  by (simp add: own_state_def)

lemma own_state_upd [simp]:
  "(\<And>th. userRegisters (f th) = userRegisters th) \<Longrightarrow> (\<And>th. space (f th) = space th) \<Longrightarrow>
   own_state t (upd_thread u f k) = own_state t k"
  by (cases "threads k u") (simp_all add: own_state_def)

lemma own_state_other: "u \<noteq> t \<Longrightarrow> own_state t (upd_thread u f k) = own_state t k"
  by (simp add: own_state_def)

lemma own_state_simps [simp]:
  "own_state t (push fs k) = own_state t k" "own_state t (ChangeLevel l k) = own_state t k" "own_state t (leave l k) = own_state t k"
  "own_state t (upd_sem s f1 k) = own_state t k" "own_state t (upd_lock lo f2 k) = own_state t k"
  "own_state t (upd_cond c f3 k) = own_state t k" "own_state t (upd_port p f4 k) = own_state t k"
  "own_state t (pop_frame k) = own_state t k"
  by (simp_all add: push_def leave_def pop_frame_def) (simp_all add: own_state_def ChangeLevel_def upd_sem_def upd_lock_def upd_cond_def upd_port_def)

lemma current_simps [simp]:
  "currentThread (push fs k) = currentThread k" "currentThread (ChangeLevel l k) = currentThread k"
  "currentThread (leave l k) = currentThread k" "currentThread (upd_sem s f1 k) = currentThread k"
  "currentThread (upd_lock lo f2 k) = currentThread k" "currentThread (upd_cond c f3 k) = currentThread k"
  "currentThread (upd_port p f4 k) = currentThread k" "currentThread (pop_frame k) = currentThread k"
  by (simp_all add: push_def leave_def pop_frame_def ChangeLevel_def upd_sem_def upd_lock_def upd_cond_def upd_port_def)

lemma own_state_fields [simp]:
  "own_state t (k\<lparr>readyListP := a\<rparr>) = own_state t k" "own_state t (k\<lparr>halted := b\<rparr>) = own_state t k"
  "own_state t (k\<lparr>threadToBeDestroyed := c\<rparr>) = own_state t k" "own_state t (k\<lparr>istatus := st\<rparr>) = own_state t k"
  "own_state t (k\<lparr>yieldOnReturn := d\<rparr>) = own_state t k" "own_state t (k\<lparr>machine := m\<rparr>) = own_state t k"
  "own_state t (k\<lparr>currentThread := e\<rparr>) = own_state t k" "own_state t (k\<lparr>pageTablePtr := pt\<rparr>) = own_state t k"
  "own_state t (k\<lparr>randoms := r\<rparr>) = own_state t k" "own_state t (k\<lparr>pending := ps\<rparr>) = own_state t k"
  by (simp_all add: own_state_def)

section \<open>Scheduling\<close>

lemma ReadyToRun_own:
  assumes "ReadyToRun u k = Inr k'"
  shows "own_state t k' = own_state t k" "currentThread k' = currentThread k"
  using assms by (auto simp: ReadyToRun_def Let_def rbind_eq_Inr)

lemma FindNextToRun_own:
  assumes "FindNextToRun k = Inr (n, k')"
  shows "own_state t k' = own_state t k" "currentThread k' = currentThread k"
proof -
  obtain p q where "(case q of [] \<Rightarrow> Inr (None, k) | t # ts \<Rightarrow> Inr (Some t, k\<lparr>readyListP := (readyListP k)[p := ts]\<rparr>)) = (Inr (n, k') :: (tid option \<times> kernel) res)"
    using assms unfolding FindNextToRun_def rbind_eq_Inr by blast
  then show "own_state t k' = own_state t k" "currentThread k' = currentThread k" by (cases q; auto)+
qed

lemma Run_own:
  assumes "currentThread k \<noteq> t" and "Run u k = Inr k'"
  shows "own_state t k' = own_state t k"
  using assms by (auto simp: Run_def Let_def rbind_eq_Inr SaveUserState_def own_state_other split: if_splits)

lemma Yield_own:
  assumes c: "currentThread k \<noteq> t" and Y: "Thread_Yield k = Inr k'"
  shows "own_state t k' = own_state t k"
proof -
  obtain n k2 where F: "FindNextToRun (ChangeLevel IntOff k) = Inr (n, k2)"
    and r: "(case n of None \<Rightarrow> Inr (push [RestoreLevel (level k)] k2)
      | Some u \<Rightarrow> rbind (ReadyToRun (currentThread k2) k2) (\<lambda>k3. Run u (push [RestoreLevel (level k)] k3))) = Inr k'"
    using Y by (auto simp: Thread_Yield_def Let_def rbind_eq_Inr)
  note k2 = FindNextToRun_own [OF F]
  show ?thesis
  proof (cases n)
    case None
    then show ?thesis using r k2 by auto
  next
    case (Some u)
    then obtain k3 where k3: "ReadyToRun (currentThread k2) k2 = Inr k3" "Run u (push [RestoreLevel (level k)] k3) = Inr k'"
      using r by (auto simp: rbind_eq_Inr)
    then show ?thesis using Run_own [OF _ k3(2), of t] ReadyToRun_own [OF k3(1)] k2 c by simp
  qed
qed

lemma donate_own:
  assumes "Lock_donate l k = Some (Inr k')"
  shows "own_state t k' = own_state t k"
proof -
  obtain lk where lk: "locks k l = Some lk" using assms by (auto simp: Lock_donate_def split: sum.splits)
  show ?thesis
  proof (cases "thname lk")
    case None
    then show ?thesis using assms lk by (simp add: Lock_donate_def)
  next
    case (Some h)
    then obtain pm pc where "(let k1 = upd_lock l (\<lambda>lk. lk\<lparr>Prioritymax := pm\<rparr>) k in
        if pm < pc then (case ChangeQueuePriority h pc k1 of None \<Rightarrow> None
          | Some r \<Rightarrow> Some (rbind r (\<lambda>k2. Inr (upd_lock l (\<lambda>lk. lk\<lparr>Prioritymax := pc\<rparr>) (upd_thread h (setPriority pc) k2)))))
        else Some (Inr k1)) = Some (Inr k')"
      using assms lk by (auto simp: Lock_donate_def rbind_eq_Inr split: sum.splits)
    then show ?thesis
      by (auto simp: Let_def rbind_eq_Inr setPriority_def split: if_splits option.splits elim!: ChangeQueuePriority_subset)
  qed
qed

section \<open>Interrupts\<close>

definition away :: "tid \<Rightarrow> (32 word list \<times> nat option) option \<Rightarrow> kernel \<Rightarrow> bool" where
  "away t s k \<longleftrightarrow> currentThread k \<noteq> t \<and> own_state t k = s"

lemma away_system: "system_of k1 = system_of k \<Longrightarrow> away t s k1 = away t s k"
  by (cases k; cases k1) (simp add: away_def own_state_def)

lemma Semaphore_V_own:
  assumes "Semaphore_V s k = Inr k'"
  shows "own_state t k' = own_state t k" "currentThread k' = currentThread k"
proof -
  obtain sem :: Semaphore and k2 where k2: "(case squeue sem of [] \<Rightarrow> Inr (ChangeLevel IntOff k)
             | u # us \<Rightarrow> ReadyToRun u (upd_sem s (\<lambda>sem. sem\<lparr>squeue := us\<rparr>) (ChangeLevel IntOff k))) = Inr k2"
    "k' = leave (level k) (upd_sem s (\<lambda>sem. sem\<lparr>svalue := svalue sem + 1\<rparr>) k2)"
    using assms unfolding Semaphore_V_def Let_def rbind_eq_Inr by auto
  have "own_state t k2 = own_state t k \<and> currentThread k2 = currentThread k"
    using k2(1) ReadyToRun_own [of _ _ k2] by (cases "squeue sem") auto
  then show "own_state t k' = own_state t k" "currentThread k' = currentThread k" using k2(2) by simp_all
qed

lemma device_call_away:
  assumes "device_call d k = Inr k'" and "away t s k"
  shows "away t s k'"
proof (cases d)
  case (TimerDevice r)
  then show ?thesis using assms
    by (auto simp: device_call_def TimerExpired_def Schedule_def Let_def TimerInterruptHandler_def YieldOnReturn_def rbind_eq_Inr
        away_def split: if_splits)
next
  case (DriverDone sm)
  then show ?thesis using assms Semaphore_V_own [of sm k k'] by (simp add: device_call_def away_def)
qed

interpretation away_irq: interrupt_invariant device_call delayed_load "away t s" for t s
proof
  fix i i' :: kernel
  assume "away t s i" "system_of i' = system_of i"
  then show "away t s i'" using away_system by blast
next
  fix i0 i i' :: kernel and d
  assume "away t s i0" "system_of i0 = system_of i" "device_call d i = Inr i'"
  then show "away t s i'" using away_system device_call_away by blast
next
  fix i0 i i' :: kernel
  assume K: "away t s i0" "system_of i0 = system_of i" "delayed_load i = Inr i'"
  then have "away t s i" using away_system [of i0 i] by simp
  then have "away t s i'" using K(3) by (auto simp: delayed_load_def rbind_eq_Inr away_def)
  moreover have "away t s (set_system (system_of i') i0) = away t s i'" by (rule away_system) simp
  moreover have "pending i' = pending i" "level i' = level i" using K(3) by (auto simp: delayed_load_def rbind_eq_Inr)
  ultimately show "away t s (set_system (system_of i') i0) \<and> pending i' = pending i \<and> level i' = level i" by simp
qed

lemma OneTick_own:
  assumes c: "currentThread k \<noteq> t" and T: "OneTick k = Some (Inr k')"
  shows "own_state t k' = own_state t k"
proof -
  obtain k1 where k1: "tick device_call delayed_load k = Some (Inr k1)"
    and r: "(if yieldOnReturn k1
      then Thread_Yield (push [RestoreStatus (istatus k)] (k1\<lparr>yieldOnReturn := False, istatus := SystemMode\<rparr>)) else Inr k1) = Inr k'"
    using T by (auto simp: OneTick_def rbind_eq_Inr split: option.splits)
  have "away t (own_state t k) k1" using away_irq.tick_holds [OF _ k1] c by (simp add: away_def)
  then show ?thesis
    using r Yield_own [of "push [RestoreStatus (istatus k)] (k1\<lparr>yieldOnReturn := False, istatus := SystemMode\<rparr>)" t k']
    by (auto simp: away_def split: if_splits)
qed

lemma SetLevel_own: "currentThread k \<noteq> t \<Longrightarrow> SetLevel l k = Some (Inr k') \<Longrightarrow> own_state t k' = own_state t k"
  using OneTick_own [of "ChangeLevel l k" t k'] by (auto simp: SetLevel_def split: if_splits)

lemma sleep_loop_own:
  assumes "sleep_loop k = Some (Inr k')" and "currentThread k \<noteq> t"
  shows "own_state t k' = own_state t k"
proof -
  have "\<forall>k'. r = Inr k' \<longrightarrow> currentThread k \<noteq> t \<longrightarrow> own_state t k' = own_state t k" if "sleep_loop k = Some r" for k r
    using that
  proof (rule sleep_loop.raw_induct [rotated])
    fix rec k r
    assume IH: "\<And>k r. rec k = Some r \<Longrightarrow> \<forall>k'. r = Inr k' \<longrightarrow> currentThread k \<noteq> t \<longrightarrow> own_state t k' = own_state t k"
      and step: "(case FindNextToRun k of Inl f \<Rightarrow> Some (Inl f)
        | Inr (Some nextThread, k1) \<Rightarrow> Some (Run nextThread k1)
        | Inr (None, k1) \<Rightarrow> (case Idle device_call delayed_load k1 of None \<Rightarrow> None
             | Some (Inl f) \<Rightarrow> Some (Inl f)
             | Some (Inr None) \<Rightarrow> Some (Inr (k1\<lparr>halted := True\<rparr>))
             | Some (Inr (Some k2)) \<Rightarrow> rec k2)) = Some r"
    show "\<forall>k'. r = Inr k' \<longrightarrow> currentThread k \<noteq> t \<longrightarrow> own_state t k' = own_state t k"
    proof (intro impI allI)
      fix k' assume r: "r = Inr k'" and c: "currentThread k \<noteq> t"
      from step r obtain n k1 where F: "FindNextToRun k = Inr (n, k1)" by (auto split: sum.splits)
      note k1 = FindNextToRun_own [OF F]
      consider u where "Run u k1 = Inr k'" | "k' = k1\<lparr>halted := True\<rparr>"
        | k2 where "Idle device_call delayed_load k1 = Some (Inr (Some k2))" "rec k2 = Some (Inr k')"
        using step r F by (auto split: option.splits sum.splits)
      then show "own_state t k' = own_state t k"
      proof cases
        case 1
        then show ?thesis using Run_own [of k1 t] k1 c by simp
      next
        case 2
        then show ?thesis using k1 by simp
      next
        case 3
        have "away t (own_state t k) k2" by (rule away_irq.Idle_holds [OF _ 3(1)]) (use k1 c in \<open>simp add: away_def\<close>)
        then show ?thesis using IH [OF 3(2)] by (simp add: away_def)
      qed
    qed
  qed
  then show ?thesis using assms by blast
qed

lemma Sleep_own:
  assumes "currentThread k \<noteq> t" and "Thread_Sleep k = Some (Inr k')"
  shows "own_state t k' = own_state t k"
  using assms sleep_loop_own [of "upd_thread (currentThread k) (setStatus BLOCKED) k" k' t]
  by (simp add: Thread_Sleep_def split: if_splits)

lemma P_iteration_own_state:
  assumes "currentThread k \<noteq> t" and "P_iteration s old k = Some (Inr k')"
  shows "own_state t k' = own_state t k"
proof -
  obtain sem where "semaphores k s = Some sem" using assms(2) by (cases "semaphores k s") (auto simp: P_iteration_def follow_def)
  then show ?thesis
    using assms Sleep_own [of "push [P_loop s old] (upd_sem s (\<lambda>sem. sem\<lparr>squeue := squeue sem @ [currentThread k]\<rparr>) k)" t k']
    by (auto simp: P_iteration_def split: if_splits)
qed

section \<open>Every step of another thread\<close>

lemma new_own:
  "Semaphore_new v k = (s, k') \<Longrightarrow> own_state t k' = own_state t k" "Lock_new j k = (l, k') \<Longrightarrow> own_state t k' = own_state t k"
  "Condition_new l k = (c, k') \<Longrightarrow> own_state t k' = own_state t k" "Puerto_new k = (p, k') \<Longrightarrow> own_state t k' = own_state t k"
  by (auto simp: Puerto_new_def Lock_new_def Semaphore_new_def Condition_new_def Let_def own_state_def)

lemma Thread_Fork_own:
  assumes "Thread_Fork u j p k = Inr k'"
  shows "own_state t k' = own_state t k"
proof -
  define k2 where "k2 = (let k1 = upd_thread u StackAllocate k in
      if \<not> j then let (port, k') = Puerto_new k1 in upd_thread u (\<lambda>th. th\<lparr>join_flag := True, portJoin := Some port\<rparr>) k' else k1)"
  have k2: "own_state t k2 = own_state t k"
    using new_own(4) [of "upd_thread u StackAllocate k" _ _ t]
    by (cases "Puerto_new (upd_thread u StackAllocate k)") (auto simp: k2_def Let_def StackAllocate_def)
  define k3 where "k3 = upd_thread u (setPriority p) k2"
  obtain k4 where k4: "ReadyToRun u (ChangeLevel IntOff k3) = Inr k4" "k' = leave (level k3) k4"
    using assms by (auto simp: Thread_Fork_def rbind_eq_Inr Let_def k3_def k2_def)
  show ?thesis using ReadyToRun_own(1) [OF k4(1), of t] k4(2) k2 by (simp add: k3_def setPriority_def)
qed

lemma call_own_state:
  "Thread_Finish k = Inr k' \<Longrightarrow> own_state t k' = own_state t k" "Thread_Join u k = Inr k' \<Longrightarrow> own_state t k' = own_state t k"
  "Lock_Acquire l k = Inr k' \<Longrightarrow> own_state t k' = own_state t k" "Lock_Release l k = Inr k' \<Longrightarrow> own_state t k' = own_state t k"
  "Lock_set_owner l k = Inr k' \<Longrightarrow> own_state t k' = own_state t k"
  "Broadcast_loop c k = Inr k' \<Longrightarrow> own_state t k' = own_state t k" "Condition_Broadcast c k = Inr k' \<Longrightarrow> own_state t k' = own_state t k"
  "Puerto_Send p m k = Inr k' \<Longrightarrow> own_state t k' = own_state t k" "Send_loop p m k = Inr k' \<Longrightarrow> own_state t k' = own_state t k"
  "Puerto_Receive p k = Inr k' \<Longrightarrow> own_state t k' = own_state t k" "Receive_loop p k = Inr k' \<Longrightarrow> own_state t k' = own_state t k"
  by (auto simp: Thread_Finish_def Thread_Join_def Lock_Acquire_def Lock_Release_def Lock_set_owner_def
      Broadcast_loop_def Condition_Broadcast_def Puerto_Send_def Send_loop_def Puerto_Receive_def Receive_loop_def
      with_lock_def rbind_eq_Inr Let_def split: if_splits option.splits)

lemma Wait_own: "Condition_Wait c k = Inr k' \<Longrightarrow> own_state t k' = own_state t k"
  using new_own(1) [of 1 k _ _ t] by (cases "Semaphore_new 1 k") (auto simp: Condition_Wait_def with_lock_def rbind_eq_Inr)

lemma Signal_own: "Condition_Signal c k = Inr k' \<Longrightarrow> own_state t k' = own_state t k"
  by (erule Signal_cases) simp_all

text \<open>The second half of \<^verbatim>\<open>Run\<close> may delete the thread, if it has finished.\<close>

lemma Run_after_switch_own:
  assumes "Run_after_switch k = Inr k'"
  shows "own_state t k' = own_state t k \<or> own_state t k' = None"
proof -
  obtain k1 and cur :: Thread where st: "(case threadToBeDestroyed k of None \<Rightarrow> Inr k
            | Some d \<Rightarrow> rbind (Thread_delete d k) (\<lambda>k1. Inr (k1\<lparr>threadToBeDestroyed := None\<rparr>))) = Inr k1" and
    r: "(case space cur of None \<Rightarrow> Inr k1 | Some sp \<Rightarrow> rbind (RestoreUserState (currentThread k1) k1) (\<lambda>k2. Inr (AddrSpace_RestoreState sp k2))) = Inr k'"
    using assms unfolding Run_after_switch_def rbind_eq_Inr by blast
  have "own_state t k' = own_state t k1"
    using r by (auto simp: RestoreUserState_def AddrSpace_RestoreState_def rbind_eq_Inr split: option.splits)
  moreover have "own_state t k1 = own_state t k \<or> own_state t k1 = None"
    using st by (auto simp: Thread_delete_def rbind_eq_Inr own_state_def split: option.splits if_splits)
  ultimately show ?thesis by simp
qed

lemma exec_frame_own_state:
  assumes c: "currentThread k \<noteq> t" and E: "exec_frame f k = Some (Inr k')"
  shows "own_state t k' = own_state t k \<or> own_state t k' = None"
proof (cases f)
  case FinishTail
  then have "own_state t k' = own_state t (k\<lparr>threadToBeDestroyed := Some (currentThread k)\<rparr>)"
    using E c by (intro Sleep_own) (simp_all add: exec_frame_def Finish_tail_def)
  then show ?thesis by simp
next
  case (CallP s)
  then have "own_state t k' = own_state t (ChangeLevel IntOff k)"
    using E c by (intro P_iteration_own_state) (simp_all add: exec_frame_def Semaphore_P_def)
  then show ?thesis by simp
qed (use E c in \<open>auto simp: exec_frame_def Enable_def intro: SetLevel_own P_iteration_own_state OneTick_own Yield_own donate_own
      Semaphore_V_own(1) Thread_Fork_own call_own_state Wait_own Signal_own dest!: Run_after_switch_own [where t = t]\<close>)

lemma kernel_step_own:
  assumes st: "kernel_step k k'" and c: "currentThread k \<noteq> t" and t: "t < next_id k"
  shows "own_state t k' = own_state t k \<or> own_state t k' = None"
  using st
proof cases
  case (exec f fs)
  then show ?thesis using exec_frame_own_state [of "pop_frame k" t f k'] c by simp
next
  case (client f)
  show ?thesis by (rule exec_frame_own_state [OF c client(4)])
next
  case (new_thread nm junk u)
  then show ?thesis using t by (auto simp: create_thread_def own_state_def)
next
  case (start_device s n ty)
  then show ?thesis by (auto simp: Schedule_def Let_def split: if_splits)
qed (auto dest: new_own)

section \<open>Switching away and back\<close>

text \<open>
  What happens while thread \<open>t\<close> is not the current one: steps of the thread system, interrupts included, and whatever
  else the other threads do, to the machine, the page tables and their own control blocks (their user programs run).
\<close>

inductive others_run :: "tid \<Rightarrow> kernel \<Rightarrow> kernel \<Rightarrow> bool" for t where
  none: "others_run t k k"
| system: "others_run t k k1 \<Longrightarrow> currentThread k1 \<noteq> t \<Longrightarrow> kernel_step k1 k2 \<Longrightarrow> others_run t k k2"
| program: "others_run t k k1 \<Longrightarrow> currentThread k1 \<noteq> t \<Longrightarrow> currentThread k2 = currentThread k1 \<Longrightarrow>
    threads k2 t = threads k1 t \<Longrightarrow> next_id k1 \<le> next_id k2 \<Longrightarrow> others_run t k k2"

lemma others_run_own:
  assumes "others_run t k k'" and "t < next_id k"
  shows "t < next_id k' \<and> (own_state t k' = own_state t k \<or> own_state t k' = None)"
  using assms
proof (induction rule: others_run.induct)
  case (system k k1 k2)
  then have "next_id k1 \<le> next_id k2" using kernel_step_mem by (auto simp: mem_kept_def)
  then show ?case using system kernel_step_own [OF system(3,2)] by auto
next
  case (program k k1 k2)
  then show ?case using own_state_threads [OF program(4)] by auto
qed simp

section \<open>The switch saves the registers\<close>

text \<open>The current thread \<open>t\<close> is a user thread, and what a step that may switch to another thread leaves of it.\<close>

definition on_cpu :: "tid \<Rightarrow> nat \<Rightarrow> kernel \<Rightarrow> bool" where
  "on_cpu t sp k \<longleftrightarrow> currentThread k = t \<and> length (registers (machine k)) = 40
     \<and> (\<exists>us. own_state t k = Some (us, Some sp) \<and> length us = 40)"

definition saved :: "tid \<Rightarrow> nat \<Rightarrow> kernel \<Rightarrow> bool" where
  "saved t sp k \<longleftrightarrow> currentThread k \<noteq> t \<longrightarrow> own_state t k = Some (registers (machine k), Some sp)"

lemma on_cpu_same:
  "on_cpu t sp k \<Longrightarrow> currentThread k' = currentThread k \<Longrightarrow> machine k' = machine k \<Longrightarrow> own_state t k' = own_state t k \<Longrightarrow> on_cpu t sp k'"
  by (simp add: on_cpu_def)

lemma stays_saved: "on_cpu t sp k \<Longrightarrow> currentThread k' = currentThread k \<Longrightarrow> saved t sp k'"
  by (simp add: on_cpu_def saved_def)

lemma Run_saved:
  assumes "on_cpu t sp k" and R: "Run u k = Inr k'"
  shows "saved t sp k'"
proof -
  obtain old where old: "threads k (currentThread k) = Some old" "space old = Some sp" "length (userRegisters old) = 40"
    and len: "length (registers (machine k)) = 40" and t: "currentThread k = t" using assms(1) by (auto simp: on_cpu_def own_state_def)
  have "machine k' = machine k"
    using R by (auto simp: Run_def Let_def rbind_eq_Inr SaveUserState_def split: if_splits)
  then show ?thesis using Run_saves [OF R old(1,2) len old(3)] t by (auto simp: saved_def own_state_def)
qed

lemma ReadyToRun_machine: "ReadyToRun u k = Inr k' \<Longrightarrow> machine k' = machine k"
  by (auto simp: ReadyToRun_def Let_def rbind_eq_Inr)

lemma FindNextToRun_machine:
  assumes "FindNextToRun k = Inr (n, k')"
  shows "machine k' = machine k"
proof -
  obtain p q where "(case q of [] \<Rightarrow> Inr (None, k) | t # ts \<Rightarrow> Inr (Some t, k\<lparr>readyListP := (readyListP k)[p := ts]\<rparr>)) = (Inr (n, k') :: (tid option \<times> kernel) res)"
    using assms unfolding FindNextToRun_def rbind_eq_Inr by blast
  then show ?thesis by (cases q) auto
qed

lemma ChangeLevel_machine [simp]: "machine (ChangeLevel l k) = machine k"
  by (simp add: ChangeLevel_def)

lemma FindNextToRun_on_cpu: "FindNextToRun k = Inr (n, k') \<Longrightarrow> on_cpu t sp k \<Longrightarrow> on_cpu t sp k'"
  by (rule on_cpu_same) (simp_all add: FindNextToRun_own FindNextToRun_machine)

lemma ReadyToRun_on_cpu: "ReadyToRun u k = Inr k' \<Longrightarrow> on_cpu t sp k \<Longrightarrow> on_cpu t sp k'"
  by (rule on_cpu_same) (simp_all add: ReadyToRun_own ReadyToRun_machine)

lemma on_cpu_simps [simp]:
  "on_cpu t sp (push fs k) = on_cpu t sp k" "on_cpu t sp (ChangeLevel l k) = on_cpu t sp k" "on_cpu t sp (upd_sem s f k) = on_cpu t sp k"
  "on_cpu t sp (upd_thread u (setStatus st) k) = on_cpu t sp k"
  "on_cpu t sp (k\<lparr>yieldOnReturn := y, istatus := ms\<rparr>) = on_cpu t sp k" "on_cpu t sp (k\<lparr>threadToBeDestroyed := d\<rparr>) = on_cpu t sp k"
  by (simp_all add: on_cpu_def)

lemma Yield_saved:
  assumes c: "on_cpu t sp k" and Y: "Thread_Yield k = Inr k'"
  shows "saved t sp k'"
proof -
  obtain n k2 where F: "FindNextToRun (ChangeLevel IntOff k) = Inr (n, k2)"
    and r: "(case n of None \<Rightarrow> Inr (push [RestoreLevel (level k)] k2)
      | Some u \<Rightarrow> rbind (ReadyToRun (currentThread k2) k2) (\<lambda>k3. Run u (push [RestoreLevel (level k)] k3))) = Inr k'"
    using Y by (auto simp: Thread_Yield_def Let_def rbind_eq_Inr)
  have k2: "on_cpu t sp k2" using FindNextToRun_on_cpu [OF F] c by simp
  show ?thesis
  proof (cases n)
    case None
    then show ?thesis using r stays_saved [OF k2] by auto
  next
    case (Some u)
    then obtain k3 where k3: "ReadyToRun (currentThread k2) k2 = Inr k3" "Run u (push [RestoreLevel (level k)] k3) = Inr k'"
      using r by (auto simp: rbind_eq_Inr)
    then show ?thesis using Run_saved [of t sp "push [RestoreLevel (level k)] k3" u k'] ReadyToRun_on_cpu [OF k3(1) k2] by simp
  qed
qed

lemma on_cpu_system: "system_of k1 = system_of k \<Longrightarrow> on_cpu t sp k1 = on_cpu t sp k"
  by (cases k; cases k1) (simp add: on_cpu_def own_state_def)

lemma Semaphore_V_machine:
  assumes "Semaphore_V s k = Inr k'"
  shows "machine k' = machine k"
proof -
  obtain sem :: Semaphore and k2 where k2: "(case squeue sem of [] \<Rightarrow> Inr (ChangeLevel IntOff k)
             | u # us \<Rightarrow> ReadyToRun u (upd_sem s (\<lambda>sem. sem\<lparr>squeue := us\<rparr>) (ChangeLevel IntOff k))) = Inr k2"
    "k' = leave (level k) (upd_sem s (\<lambda>sem. sem\<lparr>svalue := svalue sem + 1\<rparr>) k2)"
    using assms unfolding Semaphore_V_def Let_def rbind_eq_Inr by auto
  then show ?thesis using ReadyToRun_machine [of _ _ k2] by (cases "squeue sem") auto
qed

lemma device_call_on_cpu:
  assumes "device_call d k = Inr k'" and "on_cpu t sp k"
  shows "on_cpu t sp k'"
proof (cases d)
  case (TimerDevice r)
  then show ?thesis using assms
    by (auto simp: device_call_def TimerExpired_def Schedule_def Let_def TimerInterruptHandler_def YieldOnReturn_def rbind_eq_Inr
        on_cpu_def split: if_splits)
next
  case (DriverDone sm)
  then show ?thesis using assms Semaphore_V_own [of sm k k'] Semaphore_V_machine [of sm k k'] on_cpu_same by (simp add: device_call_def)
qed

lemma delayed_load_on_cpu:
  assumes "delayed_load k = Inr k'" and "on_cpu t sp k"
  shows "on_cpu t sp k'" "pending k' = pending k" "level k' = level k"
  using assms by (auto simp: delayed_load_def DelayedLoad_def rbind_eq_Inr on_cpu_def set_reg_def aput_def split: if_splits)

interpretation cpu_irq: interrupt_invariant device_call delayed_load "on_cpu t sp" for t sp
proof
  fix i i' :: kernel
  assume "on_cpu t sp i" "system_of i' = system_of i"
  then show "on_cpu t sp i'" using on_cpu_system by blast
next
  fix i0 i i' :: kernel and d
  assume "on_cpu t sp i0" "system_of i0 = system_of i" "device_call d i = Inr i'"
  then show "on_cpu t sp i'" using on_cpu_system device_call_on_cpu by blast
next
  fix i0 i i' :: kernel
  assume K: "on_cpu t sp i0" "system_of i0 = system_of i" "delayed_load i = Inr i'"
  then have i: "on_cpu t sp i" using on_cpu_system [of i0 i] by simp
  moreover have "on_cpu t sp (set_system (system_of i') i0) = on_cpu t sp i'" by (rule on_cpu_system) simp
  ultimately show "on_cpu t sp (set_system (system_of i') i0) \<and> pending i' = pending i \<and> level i' = level i"
    using delayed_load_on_cpu [OF K(3) i] by simp
qed

lemma OneTick_saved:
  assumes c: "on_cpu t sp k" and T: "OneTick k = Some (Inr k')"
  shows "saved t sp k'"
proof -
  obtain k1 where k1: "tick device_call delayed_load k = Some (Inr k1)"
    and r: "(if yieldOnReturn k1
      then Thread_Yield (push [RestoreStatus (istatus k)] (k1\<lparr>yieldOnReturn := False, istatus := SystemMode\<rparr>)) else Inr k1) = Inr k'"
    using T by (auto simp: OneTick_def rbind_eq_Inr split: option.splits)
  have "on_cpu t sp k1" by (rule cpu_irq.tick_holds [OF c k1])
  then show ?thesis
    using r Yield_saved [of t sp "push [RestoreStatus (istatus k)] (k1\<lparr>yieldOnReturn := False, istatus := SystemMode\<rparr>)" k']
    by (auto simp: stays_saved split: if_splits)
qed

lemma SetLevel_saved: "on_cpu t sp k \<Longrightarrow> SetLevel l k = Some (Inr k') \<Longrightarrow> saved t sp k'"
  using OneTick_saved [of t sp "ChangeLevel l k" k'] by (auto simp: SetLevel_def stays_saved split: if_splits)

lemma sleep_loop_saved:
  assumes "sleep_loop k = Some (Inr k')" and "on_cpu t sp k"
  shows "saved t sp k'"
proof -
  have "\<forall>k'. r = Inr k' \<longrightarrow> on_cpu t sp k \<longrightarrow> saved t sp k'" if "sleep_loop k = Some r" for k r
    using that
  proof (rule sleep_loop.raw_induct [rotated])
    fix rec k r
    assume IH: "\<And>k r. rec k = Some r \<Longrightarrow> \<forall>k'. r = Inr k' \<longrightarrow> on_cpu t sp k \<longrightarrow> saved t sp k'"
      and step: "(case FindNextToRun k of Inl f \<Rightarrow> Some (Inl f)
        | Inr (Some nextThread, k1) \<Rightarrow> Some (Run nextThread k1)
        | Inr (None, k1) \<Rightarrow> (case Idle device_call delayed_load k1 of None \<Rightarrow> None
             | Some (Inl f) \<Rightarrow> Some (Inl f)
             | Some (Inr None) \<Rightarrow> Some (Inr (k1\<lparr>halted := True\<rparr>))
             | Some (Inr (Some k2)) \<Rightarrow> rec k2)) = Some r"
    show "\<forall>k'. r = Inr k' \<longrightarrow> on_cpu t sp k \<longrightarrow> saved t sp k'"
    proof (intro impI allI)
      fix k' assume r: "r = Inr k'" and c: "on_cpu t sp k"
      from step r obtain n k1 where F: "FindNextToRun k = Inr (n, k1)" by (auto split: sum.splits)
      note k1 = FindNextToRun_on_cpu [OF F c]
      consider u where "Run u k1 = Inr k'" | "k' = k1\<lparr>halted := True\<rparr>"
        | k2 where "Idle device_call delayed_load k1 = Some (Inr (Some k2))" "rec k2 = Some (Inr k')"
        using step r F by (auto split: option.splits sum.splits)
      then show "saved t sp k'"
      proof cases
        case 1
        then show ?thesis using Run_saved [OF k1] by blast
      next
        case 2
        then show ?thesis using stays_saved [OF k1] by simp
      next
        case 3
        then show ?thesis using IH [OF 3(2)] cpu_irq.Idle_holds [OF k1 3(1)] by blast
      qed
    qed
  qed
  then show ?thesis using assms by blast
qed

lemma Sleep_saved: "on_cpu t sp k \<Longrightarrow> Thread_Sleep k = Some (Inr k') \<Longrightarrow> saved t sp k'"
  using sleep_loop_saved [of "upd_thread (currentThread k) (setStatus BLOCKED) k" k' t sp]
  by (simp add: Thread_Sleep_def split: if_splits)

lemma P_iteration_saved:
  assumes "on_cpu t sp k" and "P_iteration s old k = Some (Inr k')"
  shows "saved t sp k'"
proof -
  obtain sem where "semaphores k s = Some sem" using assms(2) by (cases "semaphores k s") (auto simp: P_iteration_def follow_def)
  then show ?thesis
    using assms Sleep_saved [of t sp "push [P_loop s old] (upd_sem s (\<lambda>sem. sem\<lparr>squeue := squeue sem @ [currentThread k]\<rparr>) k)" k']
    by (auto simp: P_iteration_def stays_saved split: if_splits)
qed

text \<open>The other operations keep the current thread.\<close>

lemma donate_current:
  assumes "Lock_donate l k = Some (Inr k')"
  shows "currentThread k' = currentThread k"
proof -
  obtain lk where lk: "locks k l = Some lk" using assms by (auto simp: Lock_donate_def split: sum.splits)
  show ?thesis
  proof (cases "thname lk")
    case None
    then show ?thesis using assms lk by (simp add: Lock_donate_def)
  next
    case (Some h)
    then obtain pm pc where "(let k1 = upd_lock l (\<lambda>lk. lk\<lparr>Prioritymax := pm\<rparr>) k in
        if pm < pc then (case ChangeQueuePriority h pc k1 of None \<Rightarrow> None
          | Some r \<Rightarrow> Some (rbind r (\<lambda>k2. Inr (upd_lock l (\<lambda>lk. lk\<lparr>Prioritymax := pc\<rparr>) (upd_thread h (setPriority pc) k2)))))
        else Some (Inr k1)) = Some (Inr k')"
      using assms lk by (auto simp: Lock_donate_def rbind_eq_Inr split: sum.splits)
    then show ?thesis
      by (auto simp: Let_def rbind_eq_Inr split: if_splits option.splits elim!: ChangeQueuePriority_subset)
  qed
qed

lemma Thread_Fork_current:
  assumes "Thread_Fork u j p k = Inr k'"
  shows "currentThread k' = currentThread k"
proof -
  have P: "Puerto_new k1 = (port, k2) \<Longrightarrow> currentThread k2 = currentThread k1" for k1 port k2
    by (auto simp: Puerto_new_def Lock_new_def Semaphore_new_def Condition_new_def Let_def)
  define k2 where "k2 = (let k1 = upd_thread u StackAllocate k in
      if \<not> j then let (port, k') = Puerto_new k1 in upd_thread u (\<lambda>th. th\<lparr>join_flag := True, portJoin := Some port\<rparr>) k' else k1)"
  have k2: "currentThread k2 = currentThread k"
    using P [of "upd_thread u StackAllocate k"] by (cases "Puerto_new (upd_thread u StackAllocate k)") (auto simp: k2_def Let_def)
  obtain k4 where k4: "ReadyToRun u (ChangeLevel IntOff (upd_thread u (setPriority p) k2)) = Inr k4" "currentThread k' = currentThread k4"
    using assms by (auto simp: Thread_Fork_def rbind_eq_Inr Let_def k2_def)
  show ?thesis using ReadyToRun_own(2) [OF k4(1)] k4(2) k2 by simp
qed

lemma call_current:
  "Thread_Finish k = Inr k' \<Longrightarrow> currentThread k' = currentThread k" "Thread_Join u k = Inr k' \<Longrightarrow> currentThread k' = currentThread k"
  "Lock_Acquire l k = Inr k' \<Longrightarrow> currentThread k' = currentThread k" "Lock_Release l k = Inr k' \<Longrightarrow> currentThread k' = currentThread k"
  "Lock_set_owner l k = Inr k' \<Longrightarrow> currentThread k' = currentThread k" "Condition_Wait c k = Inr k' \<Longrightarrow> currentThread k' = currentThread k"
  "Broadcast_loop c k = Inr k' \<Longrightarrow> currentThread k' = currentThread k" "Condition_Broadcast c k = Inr k' \<Longrightarrow> currentThread k' = currentThread k"
  "Puerto_Send p m k = Inr k' \<Longrightarrow> currentThread k' = currentThread k" "Send_loop p m k = Inr k' \<Longrightarrow> currentThread k' = currentThread k"
  "Puerto_Receive p k = Inr k' \<Longrightarrow> currentThread k' = currentThread k" "Receive_loop p k = Inr k' \<Longrightarrow> currentThread k' = currentThread k"
  "Run_after_switch k = Inr k' \<Longrightarrow> currentThread k' = currentThread k"
  by (auto simp: Thread_Finish_def Thread_Join_def Lock_Acquire_def Lock_Release_def Lock_set_owner_def Condition_Wait_def Semaphore_new_def
      Broadcast_loop_def Condition_Broadcast_def Puerto_Send_def Send_loop_def Puerto_Receive_def Receive_loop_def
      Run_after_switch_def Thread_delete_def RestoreUserState_def AddrSpace_RestoreState_def
      with_lock_def rbind_eq_Inr Let_def split: if_splits option.splits)

lemma Signal_current: "Condition_Signal c k = Inr k' \<Longrightarrow> currentThread k' = currentThread k"
  by (erule Signal_cases) simp_all

lemmas keeps_current = donate_current Thread_Fork_current call_current Signal_current Semaphore_V_own(2)

lemma exec_frame_saved:
  assumes c: "on_cpu t sp k" and E: "exec_frame f k = Some (Inr k')"
  shows "saved t sp k'"
proof (cases f)
  case FinishTail
  show ?thesis
    by (rule Sleep_saved [of t sp "k\<lparr>threadToBeDestroyed := Some (currentThread k)\<rparr>"])
      (use c E FinishTail in \<open>simp_all add: exec_frame_def Finish_tail_def\<close>)
next
  case (CallP s)
  show ?thesis
    by (rule P_iteration_saved [of t sp "ChangeLevel IntOff k" s "level k"]) (use c E CallP in \<open>simp_all add: exec_frame_def Semaphore_P_def\<close>)
qed (use E c in \<open>auto simp: exec_frame_def Enable_def intro: SetLevel_saved P_iteration_saved OneTick_saved Yield_saved
      stays_saved [OF c] dest: keeps_current\<close>)

lemma kernel_step_saved:
  assumes st: "kernel_step k k'" and c: "on_cpu t sp k"
  shows "saved t sp k'"
  using st
proof cases
  case (exec f fs)
  have "on_cpu t sp (pop_frame k)" using c by (rule on_cpu_same) (simp_all add: pop_frame_def)
  from exec_frame_saved [OF this exec(3)] show ?thesis .
next
  case (client f)
  show ?thesis by (rule exec_frame_saved [OF c client(4)])
qed (auto simp: create_thread_def Puerto_new_def Lock_new_def Semaphore_new_def Condition_new_def Schedule_def Let_def
    intro!: stays_saved [OF c] split: if_splits)

section \<open>Property\<close>

text \<open>
  C33. A user thread gets its machine state back. Suppose a step of the kernel (a yield, a clock tick, a sleep, whatever
  it was) takes the CPU away from a thread that has an address space, and the other threads then run for as long
  as they like: they make any steps of the thread system, and between them change the machine, the memory, the page tables and
  everything else but the control block of this thread. When the thread is current again and goes on with the rest of
  \<^verbatim>\<open>Scheduler::Run\<close>, the registers of the machine are those of the moment of the switch, and the page table of its own
  address space is installed. (The register arrays have their 40 elements; the thread is one that was created.)
\<close>

theorem switch_preserves_user_state:
  assumes out: "kernel_step k k1" "currentThread k = t" "currentThread k1 \<noteq> t"
    and th: "threads k t = Some th" "space th = Some sp" "t < next_id k"
    and len: "length (userRegisters th) = 40" "length (registers (machine k)) = 40" "length (registers (machine k1)) = 40"
    and others: "others_run t k1 k2"
    and again: "currentThread k2 = t" "length (registers (machine k2)) = 40" "top_frames k2 = AfterSwitch # fs" "kernel_step k2 k3"
  shows "registers (machine k3) = registers (machine k1) \<and> pageTablePtr k3 = Some sp \<and> currentThread k3 = t \<and> top_frames k3 = fs"
proof -
  have "on_cpu t sp k" using out(2) th len by (simp add: on_cpu_def own_state_def)
  from kernel_step_saved [OF out(1) this] have s1: "own_state t k1 = Some (registers (machine k1), Some sp)"
    using out(3) by (simp add: saved_def)
  have "t < next_id k1" using kernel_step_mem [OF out(1)] th(3) by (simp add: mem_kept_def)
  then have "own_state t k2 = own_state t k1 \<or> own_state t k2 = None" using others_run_own [OF others] by simp
  moreover obtain th2 where th2: "threads k2 t = Some th2" "frames th2 = AfterSwitch # fs"
    using again(1,3) by (auto simp: top_frames_def split: option.splits)
  ultimately have own: "userRegisters th2 = registers (machine k1)" "space th2 = Some sp" using s1 by (auto simp: own_state_def)
  let ?k = "pop_frame k2" and ?th = "th2\<lparr>frames := fs\<rparr>"
  have R: "Run_after_switch ?k = Inr k3"
    using again(4) by (cases rule: kernel_step.cases) (use again(3) in \<open>auto simp: exec_frame_def\<close>)
  have p: "threads ?k (currentThread ?k) = Some ?th" "machine ?k = machine k2" "currentThread ?k = t"
    using th2 again(1) by (simp_all add: pop_frame_def)
  have "registers (machine k3) = userRegisters ?th \<and> pageTablePtr k3 = Some sp \<and> currentThread k3 = currentThread ?k
    \<and> threads k3 (currentThread ?k) = Some ?th"
    by (rule Run_after_switch_restores [OF R p(1)]) (use own len again(2) p(2) in simp_all)
  then show ?thesis using own p(3) by (simp add: top_frames_def)
qed

section \<open>A run\<close>

text \<open>A clock tick at which no interrupt is due, and a yield to the only thread that is ready.\<close>

lemma OneTick_nothing_due:
  assumes "pending k = [(w, p)]" "now k + 10 < w" "istatus k = SystemMode" "\<not> yieldOnReturn k"
  shows "OneTick k = Some (Inr (ChangeLevel IntOn (ChangeLevel IntOff (advance_clock k))))"
proof -
  have "fire_due device_call delayed_load (ChangeLevel IntOff (advance_clock k)) = Some (Inr (ChangeLevel IntOff (advance_clock k)))"
    using assms by (subst fire_due.simps) (simp add: CheckIfDue_def ASSERT_def ChangeLevel_def advance_clock_def SystemTick_def)
  then show ?thesis using assms(4) by (simp add: OneTick_def tick_def ChangeLevel_def advance_clock_def)
qed

definition switched_out :: "tid \<Rightarrow> Thread \<Rightarrow> Thread \<Rightarrow> kernel \<Rightarrow> kernel" where
  "switched_out u new old k = k\<lparr>level := IntOff, readyListP := [[currentThread k], [], []], currentThread := u,
     threads := (threads k)(u \<mapsto> new\<lparr>tstatus := RUNNING\<rparr>,
       currentThread k \<mapsto> old\<lparr>tstatus := READY, userRegisters := (if space old = None then userRegisters old else registers (machine k)),
         frames := AfterSwitch # RestoreLevel (level k) # frames old\<rparr>)\<rparr>"

lemma Thread_Yield_switches:
  assumes ready: "readyListP k = [[u], [], []]" "u \<noteq> currentThread k" "threads k u = Some new"
    and cur: "threads k (currentThread k) = Some old" "priority old = 0" "CheckOverflow old"
    and len: "space old = None \<or> length (registers (machine k)) = 40 \<and> length (userRegisters old) = 40"
  shows "Thread_Yield k = Inr (switched_out u new old k)"
proof -
  let ?c = "currentThread k"
  define k2 where "k2 = (ChangeLevel IntOff k)\<lparr>readyListP := [[], [], []]\<rparr>"
  have F: "FindNextToRun (ChangeLevel IntOff k) = Inr (Some u, k2)"
    using ready(1) by (simp add: FindNextToRun_def MaxPriority_def numeral_2_eq_2 ChangeLevel_def k2_def)
  define k3 where "k3 = (upd_thread ?c (setStatus READY) k2)\<lparr>readyListP := [[?c], [], []]\<rparr>"
  have R: "ReadyToRun (currentThread k2) k2 = Inr k3"
    using cur by (simp add: ReadyToRun_def follow_def k2_def k3_def ChangeLevel_def Let_def aput_def)
  have S: "save_from NumTotalRegs (machine k) (userRegisters old) = Inr (registers (machine k))" if "space old \<noteq> None"
    using save_from_result [of 40 "machine k" "userRegisters old"] len that by (auto simp: NumTotalRegs_def)
  have "Run u (push [RestoreLevel (level k)] k3) = Inr (switched_out u new old k)"
    using S ready(2,3) cur
    by (simp add: Run_def follow_def Let_def push_def k3_def k2_def ChangeLevel_def SaveUserState_def ASSERT_def CheckOverflow_def
        upd_thread_def setStatus_def switched_out_def fun_upd_twist)
  then show ?thesis using F R by (simp add: Thread_Yield_def Let_def)
qed

lemma yield_step:
  assumes "\<not> halted k" "threads k (currentThread k) = Some old" "frames old = []" "priority old = 0" "CheckOverflow old"
    and "readyListP k = [[u], [], []]" "u \<noteq> currentThread k" "threads k u = Some new"
    and "space old = None \<or> length (registers (machine k)) = 40 \<and> length (userRegisters old) = 40"
  shows "kernel_step k (switched_out u new old k)"
proof (rule kernel_step.client [of _ CallYield])
  show "exec_frame CallYield k = Some (Inr (switched_out u new old k))"
    using Thread_Yield_switches [of k u new old] assms by (simp add: exec_frame_def)
qed (use assms in \<open>simp_all add: top_frames_def client_call_def\<close>)

text \<open>A new thread enables interrupts; a thread that is switched to again restores its registers.\<close>

lemma start_step:
  assumes "\<not> halted k" "top_frames k = [ThreadRoot]" "level k = IntOff" "\<not> inHandler k"
    and "pending k = [(w, p)]" "now k + 10 < w" "istatus k = SystemMode" "\<not> yieldOnReturn k"
  shows "kernel_step k ((advance_clock (pop_frame k))\<lparr>level := IntOn\<rparr>)"
proof (rule kernel_step.exec)
  show "exec_frame ThreadRoot (pop_frame k) = Some (Inr ((advance_clock (pop_frame k))\<lparr>level := IntOn\<rparr>))"
    using OneTick_nothing_due [of "(pop_frame k)\<lparr>level := IntOn\<rparr>" w p] assms
    by (simp add: exec_frame_def Enable_def SetLevel_def ChangeLevel_def advance_clock_def pop_frame_def)
qed (use assms in simp_all)

lemma after_switch_step:
  assumes "\<not> halted k" "threads k (currentThread k) = Some th" "frames th = AfterSwitch # fs" "threadToBeDestroyed k = None"
    and "length (registers (machine k)) = 40" "length (userRegisters th) = 40"
  shows "\<exists>k'. kernel_step k k'"
proof -
  have "restore_from 40 (userRegisters th) (machine k) = Inr ((machine k)\<lparr>registers := userRegisters th\<rparr>)"
    using restore_from_result [of 40 "machine k" "userRegisters th"] assms by simp
  then have "\<exists>k'. exec_frame AfterSwitch (pop_frame k) = Some (Inr k')"
    using assms by (simp add: exec_frame_def Run_after_switch_def pop_frame_def follow_def RestoreUserState_def NumTotalRegs_def split: option.splits)
  then show ?thesis using kernel_step.exec [of k AfterSwitch fs] assms by (auto simp: top_frames_def)
qed

text \<open>
  The main thread has forked thread 1, which has not run yet. It then becomes a user thread with address space 7 (its
  registers hold 5) and yields; thread 1 starts, puts 9 into the registers of the machine and yields back.
\<close>

definition forked :: "byte list \<Rightarrow> kernel option" where
  "forked mem = acts False [Exec, NewThread ''a'', Client (CallFork 1 True 0), Exec]
     (boot_kernel \<lparr>registers = replicate 40 0, mainMemory = mem, tlb = None, pageTable = None, status = SystemMode, kernel = ()\<rparr>
       (replicate 40 0) False (\<lambda>_. 0))"

definition with_registers :: "32 word \<Rightarrow> kernel \<Rightarrow> kernel" where
  "with_registers v k = k\<lparr>machine := (machine k)\<lparr>registers := replicate 40 v\<rparr>\<rparr>"

definition user_main :: "kernel \<Rightarrow> kernel" where
  "user_main k = with_registers 5 (upd_thread 0 (\<lambda>th. th\<lparr>space := Some 7\<rparr>) k)"

lemma forked_threads:
  "case forked mem of None \<Rightarrow> False | Some k \<Rightarrow>
     (case (threads k 0, threads k 1, pending k) of
        (Some old, Some new, [(w, p)]) \<Rightarrow> currentThread k = 0 \<and> readyListP k = [[1], [], []] \<and> now k + 10 < w
          \<and> frames old = [] \<and> priority old = 0 \<and> stack old = None \<and> length (userRegisters old) = 40
          \<and> frames new = [ThreadRoot] \<and> priority new = 0 \<and> stack new = Some STACK_FENCEPOST
          \<and> space new = None
          \<and> \<not> halted k \<and> level k = IntOn \<and> istatus k = SystemMode \<and> \<not> yieldOnReturn k \<and> \<not> inHandler k
          \<and> threadToBeDestroyed k = None \<and> next_id k = 2
      | _ \<Rightarrow> False)"
  by code_simp

lemma sample_run:
  obtains k0 k1 k2 k3 th where "forked mem = Some k0" "kernel_step (user_main k0) k1" "currentThread k1 = 1"
    "currentThread k0 = 0" "threads (user_main k0) 0 = Some th" "space th = Some 7" "length (userRegisters th) = 40" "0 < next_id k0"
    "registers (machine k1) = replicate 40 5" "others_run 0 k1 k2" "currentThread k2 = 0" "registers (machine k2) = replicate 40 9"
    "top_frames k2 = [AfterSwitch, RestoreLevel IntOn]" "kernel_step k2 k3"
proof -
  obtain k0 where k0: "forked mem = Some k0" using forked_threads [of mem] by (auto split: option.splits)
  then obtain main child w p where t: "threads k0 0 = Some main" "threads k0 1 = Some child" "pending k0 = [(w, p)]"
    and f: "currentThread k0 = 0" "readyListP k0 = [[1], [], []]" "now k0 + 10 < w"
      "frames main = []" "priority main = 0" "stack main = None" "length (userRegisters main) = 40"
      "frames child = [ThreadRoot]" "priority child = 0" "stack child = Some STACK_FENCEPOST" "space child = None"
      "\<not> halted k0" "level k0 = IntOn" "istatus k0 = SystemMode" "\<not> yieldOnReturn k0" "\<not> inHandler k0"
      "threadToBeDestroyed k0 = None" "next_id k0 = 2"
    using forked_threads [of mem] by (auto split: option.splits list.splits)
  let ?m = "main\<lparr>space := Some 7\<rparr>" and ?k = "user_main k0"
  note eval = user_main_def with_registers_def upd_thread_def top_frames_def CheckOverflow_def switched_out_def advance_clock_def pop_frame_def
  define k1 where "k1 = switched_out 1 child ?m ?k"
  have s1: "kernel_step ?k k1" unfolding k1_def by (rule yield_step) (use t f in \<open>simp_all add: eval\<close>)
  define j where "j = (advance_clock (pop_frame k1))\<lparr>level := IntOn\<rparr>"
  have s2: "kernel_step k1 j" unfolding j_def by (rule start_step [of _ w p]) (use t f in \<open>simp_all add: k1_def eval\<close>)
  let ?c = "child\<lparr>tstatus := RUNNING, frames := []\<rparr>"
  let ?r = "?m\<lparr>tstatus := READY, userRegisters := replicate 40 5, frames := [AfterSwitch, RestoreLevel IntOn]\<rparr>"
  define k2 where "k2 = switched_out 0 ?r ?c (with_registers 9 j)"
  have s3: "kernel_step (with_registers 9 j) k2"
    unfolding k2_def by (rule yield_step) (use t f in \<open>simp_all add: j_def k1_def eval\<close>)
  have o: "others_run 0 k1 k2"
    by (rule others_run.system [OF others_run.program [OF others_run.system [OF others_run.none _ s2]] _ s3])
      (use t f in \<open>simp_all add: j_def k1_def eval\<close>)
  obtain k3 where s4: "kernel_step k2 k3"
    using after_switch_step [of k2 "?r\<lparr>tstatus := RUNNING\<rparr>" "[RestoreLevel IntOn]"] t f by (auto simp: k2_def j_def k1_def eval)
  show thesis
    by (rule that [of k0 k1 ?m k2 k3]) (use k0 s1 o s4 t f in \<open>simp_all add: k2_def j_def k1_def eval\<close>)
qed

theorem switch_preserves_user_state_witness:
  "\<exists>k0 k1 k2 k3. forked [] = Some k0 \<and> kernel_step (user_main k0) k1 \<and> others_run 0 k1 k2 \<and> registers (machine k2) = replicate 40 9
     \<and> kernel_step k2 k3 \<and> registers (machine k3) = replicate 40 5 \<and> pageTablePtr k3 = Some 7 \<and> top_frames k3 = [RestoreLevel IntOn]"
proof -
  obtain k0 k1 k2 k3 th where r: "forked [] = Some k0" "kernel_step (user_main k0) k1" "currentThread k1 = 1"
    "currentThread k0 = 0" "threads (user_main k0) 0 = Some th" "space th = Some 7" "length (userRegisters th) = 40" "0 < next_id k0"
    "registers (machine k1) = replicate 40 5" "others_run 0 k1 k2" "currentThread k2 = 0" "registers (machine k2) = replicate 40 9"
    "top_frames k2 = [AfterSwitch, RestoreLevel IntOn]" "kernel_step k2 k3" by (rule sample_run)
  have "registers (machine k3) = registers (machine k1) \<and> pageTablePtr k3 = Some 7 \<and> currentThread k3 = 0 \<and> top_frames k3 = [RestoreLevel IntOn]"
    by (rule switch_preserves_user_state [of "user_main k0" k1 0 th 7 k2 "[RestoreLevel IntOn]" k3])
      (use r in \<open>simp_all add: user_main_def with_registers_def\<close>)
  then show ?thesis using r by auto
qed

end
