(* ===== verification/Lock_Inv.thy ===== *)
theory Lock_Inv
  imports Kernel_Safety Kernel_Quiet
begin

text \<open>
  Mutual exclusion of \<^verbatim>\<open>Lock\<close>. A lock has one token: it is in the value of its semaphore \<^verbatim>\<open>sem\<close>, or with the
  owner \<^verbatim>\<open>thname\<close>, or with a thread between \<^verbatim>\<open>sem->P()\<close> and the assignment of \<^verbatim>\<open>thname\<close>, or with one between the
  assignment \<^verbatim>\<open>thname = NULL\<close> and \<^verbatim>\<open>sem->V()\<close>. The invariant counts the tokens of the threads from the
  frames they still have to run.
\<close>

section \<open>Counting tokens\<close>

text \<open>The frames that matter for a lock.\<close>

definition lock_frame :: "frame \<Rightarrow> bool" where
  "lock_frame f = (case f of SetOwner l \<Rightarrow> True | CallP s \<Rightarrow> True | P_loop s old \<Rightarrow> True | CallV s \<Rightarrow> True | _ \<Rightarrow> False)"

definition weight :: "lid \<Rightarrow> sid \<Rightarrow> frame \<Rightarrow> int" where
  "weight l s f = (case f of
     SetOwner l' \<Rightarrow> if l' = l then 1 else 0
   | CallP s' \<Rightarrow> if s' = s then -1 else 0
   | P_loop s' old \<Rightarrow> if s' = s then -1 else 0
   | CallV s' \<Rightarrow> if s' = s then 1 else 0
   | _ \<Rightarrow> 0)"

abbreviation tokens :: "lid \<Rightarrow> sid \<Rightarrow> frame list \<Rightarrow> int" where
  "tokens l s fs \<equiv> sum_list (map (weight l s) fs)"

text \<open>However far a thread has got, it never owes a token.\<close>

fun solvent :: "lid \<Rightarrow> sid \<Rightarrow> frame list \<Rightarrow> bool" where
  "solvent l s [] = True"
| "solvent l s (f # fs) = (0 \<le> tokens l s (f # fs) \<and> solvent l s fs)"

lemma solvent_tokens: "solvent l s fs \<Longrightarrow> 0 \<le> tokens l s fs"
  by (cases fs) simp_all

lemma solvent_irrelevant: "solvent l s fs \<Longrightarrow> weight l s f = 0 \<Longrightarrow> solvent l s (f # fs)"
  using solvent_tokens [of l s fs] by simp

text \<open>The objects a frame refers to exist.\<close>

definition frame_below :: "nat \<Rightarrow> frame \<Rightarrow> bool" where
  "frame_below n f = (case f of SetOwner l \<Rightarrow> l < n | CallP s \<Rightarrow> s < n | P_loop s old \<Rightarrow> s < n | CallV s \<Rightarrow> s < n | _ \<Rightarrow> True)"

lemma frame_below_mono: "frame_below n f \<Longrightarrow> n \<le> m \<Longrightarrow> frame_below m f"
  by (auto simp: frame_below_def split: frame.splits)

lemma weight_fresh: "frame_below n f \<Longrightarrow> n \<le> l \<Longrightarrow> n \<le> s \<Longrightarrow> weight l s f = 0"
  by (auto simp: frame_below_def weight_def split: frame.splits)

lemma tokens_fresh: "\<forall>f \<in> set fs. frame_below n f \<Longrightarrow> n \<le> l \<Longrightarrow> n \<le> s \<Longrightarrow> tokens l s fs = 0 \<and> solvent l s fs"
  by (induction fs) (auto simp: weight_fresh)

section \<open>The invariant\<close>

text \<open>
  On the frames \<open>G\<close> of the threads, the values \<open>V\<close> of the semaphores, the owner and the two semaphores of each
  lock in \<open>L\<close>, the semaphores \<open>O\<close> of condition variables and drivers, and the number \<open>n\<close> of objects.
\<close>

type_synonym lview = "lid \<rightharpoonup> tid option \<times> sid \<times> sid"

definition owned :: "tid option \<Rightarrow> int" where
  "owned ow = (if ow = None then 0 else 1)"

definition lock_ok :: "(tid \<Rightarrow> frame list) \<Rightarrow> (sid \<rightharpoonup> int) \<Rightarrow> lview \<Rightarrow> sid set \<Rightarrow> nat \<Rightarrow> bool" where
  "lock_ok G V L Q n \<longleftrightarrow>
     (\<forall>t. n \<le> t \<longrightarrow> G t = []) \<and> (\<forall>t. \<forall>f \<in> set (G t). frame_below n f) \<and> (\<forall>s \<in> Q. s < n)
     \<and> (\<forall>l ow s i. L l = Some (ow, s, i) \<longrightarrow> l < n \<and> s < n \<and> i < n \<and> s \<notin> Q
          \<and> (\<forall>l' ow' s' i'. L l' = Some (ow', s', i') \<longrightarrow> s \<noteq> i' \<and> (s = s' \<longrightarrow> l = l'))
          \<and> (\<forall>t. solvent l s (G t))
          \<and> (\<exists>v. V s = Some v \<and> 0 \<le> v \<and> v + owned ow + (\<Sum>t < n. tokens l s (G t)) = 1))"

lemma sum_upd:
  assumes "c < (n :: nat)"
  shows "(\<Sum>t < n. tokens l s ((G(c := g)) t)) = (\<Sum>t < n. tokens l s (G t)) - tokens l s (G c) + tokens l s g"
proof -
  have "(\<Sum>t < n. tokens l s (H t)) = tokens l s (H c) + (\<Sum>t \<in> {..<n} - {c}. tokens l s (H t))" for H :: "nat \<Rightarrow> frame list"
    using assms by (intro sum.remove) auto
  from this [of "G(c := g)"] this [of G] show ?thesis by simp
qed

text \<open>A change of the frames of one thread, of the values of semaphores and of the owners of locks that keeps the balance.\<close>

lemma lock_ok_move:
  assumes I: "lock_ok G V L Q n" and c: "c < n" and g: "\<forall>f \<in> set g. frame_below n f"
    and L: "\<And>l ow s i. L' l = Some (ow, s, i) \<Longrightarrow> \<exists>ow0. L l = Some (ow0, s, i) \<and> solvent l s g
      \<and> (\<forall>v. V s = Some v \<longrightarrow> 0 \<le> v \<longrightarrow> v + owned ow0 + (\<Sum>t < n. tokens l s (G t)) = 1 \<longrightarrow>
          (\<exists>v'. V' s = Some v' \<and> 0 \<le> v' \<and> v' + owned ow + tokens l s g = v + owned ow0 + tokens l s (G c)))"
  shows "lock_ok (G(c := g)) V' L' Q n"
  unfolding lock_ok_def
proof (intro conjI allI impI ballI)
  show "(G(c := g)) t = []" if "n \<le> t" for t using I c that by (simp add: lock_ok_def)
  show "frame_below n f" if "f \<in> set ((G(c := g)) t)" for t f using I g that by (auto simp: lock_ok_def split: if_splits)
  show "s < n" if "s \<in> Q" for s using I that by (simp add: lock_ok_def)
  fix l ow s i assume l: "L' l = Some (ow, s, i)"
  then obtain ow0 where l0: "L l = Some (ow0, s, i)" "solvent l s g" using L by blast
  then obtain v where v: "V s = Some v" "0 \<le> v" "v + owned ow0 + (\<Sum>t < n. tokens l s (G t)) = 1" using I unfolding lock_ok_def by blast
  then obtain v' where v': "V' s = Some v'" "0 \<le> v'" "v' + owned ow + tokens l s g = v + owned ow0 + tokens l s (G c)" using L [OF l] l0 by auto
  from l0(1) I show "l < n" "s < n" "i < n" "s \<notin> Q" unfolding lock_ok_def by blast+
  show "solvent l s ((G(c := g)) t)" for t using l0 I by (auto simp: lock_ok_def)
  show "\<exists>v. V' s = Some v \<and> 0 \<le> v \<and> v + owned ow + (\<Sum>t < n. tokens l s ((G(c := g)) t)) = 1"
    using v v' by (intro exI [of _ v']) (simp add: sum_upd [OF c] del: fun_upd_apply)
  fix l' ow' s' i' assume "L' l' = Some (ow', s', i')"
  then obtain ow1 where "L l' = Some (ow1, s', i')" using L by blast
  then show "s \<noteq> i'" "s = s' \<Longrightarrow> l = l'" using I l0(1) unfolding lock_ok_def by blast+
qed

lemma lock_okI:
  assumes "\<And>t. n \<le> t \<Longrightarrow> G t = []" and "\<And>t f. f \<in> set (G t) \<Longrightarrow> frame_below n f" and "\<And>s. s \<in> Q \<Longrightarrow> s < n"
    and "\<And>l ow s i. L l = Some (ow, s, i) \<Longrightarrow> l < n \<and> s < n \<and> i < n \<and> s \<notin> Q"
    and "\<And>l ow s i l' ow' s' i'. L l = Some (ow, s, i) \<Longrightarrow> L l' = Some (ow', s', i') \<Longrightarrow> s \<noteq> i' \<and> (s = s' \<longrightarrow> l = l')"
    and "\<And>l ow s i t. L l = Some (ow, s, i) \<Longrightarrow> solvent l s (G t)"
    and "\<And>l ow s i. L l = Some (ow, s, i) \<Longrightarrow> \<exists>v. V s = Some v \<and> 0 \<le> v \<and> v + owned ow + (\<Sum>t < n. tokens l s (G t)) = 1"
  shows "lock_ok G V L Q n"
  unfolding lock_ok_def using assms by (intro conjI allI impI ballI) metis+

lemma lock_okD:
  assumes "lock_ok G V L Q n"
  shows "n \<le> t \<Longrightarrow> G t = []" "f \<in> set (G t) \<Longrightarrow> frame_below n f" "s \<in> Q \<Longrightarrow> s < n"
    "L l = Some (ow, s, i) \<Longrightarrow> l < n \<and> s < n \<and> i < n \<and> s \<notin> Q"
    "L l = Some (ow, s, i) \<Longrightarrow> L l' = Some (ow', s', i') \<Longrightarrow> s \<noteq> i' \<and> (s = s' \<longrightarrow> l = l')"
    "L l = Some (ow, s, i) \<Longrightarrow> solvent l s (G t)"
    "L l = Some (ow, s, i) \<Longrightarrow> \<exists>v. V s = Some v \<and> 0 \<le> v \<and> v + owned ow + (\<Sum>t < n. tokens l s (G t)) = 1"
  using assms unfolding lock_ok_def by (blast, blast, blast, blast, blast, blast, blast)

lemma lock_ok_values:
  assumes I: "lock_ok G V L Q n" and V: "\<And>s. s \<notin> Q \<Longrightarrow> V' s = V s" and Q: "Q' \<subseteq> Q"
  shows "lock_ok G V' L Q' n"
proof (rule lock_okI)
  fix l ow s i assume l: "L l = Some (ow, s, i)"
  then have "V' s = V s" using lock_okD(4) [OF I l] V by blast
  then show "\<exists>v. V' s = Some v \<and> 0 \<le> v \<and> v + owned ow + (\<Sum>t < n. tokens l s (G t)) = 1" using lock_okD(7) [OF I l] by simp
  show "l < n \<and> s < n \<and> i < n \<and> s \<notin> Q'" using lock_okD(4) [OF I l] Q by blast
  show "solvent l s (G t)" for t using lock_okD(6) [OF I l] .
next
  show "s < n" if "s \<in> Q'" for s using lock_okD(3) [OF I] that Q by blast
qed (use lock_okD(1,2,5) [OF I] in simp_all)

text \<open>New objects.\<close>

lemma tokens_more: "lock_ok G V L Q n \<Longrightarrow> n \<le> m \<Longrightarrow> (\<Sum>t < m. tokens l s (G t)) = (\<Sum>t < n. tokens l s (G t))"
  by (intro sum.mono_neutral_right) (auto simp: lock_okD(1))

lemma lock_ok_grow:
  assumes I: "lock_ok G V L Q n" and V: "\<And>s. s < n \<Longrightarrow> V' s = V s" and m: "n \<le> m" and Q: "Q' \<subseteq> Q \<union> {n..<m}"
  shows "lock_ok G V' L Q' m"
proof (rule lock_okI)
  fix l ow s i assume l: "L l = Some (ow, s, i)"
  have s: "l < n" "s < n" "i < n" "s \<notin> Q" using lock_okD(4) [OF I l] by simp_all
  then show "l < m \<and> s < m \<and> i < m \<and> s \<notin> Q'" using m Q by auto
  show "\<exists>v. V' s = Some v \<and> 0 \<le> v \<and> v + owned ow + (\<Sum>t < m. tokens l s (G t)) = 1"
    using lock_okD(7) [OF I l] V [OF s(2)] tokens_more [OF I m] by simp
  show "solvent l s (G t)" for t using lock_okD(6) [OF I l] .
next
  show "s < m" if "s \<in> Q'" for s using that Q lock_okD(3) [OF I, of s] m by auto
  show "frame_below m f" if "f \<in> set (G t)" for f t using frame_below_mono [OF lock_okD(2) [OF I that] m] .
qed (use lock_okD(1,5) [OF I] m in simp_all)

text \<open>A new lock \<open>l\<close> with new semaphores \<open>s\<close> and \<open>i\<close>.\<close>

lemma lock_ok_new_lock:
  assumes I: "lock_ok G V L Q n" and V: "\<And>s. s < n \<Longrightarrow> V' s = V s" and v: "V' s = Some 1"
    and n: "n \<le> s" "n \<le> i" "s \<noteq> i" "n \<le> l" "s < m" "i < m" "l < m" and L: "L' = L(l \<mapsto> (None, s, i))"
  shows "lock_ok G V' L' Q m"
proof -
  have I': "lock_ok G V' L Q m" using I V by (rule lock_ok_grow) (use n in auto)
  have f: "tokens l s (G t) = 0 \<and> solvent l s (G t)" for t using lock_okD(2) [OF I] n by (intro tokens_fresh) auto
  have old: "l' < n \<and> s' < n \<and> i' < n \<and> s' \<notin> Q" if "L l' = Some (ow, s', i')" for l' ow s' i' using lock_okD(4) [OF I that] .
  show ?thesis
  proof (rule lock_okI)
    fix l1 ow1 s1 i1 assume l1: "L' l1 = Some (ow1, s1, i1)"
    show "l1 < m \<and> s1 < m \<and> i1 < m \<and> s1 \<notin> Q"
      using l1 n lock_okD(3) [OF I] lock_okD(4) [OF I'] by (fastforce simp: L split: if_splits)
    show "solvent l1 s1 (G t)" for t using l1 f lock_okD(6) [OF I'] by (auto simp: L split: if_splits)
    show "\<exists>v. V' s1 = Some v \<and> 0 \<le> v \<and> v + owned ow1 + (\<Sum>t < m. tokens l1 s1 (G t)) = 1"
    proof (cases "l1 = l")
      case True
      then show ?thesis using l1 f v by (simp add: L owned_def)
    next
      case False
      then show ?thesis using l1 lock_okD(7) [OF I', of l1 ow1 s1 i1] by (simp add: L)
    qed
    fix l2 ow2 s2 i2 assume l2: "L' l2 = Some (ow2, s2, i2)"
    show "s1 \<noteq> i2 \<and> (s1 = s2 \<longrightarrow> l1 = l2)"
      using l1 l2 n old [of l1 ow1 s1 i1] old [of l2 ow2 s2 i2] lock_okD(5) [OF I, of l1 ow1 s1 i1 l2 ow2 s2 i2]
      by (auto simp: L split: if_splits)
  qed (use lock_okD(1,2,3) [OF I'] in simp_all)
qed

section \<open>On kernel states\<close>

definition lock_frames :: "kernel \<Rightarrow> tid \<Rightarrow> frame list" where
  "lock_frames k t = (case threads k t of None \<Rightarrow> [] | Some th \<Rightarrow> filter lock_frame (frames th))"

definition svalues :: "kernel \<Rightarrow> sid \<rightharpoonup> int" where
  "svalues k s = map_option svalue (semaphores k s)"

definition lock_view :: "kernel \<Rightarrow> lview" where
  "lock_view k l = map_option (\<lambda>lk. (thname lk, lsem lk, semInvP lk)) (locks k l)"

definition driver_sems :: "kernel \<Rightarrow> sid set" where
  "driver_sems k = {s. DriverDone s \<in> handlers k}"

definition cond_sems :: "(cid \<rightharpoonup> Condition) \<Rightarrow> sid set" where
  "cond_sems cs = {s. \<exists>c cd. cs c = Some cd \<and> s \<in> set (semList cd)}"

definition lock_inv :: "kernel \<Rightarrow> bool" where
  "lock_inv k \<longleftrightarrow> lock_ok (lock_frames k) (svalues k) (lock_view k) (driver_sems k \<union> cond_sems (conditions k)) (next_id k)
     \<and> dom (conditions k) \<subseteq> {..<next_id k}"

lemma lock_cong [simp]:
  "lock_frames (k\<lparr>readyListP := rl\<rparr>) = lock_frames k" "lock_frames (k\<lparr>currentThread := c\<rparr>) = lock_frames k"
  "lock_frames (k\<lparr>threadToBeDestroyed := d\<rparr>) = lock_frames k" "lock_frames (k\<lparr>machine := m\<rparr>) = lock_frames k"
  "lock_frames (k\<lparr>pageTablePtr := pt\<rparr>) = lock_frames k" "lock_frames (k\<lparr>level := lv\<rparr>) = lock_frames k"
  "lock_frames (k\<lparr>istatus := ms\<rparr>) = lock_frames k" "lock_frames (k\<lparr>yieldOnReturn := y\<rparr>) = lock_frames k"
  "lock_frames (k\<lparr>stats := sa\<rparr>) = lock_frames k" "lock_frames (k\<lparr>inHandler := ih\<rparr>) = lock_frames k"
  "lock_frames (k\<lparr>randoms := rd\<rparr>) = lock_frames k" "lock_frames (k\<lparr>ports := po\<rparr>) = lock_frames k"
  "lock_frames (k\<lparr>halted := h\<rparr>) = lock_frames k" "lock_frames (k\<lparr>semaphores := sm\<rparr>) = lock_frames k"
  "lock_frames (k\<lparr>locks := lo\<rparr>) = lock_frames k" "lock_frames (k\<lparr>conditions := co\<rparr>) = lock_frames k"
  "lock_frames (k\<lparr>next_id := n\<rparr>) = lock_frames k" "lock_frames (k\<lparr>pending := pe\<rparr>) = lock_frames k"
  "svalues (k\<lparr>readyListP := rl\<rparr>) = svalues k" "svalues (k\<lparr>currentThread := c\<rparr>) = svalues k"
  "svalues (k\<lparr>threadToBeDestroyed := d\<rparr>) = svalues k" "svalues (k\<lparr>machine := m\<rparr>) = svalues k"
  "svalues (k\<lparr>pageTablePtr := pt\<rparr>) = svalues k" "svalues (k\<lparr>level := lv\<rparr>) = svalues k"
  "svalues (k\<lparr>istatus := ms\<rparr>) = svalues k" "svalues (k\<lparr>yieldOnReturn := y\<rparr>) = svalues k"
  "svalues (k\<lparr>stats := sa\<rparr>) = svalues k" "svalues (k\<lparr>inHandler := ih\<rparr>) = svalues k"
  "svalues (k\<lparr>randoms := rd\<rparr>) = svalues k" "svalues (k\<lparr>ports := po\<rparr>) = svalues k"
  "svalues (k\<lparr>halted := h\<rparr>) = svalues k" "svalues (k\<lparr>threads := th\<rparr>) = svalues k"
  "svalues (k\<lparr>locks := lo\<rparr>) = svalues k" "svalues (k\<lparr>conditions := co\<rparr>) = svalues k"
  "svalues (k\<lparr>next_id := n\<rparr>) = svalues k" "svalues (k\<lparr>pending := pe\<rparr>) = svalues k"
  "lock_view (k\<lparr>readyListP := rl\<rparr>) = lock_view k" "lock_view (k\<lparr>currentThread := c\<rparr>) = lock_view k"
  "lock_view (k\<lparr>threadToBeDestroyed := d\<rparr>) = lock_view k" "lock_view (k\<lparr>machine := m\<rparr>) = lock_view k"
  "lock_view (k\<lparr>pageTablePtr := pt\<rparr>) = lock_view k" "lock_view (k\<lparr>level := lv\<rparr>) = lock_view k"
  "lock_view (k\<lparr>istatus := ms\<rparr>) = lock_view k" "lock_view (k\<lparr>yieldOnReturn := y\<rparr>) = lock_view k"
  "lock_view (k\<lparr>stats := sa\<rparr>) = lock_view k" "lock_view (k\<lparr>inHandler := ih\<rparr>) = lock_view k"
  "lock_view (k\<lparr>randoms := rd\<rparr>) = lock_view k" "lock_view (k\<lparr>ports := po\<rparr>) = lock_view k"
  "lock_view (k\<lparr>halted := h\<rparr>) = lock_view k" "lock_view (k\<lparr>threads := th\<rparr>) = lock_view k"
  "lock_view (k\<lparr>semaphores := sm\<rparr>) = lock_view k" "lock_view (k\<lparr>conditions := co\<rparr>) = lock_view k"
  "lock_view (k\<lparr>next_id := n\<rparr>) = lock_view k" "lock_view (k\<lparr>pending := pe\<rparr>) = lock_view k"
  "driver_sems (k\<lparr>readyListP := rl\<rparr>) = driver_sems k" "driver_sems (k\<lparr>currentThread := c\<rparr>) = driver_sems k"
  "driver_sems (k\<lparr>threadToBeDestroyed := d\<rparr>) = driver_sems k" "driver_sems (k\<lparr>machine := m\<rparr>) = driver_sems k"
  "driver_sems (k\<lparr>pageTablePtr := pt\<rparr>) = driver_sems k" "driver_sems (k\<lparr>level := lv\<rparr>) = driver_sems k"
  "driver_sems (k\<lparr>istatus := ms\<rparr>) = driver_sems k" "driver_sems (k\<lparr>yieldOnReturn := y\<rparr>) = driver_sems k"
  "driver_sems (k\<lparr>stats := sa\<rparr>) = driver_sems k" "driver_sems (k\<lparr>inHandler := ih\<rparr>) = driver_sems k"
  "driver_sems (k\<lparr>randoms := rd\<rparr>) = driver_sems k" "driver_sems (k\<lparr>ports := po\<rparr>) = driver_sems k"
  "driver_sems (k\<lparr>halted := h\<rparr>) = driver_sems k" "driver_sems (k\<lparr>threads := th\<rparr>) = driver_sems k"
  "driver_sems (k\<lparr>semaphores := sm\<rparr>) = driver_sems k" "driver_sems (k\<lparr>locks := lo\<rparr>) = driver_sems k"
  "driver_sems (k\<lparr>conditions := co\<rparr>) = driver_sems k" "driver_sems (k\<lparr>next_id := n\<rparr>) = driver_sems k"
  by (simp_all add: lock_frames_def svalues_def lock_view_def driver_sems_def handlers_def fun_eq_iff)

lemma lock_upd_thread [simp]:
  "svalues (upd_thread t f k) = svalues k" "lock_view (upd_thread t f k) = lock_view k" "driver_sems (upd_thread t f k) = driver_sems k"
  by (simp_all add: svalues_def lock_view_def driver_sems_def handlers_def fun_eq_iff)

lemma lock_upd_sem [simp]:
  "lock_frames (upd_sem s f k) = lock_frames k" "lock_view (upd_sem s f k) = lock_view k" "driver_sems (upd_sem s f k) = driver_sems k"
  "conditions (upd_sem s f k) = conditions k" "locks (upd_sem s f k) = locks k"
  "svalues (upd_sem s f k) = (svalues k)(s := map_option (\<lambda>sem. svalue (f sem)) (semaphores k s))"
  by (simp_all add: upd_sem_def svalues_def fun_eq_iff option.map_comp comp_def)

text \<open>Changes that no lock notices.\<close>

definition lock_quiet :: "kernel \<Rightarrow> kernel \<Rightarrow> bool" where
  "lock_quiet k k' \<longleftrightarrow> lock_frames k' = lock_frames k \<and> lock_view k' = lock_view k \<and> conditions k' = conditions k
     \<and> next_id k' = next_id k \<and> driver_sems k' \<subseteq> driver_sems k \<and> (\<forall>s. s \<notin> driver_sems k \<longrightarrow> svalues k' s = svalues k s)"

lemma lock_quiet_refl [simp]: "lock_quiet k k"
  by (simp add: lock_quiet_def)

lemma lock_quiet_trans [trans]:
  assumes a: "lock_quiet k k1" and b: "lock_quiet k1 k2"
  shows "lock_quiet k k2"
proof -
  have d: "driver_sems k1 \<subseteq> driver_sems k" using a by (simp add: lock_quiet_def)
  have "svalues k2 s = svalues k s" if "s \<notin> driver_sems k" for s
  proof -
    have "svalues k1 s = svalues k s" using a that by (simp add: lock_quiet_def)
    moreover have "svalues k2 s = svalues k1 s" using b that d unfolding lock_quiet_def by blast
    ultimately show ?thesis by simp
  qed
  moreover have "driver_sems k2 \<subseteq> driver_sems k" using b d unfolding lock_quiet_def by blast
  ultimately show ?thesis using a b by (simp add: lock_quiet_def)
qed

lemma lock_quiet_inv: "lock_inv k \<Longrightarrow> lock_quiet k k' \<Longrightarrow> lock_inv k'"
  unfolding lock_inv_def lock_quiet_def by (auto intro: lock_ok_values)

lemma lock_frames_upd:
  "(\<And>th. threads k t = Some th \<Longrightarrow> filter lock_frame (frames (f th)) = filter lock_frame (frames th)) \<Longrightarrow>
    lock_frames (upd_thread t f k) = lock_frames k"
  by (auto simp: lock_frames_def fun_eq_iff split: option.splits)

lemma lock_quiet_upd:
  "(\<And>th. threads k t = Some th \<Longrightarrow> filter lock_frame (frames (f th)) = filter lock_frame (frames th)) \<Longrightarrow> lock_quiet k (upd_thread t f k)"
  by (simp add: lock_quiet_def lock_frames_upd)

lemma lock_frames_push [simp]:
  "threads k (currentThread k) \<noteq> None \<Longrightarrow>
    lock_frames (push gs k) = (lock_frames k)(currentThread k := filter lock_frame gs @ lock_frames k (currentThread k))"
  by (auto simp: lock_frames_def push_def fun_eq_iff)

lemma lock_quiet_push: "\<forall>f \<in> set gs. \<not> lock_frame f \<Longrightarrow> lock_quiet k (push gs k)"
  unfolding push_def by (rule lock_quiet_upd) (simp add: filter_empty_conv)

lemma lock_quiet_cong [simp]:
  "lock_quiet k0 (k\<lparr>readyListP := rl\<rparr>) = lock_quiet k0 k" "lock_quiet k0 (k\<lparr>currentThread := c\<rparr>) = lock_quiet k0 k"
  "lock_quiet k0 (k\<lparr>machine := m\<rparr>) = lock_quiet k0 k" "lock_quiet k0 (k\<lparr>pageTablePtr := pt\<rparr>) = lock_quiet k0 k"
  "lock_quiet k0 (k\<lparr>threadToBeDestroyed := d\<rparr>) = lock_quiet k0 k" "lock_quiet k0 (k\<lparr>level := lv\<rparr>) = lock_quiet k0 k"
  "lock_quiet k0 (k\<lparr>istatus := ms\<rparr>) = lock_quiet k0 k" "lock_quiet k0 (k\<lparr>yieldOnReturn := y\<rparr>) = lock_quiet k0 k"
  "lock_quiet k0 (k\<lparr>randoms := rd\<rparr>) = lock_quiet k0 k" "lock_quiet k0 (k\<lparr>halted := h\<rparr>) = lock_quiet k0 k"
  "lock_quiet k0 (ChangeLevel l k) = lock_quiet k0 k"
  by (simp_all add: lock_quiet_def ChangeLevel_def)

lemma lock_view_upd: "lock_view (upd_lock l f k) = (lock_view k)(l := map_option (\<lambda>lk. (thname (f lk), lsem (f lk), semInvP (f lk))) (locks k l))"
  by (auto simp: lock_view_def upd_lock_def fun_eq_iff option.map_comp comp_def)

lemma upd_lock_simps [simp]:
  "lock_frames (upd_lock l f k) = lock_frames k" "svalues (upd_lock l f k) = svalues k" "driver_sems (upd_lock l f k) = driver_sems k"
  "conditions (upd_lock l f k) = conditions k" "next_id (upd_lock l f k) = next_id k" "currentThread (upd_lock l f k) = currentThread k"
  "threads (upd_lock l f k) = threads k"
  by (simp_all add: upd_lock_def)

interpretation lock_sched: scheduling lock_quiet
proof
  show "lock_quiet k (upd_thread t f k)" if "\<And>th. frames (f th) = frames th" for k t f
    using that by (intro lock_quiet_upd) simp
  show "lock_quiet k (push fs k)" if "\<forall>f \<in> set fs. resume_frame f" for fs k
    using that by (intro lock_quiet_push) (auto simp: resume_frame_def lock_frame_def split: frame.splits)
  show "lock_quiet k (upd_lock l (\<lambda>lk. lk\<lparr>Prioritymax := p\<rparr>) k)" for l p k
    by (auto simp: lock_quiet_def lock_view_upd) (auto simp: lock_view_def fun_eq_iff)
qed (auto intro: lock_quiet_trans)

interpretation lock_switch: switching lock_quiet
proof
  show "lock_quiet k (k\<lparr>threads := (threads k)(d := None), threadToBeDestroyed := None\<rparr>)"
    if "threads k d = Some th" "set (frames th) \<subseteq> {AfterSwitch}" for k d th
  proof -
    have "lock_frames k d = []" using that by (auto simp: lock_frames_def filter_empty_conv lock_frame_def)
    then show ?thesis by (auto simp: lock_quiet_def) (auto simp: lock_frames_def fun_eq_iff)
  qed
qed simp

text \<open>The body of \<^verbatim>\<open>V\<close>: the value of the semaphore goes up by one, nothing else that a lock notices.\<close>

definition bump :: "sid \<Rightarrow> int \<Rightarrow> (sid \<rightharpoonup> int) \<Rightarrow> (sid \<rightharpoonup> int)" where
  "bump s d V = V(s := map_option (\<lambda>v. v + d) (V s))"

lemma lock_quiet_values: "lock_quiet k k' \<Longrightarrow> s \<notin> driver_sems k \<Longrightarrow> svalues k' s = svalues k s"
  by (simp add: lock_quiet_def)

lemma ReadyToRun_values: "ReadyToRun t k = Inr k' \<Longrightarrow> svalues k' = svalues k \<and> driver_sems k' = driver_sems k"
  by (auto simp: ReadyToRun_def Let_def rbind_eq_Inr)

lemma V_effect:
  assumes V: "Semaphore_V s k = Inr k'"
  shows "lock_frames k' = lock_frames k" "lock_view k' = lock_view k" "conditions k' = conditions k" "next_id k' = next_id k"
    "driver_sems k' = driver_sems k" "svalues k' = bump s 1 (svalues k)"
proof -
  let ?k1 = "ChangeLevel IntOff k"
  obtain sem k2 where sem: "semaphores ?k1 s = Some sem"
    and k2: "(case squeue sem of [] \<Rightarrow> Inr ?k1 | t # ts \<Rightarrow> ReadyToRun t (upd_sem s (\<lambda>sem. sem\<lparr>squeue := ts\<rparr>) ?k1)) = Inr k2"
    and k': "k' = leave (level k) (upd_sem s (\<lambda>sem. sem\<lparr>svalue := svalue sem + 1\<rparr>) k2)"
    using V by (auto simp: Semaphore_V_def Let_def rbind_eq_Inr)
  have sv: "svalues k s = Some (svalue sem)" using sem by (simp add: svalues_def ChangeLevel_def)
  have "svalues (upd_sem s (\<lambda>sem. sem\<lparr>squeue := ts\<rparr>) ?k1) = svalues k" for ts
    using sem by (auto simp: ChangeLevel_def svalues_def fun_eq_iff)
  then have "lock_quiet k k2 \<and> svalues k2 = svalues k \<and> driver_sems k2 = driver_sems k"
    using k2 lock_sched.ReadyToRun_Q ReadyToRun_values
    by (cases "squeue sem") (fastforce simp: lock_quiet_def ChangeLevel_def)+
  then have K: "lock_frames k2 = lock_frames k" "lock_view k2 = lock_view k" "conditions k2 = conditions k" "next_id k2 = next_id k"
    "driver_sems k2 = driver_sems k" "svalues k2 = svalues k" by (simp_all add: lock_quiet_def)
  let ?k3 = "upd_sem s (\<lambda>sem. sem\<lparr>svalue := svalue sem + 1\<rparr>) k2"
  have "svalues ?k3 = bump s 1 (svalues k)"
    unfolding K(6) [symmetric] by (auto simp: bump_def svalues_def fun_eq_iff option.map_comp comp_def)
  moreover have "lock_quiet ?k3 k'" "svalues k' = svalues ?k3" "driver_sems k' = driver_sems ?k3"
    unfolding k' using lock_sched.leave_Q by (simp_all add: leave_def ChangeLevel_def push_def)
  ultimately show "lock_frames k' = lock_frames k" "lock_view k' = lock_view k" "conditions k' = conditions k" "next_id k' = next_id k"
    "driver_sems k' = driver_sems k" "svalues k' = bump s 1 (svalues k)"
    using K by (simp_all add: lock_quiet_def)
qed

section \<open>Interrupts\<close>

lemma lock_quiet_system:
  assumes "lock_quiet k0 k" and "system_of k' = system_of k" and "driver_sems k' \<subseteq> driver_sems k"
  shows "lock_quiet k0 k'"
proof -
  note f = system_fields [OF assms(2)]
  then have "lock_frames k' = lock_frames k" "svalues k' = svalues k" "lock_view k' = lock_view k"
    by (simp_all add: lock_frames_def svalues_def lock_view_def fun_eq_iff)
  with f assms show ?thesis by (auto simp: lock_quiet_def)
qed

lemma handlers_driver: "handlers k' \<subseteq> handlers k \<Longrightarrow> driver_sems k' \<subseteq> driver_sems k"
  by (auto simp: driver_sems_def)

lemma Schedule_handlers:
  assumes "Schedule d n ty k = Inr k'"
  shows "handlers k' = insert d (handlers k)"
proof -
  obtain w where "pending k' = insert_sorted w (PendingInterrupt_new d w ty) (pending k)"
    using assms by (auto simp: Schedule_def Let_def)
  then show ?thesis by (simp add: handlers_def set_insert_sorted PendingInterrupt_new_def)
qed

lemma TimerExpired_drivers:
  assumes "TimerExpired (\<lambda>_. TimerInterruptHandler) (TimerDevice b) t r k = Inr k'"
  shows "driver_sems k' = driver_sems k"
proof -
  obtain k1 where k1: "Schedule (TimerDevice b) (TimeOfNextInterrupt t r) TimerInt k = Inr k1" "TimerInterruptHandler k1 = Inr k'"
    using assms by (auto simp: TimerExpired_def rbind_eq_Inr)
  then have "driver_sems k' = driver_sems k1" by (cases "istatus k1 = IdleMode") (auto simp: TimerInterruptHandler_def YieldOnReturn_def)
  also have "\<dots> = driver_sems k" using Schedule_handlers [OF k1(1)] by (simp add: driver_sems_def)
  finally show ?thesis .
qed

lemma device_call_lock:
  assumes Q: "lock_quiet k0 k" and d: "\<And>s. d = DriverDone s \<Longrightarrow> s \<in> driver_sems k0" and D: "device_call d k = Inr k'"
  shows "lock_quiet k0 k'"
proof (cases d)
  case (TimerDevice r)
  let ?k = "if r then k\<lparr>randoms := (\<lambda>n. randoms k (Suc n))\<rparr> else k"
  have T: "TimerExpired (\<lambda>_. TimerInterruptHandler) d \<lparr>randomize = r, timer_handler = ()\<rparr> (int (randoms k 0)) ?k = Inr k'"
    using D TimerDevice by (simp add: device_call_def)
  have "lock_quiet k0 ?k" using Q by simp
  then show ?thesis using lock_quiet_system TimerExpired_system [OF T] TimerExpired_drivers T TimerDevice by (metis order_refl)
next
  case (DriverDone s)
  then have V: "Semaphore_V s k = Inr k'" using D by (simp add: device_call_def)
  have "svalues k' u = svalues k u" if "u \<notin> driver_sems k0" for u
    using V_effect(6) [OF V] d [OF DriverDone] that by (auto simp: bump_def)
  then show ?thesis using Q V_effect(1-5) [OF V] by (simp add: lock_quiet_def)
qed

interpretation lockq: interrupt_invariant device_call delayed_load "lock_quiet k0"
proof
  fix i i' :: kernel
  assume "lock_quiet k0 i" "system_of i' = system_of i" "handlers i' \<subseteq> handlers i"
  then show "lock_quiet k0 i'" using lock_quiet_system handlers_driver by metis
next
  fix i0 i i' :: kernel and d
  assume Q: "lock_quiet k0 i0" and d: "d \<in> handlers i0" and s: "system_of i0 = system_of i" "handlers i \<subseteq> handlers i0" "device_call d i = Inr i'"
  have "lock_quiet k0 i" by (rule lock_quiet_system [OF Q s(1) [symmetric] handlers_driver [OF s(2)]])
  moreover have "u \<in> driver_sems k0" if "d = DriverDone u" for u using d that Q by (auto simp: lock_quiet_def driver_sems_def)
  ultimately show "lock_quiet k0 i'" using device_call_lock s(3) by metis
next
  fix i0 i i' :: kernel
  assume K: "lock_quiet k0 i0" "system_of i0 = system_of i" "delayed_load i = Inr i'"
  obtain m where m: "i' = i\<lparr>machine := m\<rparr>" using delayed_load_system [OF K(3)] .
  let ?i = "set_system (system_of i') i0"
  have "driver_sems ?i = driver_sems i0" by (simp add: driver_sems_def handlers_def)
  then have "lock_quiet k0 (?i\<lparr>machine := machine i0\<rparr>)"
    using lock_quiet_system [OF K(1), of "?i\<lparr>machine := machine i0\<rparr>"] K(2) m by (cases i0; cases i) simp
  then show "lock_quiet k0 ?i \<and> pending i' = pending i \<and> level i' = level i" using m by simp
qed

section \<open>Ticks and sleeping\<close>

interpretation lock_ticks: interruptible lock_quiet
  by unfold_locales (simp_all add: lockq.interrupt_invariant_axioms [unfolded interrupt_invariant_def])

section \<open>Operations on semaphores and locks\<close>

text \<open>The invariant while the current thread runs a frame that has been taken off its stack.\<close>

definition with_frame :: "frame \<Rightarrow> kernel \<Rightarrow> tid \<Rightarrow> frame list" where
  "with_frame f k = (lock_frames k)(currentThread k := filter lock_frame [f] @ lock_frames k (currentThread k))"

definition lock_pre :: "frame \<Rightarrow> kernel \<Rightarrow> bool" where
  "lock_pre f k \<longleftrightarrow> lock_ok (with_frame f k) (svalues k) (lock_view k) (driver_sems k \<union> cond_sems (conditions k)) (next_id k)
     \<and> dom (conditions k) \<subseteq> {..<next_id k} \<and> currentThread k < next_id k \<and> threads k (currentThread k) \<noteq> None"

lemma lock_pre_other: "\<not> lock_frame f \<Longrightarrow> lock_pre f k \<Longrightarrow> lock_inv k"
  by (simp add: lock_pre_def lock_inv_def with_frame_def)

lemma with_frame_upd: "(with_frame f k)(currentThread k := g) = (lock_frames k)(currentThread k := g)"
  by (simp add: with_frame_def)

lemma with_frame_self: "(with_frame f k)(currentThread k := lock_frames k (currentThread k)) = lock_frames k"
  by (simp add: with_frame_def)

lemma weight_simps [simp]:
  "weight l s (CallP s') = (if s' = s then -1 else 0)" "weight l s (P_loop s' old) = (if s' = s then -1 else 0)"
  "weight l s (CallV s') = (if s' = s then 1 else 0)" "weight l s (SetOwner l') = (if l' = l then 1 else 0)"
  by (simp_all add: weight_def)

lemma lock_frame_simps [simp]:
  "lock_frame (CallP s)" "lock_frame (P_loop s old)" "lock_frame (CallV s)" "lock_frame (SetOwner l)"
  by (simp_all add: lock_frame_def)

lemma frame_below_simps [simp]:
  "frame_below n (CallP s) = (s < n)" "frame_below n (P_loop s old) = (s < n)" "frame_below n (CallV s) = (s < n)"
  "frame_below n (SetOwner l) = (l < n)"
  by (simp_all add: frame_below_def)

lemma P_iteration_lock:
  assumes pre: "lock_pre f k" and f: "f = CallP s \<or> f = P_loop s old'" and P: "P_iteration s old k = Some (Inr k')"
  shows "lock_inv k' \<and> lock_view k' = lock_view k"
proof -
  let ?c = "currentThread k" and ?L = "lock_view k" and ?Q = "driver_sems k \<union> cond_sems (conditions k)" and ?n = "next_id k"
  let ?g = "lock_frames k ?c"
  have I: "lock_ok (with_frame f k) (svalues k) ?L ?Q ?n" and d: "dom (conditions k) \<subseteq> {..<?n}" and c: "?c < ?n" "threads k ?c \<noteq> None"
    using pre by (simp_all add: lock_pre_def)
  have G: "with_frame f k ?c = f # ?g" using f by (auto simp: with_frame_def)
  have below: "\<forall>h \<in> set (f # ?g). frame_below ?n h" using lock_okD(2) [OF I] G by metis
  have solv: "solvent l s' (f # ?g)" if "?L l = Some (ow, s', i)" for l ow s' i using lock_okD(6) [OF I that, of ?c] G by simp
  have w: "weight l s' f = (if s = s' then -1 else 0)" for l s' using f by auto
  obtain sem where sem: "semaphores k s = Some sem" using P by (auto simp: P_iteration_def split: sum.splits)
  then have sv: "svalues k s = Some (svalue sem)" by (simp add: svalues_def)
  show ?thesis
  proof (cases "svalue sem = 0")
    case True
    let ?f = "\<lambda>sem. sem\<lparr>squeue := squeue sem @ [?c]\<rparr>"
    let ?k2 = "push [P_loop s old] (upd_sem s ?f k)"
    have v2: "lock_frames ?k2 = (with_frame f k)(?c := P_loop s old # ?g)" using c(2) by (simp add: with_frame_upd)
    have o: "lock_view ?k2 = ?L" "conditions ?k2 = conditions k" "next_id ?k2 = ?n" "driver_sems ?k2 = driver_sems k" "svalues ?k2 = svalues k"
      using sem by (auto simp: push_def svalues_def fun_eq_iff)
    have "lock_ok ((with_frame f k)(?c := P_loop s old # ?g)) (svalues k) ?L ?Q ?n"
    proof (rule lock_ok_move [OF I c(1)])
      show "\<forall>h \<in> set (P_loop s old # ?g). frame_below ?n h" using below f by auto
      fix l ow s' i assume l: "?L l = Some (ow, s', i)"
      show "\<exists>ow0. ?L l = Some (ow0, s', i) \<and> solvent l s' (P_loop s old # ?g)
        \<and> (\<forall>v. svalues k s' = Some v \<longrightarrow> 0 \<le> v \<longrightarrow> v + owned ow0 + (\<Sum>t < ?n. tokens l s' (with_frame f k t)) = 1 \<longrightarrow>
          (\<exists>v'. svalues k s' = Some v' \<and> 0 \<le> v' \<and> v' + owned ow + tokens l s' (P_loop s old # ?g) = v + owned ow0 + tokens l s' (with_frame f k ?c)))"
        using solv [OF l] l by (auto simp: G w)
    qed
    then have "lock_inv ?k2" using d by (simp add: lock_inv_def v2 o)
    moreover have "Thread_Sleep ?k2 = Some (Inr k')" using P sem True by (simp add: P_iteration_def)
    then have "lock_quiet ?k2 k'" by (rule lock_ticks.Sleep_Q)
    ultimately show ?thesis using lock_quiet_inv o(1) by (simp add: lock_quiet_def)
  next
    case False
    let ?k2 = "upd_sem s (\<lambda>sem. sem\<lparr>svalue := svalue sem - 1\<rparr>) k"
    have v2: "svalues ?k2 = (svalues k)(s \<mapsto> svalue sem - 1)" using sem by simp
    have "lock_ok ((with_frame f k)(?c := ?g)) (svalues ?k2) ?L ?Q ?n"
    proof (rule lock_ok_move [OF I c(1)])
      show "\<forall>h \<in> set ?g. frame_below ?n h" using below by auto
      fix l ow s' i assume l: "?L l = Some (ow, s', i)"
      show "\<exists>ow0. ?L l = Some (ow0, s', i) \<and> solvent l s' ?g
        \<and> (\<forall>v. svalues k s' = Some v \<longrightarrow> 0 \<le> v \<longrightarrow> v + owned ow0 + (\<Sum>t < ?n. tokens l s' (with_frame f k t)) = 1 \<longrightarrow>
          (\<exists>v'. svalues ?k2 s' = Some v' \<and> 0 \<le> v' \<and> v' + owned ow + tokens l s' ?g = v + owned ow0 + tokens l s' (with_frame f k ?c)))"
        using solv [OF l] l False sv sem by (auto simp: G w v2)
    qed
    then have "lock_inv ?k2" using d by (simp add: lock_inv_def with_frame_self)
    moreover have "k' = leave old ?k2" using P sem False by (simp add: P_iteration_def)
    ultimately show ?thesis using lock_quiet_inv lock_sched.leave_Q [of ?k2 old] by (simp add: lock_quiet_def)
  qed
qed

text \<open>What a step of the current thread \<open>c\<close> may do to the owner of a lock: only the owner itself gives it up.\<close>

definition owner_kept :: "tid \<Rightarrow> lview \<Rightarrow> lview \<Rightarrow> bool" where
  "owner_kept c L L' \<longleftrightarrow> (\<forall>l t s i. L l = Some (Some t, s, i) \<longrightarrow> L' l = Some (Some t, s, i) \<or> t = c \<and> L' l = Some (None, s, i))"

definition lock_post :: "kernel \<Rightarrow> kernel \<Rightarrow> bool" where
  "lock_post k k' \<longleftrightarrow> lock_inv k' \<and> owner_kept (currentThread k) (lock_view k) (lock_view k')"

lemma lock_post_same: "lock_inv k' \<Longrightarrow> lock_view k' = lock_view k \<Longrightarrow> lock_post k k'"
  by (simp add: lock_post_def owner_kept_def)

lemma lock_post_quiet: "lock_inv k \<Longrightarrow> lock_quiet k k' \<Longrightarrow> lock_post k k'"
  using lock_quiet_inv by (auto intro: lock_post_same simp: lock_quiet_def)

lemma V_lock:
  assumes pre: "lock_pre (CallV s) k" and V: "Semaphore_V s k = Inr k'"
  shows "lock_post k k'"
proof (rule lock_post_same)
  let ?c = "currentThread k" and ?L = "lock_view k" and ?Q = "driver_sems k \<union> cond_sems (conditions k)" and ?n = "next_id k"
  let ?g = "lock_frames k ?c" and ?G = "with_frame (CallV s) k"
  note E = V_effect [OF V]
  have I: "lock_ok ?G (svalues k) ?L ?Q ?n" and d: "dom (conditions k) \<subseteq> {..<?n}" and c: "?c < ?n"
    using pre by (simp_all add: lock_pre_def)
  have G: "?G ?c = CallV s # ?g" by (simp add: with_frame_def)
  have "lock_ok (?G(?c := ?g)) (bump s 1 (svalues k)) ?L ?Q ?n"
  proof (rule lock_ok_move [OF I c])
    show "\<forall>h \<in> set ?g. frame_below ?n h" using lock_okD(2) [OF I, of _ ?c] G by auto
    fix l ow s' i assume l: "?L l = Some (ow, s', i)"
    show "\<exists>ow0. ?L l = Some (ow0, s', i) \<and> solvent l s' ?g
      \<and> (\<forall>v. svalues k s' = Some v \<longrightarrow> 0 \<le> v \<longrightarrow> v + owned ow0 + (\<Sum>t < ?n. tokens l s' (?G t)) = 1 \<longrightarrow>
        (\<exists>v'. bump s 1 (svalues k) s' = Some v' \<and> 0 \<le> v' \<and> v' + owned ow + tokens l s' ?g = v + owned ow0 + tokens l s' (?G ?c)))"
      using lock_okD(6) [OF I l, of ?c] l by (auto simp: G bump_def)
  qed
  then show "lock_inv k'" using d by (simp add: lock_inv_def E with_frame_self)
  show "lock_view k' = ?L" by (rule E(2))
qed

lemma lock_view_Some: "lock_view k l = Some (ow, s, i) \<longleftrightarrow> (\<exists>lk. locks k l = Some lk \<and> thname lk = ow \<and> lsem lk = s \<and> semInvP lk = i)"
  by (auto simp: lock_view_def)

text \<open>When a thread is about to become the owner, there is none.\<close>

lemma set_owner_free:
  assumes I: "lock_ok G V L Q n" and l: "L l = Some (ow, s, i)" and G: "G c = SetOwner l # g" "c < n"
  shows "ow = None"
proof -
  obtain v where v: "0 \<le> v" "v + owned ow + (\<Sum>t < n. tokens l s (G t)) = 1" using lock_okD(7) [OF I l] by blast
  have "solvent l s (G c)" using lock_okD(6) [OF I l] .
  then have "0 \<le> tokens l s g" using G(1) solvent_tokens [of l s g] by simp
  then have "1 \<le> tokens l s (G c)" using G(1) by simp
  moreover have "tokens l s (G c) \<le> (\<Sum>t < n. tokens l s (G t))"
    using G(2) lock_okD(6) [OF I l] solvent_tokens by (intro member_le_sum) auto
  ultimately show ?thesis using v by (auto simp: owned_def split: if_splits)
qed

lemma set_owner_lock:
  assumes pre: "lock_pre (SetOwner l) k" and S: "Lock_set_owner l k = Inr k'"
  shows "lock_post k k'"
proof -
  let ?c = "currentThread k" and ?L = "lock_view k" and ?Q = "driver_sems k \<union> cond_sems (conditions k)" and ?n = "next_id k"
  let ?g = "lock_frames k ?c" and ?G = "with_frame (SetOwner l) k"
  obtain lk where lk: "locks k l = Some lk" and k': "k' = upd_lock l (\<lambda>lk. lk\<lparr>thname := Some ?c\<rparr>) k"
    using S by (auto simp: Lock_set_owner_def rbind_eq_Inr)
  have I: "lock_ok ?G (svalues k) ?L ?Q ?n" and d: "dom (conditions k) \<subseteq> {..<?n}" and c: "?c < ?n"
    using pre by (simp_all add: lock_pre_def)
  have G: "?G ?c = SetOwner l # ?g" by (simp add: with_frame_def)
  have L: "?L l = Some (thname lk, lsem lk, semInvP lk)" using lk by (simp add: lock_view_def)
  have free: "thname lk = None" using set_owner_free [OF I L G c] .
  have L': "lock_view k' = ?L(l \<mapsto> (Some ?c, lsem lk, semInvP lk))" unfolding k' using lk by (simp add: lock_view_upd)
  have "lock_ok (?G(?c := ?g)) (svalues k) (lock_view k') ?Q ?n"
  proof (rule lock_ok_move [OF I c])
    show "\<forall>h \<in> set ?g. frame_below ?n h" using lock_okD(2) [OF I, of _ ?c] G by auto
    fix l' ow s' i assume l': "lock_view k' l' = Some (ow, s', i)"
    show "\<exists>ow0. ?L l' = Some (ow0, s', i) \<and> solvent l' s' ?g
      \<and> (\<forall>v. svalues k s' = Some v \<longrightarrow> 0 \<le> v \<longrightarrow> v + owned ow0 + (\<Sum>t < ?n. tokens l' s' (?G t)) = 1 \<longrightarrow>
        (\<exists>v'. svalues k s' = Some v' \<and> 0 \<le> v' \<and> v' + owned ow + tokens l' s' ?g = v + owned ow0 + tokens l' s' (?G ?c)))"
    proof (cases "l' = l")
      case True
      then show ?thesis using l' L free lock_okD(6) [OF I L, of ?c] by (auto simp: L' G owned_def)
    next
      case False
      then have "?L l' = Some (ow, s', i)" using l' by (simp add: L')
      then show ?thesis using False lock_okD(6) [OF I, of l' ow s' i ?c] by (auto simp: G)
    qed
  qed
  then have "lock_inv k'" using d by (simp add: lock_inv_def with_frame_self) (simp add: k')
  moreover have "owner_kept ?c ?L (lock_view k')" using L free by (auto simp: owner_kept_def L')
  ultimately show ?thesis by (simp add: lock_post_def)
qed

text \<open>Pushing calls whose tokens cancel out.\<close>

lemma push_lock:
  assumes I: "lock_inv k" and c: "currentThread k < next_id k" "threads k (currentThread k) \<noteq> None"
    and b: "\<forall>f \<in> set (filter lock_frame gs). frame_below (next_id k) f"
    and w: "\<And>l ow s i g. lock_view k l = Some (ow, s, i) \<Longrightarrow> solvent l s g \<Longrightarrow>
      tokens l s (filter lock_frame gs) = 0 \<and> solvent l s (filter lock_frame gs @ g)"
  shows "lock_post k (push gs k)"
proof (rule lock_post_same)
  let ?c = "currentThread k" and ?L = "lock_view k" and ?Q = "driver_sems k \<union> cond_sems (conditions k)" and ?n = "next_id k"
  let ?g = "lock_frames k ?c" and ?h = "filter lock_frame gs"
  have J: "lock_ok (lock_frames k) (svalues k) ?L ?Q ?n" and d: "dom (conditions k) \<subseteq> {..<?n}" using I by (simp_all add: lock_inv_def)
  have "lock_ok ((lock_frames k)(?c := ?h @ ?g)) (svalues k) ?L ?Q ?n"
  proof (rule lock_ok_move [OF J c(1)])
    show "\<forall>f \<in> set (?h @ ?g). frame_below ?n f" using b lock_okD(2) [OF J, of _ ?c] by auto
    fix l ow s i assume l: "?L l = Some (ow, s, i)"
    show "\<exists>ow0. ?L l = Some (ow0, s, i) \<and> solvent l s (?h @ ?g)
      \<and> (\<forall>v. svalues k s = Some v \<longrightarrow> 0 \<le> v \<longrightarrow> v + owned ow0 + (\<Sum>t < ?n. tokens l s (lock_frames k t)) = 1 \<longrightarrow>
        (\<exists>v'. svalues k s = Some v' \<and> 0 \<le> v' \<and> v' + owned ow + tokens l s (?h @ ?g) = v + owned ow0 + tokens l s ?g))"
      using l w [OF l lock_okD(6) [OF J l, of ?c]] by auto
  qed
  then show "lock_inv (push gs k)" using d c(2) by (simp add: lock_inv_def) (simp add: push_def)
  show "lock_view (push gs k) = ?L" by (simp add: push_def)
qed

lemma Acquire_lock:
  assumes I: "lock_inv k" and c: "currentThread k < next_id k" "threads k (currentThread k) \<noteq> None" and A: "Lock_Acquire l k = Inr k'"
  shows "lock_post k k'"
proof -
  obtain lk where lk: "locks k l = Some lk"
    and k': "k' = (if \<not> isHeldByCurrentThread lk k then push [CallP (semInvP lk), Donate l, CallV (semInvP lk), CallP (lsem lk), SetOwner l] k else k)"
    using A by (auto simp: Lock_Acquire_def rbind_eq_Inr)
  let ?gs = "[CallP (semInvP lk), Donate l, CallV (semInvP lk), CallP (lsem lk), SetOwner l]"
  have J: "lock_ok (lock_frames k) (svalues k) (lock_view k) (driver_sems k \<union> cond_sems (conditions k)) (next_id k)"
    using I by (simp add: lock_inv_def)
  have L: "lock_view k l = Some (thname lk, lsem lk, semInvP lk)" using lk by (simp add: lock_view_def)
  have fl: "filter lock_frame ?gs = [CallP (semInvP lk), CallV (semInvP lk), CallP (lsem lk), SetOwner l]" by (simp add: lock_frame_def)
  have "lock_post k (push ?gs k)"
  proof (rule push_lock [OF I c])
    show "\<forall>f \<in> set (filter lock_frame ?gs). frame_below (next_id k) f" unfolding fl using lock_okD(4) [OF J L] by simp
    fix l' ow s i g assume l': "lock_view k l' = Some (ow, s, i)" and g: "solvent l' s g"
    have "s \<noteq> semInvP lk" "lsem lk = s \<longleftrightarrow> l = l'" using lock_okD(5) [OF J l' L] lock_okD(5) [OF J L l'] l' L by auto
    then show "tokens l' s (filter lock_frame ?gs) = 0 \<and> solvent l' s (filter lock_frame ?gs @ g)"
      unfolding fl using g solvent_tokens [OF g] by auto
  qed
  then show ?thesis using k' lock_post_quiet [OF I lock_quiet_refl] by simp
qed

lemma Release_lock:
  assumes I: "lock_inv k" and c: "currentThread k < next_id k" "threads k (currentThread k) \<noteq> None" and R: "Lock_Release l k = Inr k'"
  shows "lock_post k k'"
proof -
  let ?c = "currentThread k" and ?L = "lock_view k" and ?Q = "driver_sems k \<union> cond_sems (conditions k)" and ?n = "next_id k"
  let ?g = "lock_frames k ?c"
  obtain lk where lk: "locks k l = Some lk" "thname lk = Some ?c"
    and k': "k' = push [CallV (lsem lk)] (upd_lock l (\<lambda>lk. lk\<lparr>thname := None\<rparr>) k)"
    using R by (auto simp: Lock_Release_def rbind_eq_Inr isHeldByCurrentThread_def)
  have J: "lock_ok (lock_frames k) (svalues k) ?L ?Q ?n" and d: "dom (conditions k) \<subseteq> {..<?n}" using I by (simp_all add: lock_inv_def)
  have L: "?L l = Some (Some ?c, lsem lk, semInvP lk)" using lk by (simp add: lock_view_def)
  have L': "lock_view k' = ?L(l \<mapsto> (None, lsem lk, semInvP lk))" unfolding k' using lk by (simp add: push_def lock_view_upd)
  have "lock_ok ((lock_frames k)(?c := CallV (lsem lk) # ?g)) (svalues k) (lock_view k') ?Q ?n"
  proof (rule lock_ok_move [OF J c(1)])
    show "\<forall>f \<in> set (CallV (lsem lk) # ?g). frame_below ?n f" using lock_okD(2) [OF J, of _ ?c] lock_okD(4) [OF J L] by auto
    fix l' ow s i assume l': "lock_view k' l' = Some (ow, s, i)"
    then obtain ow0 where l0: "?L l' = Some (ow0, s, i)" "l' \<noteq> l \<longrightarrow> ow0 = ow" "l' = l \<longrightarrow> ow0 = Some ?c \<and> ow = None \<and> s = lsem lk"
      using L by (auto simp: L' split: if_splits)
    have "lsem lk = s \<longleftrightarrow> l' = l" using lock_okD(5) [OF J L l0(1)] l0 by auto
    then show "\<exists>ow0. ?L l' = Some (ow0, s, i) \<and> solvent l' s (CallV (lsem lk) # ?g)
      \<and> (\<forall>v. svalues k s = Some v \<longrightarrow> 0 \<le> v \<longrightarrow> v + owned ow0 + (\<Sum>t < ?n. tokens l' s (lock_frames k t)) = 1 \<longrightarrow>
        (\<exists>v'. svalues k s = Some v' \<and> 0 \<le> v' \<and> v' + owned ow + tokens l' s (CallV (lsem lk) # ?g) = v + owned ow0 + tokens l' s ?g))"
      using l0 lock_okD(6) [OF J l0(1), of ?c] solvent_tokens [of l' s ?g] by (cases "l' = l") (auto simp: owned_def)
  qed
  moreover have "lock_frames k' = (lock_frames k)(?c := CallV (lsem lk) # ?g)" using c(2) by (simp add: k')
  moreover have "svalues k' = svalues k" "driver_sems k' = driver_sems k" "conditions k' = conditions k" "next_id k' = ?n"
    by (simp_all add: k' push_def)
  ultimately have "lock_inv k'" using d by (simp add: lock_inv_def)
  moreover have "owner_kept ?c ?L (lock_view k')" using L by (auto simp: owner_kept_def L')
  ultimately show ?thesis by (simp add: lock_post_def)
qed

text \<open>Waiting on and signalling the semaphores of condition variables.\<close>

lemma with_lock_InrD: "with_lock c k body = Inr k' \<Longrightarrow> \<exists>cd. conditions k c = Some cd \<and> body cd = Inr k'"
  by (auto elim: with_lock_Inr)

lemma other_sem_push:
  assumes I: "lock_inv k" and c: "currentThread k < next_id k" "threads k (currentThread k) \<noteq> None"
    and s: "s < next_id k" "\<And>l ow i. lock_view k l \<noteq> Some (ow, s, i)"
    and gs: "filter lock_frame gs = [CallP s] \<or> filter lock_frame gs = [CallV s] \<or> filter lock_frame gs = []"
  shows "lock_post k (push gs k)"
proof (rule push_lock [OF I c])
  show "\<forall>f \<in> set (filter lock_frame gs). frame_below (next_id k) f" using gs s(1) by (elim disjE) (simp_all del: set_filter)
  fix l ow s' i g assume "lock_view k l = Some (ow, s', i)" and g: "solvent l s' g"
  then have "s' \<noteq> s" using s(2) by auto
  then show "tokens l s' (filter lock_frame gs) = 0 \<and> solvent l s' (filter lock_frame gs @ g)"
    using gs g solvent_tokens [OF g] by auto
qed

lemma upd_cond_simps [simp]:
  "lock_frames (upd_cond c f k) = lock_frames k" "svalues (upd_cond c f k) = svalues k" "lock_view (upd_cond c f k) = lock_view k"
  "driver_sems (upd_cond c f k) = driver_sems k" "next_id (upd_cond c f k) = next_id k" "dom (conditions (upd_cond c f k)) = dom (conditions k)"
  "currentThread (upd_cond c f k) = currentThread k" "threads (upd_cond c f k) = threads k"
  by (auto simp: upd_cond_def dom_def)

lemma Semaphore_new_simps:
  assumes "Semaphore_new v k = (s, k1)"
  shows "s = next_id k" "lock_frames k1 = lock_frames k" "svalues k1 = (svalues k)(s \<mapsto> v)" "lock_view k1 = lock_view k"
    "driver_sems k1 = driver_sems k" "conditions k1 = conditions k" "next_id k1 = Suc (next_id k)" "currentThread k1 = currentThread k"
    "threads k1 = threads k"
  using assms by (auto simp: Semaphore_new_def svalues_def fun_eq_iff)

lemma Wait_lock:
  assumes I: "lock_inv k" and c: "currentThread k < next_id k" "threads k (currentThread k) \<noteq> None" and W: "Condition_Wait cv k = Inr k'"
  shows "lock_post k k'"
proof -
  obtain s k1 where n: "Semaphore_new 1 k = (s, k1)" by (cases "Semaphore_new 1 k")
  note N = Semaphore_new_simps [OF n]
  let ?k2 = "upd_cond cv (\<lambda>cd. cd\<lparr>semList := semList cd @ [s]\<rparr>) k1"
  have "\<exists>cd :: Condition. k' = push [CallRelease (clock cd), CallP s, CallAcquire (clock cd)] ?k2"
    using with_lock_InrD [OF W [unfolded Condition_Wait_def]] n by auto
  then obtain cd :: Condition where k': "k' = push [CallRelease (clock cd), CallP s, CallAcquire (clock cd)] ?k2" by blast
  have J: "lock_ok (lock_frames k) (svalues k) (lock_view k) (driver_sems k \<union> cond_sems (conditions k)) (next_id k)"
    and d: "dom (conditions k) \<subseteq> {..<next_id k}" using I by (simp_all add: lock_inv_def)
  have C: "cond_sems (conditions ?k2) \<subseteq> cond_sems (conditions k) \<union> {next_id k}"
    by (auto simp: N cond_sems_def upd_cond_def split: if_splits)
  have "lock_ok (lock_frames k) ((svalues k)(s \<mapsto> 1)) (lock_view k) (driver_sems k \<union> cond_sems (conditions ?k2)) (Suc (next_id k))"
    by (rule lock_ok_grow [OF J]) (use C N(1) in auto)
  then have I2: "lock_inv ?k2" using d by (auto simp: lock_inv_def N)
  have "lock_post ?k2 k'" unfolding k'
  proof (rule other_sem_push [OF I2, of s])
    show "lock_view ?k2 l \<noteq> Some (ow, s, i)" for l ow i using lock_okD(4) [OF J, of l ow s i] N(1) by (auto simp: N(4))
  qed (use c N in \<open>auto simp: lock_frame_def\<close>)
  then show ?thesis by (simp add: lock_post_def N)
qed

lemma Signal_lock:
  assumes I: "lock_inv k" and c: "currentThread k < next_id k" "threads k (currentThread k) \<noteq> None" and S: "Condition_Signal cv k = Inr k'"
  shows "lock_post k k'"
proof -
  obtain cd where cd: "conditions k cv = Some cd"
    and r: "(case semList cd of [] \<Rightarrow> Inr k | s # ss \<Rightarrow> Inr (push [CallV s] (upd_cond cv (\<lambda>cd. cd\<lparr>semList := ss\<rparr>) k))) = (Inr k' :: kernel res)"
    using with_lock_InrD [OF S [unfolded Condition_Signal_def]] by blast
  have J: "lock_ok (lock_frames k) (svalues k) (lock_view k) (driver_sems k \<union> cond_sems (conditions k)) (next_id k)"
    and d: "dom (conditions k) \<subseteq> {..<next_id k}" using I by (simp_all add: lock_inv_def)
  show ?thesis
  proof (cases "semList cd")
    case Nil
    then show ?thesis using r lock_post_quiet [OF I lock_quiet_refl] by simp
  next
    case (Cons s ss)
    let ?k2 = "upd_cond cv (\<lambda>cd. cd\<lparr>semList := ss\<rparr>) k"
    have k': "k' = push [CallV s] ?k2" using r Cons by simp
    have C: "cond_sems (conditions ?k2) \<subseteq> cond_sems (conditions k)"
      using cd Cons by (fastforce simp: cond_sems_def upd_cond_def split: if_splits)
    have s: "s \<in> cond_sems (conditions k)" unfolding cond_sems_def using cd Cons by (intro CollectI exI [of _ cv] exI [of _ cd]) simp
    have "lock_ok (lock_frames k) (svalues k) (lock_view k) (driver_sems k \<union> cond_sems (conditions ?k2)) (next_id k)"
      by (rule lock_ok_values [OF J]) (use C in auto)
    then have I2: "lock_inv ?k2" using d by (auto simp: lock_inv_def)
    have "lock_post ?k2 k'" unfolding k'
    proof (rule other_sem_push [OF I2, of s])
      show "s < next_id ?k2" using lock_okD(3) [OF J] s by simp
      show "lock_view ?k2 l \<noteq> Some (ow, s, i)" for l ow i using lock_okD(4) [OF J, of l ow s i] s by auto
    qed (use c in auto)
    then show ?thesis by (simp add: lock_post_def)
  qed
qed

section \<open>The other routines\<close>

lemma push_quiet_post: "lock_inv k \<Longrightarrow> \<forall>f \<in> set gs. \<not> lock_frame f \<Longrightarrow> lock_post k (push gs k)"
  using lock_post_quiet lock_quiet_push by blast

lemma upd_port_quiet: "lock_quiet k0 (upd_port p f k) = lock_quiet k0 k"
  by (simp add: upd_port_def lock_quiet_def)

lemma quiet_calls:
  assumes "lock_inv k"
  shows "Thread_Join t k = Inr k' \<Longrightarrow> lock_post k k'" "Thread_Finish k = Inr k' \<Longrightarrow> lock_post k k'"
    "Broadcast_loop c k = Inr k' \<Longrightarrow> lock_post k k'" "Condition_Broadcast c k = Inr k' \<Longrightarrow> lock_post k k'"
    "Puerto_Send p m k = Inr k' \<Longrightarrow> lock_post k k'" "Puerto_Receive p k = Inr k' \<Longrightarrow> lock_post k k'"
    "Send_loop p m k = Inr k' \<Longrightarrow> lock_post k k'" "Receive_loop p k = Inr k' \<Longrightarrow> lock_post k k'"
proof -
  note Q = push_quiet_post [OF assms] lock_post_quiet [OF assms lock_quiet_refl]
  have P: "lock_post k (push gs (upd_port p f k))" if "\<forall>f \<in> set gs. \<not> lock_frame f" for gs f
    by (rule lock_post_quiet [OF assms], rule lock_quiet_trans [OF _ lock_quiet_push [OF that]]) (simp add: upd_port_quiet)
  have L: "lock_post k (push gs (ChangeLevel IntOff k))" if "\<forall>f \<in> set gs. \<not> lock_frame f" for gs
    by (rule lock_post_quiet [OF assms], rule lock_quiet_trans [OF _ lock_quiet_push [OF that]]) simp
  show "Thread_Join t k = Inr k' \<Longrightarrow> lock_post k k'"
    using Q by (auto simp: Thread_Join_def rbind_eq_Inr lock_frame_def split: if_splits option.splits)
  show "Thread_Finish k = Inr k' \<Longrightarrow> lock_post k k'"
    using L by (auto simp: Thread_Finish_def Let_def rbind_eq_Inr lock_frame_def split: if_splits option.splits)
  show B: "Broadcast_loop c k = Inr k' \<Longrightarrow> lock_post k k'"
    using Q by (auto simp: Broadcast_loop_def rbind_eq_Inr lock_frame_def split: if_splits)
  then show "Condition_Broadcast c k = Inr k' \<Longrightarrow> lock_post k k'" by (auto simp: Condition_Broadcast_def dest!: with_lock_InrD)
  show "Puerto_Send p m k = Inr k' \<Longrightarrow> lock_post k k'" using Q by (auto simp: Puerto_Send_def rbind_eq_Inr lock_frame_def)
  show "Puerto_Receive p k = Inr k' \<Longrightarrow> lock_post k k'" using Q by (auto simp: Puerto_Receive_def rbind_eq_Inr lock_frame_def)
  show "Send_loop p m k = Inr k' \<Longrightarrow> lock_post k k'"
    using Q P by (auto simp: Send_loop_def rbind_eq_Inr lock_frame_def split: if_splits)
  show "Receive_loop p k = Inr k' \<Longrightarrow> lock_post k k'"
    using Q P by (auto simp: Receive_loop_def rbind_eq_Inr lock_frame_def split: if_splits option.splits)
qed

section \<open>Creating objects and threads\<close>

definition owners_same :: "kernel \<Rightarrow> kernel \<Rightarrow> bool" where
  "owners_same k k' \<longleftrightarrow> (\<forall>l x. lock_view k l = Some x \<longrightarrow> lock_view k' l = Some x)"

lemma owners_same_post: "owners_same k k' \<Longrightarrow> lock_inv k' \<Longrightarrow> lock_post k k'"
  by (simp add: owners_same_def lock_post_def owner_kept_def)

lemma lock_inv_ok: "lock_inv k \<Longrightarrow> lock_ok (lock_frames k) (svalues k) (lock_view k) (driver_sems k \<union> cond_sems (conditions k)) (next_id k)"
  by (simp add: lock_inv_def)

lemma Semaphore_new_lock:
  assumes "lock_inv k" and "Semaphore_new v k = (s, k')"
  shows "lock_inv k' \<and> owners_same k k'"
proof -
  note N = Semaphore_new_simps [OF assms(2)]
  have "lock_ok (lock_frames k) ((svalues k)(s \<mapsto> v)) (lock_view k) (driver_sems k \<union> cond_sems (conditions k)) (Suc (next_id k))"
    by (rule lock_ok_grow [OF lock_inv_ok [OF assms(1)]]) (use N(1) in auto)
  then show ?thesis using assms(1) by (auto simp: lock_inv_def N owners_same_def)
qed

lemma Lock_new_lock:
  assumes I: "lock_inv k" and n: "Lock_new junk k = (l, k')"
  shows "lock_inv k' \<and> owners_same k k'"
proof -
  let ?n = "next_id k"
  have V: "svalues k' = (svalues k)(?n \<mapsto> 1, Suc ?n \<mapsto> 1)" and L: "lock_view k' = (lock_view k)(l \<mapsto> (None, ?n, Suc ?n))"
    and o: "l = Suc (Suc ?n)" "lock_frames k' = lock_frames k" "driver_sems k' = driver_sems k" "conditions k' = conditions k"
      "next_id k' = Suc (Suc (Suc ?n))"
    using n by (auto simp: Lock_new_def Semaphore_new_def Let_def svalues_def lock_view_def fun_eq_iff)
  have "lock_ok (lock_frames k) (svalues k') (lock_view k') (driver_sems k \<union> cond_sems (conditions k)) (Suc (Suc (Suc ?n)))"
    by (rule lock_ok_new_lock [OF lock_inv_ok [OF I], of _ ?n "Suc ?n" l]) (simp_all add: V L o(1))
  moreover have "lock_view k l = None" using lock_okD(4) [OF lock_inv_ok [OF I], of l] o(1) by (cases "lock_view k l") auto
  ultimately show ?thesis using I by (auto simp: lock_inv_def o owners_same_def L)
qed

lemma cond_sems_new: "cond_sems (cs(c \<mapsto> \<lparr>clock = l, semList = []\<rparr>)) \<subseteq> cond_sems cs"
  by (auto simp: cond_sems_def split: if_splits)

lemma Condition_new_lock:
  assumes I: "lock_inv k" and n: "Condition_new l k = (c, k')"
  shows "lock_inv k' \<and> owners_same k k'"
proof -
  let ?cs = "(conditions k)(next_id k \<mapsto> \<lparr>clock = l, semList = []\<rparr>)"
  have k': "k' = k\<lparr>conditions := ?cs, next_id := Suc (next_id k)\<rparr>" using n by (auto simp: Condition_new_def)
  have "lock_ok (lock_frames k) (svalues k) (lock_view k) (driver_sems k \<union> cond_sems ?cs) (Suc (next_id k))"
    by (rule lock_ok_grow [OF lock_inv_ok [OF I]]) (use cond_sems_new [of "conditions k"] in auto)
  then show ?thesis using I by (auto simp: lock_inv_def k' owners_same_def)
qed

lemma owners_same_trans: "owners_same k k1 \<Longrightarrow> owners_same k1 k2 \<Longrightarrow> owners_same k k2"
  by (simp add: owners_same_def)

lemma next_id_lock:
  assumes I: "lock_inv k" and n: "next_id k \<le> n"
  shows "lock_inv (k\<lparr>next_id := n\<rparr>)"
proof -
  have "lock_ok (lock_frames k) (svalues k) (lock_view k) (driver_sems k \<union> cond_sems (conditions k)) n"
    by (rule lock_ok_grow [OF lock_inv_ok [OF I]]) (use n in auto)
  then show ?thesis using I n by (auto simp: lock_inv_def)
qed

lemma Puerto_new_lock:
  assumes I: "lock_inv k" and n: "Puerto_new k = (p, k')"
  shows "lock_inv k' \<and> owners_same k k'"
proof -
  obtain l k1 where k1: "Lock_new 0 k = (l, k1)" by (cases "Lock_new 0 k")
  obtain cS k2 where k2: "Condition_new l k1 = (cS, k2)" by (cases "Condition_new l k1")
  obtain cR k3 where k3: "Condition_new l k2 = (cR, k3)" by (cases "Condition_new l k2")
  obtain po where k': "k' = k3\<lparr>ports := po, next_id := Suc (next_id k3)\<rparr>" using n k1 k2 k3 by (auto simp: Puerto_new_def Let_def)
  note 1 = Lock_new_lock [OF I k1]
  note 2 = Condition_new_lock [OF conjunct1 [OF 1] k2]
  note 3 = Condition_new_lock [OF conjunct1 [OF 2] k3]
  have "owners_same k k3" using 1 2 3 owners_same_trans by blast
  moreover have "lock_inv (k3\<lparr>next_id := Suc (next_id k3)\<rparr>)" using next_id_lock 3 by simp
  ultimately show ?thesis by (simp add: k' lock_inv_def owners_same_def)
qed

lemma create_thread_lock:
  assumes I: "lock_inv k" and n: "create_thread nm junk k = (t, k')"
  shows "lock_inv k' \<and> owners_same k k'"
proof -
  let ?n = "next_id k"
  have k': "k' = k\<lparr>threads := (threads k)(?n \<mapsto> Thread_new nm junk), next_id := Suc ?n\<rparr>" using n by (auto simp: create_thread_def)
  have "lock_frames k ?n = []" using lock_okD(1) [OF lock_inv_ok [OF I]] by simp
  then have "lock_frames k' = lock_frames k" by (auto simp: k' lock_frames_def Thread_new_def fun_eq_iff)
  moreover have "lock_ok (lock_frames k) (svalues k) (lock_view k) (driver_sems k \<union> cond_sems (conditions k)) (Suc ?n)"
    by (rule lock_ok_grow [OF lock_inv_ok [OF I]]) auto
  ultimately show ?thesis using I by (auto simp: lock_inv_def owners_same_def) (auto simp: k')
qed

lemma Fork_lock:
  assumes I: "lock_inv k" and A: "at_rest b k" and t: "threads k t = Some th" "tstatus th = JUST_CREATED" and F: "Thread_Fork t j p k = Inr k'"
  shows "lock_post k k'"
proof -
  let ?k1 = "upd_thread t StackAllocate k"
  let ?k2 = "if \<not> j then let (port, k') = Puerto_new ?k1 in upd_thread t (\<lambda>th. th\<lparr>join_flag := True, portJoin := Some port\<rparr>) k' else ?k1"
  let ?k3 = "ChangeLevel IntOff (upd_thread t (setPriority p) ?k2)"
  have "set (frames th) \<subseteq> {ThreadRoot, AfterSwitch}"
    using A tview_Some [OF t(1)] t(2) by (simp add: at_rest_def kernel_inv_def sched_ok_def)
  moreover have "\<not> lock_frame ThreadRoot" "\<not> lock_frame AfterSwitch" by (simp_all add: lock_frame_def)
  ultimately have "filter lock_frame (frames th) = []" by (auto simp: filter_empty_conv)
  then have "lock_quiet k ?k1" using t(1) by (intro lock_quiet_upd) (simp add: StackAllocate_def lock_frame_def)
  then have I1: "lock_inv ?k1" and L1: "lock_view ?k1 = lock_view k" using lock_quiet_inv I by simp_all
  have 2: "lock_inv ?k2 \<and> owners_same k ?k2"
  proof (cases j)
    case True
    then show ?thesis using I1 by (simp add: owners_same_def)
  next
    case False
    obtain port k2 where n: "Puerto_new ?k1 = (port, k2)" by (cases "Puerto_new ?k1")
    let ?k = "upd_thread t (\<lambda>th. th\<lparr>join_flag := True, portJoin := Some port\<rparr>) k2"
    have "lock_quiet k2 ?k" by (rule lock_quiet_upd) simp
    then have "lock_inv ?k" using Puerto_new_lock [OF I1 n] lock_quiet_inv by blast
    then show ?thesis using Puerto_new_lock [OF I1 n] False n by (simp add: owners_same_def)
  qed
  obtain k4 where k4: "ReadyToRun t ?k3 = Inr k4" "k' = leave (level (upd_thread t (setPriority p) ?k2)) k4"
    using F t(1) by (simp add: Thread_Fork_def Let_def rbind_eq_Inr) blast
  have "lock_quiet ?k2 (upd_thread t (setPriority p) ?k2)" by (rule lock_quiet_upd) (simp add: setPriority_def)
  then have "lock_quiet ?k2 ?k3" by (simp only: lock_quiet_cong)
  also note lock_sched.ReadyToRun_Q [OF k4(1)]
  also have "lock_quiet k4 k'" unfolding k4(2) by (rule lock_sched.leave_Q)
  finally have Q: "lock_quiet ?k2 k'" .
  then have "lock_inv k'" "owners_same k k'" using 2 lock_quiet_inv by (blast, simp add: owners_same_def lock_quiet_def)
  then show ?thesis using owners_same_post by blast
qed

section \<open>Every step\<close>

lemmas tick_lock = lock_ticks.SetLevel_Q lock_ticks.OneTick_Q lock_sched.Yield_Q lock_sched.donate_Q

lemma exec_frame_lock:
  assumes pre: "lock_pre f k" and A: "at_rest b k" and r: "frame_ready b f k" and E: "exec_frame f k = Some (Inr k')"
  shows "lock_post k k'"
proof -
  have c: "currentThread k < next_id k" "threads k (currentThread k) \<noteq> None" using pre by (simp_all add: lock_pre_def)
  have I: "lock_inv k" if "\<not> lock_frame f" using lock_pre_other pre that by blast
  note Q = lock_post_quiet [OF I]
  show ?thesis
  proof (cases f)
    case (P_loop s old)
    then show ?thesis using P_iteration_lock [OF pre] E lock_post_same by (simp add: exec_frame_def)
  next
    case (CallP s)
    let ?k = "ChangeLevel IntOff k"
    have "lock_pre f ?k" using pre by (simp add: lock_pre_def with_frame_def ChangeLevel_def)
    then have "lock_inv k' \<and> lock_view k' = lock_view ?k"
      using P_iteration_lock [of f ?k s "level k" "level k"] CallP E by (simp add: exec_frame_def Semaphore_P_def)
    then show ?thesis using lock_post_same by (simp add: ChangeLevel_def)
  next
    case (RestoreStatus st)
    then show ?thesis using Q [of k'] E by (auto simp: exec_frame_def lock_frame_def)
  next
    case FinishTail
    have "lock_quiet k k'" using lock_ticks.Sleep_Q [of "k\<lparr>threadToBeDestroyed := Some (currentThread k)\<rparr>" k'] E FinishTail
      by (simp add: exec_frame_def Finish_tail_def lock_quiet_def)
    then show ?thesis using Q FinishTail by (simp add: lock_frame_def)
  next
    case (CallFork t j p)
    then obtain th where "threads k t = Some th" "tstatus th = JUST_CREATED" using r by (auto simp: frame_ready_def)
    then show ?thesis using Fork_lock [OF I A] CallFork E by (simp add: exec_frame_def lock_frame_def)
  qed (use pre E in \<open>auto simp: exec_frame_def Enable_def lock_frame_def dest: V_lock set_owner_lock
      intro: Q tick_lock lock_switch.after_switch_Q [OF A] quiet_calls [OF I] Acquire_lock [OF I c] Release_lock [OF I c] Wait_lock [OF I c] Signal_lock [OF I c]\<close>)
qed

lemma lock_ok_add:
  assumes I: "lock_ok G V L Q n" and s: "s < n" "\<And>l ow i. L l \<noteq> Some (ow, s, i)"
  shows "lock_ok G V L (insert s Q) n"
proof (rule lock_okI)
  fix l ow s' i assume l: "L l = Some (ow, s', i)"
  show "l < n \<and> s' < n \<and> i < n \<and> s' \<notin> insert s Q" using lock_okD(4) [OF I l] l s(2) by auto
  show "solvent l s' (G t)" for t using lock_okD(6) [OF I l] .
  show "\<exists>v. V s' = Some v \<and> 0 \<le> v \<and> v + owned ow + (\<Sum>t < n. tokens l s' (G t)) = 1" using lock_okD(7) [OF I l] .
qed (use lock_okD(1,2,3,5) [OF I] s(1) in auto)

lemma not_private:
  assumes I: "lock_inv k" and s: "\<not> private_sem k s"
  shows "lock_view k l \<noteq> Some (ow, s, i)"
proof
  assume l: "lock_view k l = Some (ow, s, i)"
  then obtain lk where lk: "locks k l = Some lk" "lsem lk = s" by (auto simp: lock_view_Some)
  have "l < next_id k" using lock_okD(4) [OF lock_inv_ok [OF I] l] by simp
  with lk have "private_sem k s" unfolding private_sem_def by (intro bexI [of _ l]) auto
  with s show False by simp
qed

lemma current_exists: "at_rest b k \<Longrightarrow> threads k (currentThread k) \<noteq> None \<and> currentThread k < next_id k"
  by (rule at_rest_current [of b k]) (auto simp: at_rest_def kernel_inv_def)

lemma client_pre:
  assumes I: "lock_inv k" and A: "at_rest b k" and f: "client_call k f"
  shows "lock_pre f k"
proof (cases "lock_frame f")
  case False
  then show ?thesis using I current_exists [OF A] by (simp add: lock_pre_def lock_inv_def with_frame_def)
next
  case True
  then obtain s where s: "f = CallP s \<or> f = CallV s" "\<not> private_sem k s" "s < next_id k"
    using f by (auto simp: lock_frame_def client_call_def split: frame.splits)
  have "lock_post k (push [f] k)"
    by (rule other_sem_push [OF I, of s]) (use s not_private [OF I s(2)] current_exists [OF A] in auto)
  moreover have "lock_frames (push [f] k) = with_frame f k" using current_exists [OF A] by (simp add: with_frame_def)
  ultimately show ?thesis using current_exists [OF A]
    by (simp add: lock_post_def lock_inv_def lock_pre_def) (simp add: push_def)
qed

lemma pop_pre:
  assumes I: "lock_inv k" and A: "at_rest b k" and t: "top_frames k = f # fs"
  shows "lock_pre f (pop_frame k)"
proof -
  obtain th where th: "threads k (currentThread k) = Some th" "frames th = f # fs" using top_frames_thread [OF t] by blast
  have "with_frame f (pop_frame k) = lock_frames k"
    using th by (auto simp: with_frame_def lock_frames_def pop_frame_def fun_eq_iff)
  moreover have "svalues (pop_frame k) = svalues k" "lock_view (pop_frame k) = lock_view k" "driver_sems (pop_frame k) = driver_sems k"
    by (simp_all add: pop_frame_def)
  ultimately show ?thesis using I current_exists [OF pop_inv [OF A]] by (simp add: lock_pre_def lock_inv_def)
qed

lemma step_lock:
  assumes I: "lock_inv k" and S: "safe False k" and st: "kernel_step k k'"
  shows "lock_post k k'"
  using st
proof cases
  case (exec f fs)
  then have A: "at_rest False k" using S by (simp add: safe_at_rest)
  have "frame_ready False f (pop_frame k)" using popped_ready [OF A exec(2)] by blast
  then have "lock_post (pop_frame k) k'" using exec_frame_lock [OF pop_pre [OF I A exec(2)] pop_inv [OF A]] exec(3) by blast
  then show ?thesis by (simp add: lock_post_def pop_frame_def)
next
  case (client f)
  then have A: "at_rest False k" using S by (simp add: safe_at_rest)
  have "frame_ready False f k" using client(2,3) by (auto simp: frame_ready_def client_call_def split: frame.splits option.splits)
  then show ?thesis using exec_frame_lock [OF client_pre [OF I A client(3)] A] client(4) by blast
next
  case (new_thread nm junk t)
  then show ?thesis using create_thread_lock [OF I] owners_same_post by blast
next
  case (new_semaphore v s)
  then show ?thesis using Semaphore_new_lock [OF I] owners_same_post by blast
next
  case (new_lock junk l)
  then show ?thesis using Lock_new_lock [OF I] owners_same_post by blast
next
  case (new_condition l c)
  then show ?thesis using Condition_new_lock [OF I] owners_same_post by blast
next
  case (new_port p)
  then show ?thesis using Puerto_new_lock [OF I] owners_same_post by blast
next
  case (start_device s n ty)
  obtain pe where "k' = k\<lparr>pending := pe\<rparr>" using start_device(5) by (auto simp: Schedule_def Let_def)
  then have o: "lock_frames k' = lock_frames k" "svalues k' = svalues k" "lock_view k' = lock_view k" "conditions k' = conditions k"
    "next_id k' = next_id k" by simp_all
  have "driver_sems k' = insert s (driver_sems k)" using Schedule_handlers [OF start_device(5)] by (auto simp: driver_sems_def)
  then have "lock_inv k'" using lock_ok_add [OF lock_inv_ok [OF I] start_device(4) not_private [OF I start_device(3)]] I
    by (simp add: lock_inv_def o)
  then show ?thesis using lock_post_same o(3) by blast
qed

lemma boot_lock: "lock_inv (boot_kernel m junk r rnd)"
proof -
  have "lock_frames (boot_kernel m junk r rnd) = (\<lambda>_. [])" "lock_view (boot_kernel m junk r rnd) = Map.empty"
    "driver_sems (boot_kernel m junk r rnd) = {}" "cond_sems (conditions (boot_kernel m junk r rnd)) = {}"
    using boot_fields(11) [of m junk r rnd]
    by (auto simp: lock_frames_def lock_view_def driver_sems_def cond_sems_def boot_fields(1-10) fun_eq_iff lock_frame_def)
  then show ?thesis by (simp add: lock_inv_def lock_ok_def boot_fields)
qed

lemma reachable_lock: "reachable b k \<Longrightarrow> lock_inv k"
proof (induction rule: reachable.induct)
  case (boot m junk r rnd)
  show ?case by (rule boot_lock)
next
  case (step k k')
  have "safe False k" using reachable_safe [OF reachable_weaken [OF step(1)]] .
  then show ?case using step_lock [OF step.IH] step(2) by (simp add: lock_post_def)
qed

section \<open>Properties\<close>

text \<open>The thread has passed \<^verbatim>\<open>sem->P()\<close> in \<^verbatim>\<open>Acquire\<close> and has not yet set \<^verbatim>\<open>thname\<close>.\<close>

definition acquired :: "kernel \<Rightarrow> lid \<Rightarrow> tid \<Rightarrow> bool" where
  "acquired k l t \<longleftrightarrow> (case lock_frames k t of SetOwner l' # fs \<Rightarrow> l' = l | _ \<Rightarrow> False)"

lemma acquired_tokens:
  assumes I: "lock_inv k" and l: "lock_view k l = Some (ow, s, i)" and a: "acquired k l t"
  shows "1 \<le> tokens l s (lock_frames k t)" "t < next_id k"
proof -
  obtain fs where fs: "lock_frames k t = SetOwner l # fs" using a by (auto simp: acquired_def split: list.splits frame.splits)
  have "solvent l s (lock_frames k t)" using lock_okD(6) [OF lock_inv_ok [OF I] l] .
  then have "0 \<le> tokens l s fs" using fs solvent_tokens [of l s fs] by simp
  then show "1 \<le> tokens l s (lock_frames k t)" using fs by simp
  show "t < next_id k" using lock_okD(1) [OF lock_inv_ok [OF I], of t] fs by (cases "next_id k \<le> t") auto
qed

text \<open>
  C4. Mutual exclusion: in every reachable state, at most one thread has got past the semaphore of a
  lock in \<^verbatim>\<open>Acquire\<close>, and when one has, the lock has no owner; so \<^verbatim>\<open>Acquire\<close> never takes a lock that
  another thread holds.
\<close>

theorem lock_exclusion:
  assumes R: "reachable b k" and lk: "locks k l = Some lk" and t: "acquired k l t" and u: "acquired k l u"
  shows "t = u \<and> thname lk = None"
proof -
  have I: "lock_inv k" using reachable_lock [OF R] .
  have l: "lock_view k l = Some (thname lk, lsem lk, semInvP lk)" using lk by (simp add: lock_view_def)
  let ?w = "\<lambda>t. tokens l (lsem lk) (lock_frames k t)"
  note T = acquired_tokens [OF I l t] and U = acquired_tokens [OF I l u]
  obtain v where v: "0 \<le> v" "v + owned (thname lk) + (\<Sum>t < next_id k. ?w t) = 1" using lock_okD(7) [OF lock_inv_ok [OF I] l] by blast
  have nonneg: "0 \<le> ?w x" for x using lock_okD(6) [OF lock_inv_ok [OF I] l] solvent_tokens by blast
  have "sum ?w {t, u} \<le> (\<Sum>t < next_id k. ?w t)" using T U nonneg by (intro sum_mono2) auto
  then show ?thesis using v T(1) U(1) by (cases "t = u") (auto simp: owned_def split: if_splits)
qed

text \<open>Lock 3, with semaphores 1 and 2; the main thread acquires it.\<close>

definition acquiring_steps :: "action list" where
  "acquiring_steps = [Exec, NewLock, Client (CallAcquire 3),
     Exec, Exec, Exec, Exec, Exec, Exec, Exec]"

theorem lock_exclusion_witness:
  "\<exists>k lk. reachable True k \<and> locks k 3 = Some lk \<and> acquired k 3 0 \<and> thname lk = None"
proof -
  have "map_option (\<lambda>k. (acquired k 3 0, map_option thname (locks k 3))) (acts True acquiring_steps (boot_kernel m junk False (\<lambda>_. 0)))
      = Some (True, Some None)" for m :: "unit Machine" and junk :: "32 word list"
    by code_simp
  then obtain k lk where k: "acts True acquiring_steps (boot_kernel undefined [] False (\<lambda>_. 0)) = Some k" "acquired k 3 0" "locks k 3 = Some lk"
    by fastforce
  from lock_exclusion [OF boot_acts [OF k(1)] k(3,2,2)] show ?thesis using boot_acts [OF k(1)] k(2,3) by blast
qed

text \<open>
  Only the holder of a lock gives it up: whatever step the kernel takes, a lock held by a thread is
  still held by it afterwards, unless it is that very thread that ran, and then the lock is free.
\<close>

theorem lock_ownership:
  assumes R: "reachable b k" and S: "kernel_step k k'" and l: "locks k l = Some lk" "thname lk = Some t"
  shows "\<exists>lk'. locks k' l = Some lk' \<and> lsem lk' = lsem lk \<and> (thname lk' = Some t \<or> thname lk' = None \<and> currentThread k = t)"
proof -
  have "safe False k" using reachable_safe [OF reachable_weaken [OF R]] .
  then have "owner_kept (currentThread k) (lock_view k) (lock_view k')"
    using step_lock [OF reachable_lock [OF R]] S by (simp add: lock_post_def)
  moreover have "lock_view k l = Some (Some t, lsem lk, semInvP lk)" using l by (simp add: lock_view_def)
  ultimately have "lock_view k' l = Some (Some t, lsem lk, semInvP lk) \<or> t = currentThread k \<and> lock_view k' l = Some (None, lsem lk, semInvP lk)"
    unfolding owner_kept_def by blast
  then show ?thesis by (auto simp: lock_view_Some)
qed

text \<open>The main thread yields while it holds lock 3.\<close>

theorem lock_ownership_witness:
  "\<exists>k k' lk'. reachable True k \<and> kernel_step k k' \<and> currentThread k = 0 \<and> locks k' 3 = Some lk'
    \<and> (thname lk' = Some 0 \<or> thname lk' = None)"
proof -
  have "map_option (\<lambda>k. (halted k, top_frames k, currentThread k, map_option thname (locks k 3), result (exec_frame CallYield k) \<noteq> None))
      (acts True (acquiring_steps @ [Exec]) (boot_kernel m junk False (\<lambda>_. 0)))
      = Some (False, [], 0, Some (Some 0), True)" for m :: "unit Machine" and junk :: "32 word list"
    by code_simp
  then obtain k where k: "acts True (acquiring_steps @ [Exec]) (boot_kernel undefined [] False (\<lambda>_. 0)) = Some k"
    and v: "\<not> halted k" "top_frames k = []" "currentThread k = 0" "map_option thname (locks k 3) = Some (Some 0)"
      "result (exec_frame CallYield k) \<noteq> None"
    unfolding map_option_eq_Some prod.inject by blast
  obtain lk where lk: "locks k 3 = Some lk" "thname lk = Some 0" using v(4) by auto
  obtain k' where k': "exec_frame CallYield k = Some (Inr k')" using v(5) result_Some by fast
  have S: "kernel_step k k'" by (rule kernel_step.client [OF v(1,2) _ k']) (simp add: client_call_def)
  from lock_ownership [OF boot_acts [OF k] S lk] show ?thesis using boot_acts [OF k] S v(3) by auto
qed

end
