(* ===== verification/Thread_Work.thy ===== *)
theory Thread_Work
  imports Lock_Inv
begin

text \<open>
  The work of a thread: the calls that it has begun and not finished, without the frames that switches and interrupts leave on
  its stack. No step of another thread changes it. What the work of a thread comes to for a lock is \<open>promise\<close>: whether the
  thread owns the lock when its calls have returned; executing the calls keeps it.
\<close>

section \<open>Work\<close>

definition work_frame :: "frame \<Rightarrow> bool" where
  "work_frame f \<longleftrightarrow> \<not> resume_frame f \<and> f \<noteq> ThreadRoot"

definition work :: "kernel \<Rightarrow> tid \<Rightarrow> frame list" where
  "work k t = (case threads k t of None \<Rightarrow> [] | Some th \<Rightarrow> filter work_frame (frames th))"

definition clocks :: "kernel \<Rightarrow> cid \<rightharpoonup> lid" where
  "clocks k c = map_option clock (conditions k c)"

text \<open>Changes that no thread notices in its work, with the owners of the locks and the locks of the condition variables.\<close>

definition calm :: "kernel \<Rightarrow> kernel \<Rightarrow> bool" where
  "calm k k' \<longleftrightarrow> work k' = work k \<and> lock_view k' = lock_view k \<and> clocks k' = clocks k"

lemma calm_refl [simp]: "calm k k"
  by (simp add: calm_def)

lemma calm_trans [trans]: "calm k k1 \<Longrightarrow> calm k1 k2 \<Longrightarrow> calm k k2"
  by (simp add: calm_def)

lemma calm_same: "threads k' = threads k \<Longrightarrow> locks k' = locks k \<Longrightarrow> conditions k' = conditions k \<Longrightarrow> calm k k'"
  by (simp add: calm_def work_def lock_view_def clocks_def fun_eq_iff)

lemma calm_system: "system_of k1 = system_of k \<Longrightarrow> calm k0 k1 = calm k0 k"
  using system_fields [of k1 k] by (simp add: calm_def work_def lock_view_def clocks_def fun_eq_iff)

lemma upd_thread_calm:
  "(\<And>th. threads k t = Some th \<Longrightarrow> filter work_frame (frames (f th)) = filter work_frame (frames th)) \<Longrightarrow> calm k (upd_thread t f k)"
  by (auto simp: calm_def work_def lock_view_def clocks_def fun_eq_iff split: option.splits)

lemma push_calm: "\<forall>f \<in> set fs. \<not> work_frame f \<Longrightarrow> calm k (push fs k)"
  unfolding push_def by (rule upd_thread_calm) (simp add: filter_empty_conv)

lemma work_push:
  "threads k (currentThread k) \<noteq> None \<Longrightarrow> work (push fs k) = (work k)(currentThread k := filter work_frame fs @ work k (currentThread k))"
  by (auto simp: work_def push_def fun_eq_iff)

interpretation work_sched: scheduling calm
proof
  show "calm k (upd_thread t f k)" if "\<And>th. frames (f th) = frames th" for k t f using that by (intro upd_thread_calm) simp
  show "calm k (push fs k)" if "\<forall>f \<in> set fs. resume_frame f" for fs k using that by (intro push_calm) (simp add: work_frame_def)
  show "calm k (upd_lock l (\<lambda>lk. lk\<lparr>Prioritymax := p\<rparr>) k)" for l p k
    by (auto simp: calm_def work_def clocks_def lock_view_upd) (auto simp: lock_view_def fun_eq_iff)
qed (auto intro: calm_same calm_trans simp: ChangeLevel_def)

interpretation work_switch: switching calm
proof
  show "calm k (k\<lparr>threads := (threads k)(d := None), threadToBeDestroyed := None\<rparr>)"
    if "threads k d = Some th" "set (frames th) \<subseteq> {AfterSwitch}" for k d th
  proof -
    have "work k d = []" using that by (auto simp: work_def filter_empty_conv work_frame_def)
    then have "work (k\<lparr>threads := (threads k)(d := None), threadToBeDestroyed := None\<rparr>) = work k" by (auto simp: work_def fun_eq_iff)
    then show ?thesis by (simp add: calm_def clocks_def fun_eq_iff)
  qed
qed (auto intro: calm_same)

lemma upd_sem_calm: "calm k (upd_sem s f k)"
  by (rule calm_same) (simp_all add: upd_sem_def)

lemma V_calm:
  assumes "Semaphore_V s k = Inr k'"
  shows "calm k k'"
proof -
  let ?k1 = "ChangeLevel IntOff k"
  obtain sem :: Semaphore and k2 where k2: "(case squeue sem of [] \<Rightarrow> Inr ?k1 | t # ts \<Rightarrow> ReadyToRun t (upd_sem s (\<lambda>sem. sem\<lparr>squeue := ts\<rparr>) ?k1)) = Inr k2"
    and k': "k' = leave (level k) (upd_sem s (\<lambda>sem. sem\<lparr>svalue := svalue sem + 1\<rparr>) k2)"
    using assms by (auto simp: Semaphore_V_def Let_def rbind_eq_Inr)
  have "calm ?k1 k2"
    using k2 calm_trans [OF upd_sem_calm work_sched.ReadyToRun_Q] by (cases "squeue sem") auto
  then have "calm k k2" using work_sched.Q_level calm_trans by blast
  also note upd_sem_calm
  also note work_sched.leave_Q
  finally show ?thesis unfolding k' .
qed

lemma device_call_calm:
  assumes "device_call d k = Inr k'"
  shows "calm k k'"
proof (cases d)
  case (TimerDevice r)
  let ?k = "if r then k\<lparr>randoms := (\<lambda>n. randoms k (Suc n))\<rparr> else k"
  have "system_of k' = system_of ?k" using assms TimerDevice TimerExpired_system unfolding device_call_def by force
  moreover have "calm k ?k" by (auto intro: calm_same)
  ultimately show ?thesis using calm_system by blast
next
  case (DriverDone s)
  then show ?thesis using V_calm assms by (simp add: device_call_def)
qed

interpretation work_irq: interrupt_invariant device_call delayed_load "calm k0"
proof
  fix i i' :: kernel
  assume "calm k0 i" "system_of i' = system_of i"
  then show "calm k0 i'" using calm_system by blast
next
  fix i0 i i' :: kernel and d
  assume "calm k0 i0" "system_of i0 = system_of i" "device_call d i = Inr i'"
  then show "calm k0 i'" using calm_system device_call_calm calm_trans by metis
next
  fix i0 i i' :: kernel
  assume K: "calm k0 i0" "system_of i0 = system_of i" "delayed_load i = Inr i'"
  obtain m where m: "i' = i\<lparr>machine := m\<rparr>" using delayed_load_system [OF K(3)] .
  have "calm i i'" unfolding m by (rule calm_same) simp_all
  then have "calm k0 i'" using K calm_system calm_trans by metis
  moreover have "calm k0 (set_system (system_of i') i0) = calm k0 i'" by (rule calm_system) simp
  ultimately show "calm k0 (set_system (system_of i') i0) \<and> pending i' = pending i \<and> level i' = level i" using m by simp
qed

interpretation work_ticks: interruptible calm
  by unfold_locales (auto intro: calm_same work_irq.holds_mono work_irq.holds_call work_irq.holds_delayed [THEN conjunct1] dest: work_irq.holds_delayed)

section \<open>Other threads\<close>

text \<open>The thread \<open>c\<close> runs: the work of the others stays, and no condition variable gets another lock.\<close>

definition others_kept :: "tid \<Rightarrow> kernel \<Rightarrow> kernel \<Rightarrow> bool" where
  "others_kept c k k' \<longleftrightarrow> (\<forall>t. t \<noteq> c \<longrightarrow> work k' t = work k t) \<and> clocks k \<subseteq>\<^sub>m clocks k'"

lemma others_refl [simp]: "others_kept c k k"
  by (simp add: others_kept_def)

lemma others_trans [trans]: "others_kept c k k1 \<Longrightarrow> others_kept c k1 k2 \<Longrightarrow> others_kept c k k2"
  unfolding others_kept_def using map_le_trans by metis

lemma calm_others: "calm k k' \<Longrightarrow> others_kept c k k'"
  by (simp add: calm_def others_kept_def)

lemma push_others: "others_kept (currentThread k) k (push fs k)"
  by (auto simp: others_kept_def work_def clocks_def push_def fun_eq_iff map_le_def)

lemma same_others: "threads k' = threads k \<Longrightarrow> clocks k \<subseteq>\<^sub>m clocks k' \<Longrightarrow> others_kept c k k'"
  by (simp add: others_kept_def work_def)

text \<open>The state before a call is pushed may already differ from the original one, in its locks, ports and conditions.\<close>

lemma push_others': "others_kept c k k1 \<Longrightarrow> currentThread k1 = c \<Longrightarrow> others_kept c k (push fs k1)"
  using others_trans push_others by blast

lemma upd_others [simp]:
  "others_kept c k (upd_lock l f k)" "others_kept c k (upd_port p g k)" "others_kept c k (upd_cond cv (\<lambda>cd. cd\<lparr>semList := ss cd\<rparr>) k)"
  by (auto intro!: same_others simp: upd_lock_def upd_port_def upd_cond_def clocks_def map_le_def option.map_comp comp_def)

lemma P_iteration_others:
  assumes "P_iteration s old k = Some (Inr k')"
  shows "others_kept (currentThread k) k k'"
proof -
  obtain sem where sem: "semaphores k s = Some sem" using assms by (auto simp: P_iteration_def split: sum.splits)
  show ?thesis
  proof (cases "svalue sem = 0")
    case True
    let ?k = "upd_sem s (\<lambda>sem. sem\<lparr>squeue := squeue sem @ [currentThread k]\<rparr>) k"
    have "Thread_Sleep (push [P_loop s old] ?k) = Some (Inr k')" using assms sem True by (simp add: P_iteration_def)
    then have "calm (push [P_loop s old] ?k) k'" by (rule work_ticks.Sleep_Q)
    moreover have "others_kept (currentThread k) k (push [P_loop s old] ?k)"
      by (rule push_others' [OF calm_others [OF upd_sem_calm]]) (simp add: upd_sem_def)
    ultimately show ?thesis using calm_others others_trans by blast
  next
    case False
    then have "k' = leave old (upd_sem s (\<lambda>sem. sem\<lparr>svalue := svalue sem - 1\<rparr>) k)" using assms sem by (simp add: P_iteration_def)
    then show ?thesis using calm_trans [OF upd_sem_calm work_sched.leave_Q] calm_others by blast
  qed
qed

lemma Condition_new_clocks: "dom (conditions k) \<subseteq> {..<next_id k} \<Longrightarrow> Condition_new l k = (c, k') \<Longrightarrow> clocks k \<subseteq>\<^sub>m clocks k'"
  by (force simp: Condition_new_def clocks_def map_le_def)

lemma Puerto_new_others:
  assumes d: "dom (conditions k) \<subseteq> {..<next_id k}" and P: "Puerto_new k = (p, k')"
  shows "others_kept c k k'"
proof (rule same_others)
  show "threads k' = threads k" using P by (auto simp: Puerto_new_def Lock_new_def Semaphore_new_def Condition_new_def Let_def)
  have "conditions k i = Some cd \<Longrightarrow> conditions k' i = Some cd" for i cd
    using P d by (force simp: Puerto_new_def Lock_new_def Semaphore_new_def Condition_new_def Let_def)
  then show "clocks k \<subseteq>\<^sub>m clocks k'" by (auto simp: clocks_def map_le_def)
qed

lemma Fork_others:
  assumes I: "dom (conditions k) \<subseteq> {..<next_id k}" and A: "at_rest b k" and t: "threads k t = Some th" "tstatus th = JUST_CREATED" and F: "Thread_Fork t j p k = Inr k'"
  shows "others_kept c k k'"
proof -
  let ?k1 = "upd_thread t StackAllocate k"
  let ?k2 = "if \<not> j then let (port, k') = Puerto_new ?k1 in upd_thread t (\<lambda>th. th\<lparr>join_flag := True, portJoin := Some port\<rparr>) k' else ?k1"
  let ?k3 = "upd_thread t (setPriority p) ?k2"
  have "set (frames th) \<subseteq> {ThreadRoot, AfterSwitch}"
    using A tview_Some [OF t(1)] t(2) by (simp add: at_rest_def kernel_inv_def sched_ok_def)
  then have "filter work_frame (frames th) = []" by (auto simp: filter_empty_conv work_frame_def)
  then have 1: "calm k ?k1" using t(1) by (intro upd_thread_calm) (simp add: StackAllocate_def work_frame_def)
  have T: "calm k0 (upd_thread t f k0)" if "\<And>th. frames (f th) = frames th" for k0 f using that by (intro upd_thread_calm) simp
  have 2: "others_kept c ?k1 ?k2"
  proof (cases j)
    case False
    obtain port k2 where n: "Puerto_new ?k1 = (port, k2)" by (cases "Puerto_new ?k1")
    have d: "dom (conditions ?k1) \<subseteq> {..<next_id ?k1}" using I by simp
    have "others_kept c ?k1 k2" by (rule Puerto_new_others [OF d n])
    also have "others_kept c k2 (upd_thread t (\<lambda>th. th\<lparr>join_flag := True, portJoin := Some port\<rparr>) k2)" by (intro calm_others T) simp
    finally show ?thesis using False n by simp
  qed (simp add: calm_others)
  obtain k4 where k4: "ReadyToRun t (ChangeLevel IntOff ?k3) = Inr k4" "k' = leave (level ?k3) k4"
    using F t(1) by (simp add: Thread_Fork_def Let_def rbind_eq_Inr) blast
  have "calm ?k2 ?k3" by (rule T) (simp add: setPriority_def)
  also note work_sched.Q_level
  also note work_sched.ReadyToRun_Q [OF k4(1)]
  also note work_sched.leave_Q
  finally have "calm ?k2 k'" unfolding k4(2) .
  then show ?thesis using 1 2 calm_others others_trans by blast
qed

lemma push_upd_others:
  assumes "currentThread k = c"
  shows "others_kept c k (push fs (upd_lock l f k))" "others_kept c k (push fs (upd_port p g k))"
    "others_kept c k (push fs (upd_cond cv (\<lambda>cd. cd\<lparr>semList := ss cd\<rparr>) k))"
  by (rule push_others' [OF upd_others(1)] push_others' [OF upd_others(2)] push_others' [OF upd_others(3)],
      simp add: assms upd_lock_def upd_port_def upd_cond_def)+

lemma Wait_others:
  assumes "Condition_Wait cv k = Inr k'"
  shows "others_kept (currentThread k) k k'"
proof -
  let ?c = "currentThread k" and ?s = "fst (Semaphore_new 1 k)" and ?new = "snd (Semaphore_new 1 k)"
  obtain fs where k': "k' = push fs (upd_cond cv (\<lambda>cd. cd\<lparr>semList := semList cd @ [?s]\<rparr>) ?new)"
    using assms by (auto simp: Condition_Wait_def with_lock_def rbind_eq_Inr Let_def case_prod_beta)
  have "others_kept ?c k ?new" by (intro calm_others calm_same) (simp_all add: Semaphore_new_def)
  also have "others_kept ?c ?new (upd_cond cv (\<lambda>cd. cd\<lparr>semList := semList cd @ [?s]\<rparr>) ?new)" by simp
  finally show ?thesis unfolding k' by (rule push_others') (simp add: upd_cond_def Semaphore_new_def)
qed

lemma Signal_others: "Condition_Signal cv k = Inr k' \<Longrightarrow> others_kept (currentThread k) k k'"
  by (erule Signal_cases) (simp_all add: push_upd_others)

lemma call_others:
  assumes c: "currentThread k = c"
  shows "Thread_Finish k = Inr k' \<Longrightarrow> others_kept c k k'" "Thread_Join t k = Inr k' \<Longrightarrow> others_kept c k k'"
    "Lock_Acquire l k = Inr k' \<Longrightarrow> others_kept c k k'" "Lock_Release l k = Inr k' \<Longrightarrow> others_kept c k k'"
    "Lock_set_owner l k = Inr k' \<Longrightarrow> others_kept c k k'"
    "Broadcast_loop cv k = Inr k' \<Longrightarrow> others_kept c k k'" "Condition_Broadcast cv k = Inr k' \<Longrightarrow> others_kept c k k'"
    "Puerto_Send p m k = Inr k' \<Longrightarrow> others_kept c k k'" "Send_loop p m k = Inr k' \<Longrightarrow> others_kept c k k'"
    "Puerto_Receive p k = Inr k' \<Longrightarrow> others_kept c k k'" "Receive_loop p k = Inr k' \<Longrightarrow> others_kept c k k'"
proof -
  have P: "others_kept c k (push fs k)" for fs using push_others [of k fs] c by simp
  note U = push_upd_others [OF c]
  show "Thread_Finish k = Inr k' \<Longrightarrow> others_kept c k k'"
    using push_others' [OF calm_others [OF work_sched.Q_level [of k IntOff]], of c] c
    by (auto simp: Thread_Finish_def Let_def rbind_eq_Inr ChangeLevel_def split: if_splits option.splits)
  show "Thread_Join t k = Inr k' \<Longrightarrow> others_kept c k k'"
    by (auto simp: Thread_Join_def rbind_eq_Inr P split: if_splits option.splits)
  show "Lock_Acquire l k = Inr k' \<Longrightarrow> others_kept c k k'" by (auto simp: Lock_Acquire_def rbind_eq_Inr P split: if_splits)
  show "Lock_Release l k = Inr k' \<Longrightarrow> others_kept c k k'" by (auto simp: Lock_Release_def rbind_eq_Inr U)
  show "Lock_set_owner l k = Inr k' \<Longrightarrow> others_kept c k k'" by (auto simp: Lock_set_owner_def rbind_eq_Inr)
  show B: "Broadcast_loop cv k = Inr k' \<Longrightarrow> others_kept c k k'" by (auto simp: Broadcast_loop_def rbind_eq_Inr P split: if_splits)
  show "Condition_Broadcast cv k = Inr k' \<Longrightarrow> others_kept c k k'" using B by (auto simp: Condition_Broadcast_def with_lock_def rbind_eq_Inr)
  show "Puerto_Send p m k = Inr k' \<Longrightarrow> others_kept c k k'" by (auto simp: Puerto_Send_def rbind_eq_Inr P)
  show "Send_loop p m k = Inr k' \<Longrightarrow> others_kept c k k'" by (auto simp: Send_loop_def rbind_eq_Inr P U split: if_splits)
  show "Puerto_Receive p k = Inr k' \<Longrightarrow> others_kept c k k'" by (auto simp: Puerto_Receive_def rbind_eq_Inr P)
  show "Receive_loop p k = Inr k' \<Longrightarrow> others_kept c k k'" by (auto simp: Receive_loop_def rbind_eq_Inr P U split: if_splits option.splits)
qed

lemma exec_frame_others:
  assumes I: "dom (conditions k) \<subseteq> {..<next_id k}" and A: "at_rest b k" and r: "frame_ready b f k" and E: "exec_frame f k = Some (Inr k')"
  shows "others_kept (currentThread k) k k'"
proof (cases f)
  case AfterSwitch
  then show ?thesis using E work_switch.after_switch_Q [OF A] calm_others by (simp add: exec_frame_def)
next
  case (RestoreStatus st)
  then show ?thesis using E calm_others [OF calm_same, of "k\<lparr>istatus := st\<rparr>" k] by (auto simp: exec_frame_def)
next
  case (P_loop s old)
  then show ?thesis using E P_iteration_others by (simp add: exec_frame_def)
next
  case (CallP s)
  then show ?thesis using E P_iteration_others [of s _ "ChangeLevel IntOff k"] others_trans [OF calm_others [OF work_sched.Q_level]]
    by (fastforce simp: exec_frame_def Semaphore_P_def ChangeLevel_def)
next
  case FinishTail
  have "calm k (k\<lparr>threadToBeDestroyed := Some (currentThread k)\<rparr>)" by (rule calm_same) simp_all
  then show ?thesis using E FinishTail work_ticks.Sleep_Q calm_trans calm_others by (fastforce simp: exec_frame_def Finish_tail_def)
next
  case (CallFork t j p)
  then show ?thesis using E r Fork_others [OF I A] by (auto simp: exec_frame_def frame_ready_def)
qed (use E in \<open>auto simp: exec_frame_def Enable_def intro: call_others Wait_others Signal_others calm_others V_calm
    work_ticks.SetLevel_Q work_ticks.OneTick_Q work_sched.Yield_Q work_sched.donate_Q\<close>)

section \<open>Owning a lock in the end\<close>

text \<open>The frames of calls of \<^verbatim>\<open>Acquire\<close>, \<^verbatim>\<open>Release\<close>, \<^verbatim>\<open>Wait\<close> and \<^verbatim>\<open>Signal\<close> for the lock \<open>l\<close> and its condition variables.\<close>

definition plain :: "lid \<Rightarrow> frame \<Rightarrow> bool" where
  "plain l f = (case f of CallP s \<Rightarrow> True | P_loop s old \<Rightarrow> True | CallV s \<Rightarrow> True | Donate l' \<Rightarrow> True
     | SetOwner l' \<Rightarrow> l' = l | CallAcquire l' \<Rightarrow> l' = l | CallRelease l' \<Rightarrow> l' = l | _ \<Rightarrow> False)"

definition after_frame :: "lid \<Rightarrow> frame \<Rightarrow> bool \<Rightarrow> bool" where
  "after_frame l f own = (case f of SetOwner l' \<Rightarrow> l' = l \<or> own | CallAcquire l' \<Rightarrow> l' = l \<or> own
     | CallRelease l' \<Rightarrow> l' \<noteq> l \<and> own | _ \<Rightarrow> own)"

fun promise :: "lid \<Rightarrow> frame list \<Rightarrow> bool \<Rightarrow> bool" where
  "promise l [] own = own"
| "promise l (f # fs) own = promise l fs (after_frame l f own)"

lemma after_frame_mono: "after_frame l f own \<Longrightarrow> (own \<Longrightarrow> own') \<Longrightarrow> after_frame l f own'"
  by (cases f) (auto simp: after_frame_def)

lemma promise_mono: "promise l fs own \<Longrightarrow> (own \<Longrightarrow> own') \<Longrightarrow> promise l fs own'"
proof (induction fs arbitrary: own own')
  case (Cons f fs)
  have "promise l fs (after_frame l f own)" using Cons.prems(1) by simp
  from Cons.IH [OF this after_frame_mono [OF _ Cons.prems(2)]] show ?case by simp
qed simp

text \<open>A thread with no acquisition ahead that is going to own the lock owns it.\<close>

lemma promise_now: "promise l fs own \<Longrightarrow> CallAcquire l \<notin> set fs \<Longrightarrow> SetOwner l \<notin> set fs \<Longrightarrow> own"
proof (induction fs arbitrary: own)
  case (Cons f fs)
  then have "after_frame l f own" by simp
  then show ?case using Cons.prems(2,3) by (cases f) (simp_all add: after_frame_def)
qed simp

definition holder :: "kernel \<Rightarrow> lid \<Rightarrow> tid option" where
  "holder k l = Option.bind (locks k l) thname"

definition will_own :: "lid \<Rightarrow> kernel \<Rightarrow> tid \<Rightarrow> bool" where
  "will_own l k t \<longleftrightarrow> (\<forall>f \<in> set (work k t). plain l f) \<and> promise l (work k t) (holder k l = Some t)"

lemma calm_holder: "lock_view k' = lock_view k \<Longrightarrow> holder k' l = holder k l"
  by (drule fun_cong [of _ _ l]) (cases "locks k l"; cases "locks k' l"; simp add: lock_view_def holder_def)

lemma calm_will_own: "calm k k' \<Longrightarrow> will_own l k' t = will_own l k t"
  using calm_holder [of k' k l] by (simp add: calm_def will_own_def)

lemma P_iteration_own:
  assumes c: "threads k (currentThread k) \<noteq> None" and W: "will_own l k (currentThread k)" and P: "P_iteration s old k = Some (Inr k')"
  shows "will_own l k' (currentThread k)"
proof -
  obtain sem where sem: "semaphores k s = Some sem" using P by (auto simp: P_iteration_def split: sum.splits)
  have U: "will_own l (upd_sem s f k) (currentThread k)" for f using W calm_will_own [OF upd_sem_calm] by blast
  show ?thesis
  proof (cases "svalue sem = 0")
    case True
    let ?k = "upd_sem s (\<lambda>sem. sem\<lparr>squeue := squeue sem @ [currentThread k]\<rparr>) k"
    have "Thread_Sleep (push [P_loop s old] ?k) = Some (Inr k')" using P sem True by (simp add: P_iteration_def)
    then have C: "calm (push [P_loop s old] ?k) k'" by (rule work_ticks.Sleep_Q)
    have "threads ?k (currentThread ?k) \<noteq> None" "currentThread ?k = currentThread k" using c by (simp_all add: upd_sem_def)
    then have "work (push [P_loop s old] ?k) (currentThread k) = P_loop s old # work ?k (currentThread k)"
      by (simp add: work_push work_frame_def resume_frame_def)
    moreover have "holder (push [P_loop s old] ?k) l = holder ?k l" by (simp add: holder_def push_def)
    ultimately have "will_own l (push [P_loop s old] ?k) (currentThread k)"
      using U by (simp add: will_own_def plain_def after_frame_def)
    then show ?thesis using calm_will_own [OF C] by simp
  next
    case False
    then have "k' = leave old (upd_sem s (\<lambda>sem. sem\<lparr>svalue := svalue sem - 1\<rparr>) k)" using P sem by (simp add: P_iteration_def)
    then show ?thesis using U calm_will_own [OF work_sched.leave_Q] by simp
  qed
qed

text \<open>A thread that calls something for the lock \<open>l\<close>: the frames \<open>fs\<close> are left of the call.\<close>

lemma call_own:
  assumes c: "threads k (currentThread k) \<noteq> None" and k1: "work k1 = work k" "currentThread k1 = currentThread k" "threads k1 = threads k"
    and p: "\<forall>f \<in> set (work k (currentThread k)). plain l f" "\<forall>f \<in> set fs. plain l f"
    and P: "promise l (fs @ work k (currentThread k)) (holder k1 l = Some (currentThread k))"
  shows "will_own l (push fs k1) (currentThread k)"
proof -
  have "\<forall>f \<in> set fs. work_frame f" using p(2) by (auto simp: plain_def work_frame_def resume_frame_def split: frame.splits)
  then have "work (push fs k1) (currentThread k) = fs @ work k (currentThread k)" using c k1 by (simp add: work_push filter_id_conv)
  moreover have "holder (push fs k1) l = holder k1 l" by (simp add: holder_def push_def)
  ultimately show ?thesis using p P by (auto simp: will_own_def)
qed

lemma upd_lock_fields [simp]: "work (upd_lock l f k) = work k" "currentThread (upd_lock l f k) = currentThread k" "threads (upd_lock l f k) = threads k"
  "holder (upd_lock l f k) l = Option.bind (locks k l) (\<lambda>lk. thname (f lk))"
  by (auto simp: work_def upd_lock_def holder_def fun_eq_iff split: bind_splits)

lemma push_Nil [simp]: "push [] k = k"
  by (simp add: push_def upd_thread_def map_option.id [unfolded id_def])

lemma exec_frame_own:
  assumes c: "threads k (currentThread k) \<noteq> None" and p: "\<forall>g \<in> set (f # work k (currentThread k)). plain l g"
    and P: "promise l (f # work k (currentThread k)) (holder k l = Some (currentThread k))" and E: "exec_frame f k = Some (Inr k')"
  shows "will_own l k' (currentThread k)"
proof -
  let ?c = "currentThread k"
  have p': "\<forall>g \<in> set (work k ?c). plain l g" using p by simp
  have W: "will_own l k ?c" if "\<And>own. after_frame l f own = own" using p' P that by (simp add: will_own_def)
  show ?thesis
  proof (cases f)
    case (P_loop s old)
    then show ?thesis using P_iteration_own [OF c W] E by (simp add: after_frame_def exec_frame_def)
  next
    case (CallP s)
    let ?k = "ChangeLevel IntOff k"
    have "will_own l ?k (currentThread ?k)" using W CallP calm_will_own [OF work_sched.Q_level] by (simp add: after_frame_def ChangeLevel_def)
    then show ?thesis using P_iteration_own [of ?k l s "level k" k'] c E CallP by (simp add: exec_frame_def Semaphore_P_def) (simp add: ChangeLevel_def)
  next
    case (CallV s)
    then show ?thesis using E W calm_will_own [OF V_calm] by (simp add: exec_frame_def after_frame_def)
  next
    case (Donate l')
    then show ?thesis using E W calm_will_own [OF work_sched.donate_Q] by (simp add: exec_frame_def after_frame_def)
  next
    case (SetOwner l')
    then have f: "l' = l" "k' = push [] (upd_lock l (\<lambda>lk. lk\<lparr>thname := Some ?c\<rparr>) k)" "\<exists>lk. locks k l = Some lk"
      using p E by (auto simp: exec_frame_def Lock_set_owner_def rbind_eq_Inr plain_def)
    then show ?thesis unfolding f(2) using SetOwner P by (intro call_own [OF c _ _ _ p']) (auto simp: after_frame_def)
  next
    case (CallAcquire l')
    then have l': "l' = l" using p by (simp add: plain_def)
    then obtain lk where lk: "locks k l = Some lk" and k': "k' = (if \<not> isHeldByCurrentThread lk k
        then push [CallP (semInvP lk), Donate l, CallV (semInvP lk), CallP (lsem lk), SetOwner l] k else push [] k)"
      using CallAcquire E by (auto simp: exec_frame_def Lock_Acquire_def rbind_eq_Inr)
    have "promise l (work k ?c) True" using P CallAcquire l' by (simp add: after_frame_def)
    then show ?thesis unfolding k'
      by (auto intro!: call_own [OF c _ _ _ p'] simp: plain_def after_frame_def holder_def lk isHeldByCurrentThread_def simp del: push_Nil)
  next
    case (CallRelease l')
    then have l': "l' = l" using p by (simp add: plain_def)
    then obtain lk where lk: "locks k l = Some lk" and k': "k' = push [CallV (lsem lk)] (upd_lock l (\<lambda>lk. lk\<lparr>thname := None\<rparr>) k)"
      using CallRelease E by (auto simp: exec_frame_def Lock_Release_def rbind_eq_Inr)
    have "promise l (work k ?c) False" using P CallRelease l' by (simp add: after_frame_def)
    then show ?thesis unfolding k' using lk by (intro call_own [OF c _ _ _ p']) (simp_all add: plain_def after_frame_def)
  qed (use p in \<open>simp_all add: plain_def\<close>)
qed

section \<open>Every step\<close>

lemma resume_calm:
  assumes A: "at_rest b k" and f: "\<not> work_frame f" and E: "exec_frame f k = Some (Inr k')"
  shows "calm k k'"
proof (cases f)
  case AfterSwitch
  then show ?thesis using E work_switch.after_switch_Q [OF A] by (simp add: exec_frame_def)
next
  case (RestoreStatus st)
  then show ?thesis using E calm_same [of "k\<lparr>istatus := st\<rparr>" k] by (auto simp: exec_frame_def)
qed (use f E in \<open>auto simp: work_frame_def resume_frame_def exec_frame_def Enable_def intro: work_ticks.SetLevel_Q\<close>)

text \<open>Whether a thread is going to own a lock is not changed by what it has begun before, nor by any other thread.\<close>

lemma lock_post_holder: "lock_post k k' \<Longrightarrow> t \<noteq> currentThread k \<Longrightarrow> holder k l = Some t \<Longrightarrow> holder k' l = Some t"
proof -
  assume "lock_post k k'" and t: "t \<noteq> currentThread k" "holder k l = Some t"
  then have O: "owner_kept (currentThread k) (lock_view k) (lock_view k')" by (simp add: lock_post_def)
  obtain lk where "locks k l = Some lk" "thname lk = Some t" using t(2) by (auto simp: holder_def bind_eq_Some_conv)
  then have "lock_view k l = Some (Some t, lsem lk, semInvP lk)" by (simp add: lock_view_def)
  then have "lock_view k' l = Some (Some t, lsem lk, semInvP lk)" using O t(1) unfolding owner_kept_def by blast
  then show ?thesis by (auto simp: lock_view_Some holder_def)
qed

lemma others_will_own:
  assumes "others_kept (currentThread k) k k'" and "lock_post k k'" and "t \<noteq> currentThread k" and "will_own l k t"
  shows "will_own l k' t"
  using assms lock_post_holder [OF assms(2,3)] promise_mono by (auto simp: others_kept_def will_own_def)

lemma pop_clocks: "clocks (pop_frame k) = clocks k"
  by (simp add: clocks_def pop_frame_def fun_eq_iff)

lemma pop_work:
  assumes "threads k (currentThread k) = Some th" "frames th = f # fs"
  shows "work (pop_frame k) = (work k)(currentThread k := filter work_frame fs)"
  using assms by (auto simp: work_def pop_frame_def fun_eq_iff)

lemma step_others:
  assumes S: "safe False k" and I: "lock_inv k" and st: "kernel_step k k'"
  shows "others_kept (currentThread k) k k'"
  using st
proof cases
  case (exec f fs)
  obtain th where th: "threads k (currentThread k) = Some th" "frames th = f # fs" using top_frames_thread [OF exec(2)] by blast
  have A: "at_rest False k" using S exec(1) by (simp add: safe_at_rest)
  have "dom (conditions (pop_frame k)) \<subseteq> {..<next_id (pop_frame k)}" using I by (simp add: lock_inv_def pop_frame_def)
  then have "others_kept (currentThread (pop_frame k)) (pop_frame k) k'"
    using exec_frame_others [OF _ pop_inv [OF A] popped_ready [OF A exec(2)] exec(3)] by simp
  moreover have "currentThread (pop_frame k) = currentThread k" by (simp add: pop_frame_def)
  ultimately show ?thesis by (simp add: others_kept_def pop_work [OF th] pop_clocks)
next
  case (client f)
  have "frame_ready False f k" using client(2,3) by (auto simp: frame_ready_def client_call_def split: frame.splits option.splits)
  then show ?thesis using exec_frame_others [OF _ _ _ client(4)] S I client(1) by (simp add: safe_at_rest lock_inv_def)
next
  case (new_thread nm junk t)
  have n: "threads k (next_id k) = None" using S by (auto simp: safe_def kernel_inv_def)
  have "work k' = work k" using new_thread(3) n by (auto simp: create_thread_def work_def fun_eq_iff Thread_new_def)
  moreover have "clocks k' = clocks k" using new_thread(3) by (auto simp: create_thread_def clocks_def fun_eq_iff)
  ultimately show ?thesis by (simp add: others_kept_def)
next
  case (new_semaphore v s)
  then show ?thesis by (auto intro!: calm_others calm_same simp: Semaphore_new_def)
next
  case (new_lock junk l)
  then show ?thesis by (auto intro!: same_others simp: Lock_new_def Semaphore_new_def Let_def clocks_def map_le_def)
next
  case (new_condition l c)
  then have "threads k' = threads k" by (auto simp: Condition_new_def)
  then show ?thesis using Condition_new_clocks I new_condition(4) same_others by (simp add: lock_inv_def)
next
  case (new_port p)
  then show ?thesis using Puerto_new_others I by (simp add: lock_inv_def)
next
  case (start_device s n ty)
  then obtain pe where "k' = k\<lparr>pending := pe\<rparr>" by (auto simp: Schedule_def Let_def)
  then show ?thesis by (auto intro!: calm_others calm_same)
qed

lemma step_own:
  assumes S: "safe False k" and I: "lock_inv k" and st: "kernel_step k k'" and u: "top_frames k \<noteq> [] \<or> u \<noteq> currentThread k" and W: "will_own l k u"
  shows "will_own l k' u"
proof (cases "u = currentThread k")
  case False
  then show ?thesis using others_will_own [OF step_others [OF S I st] step_lock [OF I S st]] W by blast
next
  case True
  then obtain f fs where t: "top_frames k = f # fs" using u by (cases "top_frames k") auto
  from st t have h: "\<not> halted k" and E: "exec_frame f (pop_frame k) = Some (Inr k')" by (cases rule: kernel_step.cases; simp)+
  obtain th where th: "threads k u = Some th" "frames th = f # fs" using top_frames_thread [OF t] True by blast
  let ?k = "pop_frame k"
  have k: "holder ?k l = holder k l" "currentThread ?k = u" "threads ?k u \<noteq> None" "work ?k u = filter work_frame fs"
    using th True pop_work [of k th f fs] by (simp_all add: pop_frame_def holder_def)
  show ?thesis
  proof (cases "work_frame f")
    case w: True
    then have w: "work k u = f # work ?k u" using th k(4) by (simp add: work_def)
    have "\<forall>g \<in> set (f # work ?k u). plain l g" "promise l (f # work ?k u) (holder ?k l = Some u)"
      using W unfolding will_own_def w k(1) by blast+
    then show ?thesis using exec_frame_own [of ?k f l k', OF _ _ _ E] k(2,3) by simp
  next
    case False
    then have "work k u = work ?k u" using th k(4) by (simp add: work_def)
    then have "will_own l ?k u" using W k(1) by (simp add: will_own_def)
    moreover have "at_rest False ?k" using S h pop_inv by (simp add: safe_at_rest)
    ultimately show ?thesis using calm_will_own [OF resume_calm [OF _ False E]] by simp
  qed
qed

end
