(* ===== verification/Synch_List.thy ===== *)
theory Synch_List
  imports Thread_Work Linked_List
begin

text \<open>
  The synchronised list of \<^verbatim>\<open>threads/synchlist.h\<close>: a list, a lock and a condition variable, used by any number of threads. A thread is
  at a point of \<^verbatim>\<open>Append\<close>, \<^verbatim>\<open>Remove\<close> or \<^verbatim>\<open>Apply\<close> or outside of them; the calls of the lock and the condition variable are those of the
  thread system, and while a thread has frames left of such a call, or another thread has the CPU, the kernel runs. Every
  interleaving that the kernel allows is a sequence of steps.
\<close>

section \<open>synchlist.h\<close>

record 'a SynchList =
  sl_list :: "'a heap \<times> List"
  sl_lock :: lid
  listEmpty :: cid

text \<open>Where a thread is when the call it has made returns.\<close>

datatype 'a point = Outside | Appending 'a | Signalled | Removing | Applying | Returning "'a option"

text \<open>\<open>appended\<close> and \<open>removed\<close> are the items put on the list and those that \<^verbatim>\<open>Remove\<close> has got from it, in this order.\<close>

record 'a shared =
  kernel_of :: kernel
  synchlist :: "'a SynchList"
  place :: "tid \<Rightarrow> 'a point"
  appended :: "'a list"
  removed :: "'a option list"

definition SynchList_new :: "int \<Rightarrow> 'a heap \<Rightarrow> kernel \<Rightarrow> 'a SynchList \<times> kernel" where
  "SynchList_new junk h k =
     (let (l, k1) = Lock_new junk k; (c, k2) = Condition_new l k1 in (\<lparr>sl_list = (h, List_new), sl_lock = l, listEmpty = c\<rparr>, k2))"

definition goto :: "'a point \<Rightarrow> kernel \<Rightarrow> 'a shared \<Rightarrow> 'a shared" where
  "goto p k s = s\<lparr>kernel_of := k, place := (place s)(currentThread (kernel_of s) := p)\<rparr>"

definition set_list :: "'a heap \<times> List \<Rightarrow> 'a shared \<Rightarrow> 'a shared" where
  "set_list hl s = s\<lparr>synchlist := (synchlist s)\<lparr>sl_list := hl\<rparr>\<rparr>"

text \<open>\<^verbatim>\<open>lock->Acquire()\<close>, with which the three operations begin, and \<^verbatim>\<open>lock->Release()\<close>, with which they end.\<close>

definition enter :: "'a point \<Rightarrow> 'a shared \<Rightarrow> 'a shared res" where
  "enter p s = rbind (Lock_Acquire (sl_lock (synchlist s)) (kernel_of s)) (\<lambda>k. Inr (goto p k s))"

definition depart :: "'a option \<Rightarrow> 'a shared \<Rightarrow> 'a shared res" where
  "depart r s = rbind (Lock_Release (sl_lock (synchlist s)) (kernel_of s)) (\<lambda>k. Inr (goto (Returning r) k s))"

text \<open>\<^verbatim>\<open>Append\<close> after \<^verbatim>\<open>Acquire\<close>, up to \<^verbatim>\<open>Signal\<close>.\<close>

definition SynchList_Append :: "'a \<Rightarrow> 'a shared \<Rightarrow> 'a shared res" where
  "SynchList_Append it s =
     rbind (List_Append it (sl_list (synchlist s))) (\<lambda>hl.
     rbind (Condition_Signal (listEmpty (synchlist s)) (kernel_of s)) (\<lambda>k.
     Inr (goto Signalled k (set_list hl (s\<lparr>appended := appended s @ [it]\<rparr>)))))"

text \<open>One test of the loop of \<^verbatim>\<open>Remove\<close>, and what follows it.\<close>

definition SynchList_Remove :: "'a shared \<Rightarrow> 'a shared res" where
  "SynchList_Remove s =
     (if List_IsEmpty (snd (sl_list (synchlist s)))
      then rbind (Condition_Wait (listEmpty (synchlist s)) (kernel_of s)) (\<lambda>k. Inr (goto Removing k s))
      else rbind (List_Remove (sl_list (synchlist s))) (\<lambda>(it, hl).
        depart it (set_list hl (s\<lparr>removed := removed s @ [it]\<rparr>))))"

text \<open>\<^verbatim>\<open>Apply\<close>; the function is called on the items of \<open>List_Apply\<close>.\<close>

definition SynchList_Apply :: "'a shared \<Rightarrow> 'a shared res option" where
  "SynchList_Apply s = Option.bind (List_Apply (sl_list (synchlist s))) (\<lambda>r. Some (rbind r (\<lambda>its. depart None s)))"

text \<open>The destructor.\<close>

definition SynchList_delete :: "'a SynchList \<Rightarrow> kernel \<Rightarrow> (('a heap \<times> List) \<times> kernel) res option" where
  "SynchList_delete sl k = Option.bind (List_destroy (sl_list sl)) (\<lambda>r. Some (
     rbind r (\<lambda>hl.
     rbind (Lock_delete (sl_lock sl) k) (\<lambda>k1.
     rbind (Condition_delete (listEmpty sl) k1) (\<lambda>k2. Inr (hl, k2))))))"

text \<open>What the current thread does when its call has returned.\<close>

definition resume :: "'a shared \<Rightarrow> 'a shared res option" where
  "resume s = (case place s (currentThread (kernel_of s)) of
     Outside \<Rightarrow> Some (Inr s)
   | Appending it \<Rightarrow> Some (SynchList_Append it s)
   | Signalled \<Rightarrow> Some (depart None s)
   | Removing \<Rightarrow> Some (SynchList_Remove s)
   | Applying \<Rightarrow> SynchList_Apply s
   | Returning r \<Rightarrow> Some (Inr (goto Outside (kernel_of s) s)))"

definition inside :: "'a point \<Rightarrow> bool" where
  "inside p = (case p of Appending it \<Rightarrow> True | Signalled \<Rightarrow> True | Removing \<Rightarrow> True | Applying \<Rightarrow> True | _ \<Rightarrow> False)"

definition entry :: "'a point \<Rightarrow> bool" where
  "entry p = (case p of Appending it \<Rightarrow> True | Removing \<Rightarrow> True | Applying \<Rightarrow> True | _ \<Rightarrow> False)"

text \<open>A thread that is in none of the operations may call whatever it likes, this lock and this condition variable included.\<close>

inductive sl_step :: "'a shared \<Rightarrow> 'a shared \<Rightarrow> bool" where
  kernel: "kernel_step (kernel_of s) k \<Longrightarrow> top_frames (kernel_of s) \<noteq> [] \<or> place s (currentThread (kernel_of s)) = Outside \<Longrightarrow>
    sl_step s (s\<lparr>kernel_of := k\<rparr>)"
| call: "\<not> halted (kernel_of s) \<Longrightarrow> top_frames (kernel_of s) = [] \<Longrightarrow> place s (currentThread (kernel_of s)) = Outside \<Longrightarrow>
    entry p \<Longrightarrow> enter p s = Inr s' \<Longrightarrow> sl_step s s'"
| resume: "\<not> halted (kernel_of s) \<Longrightarrow> top_frames (kernel_of s) = [] \<Longrightarrow> resume s = Some (Inr s') \<Longrightarrow> sl_step s s'"

definition fresh :: "int \<Rightarrow> 'a heap \<Rightarrow> kernel \<Rightarrow> 'a shared" where
  "fresh junk h k = (let (sl, k') = SynchList_new junk h k in
     \<lparr>kernel_of = k', synchlist = sl, place = (\<lambda>t. Outside), appended = [], removed = []\<rparr>)"

text \<open>A list is created by a thread of a running kernel, and then used.\<close>

inductive sl_reachable :: "'a shared \<Rightarrow> bool" where
  new: "reachable False k \<Longrightarrow> \<not> halted k \<Longrightarrow> top_frames k = [] \<Longrightarrow> sl_reachable (fresh junk h k)"
| step: "sl_reachable s \<Longrightarrow> sl_step s s' \<Longrightarrow> sl_reachable s'"

section \<open>Invariant\<close>

definition sl_inv :: "'a shared \<Rightarrow> bool" where
  "sl_inv s \<longleftrightarrow> reachable False (kernel_of s) \<and> clocks (kernel_of s) (listEmpty (synchlist s)) = Some (sl_lock (synchlist s))
     \<and> (\<exists>xs. seq_rep (sl_list (synchlist s)) (map (Pair 0) xs) \<and> map Some (appended s) = removed s @ map Some xs)
     \<and> (\<forall>t. inside (place s t) \<longrightarrow> will_own (sl_lock (synchlist s)) (kernel_of s) t)"

lemma goto_simps [simp]:
  "kernel_of (goto p k s) = k" "synchlist (goto p k s) = synchlist s" "appended (goto p k s) = appended s" "removed (goto p k s) = removed s"
  "place (goto p k s) = (place s)(currentThread (kernel_of s) := p)"
  by (simp_all add: goto_def)

lemma set_list_simps [simp]:
  "kernel_of (set_list hl s) = kernel_of s" "appended (set_list hl s) = appended s" "removed (set_list hl s) = removed s"
  "place (set_list hl s) = place s" "sl_lock (synchlist (set_list hl s)) = sl_lock (synchlist s)"
  "listEmpty (synchlist (set_list hl s)) = listEmpty (synchlist s)" "sl_list (synchlist (set_list hl s)) = hl"
  by (simp_all add: set_list_def)

lemma sl_invD:
  assumes "sl_inv s"
  shows "safe False (kernel_of s)" "lock_inv (kernel_of s)"
  using assms reachable_safe reachable_lock by (auto simp: sl_inv_def)

text \<open>
  The kernel makes a step: the promises of the threads other than the current one stay, and that of the current one
  if it has begun a call.
\<close>

lemma sl_step_inv:
  assumes I: "sl_inv s" and st: "kernel_step (kernel_of s) k" and s': "sl_lock (synchlist s') = sl_lock (synchlist s)"
      "listEmpty (synchlist s') = listEmpty (synchlist s)" "kernel_of s' = k"
    and xs: "seq_rep (sl_list (synchlist s')) (map (Pair 0) xs)" "map Some (appended s') = removed s' @ map Some xs"
    and p: "\<And>t. inside (place s' t) \<Longrightarrow> t \<noteq> currentThread (kernel_of s) \<Longrightarrow> inside (place s t)"
    and c: "inside (place s' (currentThread (kernel_of s))) \<Longrightarrow>
      top_frames (kernel_of s) \<noteq> [] \<and> inside (place s (currentThread (kernel_of s))) \<or> will_own (sl_lock (synchlist s)) k (currentThread (kernel_of s))"
  shows "sl_inv s'"
proof -
  note D = sl_invD [OF I]
  have R: "reachable False k" using reachable.step [OF _ st] I by (simp add: sl_inv_def)
  have "clocks (kernel_of s) \<subseteq>\<^sub>m clocks k" using step_others [OF D st] by (simp add: others_kept_def)
  then have C: "clocks k (listEmpty (synchlist s)) = Some (sl_lock (synchlist s))" using I by (force simp: sl_inv_def map_le_def)
  have "will_own (sl_lock (synchlist s)) k t" if "inside (place s' t)" for t
  proof (cases "t = currentThread (kernel_of s)")
    case True
    then show ?thesis using c that step_own [OF D st] I by (auto simp: sl_inv_def)
  next
    case False
    then show ?thesis using p [OF that] step_own [OF D st] I by (auto simp: sl_inv_def)
  qed
  then show ?thesis using R C xs unfolding sl_inv_def s' by blast
qed

lemma no_frames_work: "top_frames k = [] \<Longrightarrow> work k (currentThread k) = []"
  by (auto simp: top_frames_def work_def split: option.splits)

lemma current_thread:
  assumes "sl_inv s" and "\<not> halted (kernel_of s)"
  shows "threads (kernel_of s) (currentThread (kernel_of s)) \<noteq> None"
  using assms sl_invD(1) current_exists safe_at_rest by blast

text \<open>A thread that is inside an operation and has no call left owns the lock.\<close>

lemma inside_holder:
  assumes "sl_inv s" "top_frames (kernel_of s) = []" "inside (place s (currentThread (kernel_of s)))"
  shows "holder (kernel_of s) (sl_lock (synchlist s)) = Some (currentThread (kernel_of s))"
  using assms no_frames_work by (fastforce simp: sl_inv_def will_own_def)

lemma enter_inv:
  assumes I: "sl_inv s" and h: "\<not> halted (kernel_of s)" "top_frames (kernel_of s) = []" and E: "enter p s = Inr s'"
  shows "sl_inv s'"
proof -
  let ?k = "kernel_of s" and ?l = "sl_lock (synchlist s)"
  obtain k where k: "Lock_Acquire ?l ?k = Inr k" "s' = goto p k s" using E by (auto simp: enter_def rbind_eq_Inr)
  then have "locks ?k ?l \<noteq> None" by (auto simp: Lock_Acquire_def rbind_eq_Inr)
  moreover have X: "exec_frame (CallAcquire ?l) ?k = Some (Inr k)" using k(1) by (simp add: exec_frame_def)
  ultimately have st: "kernel_step ?k k" using h by (intro kernel_step.client) (simp_all add: client_call_def)
  have "will_own ?l k (currentThread ?k)"
    by (rule exec_frame_own [OF current_thread [OF I h(1)] _ _ X]) (simp_all add: no_frames_work [OF h(2)] plain_def after_frame_def)
  moreover obtain xs where "seq_rep (sl_list (synchlist s)) (map (Pair 0) xs)" "map Some (appended s) = removed s @ map Some xs"
    using I by (auto simp: sl_inv_def)
  ultimately show ?thesis by (intro sl_step_inv [OF I st]) (simp_all add: k(2))
qed

text \<open>The last call of an operation: the list may have changed before it.\<close>

lemma depart_step:
  assumes I: "sl_inv s" and h: "\<not> halted (kernel_of s)" "top_frames (kernel_of s) = []" and c: "inside (place s (currentThread (kernel_of s)))"
  obtains k where "Lock_Release (sl_lock (synchlist s)) (kernel_of s) = Inr k" "kernel_step (kernel_of s) k"
proof -
  let ?k = "kernel_of s" and ?l = "sl_lock (synchlist s)"
  obtain lk where lk: "locks ?k ?l = Some lk" "thname lk = Some (currentThread ?k)"
    using inside_holder [OF I h(2) c] by (auto simp: holder_def bind_eq_Some_conv)
  then obtain k where k: "Lock_Release ?l ?k = Inr k" by (simp add: Lock_Release_def isHeldByCurrentThread_def)
  then have "exec_frame (CallRelease ?l) ?k = Some (Inr k)" by (simp add: exec_frame_def)
  then have "kernel_step ?k k" using h lk(1) by (intro kernel_step.client) (simp_all add: client_call_def)
  with k show thesis using that by blast
qed

text \<open>The condition variable belongs to the lock, so its operations find the lock held.\<close>

lemma cond_held:
  assumes I: "sl_inv s" and h: "top_frames (kernel_of s) = []" and c: "inside (place s (currentThread (kernel_of s)))"
  obtains cd lk where "conditions (kernel_of s) (listEmpty (synchlist s)) = Some cd" "clock cd = sl_lock (synchlist s)"
    "locks (kernel_of s) (sl_lock (synchlist s)) = Some lk" "isHeldByCurrentThread lk (kernel_of s)"
proof -
  obtain cd where "conditions (kernel_of s) (listEmpty (synchlist s)) = Some cd" "clock cd = sl_lock (synchlist s)"
    using I by (auto simp: sl_inv_def clocks_def)
  moreover obtain lk where "locks (kernel_of s) (sl_lock (synchlist s)) = Some lk" "thname lk = Some (currentThread (kernel_of s))"
    using inside_holder [OF I h c] by (auto simp: holder_def bind_eq_Some_conv)
  ultimately show thesis using that by (simp add: isHeldByCurrentThread_def)
qed

lemma Signal_step:
  assumes I: "sl_inv s" and h: "\<not> halted (kernel_of s)" "top_frames (kernel_of s) = []" and c: "inside (place s (currentThread (kernel_of s)))"
  obtains k where "Condition_Signal (listEmpty (synchlist s)) (kernel_of s) = Inr k" "kernel_step (kernel_of s) k"
    "will_own (sl_lock (synchlist s)) k (currentThread (kernel_of s))"
proof -
  let ?k = "kernel_of s" and ?l = "sl_lock (synchlist s)" and ?c = "listEmpty (synchlist s)"
  obtain cd lk where cd: "conditions ?k ?c = Some cd" "clock cd = ?l" "locks ?k ?l = Some lk" "isHeldByCurrentThread lk ?k"
    using cond_held [OF I h(2) c] .
  obtain fs k1 where S: "Condition_Signal ?c ?k = Inr (push fs k1)" and k1: "work k1 = work ?k" "currentThread k1 = currentThread ?k"
      "threads k1 = threads ?k" "holder k1 ?l = holder ?k ?l" "\<forall>f \<in> set fs. plain ?l f \<and> (\<forall>own. after_frame ?l f own = own)" "length fs \<le> 1"
  proof (cases "semList cd")
    case Nil
    then have "Condition_Signal ?c ?k = Inr (push [] ?k)" using cd by (simp add: Condition_Signal_def with_lock_def)
    then show thesis by (rule that) simp_all
  next
    case (Cons t ts)
    then have "Condition_Signal ?c ?k = Inr (push [CallV t] (upd_cond ?c (\<lambda>cd. cd\<lparr>semList := ts\<rparr>) ?k))"
      using cd by (simp add: Condition_Signal_def with_lock_def)
    then show thesis by (rule that) (simp_all add: upd_cond_def work_def holder_def fun_eq_iff plain_def after_frame_def)
  qed
  have "exec_frame (CallSignal ?c) ?k = Some (Inr (push fs k1))" using S by (simp add: exec_frame_def)
  then have st: "kernel_step ?k (push fs k1)" using h cd(1) by (intro kernel_step.client) (simp_all add: client_call_def)
  have "promise ?l fs True" using k1(5,6) by (cases fs) auto
  then have "will_own ?l (push fs k1) (currentThread ?k)"
    using k1 inside_holder [OF I h(2) c] by (intro call_own [OF current_thread [OF I h(1)]]) (simp_all add: no_frames_work [OF h(2)])
  with S st show thesis using that by blast
qed

lemma Wait_step:
  assumes I: "sl_inv s" and h: "\<not> halted (kernel_of s)" "top_frames (kernel_of s) = []" and c: "inside (place s (currentThread (kernel_of s)))"
  obtains k where "Condition_Wait (listEmpty (synchlist s)) (kernel_of s) = Inr k" "kernel_step (kernel_of s) k"
    "will_own (sl_lock (synchlist s)) k (currentThread (kernel_of s))"
proof -
  let ?k = "kernel_of s" and ?l = "sl_lock (synchlist s)" and ?c = "listEmpty (synchlist s)"
  obtain cd lk where cd: "conditions ?k ?c = Some cd" "clock cd = ?l" "locks ?k ?l = Some lk" "isHeldByCurrentThread lk ?k"
    using cond_held [OF I h(2) c] .
  let ?s = "fst (Semaphore_new 1 ?k)" and ?new = "snd (Semaphore_new 1 ?k)"
  let ?queued = "upd_cond ?c (\<lambda>cd. cd\<lparr>semList := semList cd @ [?s]\<rparr>) ?new" and ?fs = "[CallRelease ?l, CallP ?s, CallAcquire ?l]"
  have W: "Condition_Wait ?c ?k = Inr (push ?fs ?queued)" using cd by (simp add: Condition_Wait_def with_lock_def Semaphore_new_def)
  then have "exec_frame (CallWait ?c) ?k = Some (Inr (push ?fs ?queued))" by (simp add: exec_frame_def)
  then have st: "kernel_step ?k (push ?fs ?queued)" using h cd(1) by (intro kernel_step.client) (simp_all add: client_call_def)
  have "work ?queued = work ?k" "currentThread ?queued = currentThread ?k" "threads ?queued = threads ?k"
    by (simp_all add: upd_cond_def Semaphore_new_def work_def fun_eq_iff)
  then have "will_own ?l (push ?fs ?queued) (currentThread ?k)"
    by (intro call_own [OF current_thread [OF I h(1)]]) (simp_all add: no_frames_work [OF h(2)] plain_def after_frame_def)
  with W st show thesis using that by blast
qed

section \<open>The operations\<close>

definition contents :: "'a shared \<Rightarrow> 'a list \<Rightarrow> bool" where
  "contents s xs \<longleftrightarrow> seq_rep (sl_list (synchlist s)) (map (Pair 0) xs)"

text \<open>The list as a queue: what the step of a thread at a point \<open>p\<close> does with the items \<open>xs\<close>, and where the thread is then.\<close>

fun queue_step :: "'a point \<Rightarrow> 'a list \<Rightarrow> 'a list \<times> 'a point" where
  "queue_step (Appending it) xs = (xs @ [it], Signalled)"
| "queue_step Removing [] = ([], Removing)"
| "queue_step Removing (x # xs) = (xs, Returning (Some x))"
| "queue_step p xs = (xs, Returning None)"

lemma contents_empty: "contents s xs \<Longrightarrow> List_IsEmpty (snd (sl_list (synchlist s))) \<longleftrightarrow> xs = []"
proof -
  assume "contents s xs"
  then obtain as where "list_rep (fst (sl_list (synchlist s))) (snd (sl_list (synchlist s))) as" "map snd as = map (Pair 0) xs"
    by (auto simp: contents_def seq_rep_def)
  then show ?thesis using list_rep_empty [of _ _ as] by (metis map_is_Nil_conv)
qed

lemma contents_Apply: "contents s xs \<Longrightarrow> List_Apply (sl_list (synchlist s)) = Some (Inr xs)"
proof -
  assume "contents s xs"
  then obtain as where as: "list_rep (fst (sl_list (synchlist s))) (snd (sl_list (synchlist s))) as" "map snd as = map (Pair 0) xs"
    by (auto simp: contents_def seq_rep_def)
  have "map (snd \<circ> snd) as = map snd (map snd as)" by simp
  also have "\<dots> = xs" unfolding as(2) by (simp add: comp_def)
  finally show ?thesis using as(1) apply_walk_correct by (fastforce simp: list_rep_def List_Apply_def case_prod_beta)
qed

lemma depart_works:
  assumes I: "sl_inv s" and h: "\<not> halted (kernel_of s)" "top_frames (kernel_of s) = []" and c: "inside (place s (currentThread (kernel_of s)))"
    and s1: "kernel_of s1 = kernel_of s" "place s1 = place s" "sl_lock (synchlist s1) = sl_lock (synchlist s)" "listEmpty (synchlist s1) = listEmpty (synchlist s)"
    and X: "contents s1 ys" "map Some (appended s1) = removed s1 @ map Some ys"
  shows "\<exists>s'. depart r s1 = Inr s' \<and> sl_inv s' \<and> contents s' ys \<and> place s' = (place s)(currentThread (kernel_of s) := Returning r)"
proof -
  obtain k where k: "Lock_Release (sl_lock (synchlist s)) (kernel_of s) = Inr k" "kernel_step (kernel_of s) k" using depart_step [OF I h c] .
  have "sl_inv (goto (Returning r) k s1)" by (rule sl_step_inv [OF I k(2)]) (use s1 X in \<open>simp_all add: inside_def contents_def\<close>)
  then show ?thesis using k(1) s1 X(1) by (simp add: depart_def contents_def)
qed

lemma resume_works:
  assumes I: "sl_inv s" and h: "\<not> halted (kernel_of s)" "top_frames (kernel_of s) = []" and c: "inside (place s (currentThread (kernel_of s)))"
    and X: "contents s xs" "map Some (appended s) = removed s @ map Some xs"
  shows "\<exists>s'. resume s = Some (Inr s') \<and> sl_inv s' \<and> contents s' (fst (queue_step (place s (currentThread (kernel_of s))) xs))
    \<and> place s' = (place s)(currentThread (kernel_of s) := snd (queue_step (place s (currentThread (kernel_of s))) xs))"
proof -
  let ?c = "currentThread (kernel_of s)" and ?l = "sl_list (synchlist s)"
  have R: "seq_rep ?l (map (Pair 0) xs)" using X(1) by (simp add: contents_def)
  note D = depart_works [OF I h c]
  show ?thesis
  proof (cases "place s ?c")
    case (Appending it)
    obtain hl where hl: "List_Append it ?l = Inr hl" "seq_rep hl (map (Pair 0) xs @ [(0, it)])" using ll.append_rep [OF R] by blast
    obtain k where k: "Condition_Signal (listEmpty (synchlist s)) (kernel_of s) = Inr k" "kernel_step (kernel_of s) k"
      "will_own (sl_lock (synchlist s)) k ?c" using Signal_step [OF I h c] .
    let ?s' = "goto Signalled k (set_list hl (s\<lparr>appended := appended s @ [it]\<rparr>))"
    have "sl_inv ?s'" by (rule sl_step_inv [OF I k(2), of _ "xs @ [it]"]) (use hl(2) X(2) k(3) in simp_all)
    moreover have "SynchList_Append it s = Inr ?s'" by (simp add: SynchList_Append_def hl(1) k(1))
    ultimately show ?thesis using Appending hl(2) by (simp add: resume_def contents_def)
  next
    case Removing
    show ?thesis
    proof (cases xs)
      case Nil
      obtain k where k: "Condition_Wait (listEmpty (synchlist s)) (kernel_of s) = Inr k" "kernel_step (kernel_of s) k"
        "will_own (sl_lock (synchlist s)) k ?c" using Wait_step [OF I h c] .
      have "sl_inv (goto Removing k s)" by (rule sl_step_inv [OF I k(2), of _ xs]) (use R X(2) k(3) in simp_all)
      moreover have "SynchList_Remove s = Inr (goto Removing k s)" using contents_empty [OF X(1)] Nil k(1) by (simp add: SynchList_Remove_def)
      ultimately show ?thesis using Removing Nil R by (simp add: resume_def contents_def)
    next
      case (Cons x ys)
      then have "seq_rep ?l ((0, x) # map (Pair 0) ys)" using R by simp
      from ll.remove_rep [OF this] obtain hl where hl: "List_SortedRemove ?l = Inr (Some x, Some 0, hl)" "seq_rep hl (map (Pair 0) ys)" by blast
      have "SynchList_Remove s = depart (Some x) (set_list hl (s\<lparr>removed := removed s @ [Some x]\<rparr>))"
        using contents_empty [OF X(1)] Cons hl(1) by (simp add: SynchList_Remove_def List_Remove_def)
      moreover have "contents (set_list hl (s\<lparr>removed := removed s @ [Some x]\<rparr>)) ys" using hl(2) by (simp add: contents_def)
      ultimately show ?thesis using D [of "set_list hl (s\<lparr>removed := removed s @ [Some x]\<rparr>)" ys "Some x"] X(2) Removing Cons by (simp add: resume_def)
    qed
  next
    case Signalled
    then show ?thesis using D [of s xs None] X by (simp add: resume_def)
  next
    case Applying
    then show ?thesis using D [of s xs None] X contents_Apply [OF X(1)] by (simp add: resume_def SynchList_Apply_def)
  qed (use c in \<open>simp_all add: inside_def\<close>)
qed

lemma fresh_inv:
  assumes R: "reachable False k" and h: "\<not> halted k" "top_frames k = []"
  shows "sl_inv (fresh junk hp k)"
proof -
  obtain l k1 where l: "Lock_new junk k = (l, k1)" by (cases "Lock_new junk k")
  obtain c k2 where c: "Condition_new l k1 = (c, k2)" by (cases "Condition_new l k1")
  have k1: "kernel_step k k1" "\<not> halted k1" "top_frames k1 = []" "locks k1 l \<noteq> None"
    using kernel_step.new_lock [OF h l] h l by (auto simp: Lock_new_def Semaphore_new_def Let_def top_frames_def)
  have k2: "kernel_step k1 k2" using kernel_step.new_condition [OF k1(2,3,4) c] .
  have "reachable False k1" by (rule reachable.step [OF R k1(1)]) simp
  then have "reachable False k2" by (rule reachable.step [OF _ k2]) simp
  moreover have "clocks k2 c = Some l" using c by (auto simp: Condition_new_def clocks_def)
  ultimately show ?thesis using seq_rep_new by (auto simp: fresh_def SynchList_new_def l c sl_inv_def inside_def)
qed

lemma sl_reachable_inv: "sl_reachable s \<Longrightarrow> sl_inv s"
proof (induction rule: sl_reachable.induct)
  case (new k junk h)
  then show ?case by (rule fresh_inv)
next
  case (step s s')
  note I = step.IH
  obtain xs where X: "contents s xs" "map Some (appended s) = removed s @ map Some xs" using I by (auto simp: sl_inv_def contents_def)
  from step.hyps(2) show ?case
  proof cases
    case (kernel k)
    have "inside p \<Longrightarrow> p \<noteq> Outside" for p :: "'a point" by (auto simp: inside_def)
    then show ?thesis using kernel X by (intro sl_step_inv [OF I kernel(2), of s' xs]) (auto simp: contents_def)
  next
    case (call p)
    then show ?thesis using enter_inv I by blast
  next
    case resume
    show ?thesis
    proof (cases "inside (place s (currentThread (kernel_of s)))")
      case True
      then show ?thesis using resume_works [OF I resume(1,2) _ X] resume(3) by auto
    next
      case False
      then have "s' = s \<or> s' = goto Outside (kernel_of s) s" using resume(3) by (auto simp: resume_def inside_def split: point.splits)
      moreover have "sl_inv (goto Outside (kernel_of s) s)" using I by (simp add: sl_inv_def inside_def)
      ultimately show ?thesis using I by blast
    qed
  qed
qed

section \<open>Properties\<close>

text \<open>A thread in the middle of an operation, when it has the lock: it is neither waiting for it nor waiting for an item.\<close>

definition accessing :: "'a shared \<Rightarrow> tid \<Rightarrow> bool" where
  "accessing s t \<longleftrightarrow> inside (place s t) \<and> CallAcquire (sl_lock (synchlist s)) \<notin> set (work (kernel_of s) t)
     \<and> SetOwner (sl_lock (synchlist s)) \<notin> set (work (kernel_of s) t)"

text \<open>
  C8. One thread at a time uses a synchronised list: in every state that the threads can get to, however they are
  interleaved and whatever else they call, at most one thread is between having the lock and giving it up or waiting, and
  that thread is the owner of the lock.
\<close>

theorem synchlist_exclusion:
  assumes R: "sl_reachable s" and t: "accessing s t" and u: "accessing s u"
  shows "t = u \<and> (\<exists>lk. locks (kernel_of s) (sl_lock (synchlist s)) = Some lk \<and> thname lk = Some t)"
proof -
  have "holder (kernel_of s) (sl_lock (synchlist s)) = Some v" if "accessing s v" for v
    using that sl_reachable_inv [OF R] promise_now by (fastforce simp: accessing_def sl_inv_def will_own_def)
  from this [OF t] this [OF u] show ?thesis by (auto simp: holder_def bind_eq_Some_conv)
qed

text \<open>
  C7. A synchronised list is a queue that waits: whenever a thread inside an operation has no call left to finish, its next step is
  that of the queue, on the items that have been appended and not yet removed. It appends at the end; it takes the first
  item and returns it, or waits and tests again when there is none; \<^verbatim>\<open>Apply\<close> changes nothing. No assertion fails, the list
  is sound, and no \<^verbatim>\<open>Remove\<close> returns a null item.
\<close>

theorem synchlist_queue:
  assumes R: "sl_reachable s" and h: "\<not> halted (kernel_of s)" "top_frames (kernel_of s) = []" and c: "inside (place s (currentThread (kernel_of s)))"
  shows "\<exists>xs s'. contents s xs \<and> map Some (appended s) = removed s @ map Some xs \<and> resume s = Some (Inr s')
    \<and> contents s' (fst (queue_step (place s (currentThread (kernel_of s))) xs))
    \<and> place s' = (place s)(currentThread (kernel_of s) := snd (queue_step (place s (currentThread (kernel_of s))) xs))"
proof -
  have I: "sl_inv s" using sl_reachable_inv [OF R] .
  then obtain xs where X: "contents s xs" "map Some (appended s) = removed s @ map Some xs" by (auto simp: sl_inv_def contents_def)
  from resume_works [OF I h c X] X show ?thesis by blast
qed

text \<open>
  C39. Deleting a synchronised list never succeeds: the destructor deletes the lock and then the condition variable, whose
  destructor deletes the lock once more.
\<close>

theorem SynchList_delete_twice:
  assumes "sl_reachable s"
  shows "SynchList_delete (synchlist s) (kernel_of s) = Some (Inl DanglingPointer)"
proof -
  let ?sl = "synchlist s"
  have I: "sl_inv s" using sl_reachable_inv [OF assms] .
  obtain as where "list_rep (fst (sl_list ?sl)) (snd (sl_list ?sl)) as" using I by (auto simp: sl_inv_def seq_rep_def)
  from List_destroy_correct [OF this] obtain hl where hl: "List_destroy (sl_list ?sl) = Some (Inr hl)" by auto
  obtain cd where cd: "conditions (kernel_of s) (listEmpty ?sl) = Some cd" "clock cd = sl_lock ?sl" using I by (auto simp: sl_inv_def clocks_def)
  show ?thesis using lock_deleted_twice [OF cd(1)] cd(2) hl by (simp add: SynchList_delete_def)
qed

section \<open>A run\<close>

declare apply_walk.simps [code]

datatype 'a sl_action = SlExec | SlCall "'a point" | SlResume

definition sl_act :: "'a sl_action \<Rightarrow> 'a shared \<Rightarrow> 'a shared option" where
  "sl_act a s = (case a of
     SlExec \<Rightarrow> if top_frames (kernel_of s) \<noteq> [] then map_option (\<lambda>k. s\<lparr>kernel_of := k\<rparr>) (act False Exec (kernel_of s)) else None
   | SlCall p \<Rightarrow> if \<not> halted (kernel_of s) \<and> top_frames (kernel_of s) = [] \<and> entry p
       then (case (place s (currentThread (kernel_of s)), enter p s) of (Outside, Inr s') \<Rightarrow> Some s' | _ \<Rightarrow> None) else None
   | SlResume \<Rightarrow> if \<not> halted (kernel_of s) \<and> top_frames (kernel_of s) = []
       then (case resume s of Some (Inr s') \<Rightarrow> Some s' | _ \<Rightarrow> None) else None)"

fun sl_acts :: "'a sl_action list \<Rightarrow> 'a shared \<Rightarrow> 'a shared option" where
  "sl_acts [] s = Some s"
| "sl_acts (a # as) s = (case sl_act a s of None \<Rightarrow> None | Some s' \<Rightarrow> sl_acts as s')"

lemma sl_act_step:
  assumes "sl_act a s = Some s'"
  shows "sl_step s s'"
proof (cases a)
  case SlExec
  then obtain k where k: "act False Exec (kernel_of s) = Some k" "s' = s\<lparr>kernel_of := k\<rparr>" "top_frames (kernel_of s) \<noteq> []"
    using assms by (auto simp: sl_act_def split: if_splits)
  obtain f fs where f: "top_frames (kernel_of s) = f # fs" using k(3) by (cases "top_frames (kernel_of s)") auto
  then have "\<not> halted (kernel_of s)" "exec_frame f (pop_frame (kernel_of s)) = Some (Inr k)" using k(1) by (auto simp: act_def split: if_splits)
  then have "kernel_step (kernel_of s) k" using kernel_step.exec f by blast
  then show ?thesis unfolding k(2) using f by (intro sl_step.kernel) simp_all
qed (use assms in \<open>auto simp: sl_act_def intro: sl_step.intros split: if_splits point.splits sum.splits option.splits\<close>)

lemma sl_acts_reachable: "sl_reachable s \<Longrightarrow> sl_acts as s = Some s' \<Longrightarrow> sl_reachable s'"
  by (induction as s rule: sl_acts.induct) (auto dest: sl_act_step intro: sl_reachable.step split: option.splits)

text \<open>The main thread creates a list and calls \<^verbatim>\<open>Append\<close>, up to the point where it has the lock.\<close>

definition list_steps :: "nat sl_action list" where
  "list_steps = SlCall (Appending 7) # replicate 8 SlExec"

lemma list_run:
  obtains s where "sl_reachable (s :: nat shared)" "place s 0 = Appending 7" "top_frames (kernel_of s) = []" "\<not> halted (kernel_of s)"
    "currentThread (kernel_of s) = 0" "appended s = []" "removed s = []" "work (kernel_of s) 0 = []"
proof -
  let ?boot = "boot_kernel undefined [] False (\<lambda>_. 0)"
  have "map_option (\<lambda>k. (halted k, top_frames k)) (acts False [Exec] ?boot) = Some (False, [])" by code_simp
  then obtain k where k: "acts False [Exec] ?boot = Some k" "\<not> halted k" "top_frames k = []" by auto
  have R: "sl_reachable (fresh 0 \<lparr>cells = Map.empty, brk = 0\<rparr> k)" using sl_reachable.new [OF boot_acts [OF k(1)] k(2,3)] .
  have "map_option (\<lambda>s. (place s 0, top_frames (kernel_of s), halted (kernel_of s), currentThread (kernel_of s), appended s, removed s, work (kernel_of s) 0))
      (Option.bind (acts False [Exec] ?boot) (\<lambda>k. sl_acts list_steps (fresh 0 \<lparr>cells = Map.empty, brk = 0\<rparr> k)))
    = Some (Appending 7, [], False, 0, [], [], [])"
    by code_simp
  then obtain s where "sl_acts list_steps (fresh 0 \<lparr>cells = Map.empty, brk = 0\<rparr> k) = Some s" "place s 0 = Appending 7" "top_frames (kernel_of s) = []"
    "\<not> halted (kernel_of s)" "currentThread (kernel_of s) = 0" "appended s = []" "removed s = []" "work (kernel_of s) 0 = []"
    unfolding k(1) by auto
  then show thesis using that sl_acts_reachable [OF R] by blast
qed

theorem synchlist_exclusion_witness:
  "\<exists>s :: nat shared. sl_reachable s \<and> accessing s 0 \<and> (\<exists>lk. locks (kernel_of s) (sl_lock (synchlist s)) = Some lk \<and> thname lk = Some 0)"
proof -
  obtain s :: "nat shared" where s: "sl_reachable s" "place s 0 = Appending 7" "work (kernel_of s) 0 = []" using list_run by metis
  then have "accessing s 0" by (simp add: accessing_def inside_def)
  from synchlist_exclusion [OF s(1) this this] show ?thesis using s(1) \<open>accessing s 0\<close> by blast
qed

theorem synchlist_queue_witness:
  "\<exists>s s' :: nat shared. sl_reachable s \<and> resume s = Some (Inr s') \<and> contents s [] \<and> contents s' [7] \<and> place s' 0 = Signalled"
proof -
  obtain s :: "nat shared" where s: "sl_reachable s" "place s 0 = Appending 7" "top_frames (kernel_of s) = []" "\<not> halted (kernel_of s)"
    "currentThread (kernel_of s) = 0" "appended s = []" "removed s = []" using list_run by metis
  then have "inside (place s (currentThread (kernel_of s)))" by (simp add: inside_def)
  from synchlist_queue [OF s(1,4,3) this] s show ?thesis by auto
qed

theorem SynchList_delete_twice_witness:
  "\<exists>s :: nat shared. sl_reachable s \<and> SynchList_delete (synchlist s) (kernel_of s) = Some (Inl DanglingPointer)"
proof -
  obtain s :: "nat shared" where s: "sl_reachable s" using list_run by metis
  from SynchList_delete_twice [OF s] show ?thesis using s by blast
qed

end
