(* ===== verification/AddrSpace.thy ===== *)
theory AddrSpace
  imports User_Memory OpenFile
begin

text \<open>
  Address spaces (\<^verbatim>\<open>userprog/addrspace.cc\<close>, \<^verbatim>\<open>bin/noff.h\<close>): a program is loaded from an executable in the
  NOFF format into frames of the physical memory that the bitmap \<^verbatim>\<open>myBitmap\<close> records as free. The
  constructor works on the file, the memory of the machine and the bitmap, all explicit here; the fields of the
  header are 32-bit words, read as signed or unsigned as the code does.
\<close>

section \<open>noff.h\<close>

record Segment =
  virtualAddr :: "32 word"
  inFileAddr :: "32 word"
  seg_size :: "32 word" \<comment> \<open>\<^verbatim>\<open>size\<close>\<close>

record NoffHeader =
  noffMagic :: "32 word"
  code :: Segment
  initData :: Segment
  uninitData :: Segment

definition NOFFMAGIC :: "32 word" where "NOFFMAGIC = 0xbadfad"

text \<open>The structure in memory: ten little-endian words.\<close>

definition segment_at :: "32 word list \<Rightarrow> nat \<Rightarrow> Segment" where
  "segment_at ws i = \<lparr>virtualAddr = ws ! i, inFileAddr = ws ! (i + 1), seg_size = ws ! (i + 2)\<rparr>"

definition noff_of :: "byte list \<Rightarrow> NoffHeader" where
  "noff_of bs = (let ws = words_of bs in
     \<lparr>noffMagic = ws ! 0, code = segment_at ws 1, initData = segment_at ws 4, uninitData = segment_at ws 7\<rparr>)"

section \<open>addrspace.cc\<close>

record AddrSpace =
  as_pageTable :: "TranslationEntry list" \<comment> \<open>\<^verbatim>\<open>pageTable\<close>\<close>
  numPages :: "32 word"

definition UserStackSize :: "32 word" where "UserStackSize = 1024"

definition swap_segment :: "Segment \<Rightarrow> Segment" where
  "swap_segment sg = \<lparr>virtualAddr = WordToHost (virtualAddr sg), inFileAddr = WordToHost (inFileAddr sg),
     seg_size = WordToHost (seg_size sg)\<rparr>"

definition SwapHeader :: "NoffHeader \<Rightarrow> NoffHeader" where
  "SwapHeader h = \<lparr>noffMagic = WordToHost (noffMagic h), code = swap_segment (code h),
     initData = swap_segment (initData h), uninitData = swap_segment (uninitData h)\<rparr>"

text \<open>The loop that sets up the translation, \<open>n\<close> iterations being left.\<close>

fun alloc_pages :: "nat \<Rightarrow> nat \<Rightarrow> BitMap \<Rightarrow> (TranslationEntry list \<times> BitMap) res" where
  "alloc_pages i 0 bm = Inr ([], bm)"
| "alloc_pages i (Suc n) bm =
     rbind (BitMap_Find bm) (\<lambda>(p, bm1).
     rbind (alloc_pages (Suc i) n bm1) (\<lambda>(es, bm2).
     Inr (\<lparr>virtualPage = int i, physicalPage = p, valid = True, readOnly = False, used = False, dirty = False\<rparr> # es, bm2)))"

text \<open>\<^verbatim>\<open>bzero\<close> on the frame of every entry.\<close>

fun zero_pages :: "TranslationEntry list \<Rightarrow> byte list \<Rightarrow> byte list res" where
  "zero_pages [] mem = Inr mem"
| "zero_pages (e # es) mem =
     rbind (bcopy_in (replicate (nat PageSize) 0) PageSize (physicalPage e * PageSize) mem) (zero_pages es)"

text \<open>
  The body of the two loading loops, which differ in the condition \<open>cont\<close>. The index \<open>j\<close> leaves the page table, which is a fault,
  before it could wrap.
\<close>

function (sequential) load_loop ::
  "(32 word \<Rightarrow> bool) \<Rightarrow> OpenFile \<Rightarrow> TranslationEntry list \<Rightarrow> 32 word \<Rightarrow> 32 word \<Rightarrow> int \<Rightarrow> byte list \<Rightarrow> SynchDisk
    \<Rightarrow> (32 word \<times> byte list \<times> SynchDisk) res" where
  "load_loop cont f pt addr i j mem s =
     (if cont i then
        rbind (aget pt j) (\<lambda>e.
        rbind (OpenFile_ReadAt f PageSize (sint (addr + i)) s) (\<lambda>(d, s1).
        rbind (bcopy_in d (int (length d)) (physicalPage e * PageSize) mem) (\<lambda>mem1.
        load_loop cont f pt addr (i + word_of_int PageSize) (j + 1) mem1 s1)))
      else Inr (i, mem, s))"
  by pat_completeness auto

termination
  by (relation "measure (\<lambda>(cont, f, pt, addr, i, j, mem, s). nat (int (length pt) - j))") (auto simp: aget_eq_Inr)

declare load_loop.simps [simp del]

text \<open>The page that \<^verbatim>\<open>divRoundUp\<close> gives for an address, as the unsigned \<^verbatim>\<open>j\<close>.\<close>

definition first_page :: "32 word \<Rightarrow> int" where
  "first_page va = uint (word_of_int (divRoundUp (sint va) PageSize) :: 32 word)"

definition load_code :: "OpenFile \<Rightarrow> NoffHeader \<Rightarrow> TranslationEntry list \<Rightarrow> byte list \<Rightarrow> SynchDisk
    \<Rightarrow> (32 word \<times> byte list \<times> SynchDisk) res" where
  "load_code f h pt mem s =
     (if sint (seg_size (code h)) > 0
      then load_loop (\<lambda>i. i \<le> seg_size (code h)) f pt (inFileAddr (code h)) 0 (first_page (virtualAddr (code h))) mem s
      else Inr (0, mem, s))"

definition load_data :: "OpenFile \<Rightarrow> NoffHeader \<Rightarrow> TranslationEntry list \<Rightarrow> 32 word \<Rightarrow> byte list \<Rightarrow> SynchDisk
    \<Rightarrow> (32 word \<times> byte list \<times> SynchDisk) res" where
  "load_data f h pt i mem s =
     (if sint (seg_size (initData h)) > 0
      then load_loop (\<lambda>i. i < seg_size (code h) + seg_size (initData h)) f pt (inFileAddr (code h)) i
             (first_page (virtualAddr (initData h))) mem s
      else Inr (i, mem, s))"

text \<open>\<^verbatim>\<open>divRoundUp\<close> on unsigned operands.\<close>

definition pages_of :: "32 word \<Rightarrow> 32 word" where
  "pages_of sz = sz div 128 + (if sz mod 128 > 0 then 1 else 0)"

definition space_size :: "NoffHeader \<Rightarrow> 32 word" where
  "space_size h = seg_size (code h) + seg_size (initData h) + seg_size (uninitData h) + UserStackSize"

text \<open>The header is a local variable: \<open>junk\<close> is what its bytes hold when the file is shorter.\<close>

definition read_header :: "(nat \<Rightarrow> byte) \<Rightarrow> OpenFile \<Rightarrow> SynchDisk \<Rightarrow> (NoffHeader \<times> SynchDisk) res" where
  "read_header junk executable s =
     rbind (OpenFile_ReadAt executable 40 0 s) (\<lambda>(d, s1).
     let h = noff_of (patch (map junk [0..<40]) 0 d) in
     Inr (if noffMagic h \<noteq> NOFFMAGIC \<and> WordToHost (noffMagic h) = NOFFMAGIC then SwapHeader h else h, s1))"

definition AddrSpace_new :: "(nat \<Rightarrow> byte) \<Rightarrow> OpenFile \<Rightarrow> byte list \<Rightarrow> BitMap \<Rightarrow> SynchDisk
    \<Rightarrow> (AddrSpace \<times> byte list \<times> BitMap \<times> SynchDisk) res" where
  "AddrSpace_new junk executable mem myBitmap s =
     rbind (read_header junk executable s) (\<lambda>(h, s1).
     ASSERT (noffMagic h = NOFFMAGIC)
     (let np = pages_of (space_size h) in
      ASSERT (np \<le> word_of_int NumPhysPages)
      (rbind (BitMap_NumClear myBitmap) (\<lambda>n.
       ASSERT (np \<le> word_of_int n)
       (rbind (alloc_pages 0 (unat np) myBitmap) (\<lambda>(pt, bm1).
        rbind (zero_pages pt mem) (\<lambda>mem1.
        rbind (load_code executable h pt mem1 s1) (\<lambda>(i, mem2, s2).
        rbind (load_data executable h pt i mem2 s2) (\<lambda>(_, mem3, s3).
        Inr (\<lparr>as_pageTable = pt, numPages = np\<rparr>, mem3, bm1, s3))))))))))"

definition InitPages :: "AddrSpace \<Rightarrow> AddrSpace" where
  "InitPages sp = sp"

fun clean_from :: "nat \<Rightarrow> nat \<Rightarrow> TranslationEntry list \<Rightarrow> BitMap \<Rightarrow> BitMap res" where
  "clean_from i 0 pt bm = Inr bm"
| "clean_from i (Suc n) pt bm =
     rbind (aget pt (int i)) (\<lambda>e. rbind (BitMap_Clear (physicalPage e) bm) (clean_from (Suc i) n pt))"

definition CleanMyBitmap :: "AddrSpace \<Rightarrow> BitMap \<Rightarrow> BitMap res" where
  "CleanMyBitmap sp bm = clean_from 0 (unat (numPages sp)) (as_pageTable sp) bm"

text \<open>The destructor; the page table is gone afterwards.\<close>

definition AddrSpace_delete :: "AddrSpace \<Rightarrow> BitMap \<Rightarrow> BitMap res" where
  "AddrSpace_delete sp bm = CleanMyBitmap sp bm"

fun clear_regs :: "nat \<Rightarrow> nat \<Rightarrow> 'k Machine \<Rightarrow> 'k Machine res" where
  "clear_regs i 0 m = Inr m"
| "clear_regs i (Suc n) m = rbind (WriteRegister (int i) 0 m) (clear_regs (Suc i) n)"

definition InitRegisters :: "AddrSpace \<Rightarrow> 'k Machine \<Rightarrow> 'k Machine res" where
  "InitRegisters sp m =
     rbind (clear_regs 0 NumTotalRegs m) (\<lambda>m1.
     rbind (WriteRegister (int PCReg) 0 m1) (\<lambda>m2.
     rbind (WriteRegister (int NextPCReg) 4 m2) (\<lambda>m3.
     WriteRegister (int StackReg) (numPages sp * word_of_int PageSize - 16) m3)))"

definition SaveState :: "AddrSpace \<Rightarrow> 'k Machine \<Rightarrow> 'k Machine" where
  "SaveState sp m = m"

text \<open>The entries are the array itself: the machine sets \<^verbatim>\<open>use\<close> and \<^verbatim>\<open>dirty\<close> in them.\<close>

definition RestoreState :: "AddrSpace \<Rightarrow> 'k Machine \<Rightarrow> 'k Machine" where
  "RestoreState sp m = m\<lparr>pageTable := Some (as_pageTable sp)\<rparr>"

section \<open>Frames\<close>

text \<open>A page table with frames of the memory, all different, and the memory seen through it.\<close>

definition own_frames :: "TranslationEntry list \<Rightarrow> bool" where
  "own_frames pt \<longleftrightarrow> distinct (map physicalPage pt) \<and> (\<forall>e \<in> set pt. 0 \<le> physicalPage e \<and> physicalPage e < 128)"

definition seen :: "TranslationEntry list \<Rightarrow> byte list \<Rightarrow> nat \<Rightarrow> byte" where
  "seen pt mem k = mem ! (128 * nat (physicalPage (pt ! (k div 128))) + k mod 128)"

text \<open>The bytes outside the frames of the table.\<close>

definition same_outside :: "TranslationEntry list \<Rightarrow> byte list \<Rightarrow> byte list \<Rightarrow> bool" where
  "same_outside pt mem mem' \<longleftrightarrow> length mem' = length mem
     \<and> (\<forall>q < length mem. int (q div 128) \<notin> physicalPage ` set pt \<longrightarrow> mem' ! q = mem ! q)"

lemma same_outside_refl [simp]: "same_outside pt mem mem"
  by (simp add: same_outside_def)

lemma same_outside_trans: "same_outside pt m1 m2 \<Longrightarrow> same_outside pt m2 m3 \<Longrightarrow> same_outside pt m1 m3"
  by (simp add: same_outside_def)

lemma page_iff: "k div 128 = j \<longleftrightarrow> 128 * j \<le> k \<and> k < 128 * (j + 1)" for k j :: nat
  by auto

lemma page_offset: "k div 128 = j \<Longrightarrow> k - 128 * j = k mod 128" for k j :: nat
  by (metis minus_mult_div_eq_mod)

lemma own_frames_nth: "own_frames pt \<Longrightarrow> j < length pt \<Longrightarrow> 0 \<le> physicalPage (pt ! j) \<and> physicalPage (pt ! j) < 128"
  by (simp add: own_frames_def)

lemma write_page:
  assumes pt: "own_frames pt" and j: "j < length pt" and mem: "length mem = 16384" and d: "length d \<le> 128"
  obtains mem' where "bcopy_in d (int (length d)) (physicalPage (pt ! j) * 128) mem = Inr mem'"
    "same_outside pt mem mem'"
    "\<And>k. k < 128 * length pt \<Longrightarrow> seen pt mem' k = (if k div 128 = j \<and> k mod 128 < length d then d ! (k mod 128) else seen pt mem k)"
proof -
  define p where "p = nat (physicalPage (pt ! j))"
  have p: "physicalPage (pt ! j) = int p" "p < 128" using own_frames_nth [OF pt j] by (auto simp: p_def)
  have fit: "128 * p + length d \<le> length mem" using p(2) d mem by linarith
  have B: "bcopy_in d (int (length d)) (physicalPage (pt ! j) * 128) mem = Inr (patch mem (128 * p) d)"
    using bcopy_in_all [OF fit] p(1) by (simp add: mult.commute)
  have N: "patch mem (128 * p) d ! q = (if q div 128 = p \<and> q mod 128 < length d then d ! (q mod 128) else mem ! q)"
    if "q < length mem" for q
  proof -
    have "128 * p \<le> q \<and> q < 128 * p + length d \<longleftrightarrow> q div 128 = p \<and> q mod 128 < length d"
    proof -
      have "q = 128 * (q div 128) + q mod 128" "q mod 128 < 128" by simp_all
      then show ?thesis using d by (cases "q div 128 = p") linarith+
    qed
    then show ?thesis using nth_patch [OF fit that] page_offset [of q p] by auto
  qed
  have out: "same_outside pt mem (patch mem (128 * p) d)"
    using fit N p(1) nth_mem [OF j] by (force simp: same_outside_def)
  show thesis
  proof (rule that [OF B out])
    fix k assume "k < 128 * length pt"
    then have k: "k div 128 < length pt" by linarith
    let ?r = "physicalPage (pt ! (k div 128))"
    have r: "0 \<le> ?r" "?r < 128" using own_frames_nth [OF pt k] by auto
    have "128 * nat ?r + k mod 128 < length mem" using r mem by linarith
    from N [OF this] have "seen pt (patch mem (128 * p) d) k =
      (if nat ?r = p \<and> k mod 128 < length d then d ! (k mod 128) else seen pt mem k)" by (simp add: seen_def)
    moreover have "nat ?r = p \<longleftrightarrow> k div 128 = j"
    proof -
      have "nat ?r = p \<longleftrightarrow> ?r = physicalPage (pt ! j)" using r p by auto
      also have "\<dots> \<longleftrightarrow> k div 128 = j" using pt k j nth_eq_iff_index_eq [of "map physicalPage pt"] by (simp add: own_frames_def)
      finally show ?thesis .
    qed
    ultimately show "seen pt (patch mem (128 * p) d) k =
      (if k div 128 = j \<and> k mod 128 < length d then d ! (k mod 128) else seen pt mem k)" by simp
  qed
qed

section \<open>Allocation\<close>

lemma alloc_pages_iter:
  "alloc_pages i n bm = rbind (iter_find BitMap_Find n bm) (\<lambda>(ps, bm').
     Inr (map (\<lambda>(v, p). \<lparr>virtualPage = int v, physicalPage = p, valid = True, readOnly = False, used = False, dirty = False\<rparr>)
       (zip [i..<i + length ps] ps), bm'))"
proof (induction n arbitrary: i bm)
  case (Suc n)
  have "[i..<Suc (i + length ps)] = i # [Suc i..<Suc (i + length ps)]" for ps :: "int list"
    by (simp add: upt_conv_Cons del: upt_Suc)
  with Suc show ?case by (cases "BitMap_Find bm") (auto simp: rbind_assoc split_def rbind_def simp del: upt_Suc split: sum.split)
qed simp

lemma zero_pages_outcome:
  assumes pt: "own_frames pt" and sub: "set es \<subseteq> set pt" and mem: "length mem = 16384"
  shows "\<exists>mem'. zero_pages es mem = Inr mem' \<and> same_outside pt mem mem'
    \<and> (\<forall>k < 128 * length pt. pt ! (k div 128) \<in> set es \<or> seen pt mem k = 0 \<longrightarrow> seen pt mem' k = 0)"
  using sub mem
proof (induction es arbitrary: mem)
  case Nil
  then show ?case by simp
next
  case (Cons e es)
  obtain j where j: "j < length pt" "e = pt ! j" using Cons.prems(1) by (auto simp: in_set_conv_nth)
  obtain mem1 where m1: "bcopy_in (replicate 128 0) 128 (physicalPage e * 128) mem = Inr mem1" "same_outside pt mem mem1"
    "\<And>k. k < 128 * length pt \<Longrightarrow> seen pt mem1 k = (if k div 128 = j then 0 else seen pt mem k)"
  proof -
    have "length (replicate 128 (0 :: byte)) \<le> 128" by simp
    from write_page [OF pt j(1) Cons.prems(2) this] obtain mem1 where
      "bcopy_in (replicate 128 0) 128 (physicalPage e * 128) mem = Inr mem1" "same_outside pt mem mem1"
      "\<And>k. k < 128 * length pt \<Longrightarrow> seen pt mem1 k = (if k div 128 = j \<and> k mod 128 < 128
         then replicate 128 0 ! (k mod 128) else seen pt mem k)" unfolding j(2) length_replicate by auto
    moreover from this(3) have "seen pt mem1 k = (if k div 128 = j then 0 else seen pt mem k)" if "k < 128 * length pt" for k
      using that by (cases "k div 128 = j") simp_all
    ultimately show thesis by (intro that)
  qed
  have "length mem1 = 16384" using m1(2) Cons.prems(2) by (simp add: same_outside_def)
  from Cons.IH [OF _ this] Cons.prems(1) obtain mem2 where m2: "zero_pages es mem1 = Inr mem2" "same_outside pt mem1 mem2"
    "\<forall>k < 128 * length pt. pt ! (k div 128) \<in> set es \<or> seen pt mem1 k = 0 \<longrightarrow> seen pt mem2 k = 0" by auto
  have "seen pt mem2 k = 0" if "k < 128 * length pt" "pt ! (k div 128) \<in> set (e # es) \<or> seen pt mem k = 0" for k
  proof (cases "k div 128 = j")
    case True
    then show ?thesis using m2(3) m1(3) that(1) by simp
  next
    case False
    have "k div 128 < length pt" using that(1) by linarith
    then have "pt ! (k div 128) \<noteq> e" using False pt j nth_eq_iff_index_eq [of "map physicalPage pt" "k div 128" j] by (auto simp: own_frames_def)
    then show ?thesis using m2(3) m1(3) [OF that(1)] that False by auto
  qed
  then show ?case using m1(1) m2(1) same_outside_trans [OF m1(2) m2(2)] by (auto simp: machine_consts)
qed

lemma alloc_pages_outcome:
  assumes bm: "bm_wf bm" "numBits bm = 128" and n: "n \<le> card ({0..<128} - marked bm)"
  obtains pt bm' where "alloc_pages 0 n bm = Inr (pt, bm')" "length pt = n" "own_frames pt"
    "physicalPage ` set pt \<inter> marked bm = {}" "marked bm' = marked bm \<union> physicalPage ` set pt" "bm_wf bm'" "numBits bm' = 128"
    "\<And>j. j < n \<Longrightarrow> virtualPage (pt ! j) = int j \<and> valid (pt ! j) \<and> \<not> readOnly (pt ! j)"
proof -
  obtain ps bm' where ps: "iter_find BitMap_Find n bm = Inr (ps, bm')" "length ps = n" "distinct ps" "set ps \<inter> marked bm = {}"
    "set ps \<subseteq> {0..<128}" "bm_wf bm'" "numBits bm' = 128" "marked bm' = marked bm \<union> set ps"
    using bm.iter_find_fresh [OF bm(1), of n] n bm(2) by auto
  let ?pt = "map (\<lambda>(v, p). \<lparr>virtualPage = int v, physicalPage = p, valid = True, readOnly = False, used = False, dirty = False\<rparr>)
       (zip [0..<n] ps)"
  have A: "alloc_pages 0 n bm = Inr (?pt, bm')" using ps(1,2) by (simp add: alloc_pages_iter)
  have pp: "map physicalPage ?pt = ps" using ps(2) by (auto intro: nth_equalityI)
  then have im: "physicalPage ` set ?pt = set ps" by (metis list.set_map)
  have "physicalPage e \<in> set ps" if "e \<in> set ?pt" for e using that im by blast
  then have ok: "own_frames ?pt" unfolding own_frames_def pp using ps(3,5) by fastforce
  show thesis
    by (rule that [OF A _ ok]) (use ps im in \<open>auto\<close>)
qed

section \<open>Loading\<close>

lemma ReadAt_length:
  assumes "OpenFile_ReadAt f n position s = Inr (d, s')" and "0 \<le> n"
  shows "int (length d) \<le> n"
proof (cases "n \<le> 0 \<or> position \<ge> numBytes (hdr f)")
  case True
  then show ?thesis using assms by (simp add: OpenFile_ReadAt_def FileHeader_FileLength_def)
next
  case False
  let ?nb = "if position + n > numBytes (hdr f) then numBytes (hdr f) - position else n"
  have "\<not> INT_MAX < position + n" using False assms(1) OpenFile_ReadAt_overflow [of n position f s] by auto
  then obtain buf off where "bcopy_out buf off ?nb = Inr d"
    using False assms(1) by (auto simp: OpenFile_ReadAt_def FileHeader_FileLength_def Let_def rbind_eq_Inr)
  then have "length d \<le> nat ?nb" by (auto simp: bcopy_out_def split: if_splits)
  moreover have "?nb \<le> n" "0 \<le> ?nb" using False by auto
  ultimately show ?thesis by linarith
qed

text \<open>Whatever the header says, loading changes bytes of the space's own frames only.\<close>

lemma load_loop_outside:
  assumes "load_loop cont f pt addr i j mem s = Inr (i', mem', s')" and "own_frames pt" and "length mem = 16384"
  shows "same_outside pt mem mem'"
  using assms
proof (induction cont f pt addr i j mem s rule: load_loop.induct)
  case (1 cont f pt addr i j mem s)
  show ?case
  proof (cases "cont i")
    case False
    then show ?thesis using "1.prems"(1) by (simp add: load_loop.simps [of cont f pt addr i])
  next
    case True
    from "1.prems"(1) True obtain e d s1 mem1 where st: "aget pt j = Inr e"
      "OpenFile_ReadAt f PageSize (sint (addr + i)) s = Inr (d, s1)"
      "bcopy_in d (int (length d)) (physicalPage e * PageSize) mem = Inr mem1"
      "load_loop cont f pt addr (i + word_of_int PageSize) (j + 1) mem1 s1 = Inr (i', mem', s')"
      by (subst (asm) load_loop.simps) (auto simp: rbind_eq_Inr)
    have j: "nat j < length pt" "e = pt ! nat j" using st(1) by (auto simp: aget_eq_Inr)
    have "length d \<le> 128" using ReadAt_length [OF st(2)] by (simp add: machine_consts)
    then have w: "same_outside pt mem mem1"
      using write_page [OF "1.prems"(2) j(1) "1.prems"(3)] st(3) j(2) by (metis Inr_inject machine_consts(1,5))
    then have "length mem1 = 16384" using "1.prems"(3) by (simp add: same_outside_def)
    then have "same_outside pt mem1 mem'" using "1.IH" [OF True st(1,2) _ st(3,4) "1.prems"(2)] by simp
    with w show ?thesis by (rule same_outside_trans)
  qed
qed

text \<open>
  The bytes of \<open>n\<close> pages from page \<open>j\<close> on, read from position \<open>a\<close> of a file with the bytes \<open>file\<close>. What is behind
  the end of the file stays.
\<close>

definition overlay :: "byte list \<Rightarrow> nat \<Rightarrow> nat \<Rightarrow> nat \<Rightarrow> (nat \<Rightarrow> byte) \<Rightarrow> nat \<Rightarrow> byte" where
  "overlay file a j n old k =
     (if 128 * j \<le> k \<and> k < 128 * (j + n) \<and> a + (k - 128 * j) < length file then file ! (a + (k - 128 * j)) else old k)"

lemma overlay_0 [simp]: "overlay file a j 0 old = old"
  by (auto simp: overlay_def fun_eq_iff)

lemma overlay_cong: "old k = old' k \<Longrightarrow> overlay file a j n old k = overlay file a j n old' k"
  unfolding overlay_def by (simp only:)

lemma overlay_step:
  "overlay file (a + 128) (Suc j) n (overlay file a j 1 old) = overlay file a j (Suc n) old"
proof
  fix k
  have e: "a + 128 + (k - 128 * Suc j) = a + (k - 128 * j)" if "128 * Suc j \<le> k" using that by simp
  show "overlay file (a + 128) (Suc j) n (overlay file a j 1 old) k = overlay file a j (Suc n) old k"
    using e by (cases "128 * Suc j \<le> k") (auto simp: overlay_def)
qed

lemma load_loop_outcome:
  assumes "own_frames pt" and "length mem = 16384" and "sd_ok s" and "file_ok (hdr f)"
    and "j + n \<le> length pt" and "\<forall>l < n. cont (i + of_nat (128 * l))" and "\<not> cont (i + of_nat (128 * n))"
    and "\<forall>l < n. sint (addr + (i + of_nat (128 * l))) = int (a + 128 * l)"
    and "file = file_bytes (hdr f) (sd_sector s)"
  shows "\<exists>mem' s'. load_loop cont f pt addr i (int j) mem s = Inr (i + of_nat (128 * n), mem', s') \<and> length mem' = 16384
    \<and> sd_ok s' \<and> sd_sector s' = sd_sector s
    \<and> (\<forall>k < 128 * length pt. seen pt mem' k = overlay file a j n (seen pt mem) k)"
  using assms
proof (induction n arbitrary: i j a mem s)
  case 0
  then show ?case by (simp add: load_loop.simps [of cont f pt addr i])
next
  case (Suc n)
  have c: "cont i" using Suc.prems(6) by (auto dest: spec [of _ 0])
  have a: "sint (addr + i) = int a" using Suc.prems(8) [rule_format, of 0] by simp
  let ?d = "take 128 (drop a file)"
  obtain s1 where s1: "OpenFile_ReadAt f 128 (int a) s = Inr (?d, s1)" "sd_ok s1" "sd_sector s1 = sd_sector s"
    using OpenFile_ReadAt_small [OF Suc.prems(3,4), of "int a" 128] Suc.prems(9) by (auto simp: INT_MAX_def)
  have j: "j < length pt" using Suc.prems(5) by simp
  have "length ?d \<le> 128" by simp
  from write_page [OF Suc.prems(1) j Suc.prems(2) this] obtain mem1 where
    m1: "bcopy_in ?d (int (length ?d)) (physicalPage (pt ! j) * 128) mem = Inr mem1" "same_outside pt mem mem1"
    "\<And>k. k < 128 * length pt \<Longrightarrow> seen pt mem1 k =
       (if k div 128 = j \<and> k mod 128 < length ?d then ?d ! (k mod 128) else seen pt mem k)" by blast
  have l1: "length mem1 = 16384" using m1(2) Suc.prems(2) by (simp add: same_outside_def)
  have o1: "seen pt mem1 k = overlay file a j 1 (seen pt mem) k" if "k < 128 * length pt" for k
  proof -
    have "k mod 128 < length ?d \<longleftrightarrow> a + k mod 128 < length file" by (auto simp: min_def)
    then show ?thesis using m1(3) [OF that] page_iff [of k j] page_offset [of k j] by (auto simp: overlay_def)
  qed
  have st: "i + 128 + of_nat (128 * l) = i + of_nat (128 * Suc l)" for l :: nat by simp
  have "\<exists>mem' s'. load_loop cont f pt addr (i + 128) (int (Suc j)) mem1 s1 = Inr (i + 128 + of_nat (128 * n), mem', s')
    \<and> length mem' = 16384 \<and> sd_ok s' \<and> sd_sector s' = sd_sector s1
    \<and> (\<forall>k < 128 * length pt. seen pt mem' k = overlay file (a + 128) (Suc j) n (seen pt mem1) k)"
  proof (rule Suc.IH [OF Suc.prems(1) l1 s1(2) Suc.prems(4)])
    show "Suc j + n \<le> length pt" using Suc.prems(5) by simp
    show "\<forall>l < n. cont (i + 128 + of_nat (128 * l))" "\<not> cont (i + 128 + of_nat (128 * n))"
      unfolding st using Suc.prems(6,7) by blast+
    show "\<forall>l < n. sint (addr + (i + 128 + of_nat (128 * l))) = int (a + 128 + 128 * l)"
      unfolding st using Suc.prems(8) by fastforce
    show "file = file_bytes (hdr f) (sd_sector s1)" using Suc.prems(9) s1(3) by simp
  qed
  then obtain mem2 s2 where m2: "load_loop cont f pt addr (i + 128) (int j + 1) mem1 s1 = Inr (i + of_nat (128 * Suc n), mem2, s2)"
    "length mem2 = 16384" "sd_ok s2" "sd_sector s2 = sd_sector s1"
    "\<forall>k < 128 * length pt. seen pt mem2 k = overlay file (a + 128) (Suc j) n (seen pt mem1) k"
    unfolding st by (auto simp: add.commute)
  have "overlay file (a + 128) (Suc j) n (seen pt mem1) k = overlay file a j (Suc n) (seen pt mem) k" if "k < 128 * length pt" for k
    unfolding overlay_step [symmetric] by (rule overlay_cong) (rule o1 [OF that])
  moreover have "load_loop cont f pt addr i (int j) mem s = Inr (i + of_nat (128 * Suc n), mem2, s2)"
    by (subst load_loop.simps) (use c a s1(1) m1(1) m2(1) j in \<open>simp add: machine_consts del: length_take length_drop\<close>)
  ultimately show ?case using m2 s1(3) by auto
qed

lemma overlay_append:
  "overlay file (a + 128 * j) j n (overlay file a 0 j old) = overlay file a 0 (j + n) old"
proof
  fix k
  have e: "a + 128 * j + (k - 128 * j) = a + k" if "128 * j \<le> k" using that by simp
  show "overlay file (a + 128 * j) j n (overlay file a 0 j old) k = overlay file a 0 (j + n) old k"
    using e by (cases "128 * j \<le> k") (auto simp: overlay_def)
qed

section \<open>Isolation\<close>

lemma AddrSpace_new_Inr:
  assumes "AddrSpace_new junk f mem bm s = Inr (sp, mem', bm', s')" and "bm_wf bm" and "numBits bm = 128"
  obtains h i s1 s2 mem1 mem2 i' where "read_header junk f s = Inr (h, s1)" "noffMagic h = NOFFMAGIC"
    "numPages sp = pages_of (space_size h)" "unat (numPages sp) \<le> card ({0..<128} - marked bm)"
    "alloc_pages 0 (unat (numPages sp)) bm = Inr (as_pageTable sp, bm')" "zero_pages (as_pageTable sp) mem = Inr mem1"
    "load_code f h (as_pageTable sp) mem1 s1 = Inr (i, mem2, s2)" "load_data f h (as_pageTable sp) i mem2 s2 = Inr (i', mem', s')"
proof -
  let ?free = "card ({0..<128} - marked bm)"
  have nc: "BitMap_NumClear bm = Inr (int ?free)" using BitMap_NumClear_correct [OF assms(2)] assms(3) by simp
  have "?free \<le> card {0..<128 :: int}" by (rule card_mono) auto
  then have "unat (word_of_int (int ?free) :: 32 word) = ?free" by (simp add: unsigned_of_nat take_bit_nat_eq_self)
  then have le: "np \<le> word_of_int (int ?free) \<longleftrightarrow> unat np \<le> ?free" for np :: "32 word" by (simp add: word_le_nat_alt)
  show thesis
    using assms(1) that unfolding AddrSpace_new_def Let_def nc rbind_Inr le
    by (fastforce simp: rbind_eq_Inr)
qed

lemma AddrSpace_new_frames:
  assumes new: "AddrSpace_new junk f mem bm s = Inr (sp, mem', bm', s')"
    and bm: "bm_wf bm" "numBits bm = 128" and mem: "length mem = 16384"
  shows "own_frames (as_pageTable sp)" "length (as_pageTable sp) = unat (numPages sp)"
    "physicalPage ` set (as_pageTable sp) \<subseteq> {0..<128} - marked bm" "bm_wf bm'" "numBits bm' = 128"
    "marked bm' = marked bm \<union> physicalPage ` set (as_pageTable sp)" "same_outside (as_pageTable sp) mem mem'"
proof -
  from AddrSpace_new_Inr [OF new bm]
  obtain h i s1 s2 mem1 mem2 i' where st: "unat (numPages sp) \<le> card ({0..<128} - marked bm)"
    "alloc_pages 0 (unat (numPages sp)) bm = Inr (as_pageTable sp, bm')" "zero_pages (as_pageTable sp) mem = Inr mem1"
    "load_code f h (as_pageTable sp) mem1 s1 = Inr (i, mem2, s2)" "load_data f h (as_pageTable sp) i mem2 s2 = Inr (i', mem', s')"
    by metis
  let ?pt = "as_pageTable sp"
  have pt: "length ?pt = unat (numPages sp)" "own_frames ?pt" "physicalPage ` set ?pt \<inter> marked bm = {}"
    "marked bm' = marked bm \<union> physicalPage ` set ?pt" "bm_wf bm'" "numBits bm' = 128"
    using alloc_pages_outcome [OF bm st(1)] st(2) by auto
  have o1: "same_outside ?pt mem mem1" using zero_pages_outcome [OF pt(2) order_refl mem] st(3) by auto
  have l1: "length mem1 = 16384" using o1 mem by (simp add: same_outside_def)
  have o2: "same_outside ?pt mem1 mem2"
    using st(4) load_loop_outside [OF _ pt(2) l1] by (auto simp: load_code_def split: if_splits)
  have l2: "length mem2 = 16384" using o2 l1 by (simp add: same_outside_def)
  have o3: "same_outside ?pt mem2 mem'"
    using st(5) load_loop_outside [OF _ pt(2) l2] by (auto simp: load_data_def split: if_splits)
  show "same_outside ?pt mem mem'" using same_outside_trans [OF same_outside_trans [OF o1 o2] o3] .
  show "own_frames ?pt" "length ?pt = unat (numPages sp)" "bm_wf bm'" "numBits bm' = 128" "marked bm' = marked bm \<union> physicalPage ` set ?pt"
    using pt by simp_all
  show "physicalPage ` set ?pt \<subseteq> {0..<128} - marked bm" using pt(2,3) by (auto simp: own_frames_def)
qed

lemma clean_from_iter:
  "i + n \<le> length pt \<Longrightarrow> clean_from i n pt bm = iter_clear BitMap_Clear (map physicalPage (take n (drop i pt))) bm"
proof (induction n arbitrary: i bm)
  case (Suc n)
  have "take (Suc n) (drop i pt) = pt ! i # take n (drop (Suc i) pt)" using Suc.prems by (simp add: Cons_nth_drop_Suc [symmetric])
  with Suc show ?case by (cases "BitMap_Clear (physicalPage (pt ! i)) bm") auto
qed simp

lemma AddrSpace_delete_frames:
  assumes "own_frames (as_pageTable sp)" and "length (as_pageTable sp) = unat (numPages sp)" and bm: "bm_wf bm" "numBits bm = 128"
  obtains bm' where "AddrSpace_delete sp bm = Inr bm'" "bm_wf bm'" "numBits bm' = 128" "marked bm' = marked bm - physicalPage ` set (as_pageTable sp)"
proof -
  let ?pt = "as_pageTable sp"
  have d: "AddrSpace_delete sp bm = iter_clear BitMap_Clear (map physicalPage ?pt) bm"
    using clean_from_iter [of 0 "length ?pt" ?pt bm] assms(2) by (simp add: AddrSpace_delete_def CleanMyBitmap_def)
  have "set (map physicalPage ?pt) \<subseteq> {0..<numBits bm}" using assms(1) bm(2) by (auto simp: own_frames_def)
  from bm.iter_clear_used [OF bm(1) this] obtain bm2 where
    "iter_clear BitMap_Clear (map physicalPage ?pt) bm = Inr bm2" "bm_wf bm2" "numBits bm2 = numBits bm" "marked bm2 = marked bm - set (map physicalPage ?pt)"
    by blast
  then show thesis using that d bm(2) by simp
qed

text \<open>
  Deleting an address space gives exactly its frames back: after a creation and a deletion the same frames are free as before.
\<close>

theorem AddrSpace_new_delete:
  assumes new: "AddrSpace_new junk f mem bm s = Inr (sp, mem', bm', s')" and bm: "bm_wf bm" "numBits bm = 128" and mem: "length mem = 16384"
  shows "\<exists>bm''. AddrSpace_delete sp bm' = Inr bm'' \<and> bm_wf bm'' \<and> marked bm'' = marked bm"
proof -
  note N = AddrSpace_new_frames [OF new bm mem]
  obtain bm2 where d: "AddrSpace_delete sp bm' = Inr bm2" "bm_wf bm2" "marked bm2 = marked bm' - physicalPage ` set (as_pageTable sp)"
    using AddrSpace_delete_frames [OF N(1,2,4,5)] by blast
  moreover have "marked bm' - physicalPage ` set (as_pageTable sp) = marked bm" using N(3,6) by auto
  ultimately show ?thesis by simp
qed

section \<open>The image of a program\<close>

text \<open>
  What the linker produces (\<^verbatim>\<open>-N -T 0\<close>): the code starts at address 0, the initialised data follows it at once, in
  memory and in the file. The sizes fit into the physical memory.
\<close>

abbreviation code_size :: "NoffHeader \<Rightarrow> nat" where "code_size h \<equiv> unat (seg_size (code h))"
abbreviation data_size :: "NoffHeader \<Rightarrow> nat" where "data_size h \<equiv> unat (seg_size (initData h))"

definition linked :: "NoffHeader \<Rightarrow> bool" where
  "linked h \<longleftrightarrow> noffMagic h = NOFFMAGIC \<and> virtualAddr (code h) = 0 \<and> virtualAddr (initData h) = seg_size (code h)
     \<and> inFileAddr (initData h) = inFileAddr (code h) + seg_size (code h) \<and> unat (inFileAddr (code h)) < 2 ^ 30
     \<and> code_size h + data_size h + unat (seg_size (uninitData h)) + 1024 \<le> 16384"

definition program_pages :: "NoffHeader \<Rightarrow> nat" where
  "program_pages h = (code_size h + data_size h + unat (seg_size (uninitData h)) + 1024 + 127) div 128"

text \<open>The pages of code, and of code and data, that the two loops read.\<close>

definition code_pages :: "NoffHeader \<Rightarrow> nat" where
  "code_pages h = (if code_size h = 0 then 0 else code_size h div 128 + 1)"

definition image_pages :: "NoffHeader \<Rightarrow> nat" where
  "image_pages h = max (code_pages h) ((code_size h + data_size h + 127) div 128)"

text \<open>The data loop starts on the page behind the last one of the code loop.\<close>

definition pages_meet :: "NoffHeader \<Rightarrow> bool" where
  "pages_meet h \<longleftrightarrow> code_size h = 0 \<or> code_size h mod 128 \<noteq> 0 \<or> data_size h \<le> 128"

lemma unat_of_nat32: "n < 2 ^ 32 \<Longrightarrow> unat (of_nat n :: 32 word) = n"
  by (simp add: unsigned_of_nat take_bit_nat_eq_self)

lemma sint_unat: "unat w < 2 ^ 31 \<Longrightarrow> sint (w :: 32 word) = int (unat w)"
proof -
  assume "unat w < 2 ^ 31"
  then have "int (unat w) < 2 ^ 31" by (metis of_nat_less_iff of_nat_numeral of_nat_power)
  then have "in_int32 (int (unat w))" unfolding in_int32_def by linarith
  from sint_of_int32 [OF this] show ?thesis by simp
qed

lemma unat_add32: "unat a + unat b < 2 ^ 32 \<Longrightarrow> unat (a + b) = unat a + unat b" for a b :: "32 word"
  by (simp add: unat_word_ariths)

lemma first_page_of:
  assumes "unat va \<le> 16384" shows "first_page va = int ((unat va + 127) div 128)"
proof -
  have "sint va = int (unat va)" using assms by (simp add: sint_unat)
  moreover have "divRoundUp (int (unat va)) 128 = int ((unat va + 127) div 128)" by (simp add: divRoundUp_nonneg zdiv_int)
  moreover have "(unat va + 127) div 128 \<le> 129" using assms by linarith
  ultimately show ?thesis
    by (simp add: first_page_def machine_consts unsigned_of_nat take_bit_nat_eq_self)
qed

lemma ceil_128: "n div 128 + (if 0 < n mod 128 then 1 else 0) = (n + 127) div 128" for n :: nat
proof -
  obtain q r where n: "n = 128 * q + r" "r < 128" using mult_div_mod_eq [of 128 n] mod_less_divisor [of 128 n] by (metis zero_less_numeral)
  have "(128 * q + r + 127) div 128 = q + (r + 127) div 128" by simp
  moreover have "(r + 127) div 128 = (if 0 < r then 1 else 0)" using n(2) by (auto intro: div_nat_eqI)
  ultimately show ?thesis using n by simp
qed

lemma ceil_128_less: "128 * k < n \<longleftrightarrow> k < (n + 127) div 128" for k n :: nat
  using ceil_128 [of n] mult_div_mod_eq [of 128 n] mod_less_divisor [of 128 n] by (cases "n mod 128 = 0") (simp_all, linarith+)

lemma pages_of_unat: "unat sz + 127 < 2 ^ 32 \<Longrightarrow> unat (pages_of sz) = (unat sz + 127) div 128"
proof -
  assume a: "unat sz + 127 < 2 ^ 32"
  have d: "unat (sz div 128) = unat sz div 128" "unat (sz mod 128) = unat sz mod 128" by (simp_all add: unat_div unat_mod)
  have "0 < sz mod 128 \<longleftrightarrow> 0 < unat sz mod 128" using d(2) by (simp add: word_less_nat_alt)
  moreover have "unat sz div 128 + 1 < 2 ^ 32" using a by simp
  ultimately have "unat (pages_of sz) = unat sz div 128 + (if 0 < unat sz mod 128 then 1 else 0)"
    using d(1) by (simp add: pages_of_def unat_word_ariths)
  also have "\<dots> = (unat sz + 127) div 128" using ceil_128 .
  finally show ?thesis .
qed

lemma linked_sizes:
  assumes "linked h"
  shows "unat (space_size h) + 127 < 2 ^ 32" "unat (pages_of (space_size h)) = program_pages h" "program_pages h \<le> 128"
    "code_pages h \<le> program_pages h" "(code_size h + data_size h + 127) div 128 \<le> program_pages h"
    "unat (seg_size (code h) + seg_size (initData h)) = code_size h + data_size h"
proof -
  let ?n = "code_size h + data_size h + unat (seg_size (uninitData h)) + 1024"
  have n: "?n \<le> 16384" using assms by (simp add: linked_def)
  have e: "unat (space_size h) = ?n" using n by (simp add: space_size_def UserStackSize_def unat_add32)
  then show a: "unat (space_size h) + 127 < 2 ^ 32" using n by simp
  show "unat (pages_of (space_size h)) = program_pages h" using pages_of_unat [OF a] e by (simp add: program_pages_def)
  show "program_pages h \<le> 128" using n unfolding program_pages_def by linarith
  show "code_pages h \<le> program_pages h" unfolding code_pages_def program_pages_def by (simp, linarith)
  show "(code_size h + data_size h + 127) div 128 \<le> program_pages h" unfolding program_pages_def by (rule div_le_mono) simp
  show "unat (seg_size (code h) + seg_size (initData h)) = code_size h + data_size h" using n by (simp add: unat_add32)
qed

lemma file_position:
  fixes addr :: "32 word"
  assumes "unat addr < 2 ^ 30" and "x \<le> 32768"
  shows "sint (addr + of_nat x) = int (unat addr + x)"
proof -
  have x: "unat (of_nat x :: 32 word) = x" using assms(2) by (intro unat_of_nat32) simp
  have "unat (addr + of_nat x) = unat addr + x" using assms x unat_add32 [of addr "of_nat x"] by simp
  moreover have "unat addr + x < 2 ^ 31" using assms by simp
  ultimately show ?thesis by (simp add: sint_unat)
qed

lemma load_code_outcome:
  assumes h: "linked h" and pt: "own_frames pt" "length pt = program_pages h" and mem: "length mem = 16384"
    and s: "sd_ok s" "file_ok (hdr f)" and fb: "file = file_bytes (hdr f) (sd_sector s)"
  obtains mem' s' where "load_code f h pt mem s = Inr (of_nat (128 * code_pages h), mem', s')" "length mem' = 16384"
    "sd_ok s'" "sd_sector s' = sd_sector s"
    "\<forall>k < 128 * length pt. seen pt mem' k = overlay file (unat (inFileAddr (code h))) 0 (code_pages h) (seen pt mem) k"
proof (cases "code_size h = 0")
  case True
  then have "load_code f h pt mem s = Inr (of_nat (128 * code_pages h), mem, s)"
    by (simp add: load_code_def code_pages_def sint_unat)
  from that [OF this mem s(1) refl] show thesis using True by (simp add: code_pages_def)
next
  case False
  let ?c = "code_size h" and ?n = "code_pages h" and ?a = "unat (inFileAddr (code h))"
  have n: "?n = ?c div 128 + 1" using False by (simp add: code_pages_def)
  have c: "?c \<le> 16384" "?a < 2 ^ 30" using h by (auto simp: linked_def)
  then have csz: "?c < 2 ^ 31" by simp
  have le: "?n \<le> program_pages h" "program_pages h \<le> 128" using linked_sizes [OF h] by auto
  have cmp: "(of_nat (128 * l) :: 32 word) \<le> seg_size (code h) \<longleftrightarrow> l < ?n" if "l \<le> 128" for l
  proof -
    have "unat (of_nat (128 * l) :: 32 word) = 128 * l" using that by (intro unat_of_nat32) simp
    then have "(of_nat (128 * l) :: 32 word) \<le> seg_size (code h) \<longleftrightarrow> 128 * l \<le> ?c" by (simp add: word_le_nat_alt)
    also have "\<dots> \<longleftrightarrow> l < ?n" unfolding n by linarith
    finally show ?thesis .
  qed
  have "\<exists>mem' s'. load_loop (\<lambda>i. i \<le> seg_size (code h)) f pt (inFileAddr (code h)) 0 (int 0) mem s =
      Inr (0 + of_nat (128 * ?n), mem', s') \<and> length mem' = 16384 \<and> sd_ok s' \<and> sd_sector s' = sd_sector s
    \<and> (\<forall>k < 128 * length pt. seen pt mem' k = overlay file ?a 0 ?n (seen pt mem) k)"
  proof (rule load_loop_outcome [OF pt(1) mem s _ _ _ _ fb])
    show "0 + ?n \<le> length pt" using le pt(2) by simp
    show "\<forall>l < ?n. 0 + of_nat (128 * l) \<le> seg_size (code h)" using cmp le by simp
    show "\<not> 0 + of_nat (128 * ?n) \<le> seg_size (code h)" using cmp [of ?n] le by simp
    show "\<forall>l < ?n. sint (inFileAddr (code h) + (0 + of_nat (128 * l))) = int (?a + 128 * l)"
      using file_position [OF c(2)] le by (simp del: of_nat_mult)
  qed
  moreover have "first_page (virtualAddr (code h)) = 0" using h by (simp add: linked_def first_page_of)
  moreover have "0 < sint (seg_size (code h))" using False csz sint_unat [of "seg_size (code h)"] by linarith
  ultimately show thesis using that by (auto simp: load_code_def)
qed

text \<open>The page on which the data loop begins.\<close>

lemma data_begin:
  assumes "pages_meet h" and "code_pages h < image_pages h"
  shows "(code_size h + 127) div 128 = code_pages h"
proof (cases "code_size h mod 128 = 0")
  case True
  have lt: "128 * code_pages h < code_size h + data_size h" using assms(2) by (simp add: ceil_128_less image_pages_def max_def split: if_splits)
  from True have c: "128 * (code_size h div 128) = code_size h" using mult_div_mod_eq [of 128 "code_size h"] by simp
  have "code_size h = 0"
  proof (rule ccontr)
    assume n: "code_size h \<noteq> 0"
    then have "data_size h \<le> 128" using assms(1) True by (simp add: pages_meet_def)
    moreover have "128 * code_pages h = code_size h + 128" using n c by (simp add: code_pages_def)
    ultimately show False using lt by linarith
  qed
  then show ?thesis by (simp add: code_pages_def)
next
  case False
  then show ?thesis using ceil_128 [of "code_size h"] by (auto simp: code_pages_def)
qed

lemma load_data_outcome:
  assumes h: "linked h" and pt: "own_frames pt" "length pt = program_pages h" and mem: "length mem = 16384"
    and s: "sd_ok s" "file_ok (hdr f)" and fb: "file = file_bytes (hdr f) (sd_sector s)"
    and a: "a = unat (inFileAddr (code h))"
  obtains i' mem' s' where "load_data f h pt (of_nat (128 * code_pages h)) mem s = Inr (i', mem', s')" "length mem' = 16384"
    "sd_ok s'" "sd_sector s' = sd_sector s"
    "\<forall>k < 128 * length pt. seen pt mem' k =
       overlay file (a + 128 * code_pages h) ((code_size h + 127) div 128) (image_pages h - code_pages h) (seen pt mem) k"
proof -
  let ?j = "(code_size h + 127) div 128"
  let ?t = "code_size h + data_size h" and ?n = "code_pages h" and ?m = "image_pages h - code_pages h"
  let ?i = "of_nat (128 * ?n) :: 32 word"
  note sz = linked_sizes [OF h]
  have n1: "?n \<le> 128" using sz by linarith
  have dsz: "data_size h < 2 ^ 31" using h by (simp add: linked_def)
  have img: "image_pages h \<le> program_pages h" using sz by (simp add: image_pages_def)
  have cmp: "(?i + of_nat (128 * l) < seg_size (code h) + seg_size (initData h)) \<longleftrightarrow> l < ?m" if "l \<le> 128" for l
  proof -
    have "unat (of_nat (128 * (?n + l)) :: 32 word) = 128 * (?n + l)" using that n1 by (intro unat_of_nat32) simp
    moreover have "?i + of_nat (128 * l) = of_nat (128 * (?n + l))" by simp
    ultimately have "(?i + of_nat (128 * l) < seg_size (code h) + seg_size (initData h)) \<longleftrightarrow> 128 * (?n + l) < ?t"
      using sz(6) by (simp add: word_less_nat_alt del: of_nat_mult of_nat_add)
    also have "\<dots> \<longleftrightarrow> ?n + l < (?t + 127) div 128" by (rule ceil_128_less)
    also have "\<dots> \<longleftrightarrow> l < ?m" by (auto simp: image_pages_def)
    finally show ?thesis .
  qed
  show thesis
  proof (cases "?m = 0 \<or> data_size h = 0")
    case True
    have "image_pages h = ?n" if "data_size h = 0"
      using that ceil_128 [of "code_size h"] by (auto simp: image_pages_def code_pages_def max_def split: if_splits)
    with True have m: "?m = 0" by auto
    have "load_data f h pt ?i mem s = Inr (?i, mem, s)"
      using cmp [of 0] m by (simp add: load_data_def load_loop.simps [of _ f pt])
    from that [OF this mem s(1) refl] show thesis using m by simp
  next
    case False
    have "\<exists>mem' s'. load_loop (\<lambda>i. i < seg_size (code h) + seg_size (initData h)) f pt (inFileAddr (code h)) ?i (int ?j) mem s =
        Inr (?i + of_nat (128 * ?m), mem', s') \<and> length mem' = 16384 \<and> sd_ok s' \<and> sd_sector s' = sd_sector s
      \<and> (\<forall>k < 128 * length pt. seen pt mem' k = overlay file (a + 128 * ?n) ?j ?m (seen pt mem) k)"
    proof (rule load_loop_outcome [OF pt(1) mem s _ _ _ _ fb])
      have "?j \<le> ?n" using ceil_128 [of "code_size h"] by (auto simp: code_pages_def)
      then show "?j + ?m \<le> length pt" using img sz(4) pt(2) by linarith
      have m128: "?m \<le> 128" using img sz(3) by linarith
      show "\<forall>l < ?m. ?i + of_nat (128 * l) < seg_size (code h) + seg_size (initData h)"
        "\<not> ?i + of_nat (128 * ?m) < seg_size (code h) + seg_size (initData h)" using cmp m128 by simp_all
      have "?i + of_nat (128 * l) = of_nat (128 * ?n + 128 * l)" for l by simp
      moreover have "sint (inFileAddr (code h) + of_nat (128 * ?n + 128 * l)) = int (a + 128 * ?n + 128 * l)" if "l < ?m" for l
        using file_position [of "inFileAddr (code h)" "128 * ?n + 128 * l"] h a n1 m128 that by (simp add: linked_def)
      ultimately show "\<forall>l < ?m. sint (inFileAddr (code h) + (?i + of_nat (128 * l))) = int (a + 128 * ?n + 128 * l)" by metis
    qed
    moreover have "first_page (virtualAddr (initData h)) = int ?j" using h by (simp add: linked_def first_page_of)
    moreover have "0 < sint (seg_size (initData h))" using False sint_unat [of "seg_size (initData h)"] dsz by linarith
    ultimately show thesis using that by (auto simp: load_data_def)
  qed
qed

text \<open>What the program sees once its page table is installed.\<close>

lemma RestoreState_user_byte:
  assumes pt: "own_frames (as_pageTable sp)" "\<forall>e \<in> set (as_pageTable sp). valid e" and tlb: "tlb m = None"
    and len: "length (as_pageTable sp) \<le> 128" and k: "k < 128 * length (as_pageTable sp)"
  shows "user_byte (RestoreState sp (m\<lparr>mainMemory := mem\<rparr>)) (of_nat k) = Some (seen (as_pageTable sp) mem k)"
proof -
  let ?pt = "as_pageTable sp" and ?m = "RestoreState sp (m\<lparr>mainMemory := mem\<rparr>)"
  have u: "uint (of_nat k :: 32 word) = int k" using unat_of_nat32 [of k] k len by (simp add: unsigned_of_nat take_bit_nat_eq_self)
  have q: "k div 128 < length ?pt" using k by linarith
  have f: "find_entry (int k div 128) ?m = Inr (k div 128)"
  proof -
    have "nat (int k div 128) = k div 128" by (simp add: nat_div_distrib)
    moreover have "\<not> int (length ?pt) \<le> int k div 128" using q by linarith
    ultimately show ?thesis using tlb pt(2) nth_mem [OF q] by (simp add: find_entry_def RestoreState_def)
  qed
  have e: "entries ?m = ?pt" "mainMemory ?m = mem" using tlb by (simp_all add: entries_def RestoreState_def)
  have p: "0 \<le> physicalPage (?pt ! (k div 128))" "physicalPage (?pt ! (k div 128)) < 128" using own_frames_nth [OF pt(1) q] by auto
  then have "frame_of (?pt ! (k div 128)) = physicalPage (?pt ! (k div 128))"
    by (simp add: frame_of_def unsigned_of_int take_bit_int_eq_self)
  moreover have "nat (physicalPage (?pt ! (k div 128)) * 128 + int k mod 128) = 128 * nat (physicalPage (?pt ! (k div 128))) + k mod 128"
    using p(1) by (simp add: nat_add_distrib nat_mult_distrib zmod_int [symmetric] nat_mod_distrib)
  ultimately show ?thesis using f e p(2) by (simp add: user_byte_def phys_def u seen_def)
qed

lemma read_header_outcome:
  assumes s: "sd_ok s" "file_ok (hdr f)" and fb: "file = file_bytes (hdr f) (sd_sector s)" and len: "40 \<le> length file"
  obtains s' where "read_header junk f s = Inr (noff_of (take 40 file), s')" "sd_ok s'" "sd_sector s' = sd_sector s"
proof -
  obtain s1 where s1: "OpenFile_ReadAt f 40 0 s = Inr (take 40 file, s1)" "sd_ok s1" "sd_sector s1 = sd_sector s"
    using OpenFile_ReadAt_small [OF s, of 0 40] fb by (auto simp: INT_MAX_def)
  have "patch (map junk [0..<40]) 0 (take 40 file) = take 40 file" by (rule patch_whole) (use len in simp)
  then show thesis using that s1 by (simp add: read_header_def WordToHost_def)
qed

text \<open>The two loops one after the other: the data overlays the pages from the one where it begins.\<close>

lemma load_linked:
  assumes s: "sd_ok s" "file_ok (hdr f)" and fb: "file = file_bytes (hdr f) (sd_sector s)" "40 \<le> length file"
    and h: "h = noff_of (take 40 file)" "linked h" and a: "a = unat (inFileAddr (code h))"
    and bm: "bm_wf bm" "numBits bm = 128" and room: "program_pages h \<le> card ({0..<128} - marked bm)"
    and mem: "length mem = 16384" and tlb: "tlb m = None"
  obtains sp mem' bm' s' where "AddrSpace_new junk f mem bm s = Inr (sp, mem', bm', s')" "unat (numPages sp) = program_pages h"
    "sd_sector s' = sd_sector s" "sd_ok s'"
    "\<forall>k < 128 * program_pages h. user_byte (RestoreState sp (m\<lparr>mainMemory := mem'\<rparr>)) (of_nat k) =
       Some (overlay file (a + 128 * code_pages h) ((code_size h + 127) div 128) (image_pages h - code_pages h)
         (overlay file a 0 (code_pages h) (\<lambda>_. 0)) k)"
proof -
  let ?np = "pages_of (space_size h)" and ?free = "card ({0..<128} - marked bm)" and ?j = "(code_size h + 127) div 128"
  note sz = linked_sizes [OF h(2)]
  obtain s1 where s1: "read_header junk f s = Inr (h, s1)" "sd_ok s1" "sd_sector s1 = sd_sector s"
    using read_header_outcome [OF s fb] h(1) by blast
  obtain pt bm' where pt: "alloc_pages 0 (unat ?np) bm = Inr (pt, bm')" "length pt = program_pages h" "own_frames pt"
    "\<And>j. j < program_pages h \<Longrightarrow> valid (pt ! j)"
    using alloc_pages_outcome [OF bm room] unfolding sz(2) by metis
  obtain mem1 where m1: "zero_pages pt mem = Inr mem1" "same_outside pt mem mem1" "\<forall>k < 128 * length pt. seen pt mem1 k = 0"
    using zero_pages_outcome [OF pt(3) order_refl mem] by (auto simp: less_mult_imp_div_less)
  have l1: "length mem1 = 16384" using m1(2) mem by (simp add: same_outside_def)
  have fb1: "file = file_bytes (hdr f) (sd_sector s1)" using fb(1) s1(3) by simp
  obtain mem2 s2 where m2: "load_code f h pt mem1 s1 = Inr (of_nat (128 * code_pages h), mem2, s2)" "length mem2 = 16384"
    "sd_ok s2" "sd_sector s2 = sd_sector s1"
    "\<forall>k < 128 * length pt. seen pt mem2 k = overlay file a 0 (code_pages h) (seen pt mem1) k"
    unfolding a using load_code_outcome [OF h(2) pt(3,2) l1 s1(2) s(2) fb1] .
  have fb2: "file = file_bytes (hdr f) (sd_sector s2)" using fb1 m2(4) by simp
  obtain i mem3 s3 where m3: "load_data f h pt (of_nat (128 * code_pages h)) mem2 s2 = Inr (i, mem3, s3)" "sd_sector s3 = sd_sector s2" "sd_ok s3"
    "\<forall>k < 128 * length pt. seen pt mem3 k =
       overlay file (a + 128 * code_pages h) ?j (image_pages h - code_pages h) (seen pt mem2) k"
    using load_data_outcome [OF h(2) pt(3,2) m2(2,3) s(2) fb2 a] by metis
  let ?sp = "\<lparr>as_pageTable = pt, numPages = ?np\<rparr>"
  have nc: "BitMap_NumClear bm = Inr (int ?free)" using BitMap_NumClear_correct [OF bm(1)] bm(2) by simp
  have "?free \<le> card {0..<128 :: int}" by (rule card_mono) auto
  then have fr: "unat (word_of_int (int ?free) :: 32 word) = ?free" by (simp add: unsigned_of_nat take_bit_nat_eq_self)
  have new: "AddrSpace_new junk f mem bm s = Inr (?sp, mem3, bm', s3)"
    using s1(1) h(2) sz(2,3) room fr nc pt(1) m1(1) m2(1) m3(1)
    by (simp add: AddrSpace_new_def linked_def word_le_nat_alt machine_consts)
  have seen3: "seen pt mem3 k = overlay file (a + 128 * code_pages h) ?j (image_pages h - code_pages h)
        (overlay file a 0 (code_pages h) (\<lambda>_. 0)) k" if "k < 128 * program_pages h" for k
  proof -
    have k: "k < 128 * length pt" using that pt(2) by simp
    have "overlay file a 0 (code_pages h) (seen pt mem1) k = overlay file a 0 (code_pages h) (\<lambda>_. 0) k"
      by (rule overlay_cong) (simp add: m1(3) k)
    then show ?thesis unfolding m3(4) [rule_format, OF k] using m2(5) k by (intro overlay_cong) simp
  qed
  have ptv: "\<forall>e \<in> set pt. valid e" using pt(2,4) by (metis in_set_conv_nth)
  have "user_byte (RestoreState ?sp (m\<lparr>mainMemory := mem3\<rparr>)) (of_nat k) = Some (seen pt mem3 k)"
    if "k < 128 * program_pages h" for k
    using RestoreState_user_byte [of ?sp m k mem3] pt(2,3) ptv sz(3) tlb that by simp
  then show thesis using that [OF new] seen3 sz(2) s1(3) m2(4) m3(2,3) by simp
qed

lemma load_program:
  assumes s: "sd_ok s" "file_ok (hdr f)" and fb: "file = file_bytes (hdr f) (sd_sector s)" "40 \<le> length file"
    and h: "h = noff_of (take 40 file)" "linked h" "pages_meet h" and a: "a = unat (inFileAddr (code h))"
    and bm: "bm_wf bm" "numBits bm = 128" and room: "program_pages h \<le> card ({0..<128} - marked bm)"
    and mem: "length mem = 16384" and tlb: "tlb m = None"
  shows "\<exists>sp mem' bm' s'. AddrSpace_new junk f mem bm s = Inr (sp, mem', bm', s') \<and> unat (numPages sp) = program_pages h
    \<and> sd_sector s' = sd_sector s \<and> sd_ok s'
    \<and> (\<forall>k < 128 * program_pages h. user_byte (RestoreState sp (m\<lparr>mainMemory := mem'\<rparr>)) (of_nat k) =
         Some (if k < 128 * image_pages h \<and> a + k < length file then file ! (a + k) else 0))"
proof -
  have "overlay file (a + 128 * code_pages h) ((code_size h + 127) div 128) (image_pages h - code_pages h)
      (overlay file a 0 (code_pages h) (\<lambda>_. 0)) = overlay file a 0 (image_pages h) (\<lambda>_. 0)"
  proof (cases "code_pages h < image_pages h")
    case True
    then show ?thesis using overlay_append [of "file" a "code_pages h" "image_pages h - code_pages h"] data_begin [OF h(3) True] by simp
  next
    case False
    then have "image_pages h = code_pages h" by (simp add: image_pages_def)
    then show ?thesis by simp
  qed
  moreover have "overlay file a 0 (image_pages h) (\<lambda>_. 0) k =
      (if k < 128 * image_pages h \<and> a + k < length file then file ! (a + k) else 0)" for k by (simp add: overlay_def)
  ultimately have v: "overlay file (a + 128 * code_pages h) ((code_size h + 127) div 128) (image_pages h - code_pages h)
      (overlay file a 0 (code_pages h) (\<lambda>_. 0)) k = (if k < 128 * image_pages h \<and> a + k < length file then file ! (a + k) else 0)" for k
    by simp
  from load_linked [OF s fb h(1,2) a bm room mem tlb, of junk] obtain sp mem' bm' s' where
    "AddrSpace_new junk f mem bm s = Inr (sp, mem', bm', s')" "unat (numPages sp) = program_pages h" "sd_sector s' = sd_sector s" "sd_ok s'"
    "\<forall>k < 128 * program_pages h. user_byte (RestoreState sp (m\<lparr>mainMemory := mem'\<rparr>)) (of_nat k) =
       Some (overlay file (a + 128 * code_pages h) ((code_size h + 127) div 128) (image_pages h - code_pages h)
         (overlay file a 0 (code_pages h) (\<lambda>_. 0)) k)" .
  then show ?thesis unfolding v by (intro exI conjI)
qed

text \<open>
  C36. When the code ends on a page boundary and the data is longer than a page, the program is loaded wrongly: the
  data loop begins one page too low, so that the program sees at the addresses of its data the bytes of the file that belong one page higher.
\<close>

theorem AddrSpace_shifts_data:
  assumes s: "sd_ok s" "file_ok (hdr f)" and fb: "file = file_bytes (hdr f) (sd_sector s)" "40 \<le> length file"
    and h: "h = noff_of (take 40 file)" "linked h" and a: "a = unat (inFileAddr (code h))"
    and bug: "0 < code_size h" "128 dvd code_size h" "128 < data_size h"
    and bm: "bm_wf bm" "numBits bm = 128" and room: "program_pages h \<le> card ({0..<128} - marked bm)"
    and mem: "length mem = 16384" and tlb: "tlb m = None"
  shows "\<exists>sp mem' bm' s'. AddrSpace_new junk f mem bm s = Inr (sp, mem', bm', s')
    \<and> (\<forall>k. code_size h \<le> k \<longrightarrow> k + 128 < code_size h + data_size h \<longrightarrow> a + k + 128 < length file \<longrightarrow>
         user_byte (RestoreState sp (m\<lparr>mainMemory := mem'\<rparr>)) (of_nat k) = Some (file ! (a + k + 128)))"
proof -
  obtain q where q: "code_size h = 128 * q" using bug(2) by auto
  have cp: "code_pages h = q + 1" "(code_size h + 127) div 128 = q" using bug(1) q by (simp_all add: code_pages_def)
  have img: "image_pages h = (code_size h + data_size h + 127) div 128"
    using ceil_128_less [of "q + 1" "code_size h + data_size h"] bug(3) cp(1) q by (simp add: image_pages_def)
  have v: "overlay file (a + 128 * code_pages h) ((code_size h + 127) div 128) (image_pages h - code_pages h) old k = file ! (a + k + 128)"
    and lt: "k < 128 * program_pages h"
    if k: "code_size h \<le> k" "k + 128 < code_size h + data_size h" "a + k + 128 < length file" for old k
  proof -
    have e: "128 * q \<le> k" "a + 128 * (q + 1) + (k - 128 * q) = a + k + 128" using k(1) q by simp_all
    have i: "code_size h + data_size h \<le> 128 * image_pages h" unfolding img by linarith
    moreover have "q + 1 < image_pages h" using i k(1,2) q by linarith
    ultimately have ub: "k < 128 * (q + (image_pages h - (q + 1)))" using k(2) by (simp add: algebra_simps)
    then show "overlay file (a + 128 * code_pages h) ((code_size h + 127) div 128) (image_pages h - code_pages h) old k = file ! (a + k + 128)"
      unfolding overlay_def cp e(2) by (simp only: e(1) ub k(3) simp_thms if_True)
    show "k < 128 * program_pages h" using i k(2) linked_sizes(5) [OF h(2)] unfolding img by linarith
  qed
  from load_linked [OF s fb h a bm room mem tlb, of junk] obtain sp mem' bm' s' where
    new: "AddrSpace_new junk f mem bm s = Inr (sp, mem', bm', s')"
    "\<forall>k < 128 * program_pages h. user_byte (RestoreState sp (m\<lparr>mainMemory := mem'\<rparr>)) (of_nat k) =
       Some (overlay file (a + 128 * code_pages h) ((code_size h + 127) div 128) (image_pages h - code_pages h)
         (overlay file a 0 (code_pages h) (\<lambda>_. 0)) k)" by metis
  then show ?thesis using v lt by auto
qed

section \<open>Concrete programs\<close>

text \<open>A program of 100 bytes of code and 60 bytes of data, in a file of 200 bytes.\<close>

definition sample_program :: "byte list" where
  "sample_program = bytes_of [NOFFMAGIC, 0, 40, 100, 100, 140, 60, 0, 0, 0] @ map (\<lambda>i. of_nat (i + 1)) [0..<160]"

definition free_frames :: BitMap where
  "free_frames = \<lparr>numBits = 128, numWords = 4, bitwords = [0, 0, 0, 0]\<rparr>"

lemma free_own_frames: "bm_wf free_frames" "numBits free_frames = 128" "marked free_frames = {}"
proof -
  show "bm_wf free_frames" "numBits free_frames = 128"
    by (simp_all add: free_frames_def bm_wf_def divRoundUp_nonneg BitsInWord_def)
  have "[0, 0, 0, 0 :: 32 word] ! n = 0" if "n < 4" for n using that by (auto simp: less_Suc_eq numeral_eq_Suc)
  moreover have "nat (i div 32) < 4" if "i < 128" for i :: int using that by linarith
  ultimately show "marked free_frames = {}" by (auto simp: marked_def bm_bit_def free_frames_def)
qed

lemma length_sample_program: "length sample_program = 200"
  by (simp add: sample_program_def)

lemma sample_header: "noff_of (take 40 sample_program) = \<lparr>noffMagic = NOFFMAGIC,
    code = \<lparr>virtualAddr = 0, inFileAddr = 40, seg_size = 100\<rparr>,
    initData = \<lparr>virtualAddr = 100, inFileAddr = 140, seg_size = 60\<rparr>,
    uninitData = \<lparr>virtualAddr = 0, inFileAddr = 0, seg_size = 0\<rparr>\<rparr>"
  by (simp add: sample_program_def noff_of_def segment_at_def)

text \<open>A disk on which the file of a program has been written.\<close>

lemma file_on_disk:
  fixes f :: OpenFile
  assumes "file_ok (hdr f)" and "nat (numBytes (hdr f)) = length bs" and "bs \<noteq> []"
  obtains s where "sd_ok s" "file_bytes (hdr f) (sd_sector s) = bs"
proof -
  have n: "numBytes (hdr f) = int (length bs)" "0 < int (length bs)" using assms(2,3) by (cases bs; simp)+
  obtain s where s: "sd_ok s" "file_bytes (hdr f) (sd_sector s) = patch (file_bytes (hdr f) (sd_sector blank_disk)) 0 (take (length bs) bs)"
    using OpenFile_WriteAt_correct [OF blank_disk_ok assms(1), of 0 "int (length bs)" bs "length bs" "\<lambda>_. 0"] n by auto
  moreover have "length (file_bytes (hdr f) (sd_sector blank_disk)) = length bs"
    using length_file_bytes [OF blank_disk_ok assms(1)] assms(2) by simp
  ultimately show thesis using that patch_whole [of bs] by simp
qed

lemma sample_linked:
  assumes "h = noff_of (take 40 sample_program)"
  shows "linked h" "pages_meet h" "inFileAddr (code h) = 40" "program_pages h = 10" "image_pages h = 2"
  unfolding assms sample_header
  by (simp_all add: linked_def pages_meet_def program_pages_def image_pages_def code_pages_def)

lemma sample_room: "program_pages (noff_of (take 40 sample_program)) \<le> card ({0..<128} - marked free_frames)"
  using sample_linked(4) [OF refl] free_own_frames(3) by simp

definition old_memory :: "byte list" where
  "old_memory = replicate 16384 7"

lemma length_old_memory: "length old_memory = 16384"
  by (simp add: old_memory_def)

lemma sample_disk:
  obtains s where "sd_ok s" "sample_program = file_bytes (hdr sample_file) (sd_sector s)" "40 \<le> length sample_program"
proof -
  have "sample_program \<noteq> []" using length_sample_program by auto
  then obtain s where "sd_ok s" "file_bytes (hdr sample_file) (sd_sector s) = sample_program"
    using file_on_disk [OF sample_file_ok, of sample_program] length_sample_program by auto
  then show thesis using that length_sample_program by simp
qed

lemma bare_machine_tlb: "tlb (Machine_new None ()) = None"
  by (simp add: Machine_new_def)

text \<open>The space of the sample program, for the other concrete instances.\<close>

lemma sample_space:
  obtains s sp mem' bm' s' where "AddrSpace_new (\<lambda>_. 9) sample_file old_memory free_frames s = Inr (sp, mem', bm', s')"
    "unat (numPages sp) = 10"
proof -
  obtain s where s: "sd_ok s" "sample_program = file_bytes (hdr sample_file) (sd_sector s)" "40 \<le> length sample_program"
    by (rule sample_disk)
  from load_linked [OF s(1) sample_file_ok s(2,3) refl sample_linked(1) [OF refl] refl free_own_frames(1,2)
      sample_room length_old_memory bare_machine_tlb, of "\<lambda>_. 9"]
  show thesis using that sample_linked(4) [OF refl] by metis
qed

theorem AddrSpace_new_delete_witness:
  "\<exists>s sp mem' bm' s' bm''. AddrSpace_new (\<lambda>_. 9) sample_file old_memory free_frames s = Inr (sp, mem', bm', s')
    \<and> AddrSpace_delete sp bm' = Inr bm'' \<and> marked bm'' = {}"
proof -
  obtain s sp mem' bm' s' where r: "AddrSpace_new (\<lambda>_. 9) sample_file old_memory free_frames s = Inr (sp, mem', bm', s')"
    by (rule sample_space)
  from AddrSpace_new_delete [OF r free_own_frames(1,2) length_old_memory] show ?thesis using r free_own_frames(3) by metis
qed

text \<open>A program whose code fills a page exactly, with 200 bytes of data.\<close>

definition boundary_program :: "byte list" where
  "boundary_program = bytes_of [NOFFMAGIC, 0, 40, 128, 128, 168, 200, 0, 0, 0] @ map (\<lambda>i. of_nat (i + 1)) [0..<328]"

definition boundary_file :: OpenFile where
  "boundary_file = \<lparr>hdr = \<lparr>numBytes = 368, numSectors = 3, dataSectors = 9 # 5 # 7 # replicate 27 0\<rparr>, seekPosition = 0\<rparr>"

lemma boundary_file_ok: "file_ok (hdr boundary_file)"
  by (simp add: boundary_file_def file_ok_def hdr_wf_def hdr_sectors_def divRoundUp_sectors
      NumSectors_def SectorsPerTrack_def NumTracks_def numeral_3_eq_3)

lemma boundary_linked:
  assumes "h = noff_of (take 40 boundary_program)"
  shows "linked h" "inFileAddr (code h) = 40" "seg_size (code h) = 128" "seg_size (initData h) = 200" "program_pages h = 11"
  unfolding assms
  by (simp_all add: boundary_program_def noff_of_def segment_at_def linked_def program_pages_def)

theorem AddrSpace_shifts_data_witness:
  "\<exists>s sp mem' bm' s'. file_bytes (hdr boundary_file) (sd_sector s) = boundary_program \<and> boundary_program ! (40 + 128) = 129
    \<and> AddrSpace_new (\<lambda>_. 9) boundary_file old_memory free_frames s = Inr (sp, mem', bm', s')
    \<and> user_byte (RestoreState sp ((Machine_new None ())\<lparr>mainMemory := mem'\<rparr>)) 128 = Some 1"
proof -
  let ?h = "noff_of (take 40 boundary_program)"
  have len: "length boundary_program = 368" by (simp add: boundary_program_def)
  then have "boundary_program \<noteq> []" by auto
  then obtain s where s: "sd_ok s" "file_bytes (hdr boundary_file) (sd_sector s) = boundary_program"
    using file_on_disk [OF boundary_file_ok, of boundary_program] len by (auto simp: boundary_file_def)
  note b = boundary_linked [OF refl]
  have a: "40 = unat (inFileAddr (code ?h))" by (simp add: b)
  have "40 \<le> length boundary_program" "0 < code_size ?h" "128 dvd code_size ?h" "128 < data_size ?h"
    "program_pages ?h \<le> card ({0..<128} - marked free_frames)" using len by (simp_all add: b free_own_frames)
  from AddrSpace_shifts_data [OF s(1) boundary_file_ok s(2) [symmetric] this(1) refl b(1) a this(2-4) free_own_frames(1,2)
      this(5) length_old_memory bare_machine_tlb, of "\<lambda>_. 9"]
  obtain sp mem' bm' s' where r: "AddrSpace_new (\<lambda>_. 9) boundary_file old_memory free_frames s = Inr (sp, mem', bm', s')"
    "\<forall>k. 128 \<le> k \<longrightarrow> k + 128 < 328 \<longrightarrow> 40 + k + 128 < 368 \<longrightarrow>
       user_byte (RestoreState sp ((Machine_new None ())\<lparr>mainMemory := mem'\<rparr>)) (of_nat k) = Some (boundary_program ! (40 + k + 128))"
    using len by (auto simp: b)
  have "boundary_program ! 168 = 129" "boundary_program ! 296 = 1" by (simp_all add: boundary_program_def nth_append)
  with r(1) r(2) [rule_format, of 128] s(2) show ?thesis by auto
qed

end
