(* ===== verification/Console.thy ===== *)
theory Console
  imports Interrupt
begin

text \<open>
  The console: the device of \<^verbatim>\<open>machine/console.cc\<close> and the synchronous interface of \<^verbatim>\<open>userprog/SynchConsole.cc\<close> above it.
  The keyboard is the sequence of answers that \<^verbatim>\<open>PollFile\<close> is going to give, each with the character that
  \<^verbatim>\<open>Read\<close> then returns; the display is the list of characters written. A thread that holds \<^verbatim>\<open>wLock\<close> or \<^verbatim>\<open>rLock\<close> is
  represented by the point it has reached, and \<^verbatim>\<open>cread\<close> and \<^verbatim>\<open>cwrite\<close> by their values; that locks exclude each other and
  that semaphores wake their waiters is the subject of the theories of threads.
\<close>

section \<open>State\<close>

datatype console_int = ConsoleReadPoll | ConsoleWriteDone

record sconsole = "console_int Interrupt" +
  putBusy :: bool
  incoming :: byte
  keyboard :: "byte option list" \<comment> \<open>\<^verbatim>\<open>readFileNo\<close>\<close>
  display :: "byte list" \<comment> \<open>\<^verbatim>\<open>writeFileNo\<close>\<close>
  cread :: nat
  cwrite :: nat
  writing :: bool \<comment> \<open>a thread holds \<^verbatim>\<open>wLock\<close> and waits for \<^verbatim>\<open>cwrite\<close>\<close>
  reading :: bool \<comment> \<open>a thread holds \<^verbatim>\<open>rLock\<close> and has passed \<^verbatim>\<open>cread\<close>\<close>

text \<open>\<^verbatim>\<open>EOF\<close> in a \<^verbatim>\<open>char\<close>.\<close>

definition EOFc :: byte where "EOFc = - 1"

section \<open>console.cc\<close>

text \<open>\<open>rh\<close> and \<open>wh\<close> are the handlers that the client gives to the constructor.\<close>

definition PutChar :: "byte \<Rightarrow> sconsole \<Rightarrow> sconsole res" where
  "PutChar ch s =
     ASSERT (putBusy s = False)
      (Schedule ConsoleWriteDone ConsoleTime ConsoleWriteInt (s\<lparr>display := display s @ [ch], putBusy := True\<rparr>))"

definition GetChar :: "sconsole \<Rightarrow> byte \<times> sconsole" where
  "GetChar s = (incoming s, s\<lparr>incoming := EOFc\<rparr>)"

definition CheckCharAvail :: "(sconsole \<Rightarrow> sconsole) \<Rightarrow> sconsole \<Rightarrow> sconsole res" where
  "CheckCharAvail rh s =
     rbind (Schedule ConsoleReadPoll ConsoleTime ConsoleReadInt s) (\<lambda>s1.
     if incoming s1 \<noteq> EOFc then Inr s1
     else (case keyboard s1 of
             [] \<Rightarrow> Inr s1
           | None # ks \<Rightarrow> Inr (s1\<lparr>keyboard := ks\<rparr>)
           | Some c # ks \<Rightarrow> Inr (rh (s1\<lparr>keyboard := ks, incoming := c,
               stats := (stats s1)\<lparr>numConsoleCharsRead := numConsoleCharsRead (stats s1) + 1\<rparr>\<rparr>))))"

definition Console_WriteDone :: "(sconsole \<Rightarrow> sconsole) \<Rightarrow> sconsole \<Rightarrow> sconsole" where
  "Console_WriteDone wh s = wh (s\<lparr>putBusy := False,
     stats := (stats s)\<lparr>numConsoleCharsWritten := numConsoleCharsWritten (stats s) + 1\<rparr>\<rparr>)"

definition Console_new :: "sconsole \<Rightarrow> sconsole res" where
  "Console_new s = Schedule ConsoleReadPoll ConsoleTime ConsoleReadInt (s\<lparr>putBusy := False, incoming := EOFc\<rparr>)"

section \<open>SynchConsole.cc\<close>

definition RequestWrite :: "sconsole \<Rightarrow> sconsole" where
  "RequestWrite s = s\<lparr>cwrite := cwrite s + 1\<rparr>"

definition RequestRead :: "sconsole \<Rightarrow> sconsole" where
  "RequestRead s = s\<lparr>cread := cread s + 1\<rparr>"

text \<open>The routines that the two interrupts call.\<close>

definition console_call :: "console_int \<Rightarrow> sconsole \<Rightarrow> sconsole res" where
  "console_call h s = (case h of
     ConsoleReadPoll \<Rightarrow> CheckCharAvail RequestRead s
   | ConsoleWriteDone \<Rightarrow> Inr (Console_WriteDone RequestWrite s))"

definition SynchConsole_new :: "byte option list \<Rightarrow> sconsole res" where
  "SynchConsole_new keys = Console_new
     \<lparr>level = IntOff, pending = [], inHandler = False, yieldOnReturn = False, istatus = SystemMode, stats = Statistics_new,
       putBusy = False, incoming = EOFc, keyboard = keys, display = [], cread = 0, cwrite = 0, writing = False, reading = False\<rparr>"

text \<open>\<^verbatim>\<open>writeConsole\<close> up to and from the \<^verbatim>\<open>P\<close> on \<^verbatim>\<open>cwrite\<close>; \<open>None\<close>: the thread has to wait.\<close>

definition writeConsole :: "byte \<Rightarrow> sconsole \<Rightarrow> sconsole res option" where
  "writeConsole c s = (if writing s then None else Some (rbind (PutChar c s) (\<lambda>s1. Inr (s1\<lparr>writing := True\<rparr>))))"

definition writeConsole_end :: "sconsole \<Rightarrow> sconsole option" where
  "writeConsole_end s = (if writing s \<and> cwrite s > 0 then Some (s\<lparr>cwrite := cwrite s - 1, writing := False\<rparr>) else None)"

text \<open>\<^verbatim>\<open>readConsole\<close> up to and from the end of the \<^verbatim>\<open>P\<close> on \<^verbatim>\<open>cread\<close>.\<close>

definition readConsole :: "sconsole \<Rightarrow> sconsole option" where
  "readConsole s = (if \<not> reading s \<and> cread s > 0 then Some (s\<lparr>cread := cread s - 1, reading := True\<rparr>) else None)"

definition readConsole_end :: "sconsole \<Rightarrow> (byte \<times> sconsole) option" where
  "readConsole_end s = (if reading s then let (c, s1) = GetChar s in Some (c, s1\<lparr>reading := False\<rparr>) else None)"

section \<open>Steps\<close>

text \<open>
  What can happen, in any order: threads enter and leave \<^verbatim>\<open>writeConsole\<close> and \<^verbatim>\<open>readConsole\<close>, \<open>CheckIfDue\<close> looks for an
  interrupt to fire, the clock advances and interrupts are enabled or disabled.
\<close>

datatype sc_event = Wrote byte | Got byte | Silent

inductive sc_step :: "sconsole \<Rightarrow> sc_event \<Rightarrow> sconsole \<Rightarrow> bool" where
  write_begin: "writeConsole c s = Some (Inr s') \<Longrightarrow> sc_step s (Wrote c) s'"
| write_end: "writeConsole_end s = Some s' \<Longrightarrow> sc_step s Silent s'"
| read_begin: "readConsole s = Some s' \<Longrightarrow> sc_step s Silent s'"
| read_end: "readConsole_end s = Some (c, s') \<Longrightarrow> sc_step s (Got c) s'"
| interrupt: "CheckIfDue console_call Inr adv s = Inr (b, s') \<Longrightarrow> sc_step s Silent s'"
| clock: "sc_step s Silent (advance_clock s)"
| set_level: "sc_step s Silent (ChangeLevel l s)"

inductive sc_run :: "sconsole \<Rightarrow> sc_event list \<Rightarrow> sconsole \<Rightarrow> bool" where
  start: "sc_run s [] s"
| step: "sc_run s es s1 \<Longrightarrow> sc_step s1 e s2 \<Longrightarrow> sc_run s (es @ [e]) s2"

inductive_cases sc_stepE: "sc_step s e s'"

text \<open>The characters of a run.\<close>

fun gots :: "sc_event list \<Rightarrow> byte list" where
  "gots [] = []"
| "gots (Got c # es) = c # gots es"
| "gots (_ # es) = gots es"

fun wrotes :: "sc_event list \<Rightarrow> byte list" where
  "wrotes [] = []"
| "wrotes (Wrote c # es) = c # wrotes es"
| "wrotes (_ # es) = wrotes es"

fun typed :: "byte option list \<Rightarrow> byte list" where
  "typed [] = []"
| "typed (None # ks) = typed ks"
| "typed (Some c # ks) = c # typed ks"

lemma gots_append [simp]: "gots (es @ fs) = gots es @ gots fs"
  by (induction es rule: gots.induct) simp_all

lemma wrotes_append [simp]: "wrotes (es @ fs) = wrotes es @ wrotes fs"
  by (induction es rule: wrotes.induct) simp_all

definition buffer_of :: "byte \<Rightarrow> byte list" where
  "buffer_of c = (if c = EOFc then [] else [c])"

abbreviation buffered :: "sconsole \<Rightarrow> byte list" where
  "buffered s \<equiv> buffer_of (incoming s)"

definition pending_for :: "console_int \<Rightarrow> sconsole \<Rightarrow> nat" where
  "pending_for h s = length (filter (\<lambda>(w, p). handler p = h) (pending s))"

text \<open>
  The invariant: one poll is scheduled, a completion exactly while a character is on its way, the semaphores
  count what the device has announced, and no character is lost, doubled or out of order.
\<close>

definition sc_inv :: "byte list \<Rightarrow> sc_event list \<Rightarrow> sconsole \<Rightarrow> bool" where
  "sc_inv keys es s \<longleftrightarrow> pending_for ConsoleReadPoll s = 1 \<and> pending_for ConsoleWriteDone s = of_bool (putBusy s)
     \<and> of_bool (putBusy s) + cwrite s = of_bool (writing s) \<and> cread s + of_bool (reading s) = of_bool (incoming s \<noteq> EOFc)
     \<and> gots es @ buffered s @ typed (keyboard s) = keys \<and> display s = wrotes es"

lemma filter_pending_insert:
  "length (filter P (insert_sorted k x xs)) = of_bool (P (k, x)) + length (filter P xs)"
  by (induction k x xs rule: insert_sorted.induct) auto

lemma Schedule_pending:
  assumes "Schedule h t ty s = Inr s'"
  shows "pending_for h' s' = of_bool (h' = h) + pending_for h' s"
    and "s' = s\<lparr>pending := pending s'\<rparr>"
  using assms by (auto simp: Schedule_def Let_def pending_for_def filter_pending_insert PendingInterrupt_new_def)

lemma Schedule_console: "\<exists>s'. Schedule h ConsoleTime ty s = Inr s'" for s :: sconsole
  by (simp add: Schedule_def ConsoleTime_def Let_def)

text \<open>The effect of the interrupts, when the pending list no longer has the one that is fired.\<close>

lemma CheckCharAvail_inv:
  assumes inv: "gots es @ buffered s @ typed (keyboard s) = keys" "cread s + of_bool (reading s) = of_bool (incoming s \<noteq> EOFc)"
    and keys: "EOFc \<notin> set keys" and C: "CheckCharAvail RequestRead s = Inr s'"
  shows "pending_for h s' = of_bool (h = ConsoleReadPoll) + pending_for h s"
    "gots es @ buffered s' @ typed (keyboard s') = keys" "cread s' + of_bool (reading s') = of_bool (incoming s' \<noteq> EOFc)"
    "putBusy s' = putBusy s" "cwrite s' = cwrite s" "writing s' = writing s" "display s' = display s"
proof -
  obtain s1 where s1: "Schedule ConsoleReadPoll ConsoleTime ConsoleReadInt s = Inr s1" using Schedule_console by blast
  note p = Schedule_pending [OF s1]
  define ps where "ps = pending s1"
  have e: "s1 = s\<lparr>pending := ps\<rparr>" "pending_for h (s\<lparr>pending := ps\<rparr>) = of_bool (h = ConsoleReadPoll) + pending_for h s"
    using p(2) p(1) [of h] by (simp_all add: ps_def)
  have c: "c \<noteq> EOFc" if "keyboard s = Some c # ks" for c ks using inv(1) keys that by auto
  have "pending_for h s' = pending_for h (s\<lparr>pending := ps\<rparr>) \<and> gots es @ buffered s' @ typed (keyboard s') = keys
    \<and> cread s' + of_bool (reading s') = of_bool (incoming s' \<noteq> EOFc) \<and> putBusy s' = putBusy s \<and> cwrite s' = cwrite s
    \<and> writing s' = writing s \<and> display s' = display s"
    using C inv c unfolding CheckCharAvail_def s1 e(1)
    by (auto simp: RequestRead_def buffer_of_def pending_for_def split: if_splits list.splits option.splits)
  then show "pending_for h s' = of_bool (h = ConsoleReadPoll) + pending_for h s"
    "gots es @ buffered s' @ typed (keyboard s') = keys" "cread s' + of_bool (reading s') = of_bool (incoming s' \<noteq> EOFc)"
    "putBusy s' = putBusy s" "cwrite s' = cwrite s" "writing s' = writing s" "display s' = display s" using e(2) by auto
qed

lemma sc_inv_frame:
  assumes "sc_inv keys es s" and "pending_for ConsoleReadPoll s' = pending_for ConsoleReadPoll s"
    and "pending_for ConsoleWriteDone s' = pending_for ConsoleWriteDone s" and "putBusy s' = putBusy s" and "incoming s' = incoming s"
    and "keyboard s' = keyboard s" and "display s' = display s" and "cread s' = cread s" and "cwrite s' = cwrite s"
    and "writing s' = writing s" and "reading s' = reading s"
  shows "sc_inv keys (es @ [Silent]) s'"
  using assms by (simp add: sc_inv_def)

lemma console_call_inv:
  assumes inv: "sc_inv keys es s" and keys: "EOFc \<notin> set keys" and P: "pending s = (w, p) # rest"
    and t: "t = s\<lparr>pending := rest, stats := sts, inHandler := ih, istatus := st\<rparr>" and C: "console_call (handler p) t = Inr s'"
  shows "sc_inv keys (es @ [Silent]) (s'\<lparr>istatus := st', inHandler := ih'\<rparr>)"
proof (cases "handler p")
  case ConsoleReadPoll
  have n: "pending_for ConsoleReadPoll t = 0" "pending_for ConsoleWriteDone t = of_bool (putBusy s)"
    using inv P ConsoleReadPoll by (auto simp: sc_inv_def pending_for_def t)
  have C': "CheckCharAvail RequestRead t = Inr s'" using C ConsoleReadPoll by (simp add: console_call_def)
  have i: "gots es @ buffered t @ typed (keyboard t) = keys" "cread t + of_bool (reading t) = of_bool (incoming t \<noteq> EOFc)"
    using inv by (simp_all add: sc_inv_def t)
  note e = CheckCharAvail_inv [OF i keys C']
  show ?thesis using inv n e(1) [of ConsoleReadPoll] e(1) [of ConsoleWriteDone] e(2-7)
    by (simp add: sc_inv_def t pending_for_def)
next
  case ConsoleWriteDone
  have n: "pending_for ConsoleReadPoll t = 1" "pending_for ConsoleWriteDone t = 0" "putBusy s"
    using inv P ConsoleWriteDone by (cases "putBusy s"; auto simp: sc_inv_def pending_for_def t)+
  have "s' = RequestWrite (t\<lparr>putBusy := False,
      stats := (stats t)\<lparr>numConsoleCharsWritten := numConsoleCharsWritten (stats t) + 1\<rparr>\<rparr>)"
    using C ConsoleWriteDone by (simp add: console_call_def Console_WriteDone_def)
  then show ?thesis using inv n by (auto simp: sc_inv_def t pending_for_def RequestWrite_def)
qed

lemma CheckIfDue_inv:
  assumes inv: "sc_inv keys es s" and keys: "EOFc \<notin> set keys" and C: "CheckIfDue console_call Inr adv s = Inr (b, s')"
  shows "sc_inv keys (es @ [Silent]) s'"
proof (cases "pending s")
  case Nil
  then show ?thesis using inv C by (auto simp: CheckIfDue_def intro: sc_inv_frame)
next
  case (Cons q rest)
  obtain w p where q: "q = (w, p)" by (cases q)
  let ?s = "if adv \<and> w > now s then (stats s)\<lparr>idleTicks := idleTicks (stats s) + (w - now s), totalTicks := w\<rparr> else stats s"
  have unchanged: "sc_inv keys (es @ [Silent]) (s\<lparr>pending := insert_sorted w p rest, stats := st\<rparr>)" for st
    by (rule sc_inv_frame [OF inv]) (use Cons q in \<open>auto simp: pending_for_def filter_pending_insert\<close>)
  consider "s' = s\<lparr>pending := insert_sorted w p rest, stats := stats s\<rparr>"
    | "s' = s\<lparr>pending := insert_sorted w p rest, stats := ?s\<rparr>"
    | "fire console_call Inr (istatus s) p (s\<lparr>pending := rest, stats := ?s\<rparr>) = Inr s'"
    using C Cons q by (cases "adv \<and> w > now s") (auto simp: CheckIfDue_def Let_def rbind_eq_Inr split: if_splits)
  then show ?thesis
  proof cases
    case 3
    then obtain s2 where s2: "console_call (handler p) (s\<lparr>pending := rest, stats := ?s, inHandler := True, istatus := SystemMode\<rparr>) = Inr s2"
      "s' = s2\<lparr>istatus := istatus s, inHandler := False\<rparr>" by (auto simp: fire_def rbind_eq_Inr)
    from console_call_inv [OF inv keys Cons [unfolded q] refl s2(1), where ih' = False and st' = "istatus s"] s2(2) show ?thesis by simp
  qed (use unchanged in \<open>simp_all only:\<close>)
qed

lemma sc_step_inv:
  assumes inv: "sc_inv keys es s" and keys: "EOFc \<notin> set keys" and st: "sc_step s e s'"
  shows "sc_inv keys (es @ [e]) s'"
  using st
proof cases
  case (write_begin c)
  then obtain s1 where s1: "\<not> writing s" "\<not> putBusy s"
    "Schedule ConsoleWriteDone ConsoleTime ConsoleWriteInt (s\<lparr>display := display s @ [c], putBusy := True\<rparr>) = Inr s1" "s' = s1\<lparr>writing := True\<rparr>"
    by (auto simp: writeConsole_def PutChar_def rbind_eq_Inr split: if_splits)
  note p = Schedule_pending [OF s1(3)]
  have e: "s1 = (s\<lparr>display := display s @ [c], putBusy := True\<rparr>)\<lparr>pending := pending s1\<rparr>" by (rule p(2))
  have "pending_for h s1 = of_bool (h = ConsoleWriteDone) + pending_for h s" for h using p(1) [of h] by (simp add: pending_for_def)
  note n = this [of ConsoleReadPoll] this [of ConsoleWriteDone]
  have "putBusy s1" "cwrite s1 = cwrite s" "cread s1 = cread s" "reading s1 = reading s" "incoming s1 = incoming s"
    "keyboard s1 = keyboard s" "display s1 = display s @ [c]" by (subst e, simp)+
  then show ?thesis using inv n s1 write_begin by (auto simp: sc_inv_def pending_for_def)
next
  case write_end
  then show ?thesis using inv by (auto simp: sc_inv_def writeConsole_end_def pending_for_def split: if_splits)
next
  case read_begin
  then show ?thesis using inv by (auto simp: sc_inv_def readConsole_def pending_for_def split: if_splits)
next
  case (read_end c)
  then show ?thesis using inv
    by (auto simp: sc_inv_def readConsole_end_def GetChar_def buffer_of_def pending_for_def split: if_splits)
next
  case (interrupt adv b)
  then show ?thesis using CheckIfDue_inv [OF inv keys] by simp
next
  case clock
  then show ?thesis using sc_inv_frame [OF inv] by (simp add: advance_clock_def pending_for_def)
next
  case (set_level l)
  then show ?thesis using sc_inv_frame [OF inv] by (simp add: ChangeLevel_def pending_for_def)
qed

lemma sc_new_inv:
  assumes "SynchConsole_new keys = Inr s"
  shows "sc_inv (typed keys) [] s"
  using assms
  by (auto simp: SynchConsole_new_def Console_new_def Schedule_def Let_def sc_inv_def pending_for_def buffer_of_def PendingInterrupt_new_def)

lemma sc_run_inv:
  assumes "sc_run s0 es s" and "SynchConsole_new keys = Inr s0" and "EOFc \<notin> set (typed keys)"
  shows "sc_inv (typed keys) es s"
  using assms by (induction rule: sc_run.induct) (auto intro: sc_new_inv sc_step_inv)

section \<open>The contract of the devices\<close>

text \<open>The interrupt routines of the console keep the contract that the interrupt simulation relies on.\<close>

lemma quiet_frame: "quiet i i1 \<Longrightarrow> level i2 = level i1 \<Longrightarrow> pending i2 = pending i1 \<Longrightarrow> now i2 = now i1 \<Longrightarrow> quiet i i2"
  unfolding quiet_def int_inv_def due_def by (elim conjE, intro conjI) simp_all

lemma console_call_quiet:
  assumes "int_inv s"
  shows "\<exists>s'. console_call h s = Inr s' \<and> quiet s s'"
proof (cases h)
  case ConsoleReadPoll
  obtain s1 :: sconsole where s1: "Schedule ConsoleReadPoll ConsoleTime ConsoleReadInt s = Inr s1" "quiet s s1"
    using Schedule_quiet [OF assms, of ConsoleTime ConsoleReadPoll ConsoleReadInt] by (auto simp: ConsoleTime_def)
  then show ?thesis using ConsoleReadPoll
    by (auto simp: console_call_def CheckCharAvail_def RequestRead_def intro: quiet_frame split: list.split option.split)
next
  case ConsoleWriteDone
  have "quiet s s" using assms by (simp add: quiet_def)
  then show ?thesis using ConsoleWriteDone
    by (auto simp: console_call_def Console_WriteDone_def RequestWrite_def intro: quiet_frame)
qed

interpretation con: devices console_call Inr
  by unfold_locales (rule console_call_quiet, simp_all add: quiet_def)

section \<open>Properties\<close>

text \<open>
  C40. The synchronous console loses nothing as long as no typed key is the byte 0xff, which it takes for \<^verbatim>\<open>EOF\<close> and
  drops (\<open>console_drops_EOF\<close>): however the threads and the interrupts interleave, what \<^verbatim>\<open>readConsole\<close> has returned, with
  the character that is buffered and those still to come, is exactly what is typed, in order; what
  \<^verbatim>\<open>writeConsole\<close> was given is on the display, in order; and \<^verbatim>\<open>PutChar\<close> never finds the device busy when the lock is free.
\<close>

theorem console_loses_nothing:
  assumes "SynchConsole_new keys = Inr s0" and "sc_run s0 es s" and "EOFc \<notin> set (typed keys)"
  shows "gots es @ buffered s @ typed (keyboard s) = typed keys \<and> display s = wrotes es
    \<and> (writing s \<or> (\<exists>s'. writeConsole c s = Some (Inr s')))"
proof -
  have inv: "sc_inv (typed keys) es s" by (rule sc_run_inv [OF assms(2,1,3)])
  have "\<exists>s'. writeConsole c s = Some (Inr s')" if "\<not> writing s"
  proof -
    have "\<not> putBusy s" using inv that by (auto simp: sc_inv_def)
    moreover obtain s1 where "Schedule ConsoleWriteDone ConsoleTime ConsoleWriteInt (s\<lparr>display := display s @ [c], putBusy := True\<rparr>) = Inr s1"
      using Schedule_console by blast
    ultimately show ?thesis using that by (simp add: writeConsole_def PutChar_def)
  qed
  then show ?thesis using inv by (auto simp: sc_inv_def)
qed

text \<open>A character is typed, arrives with the first poll and is read.\<close>

lemma read_run:
  "\<exists>s0 s. SynchConsole_new [None, Some 104] = Inr s0 \<and> sc_run s0 [Silent, Silent, Silent, Got 104] s \<and> keyboard s = []"
proof -
  define s0 where "s0 = (case SynchConsole_new [None, Some 104] of Inr s \<Rightarrow> s)"
  define poll where "poll = (\<lambda>s. case CheckIfDue console_call Inr True s of Inr (b, s') \<Rightarrow> s')"
  define s1 where "s1 = poll s0"
  define s2 where "s2 = poll s1"
  define s3 where "s3 = the (readConsole s2)"
  define s4 where "s4 = snd (the (readConsole_end s3))"
  note defs = s0_def poll_def s1_def s2_def s3_def s4_def
  have n: "SynchConsole_new [None, Some 104] = Inr s0" unfolding defs by code_simp
  have a: "\<exists>b. CheckIfDue console_call Inr True s0 = Inr (b, s1)" "\<exists>b. CheckIfDue console_call Inr True s1 = Inr (b, s2)"
    unfolding defs by (rule exI [of _ True], code_simp)+
  have b: "readConsole s2 = Some s3" "readConsole_end s3 = Some (104, s4)" "keyboard s4 = []" unfolding defs by code_simp+
  have "sc_step s0 Silent s1" using a(1) by (auto intro: sc_step.intros)
  then have "sc_run s0 ([] @ [Silent]) s1" by (rule sc_run.step [OF sc_run.start])
  moreover have "sc_step s1 Silent s2" "sc_step s2 Silent s3" "sc_step s3 (Got 104) s4" using a(2) b by (auto intro: sc_step.intros)
  ultimately have "sc_run s0 ((([] @ [Silent]) @ [Silent]) @ [Silent]) s3" by (blast intro: sc_run.step)
  then have "sc_run s0 (((([] @ [Silent]) @ [Silent]) @ [Silent]) @ [Got 104]) s4"
    using \<open>sc_step s3 (Got 104) s4\<close> by (rule sc_run.step)
  then show ?thesis using n b(3) by auto
qed

theorem console_loses_nothing_witness:
  "\<exists>s0 s. SynchConsole_new [None, Some 104] = Inr s0 \<and> sc_run s0 [Silent, Silent, Silent, Got 104] s
    \<and> gots [Silent, Silent, Silent, Got 104] @ buffered s = [104] \<and> display s = []"
proof -
  obtain s0 s where r: "SynchConsole_new [None, Some 104] = Inr s0" "sc_run s0 [Silent, Silent, Silent, Got 104] s" "keyboard s = []"
    using read_run by blast
  have "EOFc \<notin> set (typed [None, Some 104])" by (simp add: EOFc_def)
  from console_loses_nothing [OF r(1,2) this, of 0] r show ?thesis by auto
qed

text \<open>
  The hypothesis on the typed characters is needed: the character \<^verbatim>\<open>0xff\<close> is \<^verbatim>\<open>EOF\<close>, so that the device takes it for an
  empty buffer. It is overwritten by the next character, and the reader that its \<^verbatim>\<open>V\<close> admits gets a character that was not typed.
\<close>

lemma console_drops_EOF:
  "\<exists>s0 s. SynchConsole_new [Some 255, Some 65] = Inr s0 \<and> sc_run s0 [Silent, Silent, Silent, Got 65, Silent, Got 255] s
    \<and> keyboard s = []"
proof -
  define s0 where "s0 = (case SynchConsole_new [Some 255, Some 65] of Inr s \<Rightarrow> s)"
  define poll where "poll = (\<lambda>s. case CheckIfDue console_call Inr True s of Inr (b, s') \<Rightarrow> s')"
  define s1 where "s1 = poll s0"
  define s2 where "s2 = poll s1"
  define s3 where "s3 = the (readConsole s2)"
  define s4 where "s4 = snd (the (readConsole_end s3))"
  define s5 where "s5 = the (readConsole s4)"
  define s6 where "s6 = snd (the (readConsole_end s5))"
  note defs = s0_def poll_def s1_def s2_def s3_def s4_def s5_def s6_def
  have n: "SynchConsole_new [Some 255, Some 65] = Inr s0" unfolding defs by code_simp
  have a: "\<exists>b. CheckIfDue console_call Inr True s0 = Inr (b, s1)" "\<exists>b. CheckIfDue console_call Inr True s1 = Inr (b, s2)"
    unfolding defs by (rule exI [of _ True], code_simp)+
  have b: "readConsole s2 = Some s3" "readConsole_end s3 = Some (65, s4)" "readConsole s4 = Some s5" "readConsole_end s5 = Some (255, s6)"
    "keyboard s6 = []" unfolding defs by code_simp+
  have st: "sc_step s0 Silent s1" "sc_step s1 Silent s2" "sc_step s2 Silent s3" "sc_step s3 (Got 65) s4" "sc_step s4 Silent s5"
    "sc_step s5 (Got 255) s6" using a b by (auto intro: sc_step.intros)
  have "sc_run s0 (((((([] @ [Silent]) @ [Silent]) @ [Silent]) @ [Got 65]) @ [Silent]) @ [Got 255]) s6"
    using st by (blast intro: sc_run.intros)
  then show ?thesis using n b(5) by auto
qed

end
