(* ===== verification/Syscalls.thy ===== *)
theory Syscalls
  imports AddrSpace FileSys Synch Console
begin

text \<open>
  System calls (\<^verbatim>\<open>userprog/exception.cc\<close>): the handler that the machine calls when a user program executes a
  \<^verbatim>\<open>SYSCALL\<close> instruction or causes an exception. Its state joins the thread system, the file system with its
  disk, the map of free frames, the address spaces and the console. The registers and the memory are those of the
  machine of the thread system; the page table that is installed is the array of the current address space.

  A call that gives up the CPU for ever (\<^verbatim>\<open>Finish\<close>) or until another thread ends (\<^verbatim>\<open>Join\<close>) leaves frames on the stack of
  its thread, as in the theory of threads, and what the handler does afterwards is the point \<open>cont\<close> of the process. Waiting
  for the disk or the console is part of the call: other threads are not interleaved there.
\<close>

section \<open>State\<close>

text \<open>An entry of \<^verbatim>\<open>descriptores\<close>: the constructor of \<^verbatim>\<open>Thread\<close> does not initialise the array.\<close>

datatype descriptor = Null | Garbage | File OpenFile

datatype point = InUser | StartPoint | AfterJoin int

record process =
  pid :: int
  descriptores :: "descriptor list"
  cont :: point

record os =
  kern :: kernel
  fileSystem :: FileSystem
  diskState :: SynchDisk \<comment> \<open>\<^verbatim>\<open>synchDisk\<close>\<close>
  myBitmap :: BitMap
  spaces :: "nat \<rightharpoonup> AddrSpace"
  sconsole_of :: sconsole \<comment> \<open>\<^verbatim>\<open>sconsole\<close>\<close>
  processes :: "tid \<rightharpoonup> process"
  processIdTable :: "tid option list"
  cantProcesses :: int

definition maxCantProcess :: nat where "maxCantProcess = 100"
definition MAX_OPEN_FILES :: nat where "MAX_OPEN_FILES = 100"

definition SC_Halt :: int where "SC_Halt = 0"
definition SC_Exit :: int where "SC_Exit = 1"
definition SC_Exec :: int where "SC_Exec = 2"
definition SC_Join :: int where "SC_Join = 3"
definition SC_Create :: int where "SC_Create = 4"
definition SC_Open :: int where "SC_Open = 5"
definition SC_Read :: int where "SC_Read = 6"
definition SC_Write :: int where "SC_Write = 7"
definition SC_Close :: int where "SC_Close = 8"
definition ConsoleInput :: int where "ConsoleInput = 0"
definition ConsoleOutput :: int where "ConsoleOutput = 1"

lemmas syscall_consts = SC_Halt_def SC_Exit_def SC_Exec_def SC_Join_def SC_Create_def SC_Open_def SC_Read_def SC_Write_def
  SC_Close_def ConsoleInput_def ConsoleOutput_def maxCantProcess_def MAX_OPEN_FILES_def

text \<open>What uninitialised memory holds: locals, \<^verbatim>\<open>malloc\<close>ed buffers, new objects.\<close>

record Junk =
  j_fresh :: Fresh
  j_byte :: "nat \<Rightarrow> byte"
  j_word :: "32 word"
  j_regs :: "32 word list"
  j_desc :: "descriptor list" \<comment> \<open>of \<open>Null\<close> and \<open>Garbage\<close>\<close>

section \<open>Access to the parts\<close>

definition mach :: "os \<Rightarrow> unit Machine" where
  "mach os = (machine (kern os))\<lparr>pageTable := Option.bind (pageTablePtr (kern os)) (\<lambda>p. map_option as_pageTable (spaces os p))\<rparr>"

definition set_mach :: "unit Machine \<Rightarrow> os \<Rightarrow> os" where
  "set_mach m os = os\<lparr>kern := (kern os)\<lparr>machine := m\<lparr>pageTable := None\<rparr>\<rparr>,
     spaces := (case (pageTablePtr (kern os), pageTable m) of
       (Some p, Some pt) \<Rightarrow> (spaces os)(p := map_option (\<lambda>sp. sp\<lparr>as_pageTable := pt\<rparr>) (spaces os p))
     | _ \<Rightarrow> spaces os)\<rparr>"

definition read_reg :: "nat \<Rightarrow> os \<Rightarrow> 32 word res" where
  "read_reg i os = ReadRegister (int i) (machine (kern os))"

definition write_reg :: "nat \<Rightarrow> 32 word \<Rightarrow> os \<Rightarrow> os res" where
  "write_reg i v os = rbind (WriteRegister (int i) v (machine (kern os))) (\<lambda>m. Inr (os\<lparr>kern := (kern os)\<lparr>machine := m\<rparr>\<rparr>))"

definition current :: "os \<Rightarrow> tid" where
  "current os = currentThread (kern os)"

definition upd_process :: "tid \<Rightarrow> (process \<Rightarrow> process) \<Rightarrow> os \<Rightarrow> os" where
  "upd_process t f os = os\<lparr>processes := (processes os)(t := map_option f (processes os t))\<rparr>"

text \<open>Results of calls that may wait for ever (\<open>None\<close>).\<close>

definition obind :: "'a res option \<Rightarrow> ('a \<Rightarrow> 'b res option) \<Rightarrow> 'b res option" where
  "obind x f = (case x of None \<Rightarrow> None | Some (Inl e) \<Rightarrow> Some (Inl e) | Some (Inr y) \<Rightarrow> f y)"

section \<open>The console from the point of view of one thread\<close>

text \<open>While the thread waits, the clock advances to the next interrupt.\<close>

definition next_interrupt :: "sconsole \<Rightarrow> sconsole res" where
  "next_interrupt s = rbind (CheckIfDue console_call Inr True (ChangeLevel IntOff s)) (\<lambda>(b, s1). Inr (ChangeLevel (level s) s1))"

partial_function (option) await_char :: "sconsole \<Rightarrow> (byte \<times> sconsole) res option" where
  "await_char s =
     (case readConsole s of
        Some s1 \<Rightarrow> (case readConsole_end s1 of None \<Rightarrow> None | Some r \<Rightarrow> Some (Inr r))
      | None \<Rightarrow> (case next_interrupt s of Inl f \<Rightarrow> Some (Inl f) | Inr s1 \<Rightarrow> await_char s1))"

partial_function (option) await_written :: "sconsole \<Rightarrow> sconsole res option" where
  "await_written s =
     (case writeConsole_end s of
        Some s1 \<Rightarrow> Some (Inr s1)
      | None \<Rightarrow> (case next_interrupt s of Inl f \<Rightarrow> Some (Inl f) | Inr s1 \<Rightarrow> await_written s1))"

definition put_char :: "byte \<Rightarrow> sconsole \<Rightarrow> sconsole res option" where
  "put_char c s = obind (writeConsole c s) await_written"

section \<open>exception.cc\<close>

definition increaseProgramCounter :: "os \<Rightarrow> os res" where
  "increaseProgramCounter os =
     rbind (read_reg PCReg os) (\<lambda>pc.
     rbind (write_reg PrevPCReg pc os) (\<lambda>os1.
     rbind (read_reg NextPCReg os1) (\<lambda>npc.
     rbind (write_reg PCReg npc os1) (\<lambda>os2.
     write_reg NextPCReg (npc + 4) os2))))"

text \<open>The loop of \<^verbatim>\<open>AssignId\<close>: the first null entry from \<open>i\<close> on; behind the array it reads what follows it.\<close>

function free_descriptor :: "int \<Rightarrow> descriptor list \<Rightarrow> int res" where
  "free_descriptor i ds = rbind (aget ds i) (\<lambda>d. if d \<noteq> Null then free_descriptor (i + 1) ds else Inr i)"
  by pat_completeness auto
termination by (relation "measure (\<lambda>(i, ds). nat (int (length ds) - i))") (auto simp: aget_eq_Inr)

declare free_descriptor.simps [simp del]

definition AssignId :: "OpenFile \<Rightarrow> os \<Rightarrow> (int \<times> os) res" where
  "AssignId f os =
     rbind (follow (processes os) (current os)) (\<lambda>p.
     rbind (free_descriptor 3 (descriptores p)) (\<lambda>i.
     rbind (aput (descriptores p) i (File f)) (\<lambda>ds.
     Inr (i, upd_process (current os) (\<lambda>p. p\<lparr>descriptores := ds\<rparr>) os))))"

definition StartProcess :: "os \<Rightarrow> os res" where
  "StartProcess os =
     rbind (follow (threads (kern os)) (current os)) (\<lambda>th.
     case space th of
       None \<Rightarrow> Inl NullPointer
     | Some p \<Rightarrow>
         rbind (follow (spaces os) p) (\<lambda>sp.
         rbind (InitRegisters sp (machine (kern os))) (\<lambda>m.
         ASSERT (CheckOverflow th)
          (Inr (upd_process (current os) (\<lambda>p. p\<lparr>cont := InUser\<rparr>)
             (os\<lparr>kern := (AddrSpace_RestoreState p (kern os))\<lparr>machine := m\<rparr>\<rparr>))))))"

text \<open>A null-terminated string as the name of a thread.\<close>

definition c_string :: "byte list \<Rightarrow> string" where
  "c_string bs = map (\<lambda>b. char_of (unat b)) (takeWhile (\<lambda>b. b \<noteq> 0) bs)"

text \<open>The object of the new address space gets the next unused identity; \<^verbatim>\<open>delete executable\<close> frees the open file only.\<close>

definition do_Exec :: "Junk \<Rightarrow> int \<Rightarrow> OpenFile \<Rightarrow> byte list \<Rightarrow> os \<Rightarrow> os res" where
  "do_Exec J p executable filename os =
     (let k = kern os; t = next_id k; a = Suc t;
          k1 = k\<lparr>threads := (threads k)(t \<mapsto> Thread_new (c_string filename) (j_regs J)), next_id := Suc a\<rparr> in
      rbind (aput (processIdTable os) p (Some t)) (\<lambda>tab.
      rbind (AddrSpace_new (j_byte J) executable (mainMemory (machine k1)) (myBitmap os) (diskState os)) (\<lambda>(sp, mem, bm, s).
      let k2 = upd_thread t (\<lambda>th. th\<lparr>space := Some a\<rparr>) (k1\<lparr>machine := (machine k1)\<lparr>mainMemory := mem\<rparr>\<rparr>) in
      rbind (Thread_Fork t False 0 k2) (\<lambda>k3.
      Inr (os\<lparr>kern := k3, diskState := s, myBitmap := bm, spaces := (spaces os)(a \<mapsto> sp), processIdTable := tab,
        processes := (processes os)(t \<mapsto> \<lparr>pid = p, descriptores = j_desc J, cont = StartPoint\<rparr>),
        cantProcesses := cantProcesses os + 1\<rparr>)))))"

text \<open>\<^verbatim>\<open>delete currentThread->space; currentThread->space = NULL;\<close>\<close>

definition delete_space :: "tid \<Rightarrow> nat \<Rightarrow> os \<Rightarrow> os res" where
  "delete_space t a os =
     rbind (follow (spaces os) a) (\<lambda>sp.
     rbind (AddrSpace_delete sp (myBitmap os)) (\<lambda>bm.
     Inr (os\<lparr>myBitmap := bm, spaces := (spaces os)(a := None),
       kern := upd_thread t (\<lambda>th. th\<lparr>space := None\<rparr>) (kern os)\<rparr>)))"

definition Halt_os :: "os \<Rightarrow> os" where
  "Halt_os os = os\<lparr>kern := (kern os)\<lparr>halted := True\<rparr>\<rparr>"

section \<open>The cases of the handler\<close>

text \<open>A local array, or one from \<^verbatim>\<open>malloc\<close>.\<close>

definition junk_buf :: "Junk \<Rightarrow> int \<Rightarrow> byte list" where
  "junk_buf J n = map (j_byte J) [0..<nat n]"

fun delete_threads :: "nat \<Rightarrow> tid option \<Rightarrow> os \<Rightarrow> os res" where
  "delete_threads 0 p os = Inr os"
| "delete_threads (Suc n) p os =
     (case p of None \<Rightarrow> delete_threads n p os
      | Some t \<Rightarrow> rbind (Thread_delete t (kern os)) (\<lambda>k. delete_threads n p (os\<lparr>kern := k\<rparr>)))"

fun halt_loop :: "nat \<Rightarrow> nat \<Rightarrow> os \<Rightarrow> os res" where
  "halt_loop i 0 os = Inr os"
| "halt_loop i (Suc n) os =
     rbind (aget (processIdTable os) (int i)) (\<lambda>p.
     rbind (delete_threads MAX_OPEN_FILES p os) (\<lambda>os1.
     rbind (if p \<noteq> Some (current os1) \<and> p \<noteq> None then delete_threads 1 p os1 else Inr os1) (\<lambda>os2.
     rbind (aput (processIdTable os2) (int i) None) (\<lambda>tab.
     halt_loop (Suc i) n (os2\<lparr>processIdTable := tab\<rparr>)))))"

definition sys_Halt :: "os \<Rightarrow> os res" where
  "sys_Halt os =
     rbind (halt_loop 0 maxCantProcess os) (\<lambda>os1.
     rbind (follow (threads (kern os1)) (current os1)) (\<lambda>th.
     rbind (case space th of None \<Rightarrow> Inr os1 | Some a \<Rightarrow> delete_space (current os1) a os1) (\<lambda>os2.
     Inr (Halt_os os2))))"

definition sys_Create :: "Junk \<Rightarrow> os \<Rightarrow> os res" where
  "sys_Create J os =
     rbind (read_reg 4 os) (\<lambda>addr_name.
     rbind (readStrFromUsr kernel_abort addr_name (junk_buf J 64) (mach os)) (\<lambda>(name, m).
     let os1 = set_mach m os in
     rbind (FileSystem_Create (j_fresh J) (fileSystem os1) name 1024 (diskState os1)) (\<lambda>(ok, s).
     write_reg 2 0 (os1\<lparr>diskState := s\<rparr>))))"

text \<open>Characters up to a newline, which is stored but not counted.\<close>

fun console_read :: "nat \<Rightarrow> nat \<Rightarrow> byte list \<Rightarrow> sconsole \<Rightarrow> (nat \<times> byte list \<times> sconsole) res option" where
  "console_read i 0 buf s = Some (Inr (i, buf, s))"
| "console_read i (Suc n) buf s =
     obind (await_char s) (\<lambda>(c, s1).
     obind (Some (aput buf (int i) c)) (\<lambda>buf1.
     if c = 10 then Some (Inr (i, buf1, s1)) else console_read (Suc i) n buf1 s1))"

text \<open>The descriptor that \<^verbatim>\<open>Read\<close> and \<^verbatim>\<open>Write\<close> use.\<close>

definition open_descriptor :: "int \<Rightarrow> os \<Rightarrow> OpenFile res" where
  "open_descriptor i os =
     ASSERT (i \<ge> 3 \<and> i \<le> int MAX_OPEN_FILES)
      (rbind (follow (processes os) (current os)) (\<lambda>p.
       rbind (aget (descriptores p) i) (\<lambda>d.
       case d of Null \<Rightarrow> Inl AssertFail | Garbage \<Rightarrow> Inl DanglingPointer | File f \<Rightarrow> Inr f)))"

definition put_descriptor :: "int \<Rightarrow> descriptor \<Rightarrow> os \<Rightarrow> os" where
  "put_descriptor i d os = upd_process (current os) (\<lambda>p. p\<lparr>descriptores := (descriptores p)[nat i := d]\<rparr>) os"

definition sys_Read :: "Junk \<Rightarrow> os \<Rightarrow> os res option" where
  "sys_Read J os =
     obind (Some (read_reg 4 os)) (\<lambda>addr_buff.
     obind (Some (read_reg 5 os)) (\<lambda>lon.
     obind (Some (read_reg 6 os)) (\<lambda>id.
     let buffer = junk_buf J (sint lon) in
     if sint id = ConsoleInput
     then obind (console_read 0 (nat (sint lon)) buffer (sconsole_of os)) (\<lambda>(bytes, buffer1, c).
          obind (Some (writeBuffToUsr kernel_abort buffer1 addr_buff (int bytes) (mach os))) (\<lambda>m.
          Some (write_reg 2 (of_nat bytes) (set_mach m (os\<lparr>sconsole_of := c\<rparr>)))))
     else obind (Some (open_descriptor (sint id) os)) (\<lambda>f.
          obind (Some (OpenFile_Read f (sint lon) (diskState os))) (\<lambda>(d, f1, s).
          Some (write_reg 2 (of_nat (length d)) (put_descriptor (sint id) (File f1) (os\<lparr>diskState := s\<rparr>))))))))"

fun console_write :: "byte list \<Rightarrow> sconsole \<Rightarrow> sconsole res option" where
  "console_write [] s = Some (Inr s)"
| "console_write (c # cs) s = obind (put_char c s) (console_write cs)"

definition sys_Write :: "Junk \<Rightarrow> os \<Rightarrow> os res option" where
  "sys_Write J os =
     obind (Some (read_reg 4 os)) (\<lambda>addr_buff.
     obind (Some (read_reg 5 os)) (\<lambda>lon.
     obind (Some (read_reg 6 os)) (\<lambda>id.
     obind (Some (readBuffFromUsr kernel_abort addr_buff (junk_buf J (sint lon)) (sint lon) (mach os))) (\<lambda>(buffer, m).
     let os1 = set_mach m os in
     if sint id = ConsoleOutput
     then obind (console_write buffer (sconsole_of os1)) (\<lambda>c.
          Some (write_reg 2 (of_nat (length buffer)) (os1\<lparr>sconsole_of := c\<rparr>)))
     else obind (Some (open_descriptor (sint id) os1)) (\<lambda>f.
          obind (Some (OpenFile_Write (j_byte J) f buffer (sint lon) (diskState os1))) (\<lambda>(n, f1, s).
          Some (write_reg 2 (word_of_int n) (put_descriptor (sint id) (File f1) (os1\<lparr>diskState := s\<rparr>)))))))))"

text \<open>When the file cannot be opened, the result is the uninitialised \<^verbatim>\<open>id\<close>.\<close>

definition sys_Open :: "Junk \<Rightarrow> os \<Rightarrow> os res" where
  "sys_Open J os =
     rbind (read_reg 4 os) (\<lambda>addr_name.
     rbind (readStrFromUsr kernel_abort addr_name (junk_buf J 64) (mach os)) (\<lambda>(name, m).
     let os1 = set_mach m os in
     rbind (FileSystem_Open (j_fresh J) (fileSystem os1) name (diskState os1)) (\<lambda>(file, s).
     let os2 = os1\<lparr>diskState := s\<rparr> in
     case file of
       None \<Rightarrow> write_reg 2 (j_word J) os2
     | Some f \<Rightarrow> rbind (AssignId f os2) (\<lambda>(id, os3). write_reg 2 (word_of_int id) os3))))"

definition sys_Close :: "os \<Rightarrow> os res" where
  "sys_Close os =
     rbind (read_reg 4 os) (\<lambda>id.
     rbind (follow (processes os) (current os)) (\<lambda>p.
     rbind (aget (descriptores p) (sint id)) (\<lambda>d.
     case d of
       Null \<Rightarrow> write_reg 2 0 os
     | Garbage \<Rightarrow> Inl DanglingPointer
     | File f \<Rightarrow> write_reg 2 0 (put_descriptor (sint id) Null os))))"

fun read_args :: "Junk \<Rightarrow> nat \<Rightarrow> 32 word \<Rightarrow> unit Machine \<Rightarrow> (byte list list \<times> unit Machine) res option" where
  "read_args J 0 a m = Some (Inr ([], m))"
| "read_args J (Suc n) a m =
     obind (readStrFromUsrSpecial kernel_abort a (junk_buf J 128) 32 m) (\<lambda>(a1, arg, m1).
     obind (read_args J n a1 m1) (\<lambda>(args, m2). Some (Inr (arg # args, m2))))"

text \<open>The search for a free process identifier; the bound is only checked afterwards.\<close>

function free_pid :: "int \<Rightarrow> tid option list \<Rightarrow> int res" where
  "free_pid p tab = rbind (aget tab p) (\<lambda>e. if e \<noteq> None then free_pid (p + 1) tab else Inr p)"
  by pat_completeness auto
termination by (relation "measure (\<lambda>(p, tab). nat (int (length tab) - p))") (auto simp: aget_eq_Inr)

declare free_pid.simps [simp del]

definition sys_Exec :: "Junk \<Rightarrow> os \<Rightarrow> os res option" where
  "sys_Exec J os =
     obind (Some (read_reg 4 os)) (\<lambda>addr_name.
     obind (Some (read_reg 5 os)) (\<lambda>argc.
     obind (Some (read_reg 6 os)) (\<lambda>addr_argv.
     obind (Some (readStrFromUsr kernel_abort addr_name (junk_buf J 128) (mach os))) (\<lambda>(filename, m).
     obind (read_args J (nat (sint argc)) addr_argv m) (\<lambda>(argumentos, m1).
     let os1 = set_mach m1 os in
     obind (Some (FileSystem_Open (j_fresh J) (fileSystem os1) filename (diskState os1))) (\<lambda>(executable, s).
     let os2 = os1\<lparr>diskState := s\<rparr> in
     case executable of
       None \<Rightarrow> Some (Inl AssertFail)
     | Some f \<Rightarrow>
         Some (rbind (follow (processes os2) (current os2)) (\<lambda>pr.
         rbind (aput (processIdTable os2) (pid pr) (Some (current os2))) (\<lambda>tab.
         rbind (free_pid 1 tab) (\<lambda>p.
         if p < int maxCantProcess
         then rbind (write_reg 2 (word_of_int p) (os2\<lparr>processIdTable := tab\<rparr>)) (do_Exec J p f filename)
         else Inl AssertFail))))))))))"

text \<open>\<^verbatim>\<open>Join\<close> waits inside the thread system; the handler goes on at \<open>AfterJoin\<close>.\<close>

definition sys_Join :: "os \<Rightarrow> os res" where
  "sys_Join os =
     rbind (read_reg 4 os) (\<lambda>p.
     rbind (aget (processIdTable os) (sint p)) (\<lambda>e.
     case e of
       None \<Rightarrow> Inl NullPointer
     | Some t \<Rightarrow> rbind (Thread_Join t (kern os)) (\<lambda>k.
         Inr (upd_process (current os) (\<lambda>pr. pr\<lparr>cont := AfterJoin (sint p)\<rparr>) (os\<lparr>kern := k\<rparr>)))))"

definition sys_Exit :: "os \<Rightarrow> os res" where
  "sys_Exit os =
     rbind (read_reg 4 os) (\<lambda>estado.
     let os1 = os\<lparr>cantProcesses := cantProcesses os - 1\<rparr> in
     if cantProcesses os1 \<le> 0 then Inr (Halt_os os1)
     else
       rbind (follow (threads (kern os1)) (current os1)) (\<lambda>th.
       rbind (case space th of
           None \<Rightarrow> Inr os1
         | Some a \<Rightarrow>
             rbind (delete_space (current os1) a os1) (\<lambda>os2.
             rbind (follow (processes os2) (current os2)) (\<lambda>pr.
             rbind (aput (processIdTable os2) (pid pr) None) (\<lambda>tab. Inr (os2\<lparr>processIdTable := tab\<rparr>))))) (\<lambda>os3.
       rbind (Thread_Finish (kern os3)) (\<lambda>k. Inr (os3\<lparr>kern := k\<rparr>)))))"

text \<open>Calls that return go on to the program counter; \<open>Halt\<close>, \<open>Exit\<close> and \<open>Join\<close> do not (yet).\<close>

definition returning :: "os res option \<Rightarrow> os res option" where
  "returning r = obind r (\<lambda>os. Some (increaseProgramCounter os))"

definition ExceptionHandler :: "Junk \<Rightarrow> ExceptionType \<Rightarrow> os \<Rightarrow> os res option" where
  "ExceptionHandler J which os =
     obind (Some (read_reg 2 os)) (\<lambda>r2.
     let type = sint r2 in
     if which \<noteq> SyscallException then Some (Inl AssertFail)
     else if type = SC_Halt then Some (sys_Halt os)
     else if type = SC_Create then returning (Some (sys_Create J os))
     else if type = SC_Read then returning (sys_Read J os)
     else if type = SC_Write then returning (sys_Write J os)
     else if type = SC_Open then returning (Some (sys_Open J os))
     else if type = SC_Close then returning (Some (sys_Close os))
     else if type = SC_Exec then returning (sys_Exec J os)
     else if type = SC_Join then Some (sys_Join os)
     else if type = SC_Exit then Some (sys_Exit os)
     else returning (Some (Inr os)))"

text \<open>What a thread does when it runs on after a wait: the end of \<^verbatim>\<open>Join\<close>, or the start of its program.\<close>

definition resume :: "os \<Rightarrow> os res" where
  "resume os =
     rbind (follow (processes os) (current os)) (\<lambda>pr.
     case cont pr of
       InUser \<Rightarrow> Inr os
     | StartPoint \<Rightarrow> StartProcess os
     | AfterJoin p \<Rightarrow>
         rbind (aput (processIdTable os) p None) (\<lambda>tab.
         rbind (write_reg 2 0 (upd_process (current os) (\<lambda>pr. pr\<lparr>cont := InUser\<rparr>) (os\<lparr>processIdTable := tab\<rparr>)))
           increaseProgramCounter))"

end
