(* ===== verification/User_Run.thy ===== *)
theory User_Run
  imports Syscalls Mips
begin

text \<open>
  Running user programs: the instructions of the simulated machine on the memory of the current program, the trap into the
  handler of system calls, and the routine that runs the first program (\<^verbatim>\<open>userprog/progtest.cc\<close>).
\<close>

section \<open>One instruction of a user program\<close>

text \<open>
  \<^verbatim>\<open>OneInstruction\<close> where the exception handler is the one of the kernel: every exception but the system call
  ends in \<^verbatim>\<open>ASSERT(false)\<close> there, and a system call is the whole effect of its instruction.
\<close>

definition syscall_trap :: "unit Machine \<Rightarrow> unit Machine res" where
  "syscall_trap m = rbind (DelayedLoad 0 0 (set_reg BadVAddrReg 0 m)) (\<lambda>m1. Inr (m1\<lparr>status := SystemMode\<rparr>))"

definition syscall_return :: "os \<Rightarrow> os" where
  "syscall_return os = os\<lparr>kern := (kern os)\<lparr>machine := (machine (kern os))\<lparr>status := UserMode\<rparr>\<rparr>\<rparr>"

definition user_instruction :: "Junk \<Rightarrow> os \<Rightarrow> os res option" where
  "user_instruction J os =
     obind (Some (ReadMem kernel_abort (reg (mach os) PCReg) 4 (mach os))) (\<lambda>(r, m1).
     case r of
       None \<Rightarrow> Some (Inr (set_mach m1 os))
     | Some raw \<Rightarrow>
         if opCode (Instruction_Decode raw) = OP_SYSCALL
         then obind (Some (syscall_trap m1)) (\<lambda>m2.
              obind (ExceptionHandler J SyscallException (set_mach m2 os)) (\<lambda>os'. Some (Inr (syscall_return os'))))
         else obind (Some (OneInstruction kernel_abort (mach os))) (\<lambda>m2. Some (Inr (set_mach m2 os))))"

section \<open>system.cc\<close>

text \<open>
  The part of \<^verbatim>\<open>Initialize\<close> that sets up the machine, the console, the map of free frames and the file system, when the
  thread system is there (\<open>k\<close>, with the new machine). \<open>s\<close> is the disk, \<open>keys\<close> what will be typed; global arrays start zeroed.
\<close>

definition boot_os :: "Junk \<Rightarrow> (nat \<Rightarrow> 32 word) \<Rightarrow> byte option list \<Rightarrow> bool \<Rightarrow> SynchDisk \<Rightarrow> kernel \<Rightarrow> os res" where
  "boot_os J jmap keys format s k =
     rbind (SynchConsole_new keys) (\<lambda>c.
     rbind (BitMap_new jmap NumPhysPages) (\<lambda>bm.
     rbind (FileSystem_new (j_fresh J) format s) (\<lambda>(fs, s1).
     Inr \<lparr>kern = k, fileSystem = fs, diskState = s1, myBitmap = bm, spaces = Map.empty, sconsole_of = c,
       processes = [currentThread k \<mapsto> \<lparr>pid = 0, descriptores = j_desc J, cont = InUser\<rparr>],
       processIdTable = replicate maxCantProcess None, cantProcesses = 1\<rparr>)))"

section \<open>progtest.cc\<close>

text \<open>\<open>False\<close>: the file could not be opened. Afterwards the machine runs the program.\<close>

definition progtest_StartProcess :: "Junk \<Rightarrow> byte list \<Rightarrow> os \<Rightarrow> (bool \<times> os) res" where
  "progtest_StartProcess J filename os =
     rbind (FileSystem_Open (j_fresh J) (fileSystem os) filename (diskState os)) (\<lambda>(executable, s).
     case executable of
       None \<Rightarrow> Inr (False, os\<lparr>diskState := s\<rparr>)
     | Some f \<Rightarrow>
         let a = next_id (kern os) in
         rbind (AddrSpace_new (j_byte J) f (mainMemory (machine (kern os))) (myBitmap os) s) (\<lambda>(sp, mem, bm, s1).
         rbind (InitRegisters sp ((machine (kern os))\<lparr>mainMemory := mem\<rparr>)) (\<lambda>m.
         let k = upd_thread (current os) (\<lambda>th. th\<lparr>space := Some a\<rparr>) ((kern os)\<lparr>machine := m, next_id := Suc a\<rparr>) in
         Inr (True, os\<lparr>kern := AddrSpace_RestoreState a k, diskState := s1, myBitmap := bm, spaces := (spaces os)(a \<mapsto> sp)\<rparr>))))"

section \<open>Instructions touch the program's own frames only\<close>

definition exec_tame :: "'k Machine \<Rightarrow> 'k outcome \<Rightarrow> bool" where
  "exec_tame m r \<longleftrightarrow> (\<forall>m' x. r = Inr (m', x) \<longrightarrow> tame m m')"

lemma tame_set_reg [simp]: "tame m (set_reg i v m') = tame m m'"
  by (simp add: tame_def table_frames_def set_reg_def)

lemma break_tame: "tame m m' \<Longrightarrow> exec_tame m (break_with pc m')"
  by (simp add: exec_tame_def break_with_def)

lemma trap_tame: "exec_tame m (trap kernel_abort e bad m)"
  by (simp add: exec_tame_def trap_def rbind_eq_Inr)

lemma ASSERT_tame: "(b \<Longrightarrow> exec_tame m r) \<Longrightarrow> exec_tame m (ASSERT b r)"
  by (cases b) (simp_all add: exec_tame_def)

lemma fail_tame: "exec_tame m (Inl e)"
  by (simp add: exec_tame_def)

lemma if_tame: "(b \<Longrightarrow> exec_tame m r) \<Longrightarrow> (\<not> b \<Longrightarrow> exec_tame m r') \<Longrightarrow> exec_tame m (if b then r else r')"
  by simp

lemma load_tame:
  "exec_tame m (rbind (ReadMem kernel_abort va sz m) (\<lambda>(r, m1). case r of
     None \<Rightarrow> Inr (m1, None) | Some v \<Rightarrow> Inr (m1, Some (pc, k, f m1 v))))"
  using ReadMem_tame [of va sz m] by (fastforce simp: exec_tame_def rbind_eq_Inr split: option.splits)

lemma store_tame:
  "exec_tame m (rbind (WriteMem kernel_abort va sz v m) (\<lambda>(ok, m1). if ok then break_with pc m1 else Inr (m1, None)))"
  using WriteMem_tame [of va sz v m] by (fastforce simp: exec_tame_def rbind_eq_Inr break_with_def split: if_splits)

lemma partial_store_tame:
  "exec_tame m (rbind (ReadMem kernel_abort va 4 m) (\<lambda>(r, m1). case r of None \<Rightarrow> Inr (m1, None)
     | Some v \<Rightarrow> rbind (WriteMem kernel_abort vb 4 (f m1 v) m1) (\<lambda>(ok, m2).
         if ok then break_with pc m2 else Inr (m2, None))))"
  unfolding exec_tame_def
proof (intro allI impI)
  fix m' x
  assume "rbind (ReadMem kernel_abort va 4 m) (\<lambda>(r, m1). case r of None \<Rightarrow> Inr (m1, None)
     | Some v \<Rightarrow> rbind (WriteMem kernel_abort vb 4 (f m1 v) m1) (\<lambda>(ok, m2).
         if ok then break_with pc m2 else Inr (m2, None))) = Inr (m', x)"
  then obtain r m1 where r: "ReadMem kernel_abort va 4 m = Inr (r, m1)" and
    w: "(case r of None \<Rightarrow> Inr (m1, None) | Some v \<Rightarrow> rbind (WriteMem kernel_abort vb 4 (f m1 v) m1) (\<lambda>(ok, m2).
         if ok then break_with pc m2 else Inr (m2, None))) = Inr (m', x)" by (auto simp: rbind_eq_Inr)
  have "tame m1 m'"
    using w store_tame [of m1 vb 4 _ pc] by (cases r) (auto simp: exec_tame_def)
  then show "tame m m'" using ReadMem_tame [OF r] tame_trans by blast
qed

lemmas exec_tame_intros = break_tame trap_tame ASSERT_tame fail_tame if_tame load_tame store_tame partial_store_tame

lemma exec_syscall_res_tame: "exec_tame m (exec_syscall_res kernel_abort i pc m)"
  unfolding exec_syscall_res_def Let_def by (cases "opCode i") (simp_all add: exec_tame_intros)

lemma exec_sub_swr_tame: "exec_tame m (exec_sub_swr kernel_abort i pc m)"
  unfolding exec_sub_swr_def Let_def
  by (cases "opCode i") (simp_all only: OpCode.case exec_syscall_res_tame, (intro exec_tame_intros; simp)+)

lemma exec_sb_srlv_tame: "exec_tame m (exec_sb_srlv kernel_abort i pc m)"
  unfolding exec_sb_srlv_def Let_def
  by (cases "opCode i") (simp_all only: OpCode.case exec_sub_swr_tame, (intro exec_tame_intros; simp)+)

lemma exec_mfhi_ori_tame: "exec_tame m (exec_mfhi_ori kernel_abort i pc m)"
  unfolding exec_mfhi_ori_def Let_def
  by (cases "opCode i") (simp_all only: OpCode.case exec_sb_srlv_tame, (intro exec_tame_intros; simp split: prod.split)+)

lemma exec_lwl_lwr_tame: "exec_tame m (exec_lwl_lwr kernel_abort i pc m)"
  unfolding exec_lwl_lwr_def Let_def
  by (cases "opCode i") (simp_all only: OpCode.case exec_mfhi_ori_tame, (intro exec_tame_intros; simp)+)

lemma exec_lb_lw_tame: "exec_tame m (exec_lb_lw kernel_abort i pc m)"
  unfolding exec_lb_lw_def Let_def
  by (cases "opCode i") (simp_all only: OpCode.case exec_lwl_lwr_tame, (intro exec_tame_intros; simp)+)

lemma exec_div_jr_tame: "exec_tame m (exec_div_jr kernel_abort i pc m)"
  unfolding exec_div_jr_def Let_def
  by (cases "opCode i") (simp_all only: OpCode.case exec_lb_lw_tame, (intro exec_tame_intros; simp)+)

lemma exec_add_bne_tame: "exec_tame m (exec_add_bne kernel_abort i pc m)"
  unfolding exec_add_bne_def Let_def
  by (cases "opCode i") (simp_all only: OpCode.case exec_div_jr_tame, (intro exec_tame_intros; simp)+)

lemma DelayedLoad_tame: "DelayedLoad n v m = Inr m' \<Longrightarrow> tame m m'"
  by (auto simp: DelayedLoad_def rbind_eq_Inr tame_def table_frames_def set_reg_def)

lemma OneInstruction_tame:
  assumes "OneInstruction kernel_abort m = Inr m'"
  shows "tame m m'"
proof -
  obtain r m1 where r: "ReadMem kernel_abort (reg m PCReg) 4 m = Inr (r, m1)" using assms by (auto simp: OneInstruction_def rbind_eq_Inr)
  note R = ReadMem_tame [OF r]
  show ?thesis
  proof (cases r)
    case None
    then show ?thesis using assms r R by (simp add: OneInstruction_def)
  next
    case (Some raw)
    let ?i = "Instruction_Decode raw"
    obtain m2 st where e: "exec_add_bne kernel_abort ?i (reg m1 NextPCReg + 4) m1 = Inr (m2, st)"
      using assms r Some by (auto simp: OneInstruction_def rbind_eq_Inr)
    then have T: "tame m m2" using exec_add_bne_tame [of m1 ?i] R tame_trans unfolding exec_tame_def by blast
    show ?thesis
    proof (cases st)
      case None
      then show ?thesis using assms r Some e T by (simp add: OneInstruction_def)
    next
      case st: (Some x)
      obtain pc n v where x: "x = (pc, n, v)" by (cases x)
      obtain m3 where "DelayedLoad n v m2 = Inr m3" "tame m m' = tame m m3"
        using assms r Some e st x by (auto simp: OneInstruction_def rbind_eq_Inr Let_def)
      then show ?thesis using DelayedLoad_tame T tame_trans by blast
    qed
  qed
qed

end
