(* ===== verification/Program_Start.thy ===== *)
theory Program_Start
  imports User_Run FileSys_Spec
begin

text \<open>
  Starting a program end to end: the file system finds the executable, the address space loads it into free frames,
  and the machine is left with the registers and the memory that the program expects.
\<close>

lemma FileSystem_Open_bytes:
  assumes J: "fresh_ok J" and inv: "fs_inv fs s" and b: "fs_files (sd_sector s) (cstr 9 nm) = Some b"
  obtains f s' where "FileSystem_Open J fs nm s = Inr (Some f, s')" "fs_inv fs s'" "sd_ok s'" "sd_sector s' = sd_sector s"
    "file_ok (hdr f)" "file_bytes (hdr f) (sd_sector s') = b"
proof -
  let ?secs = "sd_sector s"
  obtain x where x: "fs_names ?secs (cstr 9 nm) = Some x" "b = bytes_at ?secs x" using b by (auto simp: fs_files_def)
  let ?f = "\<lparr>hdr = hdr_at ?secs x, seekPosition = 0\<rparr>"
  obtain s' where s': "FileSystem_Open J fs nm s = Inr (Some ?f, s')" "fs_inv fs s'" "sd_sector s' = ?secs"
    using FileSystem_Open_correct [OF inv J refl, of nm] x(1) by auto
  have "file_ok (hdr ?f)" using inv fs_wf_file(1) [OF _ x(1)] by (auto simp: fs_inv_def)
  then show thesis using that [OF s'(1,2) _ s'(3)] s' x(2) by (simp add: fs_inv_def bytes_at_def)
qed

lemma clear_regs_result:
  "length (registers m) = 40 \<Longrightarrow> i + n \<le> 40 \<Longrightarrow>
    clear_regs i n m = Inr (m\<lparr>registers := take i (registers m) @ replicate n 0 @ drop (i + n) (registers m)\<rparr>)"
proof (induction n arbitrary: i m)
  case (Suc n)
  have i: "i < length (registers m)" using Suc.prems by simp
  have "WriteRegister (int i) 0 m = Inr (m\<lparr>registers := (registers m)[i := 0]\<rparr>)"
    using Suc.prems by (simp add: WriteRegister_def NumTotalRegs_def)
  then show ?case using Suc.IH [of "m\<lparr>registers := (registers m)[i := 0]\<rparr>" "Suc i"] Suc.prems i
    by (simp add: take_Suc_conv_app_nth)
qed simp

lemma InitRegisters_result:
  assumes "length (registers m) = 40"
  obtains rv where "InitRegisters sp m = Inr (m\<lparr>registers := rv\<rparr>)" "length rv = 40" "rv ! PCReg = 0" "rv ! NextPCReg = 4"
    "rv ! StackReg = numPages sp * 128 - 16"
proof -
  have "clear_regs 0 40 m = Inr (m\<lparr>registers := replicate 40 0\<rparr>)" using clear_regs_result [of m 0 40] assms by simp
  then show thesis
    using that [of "(replicate 40 0)[PCReg := 0, NextPCReg := 4, StackReg := numPages sp * 128 - 16]"]
    by (simp add: InitRegisters_def NumTotalRegs_def WriteRegister_def machine_consts PCReg_def NextPCReg_def StackReg_def nth_list_update)
qed

lemma user_byte_fields:
  assumes "tlb m' = tlb m" and "pageTable m' = pageTable m" and "mainMemory m' = mainMemory m"
  shows "user_byte m' = user_byte m"
proof -
  have "find_entry v m' = find_entry v m" "entries m' = entries m" for v unfolding find_entry_def entries_def assms by (rule refl)+
  then show ?thesis using assms by (simp add: fun_eq_iff user_byte_def phys_def split: sum.split)
qed

text \<open>The state in which the program starts.\<close>

definition program_state :: "AddrSpace \<Rightarrow> byte list \<Rightarrow> 32 word list \<Rightarrow> BitMap \<Rightarrow> SynchDisk \<Rightarrow> os \<Rightarrow> os" where
  "program_state sp mem rv bm s os =
     (let a = next_id (kern os); m = (machine (kern os))\<lparr>mainMemory := mem, registers := rv\<rparr>;
          k = upd_thread (current os) (\<lambda>th. th\<lparr>space := Some a\<rparr>) ((kern os)\<lparr>machine := m, next_id := Suc a\<rparr>) in
      os\<lparr>kern := AddrSpace_RestoreState a k, diskState := s, myBitmap := bm, spaces := (spaces os)(a \<mapsto> sp)\<rparr>)"

lemma start_program:
  assumes J: "fresh_ok (j_fresh J)" and fs: "fs_inv (fileSystem os) (diskState os)"
    and f: "fs_files (sd_sector (diskState os)) (cstr 9 nm) = Some file" "40 \<le> length file"
    and h: "h = noff_of (take 40 file)" "linked h" "pages_meet h" and a: "a = unat (inFileAddr (code h))"
    and bm: "bm_wf (myBitmap os)" "numBits (myBitmap os) = 128" and room: "program_pages h \<le> card ({0..<128} - marked (myBitmap os))"
    and m: "length (mainMemory (machine (kern os))) = 16384" "length (registers (machine (kern os))) = 40" "tlb (machine (kern os)) = None"
  obtains sp mem rv bm' s where "progtest_StartProcess J nm os = Inr (True, program_state sp mem rv bm' s os)"
    "length rv = 40" "rv ! PCReg = 0" "rv ! NextPCReg = 4" "unat (rv ! StackReg) = 128 * program_pages h - 16"
    "length (as_pageTable sp) = program_pages h" "marked bm' = marked (myBitmap os) \<union> physicalPage ` set (as_pageTable sp)"
    "fs_inv (fileSystem os) s" "fs_files (sd_sector s) = fs_files (sd_sector (diskState os))"
    "\<forall>k < 128 * program_pages h. user_byte (mach (program_state sp mem rv bm' s os)) (of_nat k) =
         Some (if k < 128 * image_pages h \<and> a + k < length file then file ! (a + k) else 0)"
proof -
  obtain e s where o: "FileSystem_Open (j_fresh J) (fileSystem os) nm (diskState os) = Inr (Some e, s)" "fs_inv (fileSystem os) s" "sd_ok s"
    "sd_sector s = sd_sector (diskState os)" "file_ok (hdr e)" "file_bytes (hdr e) (sd_sector s) = file"
    using FileSystem_Open_bytes [OF J fs f(1)] by metis
  obtain sp mem bm' s1 where n: "AddrSpace_new (j_byte J) e (mainMemory (machine (kern os))) (myBitmap os) s = Inr (sp, mem, bm', s1)"
    "unat (numPages sp) = program_pages h" "sd_sector s1 = sd_sector s" "sd_ok s1"
    "\<forall>k < 128 * program_pages h. user_byte (RestoreState sp ((machine (kern os))\<lparr>mainMemory := mem\<rparr>)) (of_nat k) =
         Some (if k < 128 * image_pages h \<and> a + k < length file then file ! (a + k) else 0)"
    using load_program [OF o(3,5) o(6) [symmetric] f(2) h a bm room m(1,3), of "j_byte J"] by metis
  let ?m = "(machine (kern os))\<lparr>mainMemory := mem\<rparr>"
  obtain rv where rv: "InitRegisters sp ?m = Inr (?m\<lparr>registers := rv\<rparr>)" "length rv = 40" "rv ! PCReg = 0" "rv ! NextPCReg = 4"
    "rv ! StackReg = numPages sp * 128 - 16" using InitRegisters_result [of ?m sp] m(2) by auto
  let ?os = "program_state sp mem rv bm' s1 os"
  have P: "progtest_StartProcess J nm os = Inr (True, ?os)"
    using o(1) n(1) rv(1) by (simp add: progtest_StartProcess_def Let_def program_state_def)
  have U: "user_byte (mach ?os) = user_byte (RestoreState sp ?m)"
    by (rule user_byte_fields) (simp_all add: mach_def program_state_def Let_def AddrSpace_RestoreState_def RestoreState_def)
  have "8 \<le> program_pages h" "program_pages h \<le> 128"
  proof -
    show "8 \<le> program_pages h" by (simp add: program_pages_def)
    have "card ({0..<128} - marked (myBitmap os)) \<le> card {0..<128 :: int}" by (rule card_mono) auto
    then show "program_pages h \<le> 128" using room by simp
  qed
  then have st: "unat (rv ! StackReg) = 128 * program_pages h - 16"
    using n(2) rv(5) by (simp add: unat_sub word_le_nat_alt unat_mult_lem [THEN iffD1])
  have "fs_inv (fileSystem os) s1" using o(2) n(3,4) by (simp add: fs_inv_def)
  moreover have "length (as_pageTable sp) = program_pages h" "marked bm' = marked (myBitmap os) \<union> physicalPage ` set (as_pageTable sp)"
    using AddrSpace_new_frames [OF n(1) bm m(1)] n(2) by simp_all
  ultimately show thesis using that [OF P rv(2-4) st] n(3,5) o(4) U by simp
qed

text \<open>
  C16. The routine that starts the first program, from the name of a file to the first instruction. The file system is
  well formed and holds under this name a program that the linker laid out (\<open>linked\<close>: the code at address 0, the data right behind
  it in memory and in the file, the sizes within the memory); its code does not end on a page boundary or its data is at most one page long
  (\<open>pages_meet\<close>; \<open>AddrSpace_shifts_data\<close> is about the other programs, which are loaded wrongly); enough frames are free.
  Then the file is found and loaded; the program sees its code and data from address 0 on and zeros behind the pages that were read, the
  program counter is 0 and the stack pointer 16 bytes below the end of its memory; no file has changed.
\<close>

theorem StartProcess_runs:
  assumes J: "fresh_ok (j_fresh J)" and fs: "fs_inv (fileSystem os) (diskState os)"
    and f: "fs_files (sd_sector (diskState os)) (cstr 9 nm) = Some file" "40 \<le> length file"
    and h: "h = noff_of (take 40 file)" "linked h" "pages_meet h" and a: "a = unat (inFileAddr (code h))"
    and bm: "bm_wf (myBitmap os)" "numBits (myBitmap os) = 128" and room: "program_pages h \<le> card ({0..<128} - marked (myBitmap os))"
    and m: "length (mainMemory (machine (kern os))) = 16384" "length (registers (machine (kern os))) = 40" "tlb (machine (kern os)) = None"
  shows "\<exists>os'. progtest_StartProcess J nm os = Inr (True, os')
    \<and> (\<forall>k < 128 * program_pages h. user_byte (mach os') (of_nat k) =
         Some (if k < 128 * image_pages h \<and> a + k < length file then file ! (a + k) else 0))
    \<and> reg (mach os') PCReg = 0 \<and> reg (mach os') NextPCReg = 4 \<and> unat (reg (mach os') StackReg) = 128 * program_pages h - 16
    \<and> fs_files (sd_sector (diskState os')) = fs_files (sd_sector (diskState os))"
proof -
  obtain sp mem rv bm' s where r: "progtest_StartProcess J nm os = Inr (True, program_state sp mem rv bm' s os)"
    "rv ! PCReg = 0" "rv ! NextPCReg = 4" "unat (rv ! StackReg) = 128 * program_pages h - 16"
    "fs_files (sd_sector s) = fs_files (sd_sector (diskState os))"
    "\<forall>k < 128 * program_pages h. user_byte (mach (program_state sp mem rv bm' s os)) (of_nat k) =
         Some (if k < 128 * image_pages h \<and> a + k < length file then file ! (a + k) else 0)"
    using start_program [OF assms] by metis
  moreover have "registers (mach (program_state sp mem rv bm' s os)) = rv" "diskState (program_state sp mem rv bm' s os) = s"
    by (simp_all add: mach_def program_state_def Let_def AddrSpace_RestoreState_def)
  ultimately show ?thesis by (intro exI [of _ "program_state sp mem rv bm' s os"]) (simp add: reg_def)
qed

text \<open>A file system that holds a given file under the name \<open>[97]\<close>, and a machine that has started.\<close>

lemma program_file_on_disk:
  assumes len: "int (length file) \<le> MaxFileSize"
  obtains fs s where "fs_inv fs s" "fs_files (sd_sector s) (cstr 9 [97]) = Some file"
proof -
  let ?n = "int (length file)"
  obtain fs s where f: "fs_inv fs s" "fs_files (sd_sector s) = Map.empty" "card (free_sectors (sd_sector s)) = 1019"
    using formatted_sample by metis
  have c: "(length file + 127) div 128 \<le> 30" using len by (simp add: MaxFileSize_def SectorSize_def NumDirect_def)
  have "file_cost ?n = int ((length file + 127) div 128) + 1" by (simp add: file_cost_def divRoundUp_sectors zdiv_int)
  then have "file_cost ?n \<le> int (card (free_sectors (sd_sector s)))" using c unfolding f(3) by linarith
  then obtain s0 b where s0: "fs_inv fs s0" "int (length b) = ?n" "fs_files (sd_sector s0) (cstr 9 [97]) = Some b"
    using Create_contract [OF sample_fresh_ok f(1) _ _ _ len, of "[97]"] f(2) by auto
  obtain r s1 where s1: "fs_inv fs s1" "spec_step (fs_abs s0) (OpWrite [97] file 0) r (fs_abs s1)"
    using write_simulation [OF sample_fresh_ok s0(1), of 0 "[97]" "file"] by auto
  have "fs_files (sd_sector s1) (cstr 9 [97]) = Some (overwrite b 0 file)"
    using s1(2) s0(3) by (auto simp: spec_step_Write fs_abs_def)
  moreover have "overwrite b 0 file = file" using s0(2) patch_whole [of "file" b] by (simp add: overwrite_def)
  ultimately show thesis using that s1(1) by simp
qed

lemma program_on_disk:
  obtains fs s where "fs_inv fs s" "fs_files (sd_sector s) (cstr 9 [97]) = Some sample_program"
  by (rule program_file_on_disk [of sample_program]) (simp_all add: length_sample_program MaxFileSize_def SectorSize_def)

definition sample_junk :: Junk where
  "sample_junk = \<lparr>j_fresh = sample_fresh, j_byte = \<lambda>_. 9, j_word = 77, j_regs = replicate 40 5, j_desc = replicate 100 Null\<rparr>"

definition sample_os :: "FileSystem \<Rightarrow> SynchDisk \<Rightarrow> sconsole \<Rightarrow> kernel \<Rightarrow> os" where
  "sample_os fs s c k = \<lparr>kern = k, fileSystem = fs, diskState = s, myBitmap = free_frames, spaces = Map.empty, sconsole_of = c,
     processes = [0 \<mapsto> \<lparr>pid = 0, descriptores = replicate 100 Null, cont = InUser\<rparr>], processIdTable = replicate 100 None, cantProcesses = 1\<rparr>"

lemma sample_console: obtains c where "SynchConsole_new [] = Inr c"
proof -
  have "case SynchConsole_new [] of Inl _ \<Rightarrow> False | Inr _ \<Rightarrow> True" by code_simp
  then show thesis using that by (auto split: sum.splits)
qed

theorem StartProcess_runs_witness:
  "\<exists>os os'. fs_files (sd_sector (diskState os)) (cstr 9 [97]) = Some sample_program
    \<and> progtest_StartProcess sample_junk [97] os = Inr (True, os') \<and> user_byte (mach os') 159 = Some 160 \<and> unat (reg (mach os') StackReg) = 1264"
proof -
  obtain fs s where f: "fs_inv fs s" "fs_files (sd_sector s) (cstr 9 [97]) = Some sample_program" by (rule program_on_disk)
  obtain c where "SynchConsole_new [] = Inr c" by (rule sample_console)
  define os where "os = sample_os fs s c sample_kernel"
  have J: "fresh_ok (j_fresh sample_junk)" using sample_fresh_ok by (simp add: sample_junk_def)
  have o: "fs_inv (fileSystem os) (diskState os)" "fs_files (sd_sector (diskState os)) (cstr 9 [97]) = Some sample_program"
    "bm_wf (myBitmap os)" "numBits (myBitmap os) = 128" "program_pages (noff_of (take 40 sample_program)) \<le> card ({0..<128} - marked (myBitmap os))"
    "length (mainMemory (machine (kern os))) = 16384" "length (registers (machine (kern os))) = 40" "tlb (machine (kern os)) = None"
    using f free_own_frames sample_room by (simp_all add: os_def sample_os_def sample_kernel_def Machine_new_def machine_consts NumTotalRegs_def)
  note sl = sample_linked [OF refl]
  have a: "40 = unat (inFileAddr (code (noff_of (take 40 sample_program))))" by (simp add: sl)
  have len: "40 \<le> length sample_program" by (simp add: length_sample_program)
  from StartProcess_runs [OF J o(1,2) len refl sl(1,2) a o(3-8), unfolded sl(4,5) length_sample_program] obtain os' where
    r: "progtest_StartProcess sample_junk [97] os = Inr (True, os')" "unat (reg (mach os') StackReg) = 128 * 10 - 16"
    "\<forall>k < 128 * 10. user_byte (mach os') (of_nat k) = Some (if k < 128 * 2 \<and> 40 + k < 200 then sample_program ! (40 + k) else 0)" by blast
  have "sample_program ! 199 = 160" by (simp add: sample_program_def nth_append)
  then show ?thesis using o(2) r(1,2) r(3) [rule_format, of 159] by (intro exI [of _ os] exI [of _ os']) simp
qed

end
