(* ===== verification/Process_Isolation.thy ===== *)
theory Process_Isolation
  imports Program_Start Kernel_Memory
begin

text \<open>
  What keeps user programs apart: in every state that the programs, their system calls and the thread system
  can lead to, two address spaces have no frame in common, and the map of free frames records exactly the
  frames of the spaces that exist. It follows that nothing that happens while one program runs changes the memory that
  another one sees.
\<close>

section \<open>The invariant\<close>

text \<open>The frames and the number of pages of every space.\<close>

definition space_frames :: "os \<Rightarrow> nat \<rightharpoonup> int list \<times> 32 word" where
  "space_frames os a = map_option (\<lambda>sp. (map physicalPage (as_pageTable sp), numPages sp)) (spaces os a)"

definition frames_inv :: "BitMap \<Rightarrow> (nat \<rightharpoonup> int list \<times> 32 word) \<Rightarrow> nat \<Rightarrow> bool" where
  "frames_inv bm F n \<longleftrightarrow> bm_wf bm \<and> numBits bm = 128
     \<and> (\<forall>a ps np. F a = Some (ps, np) \<longrightarrow> a < n \<and> distinct ps \<and> set ps \<subseteq> {0..<128} \<and> length ps = unat np)
     \<and> (\<forall>a b ps qs np nq. F a = Some (ps, np) \<longrightarrow> F b = Some (qs, nq) \<longrightarrow> a \<noteq> b \<longrightarrow> set ps \<inter> set qs = {})
     \<and> marked bm = (\<Union>(ps, np) \<in> ran F. set ps)"

abbreviation memory :: "os \<Rightarrow> byte list" where "memory os \<equiv> mainMemory (machine (kern os))"

definition spaces_ok :: "os \<Rightarrow> bool" where
  "spaces_ok os \<longleftrightarrow> frames_inv (myBitmap os) (space_frames os) (next_id (kern os)) \<and> length (memory os) = 16384
     \<and> tlb (machine (kern os)) = None"

lemma frames_inv_mono: "frames_inv bm F n \<Longrightarrow> n \<le> n' \<Longrightarrow> frames_inv bm F n'"
  unfolding frames_inv_def by (meson order_less_le_trans)

text \<open>A new space with free frames, and the removal of a space.\<close>

lemma frames_inv_add:
  assumes F: "frames_inv bm F n" and new: "n \<le> a" "a < n'" and ps: "distinct ps" "length ps = unat np" "set ps \<subseteq> {0..<128} - marked bm"
    and bm': "bm_wf bm'" "numBits bm' = 128" "marked bm' = marked bm \<union> set ps"
  shows "frames_inv bm' (F(a \<mapsto> (ps, np))) n'"
proof -
  have dis: "set ps \<inter> set qs = {}" if "F b = Some (qs, nq)" for b qs nq
    using F ps(3) that unfolding frames_inv_def ran_def by blast
  have fresh: "F a = None"
  proof (rule ccontr)
    assume "F a \<noteq> None"
    then obtain qs nq where "F a = Some (qs, nq)" by auto
    then have "a < n" using F unfolding frames_inv_def by blast
    then show False using new(1) by simp
  qed
  have "ran (F(a \<mapsto> (ps, np))) = insert (ps, np) (ran F)" using fresh by (rule ran_map_upd)
  then have mk: "marked bm' = (\<Union>(ps, np) \<in> ran (F(a \<mapsto> (ps, np))). set ps)" using bm'(3) F by (auto simp: frames_inv_def)
  have each: "b < n' \<and> distinct qs \<and> set qs \<subseteq> {0..<128} \<and> length qs = unat nq" if "(F(a \<mapsto> (ps, np))) b = Some (qs, nq)" for b qs nq
  proof (cases "b = a")
    case True
    then show ?thesis using that ps new by auto
  next
    case False
    then have "F b = Some (qs, nq)" using that by simp
    then have "b < n \<and> distinct qs \<and> set qs \<subseteq> {0..<128} \<and> length qs = unat nq" using F unfolding frames_inv_def by blast
    then show ?thesis using new by simp
  qed
  have pair: "set qs \<inter> set rs = {}" if "(F(a \<mapsto> (ps, np))) b = Some (qs, nq)" "(F(a \<mapsto> (ps, np))) c = Some (rs, nr)" "b \<noteq> c" for b c qs rs nq nr
  proof (cases "b = a \<or> c = a")
    case True
    then show ?thesis using that dis by (auto split: if_splits)
  next
    case False
    then have "F b = Some (qs, nq)" "F c = Some (rs, nr)" using that by simp_all
    then show ?thesis using F that(3) unfolding frames_inv_def by blast
  qed
  show ?thesis unfolding frames_inv_def using bm'(1,2) each pair mk by blast
qed

lemma frames_inv_remove:
  assumes F: "frames_inv bm F n" and a: "F a = Some (ps, np)" and bm': "bm_wf bm'" "numBits bm' = 128" "marked bm' = marked bm - set ps"
  shows "frames_inv bm' (F(a := None)) n"
proof -
  have dis: "set ps \<inter> set qs = {}" if "F b = Some (qs, nq)" "b \<noteq> a" for b qs nq
    using F a that unfolding frames_inv_def by blast
  have "(\<Union>(ps, np) \<in> ran (F(a := None)). set ps) = (\<Union>(ps, np) \<in> ran F. set ps) - set ps" (is "?L = ?R")
  proof
    show "?L \<subseteq> ?R" using dis by (fastforce simp: ran_def split: if_splits)
    show "?R \<subseteq> ?L"
    proof
      fix x assume "x \<in> ?R"
      then obtain b qs nq where b: "F b = Some (qs, nq)" "x \<in> set qs" "x \<notin> set ps" by (auto simp: ran_def)
      then have "b \<noteq> a" using a by auto
      then have "(qs, nq) \<in> ran (F(a := None))" using b(1) by (auto simp: ran_def)
      then show "x \<in> ?L" using b(2) by auto
    qed
  qed
  then have mk: "marked bm' = (\<Union>(ps, np) \<in> ran (F(a := None)). set ps)" using F bm'(3) by (simp add: frames_inv_def)
  have sub: "(F(a := None)) b = Some x \<Longrightarrow> F b = Some x" for b x by (simp split: if_splits)
  have each: "b < n \<and> distinct qs \<and> set qs \<subseteq> {0..<128} \<and> length qs = unat nq" if "(F(a := None)) b = Some (qs, nq)" for b qs nq
    using F sub [OF that] unfolding frames_inv_def by blast
  have pair: "set qs \<inter> set rs = {}" if "(F(a := None)) b = Some (qs, nq)" "(F(a := None)) c = Some (rs, nr)" "b \<noteq> c" for b c qs rs nq nr
    using F sub [OF that(1)] sub [OF that(2)] that(3) unfolding frames_inv_def by blast
  show ?thesis unfolding frames_inv_def using bm'(1,2) each pair mk by blast
qed

section \<open>Kinds of steps\<close>

text \<open>Steps that touch no memory and no space, and steps that write to the frames of the installed program only.\<close>

definition quiet_os :: "os \<Rightarrow> os \<Rightarrow> bool" where
  "quiet_os os os' \<longleftrightarrow> myBitmap os' = myBitmap os \<and> space_frames os' = space_frames os \<and> mem_kept (kern os) (kern os')"

definition keeps :: "os \<Rightarrow> os \<Rightarrow> bool" where
  "keeps os os' \<longleftrightarrow> myBitmap os' = myBitmap os \<and> space_frames os' = space_frames os \<and> next_id (kern os) \<le> next_id (kern os')
     \<and> pageTablePtr (kern os') = pageTablePtr (kern os) \<and> tame (mach os) (mach os')"

text \<open>
  What a step of the system does to the spaces: none that existed gets other frames, and the frames of those that remain
  keep their contents, unless they belong to the program that is installed.
\<close>

definition moves :: "os \<Rightarrow> os \<Rightarrow> bool" where
  "moves os os' \<longleftrightarrow> spaces_ok os' \<and> next_id (kern os) \<le> next_id (kern os')
     \<and> (\<forall>a < next_id (kern os). space_frames os' a = space_frames os a \<or> space_frames os' a = None)
     \<and> (\<forall>a < next_id (kern os). \<forall>ps np. space_frames os' a = Some (ps, np) \<longrightarrow> pageTablePtr (kern os) \<noteq> Some a \<longrightarrow>
          (\<forall>q < 16384. int (q div 128) \<in> set ps \<longrightarrow> memory os' ! q = memory os ! q))"

lemma quiet_os_refl [simp]: "quiet_os os os"
  by (simp add: quiet_os_def)

lemma keeps_refl [simp]: "keeps os os"
  by (simp add: keeps_def)

lemma quiet_os_trans [trans]: "quiet_os os os1 \<Longrightarrow> quiet_os os1 os2 \<Longrightarrow> quiet_os os os2"
  using mem_kept_trans by (auto simp: quiet_os_def)

lemma keeps_trans [trans]: "keeps os os1 \<Longrightarrow> keeps os1 os2 \<Longrightarrow> keeps os os2"
  using tame_trans by (fastforce simp: keeps_def)

lemma mach_simps [simp]: "mainMemory (mach os) = memory os" "tlb (mach os) = tlb (machine (kern os))"
  by (simp_all add: mach_def)

lemma mach_frames: "table_frames (mach os) = Option.bind (pageTablePtr (kern os)) (\<lambda>p. map_option fst (space_frames os p))"
  by (cases "pageTablePtr (kern os)") (auto simp: table_frames_def mach_def space_frames_def option.map_comp comp_def)

lemma quiet_keeps: "quiet_os os os' \<Longrightarrow> pageTablePtr (kern os') = pageTablePtr (kern os) \<Longrightarrow> keeps os os'"
  by (simp add: quiet_os_def keeps_def mem_kept_def tame_def mach_frames)

lemma quiet_moves:
  assumes "spaces_ok os" and "quiet_os os os'"
  shows "moves os os'"
  using assms frames_inv_mono by (auto simp: moves_def quiet_os_def spaces_ok_def mem_kept_def)

lemma keeps_ok: "spaces_ok os \<Longrightarrow> keeps os os' \<Longrightarrow> spaces_ok os'"
  using frames_inv_mono by (auto simp: keeps_def tame_def spaces_ok_def)

lemma installed_frames:
  assumes "spaces_ok os" and "pageTablePtr (kern os) \<noteq> Some a" and "space_frames os a = Some (ps, np)" and "x \<in> set ps"
  shows "x \<notin> own_pages (mach os)"
proof
  assume x: "x \<in> own_pages (mach os)"
  then obtain p qs nq where p: "pageTablePtr (kern os) = Some p" "space_frames os p = Some (qs, nq)" "x \<in> (\<lambda>p. uint (word_of_int p :: 32 word)) ` set qs"
    by (auto simp: own_pages_def mach_frames split: option.splits bind_splits)
  have F: "frames_inv (myBitmap os) (space_frames os) (next_id (kern os))" using assms(1) by (simp add: spaces_ok_def)
  then have qs: "set qs \<subseteq> {0..<128}" using p(2) unfolding frames_inv_def by blast
  have "uint (word_of_int y :: 32 word) = y" if "y \<in> set qs" for y
    using that qs by (auto simp: take_bit_int_eq_self unsigned_of_int)
  then have "x \<in> set qs" using p(3) by auto
  moreover have "set ps \<inter> set qs = {}" using F assms(2,3) p(1,2) unfolding frames_inv_def by blast
  ultimately show False using assms(4) by blast
qed

lemma keeps_moves:
  assumes ok: "spaces_ok os" and k: "keeps os os'"
  shows "moves os os'"
  unfolding moves_def
proof (intro conjI allI impI)
  show "spaces_ok os'" using keeps_ok [OF ok k] .
  fix a ps np q
  assume a: "space_frames os' a = Some (ps, np)" "pageTablePtr (kern os) \<noteq> Some a" "q < 16384" "int (q div 128) \<in> set ps"
  have "int (q div 128) \<notin> own_pages (mach os)" using installed_frames [OF ok a(2) _ a(4)] a(1) k by (simp add: keeps_def)
  then show "memory os' ! q = memory os ! q" using k ok a(3) by (simp add: keeps_def tame_def spaces_ok_def)
qed (use k in \<open>auto simp: keeps_def\<close>)

lemma movesD:
  assumes "moves os os'" and "a < next_id (kern os)"
  shows "space_frames os' a = space_frames os a \<or> space_frames os' a = None"
    and "space_frames os' a = Some (ps, np) \<Longrightarrow> pageTablePtr (kern os) \<noteq> Some a \<Longrightarrow> q < 16384 \<Longrightarrow> int (q div 128) \<in> set ps \<Longrightarrow>
      memory os' ! q = memory os ! q"
  using assms by (simp_all add: moves_def)

lemma movesI:
  assumes "spaces_ok os'" and "next_id (kern os) \<le> next_id (kern os')"
    and "\<And>a. a < next_id (kern os) \<Longrightarrow> space_frames os' a = space_frames os a \<or> space_frames os' a = None"
    and "\<And>a ps np q. a < next_id (kern os) \<Longrightarrow> space_frames os' a = Some (ps, np) \<Longrightarrow> pageTablePtr (kern os) \<noteq> Some a \<Longrightarrow>
      q < 16384 \<Longrightarrow> int (q div 128) \<in> set ps \<Longrightarrow> memory os' ! q = memory os ! q"
  shows "moves os os'"
  using assms by (simp add: moves_def)

text \<open>Sequences of steps.\<close>

lemma keeps_then_moves:
  assumes ok: "spaces_ok os" and k: "keeps os os1" and m: "moves os1 os2"
  shows "moves os os2"
proof (rule movesI)
  note K = keeps_moves [OF ok k]
  have n: "next_id (kern os) \<le> next_id (kern os1)" and F: "space_frames os1 = space_frames os" and P: "pageTablePtr (kern os1) = pageTablePtr (kern os)"
    using k by (simp_all add: keeps_def)
  show "spaces_ok os2" "next_id (kern os) \<le> next_id (kern os2)" using m n by (simp_all add: moves_def)
  fix a assume a: "a < next_id (kern os)"
  then have l: "a < next_id (kern os1)" using n by simp
  show f: "space_frames os2 a = space_frames os a \<or> space_frames os2 a = None" using movesD(1) [OF m l] F by simp
  fix ps np q
  assume b: "space_frames os2 a = Some (ps, np)" "pageTablePtr (kern os) \<noteq> Some a" "q < 16384" "int (q div 128) \<in> set ps"
  have "space_frames os1 a = Some (ps, np)" using f b(1) F by simp
  then have "memory os1 ! q = memory os ! q" using movesD(2) [OF K a] b(2-4) by blast
  moreover have "memory os2 ! q = memory os1 ! q" using movesD(2) [OF m l b(1)] b(2-4) P by simp
  ultimately show "memory os2 ! q = memory os ! q" by simp
qed

lemma moves_then_quiet:
  assumes m: "moves os os1" and q: "quiet_os os1 os2"
  shows "moves os os2"
proof -
  have "spaces_ok os2" using quiet_moves [OF _ q] m by (simp add: moves_def)
  then show ?thesis using m q by (simp add: moves_def quiet_os_def mem_kept_def)
qed

section \<open>The parts of the handler\<close>

lemma write_reg_quiet: "write_reg i v os = Inr os' \<Longrightarrow> quiet_os os os' \<and> pageTablePtr (kern os') = pageTablePtr (kern os)"
  by (auto simp: write_reg_def WriteRegister_def rbind_eq_Inr quiet_os_def mem_kept_def space_frames_def fun_eq_iff)

lemma increaseProgramCounter_quiet:
  assumes "increaseProgramCounter os = Inr os'"
  shows "quiet_os os os'"
proof -
  obtain pc os1 npc os2 where st: "write_reg PrevPCReg pc os = Inr os1" "write_reg PCReg npc os1 = Inr os2" "write_reg NextPCReg (npc + 4) os2 = Inr os'"
    using assms by (auto simp: increaseProgramCounter_def rbind_eq_Inr)
  show ?thesis using write_reg_quiet [OF st(1)] write_reg_quiet [OF st(2)] write_reg_quiet [OF st(3)] quiet_os_trans by blast
qed

lemma field_quiet [simp]:
  "quiet_os os (upd_process t f os)" "quiet_os os (put_descriptor i d os)" "quiet_os os (os\<lparr>diskState := s\<rparr>)"
  "quiet_os os (os\<lparr>sconsole_of := c\<rparr>)" "quiet_os os (os\<lparr>processIdTable := tab\<rparr>)" "quiet_os os (os\<lparr>cantProcesses := n\<rparr>)"
  "quiet_os os (Halt_os os)" "quiet_os os (syscall_return os)"
  by (simp_all add: upd_process_def put_descriptor_def quiet_os_def mem_kept_def space_frames_def fun_eq_iff Halt_os_def syscall_return_def)

lemma field_ptr [simp]:
  "pageTablePtr (kern (upd_process t f os)) = pageTablePtr (kern os)" "pageTablePtr (kern (put_descriptor i d os)) = pageTablePtr (kern os)"
  by (simp_all add: upd_process_def put_descriptor_def)

lemma kern_quiet: "mem_kept (kern os) k \<Longrightarrow> quiet_os os (os\<lparr>kern := k\<rparr>)"
  by (simp add: quiet_os_def space_frames_def fun_eq_iff)

lemma set_mach_frames:
  assumes "table_frames m = table_frames (mach os)"
  shows "space_frames (set_mach m os) = space_frames os"
proof
  fix a
  show "space_frames (set_mach m os) a = space_frames os a"
  proof (cases "pageTablePtr (kern os)")
    case None
    then show ?thesis by (simp add: set_mach_def space_frames_def)
  next
    case (Some p)
    show ?thesis
    proof (cases "pageTable m")
      case None
      then show ?thesis using Some by (simp add: set_mach_def space_frames_def)
    next
      case pt: (Some pt)
      have "map_option (map physicalPage) (map_option as_pageTable (spaces os p)) = Some (map physicalPage pt)"
        using assms Some pt by (simp add: table_frames_def mach_def)
      then show ?thesis using Some pt by (auto simp: set_mach_def space_frames_def)
    qed
  qed
qed

lemma set_mach_simps [simp]: "myBitmap (set_mach m os) = myBitmap os" "next_id (kern (set_mach m os)) = next_id (kern os)"
  "pageTablePtr (kern (set_mach m os)) = pageTablePtr (kern os)" "memory (set_mach m os) = mainMemory m" "tlb (machine (kern (set_mach m os))) = tlb m"
  by (simp_all add: set_mach_def)

lemma set_mach_keeps:
  assumes "tame (mach os) m"
  shows "keeps os (set_mach m os)"
proof -
  have F: "space_frames (set_mach m os) = space_frames os" using set_mach_frames assms by (simp add: tame_def)
  then have "table_frames (mach (set_mach m os)) = table_frames (mach os)" by (simp add: mach_frames)
  then show ?thesis using assms F by (simp add: keeps_def tame_def)
qed

lemma AssignId_quiet: "AssignId f os = Inr (i, os') \<Longrightarrow> quiet_os os os' \<and> pageTablePtr (kern os') = pageTablePtr (kern os)"
  by (auto simp: AssignId_def rbind_eq_Inr)

section \<open>Creating and deleting spaces\<close>

lemma space_frames_own:
  assumes "spaces_ok os" and "spaces os a = Some sp"
  shows "own_frames (as_pageTable sp)" "length (as_pageTable sp) = unat (numPages sp)"
proof -
  let ?ps = "map physicalPage (as_pageTable sp)"
  have "space_frames os a = Some (?ps, numPages sp)" using assms(2) by (simp add: space_frames_def)
  then have "distinct ?ps \<and> set ?ps \<subseteq> {0..<128} \<and> length ?ps = unat (numPages sp)" using assms(1) unfolding spaces_ok_def frames_inv_def by blast
  then show "own_frames (as_pageTable sp)" "length (as_pageTable sp) = unat (numPages sp)" by (auto simp: own_frames_def)
qed

lemma delete_space_moves:
  assumes ok: "spaces_ok os" and d: "delete_space t a os = Inr os'"
  shows "moves os os'"
proof -
  obtain sp bm where sp: "spaces os a = Some sp" "AddrSpace_delete sp (myBitmap os) = Inr bm"
    and os': "os' = os\<lparr>myBitmap := bm, spaces := (spaces os)(a := None), kern := upd_thread t (\<lambda>th. th\<lparr>space := None\<rparr>) (kern os)\<rparr>"
    using d by (auto simp: delete_space_def rbind_eq_Inr)
  have F: "frames_inv (myBitmap os) (space_frames os) (next_id (kern os))" using ok by (simp add: spaces_ok_def)
  have bm: "bm_wf (myBitmap os)" "numBits (myBitmap os) = 128" using F by (simp_all add: frames_inv_def)
  obtain bm' where bm': "AddrSpace_delete sp (myBitmap os) = Inr bm'" "bm_wf bm'" "numBits bm' = 128"
    "marked bm' = marked (myBitmap os) - physicalPage ` set (as_pageTable sp)"
    using AddrSpace_delete_frames [OF space_frames_own [OF ok sp(1)] bm] .
  have f: "space_frames os' = (space_frames os)(a := None)" by (simp add: os' space_frames_def fun_eq_iff)
  have "frames_inv bm' ((space_frames os)(a := None)) (next_id (kern os))"
    by (rule frames_inv_remove [OF F _ bm'(2,3), of a "map physicalPage (as_pageTable sp)" "numPages sp"])
      (use sp bm'(4) in \<open>simp_all add: space_frames_def\<close>)
  moreover have "bm' = bm" using sp(2) bm'(1) by simp
  ultimately have "spaces_ok os'" using ok f by (simp add: spaces_ok_def os')
  then show ?thesis by (intro movesI) (auto simp: f, simp_all add: os')
qed

text \<open>A new space under an unused identity.\<close>

lemma new_space_moves:
  assumes ok: "spaces_ok os" and new: "AddrSpace_new junk f (memory os) (myBitmap os) s = Inr (sp, mem, bm, s')"
    and a: "next_id (kern os) \<le> a" "a < next_id (kern os')"
    and os': "spaces os' = (spaces os)(a \<mapsto> sp)" "myBitmap os' = bm" "memory os' = mem" "tlb (machine (kern os')) = None"
  shows "moves os os'"
proof (rule movesI)
  have F: "frames_inv (myBitmap os) (space_frames os) (next_id (kern os))" and len: "length (memory os) = 16384"
    using ok by (simp_all add: spaces_ok_def)
  have bm: "bm_wf (myBitmap os)" "numBits (myBitmap os) = 128" using F by (simp_all add: frames_inv_def)
  note N = AddrSpace_new_frames [OF new bm len]
  let ?ps = "map physicalPage (as_pageTable sp)"
  have f: "space_frames os' = (space_frames os)(a \<mapsto> (?ps, numPages sp))" by (simp add: os' space_frames_def fun_eq_iff)
  have "frames_inv bm ((space_frames os)(a \<mapsto> (?ps, numPages sp))) (next_id (kern os'))"
    by (rule frames_inv_add [OF F a _ _ _ N(4,5)]) (use N in \<open>simp_all add: own_frames_def\<close>)
  then show "spaces_ok os'" using f os' N(7) len by (simp add: spaces_ok_def same_outside_def)
  show "next_id (kern os) \<le> next_id (kern os')" using a by simp
  fix b assume b: "b < next_id (kern os)"
  then show "space_frames os' b = space_frames os b \<or> space_frames os' b = None" using f a by simp
  fix ps np q
  assume q: "space_frames os' b = Some (ps, np)" "q < 16384" "int (q div 128) \<in> set ps"
  then have "space_frames os b = Some (ps, np)" using f a b by simp
  then have "int (q div 128) \<in> marked (myBitmap os)" using F q(3) unfolding frames_inv_def ran_def by blast
  then have "int (q div 128) \<notin> physicalPage ` set (as_pageTable sp)" using N(3) by blast
  then show "memory os' ! q = memory os ! q" using N(7) q(2) len os'(3) by (simp add: same_outside_def)
qed

lemma do_Exec_moves:
  assumes ok: "spaces_ok os" and d: "do_Exec J p f nm os = Inr os'"
  shows "moves os os'"
proof -
  let ?t = "next_id (kern os)"
  define k1 where "k1 = (kern os)\<lparr>threads := (threads (kern os))(?t \<mapsto> Thread_new (c_string nm) (j_regs J)), next_id := Suc (Suc ?t)\<rparr>"
  obtain tab sp mem bm s k3 where new: "AddrSpace_new (j_byte J) f (memory os) (myBitmap os) (diskState os) = Inr (sp, mem, bm, s)"
    and fork: "Thread_Fork ?t False 0 (upd_thread ?t (\<lambda>th. th\<lparr>space := Some (Suc ?t)\<rparr>) (k1\<lparr>machine := (machine k1)\<lparr>mainMemory := mem\<rparr>\<rparr>)) = Inr k3"
    and os': "os' = os\<lparr>kern := k3, diskState := s, myBitmap := bm, spaces := (spaces os)(Suc ?t \<mapsto> sp), processIdTable := tab,
        processes := (processes os)(?t \<mapsto> \<lparr>pid = p, descriptores = j_desc J, cont = StartPoint\<rparr>),
        cantProcesses := cantProcesses os + 1\<rparr>"
    using d by (auto simp: do_Exec_def Let_def rbind_eq_Inr k1_def)
  have "mem_kept (k1\<lparr>machine := (machine k1)\<lparr>mainMemory := mem\<rparr>\<rparr>) k3" using Thread_Fork_mem [OF fork] by (simp add: mem_kept_def)
  then have k3: "Suc (Suc ?t) \<le> next_id k3" "mainMemory (machine k3) = mem" "tlb (machine k3) = None"
    using ok by (simp_all add: mem_kept_def k1_def spaces_ok_def)
  show ?thesis by (rule new_space_moves [OF ok new, of "Suc ?t"]) (use k3 in \<open>simp_all add: os'\<close>)
qed

lemma clear_regs_mem: "clear_regs i n m = Inr m' \<Longrightarrow> mainMemory m' = mainMemory m \<and> tlb m' = tlb m"
  by (induction i n m rule: clear_regs.induct) (auto simp: rbind_eq_Inr WriteRegister_def)

lemma InitRegisters_mem: "InitRegisters sp m = Inr m' \<Longrightarrow> mainMemory m' = mainMemory m \<and> tlb m' = tlb m"
  using clear_regs_mem by (fastforce simp: InitRegisters_def rbind_eq_Inr WriteRegister_def)

lemma progtest_moves:
  assumes ok: "spaces_ok os" and d: "progtest_StartProcess J nm os = Inr (b, os')"
  shows "moves os os'"
proof -
  obtain e s where o: "FileSystem_Open (j_fresh J) (fileSystem os) nm (diskState os) = Inr (e, s)"
    using d by (auto simp: progtest_StartProcess_def rbind_eq_Inr)
  show ?thesis
  proof (cases e)
    case None
    then have "os' = os\<lparr>diskState := s\<rparr>" using d o by (simp add: progtest_StartProcess_def)
    then show ?thesis using quiet_moves [OF ok] by simp
  next
    case (Some f)
    let ?a = "next_id (kern os)"
    obtain sp mem bm s1 m where new: "AddrSpace_new (j_byte J) f (memory os) (myBitmap os) s = Inr (sp, mem, bm, s1)"
      and i: "InitRegisters sp ((machine (kern os))\<lparr>mainMemory := mem\<rparr>) = Inr m"
      and os': "os' = os\<lparr>kern := AddrSpace_RestoreState ?a (upd_thread (current os) (\<lambda>th. th\<lparr>space := Some ?a\<rparr>) ((kern os)\<lparr>machine := m, next_id := Suc ?a\<rparr>)),
        diskState := s1, myBitmap := bm, spaces := (spaces os)(?a \<mapsto> sp)\<rparr>"
      using d o Some by (auto simp: progtest_StartProcess_def rbind_eq_Inr Let_def)
    have "mainMemory m = mem" "tlb m = None" using InitRegisters_mem [OF i] ok by (simp_all add: spaces_ok_def)
    then show ?thesis by (intro new_space_moves [OF ok new, of ?a]) (simp_all add: os' AddrSpace_RestoreState_def)
  qed
qed

section \<open>The system calls\<close>

lemma obind_eq: "obind x f = Some (Inr y) \<longleftrightarrow> (\<exists>a. x = Some (Inr a) \<and> f a = Some (Inr y))"
  by (simp add: obind_def split: option.split sum.split)

lemma tame_then_quiet:
  assumes "spaces_ok os" and "tame (mach os) m" and "quiet_os (set_mach m os) os'"
  shows "moves os os'"
  using moves_then_quiet keeps_moves set_mach_keeps assms by blast

lemma delete_threads_keeps: "delete_threads n p os = Inr os' \<Longrightarrow> keeps os os'"
proof (induction n p os rule: delete_threads.induct)
  case (2 n p os)
  show ?case
  proof (cases p)
    case None
    then show ?thesis using 2 by simp
  next
    case (Some t)
    then obtain k where k: "Thread_delete t (kern os) = Inr k" "delete_threads n p (os\<lparr>kern := k\<rparr>) = Inr os'" using "2.prems" by (auto simp: rbind_eq_Inr)
    have "keeps os (os\<lparr>kern := k\<rparr>)"
      by (rule quiet_keeps [OF kern_quiet]) (use call_mem(3) [OF k(1)] k(1) in \<open>auto simp: Thread_delete_def rbind_eq_Inr\<close>)
    then show ?thesis using "2.IH"(2) [OF Some k(1,2)] keeps_trans by blast
  qed
qed simp

lemma halt_loop_keeps: "halt_loop i n os = Inr os' \<Longrightarrow> keeps os os'"
proof (induction i n os rule: halt_loop.induct)
  case (2 i n os)
  then obtain p os1 os2 tab where st: "aget (processIdTable os) (int i) = Inr p" "delete_threads MAX_OPEN_FILES p os = Inr os1"
    "(if p \<noteq> Some (current os1) \<and> p \<noteq> None then delete_threads 1 p os1 else Inr os1) = Inr os2"
    "aput (processIdTable os2) (int i) None = Inr tab" "halt_loop (Suc i) n (os2\<lparr>processIdTable := tab\<rparr>) = Inr os'"
    by (auto simp: rbind_eq_Inr)
  have "keeps os1 os2" using st(3) delete_threads_keeps [of 1 p os1 os2] by (simp split: if_splits del: One_nat_def)
  moreover have "keeps os2 (os2\<lparr>processIdTable := tab\<rparr>)" by (rule quiet_keeps) simp_all
  ultimately show ?case using delete_threads_keeps [OF st(2)] "2.IH" [OF st] keeps_trans by blast
qed simp

lemma sys_Halt_moves:
  assumes ok: "spaces_ok os" and h: "sys_Halt os = Inr os'"
  shows "moves os os'"
proof -
  obtain os1 and th :: Thread and os2 where st: "halt_loop 0 maxCantProcess os = Inr os1"
    "(case space th of None \<Rightarrow> Inr os1 | Some a \<Rightarrow> delete_space (current os1) a os1) = Inr os2" "os' = Halt_os os2"
    using h unfolding sys_Halt_def rbind_eq_Inr by blast
  note k = halt_loop_keeps [OF st(1)]
  have "moves os1 os2" using st(2) delete_space_moves keeps_ok [OF ok k] quiet_moves by (cases "space th") auto
  then show ?thesis using keeps_then_moves [OF ok k] moves_then_quiet st(3) by auto
qed

lemma sys_Create_moves:
  assumes ok: "spaces_ok os" and h: "sys_Create J os = Inr os'"
  shows "moves os os'"
proof -
  obtain a b nm m s where st: "readStrFromUsr kernel_abort a b (mach os) = Inr (nm, m)" "write_reg 2 0 ((set_mach m os)\<lparr>diskState := s\<rparr>) = Inr os'"
    using h by (auto simp: sys_Create_def Let_def rbind_eq_Inr)
  have "quiet_os (set_mach m os) os'" using write_reg_quiet [OF st(2)] quiet_os_trans [OF field_quiet(3)] by blast
  then show ?thesis using tame_then_quiet [OF ok user_tame(1) [OF st(1)]] by blast
qed

lemma sys_Open_moves:
  assumes ok: "spaces_ok os" and h: "sys_Open J os = Inr os'"
  shows "moves os os'"
proof -
  obtain a b nm m s f where st: "readStrFromUsr kernel_abort a b (mach os) = Inr (nm, m)"
    and r: "(case f of None \<Rightarrow> write_reg 2 (j_word J) ((set_mach m os)\<lparr>diskState := s\<rparr>)
      | Some f \<Rightarrow> rbind (AssignId f ((set_mach m os)\<lparr>diskState := s\<rparr>)) (\<lambda>(id, os3). write_reg 2 (word_of_int id) os3)) = Inr os'"
    using h by (fastforce simp: sys_Open_def Let_def rbind_eq_Inr)
  have "quiet_os ((set_mach m os)\<lparr>diskState := s\<rparr>) os'"
  proof (cases f)
    case None
    then show ?thesis using r write_reg_quiet by auto
  next
    case (Some g)
    then obtain i os3 where "AssignId g ((set_mach m os)\<lparr>diskState := s\<rparr>) = Inr (i, os3)" "write_reg 2 (word_of_int i) os3 = Inr os'"
      using r by (auto simp: rbind_eq_Inr)
    then show ?thesis using AssignId_quiet write_reg_quiet quiet_os_trans by blast
  qed
  then show ?thesis using tame_then_quiet [OF ok user_tame(1) [OF st]] quiet_os_trans [OF field_quiet(3)] by blast
qed

lemma sys_Close_moves:
  assumes ok: "spaces_ok os" and h: "sys_Close os = Inr os'"
  shows "moves os os'"
proof -
  obtain id :: "32 word" and d where "(case d of Null \<Rightarrow> write_reg 2 0 os | Garbage \<Rightarrow> Inl DanglingPointer
     | File f \<Rightarrow> write_reg 2 0 (put_descriptor (sint id) Null os)) = Inr os'"
    using h unfolding sys_Close_def rbind_eq_Inr by blast
  then have "quiet_os os os'"
    using write_reg_quiet [of 2 0 _ os'] quiet_os_trans [OF field_quiet(2)] by (cases d) fastforce+
  then show ?thesis using quiet_moves [OF ok] by blast
qed

lemma sys_Read_moves:
  assumes ok: "spaces_ok os" and h: "sys_Read J os = Some (Inr os')"
  shows "moves os os'"
proof -
  obtain a n id where r: "read_reg 4 os = Inr a" "read_reg 5 os = Inr n" "read_reg 6 os = Inr id" using h by (auto simp: sys_Read_def obind_eq)
  show ?thesis
  proof (cases "sint id = ConsoleInput")
    case True
    then obtain bs buf c m where st: "writeBuffToUsr kernel_abort buf a (int bs) (mach os) = Inr m"
      "write_reg 2 (of_nat bs) (set_mach m (os\<lparr>sconsole_of := c\<rparr>)) = Inr os'"
      using h r by (auto simp: sys_Read_def obind_eq Let_def)
    have "set_mach m (os\<lparr>sconsole_of := c\<rparr>) = (set_mach m os)\<lparr>sconsole_of := c\<rparr>" by (simp add: set_mach_def split: option.split)
    then have "quiet_os (set_mach m os) os'" using write_reg_quiet [OF st(2)] quiet_os_trans [OF field_quiet(4)] by metis
    then show ?thesis using tame_then_quiet [OF ok user_tame(4) [OF st(1)]] by blast
  next
    case False
    then obtain f1 s v where "write_reg 2 v (put_descriptor (sint id) (File f1) (os\<lparr>diskState := s\<rparr>)) = Inr os'"
      using h r by (auto simp: sys_Read_def obind_eq Let_def)
    then have "quiet_os (put_descriptor (sint id) (File f1) (os\<lparr>diskState := s\<rparr>)) os'" using write_reg_quiet by blast
    then have "quiet_os os os'" using quiet_os_trans [OF quiet_os_trans [OF field_quiet(3) field_quiet(2)]] by blast
    then show ?thesis using quiet_moves [OF ok] by blast
  qed
qed

lemma sys_Write_moves:
  assumes ok: "spaces_ok os" and h: "sys_Write J os = Some (Inr os')"
  shows "moves os os'"
proof -
  obtain a n id buf m where r: "read_reg 4 os = Inr a" "read_reg 5 os = Inr n" "read_reg 6 os = Inr id"
    and b: "readBuffFromUsr kernel_abort a (junk_buf J (sint n)) (sint n) (mach os) = Inr (buf, m)"
    using h by (auto simp: sys_Write_def obind_eq)
  have "quiet_os (set_mach m os) os'"
  proof (cases "sint id = ConsoleOutput")
    case True
    then obtain c v where "write_reg 2 v ((set_mach m os)\<lparr>sconsole_of := c\<rparr>) = Inr os'"
      using h r b by (auto simp: sys_Write_def obind_eq Let_def)
    then show ?thesis using write_reg_quiet quiet_os_trans [OF field_quiet(4)] by blast
  next
    case False
    then obtain f1 s v where "write_reg 2 v (put_descriptor (sint id) (File f1) ((set_mach m os)\<lparr>diskState := s\<rparr>)) = Inr os'"
      using h r b by (auto simp: sys_Write_def obind_eq Let_def)
    then have "quiet_os (put_descriptor (sint id) (File f1) ((set_mach m os)\<lparr>diskState := s\<rparr>)) os'" using write_reg_quiet by blast
    then show ?thesis using quiet_os_trans [OF quiet_os_trans [OF field_quiet(3) field_quiet(2)]] by blast
  qed
  then show ?thesis using tame_then_quiet [OF ok user_tame(3) [OF b]] by blast
qed

lemma read_args_tame: "read_args J n a m = Some (Inr (args, m')) \<Longrightarrow> tame m m'"
proof (induction n arbitrary: a m args)
  case (Suc n)
  then obtain a1 arg m1 args' where st: "readStrFromUsrSpecial kernel_abort a (junk_buf J 128) 32 m = Some (Inr (a1, arg, m1))"
    "read_args J n a1 m1 = Some (Inr (args', m'))" by (auto simp: obind_eq)
  show ?case using user_tame(2) [OF st(1)] Suc.IH [OF st(2)] tame_trans by blast
qed simp

lemma sys_Exec_moves:
  assumes ok: "spaces_ok os" and h: "sys_Exec J os = Some (Inr os')"
  shows "moves os os'"
proof -
  obtain a nm m argc av args m1 s f tab p os3 where st: "readStrFromUsr kernel_abort a (junk_buf J 128) (mach os) = Inr (nm, m)"
    "read_args J argc av m = Some (Inr (args, m1))"
    and w: "write_reg 2 (word_of_int p) ((set_mach m1 os)\<lparr>diskState := s, processIdTable := tab\<rparr>) = Inr os3" "do_Exec J p f nm os3 = Inr os'"
    using h by (auto simp: sys_Exec_def obind_eq Let_def rbind_eq_Inr split: option.splits if_splits)
  have T: "tame (mach os) m1" using user_tame(1) [OF st(1)] read_args_tame [OF st(2)] tame_trans by blast
  have "quiet_os (set_mach m1 os) os3 \<and> pageTablePtr (kern os3) = pageTablePtr (kern (set_mach m1 os))"
    using write_reg_quiet [OF w(1)] quiet_os_trans [OF quiet_os_trans [OF field_quiet(3) field_quiet(5)]] by fastforce
  then have "keeps os os3" using set_mach_keeps [OF T] quiet_keeps keeps_trans by blast
  then show ?thesis using keeps_then_moves [OF ok] do_Exec_moves [OF keeps_ok [OF ok] w(2)] by blast
qed

lemma sys_Join_moves:
  assumes ok: "spaces_ok os" and h: "sys_Join os = Inr os'"
  shows "moves os os'"
proof -
  obtain t k p where k: "Thread_Join t (kern os) = Inr k" "os' = upd_process (current os) (\<lambda>pr. pr\<lparr>cont := AfterJoin p\<rparr>) (os\<lparr>kern := k\<rparr>)"
    using h by (auto simp: sys_Join_def rbind_eq_Inr split: option.splits)
  have "quiet_os os os'" unfolding k(2) using quiet_os_trans [OF kern_quiet [OF call_mem(2) [OF k(1)]] field_quiet(1)] .
  then show ?thesis using quiet_moves [OF ok] by blast
qed

lemma sys_Exit_moves:
  assumes ok: "spaces_ok os" and h: "sys_Exit os = Inr os'"
  shows "moves os os'"
proof -
  let ?os1 = "os\<lparr>cantProcesses := cantProcesses os - 1\<rparr>"
  have k: "keeps os ?os1" by (rule quiet_keeps) simp_all
  note ok1 = keeps_ok [OF ok k]
  show ?thesis
  proof (cases "cantProcesses ?os1 \<le> 0")
    case True
    then have "os' = Halt_os ?os1" using h by (auto simp: sys_Exit_def rbind_eq_Inr)
    then show ?thesis using keeps_then_moves [OF ok k quiet_moves [OF ok1]] by simp
  next
    case False
    obtain e where "read_reg 4 os = Inr e" using h by (auto simp: sys_Exit_def rbind_eq_Inr)
    with False obtain th :: Thread and os3 k' where st: "(case space th of None \<Rightarrow> Inr ?os1
         | Some a \<Rightarrow> rbind (delete_space (current ?os1) a ?os1) (\<lambda>os2.
             rbind (follow (processes os2) (current os2)) (\<lambda>pr.
             rbind (aput (processIdTable os2) (pid pr) None) (\<lambda>tab. Inr (os2\<lparr>processIdTable := tab\<rparr>))))) = Inr os3"
      "Thread_Finish (kern os3) = Inr k'" "os' = os3\<lparr>kern := k'\<rparr>"
      using h unfolding sys_Exit_def Let_def by (simp del: select_convs update_convs add: rbind_eq_Inr) blast
    have "moves ?os1 os3"
    proof (cases "space th")
      case None
      then show ?thesis using st(1) quiet_moves [OF ok1] by auto
    next
      case (Some a)
      then obtain os2 tab where d: "delete_space (current ?os1) a ?os1 = Inr os2" "os3 = os2\<lparr>processIdTable := tab\<rparr>"
        using st(1) by (auto simp: rbind_eq_Inr)
      show ?thesis using moves_then_quiet [OF delete_space_moves [OF ok1 d(1)]] d(2) by simp
    qed
    then have "moves ?os1 os'" using moves_then_quiet kern_quiet [OF call_mem(1) [OF st(2)]] st(3) by blast
    then show ?thesis using keeps_then_moves [OF ok k] by blast
  qed
qed

lemma returning_moves:
  assumes "returning r = Some (Inr os')" and "\<And>os1. r = Some (Inr os1) \<Longrightarrow> moves os os1"
  shows "moves os os'"
proof -
  obtain os1 where "r = Some (Inr os1)" "increaseProgramCounter os1 = Inr os'" using assms(1) by (auto simp: returning_def obind_eq)
  then show ?thesis using assms(2) moves_then_quiet increaseProgramCounter_quiet by blast
qed

lemma ExceptionHandler_moves:
  assumes ok: "spaces_ok os" and h: "ExceptionHandler J e os = Some (Inr os')"
  shows "moves os os'"
proof -
  obtain r2 where "read_reg 2 os = Inr r2" using h by (auto simp: ExceptionHandler_def obind_eq)
  then have "Some (sys_Halt os) = Some (Inr os') \<or> returning (Some (sys_Create J os)) = Some (Inr os') \<or> returning (sys_Read J os) = Some (Inr os')
     \<or> returning (sys_Write J os) = Some (Inr os') \<or> returning (Some (sys_Open J os)) = Some (Inr os') \<or> returning (Some (sys_Close os)) = Some (Inr os')
     \<or> returning (sys_Exec J os) = Some (Inr os') \<or> Some (sys_Join os) = Some (Inr os') \<or> Some (sys_Exit os) = Some (Inr os')
     \<or> returning (Some (Inr os)) = Some (Inr os')"
    using h by (simp add: ExceptionHandler_def Let_def obind_def split: if_splits)
  then show ?thesis
    by (elim disjE) (auto elim!: returning_moves simp: ok sys_Halt_moves sys_Create_moves sys_Read_moves sys_Write_moves sys_Open_moves sys_Close_moves
        sys_Exec_moves sys_Join_moves sys_Exit_moves quiet_moves)
qed

section \<open>Steps of the system\<close>

lemma syscall_trap_tame: "syscall_trap m = Inr m' \<Longrightarrow> tame m m'"
  using DelayedLoad_tame [of 0 0 "set_reg BadVAddrReg 0 m"]
  by (auto simp: syscall_trap_def rbind_eq_Inr tame_def table_frames_def own_pages_def set_reg_def)

lemma user_instruction_moves:
  assumes ok: "spaces_ok os" and u: "user_instruction J os = Some (Inr os')"
  shows "moves os os'"
proof -
  obtain r m1 where r: "ReadMem kernel_abort (reg (mach os) PCReg) 4 (mach os) = Inr (r, m1)" using u by (auto simp: user_instruction_def obind_eq)
  note R = ReadMem_tame [OF r]
  consider "os' = set_mach m1 os" | m2 os1 where "syscall_trap m1 = Inr m2" "ExceptionHandler J SyscallException (set_mach m2 os) = Some (Inr os1)"
      "os' = syscall_return os1"
    | m2 where "OneInstruction kernel_abort (mach os) = Inr m2" "os' = set_mach m2 os"
    using u r by (cases r) (auto simp: user_instruction_def obind_eq split: if_splits)
  then show ?thesis
  proof cases
    case 1
    then show ?thesis using keeps_moves [OF ok set_mach_keeps [OF R]] by simp
  next
    case (2 m2 os1)
    have k: "keeps os (set_mach m2 os)" using set_mach_keeps tame_trans [OF R syscall_trap_tame [OF 2(1)]] by blast
    have "moves (set_mach m2 os) os'" unfolding 2(3)
      by (rule moves_then_quiet [OF ExceptionHandler_moves [OF keeps_ok [OF ok k] 2(2)]]) simp
    then show ?thesis using keeps_then_moves [OF ok k] by blast
  next
    case (3 m2)
    then show ?thesis using keeps_moves [OF ok set_mach_keeps [OF OneInstruction_tame]] by simp
  qed
qed

lemma resume_quiet:
  assumes "resume os = Inr os'"
  shows "quiet_os os os'"
proof -
  obtain pr where pr: "processes os (current os) = Some pr" using assms by (auto simp: resume_def rbind_eq_Inr)
  show ?thesis
  proof (cases "cont pr")
    case InUser
    then show ?thesis using assms pr by (simp add: resume_def)
  next
    case StartPoint
    then have S: "StartProcess os = Inr os'" using assms pr by (simp add: resume_def)
    then obtain p sp m where m: "InitRegisters sp (machine (kern os)) = Inr m"
      and os': "os' = upd_process (current os) (\<lambda>p. p\<lparr>cont := InUser\<rparr>) (os\<lparr>kern := (AddrSpace_RestoreState p (kern os))\<lparr>machine := m\<rparr>\<rparr>)"
      by (auto simp: StartProcess_def rbind_eq_Inr split: option.splits)
    have "mem_kept (kern os) ((AddrSpace_RestoreState p (kern os))\<lparr>machine := m\<rparr>)"
      using InitRegisters_mem [OF m] by (simp add: mem_kept_def AddrSpace_RestoreState_def)
    then show ?thesis unfolding os' using quiet_os_trans [OF kern_quiet field_quiet(1)] by blast
  next
    case (AfterJoin p)
    then obtain tab os1 where "write_reg 2 0 (upd_process (current os) (\<lambda>pr. pr\<lparr>cont := InUser\<rparr>) (os\<lparr>processIdTable := tab\<rparr>)) = Inr os1"
      "increaseProgramCounter os1 = Inr os'" using assms pr by (auto simp: resume_def rbind_eq_Inr)
    then have "quiet_os (upd_process (current os) (\<lambda>pr. pr\<lparr>cont := InUser\<rparr>) (os\<lparr>processIdTable := tab\<rparr>)) os'"
      using write_reg_quiet increaseProgramCounter_quiet quiet_os_trans by blast
    then show ?thesis using quiet_os_trans [OF quiet_os_trans [OF field_quiet(5) field_quiet(1)]] by blast
  qed
qed

text \<open>
  The steps: a step of the thread system; an instruction of the program whose thread runs, system calls included; the
  rest of a call after a wait; a thread of the kernel that starts a program. The clock ticks of \<^verbatim>\<open>Machine::Run\<close> are
  steps of the thread system, which may come at any time.
\<close>

definition in_user :: "os \<Rightarrow> bool" where
  "in_user os \<longleftrightarrow> (case processes os (current os) of None \<Rightarrow> False | Some pr \<Rightarrow> cont pr = InUser)"

inductive os_step :: "os \<Rightarrow> os \<Rightarrow> bool" where
  thread_system: "kernel_step (kern os) k \<Longrightarrow> os_step os (os\<lparr>kern := k\<rparr>)"
| instruction: "\<not> halted (kern os) \<Longrightarrow> top_frames (kern os) = [] \<Longrightarrow> in_user os \<Longrightarrow>
    user_instruction J os = Some (Inr os') \<Longrightarrow> os_step os os'"
| resumption: "\<not> halted (kern os) \<Longrightarrow> top_frames (kern os) = [] \<Longrightarrow> resume os = Inr os' \<Longrightarrow> os_step os os'"
| program: "\<not> halted (kern os) \<Longrightarrow> top_frames (kern os) = [] \<Longrightarrow> progtest_StartProcess J nm os = Inr (b, os') \<Longrightarrow> os_step os os'"

text \<open>From the state in which \<^verbatim>\<open>Initialize\<close> leaves the kernel, whatever the disk holds.\<close>

inductive os_reachable :: "os \<Rightarrow> bool" where
  start: "boot_os J jmap keys format s (boot_kernel (Machine_new None ()) junk r rnd) = Inr os \<Longrightarrow> os_reachable os"
| step: "os_reachable os \<Longrightarrow> os_step os os' \<Longrightarrow> os_reachable os'"

lemma os_step_moves:
  assumes ok: "spaces_ok os" and s: "os_step os os'"
  shows "moves os os'"
  using s
proof cases
  case (thread_system k)
  then show ?thesis using quiet_moves [OF ok kern_quiet [OF kernel_step_mem]] by simp
next
  case (instruction J)
  then show ?thesis using user_instruction_moves [OF ok] by blast
next
  case resumption
  then show ?thesis using quiet_moves [OF ok] resume_quiet by blast
next
  case (program J nm b)
  then show ?thesis using progtest_moves [OF ok] by blast
qed

lemma boot_kernel_machine: "machine (boot_kernel m junk r rnd) = m" "next_id (boot_kernel m junk r rnd) = 1"
  by (auto simp: boot_kernel_def Let_def Timer_new_def Schedule_def rbind_eq_Inr split: sum.split if_splits)

lemma os_reachable_ok: "os_reachable os \<Longrightarrow> spaces_ok os"
proof (induction rule: os_reachable.induct)
  case (start J jmap keys fmt s junk r rnd os)
  then have o: "BitMap_new jmap NumPhysPages = Inr (myBitmap os)" "spaces os = Map.empty" "kern os = boot_kernel (Machine_new None ()) junk r rnd"
    by (auto simp: boot_os_def rbind_eq_Inr)
  have "bm_wf (myBitmap os)" "numBits (myBitmap os) = 128" "marked (myBitmap os) = {}"
    using BitMap_new_correct [of 128 jmap] o(1) by (auto simp: machine_consts)
  moreover have "space_frames os = Map.empty" using o(2) by (simp add: space_frames_def fun_eq_iff)
  ultimately show ?case using o(3) by (simp add: spaces_ok_def frames_inv_def boot_kernel_machine Machine_new_def machine_consts)
next
  case (step os os')
  then show ?case using os_step_moves by (auto simp: moves_def)
qed

section \<open>A concrete run\<close>

text \<open>States in which a thread of the kernel can start the sample program, \<open>n\<close> times so far.\<close>

definition can_start :: "nat \<Rightarrow> os \<Rightarrow> bool" where
  "can_start n os \<longleftrightarrow> os_reachable os \<and> \<not> halted (kern os) \<and> top_frames (kern os) = [] \<and> fs_inv (fileSystem os) (diskState os)
     \<and> fs_files (sd_sector (diskState os)) (cstr 9 [97]) = Some sample_program \<and> length (registers (machine (kern os))) = 40
     \<and> card (marked (myBitmap os)) \<le> 10 * n"

lemma program_state_frames: "top_frames (kern (program_state sp mem rv bm s os)) = top_frames (kern os)"
  by (cases "threads (kern os) (currentThread (kern os))")
    (auto simp: program_state_def Let_def AddrSpace_RestoreState_def top_frames_def upd_thread_def current_def)

lemma start_again:
  assumes c: "can_start n os" and n: "n \<le> 11"
  obtains os' sp where "progtest_StartProcess sample_junk [97] os = Inr (True, os')" "can_start (Suc n) os'" "os_step os os'"
    "spaces os' = (spaces os)(next_id (kern os) \<mapsto> sp)" "next_id (kern os') = Suc (next_id (kern os))"
    "pageTablePtr (kern os') = Some (next_id (kern os))" "length (as_pageTable sp) = 10"
proof -
  have R: "os_reachable os" "\<not> halted (kern os)" "top_frames (kern os) = []" "fs_inv (fileSystem os) (diskState os)"
    "fs_files (sd_sector (diskState os)) (cstr 9 [97]) = Some sample_program" "length (registers (machine (kern os))) = 40"
    "card (marked (myBitmap os)) \<le> 10 * n" using c by (simp_all add: can_start_def)
  have ok: "bm_wf (myBitmap os)" "numBits (myBitmap os) = 128" "length (memory os) = 16384" "tlb (machine (kern os)) = None"
    using os_reachable_ok [OF R(1)] by (simp_all add: spaces_ok_def frames_inv_def)
  have J: "fresh_ok (j_fresh sample_junk)" using sample_fresh_ok by (simp add: sample_junk_def)
  note sl = sample_linked [OF refl]
  have sub: "marked (myBitmap os) \<subseteq> {0..<128}" using ok(2) by (auto simp: marked_def)
  then have fin: "finite (marked (myBitmap os))" using finite_subset by blast
  have room: "program_pages (noff_of (take 40 sample_program)) \<le> card ({0..<128} - marked (myBitmap os))"
    using card_Diff_subset [OF fin sub] R(7) n by (simp add: sl)
  have len: "40 \<le> length sample_program" by (simp add: length_sample_program)
  obtain sp mem rv bm' s where st: "progtest_StartProcess sample_junk [97] os = Inr (True, program_state sp mem rv bm' s os)"
    "length rv = 40" "length (as_pageTable sp) = 10" "marked bm' = marked (myBitmap os) \<union> physicalPage ` set (as_pageTable sp)"
    "fs_inv (fileSystem os) s" "fs_files (sd_sector s) = fs_files (sd_sector (diskState os))"
    using start_program [OF J R(4,5) len refl sl(1,2) refl ok(1,2) room ok(3) R(6) ok(4)] unfolding sl(4) by metis
  let ?os = "program_state sp mem rv bm' s os"
  have step: "os_step os ?os" by (rule os_step.program [OF R(2,3) st(1)])
  have "card (marked bm') \<le> card (marked (myBitmap os)) + card (physicalPage ` set (as_pageTable sp))" unfolding st(4) by (rule card_Un_le)
  moreover have "card (physicalPage ` set (as_pageTable sp)) \<le> 10"
    using card_image_le [of "set (as_pageTable sp)" physicalPage] card_length [of "as_pageTable sp"] st(3) by simp
  ultimately have "card (marked bm') \<le> 10 * Suc n" using R(7) by simp
  moreover have "top_frames (kern ?os) = []" using R(3) by (simp add: program_state_frames)
  ultimately have "can_start (Suc n) ?os"
    using os_reachable.step [OF R(1) step] R st(2,5,6) by (simp add: can_start_def program_state_def Let_def AddrSpace_RestoreState_def)
  then show thesis
    by (rule that [OF st(1) _ step _ _ _ st(3)]) (simp_all add: program_state_def Let_def AddrSpace_RestoreState_def)
qed

text \<open>The kernel has started: it has enabled interrupts.\<close>

declare fire_due.simps [code]

lemma system_started:
  obtains os where "can_start 0 os" "spaces os = Map.empty" "next_id (kern os) = 1"
proof -
  obtain fs0 s0 where f0: "fs_inv fs0 s0" "fs_files (sd_sector s0) (cstr 9 [97]) = Some sample_program" by (rule program_on_disk)
  then have "sd_ok s0" "fs_wf (sd_sector s0)" by (auto simp: fs_inv_def)
  then obtain fs s where f: "FileSystem_new sample_fresh False s0 = Inr (fs, s)" "fs_inv fs s" "fs_files (sd_sector s) = fs_files (sd_sector s0)"
    using fs_mount [of s0 sample_fresh] by blast
  obtain c where c: "SynchConsole_new [] = Inr c" by (rule sample_console)
  define k0 where "k0 = boot_kernel (Machine_new None ()) [] False (\<lambda>_. 0)"
  obtain bm where bm: "BitMap_new (\<lambda>_. 5) 128 = Inr bm" "marked bm = {}" using BitMap_new_correct [of 128 "\<lambda>_. 5"] by auto
  have "j_fresh sample_junk = sample_fresh" by (simp add: sample_junk_def)
  then obtain os0 where b: "boot_os sample_junk (\<lambda>_. 5) [] False s0 k0 = Inr os0" and
    o: "kern os0 = k0" "fileSystem os0 = fs" "diskState os0 = s" "myBitmap os0 = bm" "spaces os0 = Map.empty"
    using f(1) c bm(1) by (simp add: boot_os_def machine_consts)
  have r0: "os_reachable os0" by (rule os_reachable.start [OF b [unfolded k0_def]])
  have "(case exec_frame (RestoreLevel IntOn) (pop_frame (boot_kernel m [] False (\<lambda>_. 0))) of Some (Inr k) \<Rightarrow> (\<not> halted k, top_frames k, next_id k)
      | _ \<Rightarrow> (False, [], 0)) = (True, [], 1)" for m
    by code_simp
  then obtain k where k: "exec_frame (RestoreLevel IntOn) (pop_frame k0) = Some (Inr k)" "\<not> halted k" "top_frames k = []" "next_id k = 1"
    unfolding k0_def by (fastforce split: option.splits sum.splits)
  have "(case exec_frame (RestoreLevel IntOn) (pop_frame (boot_kernel m [] False (\<lambda>_. 0))) of Some (Inr k) \<Rightarrow> registers (machine k) | _ \<Rightarrow> []) = registers m" for m
    by code_simp
  then have "registers (machine k) = registers (Machine_new None ())" using k(1) unfolding k0_def by (metis (no_types, lifting) option.simps(5) sum.simps(6))
  then have l: "length (registers (machine k)) = 40" by (simp add: Machine_new_def NumTotalRegs_def)
  have "\<not> halted (boot_kernel m [] False (\<lambda>_. 0)) \<and> top_frames (boot_kernel m [] False (\<lambda>_. 0)) = [RestoreLevel IntOn]" for m by code_simp
  then have "\<not> halted k0" "top_frames k0 = [RestoreLevel IntOn]" by (simp_all add: k0_def)
  then have "kernel_step k0 k" using kernel_step.exec k(1) by blast
  then have "os_step os0 (os0\<lparr>kern := k\<rparr>)" using os_step.thread_system [of os0 k] o(1) by simp
  then have "os_reachable (os0\<lparr>kern := k\<rparr>)" using r0 os_reachable.step by blast
  then have "can_start 0 (os0\<lparr>kern := k\<rparr>)" using k l f(2,3) f0(2) bm(2) o by (simp add: can_start_def)
  then show thesis by (rule that) (simp_all add: o k(4))
qed

text \<open>Two programs are loaded and the second one is installed; then a third one is started.\<close>

lemma three_programs:
  obtains os os' sp where "os_reachable os" "os_step os os'" "spaces os 1 = Some sp" "spaces os' 1 = Some sp" "length (as_pageTable sp) = 10"
    "card (dom (spaces os)) = 2" "pageTablePtr (kern os) = Some 2" "pageTablePtr (kern os') = Some 3"
proof -
  obtain os0 where o0: "can_start 0 os0" "spaces os0 = Map.empty" "next_id (kern os0) = 1" by (rule system_started)
  obtain os1 sp1 where o1: "can_start (Suc 0) os1" "spaces os1 = [1 \<mapsto> sp1]" "next_id (kern os1) = 2" "length (as_pageTable sp1) = 10"
    by (rule start_again [OF o0(1)]) (use o0 in simp_all)
  obtain os2 sp2 where o2: "can_start (Suc (Suc 0)) os2" "spaces os2 = [1 \<mapsto> sp1, 2 \<mapsto> sp2]" "next_id (kern os2) = 3" "pageTablePtr (kern os2) = Some 2"
    by (rule start_again [OF o1(1)]) (use o1 in simp_all)
  obtain os3 sp3 where o3: "os_step os2 os3" "spaces os3 = [1 \<mapsto> sp1, 2 \<mapsto> sp2, 3 \<mapsto> sp3]" "pageTablePtr (kern os3) = Some 3"
    by (rule start_again [OF o2(1)]) (use o2 in simp_all)
  show thesis by (rule that [of os2 os3 sp1]) (use o1 o2 o3 in \<open>simp_all add: can_start_def\<close>)
qed

section \<open>Properties\<close>

text \<open>
  C6. In every state that the system can reach, the user programs that exist have frames of their own: no frame
  is used twice, neither within a page table nor by two programs, all are frames of the memory, and the map of free frames
  records exactly the frames that some program uses, so that none is lost.
\<close>

theorem programs_have_own_frames:
  assumes "os_reachable os"
  shows "(\<forall>a sp. spaces os a = Some sp \<longrightarrow> distinct (map physicalPage (as_pageTable sp)) \<and> physicalPage ` set (as_pageTable sp) \<subseteq> {0..<128}
        \<and> length (as_pageTable sp) = unat (numPages sp))
    \<and> (\<forall>a b sp sq. spaces os a = Some sp \<longrightarrow> spaces os b = Some sq \<longrightarrow> a \<noteq> b \<longrightarrow>
        physicalPage ` set (as_pageTable sp) \<inter> physicalPage ` set (as_pageTable sq) = {})
    \<and> marked (myBitmap os) = (\<Union>sp \<in> ran (spaces os). physicalPage ` set (as_pageTable sp))"
proof -
  have ok: "spaces_ok os" using os_reachable_ok [OF assms] .
  then have F: "frames_inv (myBitmap os) (space_frames os) (next_id (kern os))" by (simp add: spaces_ok_def)
  have sf: "space_frames os a = Some (map physicalPage (as_pageTable sp), numPages sp)" if "spaces os a = Some sp" for a sp
    using that by (simp add: space_frames_def)
  have "distinct (map physicalPage (as_pageTable sp)) \<and> physicalPage ` set (as_pageTable sp) \<subseteq> {0..<128} \<and> length (as_pageTable sp) = unat (numPages sp)"
    if "spaces os a = Some sp" for a sp using space_frames_own [OF ok that] by (auto simp: own_frames_def)
  moreover have "physicalPage ` set (as_pageTable sp) \<inter> physicalPage ` set (as_pageTable sq) = {}"
    if "spaces os a = Some sp" "spaces os b = Some sq" "a \<noteq> b" for a b sp sq
  proof -
    have "set (map physicalPage (as_pageTable sp)) \<inter> set (map physicalPage (as_pageTable sq)) = {}"
      using F sf [OF that(1)] sf [OF that(2)] that(3) unfolding frames_inv_def by blast
    then show ?thesis by simp
  qed
  moreover have "ran (space_frames os) = (\<lambda>sp. (map physicalPage (as_pageTable sp), numPages sp)) ` ran (spaces os)"
    by (auto simp: ran_def space_frames_def)
  then have "marked (myBitmap os) = (\<Union>sp \<in> ran (spaces os). physicalPage ` set (as_pageTable sp))"
    using F by (simp add: frames_inv_def)
  ultimately show ?thesis by blast
qed

theorem programs_have_own_frames_witness:
  "\<exists>os sp. os_reachable os \<and> card (dom (spaces os)) = 2 \<and> spaces os 1 = Some sp \<and> length (as_pageTable sp) = 10
    \<and> distinct (map physicalPage (as_pageTable sp)) \<and> physicalPage ` set (as_pageTable sp) \<subseteq> marked (myBitmap os)"
proof -
  obtain os sp where o: "os_reachable os" "spaces os 1 = Some sp" "length (as_pageTable sp) = 10" "card (dom (spaces os)) = 2"
    using three_programs by metis
  note P = programs_have_own_frames [OF o(1)]
  have "sp \<in> ran (spaces os)" using o(2) by (rule ranI)
  moreover have "marked (myBitmap os) = (\<Union>sp \<in> ran (spaces os). physicalPage ` set (as_pageTable sp))" using P by simp
  ultimately have m: "physicalPage ` set (as_pageTable sp) \<subseteq> marked (myBitmap os)" by blast
  have d: "distinct (map physicalPage (as_pageTable sp))" using P o(2) by simp
  show ?thesis by (rule exI [of _ os], rule exI [of _ sp]) (intro conjI o m d)
qed

text \<open>
  C2. User programs are isolated from each other: whatever happens in one step of the system while some program is installed
  (an instruction of it, a system call with all that the kernel does for it, a clock interrupt, a thread switch, the start or the
  end of a program), every other program that still exists afterwards keeps its frames and sees the same memory, byte for byte.
\<close>

theorem programs_isolated:
  assumes R: "os_reachable os" and S: "os_step os os'" and a: "spaces os a = Some sp" "spaces os' a = Some sp'"
    and other: "pageTablePtr (kern os) \<noteq> Some a"
  shows "map physicalPage (as_pageTable sp') = map physicalPage (as_pageTable sp)
    \<and> (\<forall>k < 128 * length (as_pageTable sp). seen (as_pageTable sp') (memory os') k = seen (as_pageTable sp) (memory os) k)"
proof -
  note ok = os_reachable_ok [OF R]
  note M = os_step_moves [OF ok S]
  let ?ps = "map physicalPage (as_pageTable sp)"
  have f: "space_frames os a = Some (?ps, numPages sp)" using a(1) by (simp add: space_frames_def)
  have n: "a < next_id (kern os)" using ok f unfolding spaces_ok_def frames_inv_def by blast
  have f': "space_frames os' a = Some (map physicalPage (as_pageTable sp'), numPages sp')" using a(2) by (simp add: space_frames_def)
  have eq: "map physicalPage (as_pageTable sp') = ?ps" using movesD(1) [OF M n] f f' by simp
  have own: "own_frames (as_pageTable sp)" using space_frames_own [OF ok a(1)] by simp
  have "seen (as_pageTable sp') (memory os') k = seen (as_pageTable sp) (memory os) k" if k: "k < 128 * length (as_pageTable sp)" for k
  proof -
    let ?i = "k div 128"
    have i: "?i < length (as_pageTable sp)" using k by linarith
    have len: "length (as_pageTable sp') = length (as_pageTable sp)" using arg_cong [OF eq, of length] by simp
    have p: "physicalPage (as_pageTable sp' ! ?i) = physicalPage (as_pageTable sp ! ?i)"
      using arg_cong [OF eq, of "\<lambda>xs. xs ! ?i"] i len by simp
    note fr = own_frames_nth [OF own i]
    let ?q = "128 * nat (physicalPage (as_pageTable sp ! ?i)) + k mod 128"
    have q: "?q < 16384" "int (?q div 128) = physicalPage (as_pageTable sp ! ?i)" using fr by auto
    then have "int (?q div 128) \<in> set ?ps" using i by simp
    then have "memory os' ! ?q = memory os ! ?q" using movesD(2) [OF M n f' other q(1)] eq by simp
    then show ?thesis unfolding seen_def p .
  qed
  then show ?thesis using eq by blast
qed

theorem programs_isolated_witness:
  "\<exists>os os' sp. os_reachable os \<and> os_step os os' \<and> spaces os 1 = Some sp \<and> pageTablePtr (kern os) = Some 2
    \<and> (\<forall>k < 1280. seen (as_pageTable sp) (memory os') k = seen (as_pageTable sp) (memory os) k)"
proof -
  obtain os os' sp where o: "os_reachable os" "os_step os os'" "spaces os 1 = Some sp" "spaces os' 1 = Some sp" "length (as_pageTable sp) = 10"
    "pageTablePtr (kern os) = Some 2" using three_programs by metis
  then have "pageTablePtr (kern os) \<noteq> Some 1" by simp
  from programs_isolated [OF o(1-4) this] show ?thesis using o by auto
qed

end
