(* ===== verification/File_Calls.thy ===== *)
theory File_Calls
  imports Program_Start
begin

text \<open>
  What the system calls on files do for the program that makes them: the bytes of a buffer in user memory, the open file
  behind a descriptor, and the registers with which the call returns.
\<close>

section \<open>Registers\<close>

definition with_regs :: "(32 word list \<Rightarrow> 32 word list) \<Rightarrow> os \<Rightarrow> os" where
  "with_regs f os = os\<lparr>kern := (kern os)\<lparr>machine := (machine (kern os))\<lparr>registers := f (registers (machine (kern os)))\<rparr>\<rparr>\<rparr>"

abbreviation regs :: "os \<Rightarrow> 32 word list" where "regs os \<equiv> registers (machine (kern os))"

lemma with_regs_simps [simp]:
  "regs (with_regs f os) = f (regs os)" "diskState (with_regs f os) = diskState os" "processes (with_regs f os) = processes os"
  "current (with_regs f os) = current os" "spaces (with_regs f os) = spaces os" "with_regs g (with_regs f os) = with_regs (\<lambda>r. g (f r)) os"
  "mainMemory (machine (kern (with_regs f os))) = mainMemory (machine (kern os))" "pageTablePtr (kern (with_regs f os)) = pageTablePtr (kern os)"
  "tlb (machine (kern (with_regs f os))) = tlb (machine (kern os))"
  by (simp_all add: with_regs_def current_def)

lemma read_reg_result: "length (regs os) = 40 \<Longrightarrow> i < 40 \<Longrightarrow> read_reg i os = Inr (regs os ! i)"
  by (simp add: read_reg_def ReadRegister_def NumTotalRegs_def)

lemma write_reg_result: "length (regs os) = 40 \<Longrightarrow> i < 40 \<Longrightarrow> write_reg i v os = Inr (with_regs (\<lambda>r. r[i := v]) os)"
  by (simp add: write_reg_def WriteRegister_def NumTotalRegs_def with_regs_def)

text \<open>A call that returns \<open>v\<close>: the result register and the three program counters.\<close>

definition returns :: "32 word \<Rightarrow> 32 word list \<Rightarrow> 32 word list" where
  "returns v r = r[2 := v, PrevPCReg := r ! PCReg, PCReg := r ! NextPCReg, NextPCReg := r ! NextPCReg + 4]"

lemma return_result:
  assumes "length (regs os) = 40" and "write_reg 2 v os = Inr os1"
  shows "increaseProgramCounter os1 = Inr (with_regs (returns v) os)"
proof -
  have "os1 = with_regs (\<lambda>r. r[2 := v]) os" using assms write_reg_result [of os 2 v] by simp
  then show ?thesis using assms(1)
    by (simp add: increaseProgramCounter_def read_reg_result write_reg_result PCReg_def PrevPCReg_def NextPCReg_def)
      (simp add: with_regs_def returns_def PCReg_def PrevPCReg_def NextPCReg_def)
qed

lemma mach_fields: "mainMemory (mach os) = mainMemory (machine (kern os))" "registers (mach os) = regs os"
  by (simp_all add: mach_def)

lemma mach_with_regs: "mach (with_regs f os) = (mach os)\<lparr>registers := f (regs os)\<rparr>"
  by (simp add: mach_def with_regs_def)

lemma user_byte_with_regs: "user_byte (mach (with_regs f os)) = user_byte (mach os)"
  by (rule user_byte_fields) (simp_all add: mach_with_regs)

lemma mach_set_mach:
  assumes "pageTable (mach os) = Some pt0" and "pageTable m = Some pt"
  shows "mach (set_mach m os) = m"
proof -
  obtain p sp where "pageTablePtr (kern os) = Some p" "spaces os p = Some sp" using assms(1) by (auto simp: mach_def bind_eq_Some_conv)
  then show ?thesis using assms(2) by (simp add: mach_def set_mach_def)
qed

lemma mach_descriptor: "mach (put_descriptor i d (os\<lparr>diskState := s\<rparr>)) = mach os" "diskState (put_descriptor i d (os\<lparr>diskState := s\<rparr>)) = s"
  "regs (put_descriptor i d (os\<lparr>diskState := s\<rparr>)) = regs os"
  by (simp_all add: mach_def put_descriptor_def upd_process_def)

text \<open>The running program has the file \<open>f\<close> open under the descriptor \<open>id\<close>.\<close>

definition has_open :: "os \<Rightarrow> int \<Rightarrow> OpenFile \<Rightarrow> bool" where
  "has_open os i f \<longleftrightarrow> 3 \<le> i \<and> i \<le> 100 \<and> (\<exists>p. processes os (current os) = Some p \<and> nat i < length (descriptores p) \<and> descriptores p ! nat i = File f)"

lemma open_descriptor_result: "has_open os i f \<Longrightarrow> open_descriptor i os = Inr f"
  by (auto simp: has_open_def open_descriptor_def MAX_OPEN_FILES_def aget_def)

lemma has_open_put: "has_open os i f \<Longrightarrow> has_open (put_descriptor i (File g) (os\<lparr>diskState := s\<rparr>)) i g"
  by (auto simp: has_open_def put_descriptor_def upd_process_def current_def)

lemma has_open_regs [simp]: "has_open (with_regs r os) i f = has_open os i f"
  by (simp add: has_open_def)

lemma set_mach_os [simp]: "diskState (set_mach m os) = diskState os" "processes (set_mach m os) = processes os" "current (set_mach m os) = current os"
  "registers (machine (kern (set_mach m os))) = registers m"
  by (simp_all add: set_mach_def current_def)

lemma has_open_mach: "has_open (set_mach m os) i f = has_open os i f"
  by (simp add: has_open_def)

section \<open>Write\<close>

text \<open>
  C17. \<^verbatim>\<open>Write\<close> of a buffer to an open file: the bytes that the program has in its memory go into the file at the position of the
  descriptor, as many as fit before the end of the file; that number is the result, the position advances by it, the program
  goes on at the next instruction, and neither its memory nor the rest of the file changes.
\<close>

theorem Write_call:
  assumes m: "mach_ok (mach os)" "tlb (mach os) = None" and r: "reg (mach os) 2 = 7" "reg (mach os) 4 = a" "reg (mach os) 5 = of_nat n" "reg (mach os) 6 = i"
    and n: "0 < n" "n < 2 ^ 31" "length bs = n" and buf: "\<forall>j < n. user_byte (mach os) (a + of_nat j) = Some (bs ! j)"
    and f: "has_open os (sint i) f" "file_ok (hdr f)" "sd_ok (diskState os)" and p: "0 \<le> seekPosition f" "seekPosition f < numBytes (hdr f)"
    and k: "k = min n (nat (numBytes (hdr f) - seekPosition f))"
  shows "\<exists>os'. ExceptionHandler J SyscallException os = Some (Inr os')
    \<and> file_bytes (hdr f) (sd_sector (diskState os')) = patch (file_bytes (hdr f) (sd_sector (diskState os))) (nat (seekPosition f)) (take k bs)
    \<and> has_open os' (sint i) (f\<lparr>seekPosition := seekPosition f + int k\<rparr>)
    \<and> registers (mach os') = returns (of_nat k) (registers (mach os)) \<and> user_byte (mach os') = user_byte (mach os)"
proof -
  have len: "length (regs os) = 40" using m(1) by (simp add: mach_ok_def mach_len_def mach_def)
  have R: "read_reg 2 os = Inr 7" "read_reg 4 os = Inr a" "read_reg 5 os = Inr (of_nat n)" "read_reg 6 os = Inr i"
    using r len by (simp_all add: read_reg_result reg_def mach_def)
  have sn: "sint (of_nat n :: 32 word) = int n" using n(2) by (simp add: sint_unat unat_of_nat32)
  obtain m1 where m1: "readBuffFromUsr kernel_abort a (junk_buf J (int n)) (int n) (mach os) = Inr (bs, m1)" "same_user (mach os) m1"
    using read_buff_result [OF m(1), of bs a 0 "junk_buf J (int n)" kernel_abort 1] buf n(3) patch_whole [of bs "junk_buf J (int n)"]
    by (auto simp: readBuffFromUsr_def junk_buf_def)
  have "table_ok (mach os)" using m(1) by (simp add: mach_ok_def mach_len_def)
  then obtain pt0 where pt0: "pageTable (mach os) = Some pt0" using m(2) by (auto simp: table_ok_def)
  then obtain pt where pt: "pageTable m1 = Some pt" using user_tame(3) [OF m1(1)] by (auto simp: tame_def table_frames_def)
  note M = mach_set_mach [OF pt0 pt]
  have rg: "registers m1 = registers (mach os)" using m1(2) by (simp add: same_user_def)
  have op: "open_descriptor (sint i) (set_mach m1 os) = Inr f" using open_descriptor_result f(1) has_open_mach by blast
  have i: "sint i \<noteq> 1" using f(1) by (simp add: has_open_def)
  have k': "k = min (nat (int n)) (nat (numBytes (hdr f)) - nat (seekPosition f))" using k p by (simp add: nat_diff_distrib)
  have n': "0 < int n" "int n \<le> int (length bs)" using n by simp_all
  obtain s where s: "OpenFile_WriteAt (j_byte J) f bs (int n) (seekPosition f) (diskState os) = Inr (int k, s)"
    "file_bytes (hdr f) (sd_sector s) = patch (file_bytes (hdr f) (sd_sector (diskState os))) (nat (seekPosition f)) (take k bs)"
    using OpenFile_WriteAt_correct [OF f(3,2) p n' k', of "j_byte J"] by metis
  let ?g = "f\<lparr>seekPosition := seekPosition f + int k\<rparr>"
  let ?os = "put_descriptor (sint i) (File ?g) ((set_mach m1 os)\<lparr>diskState := s\<rparr>)"
  have lr: "length (regs ?os) = 40" using rg len by (simp add: mach_descriptor mach_def)
  then have "write_reg 2 (of_nat k) ?os = Inr (with_regs (\<lambda>r. r[2 := of_nat k]) ?os)" by (simp add: write_reg_result)
  then have W: "sys_Write J os = Some (Inr (with_regs (\<lambda>r. r[2 := of_nat k]) ?os))"
    using R m1(1) op s(1) i by (simp add: sys_Write_def obind_def Let_def sn ConsoleOutput_def OpenFile_Write_def)
  have "increaseProgramCounter (with_regs (\<lambda>r. r[2 := of_nat k]) ?os) = Inr (with_regs (returns (of_nat k)) ?os)"
    using return_result [OF lr] write_reg_result [OF lr] by simp
  then have E: "ExceptionHandler J SyscallException os = Some (Inr (with_regs (returns (of_nat k)) ?os))"
    using R W by (simp add: ExceptionHandler_def obind_def returning_def syscall_consts)
  have "user_byte (mach (with_regs (returns (of_nat k)) ?os)) = user_byte (mach os)"
    using same_user_byte [OF m1(2)] by (simp add: user_byte_with_regs mach_descriptor M)
  moreover have "registers (mach (with_regs (returns (of_nat k)) ?os)) = returns (of_nat k) (registers (mach os))"
    using rg by (simp add: mach_with_regs mach_descriptor)
  moreover have "has_open (with_regs (returns (of_nat k)) ?os) (sint i) ?g" using has_open_put f(1) has_open_mach by simp
  ultimately show ?thesis using E s(2) by (intro exI [of _ "with_regs (returns (of_nat k)) ?os"]) (simp add: mach_descriptor)
qed

section \<open>Read\<close>

text \<open>
  C35. \<^verbatim>\<open>Read\<close> from an open file does not deliver the data: the call reports the number of bytes that it has read from the file and
  advances the position by it, but the memory of the program is the same as before, whatever the buffer that it passed. This holds for
  every size that the program may ask for, not negative, such that the position plus the size does not exceed \<open>INT_MAX\<close> (or the
  position is at the end of the file already); the other sizes are those of \<open>Read_call_overflows\<close>. The \<^verbatim>\<open>malloc\<close> of the buffer
  of the kernel is taken to succeed.
\<close>

theorem Read_call_delivers_nothing:
  assumes m: "length (registers (mach os)) = 40" and r: "reg (mach os) 2 = 6" "reg (mach os) 5 = of_nat n" "reg (mach os) 6 = i" and n: "n < 2 ^ 31"
    and f: "has_open os (sint i) f" "file_ok (hdr f)" "sd_ok (diskState os)" and p: "0 \<le> seekPosition f"
    and fits: "numBytes (hdr f) \<le> seekPosition f \<or> seekPosition f + int n \<le> INT_MAX"
    and d: "d = take n (drop (nat (seekPosition f)) (file_bytes (hdr f) (sd_sector (diskState os))))"
  shows "\<exists>os'. ExceptionHandler J SyscallException os = Some (Inr os')
    \<and> registers (mach os') = returns (of_nat (length d)) (registers (mach os))
    \<and> has_open os' (sint i) (f\<lparr>seekPosition := seekPosition f + int (length d)\<rparr>)
    \<and> mainMemory (mach os') = mainMemory (mach os) \<and> user_byte (mach os') = user_byte (mach os)"
proof -
  have len: "length (regs os) = 40" using m by (simp add: mach_def)
  have R: "read_reg 2 os = Inr 6" "\<exists>a. read_reg 4 os = Inr a" "read_reg 5 os = Inr (of_nat n)" "read_reg 6 os = Inr i"
    using r len by (simp_all add: read_reg_result reg_def mach_def)
  then obtain a where a: "read_reg 4 os = Inr a" by blast
  have sn: "sint (of_nat n :: 32 word) = int n" using n by (simp add: sint_unat unat_of_nat32)
  have i: "sint i \<noteq> 0" using f(1) by (simp add: has_open_def)
  obtain s where s: "OpenFile_ReadAt f (int n) (seekPosition f) (diskState os) = Inr (d, s)"
    using OpenFile_ReadAt_correct [OF f(3,2) p, of "int n"] fits d by auto
  let ?g = "f\<lparr>seekPosition := seekPosition f + int (length d)\<rparr>" and ?v = "of_nat (length d)"
  let ?os = "put_descriptor (sint i) (File ?g) (os\<lparr>diskState := s\<rparr>)"
  have lr: "length (regs ?os) = 40" using len by (simp add: mach_descriptor)
  have W: "sys_Read J os = Some (Inr (with_regs (\<lambda>r. r[2 := ?v]) ?os))"
    using R a open_descriptor_result [OF f(1)] s i write_reg_result [OF lr, of 2 ?v]
    by (simp add: sys_Read_def obind_def Let_def sn ConsoleInput_def OpenFile_Read_def)
  have "increaseProgramCounter (with_regs (\<lambda>r. r[2 := ?v]) ?os) = Inr (with_regs (returns ?v) ?os)"
    using return_result [OF lr] write_reg_result [OF lr] by simp
  then have E: "ExceptionHandler J SyscallException os = Some (Inr (with_regs (returns ?v) ?os))"
    using R W by (simp add: ExceptionHandler_def obind_def returning_def syscall_consts)
  have U: "user_byte (mach (with_regs (returns ?v) ?os)) = user_byte (mach os)" by (simp add: user_byte_with_regs mach_descriptor)
  have M: "registers (mach (with_regs (returns ?v) ?os)) = returns ?v (registers (mach os))"
    "mainMemory (mach (with_regs (returns ?v) ?os)) = mainMemory (mach os)" by (simp_all add: mach_with_regs mach_descriptor mach_fields)
  have O: "has_open (with_regs (returns ?v) ?os) (sint i) ?g" using has_open_put [OF f(1)] by simp
  show ?thesis using E U M O by (intro exI [of _ "with_regs (returns ?v) ?os"] conjI)
qed

text \<open>
  A program can bring the kernel down with the size of a \<^verbatim>\<open>Read\<close>: for a size that the position takes above \<open>INT_MAX\<close> the test in
  \<^verbatim>\<open>ReadAt\<close> that should cut the size to the length of the file overflows.
\<close>

lemma Read_call_overflows:
  assumes m: "length (registers (mach os)) = 40" and r: "reg (mach os) 2 = 6" "reg (mach os) 5 = of_nat n" "reg (mach os) 6 = i"
    and n: "0 < n" "n < 2 ^ 31" and f: "has_open os (sint i) f"
    and p: "seekPosition f < numBytes (hdr f)" "INT_MAX < seekPosition f + int n"
  shows "ExceptionHandler J SyscallException os = Some (Inl IntOverflow)"
proof -
  have len: "length (regs os) = 40" using m by (simp add: mach_def)
  have R: "read_reg 2 os = Inr 6" "\<exists>a. read_reg 4 os = Inr a" "read_reg 5 os = Inr (of_nat n)" "read_reg 6 os = Inr i"
    using r len by (simp_all add: read_reg_result reg_def mach_def)
  then obtain a where a: "read_reg 4 os = Inr a" by blast
  have sn: "sint (of_nat n :: 32 word) = int n" using n(2) by (simp add: sint_unat unat_of_nat32)
  have i: "sint i \<noteq> 0" using f by (simp add: has_open_def)
  have "OpenFile_Read f (int n) (diskState os) = Inl IntOverflow"
    using OpenFile_ReadAt_overflow [of "int n" "seekPosition f" f "diskState os"] n p by (simp add: OpenFile_Read_def)
  then have "sys_Read J os = Some (Inl IntOverflow)"
    using R a open_descriptor_result [OF f] i by (simp add: sys_Read_def obind_def Let_def sn ConsoleInput_def)
  then show ?thesis using R by (simp add: ExceptionHandler_def obind_def returning_def syscall_consts)
qed

text \<open>A program that runs on the sample machine, with the sample file open under descriptor 3 at position 100.\<close>

definition calling_os :: "32 word list \<Rightarrow> SynchDisk \<Rightarrow> FileSystem \<Rightarrow> sconsole \<Rightarrow> os" where
  "calling_os rv s fs c = (sample_os fs s c (sample_kernel\<lparr>machine := user_machine\<lparr>registers := rv, pageTable := None\<rparr>, pageTablePtr := Some 9\<rparr>))
     \<lparr>spaces := [9 \<mapsto> \<lparr>as_pageTable = the (pageTable user_machine), numPages = 1\<rparr>],
      processes := [0 \<mapsto> \<lparr>pid = 0, descriptores = (replicate 100 Null)[3 := File (sample_file\<lparr>seekPosition := 100\<rparr>)], cont = InUser\<rparr>]\<rparr>"

lemma calling_mach: "mach (calling_os rv s fs c) = user_machine\<lparr>registers := rv\<rparr>" "diskState (calling_os rv s fs c) = s"
  by (simp_all add: calling_os_def sample_os_def mach_def user_machine_def)

lemma calling_open: "has_open (calling_os rv s fs c) 3 (sample_file\<lparr>seekPosition := 100\<rparr>)"
  by (simp add: has_open_def calling_os_def sample_os_def sample_kernel_def current_def)

lemma calling_byte: "uint x < 128 \<Longrightarrow> user_byte (mach (calling_os rv s fs c)) x = Some 0"
proof -
  assume x: "uint x < 128"
  have "user_byte (mach (calling_os rv s fs c)) = user_byte user_machine" by (rule user_byte_fields) (simp_all add: calling_mach)
  moreover have "nat (384 + uint x) < 16384" using x by simp
  then have "mainMemory user_machine ! nat (384 + uint x) = 0" by (simp add: user_machine_def Machine_new_def machine_consts)
  ultimately show ?thesis using x by (simp add: user_byte_def user_machine_phys)
qed

theorem Write_call_witness:
  "\<exists>os os'. file_bytes (hdr sample_file) (sd_sector (diskState os)) = sample_program \<and> ExceptionHandler sample_junk SyscallException os = Some (Inr os')
    \<and> file_bytes (hdr sample_file) (sd_sector (diskState os')) = patch sample_program 100 [0, 0, 0, 0] \<and> reg (mach os') 2 = 4"
proof -
  obtain s where s: "sd_ok s" "sample_program = file_bytes (hdr sample_file) (sd_sector s)" using sample_disk by metis
  obtain fs :: FileSystem and s0 where "fs_inv fs s0" using program_on_disk by metis
  obtain c where "SynchConsole_new [] = Inr c" by (rule sample_console)
  define rv :: "32 word list" where "rv = (replicate 40 0)[2 := 7, 4 := 16, 5 := of_nat 4, 6 := 3]"
  define os where "os = calling_os rv s fs c"
  have m: "mach_ok (mach os)" "tlb (mach os) = None"
    by (simp_all add: os_def calling_mach user_machine_def Machine_new_def mach_ok_def mach_len_def table_ok_def reg_nums machine_consts rv_def)
  have r: "reg (mach os) 2 = 7" "reg (mach os) 4 = 16" "reg (mach os) 5 = of_nat 4" "reg (mach os) 6 = 3"
    by (simp_all add: os_def calling_mach reg_def rv_def)
  have b: "\<forall>j < 4. user_byte (mach os) (16 + of_nat j) = Some ([0, 0, 0, 0] ! j)"
  proof (intro allI impI)
    fix j :: nat assume "j < 4"
    then consider "j = 0" | "j = 1" | "j = 2" | "j = 3" by linarith
    then show "user_byte (mach os) (16 + of_nat j) = Some ([0, 0, 0, 0] ! j)" unfolding os_def by cases (simp_all add: calling_byte)
  qed
  have f: "has_open os (sint (3 :: 32 word)) (sample_file\<lparr>seekPosition := 100\<rparr>)" using calling_open by (simp add: os_def)
  have d: "diskState os = s" by (simp add: os_def calling_mach)
  from Write_call [OF m r _ _ _ b f, of 4 sample_junk] s sample_file_ok d obtain os' where
    "ExceptionHandler sample_junk SyscallException os = Some (Inr os')"
    "file_bytes (hdr sample_file) (sd_sector (diskState os')) = patch sample_program 100 [0, 0, 0, 0]"
    "registers (mach os') = returns 4 (registers (mach os))" by auto
  moreover from this(3) have "reg (mach os') 2 = 4" by (simp add: reg_def returns_def os_def calling_mach rv_def reg_nums)
  ultimately show ?thesis using s(2) d by (intro exI [of _ os] exI [of _ os']) simp
qed

theorem Read_call_delivers_nothing_witness:
  "\<exists>os os'. file_bytes (hdr sample_file) (sd_sector (diskState os)) = sample_program \<and> reg (mach os) 4 = 16
    \<and> ExceptionHandler sample_junk SyscallException os = Some (Inr os') \<and> reg (mach os') 2 = 100
    \<and> sample_program ! 100 \<noteq> 0 \<and> user_byte (mach os') 16 = Some 0"
proof -
  obtain s where s: "sd_ok s" "sample_program = file_bytes (hdr sample_file) (sd_sector s)" using sample_disk by metis
  obtain fs :: FileSystem and s0 where "fs_inv fs s0" using program_on_disk by metis
  obtain c where "SynchConsole_new [] = Inr c" by (rule sample_console)
  define rv :: "32 word list" where "rv = (replicate 40 0)[2 := 6, 4 := 16, 5 := of_nat 110, 6 := 3]"
  define os where "os = calling_os rv s fs c"
  have m: "length (registers (mach os)) = 40" by (simp add: os_def calling_mach rv_def)
  have r: "reg (mach os) 2 = 6" "reg (mach os) 5 = of_nat 110" "reg (mach os) 6 = 3" "reg (mach os) 4 = 16"
    by (simp_all add: os_def calling_mach reg_def rv_def)
  have f: "has_open os (sint (3 :: 32 word)) (sample_file\<lparr>seekPosition := 100\<rparr>)" using calling_open by (simp add: os_def)
  have d: "diskState os = s" by (simp add: os_def calling_mach)
  from Read_call_delivers_nothing [OF m r(1-3) _ f, of "take 110 (drop 100 sample_program)" sample_junk] s sample_file_ok d INT_MAX_def obtain os' where
    e: "ExceptionHandler sample_junk SyscallException os = Some (Inr os')"
    "registers (mach os') = returns (of_nat (length (take 110 (drop 100 sample_program)))) (registers (mach os))" "user_byte (mach os') = user_byte (mach os)" by auto
  have "reg (mach os') 2 = 100" using e(2) by (simp add: length_sample_program reg_def returns_def os_def calling_mach rv_def reg_nums)
  moreover have "user_byte (mach os') 16 = Some 0" unfolding e(3) unfolding os_def by (rule calling_byte) simp
  moreover have "sample_program ! 100 \<noteq> 0" by (simp add: sample_program_def nth_append)
  ultimately show ?thesis using s(2) d r(4) e(1) by (intro exI [of _ os] exI [of _ os']) simp
qed

end
