(* ===== verification/Console_Live.thy ===== *)
theory Console_Live
  imports Syscalls
begin

text \<open>
  Progress of the console: the loops in which a thread waits for an interrupt (\<open>await_written\<close>, \<open>await_char\<close>) return, so that
  what a program writes is displayed and what is typed is delivered, from every state that threads and interrupts can reach.
\<close>

section \<open>The next interrupt\<close>

definition live :: "sconsole \<Rightarrow> bool" where
  "live s \<longleftrightarrow> int_inv s \<and> (\<forall>q \<in> set (pending s). itype (snd q) \<noteq> TimerInt)"

definition clock_at :: "int \<Rightarrow> sconsole \<Rightarrow> Statistics" where
  "clock_at w s = (if w > now s then (stats s)\<lparr>idleTicks := idleTicks (stats s) + (w - now s), totalTicks := w\<rparr> else stats s)"

lemma totalTicks_clock_at [simp]: "totalTicks (clock_at w s) = max (now s) w"
  by (simp add: clock_at_def)

text \<open>The state in which the routine of the first pending interrupt is called.\<close>

definition calling :: "int \<Rightarrow> (int \<times> console_int PendingInterrupt) list \<Rightarrow> sconsole \<Rightarrow> sconsole" where
  "calling w rest s = s\<lparr>level := IntOff, pending := rest, stats := clock_at w s, inHandler := True, istatus := SystemMode\<rparr>"

lemma next_interrupt_calls:
  assumes L: "live s" and p: "pending s = (w, p) # rest" and c: "console_call (handler p) (calling w rest s) = Inr s2"
  shows "next_interrupt s = Inr (s2\<lparr>istatus := istatus s, inHandler := False, level := level s\<rparr>)"
proof -
  have "itype p \<noteq> TimerInt" using L p by (simp add: live_def)
  then show ?thesis using p c
    by (cases "w > now s") (simp_all add: next_interrupt_def CheckIfDue_def fire_def ChangeLevel_def Let_def calling_def clock_at_def)
qed

lemma live_insert: "live s \<Longrightarrow> when_due q = w \<Longrightarrow> itype q \<noteq> TimerInt \<Longrightarrow> live (s\<lparr>pending := insert_sorted w q (pending s)\<rparr>)"
  using int_inv_insert [of s q w] by (auto simp: live_def set_insert_sorted)

lemma live_cong: "pending s' = pending s \<Longrightarrow> live s' = live s"
  by (simp add: live_def int_inv_def)

lemma live_calling: "live s \<Longrightarrow> pending s = (w, p) # rest \<Longrightarrow> live (calling w rest s)"
  by (simp add: live_def calling_def int_inv_def)

text \<open>The two kinds of interrupts.\<close>

lemma done_fires:
  assumes L: "live s" and p: "pending s = (w, p) # rest" and h: "handler p = ConsoleWriteDone"
  obtains s' where "next_interrupt s = Inr s'" "live s'" "pending s' = rest" "\<not> putBusy s'" "cwrite s' = cwrite s + 1"
    "writing s' = writing s" "display s' = display s" "keyboard s' = keyboard s" "incoming s' = incoming s" "cread s' = cread s" "reading s' = reading s"
proof -
  let ?t = "calling w rest s"
  let ?s = "Console_WriteDone RequestWrite ?t"
  let ?s' = "?s\<lparr>istatus := istatus s, inHandler := False, level := level s\<rparr>"
  have "next_interrupt s = Inr ?s'" by (rule next_interrupt_calls [OF L p]) (simp add: console_call_def h)
  moreover have "live ?s'" using live_calling [OF L p] by (subst live_cong [where s = ?t]) (simp_all add: Console_WriteDone_def RequestWrite_def)
  ultimately show ?thesis by (rule that) (simp_all add: Console_WriteDone_def RequestWrite_def calling_def)
qed

definition poll_at :: "int \<Rightarrow> (int \<times> console_int PendingInterrupt) list \<Rightarrow> (int \<times> console_int PendingInterrupt) list" where
  "poll_at w = insert_sorted w (PendingInterrupt_new ConsoleReadPoll w ConsoleReadInt)"

lemma CheckCharAvail_returns: "\<exists>s2. CheckCharAvail RequestRead s = Inr s2"
proof -
  obtain s1 :: sconsole where "Schedule ConsoleReadPoll ConsoleTime ConsoleReadInt s = Inr s1" using Schedule_console by blast
  then show ?thesis by (cases "incoming s1 \<noteq> EOFc"; cases "keyboard s1") (auto simp: CheckCharAvail_def split: option.split)
qed

lemma poll_fires:
  assumes L: "live s" and p: "pending s = (w, p) # rest" and h: "handler p = ConsoleReadPoll"
  obtains s' where "next_interrupt s = Inr s'" "live s'" "pending s' = poll_at (max (now s) w + 100) rest"
    "putBusy s' = putBusy s" "cwrite s' = cwrite s" "writing s' = writing s" "display s' = display s" "reading s' = reading s"
    "incoming s = EOFc \<Longrightarrow> keyboard s' = tl (keyboard s)"
proof -
  let ?t = "calling w rest s"
  let ?t1 = "?t\<lparr>pending := poll_at (max (now s) w + 100) rest\<rparr>"
  have pt: "pending ?t = rest" "now ?t = max (now s) w" by (simp_all add: calling_def)
  have S: "Schedule ConsoleReadPoll ConsoleTime ConsoleReadInt ?t = Inr ?t1"
    unfolding Schedule_def Let_def pt by (simp add: ConsoleTime_def poll_at_def)
  have "live ?t1" using live_insert [OF live_calling [OF L p], of "PendingInterrupt_new ConsoleReadPoll (max (now s) w + 100) ConsoleReadInt"]
    by (simp add: pt PendingInterrupt_new_def poll_at_def)
  obtain s2 where C: "CheckCharAvail RequestRead ?t = Inr s2" using CheckCharAvail_returns by blast
  have e: "pending s2 = pending ?t1" "putBusy s2 = putBusy s" "cwrite s2 = cwrite s" "writing s2 = writing s" "display s2 = display s"
    "reading s2 = reading s" "incoming s = EOFc \<Longrightarrow> keyboard s2 = tl (keyboard s)"
    using C unfolding CheckCharAvail_def S
    by (auto simp: RequestRead_def calling_def split: if_splits list.splits option.splits)
  let ?s' = "s2\<lparr>istatus := istatus s, inHandler := False, level := level s\<rparr>"
  have "next_interrupt s = Inr ?s'" by (rule next_interrupt_calls [OF L p]) (simp add: console_call_def h C)
  moreover have "live ?s'" using \<open>live ?t1\<close> e(1) by (subst live_cong [where s = ?t1]) simp_all
  ultimately show ?thesis by (rule that) (simp_all add: e)
qed

section \<open>Waiting\<close>

lemma sc_inv_silent [simp]: "sc_inv keys (es @ [Silent]) s = sc_inv keys es s"
  by (simp add: sc_inv_def)

lemma next_interrupt_inv:
  assumes inv: "sc_inv keys es s" and keys: "EOFc \<notin> set keys" and n: "next_interrupt s = Inr s'"
  shows "sc_inv keys es s'"
proof -
  obtain b s1 where s1: "CheckIfDue console_call Inr True (ChangeLevel IntOff s) = Inr (b, s1)" "s' = ChangeLevel (level s) s1"
    using n by (auto simp: next_interrupt_def rbind_eq_Inr)
  have "sc_inv keys es (ChangeLevel IntOff s)" using inv by (simp add: sc_inv_def ChangeLevel_def pending_for_def)
  from CheckIfDue_inv [OF this keys s1(1)] show ?thesis by (simp add: s1(2) sc_inv_def ChangeLevel_def pending_for_def)
qed

lemma await_written_wait: "writeConsole_end s = None \<Longrightarrow> next_interrupt s = Inr s1 \<Longrightarrow> await_written s = await_written s1"
  by (subst await_written.simps) simp

text \<open>The pending interrupts are one poll and, while a character is on its way, its completion.\<close>

lemma length_handlers: "length ps = length (filter (\<lambda>(w, p). handler p = ConsoleReadPoll) ps) + length (filter (\<lambda>(w, p). handler p = ConsoleWriteDone) ps)"
proof (induction ps)
  case (Cons q qs)
  then show ?case by (cases q; cases "handler (snd q)") auto
qed simp

lemma pending_two:
  assumes "sc_inv keys es s" and "putBusy s"
  obtains w1 p1 w2 p2 where "pending s = [(w1, p1), (w2, p2)]"
    and "handler p1 = ConsoleWriteDone \<or> handler p1 = ConsoleReadPoll \<and> handler p2 = ConsoleWriteDone"
proof -
  have n: "pending_for ConsoleReadPoll s = 1" "pending_for ConsoleWriteDone s = 1" using assms by (simp_all add: sc_inv_def)
  then have "length (pending s) = 2" using length_handlers [of "pending s"] by (simp add: pending_for_def)
  then obtain w1 p1 w2 p2 where p: "pending s = [(w1, p1), (w2, p2)]" by (auto simp: numeral_2_eq_2 length_Suc_conv)
  moreover have "handler p1 = ConsoleWriteDone \<or> handler p1 = ConsoleReadPoll \<and> handler p2 = ConsoleWriteDone"
    using n p by (cases "handler p1"; cases "handler p2") (auto simp: pending_for_def)
  ultimately show ?thesis by (rule that)
qed

text \<open>How far the poll is before the completion.\<close>

definition lead :: "sconsole \<Rightarrow> nat" where
  "lead s = (case pending s of (w1, p1) # (w2, p2) # _ \<Rightarrow> if handler p1 = ConsoleReadPoll then nat (w2 + 1 - w1) else 0 | _ \<Rightarrow> 0)"

lemma lead_decreases:
  assumes L: "live s" and p: "pending s = [(w1, p1), (w2, p2)]" and h: "handler p1 = ConsoleReadPoll" "handler p2 = ConsoleWriteDone"
    and p': "pending s' = poll_at (max (now s) w1 + 100) [(w2, p2)]"
  shows "lead s' < lead s"
proof -
  have "w1 \<le> w2" using L p by (simp add: live_def int_inv_def)
  then show ?thesis using p p' h by (auto simp: lead_def poll_at_def PendingInterrupt_new_def)
qed

lemma await_written_returns:
  assumes "sc_inv keys es s" and keys: "EOFc \<notin> set keys" and "live s" and "writing s"
  shows "\<exists>s'. await_written s = Some (Inr s') \<and> display s' = display s \<and> \<not> writing s' \<and> sc_inv keys es s' \<and> live s'"
  using assms(1,3,4)
proof (induction "lead s" arbitrary: s rule: less_induct)
  case less
  note inv = less.prems(1) and L = less.prems(2) and wr = less.prems(3)
  show ?case
  proof (cases "cwrite s > 0")
    case True
    then show ?thesis using inv L wr by (subst await_written.simps)
      (auto simp: writeConsole_end_def sc_inv_def pending_for_def live_def int_inv_def)
  next
    case False
    then have e: "writeConsole_end s = None" and "putBusy s"
      using inv wr by (cases "putBusy s"; simp add: writeConsole_end_def sc_inv_def)+
    from inv this(2) obtain w1 p1 w2 p2 where p: "pending s = [(w1, p1), (w2, p2)]"
      and h: "handler p1 = ConsoleWriteDone \<or> handler p1 = ConsoleReadPoll \<and> handler p2 = ConsoleWriteDone" by (rule pending_two)
    from h show ?thesis
    proof
      assume "handler p1 = ConsoleWriteDone"
      then obtain s1 where n: "next_interrupt s = Inr s1" and f: "live s1" "cwrite s1 = cwrite s + 1" "writing s1 = writing s" "display s1 = display s"
        using done_fires [OF L p] by metis
      have "sc_inv keys es s1" by (rule next_interrupt_inv [OF inv keys n])
      moreover have "await_written s = Some (Inr (s1\<lparr>cwrite := cwrite s, writing := False\<rparr>))"
        using await_written_wait [OF e n] f(2,3) wr by (subst (asm) await_written.simps [of s1]) (simp add: writeConsole_end_def)
      ultimately show ?thesis using f wr by (auto simp: sc_inv_def pending_for_def live_def int_inv_def)
    next
      assume h': "handler p1 = ConsoleReadPoll \<and> handler p2 = ConsoleWriteDone"
      then obtain s1 where n: "next_interrupt s = Inr s1" and f: "live s1" "pending s1 = poll_at (max (now s) w1 + 100) [(w2, p2)]"
        "writing s1 = writing s" "display s1 = display s" using poll_fires [OF L p] by metis
      have "lead s1 < lead s" using lead_decreases [OF L p _ _ f(2)] h' by blast
      from less.hyps [OF this next_interrupt_inv [OF inv keys n] f(1)] show ?thesis using f(3,4) wr await_written_wait [OF e n] by auto
    qed
  qed
qed

lemma put_char_returns:
  assumes inv: "sc_inv keys es s" and keys: "EOFc \<notin> set keys" and L: "live s" and wr: "\<not> writing s"
  shows "\<exists>s'. put_char c s = Some (Inr s') \<and> sc_inv keys (es @ [Wrote c]) s' \<and> live s' \<and> \<not> writing s'"
proof -
  have b: "\<not> putBusy s" using inv wr by (auto simp: sc_inv_def)
  let ?s = "s\<lparr>display := display s @ [c], putBusy := True\<rparr>"
  let ?q = "PendingInterrupt_new ConsoleWriteDone (now s + 100) ConsoleWriteInt"
  let ?s1 = "?s\<lparr>pending := insert_sorted (now s + 100) ?q (pending s), writing := True\<rparr>"
  have w: "writeConsole c s = Some (Inr ?s1)"
    using b wr by (simp add: writeConsole_def PutChar_def Schedule_def ConsoleTime_def Let_def)
  have "live (s\<lparr>pending := insert_sorted (now s + 100) ?q (pending s)\<rparr>)" by (rule live_insert [OF L]) (simp_all add: PendingInterrupt_new_def)
  then have L1: "live ?s1" by (simp add: live_def int_inv_def)
  have "sc_step s (Wrote c) ?s1" using w by (rule sc_step.write_begin)
  then have "sc_inv keys (es @ [Wrote c]) ?s1" by (rule sc_step_inv [OF inv keys])
  from await_written_returns [OF this keys L1] show ?thesis by (auto simp: put_char_def obind_def w)
qed

lemma console_write_returns:
  assumes "sc_inv keys es s" and keys: "EOFc \<notin> set keys" and "live s" and "\<not> writing s"
  shows "\<exists>s'. console_write bs s = Some (Inr s') \<and> sc_inv keys (es @ map Wrote bs) s' \<and> live s' \<and> \<not> writing s'"
  using assms(1,3,4)
proof (induction bs arbitrary: es s)
  case Nil
  then show ?case by simp
next
  case (Cons b bs)
  obtain s1 where s1: "put_char b s = Some (Inr s1)" "sc_inv keys (es @ [Wrote b]) s1" "live s1" "\<not> writing s1"
    using put_char_returns [OF Cons.prems(1) keys Cons.prems(2,3)] by blast
  from Cons.IH [OF s1(2-4)] show ?case using s1(1) by (simp add: obind_def)
qed

lemma await_char_wait: "readConsole s = None \<Longrightarrow> next_interrupt s = Inr s1 \<Longrightarrow> await_char s = await_char s1"
  by (subst await_char.simps) simp

lemma await_char_returns:
  assumes "sc_inv keys es s" and keys: "EOFc \<notin> set keys" and "live s" and "\<not> reading s" and "buffered s @ typed (keyboard s) = c # cs"
  shows "\<exists>s'. await_char s = Some (Inr (c, s'))"
  using assms(1,3-5)
proof (induction "length (keyboard s) + of_bool (putBusy s)" arbitrary: s rule: less_induct)
  case less
  note inv = less.prems(1) and L = less.prems(2) and rd = less.prems(3) and t = less.prems(4)
  show ?case
  proof (cases "cread s > 0")
    case True
    then have "incoming s \<noteq> EOFc" using inv rd by (auto simp: sc_inv_def)
    then have "incoming s = c" using t by (simp add: buffer_of_def)
    then show ?thesis using True rd by (subst await_char.simps) (simp add: readConsole_def readConsole_end_def GetChar_def)
  next
    case False
    then have e: "readConsole s = None" and eof: "incoming s = EOFc" using inv rd by (auto simp: readConsole_def sc_inv_def)
    have k: "keyboard s \<noteq> []" using t eof by (auto simp: buffer_of_def)
    have "pending s \<noteq> []" using inv by (auto simp: sc_inv_def pending_for_def)
    then obtain w p rest where p: "pending s = (w, p) # rest" by (cases "pending s") auto
    have same: "buffered s1 @ typed (keyboard s1) = c # cs" if "next_interrupt s = Inr s1" for s1
      using next_interrupt_inv [OF inv keys that] inv t by (simp add: sc_inv_def) (metis append.assoc same_append_eq)
    show ?thesis
    proof (cases "handler p")
      case ConsoleReadPoll
      then obtain s1 where n: "next_interrupt s = Inr s1" and f: "live s1" "putBusy s1 = putBusy s" "reading s1 = reading s" "keyboard s1 = tl (keyboard s)"
        using poll_fires [OF L p] eof by metis
      have "length (keyboard s1) + of_bool (putBusy s1) < length (keyboard s) + of_bool (putBusy s)" using f(2,4) k by (cases "keyboard s") auto
      from less.hyps [OF this next_interrupt_inv [OF inv keys n] f(1) _ same [OF n]] show ?thesis using f(3) rd await_char_wait [OF e n] by auto
    next
      case ConsoleWriteDone
      then have "putBusy s" using inv p by (cases "putBusy s") (auto simp: sc_inv_def pending_for_def)
      from ConsoleWriteDone obtain s1 where n: "next_interrupt s = Inr s1" and f: "live s1" "\<not> putBusy s1" "reading s1 = reading s" "keyboard s1 = keyboard s"
        using done_fires [OF L p] by metis
      have "length (keyboard s1) + of_bool (putBusy s1) < length (keyboard s) + of_bool (putBusy s)" using f(2,4) \<open>putBusy s\<close> by simp
      from less.hyps [OF this next_interrupt_inv [OF inv keys n] f(1) _ same [OF n]] show ?thesis using f(3) rd await_char_wait [OF e n] by auto
    qed
  qed
qed

section \<open>Every reachable state\<close>

lemma console_call_live:
  assumes L: "live t" and C: "console_call h t = Inr t'"
  shows "live t'"
proof (cases h)
  case ConsoleReadPoll
  let ?q = "PendingInterrupt_new ConsoleReadPoll (now t + 100) ConsoleReadInt"
  have S: "Schedule ConsoleReadPoll ConsoleTime ConsoleReadInt t = Inr (t\<lparr>pending := insert_sorted (now t + 100) ?q (pending t)\<rparr>)"
    by (simp add: Schedule_def ConsoleTime_def Let_def)
  have "pending t' = insert_sorted (now t + 100) ?q (pending t)"
    using C ConsoleReadPoll unfolding console_call_def CheckCharAvail_def S
    by (auto simp: RequestRead_def split: if_splits list.splits option.splits)
  then show ?thesis using live_insert [OF L, of ?q "now t + 100"]
    by (subst live_cong [where s = "t\<lparr>pending := insert_sorted (now t + 100) ?q (pending t)\<rparr>"]) (simp_all add: PendingInterrupt_new_def)
next
  case ConsoleWriteDone
  then show ?thesis using C L by (subst live_cong [where s = t]) (auto simp: console_call_def Console_WriteDone_def RequestWrite_def)
qed

lemma CheckIfDue_live:
  assumes L: "live s" and C: "CheckIfDue console_call Inr adv s = Inr (b, s')"
  shows "live s'"
proof (cases "pending s")
  case Nil
  then show ?thesis using C L by (simp add: CheckIfDue_def)
next
  case (Cons q rest)
  obtain w p where q: "q = (w, p)" by (cases q)
  have L1: "live (s\<lparr>pending := rest\<rparr>)" "when_due p = w" "itype p \<noteq> TimerInt" using L Cons q by (simp_all add: live_def int_inv_def)
  define st where "st = (if adv \<and> w > now s then (stats s)\<lparr>idleTicks := idleTicks (stats s) + (w - now s), totalTicks := w\<rparr> else stats s)"
  have put: "live (s\<lparr>pending := insert_sorted w p rest, stats := sa\<rparr>)" for sa
    using live_insert [OF L1] by (simp add: live_def int_inv_def)
  consider "s' = s\<lparr>pending := insert_sorted w p rest, stats := stats s\<rparr>"
    | "s' = s\<lparr>pending := insert_sorted w p rest, stats := st\<rparr>"
    | "fire console_call Inr (istatus s) p (s\<lparr>pending := rest, stats := st\<rparr>) = Inr s'"
    unfolding st_def using C Cons q by (cases "adv \<and> w > now s") (auto simp: CheckIfDue_def Let_def rbind_eq_Inr split: if_splits)
  then show ?thesis
  proof cases
    case 3
    then obtain s2 where s2: "console_call (handler p) (s\<lparr>pending := rest, stats := st, inHandler := True, istatus := SystemMode\<rparr>) = Inr s2"
      "s' = s2\<lparr>istatus := istatus s, inHandler := False\<rparr>" by (auto simp: fire_def rbind_eq_Inr)
    have "live s2" by (rule console_call_live [OF _ s2(1)]) (use L1 in \<open>simp add: live_def int_inv_def\<close>)
    then show ?thesis unfolding s2(2) by (simp add: live_def int_inv_def)
  qed (use put in \<open>simp_all only:\<close>)
qed

lemma sc_step_live:
  assumes L: "live s" and st: "sc_step s e s'"
  shows "live s'"
  using st
proof cases
  case (write_begin c)
  let ?q = "PendingInterrupt_new ConsoleWriteDone (now s + 100) ConsoleWriteInt"
  have "pending s' = insert_sorted (now s + 100) ?q (pending s)"
    using write_begin by (auto simp: writeConsole_def PutChar_def Schedule_def ConsoleTime_def Let_def rbind_eq_Inr split: if_splits)
  then show ?thesis using live_insert [OF L, of ?q "now s + 100"]
    by (subst live_cong [where s = "s\<lparr>pending := insert_sorted (now s + 100) ?q (pending s)\<rparr>"]) (simp_all add: PendingInterrupt_new_def)
next
  case (interrupt adv b)
  then show ?thesis using CheckIfDue_live [OF L] by simp
qed (use L in \<open>auto simp: live_def int_inv_def writeConsole_end_def readConsole_def readConsole_end_def GetChar_def advance_clock_def
    ChangeLevel_def split: if_splits\<close>)

lemma sc_run_live:
  assumes "sc_run s0 es s" and "SynchConsole_new keys = Inr s0"
  shows "live s"
  using assms
proof (induction rule: sc_run.induct)
  case (start s)
  then show ?case
    by (auto simp: SynchConsole_new_def Console_new_def Schedule_def Let_def live_def int_inv_def PendingInterrupt_new_def ConsoleTime_def)
qed (use sc_step_live in blast)

section \<open>Properties\<close>

text \<open>
  C11. Progress, when no typed key is the byte 0xff (which the console cannot tell from \<^verbatim>\<open>EOF\<close>; \<open>console_drops_EOF\<close> shows what
  happens to it): from every state that threads and interrupts can reach, a thread that gets the lock of the display
  returns from writing any text, with the text displayed behind what was there; and a thread that gets the lock of
  the keyboard while a character is buffered or still going to be typed returns from reading, with the first such character.
\<close>

theorem console_progress:
  assumes "SynchConsole_new keys = Inr s0" and "sc_run s0 es s" and "EOFc \<notin> set (typed keys)"
  shows "(writing s \<or> (\<exists>s'. console_write bs s = Some (Inr s') \<and> display s' = display s @ bs))
    \<and> (reading s \<or> buffered s @ typed (keyboard s) = [] \<or> (\<exists>s'. await_char s = Some (Inr (hd (buffered s @ typed (keyboard s)), s'))))"
proof -
  have inv: "sc_inv (typed keys) es s" and L: "live s" using sc_run_inv [OF assms(2,1,3)] sc_run_live [OF assms(2,1)] by blast+
  have d: "wrotes (map Wrote bs) = bs" by (induction bs) simp_all
  have "\<exists>s'. console_write bs s = Some (Inr s') \<and> display s' = display s @ bs" if wr: "\<not> writing s"
  proof -
    obtain s' where s': "console_write bs s = Some (Inr s')" "sc_inv (typed keys) (es @ map Wrote bs) s'"
      using console_write_returns [OF inv assms(3) L wr] by blast
    then have "display s' = display s @ bs" using inv d by (simp add: sc_inv_def)
    then show ?thesis using s'(1) by blast
  qed
  moreover have "\<exists>s'. await_char s = Some (Inr (c, s'))" if "\<not> reading s" "buffered s @ typed (keyboard s) = c # cs" for c cs
    using await_char_returns [OF inv assms(3) L that] .
  ultimately show ?thesis by (cases "buffered s @ typed (keyboard s)") auto
qed

text \<open>At the start, with a key press to come.\<close>

theorem console_progress_witness:
  "\<exists>s0 s1 s2. SynchConsole_new [None, Some 104] = Inr s0 \<and> console_write [111, 107] s0 = Some (Inr s1) \<and> display s1 = [111, 107]
    \<and> await_char s0 = Some (Inr (104, s2))"
proof -
  obtain s0 where s0: "SynchConsole_new [None, Some 104] = Inr s0"
    by (simp add: SynchConsole_new_def Console_new_def Schedule_def ConsoleTime_def Let_def)
  then have f: "\<not> writing s0" "\<not> reading s0" "display s0 = []" "buffered s0 @ typed (keyboard s0) = [104]"
    by (auto simp: SynchConsole_new_def Console_new_def Schedule_def ConsoleTime_def Let_def buffer_of_def)
  have "EOFc \<notin> set (typed [None, Some 104])" by (simp add: EOFc_def)
  from console_progress [OF s0 sc_run.start this, of "[111, 107]"] f s0 show ?thesis by auto
qed

end
