(* ===== verification/Network.thy ===== *)
theory Network
  imports Complex_Main Interrupt
begin

text \<open>
  The network device of \<^verbatim>\<open>machine/network.cc\<close>, with the sockets of \<^verbatim>\<open>machine/sysdep.cc\<close> that carry its packets. A
  datagram socket is the queue of the packets that have been sent to it and not yet read. The record of the
  device extends the interrupt state, and its operations work on every extension, such as the post office.
\<close>

section \<open>Headers on the wire\<close>

text \<open>A structure of fixed size that is stored in a buffer and read back.\<close>

locale wire_format =
  fixes enc :: "'a \<Rightarrow> byte list" and dec :: "byte list \<Rightarrow> 'a" and size :: nat
  assumes length_enc: "length (enc x) = size" and dec_enc: "dec (enc x) = x" and dec_take: "dec (take size bs) = dec bs"
begin

lemma dec_prefix: "take size bs = enc x \<Longrightarrow> dec bs = x"
  using dec_take [of bs] by (simp add: dec_enc)

lemma dec_cong: "take n xs = take n ys \<Longrightarrow> size \<le> n \<Longrightarrow> dec xs = dec ys"
  using arg_cong [of "take n xs" "take n ys" "take size"] by (metis dec_take min.absorb1 take_take)

lemma dec_patch: "size \<le> length bs \<Longrightarrow> dec (patch bs 0 (enc x)) = x"
  by (rule dec_prefix) (simp add: patch_def length_enc)

lemma dec_patch_behind: "size \<le> off \<Longrightarrow> off \<le> length bs \<Longrightarrow> dec (patch (patch bs 0 (enc x)) off ys) = x"
  by (rule dec_prefix) (simp add: patch_def length_enc)

end

record PacketHeader =
  pkt_to :: "32 word" \<comment> \<open>\<^verbatim>\<open>to\<close>\<close>
  pkt_from :: "32 word" \<comment> \<open>\<^verbatim>\<open>from\<close>\<close>
  pkt_length :: "32 word" \<comment> \<open>\<^verbatim>\<open>length\<close>\<close>

definition PacketHeader_bytes :: "PacketHeader \<Rightarrow> byte list" where
  "PacketHeader_bytes h = bytes_of [pkt_to h, pkt_from h, pkt_length h]"

definition PacketHeader_of :: "byte list \<Rightarrow> PacketHeader" where
  "PacketHeader_of bs = (let ws = words_of (take 12 bs) in \<lparr>pkt_to = ws ! 0, pkt_from = ws ! 1, pkt_length = ws ! 2\<rparr>)"

definition sizeof_PacketHeader :: int where "sizeof_PacketHeader = 12"
definition MaxWireSize :: int where "MaxWireSize = 64"
definition MaxPacketSize :: int where "MaxPacketSize = MaxWireSize - sizeof_PacketHeader"

interpretation pkt_wire: wire_format PacketHeader_bytes PacketHeader_of 12
  by unfold_locales (simp_all add: PacketHeader_bytes_def PacketHeader_of_def Let_def)

section \<open>State\<close>

datatype net_int = NetworkReadPoll | NetworkSendDone

record network = "net_int Interrupt" +
  ident :: "32 word"
  chanceToWork :: rat
  sendBusy :: bool
  inHdr :: PacketHeader
  inbox :: "byte list"
  sock :: "byte list list"

type_synonym 'z nstate = "'z network_scheme"

section \<open>network.cc\<close>

text \<open>
  The constructor; the memory of the object is \<open>s\<close>, so that \<^verbatim>\<open>inbox\<close> and the addresses in \<^verbatim>\<open>inHdr\<close> are what
  happened to be there.
\<close>

definition Network_new :: "32 word \<Rightarrow> rat \<Rightarrow> 'z nstate \<Rightarrow> 'z nstate res" where
  "Network_new addr reliability s =
     Schedule NetworkReadPoll NetworkTime NetworkRecvInt
      (s\<lparr>ident := addr,
         chanceToWork := (if reliability < 0 then 0 else if reliability > 1 then 1 else reliability),
         sendBusy := False, inHdr := (inHdr s)\<lparr>pkt_length := 0\<rparr>, sock := []\<rparr>)"

text \<open>\<^verbatim>\<open>recvfrom\<close> cuts a longer datagram, and the assertion refuses a shorter one.\<close>

definition ReadFromSocket :: "byte list \<Rightarrow> int \<Rightarrow> byte list res" where
  "ReadFromSocket datagram packetSize =
     ASSERT (min (int (length datagram)) packetSize = packetSize) (Inr (take (nat packetSize) datagram))"

text \<open>\<open>rh\<close> and \<open>wh\<close> are the handlers that the client gives to the constructor.\<close>

definition CheckPktAvail :: "('z nstate \<Rightarrow> 'z nstate) \<Rightarrow> 'z nstate \<Rightarrow> 'z nstate res" where
  "CheckPktAvail rh s =
     rbind (Schedule NetworkReadPoll NetworkTime NetworkRecvInt s) (\<lambda>s1.
     if pkt_length (inHdr s1) \<noteq> 0 then Inr s1
     else (case sock s1 of
        [] \<Rightarrow> Inr s1
      | datagram # rest \<Rightarrow>
          rbind (ReadFromSocket datagram MaxWireSize) (\<lambda>buffer.
          let hdr = PacketHeader_of buffer in
          ASSERT (pkt_to hdr = ident s1 \<and> uint (pkt_length hdr) \<le> MaxPacketSize)
           (rbind (bcopy_out buffer sizeof_PacketHeader (uint (pkt_length hdr))) (\<lambda>payload.
            rbind (bcopy_in payload (uint (pkt_length hdr)) 0 (inbox s1)) (\<lambda>ib.
            Inr (rh (s1\<lparr>sock := rest, inHdr := hdr, inbox := ib,
              stats := (stats s1)\<lparr>numPacketsRecvd := numPacketsRecvd (stats s1) + 1\<rparr>\<rparr>))))))))"

definition SendDone :: "('z nstate \<Rightarrow> 'z nstate) \<Rightarrow> 'z nstate \<Rightarrow> 'z nstate" where
  "SendDone wh s = wh (s\<lparr>sendBusy := False, stats := (stats s)\<lparr>numPacketsSent := numPacketsSent (stats s) + 1\<rparr>\<rparr>)"

text \<open>
  The packet that is handed to \<^verbatim>\<open>SendToSocket\<close>, if it is not dropped. \<open>rnd\<close> is the value of \<^verbatim>\<open>Random()\<close>, \<open>buf\<close> the
  new buffer, and \<open>fl\<close> the rounding of a product to a \<^verbatim>\<open>double\<close>.
\<close>

definition Network_Send :: "(rat \<Rightarrow> rat) \<Rightarrow> int \<Rightarrow> byte list \<Rightarrow> PacketHeader \<Rightarrow> byte list \<Rightarrow> 'z nstate
    \<Rightarrow> ('z nstate \<times> byte list option) res" where
  "Network_Send fl rnd buf hdr data s =
     ASSERT (sendBusy s = False \<and> pkt_length hdr > 0 \<and> uint (pkt_length hdr) \<le> MaxPacketSize \<and> pkt_from hdr = ident s)
      (rbind (Schedule NetworkSendDone NetworkTime NetworkSendInt s) (\<lambda>s1.
       if of_int (rnd smod 100) \<ge> fl (chanceToWork s1 * 100) then Inr (s1, None)
       else
         rbind (bcopy_in (PacketHeader_bytes hdr) sizeof_PacketHeader 0 buf) (\<lambda>buf1.
         rbind (bcopy_in data (uint (pkt_length hdr)) sizeof_PacketHeader buf1) (\<lambda>buf2.
         Inr (s1, Some buf2)))))"

definition Network_Receive :: "byte list \<Rightarrow> 'z nstate \<Rightarrow> (PacketHeader \<times> byte list \<times> 'z nstate) res" where
  "Network_Receive data s =
     (let hdr = inHdr s; s1 = s\<lparr>inHdr := hdr\<lparr>pkt_length := 0\<rparr>\<rparr> in
      if pkt_length hdr \<noteq> 0
      then rbind (bcopy_in (inbox s) (uint (pkt_length hdr)) 0 data) (\<lambda>data1. Inr (hdr, data1, s1))
      else Inr (hdr, data, s1))"

text \<open>The machines that take part, and the sockets by which they are known.\<close>

definition SendToSocket :: "byte list \<Rightarrow> 32 word \<Rightarrow> (32 word \<rightharpoonup> 'z nstate) \<Rightarrow> (32 word \<rightharpoonup> 'z nstate) res" where
  "SendToSocket buffer to w = (case w to of None \<Rightarrow> Inl AssertFail | Some s \<Rightarrow> Inr (w(to \<mapsto> s\<lparr>sock := sock s @ [buffer]\<rparr>)))"

lemmas net_consts = MaxPacketSize_def MaxWireSize_def sizeof_PacketHeader_def

lemma Schedule_net: "\<exists>pe. Schedule h NetworkTime ty s = Inr (s\<lparr>pending := pe\<rparr>)" for s :: "'z nstate"
  by (simp add: Schedule_def NetworkTime_def Let_def) blast

end
