(* ===== verification/Post.thy ===== *)
theory Post
  imports Network "HOL-Library.Sublist"
begin

text \<open>
  The post office (\<^verbatim>\<open>network/post.cc\<close>) on the network device, and a network of machines that run it. A mailbox is the
  sequence of messages that its \<^verbatim>\<open>SynchList\<close> holds. A thread that holds \<^verbatim>\<open>sendLock\<close>, and the postal
  worker, are represented by the point they have reached; the semaphores by their values. The theorem is the
  promise of \<^verbatim>\<open>post.h\<close>: messages may be lost, but they arrive in the order in which they were sent, and unchanged.
\<close>

section \<open>State\<close>

record MailHeader =
  mail_to :: "32 word" \<comment> \<open>\<^verbatim>\<open>to\<close>\<close>
  mail_from :: "32 word" \<comment> \<open>\<^verbatim>\<open>from\<close>\<close>
  mail_length :: "32 word" \<comment> \<open>\<^verbatim>\<open>length\<close>\<close>

definition MailHeader_bytes :: "MailHeader \<Rightarrow> byte list" where
  "MailHeader_bytes h = bytes_of [mail_to h, mail_from h, mail_length h]"

definition MailHeader_of :: "byte list \<Rightarrow> MailHeader" where
  "MailHeader_of bs = (let ws = words_of (take 12 bs) in \<lparr>mail_to = ws ! 0, mail_from = ws ! 1, mail_length = ws ! 2\<rparr>)"

definition sizeof_MailHeader :: int where "sizeof_MailHeader = 12"
definition MaxMailSize :: int where "MaxMailSize = MaxPacketSize - sizeof_MailHeader"

interpretation mail_wire: wire_format MailHeader_bytes MailHeader_of 12
  by unfold_locales (simp_all add: MailHeader_bytes_def MailHeader_of_def Let_def)

record Mail =
  pktHdr :: PacketHeader
  mailHdr :: MailHeader
  mail_data :: "byte list" \<comment> \<open>\<^verbatim>\<open>data\<close>\<close>

record post = network +
  netAddr :: "32 word"
  boxes :: "Mail list list" \<comment> \<open>the messages of each box\<close>
  numBoxes :: int
  messageAvailable :: nat
  messageSent :: nat
  sendLocked :: bool \<comment> \<open>a thread holds \<^verbatim>\<open>sendLock\<close> and waits for \<^verbatim>\<open>messageSent\<close>\<close>
  wbuf :: "byte list" \<comment> \<open>\<^verbatim>\<open>buffer\<close> of the postal worker\<close>
  wpkt :: "PacketHeader option" \<comment> \<open>its \<^verbatim>\<open>pktHdr\<close>, from \<^verbatim>\<open>network->Receive\<close> until the message is in its box\<close>

type_synonym world = "32 word \<rightharpoonup> post"

section \<open>post.cc\<close>

text \<open>\<open>arr\<close> is the array \<^verbatim>\<open>data\<close> of the new object.\<close>

definition Mail_new :: "byte list \<Rightarrow> PacketHeader \<Rightarrow> MailHeader \<Rightarrow> byte list \<Rightarrow> Mail res" where
  "Mail_new arr pktH mailH msgData =
     ASSERT (uint (mail_length mailH) \<le> MaxMailSize)
      (rbind (bcopy_in msgData (uint (mail_length mailH)) 0 arr) (\<lambda>d.
       Inr \<lparr>pktHdr = pktH, mailHdr = mailH, mail_data = d\<rparr>))"

definition MailBox_Put :: "byte list \<Rightarrow> PacketHeader \<Rightarrow> MailHeader \<Rightarrow> byte list \<Rightarrow> Mail list \<Rightarrow> Mail list res" where
  "MailBox_Put arr pktH mailH data messages = rbind (Mail_new arr pktH mailH data) (\<lambda>mail. Inr (messages @ [mail]))"

text \<open>\<open>None\<close>: the box is empty and the thread waits.\<close>

definition MailBox_Get :: "byte list \<Rightarrow> Mail list \<Rightarrow> (PacketHeader \<times> MailHeader \<times> byte list \<times> Mail list) res option" where
  "MailBox_Get data messages = (case messages of
     [] \<Rightarrow> None
   | mail # rest \<Rightarrow> Some
       (rbind (bcopy_in (mail_data mail) (uint (mail_length (mailHdr mail))) 0 data) (\<lambda>d.
        Inr (pktHdr mail, mailHdr mail, d, rest))))"

definition IncomingPacket :: "post \<Rightarrow> post" where
  "IncomingPacket s = s\<lparr>messageAvailable := messageAvailable s + 1\<rparr>"

definition PacketSent :: "post \<Rightarrow> post" where
  "PacketSent s = s\<lparr>messageSent := messageSent s + 1\<rparr>"

text \<open>The routines that the two interrupts of the network call.\<close>

definition net_call :: "net_int \<Rightarrow> post \<Rightarrow> post res" where
  "net_call h s = (case h of
     NetworkReadPoll \<Rightarrow> CheckPktAvail IncomingPacket s
   | NetworkSendDone \<Rightarrow> Inr (SendDone PacketSent s))"

text \<open>The memory of the new objects is \<open>mem\<close>; the new worker starts at the \<^verbatim>\<open>P\<close> of its loop.\<close>

definition PostOffice_new :: "32 word \<Rightarrow> rat \<Rightarrow> int \<Rightarrow> post \<Rightarrow> post res" where
  "PostOffice_new addr reliability nBoxes mem =
     Network_new addr reliability
      (mem\<lparr>messageAvailable := 0, messageSent := 0, sendLocked := False, netAddr := addr, numBoxes := nBoxes,
         boxes := replicate (nat nBoxes) [], wpkt := None\<rparr>)"

text \<open>
  \<^verbatim>\<open>Send\<close> up to \<^verbatim>\<open>messageSent->P()\<close>, with the packet for the socket and the header it has been given;
  \<open>None\<close>: the thread waits for \<^verbatim>\<open>sendLock\<close>. \<open>buffer\<close> and \<open>nbuf\<close> are the buffers that \<^verbatim>\<open>Send\<close> here and in \<^verbatim>\<open>network.cc\<close> allocate.
\<close>

definition PostOffice_Send :: "(rat \<Rightarrow> rat) \<Rightarrow> int \<Rightarrow> byte list \<Rightarrow> byte list \<Rightarrow> PacketHeader \<Rightarrow> MailHeader \<Rightarrow> byte list \<Rightarrow> post
    \<Rightarrow> (post \<times> PacketHeader \<times> byte list option) res option" where
  "PostOffice_Send fl rnd buffer nbuf pktH mailH data s =
     (let hdr = pktH\<lparr>pkt_from := netAddr s, pkt_length := mail_length mailH + word_of_int sizeof_MailHeader\<rparr>;
          prepared =
            ASSERT (uint (mail_length mailH) \<le> MaxMailSize)
             (ASSERT (0 \<le> sint (mail_to mailH) \<and> sint (mail_to mailH) < numBoxes s)
              (rbind (bcopy_in (MailHeader_bytes mailH) sizeof_MailHeader 0 buffer) (\<lambda>b1.
               bcopy_in data (uint (mail_length mailH)) sizeof_MailHeader b1)))
      in case prepared of
           Inl e \<Rightarrow> Some (Inl e)
         | Inr b \<Rightarrow>
             if sendLocked s then None
             else Some (rbind (Network_Send fl rnd nbuf hdr b s) (\<lambda>(s1, p). Inr (s1\<lparr>sendLocked := True\<rparr>, hdr, p))))"

text \<open>The rest of \<^verbatim>\<open>Send\<close>.\<close>

definition PostOffice_Send_end :: "post \<Rightarrow> post option" where
  "PostOffice_Send_end s =
     (if sendLocked s \<and> messageSent s > 0 then Some (s\<lparr>messageSent := messageSent s - 1, sendLocked := False\<rparr>) else None)"

text \<open>An iteration of \<^verbatim>\<open>PostalDelivery\<close>: the first two lines, and the rest.\<close>

definition PostalDelivery_take :: "post \<Rightarrow> post res option" where
  "PostalDelivery_take s =
     (if wpkt s = None \<and> messageAvailable s > 0
      then Some (rbind (Network_Receive (wbuf s) (s\<lparr>messageAvailable := messageAvailable s - 1\<rparr>)) (\<lambda>(h, b, s1).
                 Inr (s1\<lparr>wbuf := b, wpkt := Some h\<rparr>)))
      else None)"

definition PostalDelivery_put :: "byte list \<Rightarrow> post \<Rightarrow> post res option" where
  "PostalDelivery_put arr s = (case wpkt s of
     None \<Rightarrow> None
   | Some h \<Rightarrow> Some
      (let mailH = MailHeader_of (wbuf s) in
       ASSERT (0 \<le> sint (mail_to mailH) \<and> sint (mail_to mailH) < numBoxes s)
        (ASSERT (uint (mail_length mailH) \<le> MaxMailSize)
         (rbind (aget (boxes s) (sint (mail_to mailH))) (\<lambda>box.
          rbind (MailBox_Put arr h mailH (drop (nat sizeof_MailHeader) (wbuf s)) box) (\<lambda>box1.
          rbind (aput (boxes s) (sint (mail_to mailH)) box1) (\<lambda>bs.
          Inr (s\<lparr>boxes := bs, wpkt := None\<rparr>))))))))"

definition PostOffice_Receive :: "int \<Rightarrow> byte list \<Rightarrow> post \<Rightarrow> (PacketHeader \<times> MailHeader \<times> byte list \<times> post) res option" where
  "PostOffice_Receive box data s =
     (if \<not> (box \<ge> 0 \<and> box < numBoxes s) then Some (Inl AssertFail)
      else (case aget (boxes s) box of
              Inl e \<Rightarrow> Some (Inl e)
            | Inr msgs \<Rightarrow> (case MailBox_Get data msgs of
                  None \<Rightarrow> None
                | Some r \<Rightarrow> Some (rbind r (\<lambda>(h, mh, d, rest).
                    ASSERT (uint (mail_length mh) \<le> MaxMailSize) (Inr (h, mh, d, s\<lparr>boxes := (boxes s)[nat box := rest]\<rparr>)))))))"

section \<open>A network of machines\<close>

text \<open>A letter: the two headers and the text.\<close>

type_synonym letter = "PacketHeader \<times> MailHeader \<times> byte list"

datatype net_event = Sent letter | Lost letter | Got "32 word" nat letter | Quiet

text \<open>The letter in a packet whose data part starts with \<open>bs\<close>, and the one in a message.\<close>

definition letter_in :: "PacketHeader \<Rightarrow> byte list \<Rightarrow> letter" where
  "letter_in h bs = (h, MailHeader_of bs, take (unat (mail_length (MailHeader_of bs))) (drop 12 bs))"

definition letter_of_packet :: "byte list \<Rightarrow> letter" where
  "letter_of_packet bs = letter_in (PacketHeader_of bs) (drop 12 bs)"

definition letter_of_mail :: "Mail \<Rightarrow> letter" where
  "letter_of_mail m = (pktHdr m, mailHdr m, take (unat (mail_length (mailHdr m))) (mail_data m))"

text \<open>
  Any machine can take a step: a thread begins or ends to send, the worker takes a packet or puts it into a box, a
  thread takes a message, an interrupt fires, the clock advances, or interrupts are enabled or disabled.
\<close>

inductive net_step :: "world \<Rightarrow> net_event \<Rightarrow> world \<Rightarrow> bool" where
  send: "w a = Some s \<Longrightarrow> length buffer = 52 \<Longrightarrow> length nbuf = 64 \<Longrightarrow>
    PostOffice_Send fl rnd buffer nbuf pktH mailH data s = Some (Inr (s1, hdr, Some p)) \<Longrightarrow>
    SendToSocket p (pkt_to hdr) (w(a \<mapsto> s1)) = Inr w' \<Longrightarrow>
    net_step w (Sent (hdr, mailH, take (unat (mail_length mailH)) data)) w'"
| lose: "w a = Some s \<Longrightarrow> length buffer = 52 \<Longrightarrow> length nbuf = 64 \<Longrightarrow>
    PostOffice_Send fl rnd buffer nbuf pktH mailH data s = Some (Inr (s1, hdr, None)) \<Longrightarrow>
    net_step w (Lost (hdr, mailH, take (unat (mail_length mailH)) data)) (w(a \<mapsto> s1))"
| send_end: "w a = Some s \<Longrightarrow> PostOffice_Send_end s = Some s1 \<Longrightarrow> net_step w Quiet (w(a \<mapsto> s1))"
| worker_take: "w a = Some s \<Longrightarrow> PostalDelivery_take s = Some (Inr s1) \<Longrightarrow> net_step w Quiet (w(a \<mapsto> s1))"
| worker_put: "w a = Some s \<Longrightarrow> length arr = 40 \<Longrightarrow> PostalDelivery_put arr s = Some (Inr s1) \<Longrightarrow> net_step w Quiet (w(a \<mapsto> s1))"
| receive: "w a = Some s \<Longrightarrow> PostOffice_Receive (int b) data s = Some (Inr (h, mh, d, s1)) \<Longrightarrow>
    net_step w (Got a b (h, mh, take (unat (mail_length mh)) d)) (w(a \<mapsto> s1))"
| interrupt: "w a = Some s \<Longrightarrow> CheckIfDue net_call Inr adv s = Inr (fired, s1) \<Longrightarrow> net_step w Quiet (w(a \<mapsto> s1))"
| clock: "w a = Some s \<Longrightarrow> net_step w Quiet (w(a \<mapsto> advance_clock s))"
| set_level: "w a = Some s \<Longrightarrow> net_step w Quiet (w(a \<mapsto> ChangeLevel l s))"

inductive net_run :: "world \<Rightarrow> net_event list \<Rightarrow> world \<Rightarrow> bool" where
  start: "net_run w [] w"
| step: "net_run w es w1 \<Longrightarrow> net_step w1 e w2 \<Longrightarrow> net_run w (es @ [e]) w2"

text \<open>All machines are switched on with \<open>n\<close> mailboxes, whatever their memory holds.\<close>

definition net_boot :: "int \<Rightarrow> world \<Rightarrow> bool" where
  "net_boot n w \<longleftrightarrow> (\<forall>a s. w a = Some s \<longrightarrow>
     (\<exists>rely mem. length (inbox mem) = 52 \<and> length (wbuf mem) = 52 \<and> PostOffice_new a rely n mem = Inr s))"

abbreviation box_of :: "letter \<Rightarrow> nat" where
  "box_of l \<equiv> nat (sint (mail_to (fst (snd l))))"

fun sent_to :: "32 word \<Rightarrow> nat \<Rightarrow> net_event list \<Rightarrow> letter list" where
  "sent_to a b [] = []"
| "sent_to a b (Sent l # es) = (if pkt_to (fst l) = a \<and> box_of l = b then l # sent_to a b es else sent_to a b es)"
| "sent_to a b (_ # es) = sent_to a b es"

fun posted_to :: "32 word \<Rightarrow> nat \<Rightarrow> net_event list \<Rightarrow> letter list" where
  "posted_to a b [] = []"
| "posted_to a b (Sent l # es) = (if pkt_to (fst l) = a \<and> box_of l = b then l # posted_to a b es else posted_to a b es)"
| "posted_to a b (Lost l # es) = (if pkt_to (fst l) = a \<and> box_of l = b then l # posted_to a b es else posted_to a b es)"
| "posted_to a b (_ # es) = posted_to a b es"

fun got_at :: "32 word \<Rightarrow> nat \<Rightarrow> net_event list \<Rightarrow> letter list" where
  "got_at a b [] = []"
| "got_at a b (Got a' b' l # es) = (if a' = a \<and> b' = b then l # got_at a b es else got_at a b es)"
| "got_at a b (_ # es) = got_at a b es"

lemma sent_to_append [simp]: "sent_to a b (es @ fs) = sent_to a b es @ sent_to a b fs"
  by (induction a b es rule: sent_to.induct) simp_all

lemma got_at_append [simp]: "got_at a b (es @ fs) = got_at a b es @ got_at a b fs"
  by (induction a b es rule: got_at.induct) simp_all

lemma sent_posted: "subseq (sent_to a b es) (posted_to a b es)"
  by (induction a b es rule: posted_to.induct) auto

section \<open>The invariant\<close>

lemmas post_consts = net_consts MaxMailSize_def sizeof_MailHeader_def

text \<open>What has arrived at a machine but is not in a box, the oldest first.\<close>

definition in_transit :: "post \<Rightarrow> letter list" where
  "in_transit s = (case wpkt s of None \<Rightarrow> [] | Some h \<Rightarrow> [letter_in h (wbuf s)])
     @ (if pkt_length (inHdr s) = 0 then [] else [letter_in (inHdr s) (inbox s)]) @ map letter_of_packet (sock s)"

definition flow :: "post \<Rightarrow> nat \<Rightarrow> letter list" where
  "flow s b = map letter_of_mail (boxes s ! b) @ filter (\<lambda>l. box_of l = b) (in_transit s)"

text \<open>A packet for machine \<open>a\<close> with \<open>n\<close> boxes: its data part is a letter that fits.\<close>

definition legal :: "32 word \<Rightarrow> int \<Rightarrow> PacketHeader \<Rightarrow> byte list \<Rightarrow> bool" where
  "legal a n h bs \<longleftrightarrow> (let mh = MailHeader_of bs in length bs = 52 \<and> pkt_to h = a \<and> 0 \<le> sint (mail_to mh) \<and> sint (mail_to mh) < n
     \<and> unat (mail_length mh) \<le> 40 \<and> pkt_length h = mail_length mh + 12)"

definition node_ok :: "32 word \<Rightarrow> int \<Rightarrow> post \<Rightarrow> bool" where
  "node_ok a n s \<longleftrightarrow> ident s = a \<and> netAddr s = a \<and> numBoxes s = n \<and> length (boxes s) = nat n \<and> length (inbox s) = 52
     \<and> length (wbuf s) = 52 \<and> \<not> sendBusy s \<and> messageAvailable s = of_bool (pkt_length (inHdr s) \<noteq> 0)
     \<and> (\<forall>bs \<in> set (sock s). length bs = 64 \<and> legal a n (PacketHeader_of bs) (drop 12 bs))
     \<and> (pkt_length (inHdr s) \<noteq> 0 \<longrightarrow> legal a n (inHdr s) (inbox s))
     \<and> (\<forall>h. wpkt s = Some h \<longrightarrow> legal a n h (wbuf s))
     \<and> (\<forall>box \<in> set (boxes s). \<forall>m \<in> set box. unat (mail_length (mailHdr m)) \<le> 40 \<and> length (mail_data m) = 40)"

definition net_holds :: "32 word \<Rightarrow> int \<Rightarrow> (nat \<Rightarrow> letter list) \<Rightarrow> post \<Rightarrow> bool" where
  "net_holds a n D s \<longleftrightarrow> node_ok a n s \<and> (\<forall>b < nat n. flow s b = D b)"

text \<open>A copy whose length is a word.\<close>

lemma bcopy_word:
  "unat w \<le> length ys \<Longrightarrow> off + unat w \<le> length xs \<Longrightarrow> bcopy_in ys (uint w) (int off) xs = Inr (patch xs off (take (unat w) ys))"
  unfolding bcopy_in_def by (metis (no_types, lifting) nat_int of_nat_0_le_iff of_nat_add of_nat_le_iff uint_nat)

lemma copy_out_word:
  "off + unat w \<le> length xs \<Longrightarrow> bcopy_out xs (int off) (uint w) = Inr (take (unat w) (drop off xs))"
  unfolding bcopy_out_def by (metis (no_types, lifting) nat_int of_nat_0_le_iff of_nat_add of_nat_le_iff uint_nat)

text \<open>The length of a packet counts the header of the letter.\<close>

lemma legal_length:
  assumes "legal a n h bs"
  shows "unat (pkt_length h) = 12 + unat (mail_length (MailHeader_of bs))" "unat (mail_length (MailHeader_of bs)) \<le> 40"
    "pkt_length h \<noteq> 0" "length bs = 52"
proof -
  define l where "l = mail_length (MailHeader_of bs)"
  have l: "unat l \<le> 40" "pkt_length h = l + 12" and "length bs = 52" using assms by (simp_all add: legal_def Let_def l_def)
  then show "length bs = 52" "unat (mail_length (MailHeader_of bs)) \<le> 40" by (simp_all add: l_def)
  have "unat (l + 12) = unat l + unat (12 :: 32 word)" using l(1) by (subst unat_add_lem [symmetric]) simp
  then show u: "unat (pkt_length h) = 12 + unat (mail_length (MailHeader_of bs))" by (simp add: l(2) l_def)
  then show "pkt_length h \<noteq> 0" by (metis add_is_0 unat_0 zero_neq_numeral)
qed

text \<open>A letter is determined by the bytes that the header of the packet counts.\<close>

lemma letter_in_cong:
  assumes l: "legal a n h ys" and t: "take (unat (pkt_length h)) xs = take (unat (pkt_length h)) ys" and x: "length xs = 52"
  shows "letter_in h xs = letter_in h ys" "legal a n h xs"
proof -
  note len = legal_length [OF l]
  have m: "MailHeader_of xs = MailHeader_of ys" using t by (rule mail_wire.dec_cong) (simp add: len)
  have "take (unat (mail_length (MailHeader_of ys))) (drop 12 xs) = take (unat (mail_length (MailHeader_of ys))) (drop 12 ys)"
    using arg_cong [OF t, of "drop 12"] by (simp add: drop_take len(1))
  then show "letter_in h xs = letter_in h ys" by (simp add: letter_in_def m)
  show "legal a n h xs" using l x by (simp add: legal_def m Let_def)
qed

text \<open>Copying the data part of a packet from buffer to buffer.\<close>

lemma copy_letter:
  assumes l: "legal a n h ys" and x: "length xs = 52"
  shows "\<exists>zs. bcopy_in ys (uint (pkt_length h)) 0 xs = Inr zs \<and> length zs = 52 \<and> letter_in h zs = letter_in h ys \<and> legal a n h zs"
proof -
  note len = legal_length [OF l]
  let ?zs = "patch xs 0 (take (unat (pkt_length h)) ys)"
  have b: "bcopy_in ys (uint (pkt_length h)) 0 xs = Inr ?zs" using bcopy_word [of "pkt_length h" ys 0 xs] len x by simp
  have z: "length ?zs = 52" using len x by simp
  have "take (unat (pkt_length h)) ?zs = take (unat (pkt_length h)) ys" using len by (simp add: patch_def)
  then show ?thesis using b z letter_in_cong [OF l _ z] by blast
qed

lemma net_holds_cong:
  assumes "ident s' = ident s" "netAddr s' = netAddr s" "numBoxes s' = numBoxes s" "boxes s' = boxes s" "inbox s' = inbox s"
    "wbuf s' = wbuf s" "sendBusy s' = sendBusy s" "messageAvailable s' = messageAvailable s" "inHdr s' = inHdr s" "sock s' = sock s"
    "wpkt s' = wpkt s"
  shows "net_holds a n D s' = net_holds a n D s"
  by (simp only: net_holds_def node_ok_def flow_def in_transit_def assms)

lemma net_holds_system: "system_of s' = system_of s \<Longrightarrow> net_holds a n D s' = net_holds a n D s" for s s' :: post
  by (rule net_holds_cong) (cases s; cases s'; simp)+

text \<open>A packet is read from the socket into the box of the device.\<close>

lemma CheckPktAvail_holds:
  assumes H: "net_holds a n D s" and C: "CheckPktAvail IncomingPacket s = Inr s'"
  shows "net_holds a n D s'"
proof -
  obtain pe where pe: "Schedule NetworkReadPoll NetworkTime NetworkRecvInt s = Inr (s\<lparr>pending := pe\<rparr>)"
    using Schedule_net by blast
  have frame: "net_holds a n D (s\<lparr>pending := pe\<rparr>)" using H by (subst net_holds_cong) simp_all
  show ?thesis
  proof (cases "pkt_length (inHdr s) \<noteq> 0 \<or> sock s = []")
    case True
    then have "s' = s\<lparr>pending := pe\<rparr>" using C pe by (auto simp: CheckPktAvail_def split: if_splits)
    then show ?thesis using frame by simp
  next
    case False
    then obtain d rest where d: "sock s = d # rest" "pkt_length (inHdr s) = 0" by (cases "sock s") auto
    let ?h = "PacketHeader_of d"
    have l: "length d = 64" "legal a n ?h (drop 12 d)" using H d(1) by (simp_all add: net_holds_def node_ok_def)
    note len = legal_length [OF l(2)]
    have i: "length (inbox s) = 52" "ident s = a" "\<not> sendBusy s" using H by (simp_all add: net_holds_def node_ok_def)
    have r: "ReadFromSocket d MaxWireSize = Inr d" using l(1) by (simp add: ReadFromSocket_def net_consts)
    have out: "bcopy_out d sizeof_PacketHeader (uint (pkt_length ?h)) = Inr (take (unat (pkt_length ?h)) (drop 12 d))"
      using copy_out_word [of 12 "pkt_length ?h" d] len(1,2) l(1) by (simp add: net_consts)
    obtain ib where ib: "bcopy_in (take (unat (pkt_length ?h)) (drop 12 d)) (uint (pkt_length ?h)) 0 (inbox s) = Inr ib"
      "length ib = 52" "letter_in ?h ib = letter_in ?h (drop 12 d)" "legal a n ?h ib"
      using copy_letter [OF l(2) i(1)] len l(1) bcopy_word [of "pkt_length ?h" "take (unat (pkt_length ?h)) (drop 12 d)" 0 "inbox s"]
        bcopy_word [of "pkt_length ?h" "drop 12 d" 0 "inbox s"] i(1) by auto
    have s': "s' = IncomingPacket (s\<lparr>pending := pe, sock := rest, inHdr := ?h, inbox := ib,
        stats := (stats s)\<lparr>numPacketsRecvd := numPacketsRecvd (stats s) + 1\<rparr>\<rparr>)"
      using C pe d r out ib(1) len(1,2) l(2) i by (simp add: CheckPktAvail_def Let_def ASSERT_def split: if_splits)
    have "node_ok a n s'" using H d ib len(3) unfolding s' by (simp add: net_holds_def node_ok_def IncomingPacket_def)
    moreover have "in_transit s' = in_transit s" unfolding s'
      using d ib(3) len(3) by (simp add: in_transit_def IncomingPacket_def letter_of_packet_def split: option.split)
    moreover have "boxes s' = boxes s" unfolding s' by (simp add: IncomingPacket_def)
    ultimately show ?thesis using H by (simp add: net_holds_def flow_def)
  qed
qed

lemma net_call_holds: "net_holds a n D s \<Longrightarrow> net_call h s = Inr s' \<Longrightarrow> net_holds a n D s'"
proof (cases h)
  case NetworkSendDone
  assume H: "net_holds a n D s" and "net_call h s = Inr s'"
  then have s': "s' = SendDone PacketSent s" using NetworkSendDone by (simp add: net_call_def)
  have "\<not> sendBusy s" using H by (simp add: net_holds_def node_ok_def)
  then show ?thesis using H unfolding s' by (subst net_holds_cong) (simp_all add: SendDone_def PacketSent_def)
qed (simp add: net_call_def CheckPktAvail_holds)

interpretation netq: interrupt_invariant net_call Inr "net_holds a n D" for a n D
proof
  show "net_holds a n D i'" if "net_holds a n D i" "system_of i' = system_of i" for i i' :: post
    using net_holds_system [OF that(2)] that(1) by blast
  show "net_holds a n D i'" if "net_holds a n D i0" "system_of i0 = system_of i" "net_call h i = Inr i'" for i0 i i' :: post and h
    using net_holds_system [OF that(2)] that(1) net_call_holds [OF _ that(3)] by blast
  show "net_holds a n D (set_system (system_of i') i0) \<and> pending i' = pending i \<and> level i' = level i"
    if "net_holds a n D i0" "system_of i0 = system_of i" "Inr i = Inr i'" for i0 i i' :: post
  proof -
    have "system_of (set_system (system_of i') i0) = system_of i0" using that(2,3) by simp
    then show ?thesis using net_holds_system that(1,3) by blast
  qed
qed

text \<open>What \<^verbatim>\<open>Send\<close> hands to the socket is the letter.\<close>

lemma bcopy_in_Inr: "bcopy_in from (uint w) (int off) buf = Inr b \<Longrightarrow>
    unat w \<le> length from \<and> off + unat w \<le> length buf \<and> b = patch buf off (take (unat w) from)"
proof -
  assume A: "bcopy_in from (uint w) (int off) buf = Inr b"
  define k where "k = unat w"
  then have "uint w = int k" by simp
  then show ?thesis using A unfolding k_def [symmetric] by (auto simp: bcopy_in_def split: if_splits)
qed

lemma Send_packet:
  assumes S: "PostOffice_Send fl rnd buffer nbuf pktH mailH data s = Some (Inr (s1, hdr, r))"
    and len: "length buffer = 52" "length nbuf = 64"
  obtains pe where "s1 = s\<lparr>pending := pe, sendLocked := True\<rparr>"
    and "\<And>p. r = Some p \<Longrightarrow> length p = 64 \<and> legal (pkt_to hdr) (numBoxes s) (PacketHeader_of p) (drop 12 p)
      \<and> letter_of_packet p = (hdr, mailH, take (unat (mail_length mailH)) data)"
proof -
  let ?l = "mail_length mailH"
  let ?b1 = "patch buffer 0 (MailHeader_bytes mailH)"
  have hl: "length (MailHeader_bytes mailH) = 12" "length (PacketHeader_bytes hdr) = 12"
    by (rule mail_wire.length_enc, rule pkt_wire.length_enc)
  have b1: "bcopy_in (MailHeader_bytes mailH) sizeof_MailHeader 0 buffer = Inr ?b1"
    using len hl(1) by (simp add: bcopy_in_def sizeof_MailHeader_def)
  define prep where "prep = ASSERT (uint ?l \<le> MaxMailSize)
    (ASSERT (0 \<le> sint (mail_to mailH) \<and> sint (mail_to mailH) < numBoxes s)
     (rbind (bcopy_in (MailHeader_bytes mailH) sizeof_MailHeader 0 buffer) (\<lambda>b1. bcopy_in data (uint ?l) sizeof_MailHeader b1)))"
  define h where "h = pktH\<lparr>pkt_from := netAddr s, pkt_length := ?l + word_of_int sizeof_MailHeader\<rparr>"
  have "(case prep of Inl e \<Rightarrow> Some (Inl e) | Inr b \<Rightarrow> if sendLocked s then None
      else Some (rbind (Network_Send fl rnd nbuf h b s) (\<lambda>(s1, p). Inr (s1\<lparr>sendLocked := True\<rparr>, h, p)))) = Some (Inr (s1, hdr, r))"
    using S unfolding PostOffice_Send_def Let_def prep_def h_def .
  then obtain b where pb: "prep = Inr b"
    and R: "rbind (Network_Send fl rnd nbuf h b s) (\<lambda>(s1, p). Inr (s1\<lparr>sendLocked := True\<rparr>, h, p)) = Inr (s1, hdr, r)"
    by (cases prep) (simp_all split: if_splits)
  have hdr: "hdr = pktH\<lparr>pkt_from := netAddr s, pkt_length := ?l + 12\<rparr>" and hh: "h = hdr"
    using R by (auto simp: rbind_eq_Inr h_def sizeof_MailHeader_def)
  have N: "rbind (Network_Send fl rnd nbuf hdr b s) (\<lambda>(s1, p). Inr (s1\<lparr>sendLocked := True\<rparr>, hdr, p)) = Inr (s1, hdr, r)"
    using R unfolding hh .
  have box: "0 \<le> sint (mail_to mailH) \<and> sint (mail_to mailH) < numBoxes s" "uint ?l \<le> 40"
    and b: "bcopy_in data (uint ?l) sizeof_MailHeader ?b1 = Inr b"
    using pb b1 by (simp_all add: prep_def MaxMailSize_def net_consts sizeof_MailHeader_def)
  have b': "unat ?l \<le> length data" "b = patch ?b1 12 (take (unat ?l) data)" and l40: "unat ?l \<le> 40"
    using bcopy_in_Inr [of data ?l 12 ?b1 b] b hl(1) len by (auto simp: sizeof_MailHeader_def)
  have lb: "length b = 52" using b' l40 len hl(1) by simp
  have mh: "MailHeader_of b = mailH" unfolding b'(2) using len(1) l40 b'(1) by (simp add: mail_wire.dec_patch_behind)
  have body: "take (unat ?l) (drop 12 b) = take (unat ?l) data" unfolding b'(2)
    using len hl(1) b'(1) l40 take_drop_patch [of 12 "take (unat ?l) data" ?b1] by simp
  have lg: "legal (pkt_to hdr) (numBoxes s) hdr b" using box(1) lb mh l40 by (simp add: legal_def Let_def hdr)
  note ll = legal_length [OF lg]
  obtain pe where pe: "Schedule NetworkSendDone NetworkTime NetworkSendInt s = Inr (s\<lparr>pending := pe\<rparr>)" using Schedule_net by blast
  have s1: "s1 = s\<lparr>pending := pe, sendLocked := True\<rparr>"
    using N pe by (auto simp: Network_Send_def rbind_eq_Inr split: if_splits)
  let ?n1 = "patch nbuf 0 (PacketHeader_bytes hdr)"
  have n1: "bcopy_in (PacketHeader_bytes hdr) sizeof_PacketHeader 0 nbuf = Inr ?n1"
    using len hl(2) by (simp add: bcopy_in_def sizeof_PacketHeader_def)
  have n2: "bcopy_in b (uint (pkt_length hdr)) sizeof_PacketHeader ?n1 = Inr (patch ?n1 12 (take (unat (pkt_length hdr)) b))"
    using bcopy_word [of "pkt_length hdr" b 12 ?n1] ll len hl(2) lb by (simp add: sizeof_PacketHeader_def)
  have "length p = 64 \<and> legal (pkt_to hdr) (numBoxes s) (PacketHeader_of p) (drop 12 p)
      \<and> letter_of_packet p = (hdr, mailH, take (unat ?l) data)" if r: "r = Some p" for p
  proof -
    have p: "p = patch ?n1 12 (take (unat (pkt_length hdr)) b)"
      using N pe r n1 n2 by (auto simp: Network_Send_def rbind_eq_Inr split: if_splits)
    have lp: "length p = 64" "length (drop 12 p) = 52" unfolding p using len hl(2) ll lb by simp_all
    have "take (unat (pkt_length hdr)) (drop 12 p) = take (unat (pkt_length hdr)) b"
      unfolding p using take_drop_patch [of 12 "take (unat (pkt_length hdr)) b" ?n1] ll len hl(2) lb by simp
    note c = letter_in_cong [OF lg this lp(2)]
    have h: "PacketHeader_of p = hdr" unfolding p using len(2) by (simp add: pkt_wire.dec_patch_behind)
    have "letter_in hdr b = (hdr, mailH, take (unat ?l) data)" by (simp add: letter_in_def mh body)
    then show ?thesis using lp(1) c h by (simp add: letter_of_packet_def)
  qed
  then show ?thesis using that s1 by blast
qed

text \<open>The worker takes the packet out of the device, and puts the letter into its box.\<close>

lemma take_holds:
  assumes H: "net_holds a n D s" and T: "PostalDelivery_take s = Some (Inr s')"
  shows "net_holds a n D s'"
proof -
  have t: "wpkt s = None" "messageAvailable s > 0"
    "rbind (Network_Receive (wbuf s) (s\<lparr>messageAvailable := messageAvailable s - 1\<rparr>)) (\<lambda>(h, b, s1). Inr (s1\<lparr>wbuf := b, wpkt := Some h\<rparr>)) = Inr s'"
    using T unfolding PostalDelivery_take_def by (simp_all split: if_splits)
  then have ne: "pkt_length (inHdr s) \<noteq> 0" using H by (cases "pkt_length (inHdr s) = 0") (simp_all add: net_holds_def node_ok_def)
  then have l: "legal a n (inHdr s) (inbox s)" "length (wbuf s) = 52" "messageAvailable s = 1"
    using H by (simp_all add: net_holds_def node_ok_def)
  obtain b where b: "bcopy_in (inbox s) (uint (pkt_length (inHdr s))) 0 (wbuf s) = Inr b" "length b = 52"
    "letter_in (inHdr s) b = letter_in (inHdr s) (inbox s)" "legal a n (inHdr s) b" using copy_letter [OF l(1,2)] by blast
  have s': "s' = s\<lparr>messageAvailable := 0, inHdr := (inHdr s)\<lparr>pkt_length := 0\<rparr>, wbuf := b, wpkt := Some (inHdr s)\<rparr>"
    using t(3) ne b(1) l(3) by (simp add: Network_Receive_def Let_def)
  have "node_ok a n s'" using H b unfolding s' by (simp add: net_holds_def node_ok_def)
  moreover have "in_transit s' = in_transit s" "boxes s' = boxes s" unfolding s' using b(3) t(1) ne by (simp_all add: in_transit_def)
  ultimately show ?thesis using H by (simp add: net_holds_def flow_def)
qed

lemma put_runs:
  assumes ok: "node_ok a n s" and h: "wpkt s = Some h" and arr: "length arr = 40"
  shows "\<exists>m. letter_of_mail m = letter_in h (wbuf s) \<and> unat (mail_length (mailHdr m)) \<le> 40 \<and> length (mail_data m) = 40
    \<and> PostalDelivery_put arr s = Some (Inr (s\<lparr>boxes := (boxes s)[box_of (letter_in h (wbuf s)) := boxes s ! box_of (letter_in h (wbuf s)) @ [m]],
        wpkt := None\<rparr>))
    \<and> box_of (letter_in h (wbuf s)) < nat n"
proof -
  let ?mh = "MailHeader_of (wbuf s)"
  let ?l = "mail_length ?mh"
  have l: "legal a n h (wbuf s)" using ok h by (simp add: node_ok_def)
  note len = legal_length [OF l]
  have box: "0 \<le> sint (mail_to ?mh)" "sint (mail_to ?mh) < n" "numBoxes s = n" "length (boxes s) = nat n"
    using l ok by (simp_all add: legal_def node_ok_def Let_def)
  have "int (unat ?l) \<le> 40" using len(2) by linarith
  then have u: "uint ?l \<le> MaxMailSize" by (simp add: MaxMailSize_def net_consts sizeof_MailHeader_def)
  let ?d = "patch arr 0 (take (unat ?l) (drop 12 (wbuf s)))"
  have c: "bcopy_in (drop 12 (wbuf s)) (uint ?l) 0 arr = Inr ?d" using bcopy_word [of ?l "drop 12 (wbuf s)" 0 arr] len arr by simp
  let ?m = "\<lparr>pktHdr = h, mailHdr = ?mh, mail_data = ?d\<rparr>"
  have "letter_of_mail ?m = letter_in h (wbuf s)" using len by (simp add: letter_of_mail_def letter_in_def patch_def)
  moreover have "length ?d = 40" using len arr by simp
  moreover have "PostalDelivery_put arr s = Some (Inr (s\<lparr>boxes := (boxes s)[nat (sint (mail_to ?mh)) := boxes s ! nat (sint (mail_to ?mh)) @ [?m]], wpkt := None\<rparr>))"
    unfolding PostalDelivery_put_def MailBox_Put_def Mail_new_def Let_def using h box u c by (simp add: sizeof_MailHeader_def)
  ultimately show ?thesis using len(2) box by (intro exI [of _ ?m]) (simp add: letter_in_def)
qed

lemma in_transit_boxes [simp]: "in_transit (s\<lparr>boxes := bs\<rparr>) = in_transit s"
  by (simp add: in_transit_def cong: option.case_cong)

lemma node_ok_mails:
  assumes "node_ok a n s" and "b < length (boxes s)" and "m \<in> set (boxes s ! b)"
  shows "unat (mail_length (mailHdr m)) \<le> 40 \<and> length (mail_data m) = 40"
proof -
  have "boxes s ! b \<in> set (boxes s)" using assms(2) by (rule nth_mem)
  then show ?thesis using assms(1,3) unfolding node_ok_def by blast
qed

lemma node_ok_boxes:
  assumes ok: "node_ok a n s" and box: "\<And>m. m \<in> set box \<Longrightarrow> unat (mail_length (mailHdr m)) \<le> 40 \<and> length (mail_data m) = 40"
  shows "node_ok a n (s\<lparr>boxes := (boxes s)[b := box]\<rparr>)"
proof -
  have "set ((boxes s)[b := box]) \<subseteq> insert box (set (boxes s))" by (rule set_update_subset_insert)
  then have "\<forall>bx \<in> set ((boxes s)[b := box]). \<forall>m \<in> set bx. unat (mail_length (mailHdr m)) \<le> 40 \<and> length (mail_data m) = 40"
    using ok box unfolding node_ok_def by blast
  then show ?thesis using ok by (simp add: node_ok_def)
qed

lemma put_holds:
  assumes H: "net_holds a n D s" and arr: "length arr = 40" and P: "PostalDelivery_put arr s = Some (Inr s')"
  shows "net_holds a n D s'"
proof -
  have ok: "node_ok a n s" using H by (simp add: net_holds_def)
  obtain h where h: "wpkt s = Some h" using P by (auto simp: PostalDelivery_put_def split: option.splits)
  let ?b = "box_of (letter_in h (wbuf s))"
  obtain m where m: "letter_of_mail m = letter_in h (wbuf s)" "unat (mail_length (mailHdr m)) \<le> 40" "length (mail_data m) = 40"
    "s' = s\<lparr>boxes := (boxes s)[?b := boxes s ! ?b @ [m]], wpkt := None\<rparr>" "?b < nat n"
    using put_runs [OF ok h arr] P by auto
  have lb: "length (boxes s) = nat n" using ok by (simp add: node_ok_def)
  have bl: "?b < length (boxes s)" using m(5) unfolding lb .
  have "node_ok a n (s\<lparr>boxes := (boxes s)[?b := boxes s ! ?b @ [m]]\<rparr>)"
    by (rule node_ok_boxes [OF ok]) (use m(2,3) node_ok_mails [OF ok bl] in auto)
  then have "node_ok a n s'" unfolding m(4) by (simp add: node_ok_def)
  moreover have "flow s' b = flow s b" if "b < nat n" for b
    unfolding m(4) using that h m(1) lb by (auto simp: flow_def in_transit_def nth_list_update)
  ultimately show ?thesis using H by (simp add: net_holds_def)
qed

lemma receive_holds:
  assumes H: "net_holds a n D s" and R: "PostOffice_Receive (int b) data s = Some (Inr (h, mh, d, s'))"
  shows "b < nat n \<and> (\<exists>ls. D b = (h, mh, take (unat (mail_length mh)) d) # ls \<and> net_holds a n (D(b := ls)) s')"
proof -
  have ok: "node_ok a n s" using H by (simp add: net_holds_def)
  have b: "int b < numBoxes s" using R unfolding PostOffice_Receive_def by (simp split: if_splits)
  then have b': "b < nat n" "b < length (boxes s)" "aget (boxes s) (int b) = Inr (boxes s ! b)" using ok by (auto simp: node_ok_def)
  obtain m rest where m: "boxes s ! b = m # rest"
    using R b b' by (cases "boxes s ! b") (auto simp: PostOffice_Receive_def MailBox_Get_def)
  have "rbind (rbind (bcopy_in (mail_data m) (uint (mail_length (mailHdr m))) 0 data) (\<lambda>d. Inr (pktHdr m, mailHdr m, d, rest)))
      (\<lambda>(h, mh, d, rest). ASSERT (uint (mail_length mh) \<le> MaxMailSize) (Inr (h, mh, d, s\<lparr>boxes := (boxes s)[b := rest]\<rparr>)))
      = Inr (h, mh, d, s')"
    using R b unfolding PostOffice_Receive_def MailBox_Get_def b'(3) m by simp
  then have d: "bcopy_in (mail_data m) (uint (mail_length (mailHdr m))) 0 data = Inr d" "h = pktHdr m" "mh = mailHdr m"
    "s' = s\<lparr>boxes := (boxes s)[b := rest]\<rparr>"
    by (cases "bcopy_in (mail_data m) (uint (mail_length (mailHdr m))) 0 data"; auto)+
  note c = bcopy_in_Inr [of "mail_data m" _ 0 data, simplified, OF d(1)]
  have lm: "letter_of_mail m = (h, mh, take (unat (mail_length mh)) d)"
    using c d by (simp add: letter_of_mail_def patch_def)
  have "D b = letter_of_mail m # (map letter_of_mail rest @ filter (\<lambda>l. box_of l = b) (in_transit s))"
    using H b'(1) m by (auto simp: net_holds_def flow_def)
  moreover have "node_ok a n s'" unfolding d(4) by (rule node_ok_boxes [OF ok]) (use node_ok_mails [OF ok b'(2)] m in auto)
  moreover have "flow s' c = (D(b := map letter_of_mail rest @ filter (\<lambda>l. box_of l = b) (in_transit s))) c" if "c < nat n" for c
    unfolding d(4) using H that b'(2) by (auto simp: flow_def nth_list_update net_holds_def)
  ultimately show ?thesis using b'(1) lm by (auto simp: net_holds_def)
qed

definition world_inv :: "int \<Rightarrow> net_event list \<Rightarrow> world \<Rightarrow> bool" where
  "world_inv n es w \<longleftrightarrow> (\<forall>a s. w a = Some s \<longrightarrow> node_ok a n s \<and> (\<forall>b < nat n. got_at a b es @ flow s b = sent_to a b es))"

text \<open>A step of one machine that moves no letter in or out.\<close>

lemma world_inv_keep:
  assumes I: "world_inv n es w" and a: "w a = Some s" and H: "\<And>D. net_holds a n D s \<Longrightarrow> net_holds a n D s'"
    and e: "\<And>a b. sent_to a b [e] = []" "\<And>a b. got_at a b [e] = []"
  shows "world_inv n (es @ [e]) (w(a \<mapsto> s'))" "world_inv n es (w(a \<mapsto> s'))"
proof -
  have "net_holds a n (flow s) s" using I a by (simp add: world_inv_def net_holds_def)
  then have "net_holds a n (flow s) s'" by (rule H)
  then show "world_inv n (es @ [e]) (w(a \<mapsto> s'))" "world_inv n es (w(a \<mapsto> s'))"
    using I a e by (simp_all add: world_inv_def net_holds_def)
qed

lemma socket_append:
  assumes ok: "node_ok a n t" and p: "length p = 64" "legal a n (PacketHeader_of p) (drop 12 p)"
  shows "node_ok a n (t\<lparr>sock := sock t @ [p]\<rparr>)"
    "flow (t\<lparr>sock := sock t @ [p]\<rparr>) b = flow t b @ (if box_of (letter_of_packet p) = b then [letter_of_packet p] else [])"
proof -
  show "node_ok a n (t\<lparr>sock := sock t @ [p]\<rparr>)" using ok p by (auto simp: node_ok_def)
  have "in_transit (t\<lparr>sock := sock t @ [p]\<rparr>) = in_transit t @ [letter_of_packet p]"
    by (simp add: in_transit_def cong: option.case_cong)
  then show "flow (t\<lparr>sock := sock t @ [p]\<rparr>) b = flow t b @ (if box_of (letter_of_packet p) = b then [letter_of_packet p] else [])"
    by (simp add: flow_def)
qed

lemma world_inv_deliver:
  assumes I: "world_inv n es w" and S: "SendToSocket p to w = Inr w'" and p: "length p = 64" "legal to n (PacketHeader_of p) (drop 12 p)"
    and l: "letter_of_packet p = l" "pkt_to (fst l) = to"
  shows "world_inv n (es @ [Sent l]) w'"
proof -
  obtain t where t: "w to = Some t" "w' = w(to \<mapsto> t\<lparr>sock := sock t @ [p]\<rparr>)" using S by (auto simp: SendToSocket_def split: option.splits)
  have ok: "node_ok to n t" and f: "\<forall>b < nat n. got_at to b es @ flow t b = sent_to to b es" using I t(1) by (simp_all add: world_inv_def)
  note a = socket_append [OF ok p, unfolded l(1)]
  have new: "got_at to b (es @ [Sent l]) @ flow (t\<lparr>sock := sock t @ [p]\<rparr>) b = sent_to to b (es @ [Sent l])" if "b < nat n" for b
  proof -
    have "sent_to to b [Sent l] = (if box_of l = b then [l] else [])" using l(2) by simp
    then show ?thesis using f that unfolding a(2) by (simp only: got_at_append sent_to_append got_at.simps append_Nil2 append_assoc [symmetric])
  qed
  have "node_ok x n s \<and> (\<forall>b < nat n. got_at x b (es @ [Sent l]) @ flow s b = sent_to x b (es @ [Sent l]))" if "w' x = Some s" for x s
  proof (cases "x = to")
    case True
    then show ?thesis using that a(1) new unfolding t(2) by simp
  next
    case False
    then show ?thesis using that I l(2) by (auto simp: t(2) world_inv_def)
  qed
  then show ?thesis by (simp add: world_inv_def)
qed

lemma net_step_inv:
  assumes I: "world_inv n es w" and st: "net_step w e w'"
  shows "world_inv n (es @ [e]) w'"
  using st
proof cases
  case (send a s buffer nbuf fl rnd pktH mailH data s1 hdr p)
  from send(5,3,4) obtain pe where s1: "s1 = s\<lparr>pending := pe, sendLocked := True\<rparr>"
    and p: "length p = 64 \<and> legal (pkt_to hdr) (numBoxes s) (PacketHeader_of p) (drop 12 p)
      \<and> letter_of_packet p = (hdr, mailH, take (unat (mail_length mailH)) data)" by (rule Send_packet) blast
  have "net_holds a n D s \<Longrightarrow> net_holds a n D s1" for D unfolding s1 by (subst net_holds_cong) simp_all
  then have I1: "world_inv n es (w(a \<mapsto> s1))" using world_inv_keep(2) [OF I send(2), of s1 Quiet] by simp
  have n: "numBoxes s = n" using I send(2) by (simp add: world_inv_def node_ok_def)
  show ?thesis using world_inv_deliver [OF I1 send(6)] p n send(1) by simp
next
  case (lose a s buffer nbuf fl rnd pktH mailH data s1 hdr)
  from lose(6,4,5) obtain pe where s1: "s1 = s\<lparr>pending := pe, sendLocked := True\<rparr>" by (rule Send_packet)
  have "net_holds a n D s \<Longrightarrow> net_holds a n D s1" for D unfolding s1 by (subst net_holds_cong) simp_all
  then show ?thesis using world_inv_keep(1) [OF I lose(3), of s1 e] lose(1,2) by simp
next
  case (send_end a s s1)
  have "net_holds a n D s \<Longrightarrow> net_holds a n D s1" for D
    using send_end(4) by (subst net_holds_cong [where s = s]) (auto simp: PostOffice_Send_end_def split: if_splits)
  then show ?thesis using world_inv_keep(1) [OF I send_end(3), of s1 e] send_end(1,2) by simp
next
  case (worker_take a s s1)
  then show ?thesis using world_inv_keep(1) [OF I worker_take(3), of s1 e] take_holds by simp
next
  case (worker_put a s arr s1)
  then show ?thesis using world_inv_keep(1) [OF I worker_put(3), of s1 e] put_holds by simp
next
  case (receive a s b data h mh d s1)
  have "net_holds a n (flow s) s" using I receive(3) by (simp add: world_inv_def net_holds_def)
  from receive_holds [OF this receive(4)] obtain ls where b: "b < nat n"
    and ls: "flow s b = (h, mh, take (unat (mail_length mh)) d) # ls" "net_holds a n ((flow s)(b := ls)) s1" by blast
  have f: "flow s1 c = ((flow s)(b := ls)) c" if "c < nat n" for c using ls(2) that by (simp add: net_holds_def)
  have "got_at a c (es @ [e]) @ flow s1 c = sent_to a c (es @ [e])" if "c < nat n" for c
  proof -
    have "got_at a c es @ flow s c = sent_to a c es" using I receive(3) that by (simp add: world_inv_def)
    then show ?thesis using ls(1) f [OF that] by (cases "c = b") (simp_all add: receive(1))
  qed
  then show ?thesis using I ls(2) receive(3) unfolding receive(2) by (auto simp: world_inv_def net_holds_def receive(1))
next
  case (interrupt a s adv fired s1)
  have "net_holds a n D s \<Longrightarrow> net_holds a n D s1" for D using netq.CheckIfDue_holds interrupt(4) by blast
  then show ?thesis using world_inv_keep(1) [OF I interrupt(3), of s1 e] interrupt(1,2) by simp
next
  case (clock a s)
  have "net_holds a n D s \<Longrightarrow> net_holds a n D (advance_clock s)" for D by (subst net_holds_system) (simp_all add: advance_clock_def)
  then show ?thesis using world_inv_keep(1) [OF I clock(3), of "advance_clock s" e] clock(1,2) by simp
next
  case (set_level a s l)
  have "net_holds a n D s \<Longrightarrow> net_holds a n D (ChangeLevel l s)" for D by (subst net_holds_system) (simp_all add: ChangeLevel_def)
  then show ?thesis using world_inv_keep(1) [OF I set_level(3), of "ChangeLevel l s" e] set_level(1,2) by simp
qed

lemma net_boot_inv: "net_boot n w \<Longrightarrow> world_inv n [] w"
proof -
  assume B: "net_boot n w"
  have "node_ok a n s \<and> (\<forall>b < nat n. flow s b = [])" if wa: "w a = Some s" for a s
  proof -
    obtain rely :: rat and mem :: post where m: "length (inbox mem) = 52" "length (wbuf mem) = 52" "PostOffice_new a rely n mem = Inr s"
      using B wa unfolding net_boot_def by blast
    then show ?thesis by (auto simp: PostOffice_new_def Network_new_def Schedule_def Let_def node_ok_def flow_def in_transit_def)
  qed
  then show ?thesis by (simp add: world_inv_def)
qed

lemma net_run_inv: "net_run w0 es w \<Longrightarrow> net_boot n w0 \<Longrightarrow> world_inv n es w"
  by (induction rule: net_run.induct) (auto intro: net_boot_inv net_step_inv)

section \<open>Properties\<close>

text \<open>
  C5. The post office keeps its promise: in every network of machines with \<open>n\<close> mailboxes, however threads, workers
  and interrupts interleave and whichever packets the network drops, the letters taken from a mailbox, followed by those
  in the mailbox and those on their way to it, are exactly the letters sent to it that were not dropped, in the order in
  which they were sent, with headers and text unchanged. So what is taken is a part of what was posted, in order;
  and the worker never stops at a packet that has arrived.
\<close>

theorem mail_delivered:
  assumes "net_boot n w0" and "net_run w0 es w" and "w a = Some s" and "b < nat n" and "length arr = 40"
  shows "got_at a b es @ flow s b = sent_to a b es \<and> subseq (got_at a b es) (posted_to a b es)
    \<and> (wpkt s = None \<or> (\<exists>s'. PostalDelivery_put arr s = Some (Inr s')))"
proof -
  have I: "node_ok a n s" "got_at a b es @ flow s b = sent_to a b es"
    using net_run_inv [OF assms(2,1)] assms(3,4) by (simp_all add: world_inv_def)
  have "subseq (got_at a b es) (sent_to a b es)" unfolding I(2) [symmetric] by (rule prefix_imp_subseq) simp
  moreover have "\<exists>s'. PostalDelivery_put arr s = Some (Inr s')" if "wpkt s = Some h" for h
    using put_runs [OF I(1) that assms(5)] by blast
  ultimately show ?thesis using I(2) subseq_order.order_trans [OF _ sent_posted [of a b es]] by (cases "wpkt s") simp_all
qed

text \<open>Two machines; the first sends the second the letter \<^verbatim>\<open>hi\<close> for box 1, which arrives with the first poll.\<close>

definition blank :: post where
  "blank = \<lparr>level = IntOff, pending = [], inHandler = False, yieldOnReturn = False, istatus = SystemMode, stats = Statistics_new,
     ident = 0, chanceToWork = 0, sendBusy = False, inHdr = \<lparr>pkt_to = 0, pkt_from = 0, pkt_length = 0\<rparr>, inbox = replicate 52 0, sock = [],
     netAddr = 0, boxes = [], numBoxes = 0, messageAvailable = 0, messageSent = 0, sendLocked = False, wbuf = replicate 52 0, wpkt = None\<rparr>"

definition machine_on :: "32 word \<Rightarrow> post" where
  "machine_on a = (case PostOffice_new a 1 10 blank of Inr s \<Rightarrow> s | Inl _ \<Rightarrow> blank)"

definition hi_packet :: PacketHeader where "hi_packet = \<lparr>pkt_to = 1, pkt_from = 9, pkt_length = 0\<rparr>"
definition hi_mail :: MailHeader where "hi_mail = \<lparr>mail_to = 1, mail_from = 0, mail_length = 2\<rparr>"
definition hi_letter :: letter where "hi_letter = (\<lparr>pkt_to = 1, pkt_from = 0, pkt_length = 14\<rparr>, hi_mail, [104, 105])"

text \<open>The states of the two machines on the way.\<close>

definition hi_sent :: "post \<times> PacketHeader \<times> byte list option" where
  "hi_sent = projr (the (PostOffice_Send id 3 (replicate 52 7) (replicate 64 8) hi_packet hi_mail [104, 105] (machine_on 0)))"

definition hi_waiting :: post where
  "hi_waiting = (machine_on 1)\<lparr>sock := sock (machine_on 1) @ [the (snd (snd hi_sent))]\<rparr>"

definition hi_polled :: post where
  "hi_polled = snd (projr (CheckIfDue net_call Inr True hi_waiting))"

definition hi_taken :: post where
  "hi_taken = projr (the (PostalDelivery_take hi_polled))"

definition hi_boxed :: post where
  "hi_boxed = projr (the (PostalDelivery_put (replicate 40 9) hi_taken))"

definition hi_got :: "PacketHeader \<times> MailHeader \<times> byte list \<times> post" where
  "hi_got = projr (the (PostOffice_Receive 1 (replicate 40 6) hi_boxed))"

definition hi_world :: world where
  "hi_world = [0 \<mapsto> machine_on 0, 1 \<mapsto> machine_on 1]"

lemma some_result: "map_option isl x = Some False \<Longrightarrow> x = Some (Inr (projr (the x)))"
  by (auto simp: isl_def)

lemma hi_runs1: "map_option isl (PostOffice_Send id 3 (replicate 52 7) (replicate 64 8) hi_packet hi_mail [104, 105] (machine_on 0)) = Some False"
  by code_simp

lemma hi_runs2: "fst (snd hi_sent) = fst hi_letter \<and> snd (snd hi_sent) \<noteq> None"
  by code_simp

lemma hi_runs3: "\<not> isl (CheckIfDue net_call Inr True hi_waiting)"
  by code_simp

lemma hi_runs4: "map_option isl (PostalDelivery_take hi_polled) = Some False"
  by code_simp

lemma hi_runs5: "map_option isl (PostalDelivery_put (replicate 40 9) hi_taken) = Some False"
  by code_simp

lemma hi_runs6: "map_option isl (PostOffice_Receive 1 (replicate 40 6) hi_boxed) = Some False"
  by code_simp

lemma hi_runs7: "fst hi_got = fst hi_letter \<and> fst (snd hi_got) = hi_mail"
  by code_simp

lemma hi_runs8: "take 2 (fst (snd (snd hi_got))) = [104, 105]"
  by code_simp

lemma hi_boot: "net_boot 10 hi_world"
proof -
  have m: "PostOffice_new a 1 10 blank = Inr (machine_on a)" for a
    by (simp add: machine_on_def PostOffice_new_def Network_new_def Schedule_def NetworkTime_def Let_def)
  have "length (inbox blank) = 52" "length (wbuf blank) = 52" by (simp_all add: blank_def)
  then show ?thesis using m by (auto simp: net_boot_def hi_world_def split: if_splits)
qed

lemma hi_run: "net_run hi_world [Sent hi_letter, Quiet, Quiet, Quiet, Got 1 1 hi_letter]
    (hi_world(0 \<mapsto> fst hi_sent, 1 \<mapsto> snd (snd (snd hi_got))))"
proof -
  note r = hi_runs1 [THEN some_result] hi_runs4 [THEN some_result] hi_runs5 [THEN some_result] hi_runs6 [THEN some_result]
  let ?w = "hi_world(0 \<mapsto> fst hi_sent)"
  obtain p where p: "snd (snd hi_sent) = Some p" using hi_runs2 by blast
  have sent: "hi_sent = (fst hi_sent, fst hi_letter, Some p)" using p hi_runs2 by (metis prod.collapse)
  have "PostOffice_Send id 3 (replicate 52 7) (replicate 64 8) hi_packet hi_mail [104, 105] (machine_on 0) = Some (Inr (fst hi_sent, fst hi_letter, Some p))"
    using r(1) sent by (simp add: hi_sent_def [symmetric])
  moreover have "SendToSocket p (pkt_to (fst hi_letter)) ?w = Inr (?w(1 \<mapsto> hi_waiting))"
    using p by (simp add: SendToSocket_def hi_world_def hi_letter_def hi_waiting_def)
  moreover have l: "hi_letter = (fst hi_letter, hi_mail, take (unat (mail_length hi_mail)) [104, 105])" by (simp add: hi_letter_def hi_mail_def)
  ultimately have "net_step hi_world (Sent hi_letter) (?w(1 \<mapsto> hi_waiting))"
    by (subst l, intro net_step.send [where s = "machine_on 0" and a = 0]) (simp_all add: hi_world_def)
  then have 1: "net_run hi_world ([] @ [Sent hi_letter]) (?w(1 \<mapsto> hi_waiting))" by (rule net_run.step [OF net_run.start])
  have "CheckIfDue net_call Inr True hi_waiting = Inr (fst (projr (CheckIfDue net_call Inr True hi_waiting)), hi_polled)"
    unfolding hi_polled_def prod.collapse using hi_runs3 by (rule sum.collapse(2) [symmetric])
  then have a: "net_step (?w(1 \<mapsto> hi_waiting)) Quiet (?w(1 \<mapsto> hi_waiting, 1 \<mapsto> hi_polled))" by (rule net_step.interrupt [rotated]) simp
  have b: "net_step (?w(1 \<mapsto> hi_polled)) Quiet (?w(1 \<mapsto> hi_polled, 1 \<mapsto> hi_taken))"
    using r(2) by (intro net_step.worker_take) (simp_all add: hi_taken_def)
  have c: "net_step (?w(1 \<mapsto> hi_taken)) Quiet (?w(1 \<mapsto> hi_taken, 1 \<mapsto> hi_boxed))"
    using r(3) by (intro net_step.worker_put [where arr = "replicate 40 9"]) (simp_all add: hi_boxed_def)
  have got: "hi_got = (fst hi_letter, hi_mail, fst (snd (snd hi_got)), snd (snd (snd hi_got)))" using hi_runs7 by (metis prod.collapse)
  have "PostOffice_Receive (int 1) (replicate 40 6) hi_boxed
      = Some (Inr (fst hi_letter, hi_mail, fst (snd (snd hi_got)), snd (snd (snd hi_got))))"
    using r(4) got by (simp add: hi_got_def [symmetric])
  then have d: "net_step (?w(1 \<mapsto> hi_boxed)) (Got 1 1 (fst hi_letter, hi_mail, take (unat (mail_length hi_mail)) (fst (snd (snd hi_got)))))
      (?w(1 \<mapsto> hi_boxed, 1 \<mapsto> snd (snd (snd hi_got))))" by (rule net_step.receive [rotated]) simp
  have "take (unat (mail_length hi_mail)) (fst (snd (snd hi_got))) = [104, 105]" using hi_runs8 by (simp add: hi_mail_def)
  then have e: "(fst hi_letter, hi_mail, take (unat (mail_length hi_mail)) (fst (snd (snd hi_got)))) = hi_letter" by (simp add: hi_letter_def)
  note steps = a [unfolded fun_upd_upd] b [unfolded fun_upd_upd] c [unfolded fun_upd_upd] d [unfolded fun_upd_upd e]
  from net_run.step [OF net_run.step [OF net_run.step [OF net_run.step [OF 1 steps(1)] steps(2)] steps(3)] steps(4)]
  show ?thesis by simp
qed

theorem mail_delivered_witness:
  "\<exists>w s. net_boot 10 hi_world \<and> net_run hi_world [Sent hi_letter, Quiet, Quiet, Quiet, Got 1 1 hi_letter] w \<and> w 1 = Some s
    \<and> flow s 1 = [] \<and> subseq [hi_letter] (posted_to 1 1 [Sent hi_letter, Quiet, Quiet, Quiet, Got 1 1 hi_letter])"
proof -
  let ?w = "hi_world(0 \<mapsto> fst hi_sent, 1 \<mapsto> snd (snd (snd hi_got)))"
  have "?w 1 = Some (snd (snd (snd hi_got)))" by simp
  from mail_delivered [OF hi_boot hi_run this, of 1 "replicate 40 0"] show ?thesis
    using hi_boot hi_run by (intro exI [of _ ?w] exI [of _ "snd (snd (snd hi_got))"]) (simp add: hi_letter_def hi_mail_def)
qed

end
