(* ===== verification/Coff.thy ===== *)
theory Coff
  imports AddrSpace
begin

text \<open>
  The converter \<^verbatim>\<open>bin/coff2noff.c\<close>, which makes the executables that the kernel loads from object files in the COFF
  format (\<^verbatim>\<open>bin/coff.h\<close>, with the four-byte \<^verbatim>\<open>DWORD\<close> of a 64-bit host). The input is the bytes of the file, the output those of
  the new file; an error is the message with which the program exits. The host is little-endian.
\<close>

section \<open>coff.h\<close>

datatype coff_error = FileTooShort | NotMipsel | NotOmagic | DataAndRdata | BssAndSbss | UnknownSegment

type_synonym 'a coff_res = "coff_error + 'a"

definition cbind :: "'a coff_res \<Rightarrow> ('a \<Rightarrow> 'b coff_res) \<Rightarrow> 'b coff_res" where
  "cbind m f = (case m of Inl e \<Rightarrow> Inl e | Inr x \<Rightarrow> f x)"

lemma cbind_simps [simp]: "cbind (Inl e) f = Inl e" "cbind (Inr x) f = f x"
  by (simp_all add: cbind_def)

lemma cbind_eq_Inr: "cbind m f = Inr y \<longleftrightarrow> (\<exists>x. m = Inr x \<and> f x = Inr y)"
  by (cases m) auto

record scnhdr =
  s_name :: "byte list"
  s_paddr :: "32 word"
  s_size :: "32 word"
  s_scnptr :: "32 word"

text \<open>The fields that the converter uses, at their offsets in the structures of 20, 56 and 40 bytes.\<close>

definition half_at :: "nat \<Rightarrow> byte list \<Rightarrow> 16 word" where
  "half_at i bs = ucast (bs ! i) OR push_bit 8 (ucast (bs ! (i + 1)))"

definition word_at :: "nat \<Rightarrow> byte list \<Rightarrow> 32 word" where
  "word_at i bs = of_le32 (bs ! i) (bs ! (i + 1)) (bs ! (i + 2)) (bs ! (i + 3))"

definition scnhdr_of :: "byte list \<Rightarrow> scnhdr" where
  "scnhdr_of bs = \<lparr>s_name = take 8 bs, s_paddr = word_at 8 bs, s_size = word_at 16 bs, s_scnptr = word_at 20 bs\<rparr>"

definition MIPSELMAGIC :: "16 word" where "MIPSELMAGIC = 0x0162"
definition OMAGIC :: "16 word" where "OMAGIC = 263"

section \<open>coff2noff.c\<close>

text \<open>\<^verbatim>\<open>WordToHost\<close> and \<^verbatim>\<open>ShortToHost\<close> do nothing on a little-endian host.\<close>

definition coff_WordToHost :: "32 word \<Rightarrow> 32 word" where "coff_WordToHost w = w"
definition ShortToHost :: "16 word \<Rightarrow> 16 word" where "ShortToHost w = w"

text \<open>
  \<^verbatim>\<open>Read\<close> at the position \<open>pos\<close> of the input: the bytes and the new position. A negative length makes \<^verbatim>\<open>read\<close> return -1.
\<close>

definition coff_Read :: "byte list \<Rightarrow> int \<Rightarrow> nat \<Rightarrow> (byte list \<times> nat) coff_res" where
  "coff_Read inp nBytes pos =
     (let got = (if nBytes < 0 then -1 else min nBytes (int (length inp - pos))) in
      if got \<noteq> nBytes then Inl FileTooShort else Inr (take (nat nBytes) (drop pos inp), pos + nat nBytes))"

text \<open>\<^verbatim>\<open>lseek\<close> from the start of the file; it refuses a negative offset.\<close>

definition host_lseek :: "nat \<Rightarrow> int \<Rightarrow> nat" where
  "host_lseek pos offset = (if offset < 0 then pos else nat offset)"

text \<open>\<^verbatim>\<open>write\<close> fills the file with zeros up to its position.\<close>

definition write_at :: "byte list \<Rightarrow> nat \<Rightarrow> byte list \<Rightarrow> byte list" where
  "write_at out pos bs = (if bs = [] then out else take pos (out @ replicate (pos - length out) 0) @ bs @ drop (pos + length bs) out)"

record conv =
  in_pos :: nat
  out :: "byte list"
  out_pos :: nat
  inNoffFile :: "32 word"
  noffH :: NoffHeader

text \<open>\<^verbatim>\<open>lseek\<close>, \<^verbatim>\<open>malloc\<close>, \<^verbatim>\<open>Read\<close>, \<^verbatim>\<open>Write\<close>, \<^verbatim>\<open>free\<close>.\<close>

definition copy_raw :: "byte list \<Rightarrow> scnhdr \<Rightarrow> conv \<Rightarrow> conv coff_res" where
  "copy_raw inp sec c =
     cbind (coff_Read inp (sint (s_size sec)) (host_lseek (in_pos c) (sint (s_scnptr sec)))) (\<lambda>(buffer, pos).
     Inr (c\<lparr>in_pos := pos, out := write_at (out c) (out_pos c) buffer, out_pos := out_pos c + length buffer,
       inNoffFile := inNoffFile c + s_size sec\<rparr>))"

text \<open>\<^verbatim>\<open>strcmp\<close> with a literal that is shorter than the name field.\<close>

definition name_is :: "byte list \<Rightarrow> scnhdr \<Rightarrow> bool" where
  "name_is lit sec \<longleftrightarrow> take (length lit + 1) (s_name sec) = lit @ [0]"

definition dot_text :: "byte list" where "dot_text = [46, 116, 101, 120, 116]"
definition dot_data :: "byte list" where "dot_data = [46, 100, 97, 116, 97]"
definition dot_rdata :: "byte list" where "dot_rdata = [46, 114, 100, 97, 116, 97]"
definition dot_bss :: "byte list" where "dot_bss = [46, 98, 115, 115]"
definition dot_sbss :: "byte list" where "dot_sbss = [46, 115, 98, 115, 115]"

definition is_data :: "scnhdr \<Rightarrow> bool" where "is_data sec \<longleftrightarrow> name_is dot_data sec \<or> name_is dot_rdata sec"
definition is_bss :: "scnhdr \<Rightarrow> bool" where "is_bss sec \<longleftrightarrow> name_is dot_bss sec \<or> name_is dot_sbss sec"

text \<open>The body of the loop.\<close>

definition convert_section :: "byte list \<Rightarrow> scnhdr \<Rightarrow> conv \<Rightarrow> conv coff_res" where
  "convert_section inp sec c =
     (let here = \<lparr>virtualAddr = s_paddr sec, inFileAddr = inNoffFile c, seg_size = s_size sec\<rparr>; h = noffH c in
      if s_size sec = 0 then Inr c
      else if name_is dot_text sec then copy_raw inp sec (c\<lparr>noffH := h\<lparr>code := here\<rparr>\<rparr>)
      else if is_data sec then
        (if seg_size (initData h) \<noteq> 0 then Inl DataAndRdata
         else copy_raw inp sec (c\<lparr>noffH := h\<lparr>initData := here\<rparr>\<rparr>))
      else if is_bss sec then
        (if seg_size (uninitData h) \<noteq> 0
         then (if s_paddr sec = virtualAddr (uninitData h) + seg_size (uninitData h) then Inl BssAndSbss
               else Inr (c\<lparr>noffH := h\<lparr>uninitData := (uninitData h)\<lparr>seg_size := seg_size (uninitData h) + s_size sec\<rparr>\<rparr>\<rparr>))
         else Inr (c\<lparr>noffH := h\<lparr>uninitData := (uninitData h)\<lparr>virtualAddr := s_paddr sec, seg_size := s_size sec\<rparr>\<rparr>\<rparr>))
      else Inl UnknownSegment)"

fun convert_sections :: "byte list \<Rightarrow> scnhdr list \<Rightarrow> conv \<Rightarrow> conv coff_res" where
  "convert_sections inp [] c = Inr c"
| "convert_sections inp (sec # secs) c = cbind (convert_section inp sec c) (convert_sections inp secs)"

definition NoffHeader_bytes :: "NoffHeader \<Rightarrow> byte list" where
  "NoffHeader_bytes h = bytes_of [noffMagic h, virtualAddr (code h), inFileAddr (code h), seg_size (code h),
     virtualAddr (initData h), inFileAddr (initData h), seg_size (initData h),
     virtualAddr (uninitData h), inFileAddr (uninitData h), seg_size (uninitData h)]"

text \<open>The two headers and the table of sections, with the position behind them.\<close>

definition coff_sections :: "byte list \<Rightarrow> (scnhdr list \<times> nat) coff_res" where
  "coff_sections inp =
     cbind (coff_Read inp 20 0) (\<lambda>(fileh, p1).
     if ShortToHost (half_at 0 fileh) \<noteq> MIPSELMAGIC then Inl NotMipsel
     else
       cbind (coff_Read inp 56 p1) (\<lambda>(systemh, p2).
       if ShortToHost (half_at 0 systemh) \<noteq> OMAGIC then Inl NotOmagic
       else
         let numsections = unat (ShortToHost (half_at 2 fileh)) in
         cbind (coff_Read inp (int (numsections * 40)) p2) (\<lambda>(table, p3).
         Inr (map (\<lambda>i. let sec = scnhdr_of (take 40 (drop (40 * i) table)) in
             sec\<lparr>s_paddr := coff_WordToHost (s_paddr sec), s_size := coff_WordToHost (s_size sec), s_scnptr := coff_WordToHost (s_scnptr sec)\<rparr>)
           [0..<numsections], p3))))"

text \<open>The header is a local variable with the contents \<open>junk\<close>.\<close>

definition coff2noff :: "NoffHeader \<Rightarrow> byte list \<Rightarrow> byte list coff_res" where
  "coff2noff junk inp =
     cbind (coff_sections inp) (\<lambda>(sections, pos).
     let h = junk\<lparr>noffMagic := NOFFMAGIC, code := (code junk)\<lparr>seg_size := 0\<rparr>, initData := (initData junk)\<lparr>seg_size := 0\<rparr>,
               uninitData := (uninitData junk)\<lparr>seg_size := 0\<rparr>\<rparr> in
     cbind (convert_sections inp sections \<lparr>in_pos = pos, out = [], out_pos = 40, inNoffFile = 40, noffH = h\<rparr>) (\<lambda>c.
     Inr (write_at (out c) 0 (NoffHeader_bytes (noffH c)))))"

section \<open>What the output holds\<close>

definition raw :: "byte list \<Rightarrow> scnhdr \<Rightarrow> byte list" where
  "raw inp sec = take (unat (s_size sec)) (drop (unat (s_scnptr sec)) inp)"

text \<open>Sizes and file positions are not negative.\<close>

definition regular :: "scnhdr \<Rightarrow> bool" where
  "regular sec \<longleftrightarrow> 0 \<le> sint (s_size sec) \<and> 0 \<le> sint (s_scnptr sec)"

definition texts :: "scnhdr list \<Rightarrow> scnhdr list" where
  "texts = filter (\<lambda>sec. s_size sec \<noteq> 0 \<and> name_is dot_text sec)"

definition datas :: "scnhdr list \<Rightarrow> scnhdr list" where
  "datas = filter (\<lambda>sec. s_size sec \<noteq> 0 \<and> is_data sec)"

definition bsss :: "scnhdr list \<Rightarrow> scnhdr list" where
  "bsss = filter (\<lambda>sec. s_size sec \<noteq> 0 \<and> is_bss sec)"

definition copied :: "scnhdr list \<Rightarrow> scnhdr list" where
  "copied = filter (\<lambda>sec. s_size sec \<noteq> 0 \<and> (name_is dot_text sec \<or> is_data sec))"

definition body :: "byte list \<Rightarrow> scnhdr list \<Rightarrow> byte list" where
  "body inp secs = concat (map (raw inp) (copied secs))"

text \<open>The names exclude each other.\<close>

lemma take_take_prefix: "take n xs = ys \<Longrightarrow> m \<le> n \<Longrightarrow> take m xs = take m ys"
  by (metis min.absorb1 take_take)

lemma name_second:
  assumes "name_is lit sec" and "2 \<le> length lit"
  shows "take 2 (s_name sec) = take 2 lit"
  using take_take_prefix [of "length lit + 1" "s_name sec" "lit @ [0]" 2] assms by (simp add: name_is_def)

lemma names_differ:
  "name_is dot_text sec \<Longrightarrow> \<not> is_data sec" "name_is dot_text sec \<Longrightarrow> \<not> is_bss sec" "is_data sec \<Longrightarrow> \<not> is_bss sec"
  unfolding is_data_def is_bss_def
  using name_second [of dot_text sec] name_second [of dot_data sec] name_second [of dot_rdata sec] name_second [of dot_bss sec]
    name_second [of dot_sbss sec]
  by (auto simp: dot_text_def dot_data_def dot_rdata_def dot_bss_def dot_sbss_def)

lemma sint_nonneg: "0 \<le> sint w \<Longrightarrow> sint w = int (unat w)" for w :: "32 word"
  using sint_ge [of w] sint_lt [of w] uint_sint [of w] by (simp add: take_bit_int_eq_self)

lemma coff_Read_nat:
  "coff_Read inp (int n) p = (if n \<le> length inp - p then Inr (take n (drop p inp), p + n) else Inl FileTooShort)"
  by (auto simp: coff_Read_def Let_def)

lemma copy_raw_Inr:
  assumes r: "regular sec" and C: "copy_raw inp sec c = Inr c'"
  shows "length (raw inp sec) = unat (s_size sec)"
    "\<exists>p. c' = c\<lparr>in_pos := p, out := write_at (out c) (out_pos c) (raw inp sec), out_pos := out_pos c + length (raw inp sec),
       inNoffFile := inNoffFile c + s_size sec\<rparr>"
proof -
  let ?n = "unat (s_size sec)" and ?p = "unat (s_scnptr sec)"
  have s: "sint (s_size sec) = int ?n" "sint (s_scnptr sec) = int ?p" using r sint_nonneg unfolding regular_def by blast+
  have l: "host_lseek (in_pos c) (int ?p) = ?p" by (simp add: host_lseek_def)
  have "cbind (coff_Read inp (int ?n) ?p) (\<lambda>(buffer, pos). Inr (c\<lparr>in_pos := pos, out := write_at (out c) (out_pos c) buffer,
      out_pos := out_pos c + length buffer, inNoffFile := inNoffFile c + s_size sec\<rparr>)) = Inr c'"
    using C unfolding copy_raw_def s l .
  note E = this [unfolded coff_Read_nat]
  have m: "?n \<le> length inp - ?p" using E by (simp split: if_splits)
  then show "length (raw inp sec) = ?n" by (simp add: raw_def)
  show "\<exists>p. c' = c\<lparr>in_pos := p, out := write_at (out c) (out_pos c) (raw inp sec), out_pos := out_pos c + length (raw inp sec),
       inNoffFile := inNoffFile c + s_size sec\<rparr>"
    using E m by (auto simp: raw_def)
qed

text \<open>A segment of the new header describes one of the sections: it starts behind the bytes of the sections before it.\<close>

definition placed :: "byte list \<Rightarrow> scnhdr list \<Rightarrow> scnhdr \<Rightarrow> Segment \<Rightarrow> bool" where
  "placed inp secs sec seg \<longleftrightarrow> virtualAddr seg = s_paddr sec \<and> seg_size seg = s_size sec \<and> length (raw inp sec) = unat (s_size sec)
     \<and> copied [sec] = [sec] \<and> (\<exists>xs ys. secs = xs @ sec # ys \<and> inFileAddr seg = of_nat (40 + length (body inp xs)))"

definition conv_inv :: "byte list \<Rightarrow> scnhdr list \<Rightarrow> conv \<Rightarrow> bool" where
  "conv_inv inp secs c \<longleftrightarrow> (let b = body inp secs; h = noffH c in
     out_pos c = 40 + length b \<and> out c = (if b = [] then [] else replicate 40 0 @ b) \<and> inNoffFile c = of_nat (40 + length b)
     \<and> noffMagic h = NOFFMAGIC
     \<and> (if texts secs = [] then seg_size (code h) = 0 else placed inp secs (last (texts secs)) (code h))
     \<and> (if datas secs = [] then seg_size (initData h) = 0 else \<exists>d. datas secs = [d] \<and> placed inp secs d (initData h))
     \<and> seg_size (uninitData h) = sum_list (map s_size (bsss secs))
     \<and> (\<forall>d. bsss secs = [d] \<longrightarrow> virtualAddr (uninitData h) = s_paddr d))"

lemma placed_append: "placed inp secs sec seg \<Longrightarrow> placed inp (secs @ [x]) sec seg"
  unfolding placed_def by (metis append.assoc append_Cons)

lemma write_at_end:
  "b = [] \<and> ot = [] \<or> b \<noteq> [] \<and> ot = replicate 40 0 @ b \<Longrightarrow> bs \<noteq> [] \<Longrightarrow> write_at ot (40 + length b) bs = replicate 40 0 @ b @ bs"
  by (auto simp: write_at_def)

lemmas sections_defs = texts_def datas_def bsss_def copied_def body_def

lemma regular_copied:
  assumes I: "conv_inv inp secs c" and r: "regular sec" and nz: "s_size sec \<noteq> 0" and k: "name_is dot_text sec \<or> is_data sec"
    and C: "copy_raw inp sec (c\<lparr>noffH := h\<rparr>) = Inr c'"
  shows "body inp (secs @ [sec]) = body inp secs @ raw inp sec" "noffH c' = h"
    "placed inp (secs @ [sec]) sec \<lparr>virtualAddr = s_paddr sec, inFileAddr = inNoffFile c, seg_size = s_size sec\<rparr>"
    "out_pos c' = 40 + length (body inp (secs @ [sec]))" "inNoffFile c' = of_nat (40 + length (body inp (secs @ [sec])))"
    "out c' = (if body inp (secs @ [sec]) = [] then [] else replicate 40 0 @ body inp (secs @ [sec]))"
proof -
  note R = copy_raw_Inr [OF r C]
  obtain p where c': "c' = c\<lparr>noffH := h, in_pos := p, out := write_at (out c) (out_pos c) (raw inp sec), out_pos := out_pos c + length (raw inp sec),
       inNoffFile := inNoffFile c + s_size sec\<rparr>" using R(2) by auto
  have i: "out_pos c = 40 + length (body inp secs)" "inNoffFile c = of_nat (40 + length (body inp secs))"
    "out c = (if body inp secs = [] then [] else replicate 40 0 @ body inp secs)" using I by (simp_all add: conv_inv_def Let_def)
  show b: "body inp (secs @ [sec]) = body inp secs @ raw inp sec" using nz k by (simp add: body_def copied_def)
  show "noffH c' = h" by (simp add: c')
  have "raw inp sec \<noteq> []" using R(1) nz by (metis list.size(3) unat_eq_0)
  moreover from this have "write_at (out c) (40 + length (body inp secs)) (raw inp sec) = replicate 40 0 @ body inp secs @ raw inp sec"
    by (intro write_at_end) (use i(3) in auto)
  ultimately show "out c' = (if body inp (secs @ [sec]) = [] then [] else replicate 40 0 @ body inp (secs @ [sec]))"
    by (simp add: c' b i(1))
  show "out_pos c' = 40 + length (body inp (secs @ [sec]))" by (simp add: c' b i(1))
  show "inNoffFile c' = of_nat (40 + length (body inp (secs @ [sec])))" using R(1) by (simp add: c' b i(2))
  show "placed inp (secs @ [sec]) sec \<lparr>virtualAddr = s_paddr sec, inFileAddr = inNoffFile c, seg_size = s_size sec\<rparr>"
    unfolding placed_def using R(1) i(2) nz k by (auto simp: copied_def intro: exI [of _ secs] exI [of _ "[]"])
qed

lemma convert_section_inv:
  assumes I: "conv_inv inp secs c" and r: "regular sec" and C: "convert_section inp sec c = Inr c'"
  shows "conv_inv inp (secs @ [sec]) c'"
proof (cases "s_size sec = 0")
  case True
  then have "c' = c" using C by (simp add: convert_section_def)
  moreover have "texts (secs @ [sec]) = texts secs" "datas (secs @ [sec]) = datas secs" "body inp (secs @ [sec]) = body inp secs"
      "bsss (secs @ [sec]) = bsss secs" using True by (simp_all add: sections_defs)
  ultimately show ?thesis using I placed_append [of inp secs _ _ sec] unfolding conv_inv_def Let_def by auto
next
  case nz: False
  let ?here = "\<lparr>virtualAddr = s_paddr sec, inFileAddr = inNoffFile c, seg_size = s_size sec\<rparr>"
  note I' = I [unfolded conv_inv_def Let_def]
  consider "name_is dot_text sec" | "\<not> name_is dot_text sec" "is_data sec" | "\<not> name_is dot_text sec" "\<not> is_data sec" "is_bss sec"
    using C nz by (auto simp: convert_section_def Let_def split: if_splits)
  then show ?thesis
  proof cases
    case 1
    then have "copy_raw inp sec (c\<lparr>noffH := (noffH c)\<lparr>code := ?here\<rparr>\<rparr>) = Inr c'" using C nz by (simp add: convert_section_def Let_def)
    note R = regular_copied [OF I r nz disjI1 [OF 1] this]
    have "texts (secs @ [sec]) = texts secs @ [sec]" "datas (secs @ [sec]) = datas secs" "bsss (secs @ [sec]) = bsss secs"
      using 1 nz names_differ [of sec] by (simp_all add: sections_defs)
    then show ?thesis using I' R(2-6) placed_append [of inp secs _ _ sec] unfolding conv_inv_def Let_def R(1)
      by (auto simp: R(2))
  next
    case 2
    then have z: "seg_size (initData (noffH c)) = 0" and "copy_raw inp sec (c\<lparr>noffH := (noffH c)\<lparr>initData := ?here\<rparr>\<rparr>) = Inr c'"
      using C nz by (simp_all add: convert_section_def Let_def split: if_splits)
    note R = regular_copied [OF I r nz disjI2 [OF 2(2)] this(2)]
    have "datas secs = []"
    proof (rule ccontr)
      assume "datas secs \<noteq> []"
      then obtain d where d: "datas secs = [d]" "seg_size (initData (noffH c)) = s_size d" using I' by (auto simp: placed_def)
      have "s_size d \<noteq> 0" using arg_cong [OF d(1), of set] by (auto simp: datas_def)
      then show False using d(2) z by simp
    qed
    then have "texts (secs @ [sec]) = texts secs" "datas (secs @ [sec]) = [sec]" "bsss (secs @ [sec]) = bsss secs"
      using 2 nz names_differ [of sec] by (simp_all add: sections_defs)
    then show ?thesis using I' R(2-6) placed_append [of inp secs _ _ sec] unfolding conv_inv_def Let_def R(1)
      by (auto simp: R(2))
  next
    case 3
    have l: "texts (secs @ [sec]) = texts secs" "datas (secs @ [sec]) = datas secs" "body inp (secs @ [sec]) = body inp secs"
      "bsss (secs @ [sec]) = bsss secs @ [sec]" using 3 nz by (simp_all add: sections_defs)
    show ?thesis using C nz 3 I' placed_append [of inp secs _ _ sec] unfolding conv_inv_def Let_def l
      by (auto simp: convert_section_def Let_def split: if_splits)
  qed
qed

lemma convert_sections_inv:
  "conv_inv inp done c \<Longrightarrow> \<forall>sec \<in> set secs. regular sec \<Longrightarrow> convert_sections inp secs c = Inr c' \<Longrightarrow> conv_inv inp (done @ secs) c'"
proof (induction secs arbitrary: "done" c)
  case (Cons sec secs)
  obtain c1 where c1: "convert_section inp sec c = Inr c1" "convert_sections inp secs c1 = Inr c'" using Cons.prems(3) by (auto simp: cbind_eq_Inr)
  have "conv_inv inp (done @ [sec]) c1" using convert_section_inv [OF Cons.prems(1) _ c1(1)] Cons.prems(2) by simp
  from Cons.IH [OF this _ c1(2)] Cons.prems(2) show ?case by simp
qed simp

text \<open>The header round trip; ten words make 40 bytes.\<close>

lemma length_NoffHeader_bytes: "length (NoffHeader_bytes h) = 40"
  by (simp add: NoffHeader_bytes_def)

lemma words_of_append: "4 dvd length xs \<Longrightarrow> words_of (xs @ ys) = words_of xs @ words_of ys"
proof (induction xs rule: words_of.induct)
  case (1 a b c d xs)
  then show ?case by (simp del: of_le32.simps)
qed (auto dest: dvd_imp_le)

lemma noff_of_bytes: "noff_of (NoffHeader_bytes h @ b) = h"
proof -
  have "words_of (NoffHeader_bytes h @ b) = words_of (NoffHeader_bytes h) @ words_of b"
    by (rule words_of_append) (simp add: length_NoffHeader_bytes)
  then show ?thesis by (simp add: noff_of_def NoffHeader_bytes_def segment_at_def Let_def)
qed

lemma coff2noff_file:
  assumes C: "coff2noff junk inp = Inr noff" and S: "coff_sections inp = Inr (secs, pos)" and r: "\<forall>sec \<in> set secs. regular sec"
  obtains c where "conv_inv inp secs c" "noff = NoffHeader_bytes (noffH c) @ body inp secs" "noff_of noff = noffH c"
proof -
  let ?h = "junk\<lparr>noffMagic := NOFFMAGIC, code := (code junk)\<lparr>seg_size := 0\<rparr>, initData := (initData junk)\<lparr>seg_size := 0\<rparr>,
               uninitData := (uninitData junk)\<lparr>seg_size := 0\<rparr>\<rparr>"
  let ?c = "\<lparr>in_pos = pos, out = [], out_pos = 40, inNoffFile = 40, noffH = ?h\<rparr>"
  obtain c where c: "convert_sections inp secs ?c = Inr c" "noff = write_at (out c) 0 (NoffHeader_bytes (noffH c))"
    using C S by (auto simp: coff2noff_def cbind_eq_Inr Let_def)
  have "conv_inv inp [] ?c" by (simp add: conv_inv_def sections_defs Let_def)
  from convert_sections_inv [OF this r c(1)] have I: "conv_inv inp secs c" by simp
  moreover have n: "noff = NoffHeader_bytes (noffH c) @ body inp secs"
    using I length_NoffHeader_bytes [of "noffH c"] unfolding c(2) write_at_def by (auto simp: conv_inv_def Let_def)
  ultimately show ?thesis using that noff_of_bytes by blast
qed

text \<open>The bytes of a segment in the new file.\<close>

definition holds_section :: "byte list \<Rightarrow> byte list \<Rightarrow> scnhdr \<Rightarrow> Segment \<Rightarrow> bool" where
  "holds_section inp noff sec seg \<longleftrightarrow> virtualAddr seg = s_paddr sec \<and> seg_size seg = s_size sec \<and> length (raw inp sec) = unat (s_size sec)
     \<and> take (unat (seg_size seg)) (drop (unat (inFileAddr seg)) noff) = raw inp sec"

lemma placed_holds:
  assumes "placed inp secs sec seg" and "length hb = 40" and "length (hb @ body inp secs) < 2 ^ 32"
  shows "holds_section inp (hb @ body inp secs) sec seg"
proof -
  obtain xs ys where p: "secs = xs @ sec # ys" "copied [sec] = [sec]" "inFileAddr seg = of_nat (40 + length (body inp xs))"
    using assms(1) by (auto simp: placed_def)
  have b: "body inp secs = body inp xs @ raw inp sec @ body inp ys"
    using p(1,2) by (auto simp: body_def copied_def split: if_splits)
  have "40 + length (body inp xs) < 2 ^ 32" using assms(2,3) b by simp
  then have "unat (inFileAddr seg) = 40 + length (body inp xs)" using unat_of_nat32 [of "40 + length (body inp xs)"] p(3) by simp
  then show ?thesis using assms(1,2) b by (simp add: holds_section_def placed_def)
qed

section \<open>Properties\<close>

text \<open>
  C12. The converter is correct: whenever it accepts a COFF file, and no section has a negative size or position, the new file has a header with the
  magic number; its code segment is the last text section of the COFF file and its data segment the only data section
  (or they have size 0 when there is none), with address and size of the section, and exactly the bytes of the section are found at the place
  that the header gives; the size of the uninitialised segment is the sum of the sizes of those sections.
\<close>

theorem coff2noff_correct:
  assumes C: "coff2noff junk inp = Inr noff" and S: "coff_sections inp = Inr (secs, pos)" and r: "\<forall>sec \<in> set secs. regular sec"
    and len: "length noff < 2 ^ 32" and h: "h = noff_of noff"
  shows "noffMagic h = NOFFMAGIC
    \<and> (if texts secs = [] then seg_size (code h) = 0 else holds_section inp noff (last (texts secs)) (code h))
    \<and> (if datas secs = [] then seg_size (initData h) = 0 else \<exists>d. datas secs = [d] \<and> holds_section inp noff d (initData h))
    \<and> seg_size (uninitData h) = sum_list (map s_size (bsss secs))"
proof -
  from coff2noff_file [OF C S r] obtain c where c: "conv_inv inp secs c" "noff = NoffHeader_bytes (noffH c) @ body inp secs" "noff_of noff = noffH c" .
  have P: "holds_section inp noff sec seg" if "placed inp secs sec seg" for sec seg
    using placed_holds [OF that length_NoffHeader_bytes] len unfolding c(2) by blast
  show ?thesis using c(1) P unfolding conv_inv_def Let_def h c(3) by (auto split: if_splits)
qed

text \<open>A COFF file with four bytes of code and three bytes of data behind them.\<close>

definition section_bytes :: "byte list \<Rightarrow> 32 word \<Rightarrow> 32 word \<Rightarrow> 32 word \<Rightarrow> byte list" where
  "section_bytes nm paddr sz ptr = nm @ replicate (8 - length nm) 0 @ le32 paddr @ le32 paddr @ le32 sz @ le32 ptr @ replicate 16 0"

definition sample_coff :: "byte list" where
  "sample_coff = [0x62, 1, 2, 0] @ replicate 16 0 @ [7, 1] @ replicate 54 0
     @ section_bytes dot_text 0 4 156 @ section_bytes dot_data 4 3 160 @ [11, 12, 13, 14] @ [21, 22, 23]"

definition sample_text :: scnhdr where
  "sample_text = \<lparr>s_name = dot_text @ [0, 0, 0], s_paddr = 0, s_size = 4, s_scnptr = 156\<rparr>"

definition sample_data :: scnhdr where
  "sample_data = \<lparr>s_name = dot_data @ [0, 0, 0], s_paddr = 4, s_size = 3, s_scnptr = 160\<rparr>"

definition blank_header :: NoffHeader where
  "blank_header = (let z = \<lparr>virtualAddr = 9, inFileAddr = 9, seg_size = 9\<rparr> in \<lparr>noffMagic = 9, code = z, initData = z, uninitData = z\<rparr>)"

definition sample_noff :: "byte list" where
  "sample_noff = projr (coff2noff blank_header sample_coff)"

lemma sample_sections: "coff_sections sample_coff = Inr ([sample_text, sample_data], 156)"
  by code_simp

lemma sample_converts: "\<not> isl (coff2noff blank_header sample_coff)" "length sample_noff = 47"
  by code_simp+

lemma sample_coff_simps:
  "coff2noff blank_header sample_coff = Inr sample_noff" "texts [sample_text, sample_data] = [sample_text]"
  "datas [sample_text, sample_data] = [sample_data]" "copied [sample_text, sample_data] = [sample_text, sample_data]"
  "bsss [sample_text, sample_data] = []"
  "raw sample_coff sample_text = [11, 12, 13, 14]" "raw sample_coff sample_data = [21, 22, 23]"
proof -
  show "coff2noff blank_header sample_coff = Inr sample_noff" unfolding sample_noff_def
    using sum.collapse(2) [OF sample_converts(1)] by simp
qed code_simp+

lemma sample_regular: "\<forall>sec \<in> set [sample_text, sample_data]. regular sec"
  by code_simp

theorem coff2noff_correct_witness:
  "\<exists>h. coff2noff blank_header sample_coff = Inr sample_noff \<and> h = noff_of sample_noff
    \<and> holds_section sample_coff sample_noff sample_text (code h) \<and> holds_section sample_coff sample_noff sample_data (initData h)
    \<and> seg_size (uninitData h) = 0"
proof -
  have "length sample_noff < 2 ^ 32" by (simp add: sample_converts)
  from coff2noff_correct [OF sample_coff_simps(1) sample_sections sample_regular this refl] show ?thesis
    by (simp add: sample_coff_simps)
qed

text \<open>
  C38. The check of the two uninitialised sections is the wrong way round: a file whose sections \<^verbatim>\<open>.bss\<close> and \<^verbatim>\<open>.sbss\<close> are contiguous, which
  one segment could describe, is refused, and every other one is accepted, with a segment from the address of the first section
  that is as long as both together, wherever the second one is.
\<close>

theorem bss_check_inverted:
  assumes S: "coff_sections inp = Inr ([x, y], pos)" and b: "is_bss x" "is_bss y" "s_size x \<noteq> 0" "s_size y \<noteq> 0"
  shows "if s_paddr y = s_paddr x + s_size x then coff2noff junk inp = Inl BssAndSbss
    else \<exists>noff. coff2noff junk inp = Inr noff \<and> virtualAddr (uninitData (noff_of noff)) = s_paddr x
      \<and> seg_size (uninitData (noff_of noff)) = s_size x + s_size y"
proof -
  have n: "\<not> name_is dot_text x" "\<not> is_data x" "\<not> name_is dot_text y" "\<not> is_data y" using b names_differ by blast+
  have w: "write_at [] 0 (NoffHeader_bytes h) = NoffHeader_bytes h" for h by (simp add: write_at_def)
  show ?thesis using b n noff_of_bytes [of _ "[]"] by (simp add: coff2noff_def S convert_section_def Let_def w)
qed

definition bss_coff :: "32 word \<Rightarrow> byte list" where
  "bss_coff a = [0x62, 1, 2, 0] @ replicate 16 0 @ [7, 1] @ replicate 54 0 @ section_bytes dot_bss 8 4 0 @ section_bytes dot_sbss a 4 0"

theorem bss_check_inverted_witness:
  "coff2noff blank_header (bss_coff 12) = Inl BssAndSbss \<and> \<not> isl (coff2noff blank_header (bss_coff 100))"
proof -
  let ?x = "\<lparr>s_name = dot_bss @ [0, 0, 0, 0], s_paddr = 8, s_size = 4, s_scnptr = 0\<rparr>"
  let ?y = "\<lambda>a. \<lparr>s_name = dot_sbss @ [0, 0, 0], s_paddr = a, s_size = 4, s_scnptr = 0\<rparr>"
  have b: "is_bss ?x" "is_bss (?y a)" for a by (simp_all add: is_bss_def name_is_def dot_bss_def dot_sbss_def)
  have S: "coff_sections (bss_coff 12) = Inr ([?x, ?y 12], 156)" "coff_sections (bss_coff 100) = Inr ([?x, ?y 100], 156)" by code_simp+
  from bss_check_inverted [OF S(1) b, of blank_header] bss_check_inverted [OF S(2) b, of blank_header] show ?thesis by auto
qed

end
