(* ===== verification/File_Copy.thy ===== *)
theory File_Copy
  imports FileSys_Spec
begin

text \<open>
  The routines of \<^verbatim>\<open>filesys/fstest.cc\<close> behind the command line: \<^verbatim>\<open>Copy\<close> puts a UNIX file into the file system, which is how programs get
  on the disk, \<^verbatim>\<open>Print\<close> prints a file, and \<^verbatim>\<open>PerformanceTest\<close> writes a file and reads it back in small pieces. The UNIX file is a
  list of bytes; the messages are values.
\<close>

section \<open>fstest.cc\<close>

definition TransferSize :: nat where "TransferSize = 10"

text \<open>The loop of \<^verbatim>\<open>Copy\<close>: \<open>src\<close> is what \<^verbatim>\<open>fread\<close> has not yet returned, \<open>junk\<close> the uninitialised buffers of the writes.\<close>

function copy_loop :: "(nat \<Rightarrow> nat \<Rightarrow> byte) \<Rightarrow> OpenFile \<Rightarrow> byte list \<Rightarrow> SynchDisk \<Rightarrow> SynchDisk res" where
  "copy_loop junk f src s =
     (let chunk = take TransferSize src; amountRead = length chunk in
      if amountRead > 0
      then rbind (OpenFile_Write (junk (length src)) f chunk (int amountRead) s) (\<lambda>(n, f', s'). copy_loop junk f' (drop TransferSize src) s')
      else Inr s)"
  by pat_completeness auto
termination
  by (relation "measure (\<lambda>(junk, f, src, s). length src)") (auto simp: TransferSize_def)

datatype copy_result = NoInput | NotCreated | Copied

definition Copy :: "Fresh \<Rightarrow> FileSystem \<Rightarrow> byte list option \<Rightarrow> byte list \<Rightarrow> SynchDisk \<Rightarrow> (copy_result \<times> SynchDisk) res" where
  "Copy J fs fp nm s =
     (case fp of None \<Rightarrow> Inr (NoInput, s)
      | Some src \<Rightarrow>
          rbind (FileSystem_Create J fs nm (int (length src)) s) (\<lambda>(ok, s1).
          if \<not> ok then Inr (NotCreated, s1)
          else rbind (FileSystem_Open J fs nm s1) (\<lambda>(openFile, s2).
            case openFile of None \<Rightarrow> Inl AssertFail
            | Some f \<Rightarrow> rbind (copy_loop (fresh_buf J) f src s2) (\<lambda>s3. Inr (Copied, s3)))))"

text \<open>The loop of \<^verbatim>\<open>Print\<close>, with the characters that it prints.\<close>

partial_function (option) print_loop :: "OpenFile \<Rightarrow> SynchDisk \<Rightarrow> (byte list \<times> SynchDisk) res option" where
  "print_loop f s =
     (case OpenFile_Read f (int TransferSize) s of
        Inl e \<Rightarrow> Some (Inl e)
      | Inr (buffer, f', s') \<Rightarrow>
          if length buffer > 0
          then Option.bind (print_loop f' s') (\<lambda>r. Some (rbind r (\<lambda>(out, s2). Inr (buffer @ out, s2))))
          else Some (Inr ([], s')))"

text \<open>The result is \<open>None\<close> when the file cannot be opened.\<close>

definition Print :: "Fresh \<Rightarrow> FileSystem \<Rightarrow> byte list \<Rightarrow> SynchDisk \<Rightarrow> (byte list option \<times> SynchDisk) res option" where
  "Print J fs nm s =
     (case FileSystem_Open J fs nm s of
        Inl e \<Rightarrow> Some (Inl e)
      | Inr (None, s1) \<Rightarrow> Some (Inr (None, s1))
      | Inr (Some f, s1) \<Rightarrow> Option.bind (print_loop f s1) (\<lambda>r. Some (rbind r (\<lambda>(out, s2). Inr (Some out, s2)))))"

definition FileName :: "byte list" where "FileName = [84, 101, 115, 116, 70, 105, 108, 101]"

definition Contents :: "byte list" where "Contents = [49, 50, 51, 52, 53, 54, 55, 56, 57, 48]"

definition FileSize :: nat where "FileSize = length Contents * 5000"

datatype test_result = CannotCreate | CannotOpen | CannotTransfer | Transferred

text \<open>The \<^verbatim>\<open>for\<close> loops of \<^verbatim>\<open>FileWrite\<close> and \<^verbatim>\<open>FileRead\<close>; \<open>n\<close> rounds are left.\<close>

fun write_rounds :: "(nat \<Rightarrow> nat \<Rightarrow> byte) \<Rightarrow> nat \<Rightarrow> OpenFile \<Rightarrow> SynchDisk \<Rightarrow> (test_result \<times> SynchDisk) res" where
  "write_rounds junk 0 f s = Inr (Transferred, s)"
| "write_rounds junk (Suc n) f s =
     rbind (OpenFile_Write (junk n) f Contents (int (length Contents)) s) (\<lambda>(numBytes, f', s').
     if numBytes < 10 then Inr (CannotTransfer, s') else write_rounds junk n f' s')"

fun read_rounds :: "nat \<Rightarrow> OpenFile \<Rightarrow> SynchDisk \<Rightarrow> (test_result \<times> SynchDisk) res" where
  "read_rounds 0 f s = Inr (Transferred, s)"
| "read_rounds (Suc n) f s =
     rbind (OpenFile_Read f (int (length Contents)) s) (\<lambda>(buffer, f', s').
     if length buffer < 10 \<or> take (length Contents) buffer \<noteq> Contents then Inr (CannotTransfer, s') else read_rounds n f' s')"

definition FileWrite :: "Fresh \<Rightarrow> FileSystem \<Rightarrow> SynchDisk \<Rightarrow> (test_result \<times> SynchDisk) res" where
  "FileWrite J fs s =
     rbind (FileSystem_Create J fs FileName 0 s) (\<lambda>(ok, s1).
     if \<not> ok then Inr (CannotCreate, s1)
     else rbind (FileSystem_Open J fs FileName s1) (\<lambda>(openFile, s2).
       case openFile of None \<Rightarrow> Inr (CannotOpen, s2)
       | Some f \<Rightarrow> write_rounds (fresh_buf J) (FileSize div length Contents) f s2))"

definition FileRead :: "Fresh \<Rightarrow> FileSystem \<Rightarrow> SynchDisk \<Rightarrow> (test_result \<times> SynchDisk) res" where
  "FileRead J fs s =
     rbind (FileSystem_Open J fs FileName s) (\<lambda>(openFile, s1).
     case openFile of None \<Rightarrow> Inr (CannotOpen, s1)
     | Some f \<Rightarrow> read_rounds (FileSize div length Contents) f s1)"

text \<open>With the outcome of the two routines and whether the file could be removed.\<close>

definition PerformanceTest :: "Fresh \<Rightarrow> FileSystem \<Rightarrow> SynchDisk \<Rightarrow> (test_result \<times> test_result \<times> bool \<times> SynchDisk) res" where
  "PerformanceTest J fs s =
     rbind (FileWrite J fs s) (\<lambda>(w, s1).
     rbind (FileRead J fs s1) (\<lambda>(r, s2).
     rbind (FileSystem_Remove J fs FileName s2) (\<lambda>(ok, s3). Inr (w, r, ok, s3))))"

declare copy_loop.simps [simp del]

section \<open>Copying\<close>

lemma take_patch: "n + length c \<le> length b \<Longrightarrow> take (n + length c) (patch b n c) = take n b @ c"
  by (simp add: patch_def)

lemma file_length:
  assumes "fs_inv fs s" and "fs_names (sd_sector s) k = Some x"
  shows "fs_files (sd_sector s) k = Some (bytes_at (sd_sector s) x)" "int (length (bytes_at (sd_sector s) x)) = numBytes (hdr_at (sd_sector s) x)"
proof -
  have wf: "fs_wf (sd_sector s)" "sd_ok s" using assms(1) by (simp_all add: fs_inv_def)
  note ok = fs_wf_file(1) [OF wf(1) assms(2)]
  show "int (length (bytes_at (sd_sector s) x)) = numBytes (hdr_at (sd_sector s) x)"
    using length_file_bytes [OF wf(2) ok] ok by (simp add: bytes_at_def file_ok_def hdr_wf_def)
qed (use assms(2) in \<open>simp add: fs_files_def\<close>)

text \<open>One \<^verbatim>\<open>Write\<close> at the position \<open>n\<close> of the file, of bytes that fit.\<close>

lemma write_chunk:
  assumes inv: "fs_inv fs s" and x: "fs_names (sd_sector s) k = Some x" and f: "hdr f = hdr_at (sd_sector s) x" "seekPosition f = int n"
    and b: "b = bytes_at (sd_sector s) x" and c: "c \<noteq> []" "n + length c \<le> length b"
  obtains s' where "OpenFile_Write junk f c (int (length c)) s = Inr (int (length c), f\<lparr>seekPosition := int (n + length c)\<rparr>, s')" "fs_inv fs s'"
    "fs_files (sd_sector s') = (fs_files (sd_sector s))(k \<mapsto> patch b n c)" "fs_names (sd_sector s') = fs_names (sd_sector s)"
    "free_sectors (sd_sector s') = free_sectors (sd_sector s)" "hdr_at (sd_sector s') x = hdr_at (sd_sector s) x"
proof -
  have lb: "int (length b) = numBytes (hdr f)" using file_length(2) [OF inv x] f(1) b by simp
  have p: "0 \<le> int n" "int n < numBytes (hdr f)" "0 < int (length c)" "int (length c) \<le> int (length c)" using c lb by (cases c; simp)+
  have nb: "length c = min (nat (int (length c))) (nat (numBytes (hdr f)) - nat (int n))" using c(2) lb by simp
  from open_file_write [OF inv refl x f(1) p nb, of junk] obtain s'
    where s': "OpenFile_WriteAt junk f c (int (length c)) (int n) s = Inr (int (length c), s')" "fs_inv fs s'"
    "fs_files (sd_sector s') = (fs_files (sd_sector s))(k \<mapsto> patch b n c)" "fs_names (sd_sector s') = fs_names (sd_sector s)"
    "free_sectors (sd_sector s') = free_sectors (sd_sector s)" "hdr_at (sd_sector s') x = hdr_at (sd_sector s) x" using b by auto
  then show thesis using that f(2) by (simp add: OpenFile_Write_def)
qed

text \<open>The loop, from a position \<open>n\<close> in the file on, with the rest of the source still to be written.\<close>

lemma copy_loop_correct:
  assumes "fs_inv fs s" and "fs_names (sd_sector s) k = Some x" and "hdr f = hdr_at (sd_sector s) x" "seekPosition f = int n"
    and "b = bytes_at (sd_sector s) x" "n + length src = length b"
  shows "\<exists>s'. copy_loop junk f src s = Inr s' \<and> fs_inv fs s' \<and> fs_files (sd_sector s') = (fs_files (sd_sector s))(k \<mapsto> take n b @ src)
    \<and> free_sectors (sd_sector s') = free_sectors (sd_sector s)"
  using assms
proof (induction junk f src s arbitrary: n b rule: copy_loop.induct)
  case (1 junk f src s)
  let ?c = "take TransferSize src"
  show ?case
  proof (cases "src = []")
    case True
    then have "take n b @ src = b" "copy_loop junk f src s = Inr s" using 1(7) by (simp_all add: copy_loop.simps)
    moreover have "(fs_files (sd_sector s))(k \<mapsto> b) = fs_files (sd_sector s)" using file_length(1) [OF 1(2,3)] 1(6) by (simp add: fun_upd_idem)
    ultimately show ?thesis using 1(2) by simp
  next
    case False
    then have c: "?c \<noteq> []" "n + length ?c \<le> length b" using 1(7) by (simp_all add: TransferSize_def)
    obtain s1 where s1: "OpenFile_Write (junk (length src)) f ?c (int (length ?c)) s = Inr (int (length ?c), f\<lparr>seekPosition := int (n + length ?c)\<rparr>, s1)"
      "fs_inv fs s1" "fs_files (sd_sector s1) = (fs_files (sd_sector s))(k \<mapsto> patch b n ?c)" "fs_names (sd_sector s1) = fs_names (sd_sector s)"
      "free_sectors (sd_sector s1) = free_sectors (sd_sector s)" "hdr_at (sd_sector s1) x = hdr_at (sd_sector s) x"
      using write_chunk [OF 1(2-6) c, of "junk (length src)"] .
    let ?f = "f\<lparr>seekPosition := int (n + length ?c)\<rparr>"
    have x1: "fs_names (sd_sector s1) k = Some x" using 1(3) s1(4) by simp
    have b1: "patch b n ?c = bytes_at (sd_sector s1) x" using file_length(1) [OF s1(2) x1] s1(3) by simp
    have l1: "n + length ?c + length (drop TransferSize src) = length (patch b n ?c)" using c(2) 1(7) by simp
    have h1: "hdr ?f = hdr_at (sd_sector s1) x" using 1(4) s1(6) by simp
    have "\<exists>s'. copy_loop junk ?f (drop TransferSize src) s1 = Inr s' \<and> fs_inv fs s'
        \<and> fs_files (sd_sector s') = (fs_files (sd_sector s1))(k \<mapsto> take (n + length ?c) (patch b n ?c) @ drop TransferSize src)
        \<and> free_sectors (sd_sector s') = free_sectors (sd_sector s1)"
      by (rule 1(1) [OF refl refl _ s1(1) refl refl s1(2) x1 h1 _ b1 l1]) (use c(1) in simp_all)
    moreover have "take (n + length ?c) (patch b n ?c) @ drop TransferSize src = take n b @ src"
      unfolding take_patch [OF c(2)] by simp
    moreover have "copy_loop junk f src s = copy_loop junk ?f (drop TransferSize src) s1" using c(1) s1(1) by (subst copy_loop.simps) (simp add: Let_def)
    ultimately show ?thesis by (simp only: s1(3,5) fun_upd_upd)
  qed
qed

section \<open>Printing\<close>

lemma print_loop_correct:
  assumes "sd_ok s" and "file_ok (hdr f)" and "seekPosition f = int n"
  shows "\<exists>s'. print_loop f s = Some (Inr (drop n (file_bytes (hdr f) (sd_sector s)), s')) \<and> sd_ok s' \<and> sd_sector s' = sd_sector s"
  using assms
proof (induction "length (file_bytes (hdr f) (sd_sector s)) - n" arbitrary: f s n rule: less_induct)
  case less
  let ?b = "file_bytes (hdr f) (sd_sector s)"
  obtain s1 where s1: "OpenFile_ReadAt f (int TransferSize) (int n) s = Inr (take TransferSize (drop n ?b), s1)" "sd_ok s1" "sd_sector s1 = sd_sector s"
    using OpenFile_ReadAt_small [OF less(2,3), of "int n" "int TransferSize"] by (auto simp: INT_MAX_def TransferSize_def)
  let ?c = "take TransferSize (drop n ?b)"
  let ?f = "f\<lparr>seekPosition := int (n + length ?c)\<rparr>"
  have R: "OpenFile_Read f (int TransferSize) s = Inr (?c, ?f, s1)" using s1(1) less(4) by (simp add: OpenFile_Read_def)
  show ?case
  proof (cases "?c = []")
    case True
    then have "drop n ?b = []" by (simp add: TransferSize_def)
    then show ?thesis using R True s1(2,3) by (subst print_loop.simps) simp
  next
    case False
    have "0 < length ?c" "length ?c \<le> length ?b - n" using False by (simp, simp)
    then have "length ?b - (n + length ?c) < length ?b - n" by linarith
    then obtain s2 where s2: "print_loop ?f s1 = Some (Inr (drop (n + length ?c) ?b, s2))" "sd_ok s2" "sd_sector s2 = sd_sector s"
      using less(1) [of ?f s1 "n + length ?c"] less(3) s1(2,3) by auto
    have "?c @ drop (n + length ?c) ?b = drop n ?b"
    proof -
      have "drop (length ?c) (drop n ?b) = drop TransferSize (drop n ?b)" by (simp add: min_def)
      then have "?c @ drop (length ?c) (drop n ?b) = drop n ?b" by (metis append_take_drop_id)
      then show ?thesis by (simp add: add.commute)
    qed
    then show ?thesis using R False s2 by (subst print_loop.simps) simp
  qed
qed

lemma Print_correct:
  assumes J: "fresh_ok J" and inv: "fs_inv fs s"
  shows "\<exists>s'. Print J fs nm s = Some (Inr (fs_files (sd_sector s) (cstr 9 nm), s')) \<and> fs_inv fs s' \<and> sd_sector s' = sd_sector s"
proof -
  let ?secs = "sd_sector s"
  obtain s1 where o: "FileSystem_Open J fs nm s = Inr (map_option (\<lambda>x. \<lparr>hdr = hdr_at ?secs x, seekPosition = 0\<rparr>)
      (fs_names ?secs (cstr 9 nm)), s1)" "fs_inv fs s1" "sd_sector s1 = ?secs"
    using FileSystem_Open_correct [OF inv J refl] .
  show ?thesis
  proof (cases "fs_names ?secs (cstr 9 nm)")
    case None
    then show ?thesis using o by (simp add: Print_def fs_files_def)
  next
    case (Some x)
    let ?f = "\<lparr>hdr = hdr_at ?secs x, seekPosition = 0\<rparr>"
    have "sd_ok s1" "file_ok (hdr ?f)" using o(2) inv fs_wf_file(1) [OF _ Some] by (auto simp: fs_inv_def)
    from print_loop_correct [OF this, of 0] obtain s2 where s2: "print_loop ?f s1 = Some (Inr (bytes_at ?secs x, s2))" "sd_ok s2" "sd_sector s2 = ?secs"
      using o(3) by (auto simp: bytes_at_def)
    then have "fs_inv fs s2" using o(2,3) by (simp add: fs_inv_def)
    then show ?thesis using o(1) Some s2 by (simp add: Print_def fs_files_def)
  qed
qed

section \<open>Properties\<close>

lemma Copy_correct:
  assumes J: "fresh_ok J" and inv: "fs_inv fs s" and new: "fs_files (sd_sector s) (cstr 9 nm) = None"
    and room: "card (dom (fs_files (sd_sector s))) < 10" "int (length src) \<le> MaxFileSize" "file_cost (int (length src)) \<le> int (card (free_sectors (sd_sector s)))"
  obtains s' where "Copy J fs (Some src) nm s = Inr (Copied, s')" "fs_inv fs s'" "fs_files (sd_sector s') = (fs_files (sd_sector s))(cstr 9 nm \<mapsto> src)"
    "int (card (free_sectors (sd_sector s'))) = int (card (free_sectors (sd_sector s))) - file_cost (int (length src))"
proof -
  obtain s1 b where s1: "FileSystem_Create J fs nm (int (length src)) s = Inr (True, s1)" "fs_inv fs s1" "length b = length src"
    "fs_files (sd_sector s1) = (fs_files (sd_sector s))(cstr 9 nm \<mapsto> b)"
    "int (card (free_sectors (sd_sector s1))) = int (card (free_sectors (sd_sector s))) - file_cost (int (length src))"
    using Create_contract [OF J inv new room(1) _ room(2,3)] by auto
  obtain x where x: "fs_names (sd_sector s1) (cstr 9 nm) = Some x" using s1(4) by (auto simp: fs_files_def fun_eq_iff split: if_splits)
  let ?f = "\<lparr>hdr = hdr_at (sd_sector s1) x, seekPosition = 0\<rparr>"
  obtain s2 where s2: "FileSystem_Open J fs nm s1 = Inr (Some ?f, s2)" "fs_inv fs s2" "sd_sector s2 = sd_sector s1"
    using FileSystem_Open_correct [OF s1(2) J refl, of nm] x by auto
  have x2: "fs_names (sd_sector s2) (cstr 9 nm) = Some x" using x s2(3) by simp
  have b: "b = bytes_at (sd_sector s2) x" using file_length(1) [OF s2(2) x2] s1(4) s2(3) by simp
  obtain s3 where "copy_loop (fresh_buf J) ?f src s2 = Inr s3" "fs_inv fs s3" "fs_files (sd_sector s3) = (fs_files (sd_sector s2))(cstr 9 nm \<mapsto> src)"
    "free_sectors (sd_sector s3) = free_sectors (sd_sector s2)"
    using copy_loop_correct [OF s2(2) x2, of ?f 0 b src "fresh_buf J"] b s1(3) s2(3) by auto
  then show thesis using that [of s3] s1 s2 by (simp add: Copy_def)
qed

text \<open>
  C10. \<^verbatim>\<open>Copy\<close> and \<^verbatim>\<open>Print\<close>: a UNIX file of at most the maximal size, copied under a new name to a disk with room for it, is then a file
  with exactly these bytes; every other file is as it was; and \<^verbatim>\<open>Print\<close> ends and prints the bytes.
\<close>

theorem Copy_then_Print:
  assumes J: "fresh_ok J" and inv: "fs_inv fs s" and new: "fs_files (sd_sector s) (cstr 9 nm) = None"
    and room: "card (dom (fs_files (sd_sector s))) < 10" "int (length src) \<le> MaxFileSize" "file_cost (int (length src)) \<le> int (card (free_sectors (sd_sector s)))"
  shows "\<exists>s1 s2. Copy J fs (Some src) nm s = Inr (Copied, s1) \<and> fs_files (sd_sector s1) = (fs_files (sd_sector s))(cstr 9 nm \<mapsto> src)
    \<and> Print J fs nm s1 = Some (Inr (Some src, s2)) \<and> fs_inv fs s2 \<and> sd_sector s2 = sd_sector s1"
proof -
  obtain s1 where s1: "Copy J fs (Some src) nm s = Inr (Copied, s1)" "fs_inv fs s1" "fs_files (sd_sector s1) = (fs_files (sd_sector s))(cstr 9 nm \<mapsto> src)"
    using Copy_correct [OF assms] .
  from Print_correct [OF J s1(2), of nm] s1 show ?thesis by auto
qed

theorem Copy_then_Print_witness:
  "\<exists>fs s s1 s2. FileSystem_new sample_fresh True blank_disk = Inr (fs, s)
    \<and> Copy sample_fresh fs (Some (replicate 200 7)) [97] s = Inr (Copied, s1) \<and> Print sample_fresh fs [97] s1 = Some (Inr (Some (replicate 200 7), s2))"
proof -
  obtain fs s where f: "FileSystem_new sample_fresh True blank_disk = Inr (fs, s)" "fs_inv fs s"
      "fs_files (sd_sector s) = Map.empty" "card (free_sectors (sd_sector s)) = 1019"
    using formatted_sample .
  have "int (length (replicate 200 (7 :: byte))) \<le> MaxFileSize" by (simp add: MaxFileSize_def SectorSize_def)
  moreover have "file_cost (int (length (replicate 200 (7 :: byte)))) \<le> int (card (free_sectors (sd_sector s)))"
    by (simp add: f(4) file_cost_def divRoundUp_sectors)
  moreover have "fs_files (sd_sector s) (cstr 9 [97]) = None" "card (dom (fs_files (sd_sector s))) < 10" using f(3) by simp_all
  ultimately show ?thesis using Copy_then_Print [OF sample_fresh_ok f(2), of "[97]" "replicate 200 7"] f(1) by blast
qed

text \<open>
  The performance test cannot work on this file system, as its comment says: it creates the file with length 0 and files do not
  grow, so the first write transfers nothing; the test then finds nothing to read either and removes the file, and
  all files are as before.
\<close>

theorem PerformanceTest_fails:
  assumes J: "fresh_ok J" and inv: "fs_inv fs s" and new: "fs_files (sd_sector s) (cstr 9 FileName) = None"
    and room: "card (dom (fs_files (sd_sector s))) < 10" "free_sectors (sd_sector s) \<noteq> {}"
  shows "\<exists>s'. PerformanceTest J fs s = Inr (CannotTransfer, CannotTransfer, True, s') \<and> fs_inv fs s'
    \<and> fs_files (sd_sector s') = fs_files (sd_sector s)"
proof -
  have cost: "file_cost 0 \<le> int (card (free_sectors (sd_sector s)))"
  proof -
    have "file_cost 0 = 1" by (simp add: file_cost_def divRoundUp_sectors)
    moreover have "0 < card (free_sectors (sd_sector s))" using room(2) by (simp add: card_gt_0_iff)
    ultimately show ?thesis by linarith
  qed
  obtain s1 b where s1: "FileSystem_Create J fs FileName 0 s = Inr (True, s1)" "fs_inv fs s1" "b = []"
    "fs_files (sd_sector s1) = (fs_files (sd_sector s))(cstr 9 FileName \<mapsto> b)"
    using Create_contract [OF J inv new room(1) _ _ cost] by (auto simp: MaxFileSize_def SectorSize_def)
  obtain x where x: "fs_names (sd_sector s1) (cstr 9 FileName) = Some x" using s1(4) by (auto simp: fs_files_def fun_eq_iff split: if_splits)
  let ?f = "\<lparr>hdr = hdr_at (sd_sector s1) x, seekPosition = 0\<rparr>"
  have len: "numBytes (hdr ?f) = 0" using file_length [OF s1(2) x] s1(3,4) by simp
  have R: "\<exists>n. FileSize div length Contents = Suc n" "length Contents = 10" by (simp_all add: FileSize_def Contents_def)
  obtain n where n: "FileSize div length Contents = Suc n" using R(1) ..
  obtain s2 where s2: "FileSystem_Open J fs FileName s1 = Inr (Some ?f, s2)" "fs_inv fs s2" "sd_sector s2 = sd_sector s1"
    using FileSystem_Open_correct [OF s1(2) J refl, of FileName] x by auto
  have "OpenFile_Write junk ?f Contents (int (length Contents)) s2 = Inr (0, ?f, s2)" for junk
    using WriteAt_out_of_range [of "int (length Contents)" ?f 0 junk Contents s2] len by (simp add: OpenFile_Write_def)
  then have W: "FileWrite J fs s = Inr (CannotTransfer, s2)" using s1(1) s2(1) n by (simp add: FileWrite_def)
  obtain s3 where s3: "FileSystem_Open J fs FileName s2 = Inr (Some ?f, s3)" "fs_inv fs s3" "sd_sector s3 = sd_sector s1"
    using FileSystem_Open_correct [OF s2(2) J refl, of FileName] x s2(3) by auto
  have "OpenFile_Read ?f (int (length Contents)) s3 = Inr ([], ?f, s3)"
    using len by (simp add: OpenFile_Read_def OpenFile_ReadAt_def FileHeader_FileLength_def)
  then have "FileRead J fs s2 = Inr (CannotTransfer, s3)" using s3(1) n by (simp add: FileRead_def)
  moreover obtain s4 where "FileSystem_Remove J fs FileName s3 = Inr (True, s4)" "fs_inv fs s4"
    "fs_files (sd_sector s4) = (fs_files (sd_sector s3))(cstr 9 FileName := None)"
    using Remove_contract [OF J s3(2), of FileName b] s1(4) s3(3) by auto
  moreover have "(fs_files (sd_sector s3))(cstr 9 FileName := None) = fs_files (sd_sector s)" using s1(4) s3(3) new by auto
  ultimately show ?thesis using W by (simp add: PerformanceTest_def)
qed

theorem PerformanceTest_fails_witness:
  "\<exists>fs s s'. FileSystem_new sample_fresh True blank_disk = Inr (fs, s) \<and> PerformanceTest sample_fresh fs s = Inr (CannotTransfer, CannotTransfer, True, s')"
proof -
  obtain fs s where f: "FileSystem_new sample_fresh True blank_disk = Inr (fs, s)" "fs_inv fs s"
      "fs_files (sd_sector s) = Map.empty" "card (free_sectors (sd_sector s)) = 1019"
    using formatted_sample .
  have "free_sectors (sd_sector s) \<noteq> {}" using f(4) by auto
  moreover have "fs_files (sd_sector s) (cstr 9 FileName) = None" "card (dom (fs_files (sd_sector s))) < 10" using f(3) by simp_all
  ultimately show ?thesis using PerformanceTest_fails [OF sample_fresh_ok f(2)] f(1) by blast
qed

end
