(* ===== verification/Program_Build.thy ===== *)
theory Program_Build
  imports Program_Start Coff File_Copy
begin

text \<open>
  From the object file to the running program: \<^verbatim>\<open>bin/coff2noff.c\<close> converts it, \<^verbatim>\<open>Copy\<close> of \<^verbatim>\<open>filesys/fstest.cc\<close> puts the
  result on the disk, and \<^verbatim>\<open>StartProcess\<close> of \<^verbatim>\<open>userprog/progtest.cc\<close> loads it.
\<close>

lemma copied_split:
  assumes "copied secs = [t, d]" and "t \<noteq> d" and "secs = xs @ t # ys" and "copied [t] = [t]"
  shows "copied xs = []"
proof -
  have "copied secs = copied xs @ t # copied ys" using assms(3,4) by (simp add: copied_def split: if_splits)
  with assms(1) have e: "copied xs @ t # copied ys = [t, d]" by simp
  show ?thesis
  proof (cases "copied xs")
    case (Cons x l)
    then have "x = t" "l @ t # copied ys = [d]" using e by simp_all
    then show ?thesis using assms(2) by (cases l) auto
  qed
qed

text \<open>The header of a program with one text and one data section that the linker has put one behind the other.\<close>

lemma converted_linked:
  assumes C: "coff2noff junk inp = Inr noff" and S: "coff_sections inp = Inr (secs, pos)" and r: "\<forall>sec \<in> set secs. regular sec"
    and k: "copied secs = [t, d]" "texts secs = [t]" "datas secs = [d]" and addr: "s_paddr t = 0" "s_paddr d = s_size t"
    and sz: "unat (s_size t) + unat (s_size d) + unat (sum_list (map s_size (bsss secs))) + 1024 \<le> 16384" and h: "h = noff_of (take 40 noff)"
  shows "linked h" "unat (inFileAddr (code h)) = 40" "seg_size (code h) = s_size t" "seg_size (initData h) = s_size d"
    "noff = take 40 noff @ raw inp t @ raw inp d" "length noff = 40 + unat (s_size t) + unat (s_size d)"
    "length (raw inp t) = unat (s_size t)"
proof -
  from coff2noff_file [OF C S r] obtain c where c: "conv_inv inp secs c" "noff = NoffHeader_bytes (noffH c) @ body inp secs" "noff_of noff = noffH c" .
  have hc: "h = noffH c" using noff_of_bytes [of "noffH c" "[]"] length_NoffHeader_bytes [of "noffH c"] unfolding h c(2) by simp
  have i: "noffMagic h = NOFFMAGIC" "placed inp secs t (code h)" "placed inp secs d (initData h)"
    "seg_size (uninitData h) = sum_list (map s_size (bsss secs))" using c(1) k(2,3) unfolding conv_inv_def Let_def hc by auto
  have td: "t \<noteq> d"
  proof
    assume "t = d"
    then have "name_is dot_text t" "is_data t" using arg_cong [OF k(2), of set] arg_cong [OF k(3), of set] by (auto simp: texts_def datas_def)
    then show False using names_differ(1) by blast
  qed
  obtain xs ys where t: "secs = xs @ t # ys" "inFileAddr (code h) = of_nat (40 + length (body inp xs))" "copied [t] = [t]"
    using i(2) by (auto simp: placed_def)
  obtain us vs where d: "secs = us @ d # vs" "inFileAddr (initData h) = of_nat (40 + length (body inp us))" "copied [d] = [d]"
    using i(3) by (auto simp: placed_def)
  have len: "length (raw inp t) = unat (s_size t)" "length (raw inp d) = unat (s_size d)" using i(2,3) by (simp_all add: placed_def)
  have "copied xs = []" by (rule copied_split [OF k(1) td t(1,3)])
  then have a: "inFileAddr (code h) = 40" using t(2) by (simp add: body_def)
  have "copied us @ d # copied vs = [t, d]" using k(1) d(1,3) by (simp add: copied_def split: if_splits)
  then have "copied us = [t]" using td by (cases "copied us") (auto simp: append_eq_Cons_conv Cons_eq_append_conv)
  then have b: "inFileAddr (initData h) = 40 + s_size t" using d(2) len(1) by (simp add: body_def)
  have f: "virtualAddr (code h) = 0" "seg_size (code h) = s_size t" "virtualAddr (initData h) = s_size t" "seg_size (initData h) = s_size d"
    using i(2,3) addr by (simp_all add: placed_def)
  show "linked h" using i(1,4) f a b sz by (simp add: linked_def)
  show "unat (inFileAddr (code h)) = 40" by (simp add: a)
  show "seg_size (code h) = s_size t" "seg_size (initData h) = s_size d" "length (raw inp t) = unat (s_size t)" by (fact f f len)+
  have body: "body inp secs = raw inp t @ raw inp d" by (simp add: body_def k(1))
  show "noff = take 40 noff @ raw inp t @ raw inp d" "length noff = 40 + unat (s_size t) + unat (s_size d)"
    using length_NoffHeader_bytes [of "noffH c"] len unfolding c(2) body by simp_all
qed

section \<open>Properties\<close>

text \<open>
  C9. A program that is linked at address 0, converted by \<^verbatim>\<open>coff2noff\<close>, copied to the disk with \<^verbatim>\<open>Copy\<close> and started by name runs with its own code
  and data, under these conditions. The COFF file has regular sections, among them one text section at address 0 and behind it one data
  section, and the text does not end on a page boundary (its size is no multiple of 128) or the data is at most 128 bytes long: the
  programs outside this condition are those that \<open>AddrSpace_shifts_data\<close> shows to be loaded wrongly. The converted file is
  at most \<open>MaxFileSize\<close> long and the disk has room for it; its name is new and the directory has a free entry; the program with its stack fits into the
  memory and into the free frames. Then the copy succeeds and \<^verbatim>\<open>StartProcess\<close> finds it; the user memory from address 0 on holds the bytes
  of the text section followed by those of the data section, and the program counter is 0.
\<close>

theorem built_program_runs:
  assumes C: "coff2noff junk inp = Inr noff" and S: "coff_sections inp = Inr (secs, pos)" and r: "\<forall>sec \<in> set secs. regular sec"
    and k: "copied secs = [t, d]" "texts secs = [t]" "datas secs = [d]" and addr: "s_paddr t = 0" "s_paddr d = s_size t"
    and sz: "unat (s_size t) + unat (s_size d) + unat (sum_list (map s_size (bsss secs))) + 1024 \<le> 16384"
    and meet: "unat (s_size t) mod 128 \<noteq> 0 \<or> unat (s_size d) \<le> 128"
    and J: "fresh_ok (j_fresh J)" and fs: "fs_inv (fileSystem os) (diskState os)"
    and new: "fs_files (sd_sector (diskState os)) (cstr 9 nm) = None" "card (dom (fs_files (sd_sector (diskState os)))) < 10"
    and disk: "int (length noff) \<le> MaxFileSize" "file_cost (int (length noff)) \<le> int (card (free_sectors (sd_sector (diskState os))))"
    and bm: "bm_wf (myBitmap os)" "numBits (myBitmap os) = 128" and room: "program_pages (noff_of (take 40 noff)) \<le> card ({0..<128} - marked (myBitmap os))"
    and m: "length (mainMemory (machine (kern os))) = 16384" "length (registers (machine (kern os))) = 40" "tlb (machine (kern os)) = None"
  shows "\<exists>s os'. Copy (j_fresh J) (fileSystem os) (Some noff) nm (diskState os) = Inr (Copied, s)
    \<and> progtest_StartProcess J nm (os\<lparr>diskState := s\<rparr>) = Inr (True, os') \<and> reg (mach os') PCReg = 0
    \<and> (\<forall>i < unat (s_size t) + unat (s_size d). user_byte (mach os') (of_nat i) = Some ((raw inp t @ raw inp d) ! i))"
proof -
  let ?h = "noff_of (take 40 noff)"
  note L = converted_linked [OF C S r k addr sz refl]
  have len: "40 \<le> length noff" using L(6) by simp
  obtain s0 where s0: "Copy (j_fresh J) (fileSystem os) (Some noff) nm (diskState os) = Inr (Copied, s0)" "fs_inv (fileSystem os) s0"
    "fs_files (sd_sector s0) = (fs_files (sd_sector (diskState os)))(cstr 9 nm \<mapsto> noff)" using Copy_correct [OF J fs new disk] .
  let ?os = "os\<lparr>diskState := s0\<rparr>"
  have o: "fs_inv (fileSystem ?os) (diskState ?os)" "fs_files (sd_sector (diskState ?os)) (cstr 9 nm) = Some noff"
    "bm_wf (myBitmap ?os)" "numBits (myBitmap ?os) = 128" "program_pages ?h \<le> card ({0..<128} - marked (myBitmap ?os))"
    "length (mainMemory (machine (kern ?os))) = 16384" "length (registers (machine (kern ?os))) = 40" "tlb (machine (kern ?os)) = None"
    using s0(2,3) bm room m by simp_all
  have pm: "pages_meet ?h" using meet L(3,4) by (simp add: pages_meet_def)
  obtain sp mem rv bm' s where R: "progtest_StartProcess J nm ?os = Inr (True, program_state sp mem rv bm' s ?os)" "rv ! PCReg = 0"
    "\<forall>i < 128 * program_pages ?h. user_byte (mach (program_state sp mem rv bm' s ?os)) (of_nat i) =
         Some (if i < 128 * image_pages ?h \<and> 40 + i < length noff then noff ! (40 + i) else 0)"
    using start_program [OF J o(1,2) len refl L(1) pm L(2) [symmetric] o(3-8)] by metis
  have "registers (mach (program_state sp mem rv bm' s ?os)) = rv"
    by (simp add: mach_def program_state_def Let_def AddrSpace_RestoreState_def)
  then have pc: "reg (mach (program_state sp mem rv bm' s ?os)) PCReg = 0" using R(2) by (simp add: reg_def)
  have "user_byte (mach (program_state sp mem rv bm' s ?os)) (of_nat i) = Some ((raw inp t @ raw inp d) ! i)"
    if i: "i < unat (s_size t) + unat (s_size d)" for i
  proof -
    have "i < 128 * program_pages ?h" "i < 128 * image_pages ?h" using i unfolding program_pages_def image_pages_def L(3,4) by linarith+
    moreover have "noff ! (40 + i) = (raw inp t @ raw inp d) ! i" using L(5) len by (metis length_take min.absorb2 nth_append_length_plus)
    ultimately show ?thesis using R(3) i L(6) by simp
  qed
  then show ?thesis using s0(1) R(1) pc by blast
qed

text \<open>The sample program on a formatted disk.\<close>

theorem built_program_runs_witness:
  "\<exists>os s os'. Copy sample_fresh (fileSystem os) (Some sample_noff) [97] (diskState os) = Inr (Copied, s)
    \<and> progtest_StartProcess sample_junk [97] (os\<lparr>diskState := s\<rparr>) = Inr (True, os') \<and> user_byte (mach os') 2 = Some 13 \<and> user_byte (mach os') 5 = Some 22"
proof -
  obtain fs s where f: "fs_inv fs s" "fs_files (sd_sector s) = Map.empty" "card (free_sectors (sd_sector s)) = 1019"
    using formatted_sample by metis
  obtain c where "SynchConsole_new [] = Inr c" by (rule sample_console)
  define os where "os = sample_os fs s c sample_kernel"
  have J: "fresh_ok (j_fresh sample_junk)" "j_fresh sample_junk = sample_fresh" using sample_fresh_ok by (simp_all add: sample_junk_def)
  have o: "fs_inv (fileSystem os) (diskState os)" "fs_files (sd_sector (diskState os)) (cstr 9 [97]) = None"
    "card (dom (fs_files (sd_sector (diskState os)))) < 10" "card (free_sectors (sd_sector (diskState os))) = 1019"
    "bm_wf (myBitmap os)" "numBits (myBitmap os) = 128" "128 \<le> card ({0..<128} - marked (myBitmap os))"
    "length (mainMemory (machine (kern os))) = 16384" "length (registers (machine (kern os))) = 40" "tlb (machine (kern os)) = None"
    using f free_own_frames by (simp_all add: os_def sample_os_def sample_kernel_def Machine_new_def machine_consts NumTotalRegs_def)
  have dk: "int (length sample_noff) \<le> MaxFileSize" "file_cost (int (length sample_noff)) \<le> int (card (free_sectors (sd_sector (diskState os))))"
    by (simp add: sample_converts MaxFileSize_def SectorSize_def, simp add: sample_converts o(4) file_cost_def divRoundUp_sectors)
  have ad: "s_paddr sample_text = 0" "s_paddr sample_data = s_size sample_text" and sz: "unat (s_size sample_text) = 4" "unat (s_size sample_data) = 3"
    by (simp_all add: sample_text_def sample_data_def)
  have sm: "unat (s_size sample_text) + unat (s_size sample_data) + unat (sum_list (map s_size (bsss [sample_text, sample_data]))) + 1024 \<le> 16384"
    by (simp add: sz sample_coff_simps)
  note L = converted_linked [OF sample_coff_simps(1) sample_sections sample_regular sample_coff_simps(4,2,3) ad sm refl]
  have "program_pages (noff_of (take 40 sample_noff)) \<le> 128" using linked_sizes(3) [OF L(1)] by simp
  then have room: "program_pages (noff_of (take 40 sample_noff)) \<le> card ({0..<128} - marked (myBitmap os))" using o(7) by simp
  from built_program_runs [OF sample_coff_simps(1) sample_sections sample_regular sample_coff_simps(4,2,3) ad sm _ J(1) o(1-3) dk o(5,6) room o(8-10)]
  obtain s os' where r: "Copy sample_fresh (fileSystem os) (Some sample_noff) [97] (diskState os) = Inr (Copied, s)"
    "progtest_StartProcess sample_junk [97] (os\<lparr>diskState := s\<rparr>) = Inr (True, os')"
    "\<forall>i < 7. user_byte (mach os') (of_nat i) = Some (([11, 12, 13, 14] @ [21, 22, 23]) ! i)"
    unfolding sz sample_coff_simps J(2) by auto
  show ?thesis using r(1,2) r(3) [rule_format, of 2] r(3) [rule_format, of 5] by (intro exI [of _ os] exI [of _ s] exI [of _ os']) simp
qed

end
