(* ===== verification/Spec2Isabelle.thy ===== *)
theory Spec2Isabelle
  imports FileSys_Spec Mips_Arith User_Switch Synch_List Process_Isolation File_Calls Console_Live Post Program_Build
begin

text \<open>
  A verification of NachOS, an instructional operating system written in C++ that runs on a simulated
  MIPS machine. The theories model the file system, the simulated machine with its interrupts, the thread
  system with its synchronisation routines, user programs with their address spaces and system calls, the
  console and the network, and prove what makes each of them correct.

  \<^bold>\<open>Parts of the program and their theories.\<close>

  \<^item> \<^verbatim>\<open>Nachos_Prelude\<close>: results with faults (\<open>res\<close>: a failed \<^verbatim>\<open>ASSERT\<close>, an access out of bounds, a null or
    dangling pointer, use of an uninitialised value, an overflow of \<^verbatim>\<open>int\<close>), arrays with checked access, \<^verbatim>\<open>bcopy\<close>, the rounding divisions
    of \<^verbatim>\<open>threads/utility.h\<close>, C strings and the little-endian layout of integers.
  \<^item> \<^verbatim>\<open>Bitmap\<close> (\<^verbatim>\<open>userprog/bitmap.cc\<close>), \<^verbatim>\<open>Disk\<close> (\<^verbatim>\<open>machine/disk.cc\<close>, \<^verbatim>\<open>machine/stats.cc\<close> and the calls of
    \<^verbatim>\<open>machine/sysdep.cc\<close> the disk makes), \<^verbatim>\<open>SynchDisk\<close> (\<^verbatim>\<open>filesys/synchdisk.cc\<close>), \<^verbatim>\<open>FileHdr\<close> (\<^verbatim>\<open>filesys/filehdr.cc\<close>),
    \<^verbatim>\<open>OpenFile\<close> (\<^verbatim>\<open>filesys/openfile.cc\<close>), \<^verbatim>\<open>Directory\<close> (\<^verbatim>\<open>filesys/directory.cc\<close>) and \<^verbatim>\<open>FileSys\<close> (\<^verbatim>\<open>filesys/filesys.cc\<close>)
    are the file system from the bytes of the disk up. Each calls the one below it through a locale that states
    what it relies on (a block device, a byte file, a table of names), interpreted on the definitions of the
    component below. \<^verbatim>\<open>FileSys_Spec\<close> states the file system as a map from names to contents with a number of free
    sectors, and proves that every operation, and every sequence of requests with their results, follows it. \<^verbatim>\<open>File_Copy\<close> (\<^verbatim>\<open>filesys/fstest.cc\<close>) holds the routines behind the
    command line that copy a UNIX file to the disk and print a file.
  \<^item> \<^verbatim>\<open>Machine\<close> (\<^verbatim>\<open>machine/machine.cc\<close>, \<^verbatim>\<open>machine/translate.cc\<close>) holds the registers, the memory and the translation of
    virtual addresses; \<^verbatim>\<open>Mips\<close> (\<^verbatim>\<open>machine/mipssim.cc\<close>) decodes and executes one instruction; \<^verbatim>\<open>Mips_Arith\<close> proves its
    arithmetic, that every instruction completes or calls the exception handler once on a precise state, and where exactly \<^verbatim>\<open>OR\<close> and
    \<^verbatim>\<open>SRL\<close> differ from the MIPS architecture.
  \<^item> \<^verbatim>\<open>Linked_List\<close> (\<^verbatim>\<open>threads/list.h\<close>) is the linked list on an explicit heap of cells, shown to implement the
    sequences that the other theories use for lists.
  \<^item> \<^verbatim>\<open>Interrupt\<close> (\<^verbatim>\<open>machine/interrupt.cc\<close>, \<^verbatim>\<open>machine/timer.cc\<close>): simulated time and the pending interrupts. The
    locale \<open>devices\<close> is the contract of the device routines, interpreted on those of the timer and of the console;
    the locale \<open>interrupt_invariant\<close> carries an invariant of the rest of the system across the interrupts, and is
    interpreted on several invariants of the kernel and on the post office.
  \<^item> \<^verbatim>\<open>Scheduler\<close> (\<^verbatim>\<open>threads/scheduler.cc\<close>, \<^verbatim>\<open>threads/thread.h\<close>) and \<^verbatim>\<open>Synch\<close> (\<^verbatim>\<open>threads/thread.cc\<close>,
    \<^verbatim>\<open>threads/synch.cc\<close>): threads, the ready lists, semaphores, locks, condition variables and ports, on one record
    that extends the interrupt state.
  \<^item> \<^verbatim>\<open>Threads_Inv\<close> defines the steps of the kernel and the invariant of the thread system, \<^verbatim>\<open>Kernel_Safety\<close> proves
    that every step keeps it, and \<^verbatim>\<open>Lock_Inv\<close> proves mutual exclusion of locks. \<^verbatim>\<open>Kernel_Quiet\<close> states as locales
    (\<open>scheduling\<close>, \<open>interruptible\<close>, \<open>switching\<close>) what a relation has to satisfy to hold across thread switches and clock
    ticks; they are interpreted on the memory of the machine, the tokens of the locks and the work of the threads.
    \<^verbatim>\<open>User_Switch\<close> follows the saved registers of a user thread through every step that other threads make.
  \<^item> \<^verbatim>\<open>Thread_Work\<close>: the calls that a thread has not finished, which no other thread changes, and what they come to for a lock.
    \<^verbatim>\<open>Synch_List\<close> (\<^verbatim>\<open>threads/synchlist.h\<close>): the synchronised list, used by any number of threads of the kernel.
  \<^item> \<^verbatim>\<open>User_Memory\<close> (\<^verbatim>\<open>userprog/user.cc\<close>): the kernel's access to the memory of user programs. \<^verbatim>\<open>AddrSpace\<close>
    (\<^verbatim>\<open>userprog/addrspace.cc\<close>, \<^verbatim>\<open>bin/noff.h\<close>): frames, page tables and the loading of programs. \<^verbatim>\<open>Console\<close>
    (\<^verbatim>\<open>machine/console.cc\<close>, \<^verbatim>\<open>userprog/SynchConsole.cc\<close>): keyboard and display; \<^verbatim>\<open>Console_Live\<close> proves that waiting for
    them ends. \<^verbatim>\<open>Syscalls\<close> (\<^verbatim>\<open>userprog/exception.cc\<close>): the handler of system calls on the state of the whole system
    (\<open>os\<close>: kernel, machine, disk, console, address spaces, processes).
  \<^item> \<^verbatim>\<open>User_Run\<close>: an instruction of a user program with the kernel's handler for its traps, the part of
    \<^verbatim>\<open>Initialize\<close> in \<^verbatim>\<open>threads/system.cc\<close> that sets up this state, and \<^verbatim>\<open>StartProcess\<close> of \<^verbatim>\<open>userprog/progtest.cc\<close>.
    \<^verbatim>\<open>Kernel_Memory\<close> proves that the thread system never changes user memory, \<^verbatim>\<open>Process_Isolation\<close> that user programs
    cannot touch each other's memory, \<^verbatim>\<open>Program_Start\<close> that a program named on the disk is loaded and ready to run,
    \<^verbatim>\<open>File_Calls\<close> what the system calls on files do.
  \<^item> \<^verbatim>\<open>Network\<close> (\<^verbatim>\<open>machine/network.cc\<close>, the sockets of \<^verbatim>\<open>machine/sysdep.cc\<close>) and \<^verbatim>\<open>Post\<close> (\<^verbatim>\<open>network/post.cc\<close>): packets,
    mailboxes and a network of machines. The locale \<open>wire_format\<close> is the contract of the headers in a packet.
  \<^item> \<^verbatim>\<open>Coff\<close> (\<^verbatim>\<open>bin/coff2noff.c\<close>, \<^verbatim>\<open>bin/coff.h\<close>): the converter that makes executables from object files;
    \<^verbatim>\<open>Program_Build\<close> follows a program from the object file through the disk into memory.

  \<^bold>\<open>How state and operations correspond.\<close> A class is a record with the fields of the source, an operation a
  function of the same name with the class in front (\<open>OpenFile_WriteAt\<close> is \<^verbatim>\<open>OpenFile::WriteAt\<close>); loops are
  auxiliary functions named after the operation. Integers of the simulated machine are 32-bit words, those of
  the kernel are unbounded integers, with an explicit bound where an \<^verbatim>\<open>int\<close> is stored in 32 bits, and with the overflow as a fault
  (\<open>IntOverflow\<close>) in \<^verbatim>\<open>OpenFile::ReadAt\<close>, whose size comes unchecked from user programs (\<^verbatim>\<open>WriteAt\<close> would need a buffer of two gigabytes). Memory that the
  source leaves uninitialised is an argument (\<open>junk\<close>, \<open>fresh_buf\<close>), so that the theorems hold for all contents.

  \<^bold>\<open>Threads.\<close> A context switch happens inside a call, so a thread control block holds the stack of
  \<open>frame\<close>s that its thread still has to run: a call to be made, or the rest of a routine after a
  switch. \<open>exec_frame\<close> runs the topmost frame; the relation \<open>kernel_step\<close> lets the current thread run its frames,
  or, when it has none, make any call, create objects or start a device. A routine runs without interruption
  while interrupts are disabled; the clock can tick whenever they are enabled again. A fault is not a step.
  The relation \<open>os_step\<close> adds the instructions and system calls of user programs. In the synchronised list a thread
  is at a point of an operation and its calls run on the kernel; in the console and the post office a thread is represented by the point it has reached between two waits.

  \<^bold>\<open>Loops and termination.\<close> Loops over arrays and lists are structurally recursive. Those that may run for ever are
  \<^verbatim>\<open>partial_function (option)\<close>: \<open>fire_due\<close>, the walks along linked lists, \<open>print_loop\<close>, \<open>await_written\<close> and \<open>await_char\<close>, which
  are proved to return (the last when a key is going to be pressed), \<open>sleep_loop\<close>, which waits for interrupts, \<open>rotate_to\<close>, the
  loop of \<^verbatim>\<open>ChangeQueuePriority\<close>, and \<open>skip_loop\<close>, which skips separators in the arguments of a program.

  \<^bold>\<open>Groups of theorems.\<close> For the file system: the refinement of the map from names to contents, round trips
  (write and read, create and remove, copy and print, restart), refusals that leave the disk unchanged, and the two ways in which
  names and sizes break it. For the machine: instructions complete or trap precisely, exact products and overflow traps,
  isolation and round trips of memory accesses. For interrupts: exactly the due ones fire, in order. For threads:
  the invariant of queues and states, no lost threads, safe deletion, dispatch order, restored user state,
  mutual exclusion and ownership of locks. For the synchronised list: one thread at a time, every operation is that of a
  queue, and the destructor that deletes its lock twice. For user programs: distinct frames, isolation, loading and start,
  the effect of the file system calls, and the places where loading, reading and strings go wrong. For the console: no
  character is lost, and waiting ends. For the network: letters arrive in order and unchanged. For the converter: the
  segments of the new file are the sections of the old one.

  \<^bold>\<open>Not modelled.\<close> The output of \<^verbatim>\<open>Print\<close> and \<^verbatim>\<open>DEBUG\<close>, command line handling, destructors of objects that live as long as
  the kernel (other than those of \<^verbatim>\<open>threads/synch.cc\<close>), the preemptive scheduler (UNIX signals), the assembly of \<^verbatim>\<open>SWITCH\<close>, the test drivers, the
  other tools under \<^verbatim>\<open>bin/\<close> (an older simulator and disassemblers) and the test programs. A system call that waits for the disk or the console runs to its end without
  other threads in between, and the console and the network have interrupt queues of their own. Sockets are
  unbounded queues. The synchronous disk has a single caller: its lock and its semaphore are not part of the state. The locks and semaphores of the
  console are flags and counters of its own state, not those of the kernel.
\<close>

end
